(* ===== verification/Kprelude.thy ===== *)
theory Kprelude
  imports Main "HOL-Library.Word"
begin

text \<open>
  What every component of the kernel model shares: the machine-integer types of
  \<^verbatim>\<open>types.h\<close>, the identities of locks and sleep channels, the monad in which kernel code is
  written, its loops, and the rules that carry an invariant through a piece of code.

  Kernel code is a function from the kernel's global state to an outcome.  An outcome is a
  return value with the state left behind, a call of \<^verbatim>\<open>panic\<close> (which never returns), a switch to
  the scheduler (the calling thread is asleep, has yielded or has exited, as its entry in the
  process table says), or a loop that runs forever.
\<close>

unbundle bit_operations_syntax

named_theorems kern_simps \<open>evaluation of the kernel monad\<close>
named_theorems params \<open>numerical values of the compile-time parameters\<close>
named_theorems keeps_intros \<open>rules that carry an invariant through kernel code\<close>

section \<open>Types\<close>

text \<open>The integer types of \<^verbatim>\<open>types.h\<close>.\<close>

type_synonym uchar = "8 word"
type_synonym ushort = "16 word"
type_synonym uint = "32 word"
type_synonym uint64 = "64 word"

text \<open>
  Memory that the code addresses byte by byte: a disk block (indices below \<^verbatim>\<open>BSIZE\<close>), or physical
  memory (indices are physical addresses).
\<close>

type_synonym bytes = "nat \<Rightarrow> uchar"

text \<open>
  Locks have an identity, which stands for the address of the lock's \<^verbatim>\<open>struct\<close>.  The sleep-locks of
  the kernel are those in buffers and in-memory inodes.
\<close>

datatype slk = Buf_lock nat | Inode_lock nat

datatype lock =
    Kmem_lock | Pid_lock | Wait_lock | Proc_lock nat | Tickslock
  | Bcache_lock | Sleep_lk slk | Log_lock | Itable_lock | Ftable_lock
  | Pipe_lock nat | Cons_lock | Uart_tx_lock | Vdisk_lock | Pr_lock

text \<open>
  Sleep channels are arbitrary kernel addresses in the code; these are the ones it sleeps on.
\<close>

datatype chan =
    Chan_proc nat | Chan_sleeplock slk | Chan_log | Chan_ticks
  | Chan_nread nat | Chan_nwrite nat | Chan_cons_r | Chan_uart_tx_r
  | Chan_disk_free | Chan_buf nat

section \<open>The kernel monad\<close>

datatype ('a, 's) outcome =
    Ok 'a 's
  | Panic string
  | Switch 's
  | Diverge

type_synonym ('s, 'a) kern = "'s \<Rightarrow> ('a, 's) outcome"

definition ret :: "'a \<Rightarrow> ('s, 'a) kern" where
  "ret x = (\<lambda>s. Ok x s)"

definition kdo :: "('s, 'a) kern \<Rightarrow> ('a \<Rightarrow> ('s, 'b) kern) \<Rightarrow> ('s, 'b) kern" where
  "kdo m f = (\<lambda>s. case m s of
       Ok x t \<Rightarrow> f x t
     | Panic e \<Rightarrow> Panic e
     | Switch t \<Rightarrow> Switch t
     | Diverge \<Rightarrow> Diverge)"

definition gets :: "('s \<Rightarrow> 'a) \<Rightarrow> ('s, 'a) kern" where
  "gets f = (\<lambda>s. Ok (f s) s)"

definition modify :: "('s \<Rightarrow> 's) \<Rightarrow> ('s, unit) kern" where
  "modify f = (\<lambda>s. Ok () (f s))"

definition panic :: "string \<Rightarrow> ('s, 'a) kern" where
  "panic e = (\<lambda>s. Panic e)"

definition diverge :: "('s, 'a) kern" where
  "diverge = (\<lambda>s. Diverge)"

definition kwhen :: "bool \<Rightarrow> ('s, unit) kern \<Rightarrow> ('s, unit) kern" where
  "kwhen c m = (if c then m else ret ())"

lemmas kmonad_defs = ret_def gets_def modify_def panic_def diverge_def

lemma kdo_ret [kern_simps]: "kdo (ret x) f s = f x s"
  by (simp add: kdo_def ret_def)

lemma kdo_gets [kern_simps]: "kdo (gets g) f s = f (g s) s"
  by (simp add: kdo_def gets_def)

lemma kdo_modify [kern_simps]: "kdo (modify g) f s = f () (g s)"
  by (simp add: kdo_def modify_def)

lemma kdo_panic [kern_simps]: "kdo (panic e) f s = Panic e"
  by (simp add: kdo_def panic_def)

lemma kdo_diverge [kern_simps]: "kdo diverge f s = Diverge"
  by (simp add: kdo_def diverge_def)

lemma kdo_assoc: "kdo (kdo m f) g = kdo m (\<lambda>x. kdo (f x) g)"
  by (rule ext) (simp add: kdo_def split: outcome.splits)

lemma kdo_assoc_at [kern_simps]: "kdo (kdo m f) g s = kdo m (\<lambda>x. kdo (f x) g) s"
  by (simp add: kdo_assoc)

lemma kdo_if_at [kern_simps]: "kdo (if c then m else n) f s = (if c then kdo m f s else kdo n f s)"
  by simp

lemma kwhen_at [kern_simps]: "kwhen c m s = (if c then m s else Ok () s)"
  by (simp add: kwhen_def ret_def)

lemma kdo_kwhen [kern_simps]: "kdo (kwhen c m) f s = (if c then kdo m f s else f () s)"
  by (simp add: kwhen_def kdo_def ret_def)

lemma ret_at [kern_simps]: "ret x s = Ok x s"
  by (simp add: ret_def)

lemma gets_at [kern_simps]: "gets f s = Ok (f s) s"
  by (simp add: gets_def)

lemma modify_at [kern_simps]: "modify f s = Ok () (f s)"
  by (simp add: modify_def)

lemma panic_at [kern_simps]: "panic e s = Panic e"
  by (simp add: panic_def)

text \<open>Once the first part is known to return, the rest runs from where it left off.\<close>

lemma kdo_Ok: "m s = Ok x t \<Longrightarrow> kdo m f s = f x t"
  by (simp add: kdo_def)

lemma kdo_Panic: "m s = Panic e \<Longrightarrow> kdo m f s = Panic e"
  by (simp add: kdo_def)

lemma kdo_Switch: "m s = Switch t \<Longrightarrow> kdo m f s = Switch t"
  by (simp add: kdo_def)

lemma kdo_OkE:
  assumes "kdo m f s = Ok y u"
  obtains x t where "m s = Ok x t" and "f x t = Ok y u"
  using assms by (auto simp: kdo_def split: outcome.splits)

section \<open>Loops\<close>

text \<open>
  A \<^verbatim>\<open>for\<close> loop over known indices, and a \<^verbatim>\<open>for\<close> loop whose body may leave it early with a result
  (\<^verbatim>\<open>break\<close>, \<^verbatim>\<open>return\<close> or \<^verbatim>\<open>goto\<close> out of the loop): the body gives \<^term>\<open>Some r\<close> to leave.
\<close>

primrec for_each :: "'i list \<Rightarrow> ('i \<Rightarrow> ('s, unit) kern) \<Rightarrow> ('s, unit) kern" where
  "for_each [] body = ret ()"
| "for_each (i # is) body = kdo (body i) (\<lambda>_. for_each is body)"

primrec scan :: "'i list \<Rightarrow> ('i \<Rightarrow> ('s, 'a option) kern) \<Rightarrow> ('s, 'a option) kern" where
  "scan [] body = ret None"
| "scan (i # is) body =
     kdo (body i) (\<lambda>r. case r of Some x \<Rightarrow> ret (Some x) | None \<Rightarrow> scan is body)"

lemma for_each_append:
  "for_each (xs @ ys) body s = kdo (for_each xs body) (\<lambda>_. for_each ys body) s"
  by (induction xs arbitrary: s) (simp_all add: kern_simps kdo_def split: outcome.splits)

text \<open>A loop whose body always returns, with a known effect on the state, is a fold.\<close>

lemma for_each_fold:
  assumes "\<And>i s. i \<in> set is \<Longrightarrow> P s \<Longrightarrow> body i s = Ok () (f i s) \<and> P (f i s)"
    and "P s"
  shows "for_each is body s = Ok () (fold f is s) \<and> P (fold f is s)"
  using assms
proof (induction "is" arbitrary: s)
  case Nil
  then show ?case by (simp add: kern_simps)
next
  case (Cons i "is")
  from Cons.prems have "body i s = Ok () (f i s)" and P: "P (f i s)" by auto
  moreover have "for_each is body (f i s) = Ok () (fold f is (f i s)) \<and> P (fold f is (f i s))"
    by (rule Cons.IH) (use Cons.prems P in auto)
  ultimately show ?case by (simp add: kdo_Ok)
qed

text \<open>A search whose body does not change the state is \<^const>\<open>find\<close>.\<close>

lemma scan_find:
  assumes "\<And>i. i \<in> set is \<Longrightarrow> body i s = Ok (if p i then Some (r i) else None) s"
  shows "scan is body s = Ok (map_option r (find p is)) s"
  using assms by (induction "is") (simp_all add: kern_simps kdo_Ok)

section \<open>Rules for reasoning\<close>

text \<open>
  \<open>returns P m Q\<close>: from a state that satisfies \<open>P\<close> the code returns, and what it returns and leaves
  behind satisfies \<open>Q\<close>.  \<open>keeps I m\<close>: the code leaves the invariant \<open>I\<close> as it found it, whether it
  returns or switches to the scheduler.
\<close>

definition returns :: "('s \<Rightarrow> bool) \<Rightarrow> ('s, 'a) kern \<Rightarrow> ('a \<Rightarrow> 's \<Rightarrow> bool) \<Rightarrow> bool" where
  "returns P m Q \<longleftrightarrow> (\<forall>s. P s \<longrightarrow> (\<exists>x t. m s = Ok x t \<and> Q x t))"

definition keeps :: "('s \<Rightarrow> bool) \<Rightarrow> ('s, 'a) kern \<Rightarrow> bool" where
  "keeps I m \<longleftrightarrow> (\<forall>s. I s \<longrightarrow> (case m s of
      Ok x t \<Rightarrow> I t | Panic e \<Rightarrow> True | Switch t \<Rightarrow> I t | Diverge \<Rightarrow> True))"

lemma returnsD: "returns P m Q \<Longrightarrow> P s \<Longrightarrow> \<exists>x t. m s = Ok x t \<and> Q x t"
  by (simp add: returns_def)

lemma keepsI:
  assumes "\<And>s x t. I s \<Longrightarrow> m s = Ok x t \<Longrightarrow> I t"
    and "\<And>s t. I s \<Longrightarrow> m s = Switch t \<Longrightarrow> I t"
  shows "keeps I m"
  unfolding keeps_def
proof (intro allI impI)
  fix s assume "I s"
  then show "case m s of Ok x t \<Rightarrow> I t | Panic e \<Rightarrow> True | Switch t \<Rightarrow> I t | Diverge \<Rightarrow> True"
    by (cases "m s") (auto intro: assms)
qed

lemma keepsD:
  assumes "keeps I m" and "I s" and "m s = Ok x t"
  shows "I t"
  using assms(1) [unfolded keeps_def, rule_format, OF assms(2)] assms(3) by simp

lemma keeps_SwitchD:
  assumes "keeps I m" and "I s" and "m s = Switch t"
  shows "I t"
  using assms(1) [unfolded keeps_def, rule_format, OF assms(2)] assms(3) by simp

lemma keeps_ret [keeps_intros]: "keeps I (ret x)"
  by (simp add: keeps_def ret_def)

lemma keeps_gets [keeps_intros]: "keeps I (gets f)"
  by (simp add: keeps_def gets_def)

lemma keeps_panic [keeps_intros]: "keeps I (panic e)"
  by (simp add: keeps_def panic_def)

lemma keeps_diverge [keeps_intros]: "keeps I diverge"
  by (simp add: keeps_def diverge_def)

lemma keeps_modify: "(\<And>s. I s \<Longrightarrow> I (f s)) \<Longrightarrow> keeps I (modify f)"
  by (simp add: keeps_def modify_def)

lemma keeps_kdo [keeps_intros]:
  assumes "keeps I m" and "\<And>x. keeps I (f x)"
  shows "keeps I (kdo m f)"
proof (rule keepsI)
  fix s y u
  assume "I s" and "kdo m f s = Ok y u"
  then obtain x t where "m s = Ok x t" and "f x t = Ok y u" by (elim kdo_OkE)
  then show "I u" using assms \<open>I s\<close> by (blast dest: keepsD)
next
  fix s u
  assume "I s" and "kdo m f s = Switch u"
  then show "I u"
    using assms by (auto simp: kdo_def dest: keepsD keeps_SwitchD split: outcome.splits)
qed

lemma keeps_if [keeps_intros]:
  "(c \<Longrightarrow> keeps I m) \<Longrightarrow> (\<not> c \<Longrightarrow> keeps I n) \<Longrightarrow> keeps I (if c then m else n)"
  by simp

lemma keeps_kwhen [keeps_intros]: "(c \<Longrightarrow> keeps I m) \<Longrightarrow> keeps I (kwhen c m)"
  by (simp add: kwhen_def keeps_ret)

lemma keeps_case_option [keeps_intros]:
  "(x = None \<Longrightarrow> keeps I m) \<Longrightarrow> (\<And>y. x = Some y \<Longrightarrow> keeps I (f y)) \<Longrightarrow>
   keeps I (case x of None \<Rightarrow> m | Some y \<Rightarrow> f y)"
  by (cases x) auto

lemma keeps_Let [keeps_intros]: "(\<And>y. y = x \<Longrightarrow> keeps I (f y)) \<Longrightarrow> keeps I (let y = x in f y)"
  by simp

lemma keeps_for_each [keeps_intros]:
  "(\<And>i. i \<in> set is \<Longrightarrow> keeps I (body i)) \<Longrightarrow> keeps I (for_each is body)"
  by (induction "is") (simp_all add: keeps_ret keeps_kdo)

lemma keeps_scan [keeps_intros]:
  "(\<And>i. i \<in> set is \<Longrightarrow> keeps I (body i)) \<Longrightarrow> keeps I (scan is body)"
  by (induction "is") (simp_all add: keeps_ret keeps_kdo keeps_case_option)

lemma returns_kdo:
  assumes "returns P m Q" and "\<And>x. returns (Q x) (f x) R"
  shows "returns P (kdo m f) R"
  unfolding returns_def
proof (intro allI impI)
  fix s assume "P s"
  with assms(1) obtain x t where m: "m s = Ok x t" and Q: "Q x t" by (auto simp: returns_def)
  from assms(2) Q obtain y u where "f x t = Ok y u" and "R y u" by (fastforce simp: returns_def)
  with m show "\<exists>y u. kdo m f s = Ok y u \<and> R y u" by (simp add: kdo_Ok)
qed

lemma returns_for_each:
  assumes "\<And>i. i \<in> set is \<Longrightarrow> returns I (body i) (\<lambda>_. I)"
  shows "returns I (for_each is body) (\<lambda>_. I)"
  using assms
proof (induction "is")
  case Nil
  then show ?case by (simp add: returns_def ret_def)
next
  case (Cons i "is")
  then have "returns I (kdo (body i) (\<lambda>_. for_each is body)) (\<lambda>_. I)"
    by (intro returns_kdo [where Q = "\<lambda>_. I"]) simp_all
  then show ?case by simp
qed

section \<open>Machines and their invariants\<close>

text \<open>
  The interface of a component seen as a state machine: its start states, its steps, and an
  invariant every step keeps.  What a client may then rely on is that the invariant holds in every
  state the component reaches.
\<close>

locale machine =
  fixes start :: "'s \<Rightarrow> bool"
    and step :: "'s \<Rightarrow> 's \<Rightarrow> bool"
    and inv :: "'s \<Rightarrow> bool"
  assumes inv_start: "start s \<Longrightarrow> inv s"
    and inv_step: "inv s \<Longrightarrow> step s t \<Longrightarrow> inv t"
begin

lemma inv_steps:
  assumes "step\<^sup>*\<^sup>* s t" and "inv s"
  shows "inv t"
  using assms by (induction rule: rtranclp_induct) (simp_all add: inv_step)

lemma inv_reachable:
  assumes "start s" and "step\<^sup>*\<^sup>* s t"
  shows "inv t"
  using inv_steps [OF assms(2) inv_start [OF assms(1)]] .

end

section \<open>Stores\<close>

text \<open>
  The interface of anything that is read and written at a place: a field of a block, a word of
  memory, a slot of a table.  A read after a write at the same place gives what was written, and a
  write leaves every place apart from it alone.
\<close>

locale store =
  fixes rd :: "'m \<Rightarrow> 'k \<Rightarrow> 'v"
    and wr :: "'m \<Rightarrow> 'k \<Rightarrow> 'v \<Rightarrow> 'm"
    and apart :: "'k \<Rightarrow> 'k \<Rightarrow> bool"
  assumes rd_same: "rd (wr m k v) k = v"
    and rd_apart: "apart k k' \<Longrightarrow> rd (wr m k v) k' = rd m k'"
begin

lemma rd_writes_apart:
  assumes "\<And>i. i \<in> set is \<Longrightarrow> apart (at i) k"
  shows "rd (fold (\<lambda>i m. wr m (at i) (val i)) is m) k = rd m k"
  using assms by (induction "is" arbitrary: m) (simp_all add: rd_apart)

lemma rd_writes:
  assumes "i \<in> set is" and "distinct is"
    and "\<And>j. j \<in> set is \<Longrightarrow> j \<noteq> i \<Longrightarrow> apart (at j) (at i)"
  shows "rd (fold (\<lambda>i m. wr m (at i) (val i)) is m) (at i) = val i"
  using assms
proof (induction "is" arbitrary: m)
  case Nil
  then show ?case by simp
next
  case (Cons j js)
  show ?case
  proof (cases "j = i")
    case True
    with Cons.prems have "\<And>k. k \<in> set js \<Longrightarrow> apart (at k) (at i)" by auto
    with True show ?thesis by (simp add: rd_writes_apart rd_same)
  next
    case False
    with Cons.prems have "i \<in> set js" and "distinct js" by auto
    from Cons.IH [OF this Cons.prems(3)] show ?thesis by simp
  qed
qed

end

end
