(* ===== verification/Ulib.thy ===== *)
theory Ulib
  imports Kprelude
begin

text \<open>
  The user-level C library, \<^verbatim>\<open>user/ulib.c\<close>.  User programs work on characters: an array of characters in memory is a list,
  a pointer into it an index, and a NUL-terminated string the list of its characters before the NUL
  (\<open>cstr\<close> reads one from an array).  The kernel's versions of the functions that both have are in \<open>Kstring\<close>;
  the ones here have a \<^verbatim>\<open>u\<close> in front.
\<close>

section \<open>Strings in arrays\<close>

abbreviation NUL :: char where "NUL \<equiv> CHR 0x00"

definition cstr :: "char list \<Rightarrow> nat \<Rightarrow> string" where
  "cstr buf p = takeWhile (\<lambda>c. c \<noteq> NUL) (drop p buf)"

definition deref :: "char list \<Rightarrow> nat \<Rightarrow> char" where
  "deref buf p = (if p < length buf then buf ! p else NUL)"

section \<open>The functions\<close>

primrec strcpy :: "char list \<Rightarrow> nat \<Rightarrow> string \<Rightarrow> char list" where
  "strcpy buf s [] = buf[s := NUL]"
| "strcpy buf s (c # t) = strcpy (buf[s := c]) (s + 1) t"

fun strcmp :: "string \<Rightarrow> string \<Rightarrow> int" where
  "strcmp [] [] = 0"
| "strcmp [] (d # q) = - int (of_char d)"
| "strcmp (c # p) [] = int (of_char c)"
| "strcmp (c # p) (d # q) = (if c = d then strcmp p q else int (of_char c) - int (of_char d))"

primrec ustrlen :: "string \<Rightarrow> nat" where
  "ustrlen [] = 0"
| "ustrlen (c # s) = Suc (ustrlen s)"

primrec umemset :: "char list \<Rightarrow> nat \<Rightarrow> char \<Rightarrow> nat \<Rightarrow> char list" where
  "umemset buf dst c 0 = buf"
| "umemset buf dst c (Suc n) = (umemset buf dst c n)[dst + n := c]"

primrec strchr :: "string \<Rightarrow> char \<Rightarrow> nat option" where
  "strchr [] c = None"
| "strchr (x # s) c = (if x = c then Some 0 else map_option Suc (strchr s c))"

text \<open>
  \<^verbatim>\<open>gets\<close> reads one character at a time from descriptor 0.  The input is what the calls of \<^verbatim>\<open>read\<close> deliver: each takes
  its first character, and at its end (or on an error) gives less than 1.  The result is the array and the rest of the input.
\<close>

primrec ugets_loop :: "nat \<Rightarrow> char list \<Rightarrow> nat \<Rightarrow> string \<Rightarrow> char list \<times> nat \<times> string" where
  "ugets_loop 0 buf i inp = (buf, i, inp)"
| "ugets_loop (Suc k) buf i inp =
     (case inp of
        [] \<Rightarrow> (buf, i, [])
      | c # rest \<Rightarrow>
          let buf' = buf[i := c] in
          if c = CHR ''\<newline>'' \<or> c = CHR 0x0D then (buf', i + 1, rest)
          else ugets_loop k buf' (i + 1) rest)"

definition ugets :: "char list \<Rightarrow> nat \<Rightarrow> string \<Rightarrow> char list \<times> string" where
  "ugets buf mx inp = (let (buf', i, rest) = ugets_loop (mx - 1) buf 0 inp in (buf'[i := NUL], rest))"

definition is_digit :: "char \<Rightarrow> bool" where
  "is_digit c \<longleftrightarrow> of_char CHR ''0'' \<le> (of_char c :: nat) \<and> (of_char c :: nat) \<le> of_char CHR ''9''"

primrec atoi_loop :: "uint \<Rightarrow> string \<Rightarrow> uint" where
  "atoi_loop n [] = n"
| "atoi_loop n (c # s) = (if is_digit c then atoi_loop (n * 10 + of_char c - of_char CHR ''0'') s else n)"

definition atoi :: "string \<Rightarrow> int" where
  "atoi s = sint (atoi_loop 0 s)"

primrec ucopy_up :: "char list \<Rightarrow> nat \<Rightarrow> nat \<Rightarrow> nat \<Rightarrow> char list" where
  "ucopy_up buf dst src 0 = buf"
| "ucopy_up buf dst src (Suc n) = ucopy_up (buf[dst := deref buf src]) (dst + 1) (src + 1) n"

primrec ucopy_down :: "char list \<Rightarrow> nat \<Rightarrow> nat \<Rightarrow> nat \<Rightarrow> char list" where
  "ucopy_down buf dst src 0 = buf"
| "ucopy_down buf dst src (Suc n) = ucopy_down (buf[dst + n := deref buf (src + n)]) dst src n"

definition umemmove :: "char list \<Rightarrow> nat \<Rightarrow> nat \<Rightarrow> int \<Rightarrow> char list" where
  "umemmove buf dst src n = (if src > dst then ucopy_up buf dst src (nat n) else ucopy_down buf dst src (nat n))"

primrec umemcmp :: "char list \<Rightarrow> nat \<Rightarrow> char list \<Rightarrow> nat \<Rightarrow> nat \<Rightarrow> int" where
  "umemcmp b1 p1 b2 p2 0 = 0"
| "umemcmp b1 p1 b2 p2 (Suc n) =
     (if deref b1 p1 \<noteq> deref b2 p2 then int (of_char (deref b1 p1)) - int (of_char (deref b2 p2))
      else umemcmp b1 (p1 + 1) b2 (p2 + 1) n)"

section \<open>What they compute\<close>

lemma ustrlen_length [simp]: "ustrlen s = length s"
  by (induction s) simp_all

lemma strchr_None [simp]: "strchr s c = None \<longleftrightarrow> c \<notin> set s"
  by (induction s) auto

lemma strchr_Some: "strchr s c = Some i \<longleftrightarrow> i < length s \<and> s ! i = c \<and> c \<notin> set (take i s)"
proof (induction s arbitrary: i)
  case (Cons x s)
  show ?case
  proof (cases i)
    case (Suc j)
    then show ?thesis using Cons.IH [of j] by auto
  qed auto
qed simp

lemma strcmp_0_iff: "strcmp p q = 0 \<longleftrightarrow> p = q" if "NUL \<notin> set p" "NUL \<notin> set q"
  using that
proof (induction p q rule: strcmp.induct)
  case (2 d q)
  then have "(of_char d :: nat) \<noteq> of_char NUL" by (metis list.set_intros(1) of_char_eq_iff)
  then show ?case by simp
next
  case (3 c p)
  then have "(of_char c :: nat) \<noteq> of_char NUL" by (metis list.set_intros(1) of_char_eq_iff)
  then show ?case by simp
qed auto

lemma umemset_at: "dst + n \<le> length buf \<Longrightarrow>
    umemset buf dst c n ! i = (if dst \<le> i \<and> i < dst + n then c else buf ! i) \<and> length (umemset buf dst c n) = length buf"
  by (induction n) (auto simp: nth_list_update)

text \<open>Copying upwards is right when the source is above the destination, whether they overlap or not.\<close>

lemma ucopy_up_at:
  assumes "dst < src" and "src + n \<le> length buf"
  shows "length (ucopy_up buf dst src n) = length buf \<and>
    (\<forall>i. ucopy_up buf dst src n ! i = (if dst \<le> i \<and> i < dst + n then buf ! (src + (i - dst)) else buf ! i))"
  using assms
proof (induction n arbitrary: buf dst src)
  case (Suc n)
  let ?b = "buf[dst := deref buf src]"
  have "length (ucopy_up ?b (dst + 1) (src + 1) n) = length ?b \<and>
    (\<forall>i. ucopy_up ?b (dst + 1) (src + 1) n ! i = (if dst + 1 \<le> i \<and> i < dst + 1 + n then ?b ! (src + 1 + (i - (dst + 1))) else ?b ! i))"
    using Suc by (intro Suc.IH) auto
  then show ?case using Suc.prems by (auto simp: nth_list_update deref_def Suc_diff_Suc)
qed auto

lemma cstr_at: "NUL \<notin> set w \<Longrightarrow> (t = [] \<or> hd t = NUL) \<Longrightarrow> length b = p \<Longrightarrow> cstr (b @ w @ t) p = w"
  by (cases t) (auto simp: cstr_def takeWhile_append)

end
