(* ===== verification/Fcntl.thy ===== *)
theory Fcntl
  imports Kprelude
begin

text \<open>The modes of an open call, \<^verbatim>\<open>kernel/fcntl.h\<close>, which the kernel and the user programs share.\<close>

definition O_RDONLY :: uint where [params]: "O_RDONLY = 0x000"
definition O_WRONLY :: uint where [params]: "O_WRONLY = 0x001"
definition O_RDWR :: uint where [params]: "O_RDWR = 0x002"
definition O_CREATE :: uint where [params]: "O_CREATE = 0x200"
definition O_TRUNC :: uint where [params]: "O_TRUNC = 0x400"

end
