(* ===== verification/Sh.thy ===== *)
theory Sh
  imports Ulib Fcntl
begin

text \<open>
  The parser of the shell, \<^verbatim>\<open>user/sh.c\<close>.  The line is an array of characters that ends in a NUL.  The parser's only state is
  its position in the line (\<^verbatim>\<open>*ps\<close>), kept by the monad of \<open>Kprelude\<close>; \<^verbatim>\<open>panic\<close> of the shell prints the message and exits.
  A command is a tree over words.  The parser makes its words pairs of positions, the first character and the one after the last
  (\<^verbatim>\<open>argv\<close> and \<^verbatim>\<open>eargv\<close>, \<^verbatim>\<open>file\<close> and \<^verbatim>\<open>efile\<close>); \<^verbatim>\<open>nulterminate\<close> then ends each word in the array by a NUL.

  Shown: the parser always ends, with a tree that fits the fixed-size arrays or one of its messages; the words
  that the commands see are the words of the line, none cut short by another; and each command tree has a line that parses to it.
\<close>

section \<open>Commands\<close>

definition MAXARGS :: nat where [params]: "MAXARGS = 10"

datatype 'w cmd =
    EXEC "'w list"
  | REDIR "'w cmd" 'w uint int
  | PIPE "'w cmd" "'w cmd"
  | LIST "'w cmd" "'w cmd"
  | BACK "'w cmd"

type_synonym span = "nat \<times> nat"

definition execcmd :: "'w cmd" where "execcmd = EXEC []"
definition redircmd :: "'w cmd \<Rightarrow> 'w \<Rightarrow> uint \<Rightarrow> int \<Rightarrow> 'w cmd" where "redircmd subcmd f mode fd = REDIR subcmd f mode fd"
definition pipecmd :: "'w cmd \<Rightarrow> 'w cmd \<Rightarrow> 'w cmd" where "pipecmd left right = PIPE left right"
definition listcmd :: "'w cmd \<Rightarrow> 'w cmd \<Rightarrow> 'w cmd" where "listcmd left right = LIST left right"
definition backcmd :: "'w cmd \<Rightarrow> 'w cmd" where "backcmd subcmd = BACK subcmd"

lemmas cmd_cons = execcmd_def redircmd_def pipecmd_def listcmd_def backcmd_def

section \<open>Tokens\<close>

definition whitespace :: string where "whitespace = [CHR '' '', CHR 0x09, CHR 0x0D, CHR 0x0A, CHR 0x0B]"
definition symbols :: string where "symbols = ''<|>&;()''"

definition is_ws :: "char \<Rightarrow> bool" where "is_ws c \<longleftrightarrow> strchr whitespace c \<noteq> None"
definition is_sym :: "char \<Rightarrow> bool" where "is_sym c \<longleftrightarrow> strchr symbols c \<noteq> None"

function skip_while :: "(char \<Rightarrow> bool) \<Rightarrow> char list \<Rightarrow> nat \<Rightarrow> nat \<Rightarrow> nat" where
  "skip_while P buf es s = (if s < es \<and> P (deref buf s) then skip_while P buf es (s + 1) else s)"
  by pat_completeness auto
termination by (relation "measure (\<lambda>(P, buf, es, s). es - s)") auto

declare skip_while.simps [simp del]

text \<open>The token's kind, its first position and the one after it; the new position is the state.\<close>

definition gettoken :: "char list \<Rightarrow> nat \<Rightarrow> (nat, char \<times> nat \<times> nat) kern" where
  "gettoken buf es =
     kdo (gets (skip_while is_ws buf es)) (\<lambda>q.
       let c = deref buf q;
           (k, eq) =
             (if c = NUL then (c, q)
              else if c \<in> set ''|();&<'' then (c, q + 1)
              else if c = CHR ''>'' then
                (if deref buf (q + 1) = CHR ''>'' then (CHR ''+'', q + 2) else (c, q + 1))
              else (CHR ''a'', skip_while (\<lambda>c. \<not> is_ws c \<and> \<not> is_sym c) buf es q))
       in kdo (modify (\<lambda>_. skip_while is_ws buf es eq)) (\<lambda>_.
          ret (k, q, eq)))"

definition peek :: "char list \<Rightarrow> nat \<Rightarrow> string \<Rightarrow> (nat, bool) kern" where
  "peek buf es toks =
     kdo (modify (skip_while is_ws buf es)) (\<lambda>_.
     gets (\<lambda>s. deref buf s \<noteq> NUL \<and> strchr toks (deref buf s) \<noteq> None))"

section \<open>The parser\<close>

text \<open>
  Each loop and each recursive call has fuel, and the calls for a line get as much as the length of the line
  calls for.  \<^verbatim>\<open>parseexec\<close> fills in the arguments of its command after redirections have been put around it; the
  redirections point to that command, so \<open>set_argv\<close> puts them in the command below them.
\<close>

primrec parseredirs_loop :: "nat \<Rightarrow> char list \<Rightarrow> nat \<Rightarrow> span cmd \<Rightarrow> (nat, span cmd) kern" where
  "parseredirs_loop 0 buf es cmd = diverge"
| "parseredirs_loop (Suc n) buf es cmd =
     kdo (peek buf es ''<>'') (\<lambda>b.
       if b then
         kdo (gettoken buf es) (\<lambda>(tok, _).
         kdo (gettoken buf es) (\<lambda>(k, q, eq).
           if k \<noteq> CHR ''a'' then panic ''missing file for redirection''
           else if tok = CHR ''<'' then parseredirs_loop n buf es (redircmd cmd (q, eq) O_RDONLY 0)
           else if tok = CHR ''>'' then parseredirs_loop n buf es (redircmd cmd (q, eq) (O_WRONLY OR O_CREATE OR O_TRUNC) 1)
           else if tok = CHR ''+'' then parseredirs_loop n buf es (redircmd cmd (q, eq) (O_WRONLY OR O_CREATE) 1)
           else parseredirs_loop n buf es cmd))
       else ret cmd)"

definition parseredirs :: "span cmd \<Rightarrow> char list \<Rightarrow> nat \<Rightarrow> (nat, span cmd) kern" where
  "parseredirs cmd buf es = parseredirs_loop (es + 1) buf es cmd"

primrec set_argv :: "'w list \<Rightarrow> 'w cmd \<Rightarrow> 'w cmd" where
  "set_argv a (EXEC _) = EXEC a"
| "set_argv a (REDIR c f m d) = REDIR (set_argv a c) f m d"
| "set_argv a (PIPE c d) = PIPE c d"
| "set_argv a (LIST c d) = LIST c d"
| "set_argv a (BACK c) = BACK c"

primrec parseexec_loop :: "nat \<Rightarrow> char list \<Rightarrow> nat \<Rightarrow> span list \<Rightarrow> span cmd \<Rightarrow> (nat, span cmd) kern" where
  "parseexec_loop 0 buf es args r = diverge"
| "parseexec_loop (Suc n) buf es args r =
     kdo (peek buf es ''|)&;'') (\<lambda>b.
       if b then ret (set_argv args r)
       else
         kdo (gettoken buf es) (\<lambda>(tok, q, eq).
           if tok = NUL then ret (set_argv args r)
           else if tok \<noteq> CHR ''a'' then panic ''syntax''
           else if length args + 1 \<ge> MAXARGS then panic ''too many args''
           else
             kdo (parseredirs r buf es) (\<lambda>r'.
             parseexec_loop n buf es (args @ [(q, eq)]) r')))"

primrec parseback :: "nat \<Rightarrow> char list \<Rightarrow> nat \<Rightarrow> span cmd \<Rightarrow> (nat, span cmd) kern" where
  "parseback 0 buf es cmd = diverge"
| "parseback (Suc n) buf es cmd =
     kdo (peek buf es ''&'') (\<lambda>b.
       if b then kdo (gettoken buf es) (\<lambda>_. parseback n buf es (backcmd cmd))
       else ret cmd)"

fun parseline :: "nat \<Rightarrow> char list \<Rightarrow> nat \<Rightarrow> (nat, span cmd) kern"
  and parsepipe :: "nat \<Rightarrow> char list \<Rightarrow> nat \<Rightarrow> (nat, span cmd) kern"
  and parseexec :: "nat \<Rightarrow> char list \<Rightarrow> nat \<Rightarrow> (nat, span cmd) kern"
  and parseblock :: "nat \<Rightarrow> char list \<Rightarrow> nat \<Rightarrow> (nat, span cmd) kern" where
  "parseline 0 buf es = diverge"
| "parseline (Suc n) buf es =
     kdo (parsepipe n buf es) (\<lambda>cmd.
     kdo (parseback (es + 1) buf es cmd) (\<lambda>cmd.
     kdo (peek buf es '';'') (\<lambda>b.
       if b then
         kdo (gettoken buf es) (\<lambda>_.
         kdo (parseline n buf es) (\<lambda>r.
         ret (listcmd cmd r)))
       else ret cmd)))"
| "parsepipe 0 buf es = diverge"
| "parsepipe (Suc n) buf es =
     kdo (parseexec n buf es) (\<lambda>cmd.
     kdo (peek buf es ''|'') (\<lambda>b.
       if b then
         kdo (gettoken buf es) (\<lambda>_.
         kdo (parsepipe n buf es) (\<lambda>r.
         ret (pipecmd cmd r)))
       else ret cmd))"
| "parseexec 0 buf es = diverge"
| "parseexec (Suc n) buf es =
     kdo (peek buf es ''('') (\<lambda>b.
       if b then parseblock n buf es
       else
         kdo (parseredirs execcmd buf es) (\<lambda>r.
         parseexec_loop (es + 1) buf es [] r))"
| "parseblock 0 buf es = diverge"
| "parseblock (Suc n) buf es =
     kdo (peek buf es ''('') (\<lambda>b.
       if \<not> b then panic ''parseblock''
       else
         kdo (gettoken buf es) (\<lambda>_.
         kdo (parseline n buf es) (\<lambda>cmd.
         kdo (peek buf es '')'') (\<lambda>b.
           if \<not> b then panic ''syntax - missing )''
           else
             kdo (gettoken buf es) (\<lambda>_.
             parseredirs cmd buf es)))))"

primrec nulterminate :: "char list \<Rightarrow> span cmd \<Rightarrow> char list" where
  "nulterminate buf (EXEC args) = fold (\<lambda>(q, eq) b. b[eq := NUL]) args buf"
| "nulterminate buf (REDIR c f m d) = (nulterminate buf c)[snd f := NUL]"
| "nulterminate buf (PIPE l r) = nulterminate (nulterminate buf l) r"
| "nulterminate buf (LIST l r) = nulterminate (nulterminate buf l) r"
| "nulterminate buf (BACK c) = nulterminate buf c"

text \<open>The whole of \<^verbatim>\<open>parsecmd\<close>: the tree and the line with its words ended.\<close>

definition parsecmd :: "char list \<Rightarrow> (nat, span cmd \<times> char list) kern" where
  "parsecmd buf =
     (let es = ustrlen (cstr buf 0) in
     kdo (modify (\<lambda>_. 0)) (\<lambda>_.
     kdo (parseline (4 * es + 4) buf es) (\<lambda>cmd.
     kdo (peek buf es []) (\<lambda>_.
     kdo (gets (\<lambda>s. s)) (\<lambda>s.
       if s \<noteq> es then panic ''syntax''
       else ret (cmd, nulterminate buf cmd))))))"

section \<open>The remaining input\<close>

text \<open>
  A line in an array: \<open>es\<close> is where its NUL stands.  \<open>input buf es s\<close> is what the parser has not read at position \<open>s\<close>.
\<close>

definition line :: "char list \<Rightarrow> nat \<Rightarrow> bool" where
  "line buf es \<longleftrightarrow> es \<le> length buf \<and> deref buf es = NUL \<and> NUL \<notin> set (take es buf)"

definition input :: "char list \<Rightarrow> nat \<Rightarrow> nat \<Rightarrow> string" where
  "input buf es s = drop s (take es buf)"

lemma length_input: "line buf es \<Longrightarrow> length (input buf es s) = es - s"
  by (simp add: line_def input_def)

lemma input_add: "input buf es (s + k) = drop k (input buf es s)"
  by (simp add: input_def add.commute)

lemma input_nth: "line buf es \<Longrightarrow> s + i < es \<Longrightarrow> input buf es s ! i = buf ! (s + i)"
  by (simp add: line_def input_def)

lemma deref_input:
  assumes "line buf es" and "s \<le> es"
  shows "deref buf s = (case input buf es s of [] \<Rightarrow> NUL | c # _ \<Rightarrow> c)"
proof (cases "s < es")
  case True
  then have "input buf es s = buf ! s # input buf es (Suc s)"
    using assms by (auto simp: line_def input_def Cons_nth_drop_Suc [symmetric])
  then show ?thesis using True assms by (auto simp: line_def deref_def)
next
  case False
  then have "s = es" using assms by simp
  then show ?thesis using assms by (simp add: line_def input_def)
qed

lemma input_no_NUL: "line buf es \<Longrightarrow> NUL \<notin> set (input buf es s)"
  by (auto simp: line_def input_def dest: in_set_dropD)

lemma skip_while_input:
  assumes "line buf es" and "s \<le> es"
  shows "skip_while P buf es s = s + length (takeWhile P (input buf es s))"
  using assms(2)
proof (induction "es - s" arbitrary: s)
  case 0
  then show ?case using length_input [OF assms(1), of s] by (simp add: skip_while.simps)
next
  case (Suc d)
  then have s: "s < es" by simp
  obtain c r where c: "input buf es s = c # r" using length_input [OF assms(1), of s] s by (cases "input buf es s") auto
  have d: "deref buf s = c" using deref_input [OF assms(1), of s] s c by simp
  have r: "input buf es (s + 1) = r" using input_add [of buf es s 1] c by simp
  have "skip_while P buf es (s + 1) = s + 1 + length (takeWhile P r)"
    using Suc.hyps(1) [of "s + 1"] Suc.hyps(2) s r by simp
  then show ?case using s by (subst skip_while.simps) (simp add: c d)
qed

section \<open>The parser ends\<close>

definition word_char :: "char \<Rightarrow> bool" where
  "word_char c \<longleftrightarrow> \<not> is_ws c \<and> \<not> is_sym c"

text \<open>A word of the line: characters of words up to the end of the line or a character that is none.\<close>

definition span_ok :: "char list \<Rightarrow> nat \<Rightarrow> span \<Rightarrow> bool" where
  "span_ok buf es w \<longleftrightarrow> fst w < snd w \<and> snd w \<le> es \<and> (\<forall>i. fst w \<le> i \<and> i < snd w \<longrightarrow> word_char (deref buf i)) \<and>
     (snd w = es \<or> \<not> word_char (deref buf (snd w)))"

primrec fits :: "'w cmd \<Rightarrow> bool" where
  "fits (EXEC args) \<longleftrightarrow> length args < MAXARGS"
| "fits (REDIR c f m d) \<longleftrightarrow> fits c \<and> (m, d) \<in> {(O_RDONLY, 0), (O_WRONLY OR O_CREATE OR O_TRUNC, 1), (O_WRONLY OR O_CREATE, 1)}"
| "fits (PIPE l r) \<longleftrightarrow> fits l \<and> fits r"
| "fits (LIST l r) \<longleftrightarrow> fits l \<and> fits r"
| "fits (BACK c) \<longleftrightarrow> fits c"

definition cmd_ok :: "char list \<Rightarrow> nat \<Rightarrow> span cmd \<Rightarrow> bool" where
  "cmd_ok buf es c \<longleftrightarrow> fits c \<and> (\<forall>w \<in> set_cmd c. span_ok buf es w)"

definition messages :: "string set" where
  "messages = {''syntax'', ''missing file for redirection'', ''too many args'', ''syntax - missing )''}"

text \<open>The outcome of a parser that ends: a result with the position within the line, or a message.\<close>

definition ends :: "nat \<Rightarrow> ('a \<Rightarrow> nat \<Rightarrow> bool) \<Rightarrow> ('a, nat) outcome \<Rightarrow> bool" where
  "ends es Q r \<longleftrightarrow> (case r of Ok x t \<Rightarrow> t \<le> es \<and> Q x t | Panic e \<Rightarrow> e \<in> messages | _ \<Rightarrow> False)"

lemma ends_kdo:
  assumes "ends es Q (m s)" and "\<And>x t. t \<le> es \<Longrightarrow> Q x t \<Longrightarrow> ends es R (f x t)"
  shows "ends es R (kdo m f s)"
proof (cases "m s")
  case (Ok x t)
  then show ?thesis using assms(1) assms(2) [of t x] by (simp add: ends_def kdo_def)
qed (use assms(1) in \<open>simp_all add: ends_def kdo_def\<close>)

lemma ends_ret: "s \<le> es \<Longrightarrow> Q x s \<Longrightarrow> ends es Q (ret x s)"
  by (simp add: ends_def ret_def)

lemma ends_panic: "e \<in> messages \<Longrightarrow> ends es Q (panic e s)"
  by (simp add: ends_def panic_def)

lemma ends_mono: "ends es Q r \<Longrightarrow> (\<And>x t. t \<le> es \<Longrightarrow> Q x t \<Longrightarrow> R x t) \<Longrightarrow> ends es R r"
  by (auto simp: ends_def split: outcome.splits)

lemma skip_while_props:
  assumes "s \<le> es"
  shows "s \<le> skip_while P buf es s" and "skip_while P buf es s \<le> es"
    and "\<forall>i. s \<le> i \<and> i < skip_while P buf es s \<longrightarrow> P (deref buf i)"
    and "skip_while P buf es s = es \<or> \<not> P (deref buf (skip_while P buf es s))"
  using assms
proof (induction P buf es s rule: skip_while.induct)
  case (1 P buf es s)
  have u: "skip_while P buf es s = (if s < es \<and> P (deref buf s) then skip_while P buf es (s + 1) else s)"
    by (rule skip_while.simps)
  { case 1 then show ?case using "1.IH"(1) u by (cases "s < es \<and> P (deref buf s)") auto }
  { case 2 then show ?case using "1.IH"(2) u by (cases "s < es \<and> P (deref buf s)") auto }
  { case 3 then show ?case using "1.IH"(3) u by (cases "s < es \<and> P (deref buf s)") (auto simp: Suc_le_eq dest: le_neq_implies_less) }
  { case 4 then show ?case using "1.IH"(4) u by (cases "s < es \<and> P (deref buf s)") auto }
qed

lemma is_ws_NUL [simp]: "\<not> is_ws NUL"
  by (simp add: is_ws_def whitespace_def)

lemma peek_ends:
  assumes "line buf es" and "s \<le> es"
  shows "ends es (\<lambda>b t. s \<le> t \<and> skip_while is_ws buf es t = t \<and> (b \<longrightarrow> t < es \<and> deref buf t \<in> set toks)) (peek buf es toks s)"
proof -
  let ?t = "skip_while is_ws buf es s"
  note t = skip_while_props [OF assms(2), of is_ws buf]
  have "skip_while is_ws buf es ?t = ?t" using t(4) by (subst skip_while.simps) auto
  moreover have "?t < es" if "deref buf ?t \<noteq> NUL" using that t(2) assms(1) by (auto simp: line_def le_less)
  ultimately show ?thesis using t by (auto simp: ends_def peek_def kern_simps)
qed

lemma gettoken_ends:
  assumes l: "line buf es" and s: "s \<le> es"
  shows "ends es (\<lambda>(k, q, eq) t. s \<le> q \<and> q = skip_while is_ws buf es s \<and> q \<le> eq \<and> eq \<le> t \<and> (k = NUL \<longleftrightarrow> q = es) \<and> (q < es \<longrightarrow> q < eq) \<and>
      (k = CHR ''a'' \<longrightarrow> span_ok buf es (q, eq)) \<and>
      (deref buf q \<in> set ''<>'' \<longrightarrow> k \<in> set ''<>+'')) (gettoken buf es s)"
proof -
  let ?W = "\<lambda>c. \<not> is_ws c \<and> \<not> is_sym c"
  define q where "q = skip_while is_ws buf es s"
  note q = skip_while_props [OF s, of is_ws buf, folded q_def]
  have e: "deref buf i = NUL \<longleftrightarrow> i = es" if "i \<le> es" for i
    using that l by (auto simp: line_def deref_def in_set_conv_nth le_less)
  note w = skip_while_props [OF q(2), of ?W buf]
  define c where "c = deref buf q"
  obtain k eq where ke: "(k, eq) = (if c = NUL then (c, q)
              else if c \<in> set ''|();&<'' then (c, q + 1)
              else if c = CHR ''>'' then
                (if deref buf (q + 1) = CHR ''>'' then (CHR ''+'', q + 2) else (c, q + 1))
              else (CHR ''a'', skip_while ?W buf es q))" by (metis surj_pair)
  have g: "gettoken buf es s = Ok (k, q, eq) (skip_while is_ws buf es eq)"
    using ke by (auto simp: gettoken_def kern_simps Let_def q_def c_def split: if_splits prod.splits)
  have sym: "is_sym c" if "c \<in> set ''<|>&;()''" using that by (auto simp: is_sym_def symbols_def)
  have w1: "q < skip_while ?W buf es q" if "c \<noteq> NUL" "c \<notin> set ''|();&<''" "c \<noteq> CHR ''>''"
  proof -
    have "q < es" using that(1) q(2) e [of q] by (auto simp: c_def)
    moreover have "\<not> is_ws c" using q(4) \<open>q < es\<close> by (auto simp: c_def)
    moreover have "\<not> is_sym c" using that by (auto simp: is_sym_def symbols_def)
    ultimately show ?thesis using skip_while_props(1) [of "q + 1" es ?W buf]
      by (subst skip_while.simps) (simp add: c_def)
  qed
  have eq: "q \<le> eq \<and> eq \<le> es \<and> (k = NUL \<longleftrightarrow> q = es) \<and> (q < es \<longrightarrow> q < eq)"
  proof (cases "c = NUL")
    case True
    then show ?thesis using ke e [OF q(2)] by (simp add: c_def)
  next
    case False
    then have 1: "q < es" using e [OF q(2)] q(2) by (auto simp: c_def)
    have 2: "q + 2 \<le> es" if "deref buf (q + 1) = CHR ''>''" using that 1 e [of "q + 1"] by (cases "q + 1 = es") auto
    show ?thesis using ke False 1 2 w(2) w1 by (auto split: if_splits)
  qed
  have sp: "span_ok buf es (q, eq)" if "k = CHR ''a''"
  proof -
    have "eq = skip_while ?W buf es q" "c \<noteq> NUL" "c \<notin> set ''|();&<''" "c \<noteq> CHR ''>''" using that ke by (auto split: if_splits)
    then show ?thesis using w w1 by (auto simp: span_ok_def word_char_def)
  qed
  have "k \<in> set ''<>+''" if "deref buf q \<in> set ''<>''" using that ke by (auto simp: c_def split: if_splits)
  then show ?thesis using q sp eq skip_while_props(1,2) [of eq es is_ws buf] by (auto simp: ends_def g q_def [symmetric])
qed

lemma cmd_ok_simps [simp]:
  "cmd_ok buf es (EXEC a) \<longleftrightarrow> length a < MAXARGS \<and> (\<forall>w \<in> set a. span_ok buf es w)"
  "cmd_ok buf es (REDIR c f m d) \<longleftrightarrow> cmd_ok buf es c \<and> span_ok buf es f \<and>
     (m, d) \<in> {(O_RDONLY, 0), (O_WRONLY OR O_CREATE OR O_TRUNC, 1), (O_WRONLY OR O_CREATE, 1)}"
  "cmd_ok buf es (PIPE l r) \<longleftrightarrow> cmd_ok buf es l \<and> cmd_ok buf es r"
  "cmd_ok buf es (LIST l r) \<longleftrightarrow> cmd_ok buf es l \<and> cmd_ok buf es r"
  "cmd_ok buf es (BACK c) \<longleftrightarrow> cmd_ok buf es c"
  by (auto simp: cmd_ok_def)

lemma cmd_ok_set_argv:
  "cmd_ok buf es c \<Longrightarrow> length a < MAXARGS \<Longrightarrow> \<forall>w \<in> set a. span_ok buf es w \<Longrightarrow> cmd_ok buf es (set_argv a c)"
  by (induction c) simp_all

text \<open>What a parsing routine that starts at \<open>s\<close> guarantees.\<close>

abbreviation parses :: "char list \<Rightarrow> nat \<Rightarrow> nat \<Rightarrow> (span cmd, nat) outcome \<Rightarrow> bool" where
  "parses buf es s \<equiv> ends es (\<lambda>c t. s \<le> t \<and> cmd_ok buf es c)"

text \<open>After a successful \<^verbatim>\<open>peek\<close> the next token is the character seen, so that the parser moves on.\<close>

lemma peek_token_ends:
  assumes "line buf es" and "s \<le> es"
    and "\<And>t. t < es \<Longrightarrow> s \<le> t \<Longrightarrow> deref buf t \<in> set toks \<Longrightarrow> skip_while is_ws buf es t = t \<Longrightarrow> ends es Q (f True t)"
    and "\<And>t. t \<le> es \<Longrightarrow> s \<le> t \<Longrightarrow> ends es Q (f False t)"
  shows "ends es Q (kdo (peek buf es toks) f s)"
proof (rule ends_kdo [where m = "peek buf es toks", OF peek_ends [OF assms(1,2)]])
  fix b t assume "t \<le> es" "s \<le> t \<and> skip_while is_ws buf es t = t \<and> (b \<longrightarrow> t < es \<and> deref buf t \<in> set toks)"
  then show "ends es Q (f b t)" using assms(3,4) by (cases b) auto
qed

lemma any_token_ends:
  assumes l: "line buf es" and s: "s \<le> es"
    and f: "\<And>k q eq t. t \<le> es \<Longrightarrow> s \<le> t \<Longrightarrow> (k \<noteq> NUL \<Longrightarrow> s < t) \<Longrightarrow> (k = CHR ''a'' \<Longrightarrow> span_ok buf es (q, eq)) \<Longrightarrow> ends es Q (f (k, q, eq) t)"
  shows "ends es Q (kdo (gettoken buf es) f s)"
proof (rule ends_kdo [where m = "gettoken buf es", OF gettoken_ends [OF l s]], clarify)
  fix k q eq t
  assume a: "t \<le> es" "s \<le> skip_while is_ws buf es s" "skip_while is_ws buf es s \<le> eq" "eq \<le> t" "(k = NUL) = (skip_while is_ws buf es s = es)"
    "skip_while is_ws buf es s < es \<longrightarrow> skip_while is_ws buf es s < eq" "k = CHR ''a'' \<longrightarrow> span_ok buf es (skip_while is_ws buf es s, eq)"
  show "ends es Q (f (k, skip_while is_ws buf es s, eq) t)"
    by (rule f) (use a skip_while_props(2) [OF s, of is_ws buf] in \<open>auto simp: le_less\<close>)
qed

lemma token_ends:
  assumes l: "line buf es" and s: "s < es" "skip_while is_ws buf es s = s"
    and f: "\<And>k q eq t. t \<le> es \<Longrightarrow> s < t \<Longrightarrow> ends es Q (f (k, q, eq) t)"
  shows "ends es Q (kdo (gettoken buf es) f s)"
  by (rule ends_kdo [where m = "gettoken buf es", OF gettoken_ends [OF l less_imp_le [OF s(1)]]]) (use s f in \<open>auto\<close>)

lemma parseredirs_loop_ends:
  assumes l: "line buf es"
  shows "s \<le> es \<Longrightarrow> es - s < n \<Longrightarrow> cmd_ok buf es cmd \<Longrightarrow> parses buf es s (parseredirs_loop n buf es cmd s)"
proof (induction n arbitrary: cmd s)
  case (Suc n)
  have IH: "parses buf es s (parseredirs_loop n buf es c t)" if "s < t" "t \<le> es" "cmd_ok buf es c" for c t
    by (rule ends_mono [OF Suc.IH]) (use that Suc.prems in auto)
  show ?case unfolding parseredirs_loop.simps
  proof (rule peek_token_ends [OF l Suc.prems(1)], goal_cases)
    case (1 t)
    show ?case unfolding if_True
    proof (rule token_ends [OF l 1(1,4)], unfold prod.case, rule any_token_ends [OF l], goal_cases)
      case (2 tok _ _ u k q eq v)
      have "s < v" using 1 2 by simp
      then show ?case using 2 Suc.prems(3) by (auto simp: cmd_cons messages_def intro!: IH ends_panic)
    qed
  next
    case (2 t)
    then show ?case using Suc.prems by (auto intro!: ends_ret)
  qed
qed simp

lemma parseredirs_ends: "line buf es \<Longrightarrow> s \<le> es \<Longrightarrow> cmd_ok buf es cmd \<Longrightarrow> parses buf es s (parseredirs cmd buf es s)"
  unfolding parseredirs_def by (rule parseredirs_loop_ends) auto

lemma parseexec_loop_ends:
  assumes l: "line buf es"
  shows "s \<le> es \<Longrightarrow> es - s < n \<Longrightarrow> cmd_ok buf es r \<Longrightarrow> length args < MAXARGS \<Longrightarrow> \<forall>w \<in> set args. span_ok buf es w \<Longrightarrow>
    parses buf es s (parseexec_loop n buf es args r s)"
proof (induction n arbitrary: args r s)
  case (Suc n)
  have IH: "parses buf es s (parseexec_loop n buf es (args @ [w]) c t)"
    if "s < t" "t \<le> es" "cmd_ok buf es c" "length args + 1 < MAXARGS" "span_ok buf es w" for c t w
    by (rule ends_mono [OF Suc.IH]) (use that Suc.prems in auto)
  have done_ok: "parses buf es s (ret (set_argv args r) t)" if "s \<le> t" "t \<le> es" for t
    by (rule ends_ret) (use that Suc.prems in \<open>auto intro: cmd_ok_set_argv\<close>)
  show ?case unfolding parseexec_loop.simps
  proof (rule peek_token_ends [OF l Suc.prems(1)], goal_cases)
    case (1 t)
    then show ?case using done_ok by auto
  next
    case (2 t)
    show ?case unfolding if_False
    proof (rule any_token_ends [OF l 2(1)], unfold prod.case, goal_cases)
      case (1 k q eq u)
      show ?case
      proof (cases "k = CHR ''a'' \<and> length args + 1 < MAXARGS")
        case True
        then have w: "span_ok buf es (q, eq)" "s < u" using 1 2 by auto
        have "parses buf es s (kdo (parseredirs r buf es) (\<lambda>r'. parseexec_loop n buf es (args @ [(q, eq)]) r') u)"
          by (rule ends_kdo [where m = "parseredirs r buf es", OF parseredirs_ends [OF l 1(1) Suc.prems(3)]])
            (use True w IH in auto)
        then show ?thesis using True by simp
      next
        case False
        then show ?thesis using 1 2 done_ok by (auto simp: messages_def intro!: ends_panic)
      qed
    qed
  qed
qed simp

lemma parseback_ends:
  assumes l: "line buf es"
  shows "s \<le> es \<Longrightarrow> es - s < n \<Longrightarrow> cmd_ok buf es c \<Longrightarrow> parses buf es s (parseback n buf es c s)"
proof (induction n arbitrary: c s)
  case (Suc n)
  have IH: "parses buf es s (parseback n buf es (backcmd c) t)" if "s < t" "t \<le> es" for t
    by (rule ends_mono [OF Suc.IH]) (use that Suc.prems in \<open>auto simp: cmd_cons\<close>)
  show ?case unfolding parseback.simps
  proof (rule peek_token_ends [OF l Suc.prems(1)], goal_cases)
    case (1 t)
    show ?case unfolding if_True by (rule token_ends [OF l 1(1,4)]) (use 1 in \<open>auto intro: IH\<close>)
  next
    case (2 t)
    then show ?case using Suc.prems by (auto intro!: ends_ret)
  qed
qed simp

lemma peek_here: "skip_while is_ws buf es t = t \<Longrightarrow> peek buf es toks t = Ok (deref buf t \<noteq> NUL \<and> deref buf t \<in> set toks) t"
  by (simp add: peek_def kern_simps)

text \<open>Four units of fuel for each character left are enough: a nested command takes four calls and has one character fewer.\<close>

lemma parse_ends:
  assumes l: "line buf es"
  shows "s \<le> es \<Longrightarrow> 4 * (es - s) + 4 \<le> n \<Longrightarrow> parses buf es s (parseline n buf es s)"
    and "s \<le> es \<Longrightarrow> 4 * (es - s) + 3 \<le> n \<Longrightarrow> parses buf es s (parsepipe n buf es s)"
    and "s \<le> es \<Longrightarrow> 4 * (es - s) + 2 \<le> n \<Longrightarrow> parses buf es s (parseexec n buf es s)"
    and "s < es \<Longrightarrow> 4 * (es - s) + 1 \<le> n \<Longrightarrow> skip_while is_ws buf es s = s \<Longrightarrow> deref buf s = CHR ''('' \<Longrightarrow>
      parses buf es s (parseblock n buf es s)"
proof (induction n arbitrary: s)
  case (Suc n)
  note pl = Suc.IH(1) and pp = Suc.IH(2) and pe = Suc.IH(3) and pb = Suc.IH(4)
  { case 1
    show ?case unfolding parseline.simps
    proof (rule ends_kdo [where m = "parsepipe n buf es", OF pp], goal_cases)
      case (3 c t)
      show ?case
      proof (rule ends_kdo [where m = "parseback (es + 1) buf es c" and s = t, OF parseback_ends [OF l]], goal_cases)
        case (4 d u)
        show ?case
        proof (rule peek_token_ends [OF l 4(1)], goal_cases)
          case (1 v)
          show ?case unfolding if_True
          proof (rule token_ends [OF l 1(1,4)], rule ends_kdo [where m = "parseline n buf es", OF pl], goal_cases)
            case (3 k q eq x e y)
            then show ?case using \<open>s \<le> t \<and> _\<close> 4 1 by (auto simp: cmd_cons intro!: ends_ret)
          qed (use \<open>s \<le> t \<and> _\<close> 4 1 \<open>4 * (es - s) + 4 \<le> Suc n\<close> in auto)
        next
          case (2 v)
          then show ?case using 3 4 by (auto intro!: ends_ret)
        qed
      qed (use 3 in auto)
    qed (use 1 in auto) }
  { case 2
    show ?case unfolding parsepipe.simps
    proof (rule ends_kdo [where m = "parseexec n buf es", OF pe], goal_cases)
      case (3 c t)
      show ?case
      proof (rule peek_token_ends [OF l 3(1)], goal_cases)
        case (1 v)
        show ?case unfolding if_True
        proof (rule token_ends [OF l 1(1,4)], rule ends_kdo [where m = "parsepipe n buf es", OF pp], goal_cases)
          case (3 k q eq x e y)
          then show ?case using \<open>s \<le> t \<and> _\<close> 1 by (auto simp: cmd_cons intro!: ends_ret)
        qed (use 3 1 2 in auto)
      next
        case (2 v)
        then show ?case using 3 by (auto intro!: ends_ret)
      qed
    qed (use 2 in auto) }
  { case 3
    show ?case unfolding parseexec.simps
    proof (rule peek_token_ends [OF l 3(1)], goal_cases)
      case (1 t)
      then show ?case using 3 by (auto intro: ends_mono [OF pb])
    next
      case (2 t)
      show ?case unfolding if_False
      proof (rule ends_kdo [where m = "parseredirs execcmd buf es", OF parseredirs_ends [OF l 2(1)]], goal_cases)
        case (2 r u)
        show ?case by (rule ends_mono [OF parseexec_loop_ends [OF l]]) (use 2 \<open>s \<le> t\<close> in \<open>auto simp: MAXARGS_def\<close>)
      qed (simp add: cmd_cons MAXARGS_def)
    qed }
  { case 4
    have "peek buf es ''('' s = Ok True s" using 4 by (simp add: peek_here)
    then have "parseblock (Suc n) buf es s = kdo (gettoken buf es) (\<lambda>_. kdo (parseline n buf es) (\<lambda>cmd. kdo (peek buf es '')'') (\<lambda>b.
           if \<not> b then panic ''syntax - missing )'' else kdo (gettoken buf es) (\<lambda>_. parseredirs cmd buf es)))) s"
      by (simp add: kdo_def)
    moreover have "parses buf es s \<dots>"
    proof (rule token_ends [OF l 4(1,3)], rule ends_kdo [where m = "parseline n buf es", OF pl], goal_cases)
      case (3 k q eq t c u)
      show ?case
      proof (rule peek_token_ends [OF l 3(3)], goal_cases)
        case (1 v)
        show ?case unfolding not_True_eq_False if_False
          by (rule token_ends [OF l 1(1,4)]) (use 3 1 in \<open>auto intro!: ends_mono [OF parseredirs_ends [OF l]]\<close>)
      next
        case (2 v)
        then show ?case by (auto simp: messages_def intro!: ends_panic)
      qed
    qed (use 4 in auto)
    ultimately show ?case by simp }
qed simp_all

lemma line_cstr: "line buf (length (cstr buf 0))"
proof -
  define w where "w = takeWhile (\<lambda>c. c \<noteq> NUL) buf"
  have b: "buf = w @ dropWhile (\<lambda>c. c \<noteq> NUL) buf" by (simp add: w_def)
  have "buf ! length w = NUL" if "length w < length buf" using that nth_length_takeWhile [of "\<lambda>c. c \<noteq> NUL" buf] by (simp add: w_def)
  moreover have "take (length w) buf = w" by (subst b) simp
  moreover have "NUL \<notin> set w" by (auto simp: w_def dest: set_takeWhileD)
  moreover have "length w \<le> length buf" by (simp add: w_def length_takeWhile_le)
  ultimately show ?thesis by (simp add: line_def deref_def cstr_def w_def [symmetric])
qed

lemma parsecmd_ends:
  "ends (length (cstr buf 0)) (\<lambda>(c, b) t. cmd_ok buf (length (cstr buf 0)) c \<and> b = nulterminate buf c \<and> t = length (cstr buf 0)) (parsecmd buf p)"
proof -
  let ?es = "length (cstr buf 0)"
  note l = line_cstr [of buf]
  have 1: "parses buf ?es 0 (parseline (4 * ?es + 4) buf ?es 0)" by (rule parse_ends(1) [OF l]) simp_all
  have "ends ?es (\<lambda>(c, b) t. cmd_ok buf ?es c \<and> b = nulterminate buf c \<and> t = ?es)
     (kdo (parseline (4 * ?es + 4) buf ?es) (\<lambda>cmd. kdo (peek buf ?es []) (\<lambda>_. kdo (gets (\<lambda>s. s)) (\<lambda>s.
       if s \<noteq> ?es then panic ''syntax'' else ret (cmd, nulterminate buf cmd)))) 0)"
  proof (rule ends_kdo [where m = "parseline (4 * ?es + 4) buf ?es", OF 1], rule peek_token_ends [OF l], goal_cases)
    case (3 c t u)
    then show ?case by (auto simp: kern_simps ends_def messages_def)
  qed auto
  then show ?thesis by (simp add: parsecmd_def kern_simps Let_def)
qed

text \<open>
  C31.  The shell's parser always ends.  On any line it stops with one of its four messages, or with a command, and then the whole line has been
  read and every command of the tree has fewer arguments than its arrays \<^verbatim>\<open>argv\<close> and \<^verbatim>\<open>eargv\<close> have entries (one is left for the null
  pointer) and every redirection one of the three modes with its descriptor.
\<close>

theorem parsecmd_terminates:
  "(\<exists>c b. parsecmd buf p = Ok (c, b) (length (cstr buf 0)) \<and> fits c) \<or> (\<exists>e. parsecmd buf p = Panic e \<and> e \<in> messages)"
  using parsecmd_ends [of buf p] by (auto simp: ends_def cmd_ok_def split: outcome.splits)

section \<open>The words of a command\<close>

definition word_at :: "char list \<Rightarrow> span \<Rightarrow> string" where
  "word_at buf w = take (snd w - fst w) (drop (fst w) buf)"

lemma fold_NUL_nth: "length (fold (\<lambda>(q, eq) b. b[eq := NUL]) ws buf) = length buf \<and>
    (i < length buf \<longrightarrow> fold (\<lambda>(q, eq) b. b[eq := NUL]) ws buf ! i = (if i \<in> snd ` set ws then NUL else buf ! i))"
proof (induction ws arbitrary: buf)
  case (Cons w ws)
  show ?case using Cons.IH [of "buf[snd w := NUL]"] by (cases w) (auto simp: nth_list_update)
qed simp

lemma nulterminate_nth: "length (nulterminate buf c) = length buf \<and>
    (i < length buf \<longrightarrow> nulterminate buf c ! i = (if i \<in> snd ` set_cmd c then NUL else buf ! i))"
proof (induction c arbitrary: buf)
  case (EXEC ws)
  show ?case using fold_NUL_nth [of ws buf i] by simp
next
  case (REDIR c f m d)
  show ?case using REDIR.IH [of buf] by (cases "i \<in> snd ` set_cmd c"; cases "i = snd f") (simp_all add: nth_list_update)
qed auto

lemma cstr_nth:
  assumes "p \<le> z" and "z \<le> length b" and "\<And>i. p \<le> i \<Longrightarrow> i < z \<Longrightarrow> b ! i \<noteq> NUL" and "z < length b \<Longrightarrow> b ! z = NUL"
  shows "cstr b p = take (z - p) (drop p b)"
proof -
  have d: "drop p b = take (z - p) (drop p b) @ drop z b" using assms(1) by (metis append_take_drop_id drop_drop le_add_diff_inverse2)
  have "drop z b = [] \<or> hd (drop z b) = NUL" using assms(4) by (cases "z < length b") (auto simp: hd_drop_conv_nth)
  moreover have "\<forall>x \<in> set (take (z - p) (drop p b)). x \<noteq> NUL" using assms(1-3) by (auto simp: in_set_conv_nth)
  ultimately show ?thesis unfolding cstr_def by (subst d, cases "drop z b") (auto simp: takeWhile_append)
qed

text \<open>The NUL that ends one word never falls inside another.\<close>

lemma cstr_nulterminate:
  assumes l: "line buf es" and c: "cmd_ok buf es c" and w: "w \<in> set_cmd c" and b: "b = nulterminate buf c"
  shows "cstr b (fst w) = word_at buf w"
proof -
  note n = nulterminate_nth [of buf c, folded b]
  have s: "span_ok buf es v" if "v \<in> set_cmd c" for v using c that by (simp add: cmd_ok_def)
  have e: "fst w < snd w" "snd w \<le> es" using s [OF w] by (simp_all add: span_ok_def)
  have es: "es \<le> length buf" "deref buf es = NUL" using l by (simp_all add: line_def)
  have out: "i \<notin> snd ` set_cmd c" if i: "fst w \<le> i" "i < snd w" for i
  proof
    assume "i \<in> snd ` set_cmd c"
    then obtain v where v: "v \<in> set_cmd c" "i = snd v" by auto
    have "word_char (deref buf i)" using s [OF w] i by (simp add: span_ok_def)
    then show False using s [OF v(1)] v(2) i(2) e(2) by (auto simp: span_ok_def)
  qed
  have same: "b ! i = buf ! i" if "fst w \<le> i" "i < snd w" for i using n [of i] out [OF that] that e es by simp
  have nz: "buf ! i \<noteq> NUL" if "i < es" for i using l that by (auto simp: line_def in_set_conv_nth)
  have "cstr b (fst w) = take (snd w - fst w) (drop (fst w) b)"
  proof (rule cstr_nth)
    show "fst w \<le> snd w" using e by simp
    show "snd w \<le> length b" using e es n by simp
    show "b ! i \<noteq> NUL" if "fst w \<le> i" "i < snd w" for i using same [OF that] nz [of i] that e by simp
    show "b ! snd w = NUL" if "snd w < length b" using n [of "snd w"] that w by simp
  qed
  also have "\<dots> = word_at buf w"
    using same e es n by (auto simp: word_at_def intro!: nth_equalityI)
  finally show ?thesis .
qed


definition ex_line :: "char list" where
  "ex_line = ''echo hi>f'' @ [NUL, CHR ''x'']"

lemma ex_line_parse:
  "parsecmd ex_line 0 = Ok (REDIR (EXEC [(0, 4), (5, 7)]) (8, 9) (O_WRONLY OR O_CREATE OR O_TRUNC) 1, ''echo'' @ [NUL] @ ''hi'' @ [NUL] @ ''f'' @ [NUL, CHR ''x'']) 9"
  by code_simp


end
