(* ===== verification/Shprint.thy ===== *)
theory Shprint
  imports Sh
begin

text \<open>
  Every command of the shell can be written: a printer for command trees, and the proof that the parser of
  \<open>Sh\<close> reads back what it prints.
\<close>

section \<open>Printing a command\<close>

text \<open>
  A line for each command tree.  The level is the weakest construct that may stand unbracketed: 0 a list, 1 a command
  in the background, 2 a pipe, 3 a simple command.
\<close>

definition print_redir :: "string \<times> uint \<times> int \<Rightarrow> string" where
  "print_redir f = (if fst (snd f) = O_RDONLY then ''<'' else if fst (snd f) = O_WRONLY OR O_CREATE OR O_TRUNC then ''>'' else ''>>'') @ fst f @ '' ''"

definition print_words :: "string list \<Rightarrow> string" where
  "print_words a = concat (map (\<lambda>w. w @ '' '') a)"

definition bracket :: "bool \<Rightarrow> string \<Rightarrow> string" where
  "bracket b t = (if b then ''('' @ t @ '') '' else t)"

primrec print :: "nat \<Rightarrow> string cmd \<Rightarrow> string" where
  "print k (EXEC a) = print_words a"
| "print k (REDIR c f m d) = print 3 c @ print_redir (f, m, d)"
| "print k (PIPE l r) = bracket (k > 2) (print 3 l @ ''| '' @ print 2 r)"
| "print k (LIST l r) = bracket (k > 0) (print 1 l @ ''; '' @ print 0 r)"
| "print k (BACK c) = bracket (k > 1) (print 1 c @ ''& '')"

text \<open>Words that can be written down, and commands made of them.\<close>

definition word_ok :: "string \<Rightarrow> bool" where
  "word_ok w \<longleftrightarrow> w \<noteq> [] \<and> (\<forall>x \<in> set w. word_char x \<and> x \<noteq> NUL)"

definition writable :: "string cmd \<Rightarrow> bool" where
  "writable c \<longleftrightarrow> fits c \<and> (\<forall>w \<in> set_cmd c. word_ok w)"

lemma writable_simps [simp]:
  "writable (EXEC a) \<longleftrightarrow> length a < MAXARGS \<and> (\<forall>w \<in> set a. word_ok w)"
  "writable (REDIR c f m d) \<longleftrightarrow> writable c \<and> word_ok f \<and>
     (m, d) \<in> {(O_RDONLY, 0), (O_WRONLY OR O_CREATE OR O_TRUNC, 1), (O_WRONLY OR O_CREATE, 1)}"
  "writable (PIPE l r) \<longleftrightarrow> writable l \<and> writable r"
  "writable (LIST l r) \<longleftrightarrow> writable l \<and> writable r"
  "writable (BACK c) \<longleftrightarrow> writable c"
  by (auto simp: writable_def)

section \<open>Tokens of a printed line\<close>

definition starts :: "(char \<Rightarrow> bool) \<Rightarrow> string \<Rightarrow> bool" where
  "starts P t \<longleftrightarrow> (case t of [] \<Rightarrow> True | c # _ \<Rightarrow> P c)"

lemma starts_simps [simp]: "starts P []" "starts P (c # t) = P c"
  by (simp_all add: starts_def)

lemma starts_append: "starts P (t @ u) = (if t = [] then starts P u else starts P t)"
  by (cases t) simp_all

lemma takeWhile_starts: "starts (\<lambda>c. \<not> P c) t \<Longrightarrow> takeWhile P t = []"
  by (cases t) simp_all

lemma starts_mono: "starts P t \<Longrightarrow> (\<And>c. P c \<Longrightarrow> Q c) \<Longrightarrow> starts Q t"
  by (cases t) simp_all

lemma char_classes [simp]:
  "is_ws CHR '' ''" "\<not> is_ws CHR ''|''" "\<not> is_ws CHR '')''" "\<not> is_ws CHR ''(''" "\<not> is_ws CHR ''&''" "\<not> is_ws CHR '';''" "\<not> is_ws CHR ''<''" "\<not> is_ws CHR ''>''"
  by (simp_all add: is_ws_def whitespace_def)

lemma word_char_sym: "word_char x \<Longrightarrow> x \<notin> set ''<|>&;() ''"
  by (auto simp: word_char_def is_sym_def symbols_def is_ws_def whitespace_def)

lemma peek_input:
  assumes "line buf es" "s \<le> es" "input buf es s = t" "starts (\<lambda>c. \<not> is_ws c) t"
  shows "peek buf es toks s = Ok (t \<noteq> [] \<and> hd t \<in> set toks) s"
proof -
  have "skip_while is_ws buf es s = s" using skip_while_input [OF assms(1,2)] assms(3,4) by (simp add: takeWhile_starts)
  then show ?thesis using deref_input [OF assms(1,2)] assms(3) input_no_NUL [OF assms(1), of s] by (cases t) (auto simp: peek_here)
qed

lemma gettoken_input:
  assumes l: "line buf es" and s: "s \<le> es" and i: "input buf es s = t"
  shows "t = [] \<Longrightarrow> gettoken buf es s = Ok (NUL, s, s) s"
    and "t = c # r \<Longrightarrow> c \<in> set ''|();&<'' \<Longrightarrow> gettoken buf es s = Ok (c, s, s + 1) (s + 1 + length (takeWhile is_ws r))"
    and "t = CHR ''>'' # r \<Longrightarrow> starts (\<lambda>c. c \<noteq> CHR ''>'') r \<Longrightarrow> gettoken buf es s = Ok (CHR ''>'', s, s + 1) (s + 1 + length (takeWhile is_ws r))"
    and "t = CHR ''>'' # CHR ''>'' # r \<Longrightarrow> gettoken buf es s = Ok (CHR ''+'', s, s + 2) (s + 2 + length (takeWhile is_ws r))"
    and "t = w @ r \<Longrightarrow> word_ok w \<Longrightarrow> starts (\<lambda>c. \<not> word_char c) r \<Longrightarrow>
      gettoken buf es s = Ok (CHR ''a'', s, s + length w) (s + length w + length (takeWhile is_ws r)) \<and> word_at buf (s, s + length w) = w"
proof -
  have here: "skip_while is_ws buf es s = s" if "starts (\<lambda>c. \<not> is_ws c) t"
    using that skip_while_input [OF l s] i by (simp add: takeWhile_starts)
  have n: "length t = es - s" using length_input [OF l, of s] i by simp
  have d: "deref buf s = (case t of [] \<Rightarrow> NUL | c # _ \<Rightarrow> c)" using deref_input [OF l s] i by simp
  have after: "skip_while is_ws buf es (s + k) = s + k + length (takeWhile is_ws (drop k t))" "deref buf (s + k) = (case drop k t of [] \<Rightarrow> NUL | c # _ \<Rightarrow> c)"
    if "k \<le> length t" for k
    using that skip_while_input [OF l, of "s + k"] deref_input [OF l, of "s + k"] input_add [of buf es s k] i n s by simp_all
  note g = gettoken_def kern_simps Let_def
  show "t = [] \<Longrightarrow> gettoken buf es s = Ok (NUL, s, s) s" using here d by (simp add: g)
  show "gettoken buf es s = Ok (c, s, s + 1) (s + 1 + length (takeWhile is_ws r))" if t: "t = c # r" "c \<in> set ''|();&<''"
  proof -
    have "\<not> is_ws c" "c \<noteq> NUL" using t(2) by auto
    then show ?thesis using t here d after(1) [of 1] by (auto simp: g)
  qed
  show "gettoken buf es s = Ok (CHR ''>'', s, s + 1) (s + 1 + length (takeWhile is_ws r))"
    if t: "t = CHR ''>'' # r" "starts (\<lambda>c. c \<noteq> CHR ''>'') r"
    using t here d after [of 1] by (cases r) (simp_all add: g)
  show "gettoken buf es s = Ok (CHR ''+'', s, s + 2) (s + 2 + length (takeWhile is_ws r))" if t: "t = CHR ''>'' # CHR ''>'' # r"
    using t here d after [of 1] after(1) [of 2] by (simp add: g)
  show "gettoken buf es s = Ok (CHR ''a'', s, s + length w) (s + length w + length (takeWhile is_ws r)) \<and> word_at buf (s, s + length w) = w"
    if t: "t = w @ r" "word_ok w" "starts (\<lambda>c. \<not> word_char c) r"
  proof -
    obtain x w' where w: "w = x # w'" using t(2) by (cases w) (auto simp: word_ok_def)
    have x: "word_char x" "x \<noteq> NUL" using t(2) by (simp_all add: w word_ok_def)
    have tw: "takeWhile (\<lambda>c. \<not> is_ws c \<and> \<not> is_sym c) t = w"
      using t by (cases r) (auto simp: word_ok_def word_char_def takeWhile_append)
    have "skip_while (\<lambda>c. \<not> is_ws c \<and> \<not> is_sym c) buf es s = s + length w" using skip_while_input [OF l s] i tw by simp
    moreover have "\<not> is_ws x" "x \<notin> set ''|();&<''" "x \<noteq> CHR ''>''" using x(1) word_char_sym [OF x(1)] by (auto simp: word_char_def)
    moreover have "word_at buf (s, s + length w) = w"
    proof -
      have "take (length w) (take (es - s) (drop s buf)) = w" using i t(1) by (simp add: input_def drop_take)
      moreover have "length w \<le> es - s" using n t(1) by simp
      ultimately show ?thesis by (simp add: word_at_def min_def)
    qed
    ultimately show ?thesis using x t(1) w here d after(1) [of "length w"] by (auto simp: g)
  qed
qed

section \<open>The parser on a printed line\<close>

text \<open>A parsing routine reads a command: it returns a tree over the words of the line, at the position \<open>t\<close>.\<close>

definition reads :: "char list \<Rightarrow> (span cmd, nat) outcome \<Rightarrow> nat \<Rightarrow> string cmd \<Rightarrow> bool" where
  "reads buf r t c \<longleftrightarrow> (\<exists>x. r = Ok x t \<and> map_cmd (word_at buf) x = c)"

lemma reads_kdo: "reads buf (m s) t c \<Longrightarrow> (\<And>x. map_cmd (word_at buf) x = c \<Longrightarrow> reads buf (f x t) u d) \<Longrightarrow> reads buf (kdo m f s) u d"
  by (auto simp: reads_def kdo_def)

lemma reads_ret: "map_cmd (word_at buf) x = c \<Longrightarrow> reads buf (ret x t) t c"
  by (simp add: reads_def ret_def)

definition wrap :: "(string \<times> uint \<times> int) list \<Rightarrow> string cmd \<Rightarrow> string cmd" where
  "wrap rs c = foldl (\<lambda>c (f, m, d). REDIR c f m d) c rs"

lemma wrap_simps [simp]: "wrap [] c = c" "wrap ((f, m, d) # rs) c = wrap rs (REDIR c f m d)"
  by (simp_all add: wrap_def)

lemma set_argv_wrap [simp]: "set_argv a (wrap rs c) = wrap rs (set_argv a c)"
  by (induction rs arbitrary: c) auto

lemma map_set_argv [simp]: "map_cmd g (set_argv a c) = set_argv (map g a) (map_cmd g c)"
  by (induction c) simp_all

definition redir_ok :: "string \<times> uint \<times> int \<Rightarrow> bool" where
  "redir_ok f \<longleftrightarrow> word_ok (fst f) \<and> snd f \<in> {(O_RDONLY, 0), (O_WRONLY OR O_CREATE OR O_TRUNC, 1), (O_WRONLY OR O_CREATE, 1)}"

definition print_redirs :: "(string \<times> uint \<times> int) list \<Rightarrow> string" where
  "print_redirs rs = concat (map print_redir rs)"

lemma print_redirs_simps [simp]: "print_redirs [] = []" "print_redirs (f # rs) = print_redir f @ print_redirs rs"
  by (simp_all add: print_redirs_def)

lemma modes [simp]: "O_RDONLY \<noteq> O_WRONLY OR O_CREATE OR O_TRUNC" "O_RDONLY \<noteq> O_WRONLY OR O_CREATE" "O_WRONLY OR O_CREATE \<noteq> O_RDONLY"
    "O_WRONLY OR O_CREATE OR O_TRUNC \<noteq> O_RDONLY"
    "O_WRONLY OR O_CREATE \<noteq> O_WRONLY OR O_CREATE OR O_TRUNC" "O_WRONLY OR O_CREATE OR O_TRUNC \<noteq> O_WRONLY OR O_CREATE"
  by (simp_all add: params)

lemma starts_word: "word_ok w \<Longrightarrow> starts P (w @ t) = P (hd w)"
  by (cases w) (simp_all add: word_ok_def)

lemma hd_word: "word_ok w \<Longrightarrow> word_char (hd w) \<and> \<not> is_ws (hd w) \<and> hd w \<notin> set ''<|>&;() ''"
  using word_char_sym [of "hd w"] by (cases w) (auto simp: word_ok_def word_char_def)

lemma starts_redirs: "starts (\<lambda>c. \<not> is_ws c) t \<Longrightarrow> starts (\<lambda>c. \<not> is_ws c) (print_redirs rs @ t)"
  by (cases rs) (auto simp: print_redir_def)

text \<open>One redirection: the symbol and the file.\<close>

lemma redir_tokens:
  assumes l: "line buf es" and s: "s \<le> es" and i: "input buf es s = print_redir (f, m, d) @ t"
    and f: "redir_ok (f, m, d)" and t: "starts (\<lambda>c. \<not> is_ws c) t"
  obtains tok u q where "gettoken buf es s = Ok (tok, s, u) u" and "gettoken buf es u = Ok (CHR ''a'', u, q) (s + length (print_redir (f, m, d)))"
    and "word_at buf (u, q) = f" and "s < u"
    and "tok = (if m = O_RDONLY then CHR ''<'' else if m = O_WRONLY OR O_CREATE OR O_TRUNC then CHR ''>'' else CHR ''+'')"
proof -
  have w: "word_ok f" using f by (simp add: redir_ok_def)
  have nw: "\<not> is_ws (hd f)" "hd f \<noteq> CHR ''>''" using hd_word [OF w] by auto
  have tw: "takeWhile is_ws (f @ v) = []" for v using nw starts_word [OF w] by (intro takeWhile_starts) simp
  have st: "starts (\<lambda>c. \<not> word_char c) (CHR '' '' # t)" by (simp add: word_char_def)
  have len: "length (input buf es s) = es - s" by (rule length_input [OF l])
  have go: "gettoken buf es (s + k) = Ok (CHR ''a'', s + k, s + k + length f) (s + k + length f + 1) \<and> word_at buf (s + k, s + k + length f) = f"
    if k: "drop k (print_redir (f, m, d) @ t) = f @ '' '' @ t" "k \<le> length (print_redir (f, m, d))" for k
  proof -
    have le: "s + k \<le> es" using len i k(2) s by simp
    have i': "input buf es (s + k) = f @ (CHR '' '' # t)" using input_add [of buf es s k] i k(1) by simp
    have "length (takeWhile is_ws (CHR '' '' # t)) = 1" using t by (simp add: takeWhile_starts)
    then show ?thesis using gettoken_input(5) [OF l le i' refl w st] by simp
  qed
  consider (1) "m = O_RDONLY" | (2) "m = O_WRONLY OR O_CREATE OR O_TRUNC" | (3) "m = O_WRONLY OR O_CREATE" using f by (auto simp: redir_ok_def)
  then show ?thesis
  proof cases
    case 1
    have "input buf es s = CHR ''<'' # f @ '' '' @ t" using i 1 by (simp add: print_redir_def)
    from gettoken_input(2) [OF l s this refl] tw have "gettoken buf es s = Ok (CHR ''<'', s, s + 1) (s + 1)" by simp
    then show ?thesis using go [of 1] 1 by (intro that [of "CHR ''<''" "s + 1" "s + 1 + length f"]) (simp_all add: print_redir_def)
  next
    case 2
    have "input buf es s = CHR ''>'' # f @ '' '' @ t" using i 2 by (simp add: print_redir_def)
    from gettoken_input(3) [OF l s this refl] tw have "gettoken buf es s = Ok (CHR ''>'', s, s + 1) (s + 1)"
      using nw starts_word [OF w] by simp
    then show ?thesis using go [of 1] 2 by (intro that [of "CHR ''>''" "s + 1" "s + 1 + length f"]) (simp_all add: print_redir_def)
  next
    case 3
    have "input buf es s = CHR ''>'' # CHR ''>'' # f @ '' '' @ t" using i 3 by (simp add: print_redir_def)
    from gettoken_input(4) [OF l s this refl] tw have "gettoken buf es s = Ok (CHR ''+'', s, s + 2) (s + 2)" by simp
    then show ?thesis using go [of 2] 3 by (intro that [of "CHR ''+''" "s + 2" "s + 2 + length f"]) (simp_all add: print_redir_def)
  qed
qed

lemma parseredirs_loop_reads:
  assumes l: "line buf es" and t: "starts (\<lambda>c. \<not> is_ws c \<and> c \<notin> set ''<>'') t"
  shows "s \<le> es \<Longrightarrow> input buf es s = print_redirs rs @ t \<Longrightarrow> (\<forall>f \<in> set rs. redir_ok f) \<Longrightarrow> es - s < n \<Longrightarrow>
    reads buf (parseredirs_loop n buf es c s) (s + length (print_redirs rs)) (wrap rs (map_cmd (word_at buf) c))"
proof (induction rs arbitrary: n c s)
  case Nil
  then obtain k where n: "n = Suc k" by (cases n) auto
  have "peek buf es ''<>'' s = Ok False s"
    using peek_input [OF l Nil.prems(1,2), of "''<>''"] t by (cases t) auto
  then show ?case unfolding n parseredirs_loop.simps by (simp add: kdo_def reads_def ret_def)
next
  case (Cons f rs)
  obtain g m d where f: "f = (g, m, d)" by (cases f)
  obtain k where n: "n = Suc k" using Cons.prems by (cases n) auto
  have ok: "redir_ok (g, m, d)" using Cons.prems(3) f by simp
  have st: "starts (\<lambda>c. \<not> is_ws c) (print_redirs rs @ t)" by (rule starts_redirs, rule starts_mono [OF t]) simp
  have i: "input buf es s = print_redir (g, m, d) @ print_redirs rs @ t" using Cons.prems(2) f by simp
  obtain tok u q where tk: "gettoken buf es s = Ok (tok, s, u) u" "gettoken buf es u = Ok (CHR ''a'', u, q) (s + length (print_redir (g, m, d)))"
    "word_at buf (u, q) = g" "s < u" "tok = (if m = O_RDONLY then CHR ''<'' else if m = O_WRONLY OR O_CREATE OR O_TRUNC then CHR ''>'' else CHR ''+'')"
    by (rule redir_tokens [OF l Cons.prems(1) i ok st])
  let ?s = "s + length (print_redir (g, m, d))"
  have pk: "peek buf es ''<>'' s = Ok True s"
  proof -
    have "starts (\<lambda>c. \<not> is_ws c) (print_redir (g, m, d) @ print_redirs rs @ t)" "print_redir (g, m, d) \<noteq> []" "hd (print_redir (g, m, d) @ print_redirs rs @ t) \<in> set ''<>''"
      by (simp_all add: print_redir_def)
    then show ?thesis using peek_input [OF l Cons.prems(1) i, of "''<>''"] by simp
  qed
  have le: "?s \<le> es" using length_input [OF l, of s] i Cons.prems(1) by simp
  have pos: "0 < length (print_redir (g, m, d))" by (simp add: print_redir_def)
  have "reads buf (parseredirs_loop k buf es (REDIR c (u, q) m d) ?s) (?s + length (print_redirs rs)) (wrap rs (map_cmd (word_at buf) (REDIR c (u, q) m d)))"
  proof (rule Cons.IH [OF le])
    show "input buf es ?s = print_redirs rs @ t" using input_add [of buf es s "length (print_redir (g, m, d))"] i by simp
    show "\<forall>f \<in> set rs. redir_ok f" using Cons.prems(3) by simp
    show "es - ?s < k" using Cons.prems(4) pos le unfolding n by linarith
  qed
  moreover have "parseredirs_loop n buf es c s = parseredirs_loop k buf es (REDIR c (u, q) m d) ?s"
    unfolding n parseredirs_loop.simps kdo_Ok [where m = "peek buf es ''<>''", OF pk] if_True
      kdo_Ok [where m = "gettoken buf es", OF tk(1)] prod.case kdo_Ok [where m = "gettoken buf es", OF tk(2)]
    using tk(5) ok by (auto simp: cmd_cons redir_ok_def)
  ultimately show ?case using f tk(3) by (simp add: ac_simps)
qed

lemma print_words_simps [simp]: "print_words [] = []" "print_words (w # a) = w @ '' '' @ print_words a"
  by (simp_all add: print_words_def)

lemma starts_words: "\<forall>w \<in> set a. word_ok w \<Longrightarrow> a \<noteq> [] \<Longrightarrow> starts (\<lambda>c. \<not> is_ws c \<and> c \<notin> set ''<>'') (print_words a @ t)"
  using hd_word [of "hd a"] starts_word [of "hd a"] by (cases a) auto

text \<open>What may follow a simple command.\<close>

abbreviation follows :: "string \<Rightarrow> string \<Rightarrow> bool" where
  "follows f t \<equiv> starts (\<lambda>c. c \<in> set f) t"

lemma follows_nows: "follows f t \<Longrightarrow> set f \<subseteq> set ''|)&;'' \<Longrightarrow> starts (\<lambda>c. \<not> is_ws c \<and> c \<notin> set ''<>'') t"
  by (cases t) auto

lemma follows_ws: "follows f t \<Longrightarrow> set f \<subseteq> set ''|)&;'' \<Longrightarrow> starts (\<lambda>c. \<not> is_ws c) t"
  by (cases t) auto

lemma parseredirs_reads:
  assumes "line buf es" "s \<le> es" "input buf es s = print_redirs rs @ t" "starts (\<lambda>c. \<not> is_ws c \<and> c \<notin> set ''<>'') t" "\<forall>f \<in> set rs. redir_ok f"
  shows "reads buf (parseredirs c buf es s) (s + length (print_redirs rs)) (wrap rs (map_cmd (word_at buf) c))"
  unfolding parseredirs_def by (rule parseredirs_loop_reads) (use assms in auto)

lemma parseexec_loop_end:
  assumes l: "line buf es" and s: "s \<le> es" and i: "input buf es s = t" and t: "follows ''|)&;'' t" and n: "0 < n"
  shows "parseexec_loop n buf es args r s = Ok (set_argv args r) s"
proof -
  obtain k where n: "n = Suc k" using n by (cases n) auto
  have ws: "starts (\<lambda>c. \<not> is_ws c) t" using follows_ws [OF t] by simp
  show ?thesis
  proof (cases t)
    case Nil
    have "peek buf es ''|)&;'' s = Ok False s" using peek_input [OF l s i ws] Nil by simp
    moreover have "gettoken buf es s = Ok (NUL, s, s) s" by (rule gettoken_input(1) [OF l s i Nil])
    ultimately show ?thesis unfolding n by (simp add: kdo_def ret_def)
  next
    case (Cons c u)
    have "peek buf es ''|)&;'' s = Ok True s" using peek_input [OF l s i ws] Cons t by simp
    then show ?thesis unfolding n by (simp add: kdo_def ret_def)
  qed
qed

lemma parseexec_loop_reads:
  assumes l: "line buf es" and t: "follows ''|)&;'' t" and rs: "\<forall>f \<in> set rs. redir_ok f"
  shows "s \<le> es \<Longrightarrow> input buf es s = print_words a @ print_redirs rs @ t \<Longrightarrow> a \<noteq> [] \<Longrightarrow> \<forall>w \<in> set a. word_ok w \<Longrightarrow>
    length args + length a < MAXARGS \<Longrightarrow> es - s < n \<Longrightarrow>
    reads buf (parseexec_loop n buf es args r s) (s + length (print_words a @ print_redirs rs))
      (wrap rs (set_argv (map (word_at buf) args @ a) (map_cmd (word_at buf) r)))"
proof (induction a arbitrary: n args r s)
  case (Cons w a)
  obtain k where n: "n = Suc k" using Cons.prems by (cases n) auto
  have w: "word_ok w" using Cons.prems by simp
  let ?t = "print_words a @ print_redirs rs @ t"
  let ?s = "s + (length w + 1)"
  have i: "input buf es s = w @ (CHR '' '' # ?t)" using Cons.prems(2) by simp
  have le: "?s \<le> es" using length_input [OF l, of s] i Cons.prems(1) by simp
  have i': "input buf es ?s = ?t" using input_add [of buf es s "length w + 1"] i by simp
  have ws: "starts (\<lambda>c. \<not> is_ws c) ?t"
  proof (cases "a = []")
    case True
    then show ?thesis using starts_redirs [OF follows_ws [OF t]] by simp
  next
    case False
    have "starts (\<lambda>c. \<not> is_ws c \<and> c \<notin> set ''<>'') ?t" using starts_words [OF _ False, of "print_redirs rs @ t"] Cons.prems(4) by simp
    then show ?thesis by (rule starts_mono) simp
  qed
  have pk: "peek buf es ''|)&;'' s = Ok False s"
    using peek_input [OF l Cons.prems(1) i, of "''|)&;''"] hd_word [OF w] starts_word [OF w] w by (auto simp: word_ok_def)
  have tk: "gettoken buf es s = Ok (CHR ''a'', s, s + length w) ?s" "word_at buf (s, s + length w) = w"
    using gettoken_input(5) [OF l Cons.prems(1) i refl w] takeWhile_starts [OF ws] by (simp_all add: word_char_def)
  have step: "parseexec_loop n buf es args r s = kdo (parseredirs r buf es) (\<lambda>r'. parseexec_loop k buf es (args @ [(s, s + length w)]) r') ?s"
    unfolding n parseexec_loop.simps kdo_Ok [where m = "peek buf es ''|)&;''", OF pk] if_False
      kdo_Ok [where m = "gettoken buf es", OF tk(1)] prod.case
    using Cons.prems(5) by simp
  show ?case
  proof (cases "a = []")
    case True
    have "reads buf (parseredirs r buf es ?s) (?s + length (print_redirs rs)) (wrap rs (map_cmd (word_at buf) r))"
      by (rule parseredirs_reads [OF l le _ follows_nows [OF t]]) (use i' True rs in auto)
    moreover have "reads buf (parseexec_loop k buf es (args @ [(s, s + length w)]) r' (?s + length (print_redirs rs))) (?s + length (print_redirs rs))
         (wrap rs (set_argv (map (word_at buf) args @ [w]) (map_cmd (word_at buf) r)))"
      if r': "map_cmd (word_at buf) r' = wrap rs (map_cmd (word_at buf) r)" for r'
    proof -
      let ?u = "?s + length (print_redirs rs)"
      have u: "?u \<le> es" using length_input [OF l, of s] i True Cons.prems(1) by simp
      have "input buf es ?u = t" using input_add [of buf es ?s "length (print_redirs rs)"] i' True by simp
      from parseexec_loop_end [OF l u this t] have "parseexec_loop k buf es (args @ [(s, s + length w)]) r' ?u = Ok (set_argv (args @ [(s, s + length w)]) r') ?u"
        using Cons.prems(6) n le by simp
      then show ?thesis using r' tk(2) by (simp add: reads_def)
    qed
    ultimately show ?thesis unfolding step using True by (auto simp: ac_simps intro!: reads_kdo)
  next
    case False
    have 1: "reads buf (parseredirs r buf es ?s) (?s + length (print_redirs [])) (wrap [] (map_cmd (word_at buf) r))"
      by (rule parseredirs_reads [OF l le]) (use i' Cons.prems(4) False starts_words [of a] in auto)
    have 2: "reads buf (parseexec_loop k buf es (args @ [(s, s + length w)]) r' ?s) (?s + length (print_words a @ print_redirs rs))
         (wrap rs (set_argv (map (word_at buf) args @ w # a) (map_cmd (word_at buf) r)))"
      if "map_cmd (word_at buf) r' = map_cmd (word_at buf) r" for r'
    proof -
      have "reads buf (parseexec_loop k buf es (args @ [(s, s + length w)]) r' ?s) (?s + length (print_words a @ print_redirs rs))
         (wrap rs (set_argv (map (word_at buf) (args @ [(s, s + length w)]) @ a) (map_cmd (word_at buf) r')))"
        by (rule Cons.IH [OF le i' False]) (use Cons.prems n le in auto)
      then show ?thesis using tk(2) that by simp
    qed
    show ?thesis unfolding step by (rule reads_kdo [where m = "parseredirs r buf es", OF 1]) (use 2 in \<open>simp add: ac_simps\<close>)
  qed
qed simp

text \<open>
  The four levels.  A simple command may have redirections \<open>rs\<close> still to come, a background command ampersands, because the
  grammar's repetitions are left-nested in the tree.
\<close>

definition ands :: "nat \<Rightarrow> string" where
  "ands j = concat (replicate j ''& '')"

lemma ands_simps [simp]: "ands 0 = []" "ands (Suc j) = CHR ''&'' # CHR '' '' # ands j" "length (ands j) = 2 * j"
  by (induction j) (simp_all add: ands_def)

definition reads_exec :: "char list \<Rightarrow> nat \<Rightarrow> string cmd \<Rightarrow> bool" where
  "reads_exec buf es c \<longleftrightarrow> (\<forall>s rs t n. s \<le> es \<longrightarrow> input buf es s = print 3 c @ print_redirs rs @ t \<longrightarrow> follows ''|)&;'' t \<longrightarrow>
     (\<forall>f \<in> set rs. redir_ok f) \<longrightarrow> 4 * (es - s) + 2 \<le> n \<longrightarrow>
     reads buf (parseexec n buf es s) (s + length (print 3 c @ print_redirs rs)) (wrap rs c))"

definition reads_pipe :: "char list \<Rightarrow> nat \<Rightarrow> string cmd \<Rightarrow> bool" where
  "reads_pipe buf es c \<longleftrightarrow> (\<forall>s t n. s \<le> es \<longrightarrow> input buf es s = print 2 c @ t \<longrightarrow> follows '')&;'' t \<longrightarrow> 4 * (es - s) + 3 \<le> n \<longrightarrow>
     reads buf (parsepipe n buf es s) (s + length (print 2 c)) c)"

definition reads_back :: "char list \<Rightarrow> nat \<Rightarrow> string cmd \<Rightarrow> bool" where
  "reads_back buf es c \<longleftrightarrow> (\<forall>s j t n. s \<le> es \<longrightarrow> input buf es s = print 1 c @ ands j @ t \<longrightarrow> follows '');'' t \<longrightarrow> 4 * (es - s) + 3 \<le> n \<longrightarrow>
     reads buf (kdo (parsepipe n buf es) (parseback (es + 1) buf es) s) (s + length (print 1 c) + 2 * j) ((BACK ^^ j) c))"

definition reads_line :: "char list \<Rightarrow> nat \<Rightarrow> string cmd \<Rightarrow> bool" where
  "reads_line buf es c \<longleftrightarrow> (\<forall>s t n. s \<le> es \<longrightarrow> input buf es s = print 0 c @ t \<longrightarrow> follows '')'' t \<longrightarrow> 4 * (es - s) + 4 \<le> n \<longrightarrow>
     reads buf (parseline n buf es s) (s + length (print 0 c)) c)"

lemma starts_print: "writable c \<Longrightarrow> starts (\<lambda>x. \<not> is_ws x) t \<Longrightarrow> starts (\<lambda>x. \<not> is_ws x) (print k c @ t)"
proof (induction c arbitrary: k t)
  case (EXEC a)
  show ?case
  proof (cases "a = []")
    case False
    have "starts (\<lambda>c. \<not> is_ws c \<and> c \<notin> set ''<>'') (print_words a @ t)" using starts_words [OF _ False] EXEC by simp
    then show ?thesis unfolding print.simps by (rule starts_mono) simp
  qed (use EXEC in simp)
next
  case (REDIR c f m d)
  have "starts (\<lambda>x. \<not> is_ws x) (print_redir (f, m, d) @ t)" by (simp add: print_redir_def)
  then show ?case using REDIR by simp
qed (auto simp: bracket_def)

text \<open>A symbol that the parser expects next.\<close>

lemma bracket_reads:
  assumes l: "line buf es" and s: "s \<le> es" and i: "input buf es s = x # t" and x: "x = CHR ''(''" and t: "starts (\<lambda>c. \<not> is_ws c) t"
  shows "peek buf es toks s = Ok (x \<in> set toks) s" and "gettoken buf es s = Ok (x, s, s + 1) (s + 1)"
    and "input buf es (s + 1) = t" and "s + 1 \<le> es"
proof -
  have "starts (\<lambda>c. \<not> is_ws c) (x # t)" using x by auto
  then show "peek buf es toks s = Ok (x \<in> set toks) s" using peek_input [OF l s i, of toks] by simp
  show "gettoken buf es s = Ok (x, s, s + 1) (s + 1)" using gettoken_input(2) [OF l s i refl] x takeWhile_starts [OF t] by auto
  show "input buf es (s + 1) = t" using input_add [of buf es s 1] i by simp
  show "s + 1 \<le> es" using length_input [OF l, of s] i s by simp
qed

lemma symbol_reads:
  assumes l: "line buf es" and s: "s \<le> es" and i: "input buf es s = x # CHR '' '' # t" and x: "x \<in> set ''|;&)''" and t: "starts (\<lambda>c. \<not> is_ws c) t"
  shows "peek buf es toks s = Ok (x \<in> set toks) s" and "gettoken buf es s = Ok (x, s, s + 1) (s + 2)"
    and "input buf es (s + 2) = t" and "s + 2 \<le> es"
proof -
  have "starts (\<lambda>c. \<not> is_ws c) (x # CHR '' '' # t)" using x by auto
  then show "peek buf es toks s = Ok (x \<in> set toks) s" using peek_input [OF l s i, of toks] by simp
  show "gettoken buf es s = Ok (x, s, s + 1) (s + 2)" using gettoken_input(2) [OF l s i refl] x takeWhile_starts [OF t] by auto
  show "input buf es (s + 2) = t" using input_add [of buf es s 2] i by simp
  show "s + 2 \<le> es" using length_input [OF l, of s] i s by simp
qed

lemma parseback_reads:
  assumes l: "line buf es" and t: "follows '');'' t"
  shows "s \<le> es \<Longrightarrow> input buf es s = ands j @ t \<Longrightarrow> es - s < n \<Longrightarrow>
    reads buf (parseback n buf es c s) (s + 2 * j) ((BACK ^^ j) (map_cmd (word_at buf) c))"
proof (induction j arbitrary: n c s)
  case 0
  then obtain k where n: "n = Suc k" by (cases n) auto
  have i: "input buf es s = t" using 0 by simp
  have ws: "starts (\<lambda>c. \<not> is_ws c) t" using follows_ws [OF t] by simp
  have "peek buf es ''&'' s = Ok False s" using peek_input [OF l 0(1) i ws] t by (cases t) auto
  then show ?case unfolding n by (simp add: kdo_def reads_def ret_def)
next
  case (Suc j)
  obtain k where n: "n = Suc k" using Suc.prems by (cases n) auto
  have i: "input buf es s = CHR ''&'' # CHR '' '' # ands j @ t" using Suc.prems(2) by simp
  have ws: "starts (\<lambda>c. \<not> is_ws c) (ands j @ t)" using follows_ws [OF t] by (cases j) simp_all
  note amp = symbol_reads [OF l Suc.prems(1) i _ ws]
  have "reads buf (parseback k buf es (BACK c) (s + 2)) (s + 2 + 2 * j) ((BACK ^^ j) (map_cmd (word_at buf) (BACK c)))"
    by (rule Suc.IH [OF amp(4,3)]) (use Suc.prems(3) n amp(4) in simp_all)
  moreover have "parseback n buf es c s = parseback k buf es (BACK c) (s + 2)"
    using amp(1) [of "''&''"] amp(2) by (simp add: n kdo_def cmd_cons)
  ultimately show ?case by (simp add: funpow_swap1)
qed

lemma peek_no:
  assumes "line buf es" "s \<le> es" "input buf es s = t" "follows f t" "set f \<subseteq> set ''|)&;''" "set f \<inter> set toks = {}"
  shows "peek buf es toks s = Ok False s"
  using peek_input [OF assms(1-3) follows_ws [OF assms(4,5)], of toks] assms(4,6) by (cases t) auto

lemma input_after: "line buf es \<Longrightarrow> s \<le> es \<Longrightarrow> input buf es s = u @ t \<Longrightarrow> input buf es (s + length u) = t \<and> s + length u \<le> es"
  using length_input [of buf es s] input_add [of buf es s "length u"] by auto

lemma pipe_of_exec:
  assumes l: "line buf es" and e: "reads_exec buf es c" and p: "print 2 c = print 3 c"
  shows "reads_pipe buf es c"
  unfolding reads_pipe_def
proof (intro allI impI)
  fix s t n assume a: "s \<le> es" "input buf es s = print 2 c @ t" "follows '')&;'' t" "4 * (es - s) + 3 \<le> n"
  obtain k where n: "n = Suc k" using a(4) by (cases n) auto
  have "follows ''|)&;'' t" by (rule starts_mono [OF a(3)]) auto
  from e [unfolded reads_exec_def, rule_format, of s "[]", OF a(1) _ this, of k]
  have "reads buf (parseexec k buf es s) (s + length (print 3 c @ print_redirs [])) (wrap [] c)" using a(2,4) n p by simp
  then have 1: "reads buf (parseexec k buf es s) (s + length (print 2 c)) c" by (simp add: p)
  have "peek buf es ''|'' (s + length (print 2 c)) = Ok False (s + length (print 2 c))"
    by (rule peek_no [where f = "'')&;''", OF l]) (use input_after [OF l a(1,2)] a(3) in auto)
  then show "reads buf (parsepipe n buf es s) (s + length (print 2 c)) c"
    unfolding n parsepipe.simps by (intro reads_kdo [where m = "parseexec k buf es", OF 1]) (simp add: kdo_def reads_ret)
qed

lemma back_of_pipe:
  assumes l: "line buf es" and e: "reads_pipe buf es c" and p: "print 1 c = print 2 c"
  shows "reads_back buf es c"
  unfolding reads_back_def
proof (intro allI impI)
  fix s j t n assume a: "s \<le> es" "input buf es s = print 1 c @ ands j @ t" "follows '');'' t" "4 * (es - s) + 3 \<le> n"
  have "follows '')&;'' t" by (rule starts_mono [OF a(3)]) auto
  then have "follows '')&;'' (ands j @ t)" by (cases j) simp_all
  from e [unfolded reads_pipe_def, rule_format, OF a(1) _ this a(4)]
  have 1: "reads buf (parsepipe n buf es s) (s + length (print 1 c)) c" using a(2) p by simp
  note after = input_after [OF l a(1,2)]
  show "reads buf (kdo (parsepipe n buf es) (parseback (es + 1) buf es) s) (s + length (print 1 c) + 2 * j) ((BACK ^^ j) c)"
  proof (rule reads_kdo [where m = "parsepipe n buf es", OF 1])
    fix x assume x: "map_cmd (word_at buf) x = c"
    show "reads buf (parseback (es + 1) buf es x (s + length (print 1 c))) (s + length (print 1 c) + 2 * j) ((BACK ^^ j) c)"
      using parseback_reads [OF l a(3), of "s + length (print 1 c)" j "es + 1" x] after x by simp
  qed
qed

lemma back_of_back:
  assumes e: "reads_back buf es c"
  shows "reads_back buf es (BACK c)"
  unfolding reads_back_def
proof (intro allI impI)
  fix s j t n assume a: "s \<le> es" "input buf es s = print 1 (BACK c) @ ands j @ t" "follows '');'' t" "4 * (es - s) + 3 \<le> n"
  have "input buf es s = print 1 c @ ands (Suc j) @ t" using a(2) by (simp add: bracket_def)
  from e [unfolded reads_back_def, rule_format, OF a(1) this a(3,4)]
  show "reads buf (kdo (parsepipe n buf es) (parseback (es + 1) buf es) s) (s + length (print 1 (BACK c)) + 2 * j) ((BACK ^^ j) (BACK c))"
    by (simp add: bracket_def funpow_swap1)
qed

lemma parseline_split:
  "parseline (Suc k) buf es s = kdo (kdo (parsepipe k buf es) (parseback (es + 1) buf es)) (\<lambda>cmd. kdo (peek buf es '';'') (\<lambda>b.
       if b then kdo (gettoken buf es) (\<lambda>_. kdo (parseline k buf es) (\<lambda>r. ret (listcmd cmd r))) else ret cmd)) s"
  by (simp add: kdo_assoc del: parseback.simps)

lemma line_of_back:
  assumes l: "line buf es" and e: "reads_back buf es c" and p: "print 0 c = print 1 c"
  shows "reads_line buf es c"
  unfolding reads_line_def
proof (intro allI impI)
  fix s t n assume a: "s \<le> es" "input buf es s = print 0 c @ t" "follows '')'' t" "4 * (es - s) + 4 \<le> n"
  obtain k where n: "n = Suc k" using a(4) by (cases n) auto
  have f: "follows '');'' t" by (rule starts_mono [OF a(3)]) auto
  have i: "input buf es s = print 1 c @ ands 0 @ t" using a(2) p by simp
  have k: "4 * (es - s) + 3 \<le> k" using a(4) n by simp
  have 1: "reads buf (kdo (parsepipe k buf es) (parseback (es + 1) buf es) s) (s + length (print 0 c)) c"
    using e [unfolded reads_back_def, rule_format, OF a(1) i f k] p by simp
  have "peek buf es '';'' (s + length (print 0 c)) = Ok False (s + length (print 0 c))"
    by (rule peek_no [where f = "'')''", OF l]) (use input_after [OF l a(1,2)] a(3) in auto)
  then show "reads buf (parseline n buf es s) (s + length (print 0 c)) c"
    unfolding n parseline_split by (intro reads_kdo [where m = "kdo (parsepipe k buf es) (parseback (es + 1) buf es)", OF 1]) (simp add: kdo_def reads_ret)
qed

lemma exec_of_line:
  assumes l: "line buf es" and e: "reads_line buf es c" and p: "print 3 c = ''('' @ print 0 c @ '') ''" and w: "writable c"
  shows "reads_exec buf es c"
  unfolding reads_exec_def
proof (intro allI impI)
  fix s rs t n assume a: "s \<le> es" "input buf es s = print 3 c @ print_redirs rs @ t" "follows ''|)&;'' t"
    "\<forall>f \<in> set rs. redir_ok f" "4 * (es - s) + 2 \<le> n"
  let ?t = "print_redirs rs @ t"
  let ?u = "s + 1 + length (print 0 c)"
  have wst: "starts (\<lambda>c. \<not> is_ws c) ?t" by (rule starts_redirs) (rule follows_ws [OF a(3)], simp)
  define k where "k = n - 2"
  have n: "n = Suc (Suc k)" using a(5) by (simp add: k_def)
  have i: "input buf es s = CHR ''('' # print 0 c @ '') '' @ ?t" using a(2) p by simp
  have "starts (\<lambda>c. \<not> is_ws c) (print 0 c @ '') '' @ ?t)" by (rule starts_print [OF w]) simp
  note op = bracket_reads [OF l a(1) i _ this]
  have "4 * (es - (s + 1)) + 4 \<le> k" using a(5) n op(4) by simp
  then have 1: "reads buf (parseline k buf es (s + 1)) ?u c"
    by (intro e [unfolded reads_line_def, rule_format, OF op(4) op(3)]) simp_all
  have u: "input buf es ?u = CHR '')'' # CHR '' '' # ?t" "?u \<le> es" using input_after [OF l op(4) op(3)] by simp_all
  note cl = symbol_reads [OF l u(2) u(1) _ wst]
  have 2: "reads buf (parseredirs x buf es (?u + 2)) (?u + 2 + length (print_redirs rs)) (wrap rs (map_cmd (word_at buf) x))" for x
    by (rule parseredirs_reads [OF l cl(4) cl(3) follows_nows [OF a(3)] a(4)]) simp_all
  have "parseexec n buf es s = kdo (parseline k buf es) (\<lambda>cmd. kdo (peek buf es '')'') (\<lambda>b.
           if \<not> b then panic ''syntax - missing )'' else kdo (gettoken buf es) (\<lambda>_. parseredirs cmd buf es))) (s + 1)"
    using op(1) [of "''(''"] op(2) by (simp add: n kdo_def)
  moreover have "reads buf \<dots> (?u + 2 + length (print_redirs rs)) (wrap rs c)"
  proof (rule reads_kdo [where m = "parseline k buf es", OF 1])
    fix x assume "map_cmd (word_at buf) x = c"
    then show "reads buf (kdo (peek buf es '')'') (\<lambda>b. if \<not> b then panic ''syntax - missing )''
        else kdo (gettoken buf es) (\<lambda>_. parseredirs x buf es)) ?u) (?u + 2 + length (print_redirs rs)) (wrap rs c)"
      using cl(1) [of "'')''"] cl(2) 2 [of x] by (simp add: kdo_def)
  qed
  ultimately show "reads buf (parseexec n buf es s) (s + length (print 3 c @ print_redirs rs)) (wrap rs c)"
    using p by (simp add: ac_simps)
qed

lemma exec_of_redir:
  assumes e: "reads_exec buf es c" and r: "redir_ok (f, m, d)"
  shows "reads_exec buf es (REDIR c f m d)"
  unfolding reads_exec_def
proof (intro allI impI)
  fix s rs t n assume a: "s \<le> es" "input buf es s = print 3 (REDIR c f m d) @ print_redirs rs @ t" "follows ''|)&;'' t"
    "\<forall>f \<in> set rs. redir_ok f" "4 * (es - s) + 2 \<le> n"
  have i: "input buf es s = print 3 c @ print_redirs ((f, m, d) # rs) @ t" using a(2) by simp
  have "\<forall>f \<in> set ((f, m, d) # rs). redir_ok f" using a(4) r by simp
  from e [unfolded reads_exec_def, rule_format, OF a(1) i a(3) _ a(5)] this
  show "reads buf (parseexec n buf es s) (s + length (print 3 (REDIR c f m d) @ print_redirs rs)) (wrap rs (REDIR c f m d))" by simp
qed

lemma exec_of_args:
  assumes l: "line buf es" and w: "writable (EXEC a)"
  shows "reads_exec buf es (EXEC a)"
  unfolding reads_exec_def
proof (intro allI impI)
  fix s rs t n assume a: "s \<le> es" "input buf es s = print 3 (EXEC a) @ print_redirs rs @ t" "follows ''|)&;'' t"
    "\<forall>f \<in> set rs. redir_ok f" "4 * (es - s) + 2 \<le> n"
  obtain k where n: "n = Suc k" using a(5) by (cases n) auto
  have i: "input buf es s = print_words a @ print_redirs rs @ t" using a(2) by simp
  have ws: "starts (\<lambda>c. \<not> is_ws c) (print_redirs rs @ t)" by (rule starts_redirs) (rule follows_ws [OF a(3)], simp)
  have "hd (print_words a @ print_redirs rs @ t) \<noteq> CHR ''('' \<or> print_words a @ print_redirs rs @ t = []"
  proof (cases a)
    case (Cons x b)
    then show ?thesis using hd_word [of x] w by (cases x) (auto simp: word_ok_def)
  next
    case Nil
    then show ?thesis using a(3) by (cases rs; cases t) (auto simp: print_redir_def)
  qed
  then have "peek buf es ''('' s = Ok False s"
    using peek_input [OF l a(1) i starts_print [where k = 0, OF w ws, unfolded print.simps], of "''(''"] by auto
  then have step: "parseexec n buf es s = kdo (parseredirs execcmd buf es) (\<lambda>r. parseexec_loop (es + 1) buf es [] r) s"
    by (simp add: n kdo_def del: parseexec_loop.simps)
  show "reads buf (parseexec n buf es s) (s + length (print 3 (EXEC a) @ print_redirs rs)) (wrap rs (EXEC a))"
  proof (cases "a = []")
    case True
    let ?u = "s + length (print_redirs rs)"
    have 1: "reads buf (parseredirs execcmd buf es s) ?u (wrap rs (map_cmd (word_at buf) execcmd))"
      by (rule parseredirs_reads [OF l a(1) _ follows_nows [OF a(3)] a(4)]) (use i True in auto)
    have u: "input buf es ?u = t" "?u \<le> es" using input_after [OF l a(1), of "print_redirs rs" t] i True by auto
    show ?thesis unfolding step
      by (rule reads_kdo [where m = "parseredirs execcmd buf es", OF 1], subst parseexec_loop_end [OF l u(2) u(1) a(3)])
        (auto simp: True reads_def cmd_cons)
  next
    case False
    have 1: "reads buf (parseredirs execcmd buf es s) (s + length (print_redirs [])) (wrap [] (map_cmd (word_at buf) execcmd))"
      by (rule parseredirs_reads [OF l a(1)]) (use i w False starts_words [of a] in auto)
    have 2: "reads buf (parseexec_loop (es + 1) buf es [] r s) (s + length (print_words a @ print_redirs rs))
        (wrap rs (set_argv (map (word_at buf) [] @ a) (map_cmd (word_at buf) r)))" for r
      by (rule parseexec_loop_reads [OF l a(3,4,1) i False]) (use w in auto)
    show ?thesis unfolding step
    proof (rule reads_kdo [where m = "parseredirs execcmd buf es", OF 1])
      fix x assume "map_cmd (word_at buf) x = wrap [] (map_cmd (word_at buf) execcmd)"
      then show "reads buf (parseexec_loop (es + 1) buf es [] x (s + length (print_redirs []))) (s + length (print 3 (EXEC a) @ print_redirs rs)) (wrap rs (EXEC a))"
        using 2 [of x] by (simp add: cmd_cons)
    qed
  qed
qed

lemma pipe_of_pipe:
  assumes l: "line buf es" and e: "reads_exec buf es c" "reads_pipe buf es d" and w: "writable d"
  shows "reads_pipe buf es (PIPE c d)"
  unfolding reads_pipe_def
proof (intro allI impI)
  fix s t n assume a: "s \<le> es" "input buf es s = print 2 (PIPE c d) @ t" "follows '')&;'' t" "4 * (es - s) + 3 \<le> n"
  obtain k where n: "n = Suc k" using a(4) by (cases n) auto
  let ?u = "s + length (print 3 c)"
  have i: "input buf es s = print 3 c @ print_redirs [] @ CHR ''|'' # CHR '' '' # print 2 d @ t" using a(2) by (simp add: bracket_def)
  have f: "follows ''|)&;'' (CHR ''|'' # CHR '' '' # print 2 d @ t)" by simp
  have 1: "reads buf (parseexec k buf es s) ?u c"
    using e(1) [unfolded reads_exec_def, rule_format, OF a(1) i f, of k] a(4) n by simp
  have u: "input buf es ?u = CHR ''|'' # CHR '' '' # print 2 d @ t" "?u \<le> es" using input_after [OF l a(1)] i by simp_all
  have ws: "starts (\<lambda>c. \<not> is_ws c) (print 2 d @ t)" by (rule starts_print [OF w]) (rule follows_ws [OF a(3)], simp)
  note bar = symbol_reads [OF l u(2,1) _ ws]
  have 2: "reads buf (parsepipe k buf es (?u + 2)) (?u + 2 + length (print 2 d)) d"
    by (rule e(2) [unfolded reads_pipe_def, rule_format, OF bar(4) bar(3) a(3)]) (use a(4) n bar(4) in simp_all)
  show "reads buf (parsepipe n buf es s) (s + length (print 2 (PIPE c d))) (PIPE c d)"
    unfolding n parsepipe.simps
  proof (rule reads_kdo [where m = "parseexec k buf es", OF 1])
    fix x assume x: "map_cmd (word_at buf) x = c"
    have "reads buf (kdo (parsepipe k buf es) (\<lambda>r. ret (pipecmd x r)) (?u + 2)) (?u + 2 + length (print 2 d)) (PIPE c d)"
      by (rule reads_kdo [where m = "parsepipe k buf es", OF 2]) (simp add: cmd_cons reads_ret x)
    then show "reads buf (kdo (peek buf es ''|'') (\<lambda>b. if b then kdo (gettoken buf es) (\<lambda>_. kdo (parsepipe k buf es) (\<lambda>r. ret (pipecmd x r))) else ret x) ?u)
       (s + length (print 2 (PIPE c d))) (PIPE c d)"
      using bar(1) [of "''|''"] bar(2) by (simp add: kdo_def bracket_def ac_simps)
  qed
qed

lemma line_of_list:
  assumes l: "line buf es" and e: "reads_back buf es c" "reads_line buf es d" and w: "writable d"
  shows "reads_line buf es (LIST c d)"
  unfolding reads_line_def
proof (intro allI impI)
  fix s t n assume a: "s \<le> es" "input buf es s = print 0 (LIST c d) @ t" "follows '')'' t" "4 * (es - s) + 4 \<le> n"
  obtain k where n: "n = Suc k" using a(4) by (cases n) auto
  let ?u = "s + length (print 1 c)"
  let ?m = "kdo (parsepipe k buf es) (parseback (es + 1) buf es)"
  have i: "input buf es s = print 1 c @ ands 0 @ CHR '';'' # CHR '' '' # print 0 d @ t" using a(2) by (simp add: bracket_def)
  have f: "follows '');'' (CHR '';'' # CHR '' '' # print 0 d @ t)" by simp
  have 1: "reads buf (?m s) ?u c"
    using e(1) [unfolded reads_back_def, rule_format, OF a(1) i f, of k] a(4) n by simp
  have u: "input buf es ?u = CHR '';'' # CHR '' '' # print 0 d @ t" "?u \<le> es" using input_after [OF l a(1)] i by simp_all
  have ws: "starts (\<lambda>c. \<not> is_ws c) (print 0 d @ t)" by (rule starts_print [OF w]) (rule follows_ws [OF a(3)], simp)
  note semi = symbol_reads [OF l u(2,1) _ ws]
  have 2: "reads buf (parseline k buf es (?u + 2)) (?u + 2 + length (print 0 d)) d"
    by (rule e(2) [unfolded reads_line_def, rule_format, OF semi(4) semi(3) a(3)]) (use a(4) n semi(4) in simp_all)
  show "reads buf (parseline n buf es s) (s + length (print 0 (LIST c d))) (LIST c d)"
    unfolding n parseline_split
  proof (rule reads_kdo [where m = ?m, OF 1])
    fix x assume x: "map_cmd (word_at buf) x = c"
    have "reads buf (kdo (parseline k buf es) (\<lambda>r. ret (listcmd x r)) (?u + 2)) (?u + 2 + length (print 0 d)) (LIST c d)"
      by (rule reads_kdo [where m = "parseline k buf es", OF 2]) (simp add: cmd_cons reads_ret x)
    then show "reads buf (kdo (peek buf es '';'') (\<lambda>b. if b then kdo (gettoken buf es) (\<lambda>_. kdo (parseline k buf es) (\<lambda>r. ret (listcmd x r))) else ret x) ?u)
       (s + length (print 0 (LIST c d))) (LIST c d)"
      using semi(1) [of "'';''"] semi(2) by (simp add: kdo_def bracket_def ac_simps)
  qed
qed

lemma all_levels:
  assumes l: "line buf es"
  shows "writable c \<Longrightarrow> reads_exec buf es c \<and> reads_pipe buf es c \<and> reads_back buf es c \<and> reads_line buf es c"
proof (induction c)
  case (EXEC a)
  then show ?case using exec_of_args [OF l EXEC] pipe_of_exec [OF l] back_of_pipe [OF l] line_of_back [OF l] by simp
next
  case (REDIR c f m d)
  have "redir_ok (f, m, d)" using REDIR.prems by (simp add: redir_ok_def)
  then have "reads_exec buf es (REDIR c f m d)" using REDIR exec_of_redir by simp
  then show ?case using pipe_of_exec [OF l] back_of_pipe [OF l] line_of_back [OF l] by simp
next
  case (PIPE c d)
  have 1: "reads_pipe buf es (PIPE c d)" using PIPE by (intro pipe_of_pipe [OF l]) simp_all
  have 2: "reads_back buf es (PIPE c d)" by (rule back_of_pipe [OF l 1]) (simp add: bracket_def)
  have 3: "reads_line buf es (PIPE c d)" by (rule line_of_back [OF l 2]) (simp add: bracket_def)
  have "reads_exec buf es (PIPE c d)" by (rule exec_of_line [OF l 3 _ PIPE.prems]) (simp add: bracket_def)
  with 1 2 3 show ?case by simp
next
  case (LIST c d)
  have 3: "reads_line buf es (LIST c d)" using LIST by (intro line_of_list [OF l]) simp_all
  have 0: "reads_exec buf es (LIST c d)" by (rule exec_of_line [OF l 3 _ LIST.prems]) (simp add: bracket_def)
  have 1: "reads_pipe buf es (LIST c d)" by (rule pipe_of_exec [OF l 0]) (simp add: bracket_def)
  have "reads_back buf es (LIST c d)" by (rule back_of_pipe [OF l 1]) (simp add: bracket_def)
  with 0 1 3 show ?case by simp
next
  case (BACK c)
  have 2: "reads_back buf es (BACK c)" using BACK by (intro back_of_back) simp_all
  have 3: "reads_line buf es (BACK c)" by (rule line_of_back [OF l 2]) (simp add: bracket_def)
  have 0: "reads_exec buf es (BACK c)" by (rule exec_of_line [OF l 3 _ BACK.prems]) (simp add: bracket_def)
  have "reads_pipe buf es (BACK c)" by (rule pipe_of_exec [OF l 0]) (simp add: bracket_def)
  with 0 2 3 show ?case by simp
qed

lemma print_no_NUL: "writable c \<Longrightarrow> NUL \<notin> set (print k c)"
  by (induction c arbitrary: k) (auto simp: bracket_def print_words_def print_redir_def word_ok_def)

lemma parse_printed:
  assumes "writable c"
  shows "\<exists>x. parsecmd (print 0 c @ NUL # junk) p = Ok (x, nulterminate (print 0 c @ NUL # junk) x) (length (print 0 c)) \<and>
    map_cmd (word_at (print 0 c @ NUL # junk)) x = c"
proof -
  define buf where "buf = print 0 c @ NUL # junk"
  define es where "es = length (print 0 c)"
  have s: "cstr buf 0 = print 0 c" using print_no_NUL [OF assms, of 0] by (simp add: buf_def cstr_def takeWhile_append)
  have l: "line buf es" using line_cstr [of buf] s by (simp add: es_def)
  have i: "input buf es 0 = print 0 c @ []" by (simp add: input_def buf_def es_def)
  have "reads buf (parseline (4 * es + 4) buf es 0) (0 + length (print 0 c)) c"
    by (rule all_levels [OF l assms, THEN conjunct2, THEN conjunct2, THEN conjunct2, unfolded reads_line_def, rule_format, OF _ i]) simp_all
  then obtain x where x: "parseline (4 * es + 4) buf es 0 = Ok x es" "map_cmd (word_at buf) x = c" by (auto simp: reads_def es_def)
  have "peek buf es [] es = Ok False es" by (simp add: peek_def kern_simps skip_while.simps)
  then have "parsecmd buf p = Ok (x, nulterminate buf x) es"
    using x(1) by (simp add: parsecmd_def Let_def kern_simps s es_def [symmetric] kdo_def)
  then show ?thesis using x(2) unfolding buf_def es_def by blast
qed

text \<open>The pointers of a command that was read point to its words.\<close>

lemma parsecmd_cstr:
  assumes "parsecmd buf p = Ok (x, b) t"
  shows "map_cmd (\<lambda>w. cstr b (fst w)) x = map_cmd (word_at buf) x"
proof -
  have c: "cmd_ok buf (length (cstr buf 0)) x" "b = nulterminate buf x" using parsecmd_ends [of buf p] assms by (simp_all add: ends_def)
  have "cstr (nulterminate buf x) (fst w) = word_at buf w" if "w \<in> set_cmd x" for w
    using cstr_nulterminate [OF line_cstr c(1) that refl] .
  then show ?thesis unfolding c(2) by (intro cmd.map_cong0) simp
qed

text \<open>
  C33.  Every command can be written, and is read back.  For each command tree over words the shell can hold (at most nine arguments a command,
  words that are not empty and have no white space, symbols or NULs, the three kinds of redirection) the line that \<^const>\<open>print\<close> writes
  for it parses, whatever the array holds behind the line, and the tree that \<^verbatim>\<open>runcmd\<close> is given has the same shape, with pointers to strings that are
  the same words.
\<close>

theorem parse_print:
  assumes "writable c"
  shows "\<exists>x b t. parsecmd (print 0 c @ NUL # junk) p = Ok (x, b) t \<and> map_cmd (\<lambda>w. cstr b (fst w)) x = c"
proof -
  obtain x where x: "parsecmd (print 0 c @ NUL # junk) p = Ok (x, nulterminate (print 0 c @ NUL # junk) x) (length (print 0 c))"
    "map_cmd (word_at (print 0 c @ NUL # junk)) x = c" using parse_printed [OF assms] by blast
  have "map_cmd (\<lambda>w. cstr (nulterminate (print 0 c @ NUL # junk) x) (fst w)) x = c" using parsecmd_cstr [OF x(1)] x(2) by simp
  then show ?thesis using x(1) by blast
qed

definition ex_cmd :: "string cmd" where
  "ex_cmd = LIST (BACK (PIPE (EXEC [''ls'', ''-l'']) (REDIR (LIST (EXEC [''cat'']) (EXEC [''wc''])) ''out'' (O_WRONLY OR O_CREATE) 1))) (REDIR (EXEC []) ''f'' O_RDONLY 0)"

theorem parse_print_witness:
  "print 0 ex_cmd = ''ls -l | (cat ; wc ) >>out & ; <f '' \<and>
   (\<exists>x b t. parsecmd (print 0 ex_cmd @ NUL # ''tail'') 7 = Ok (x, b) t \<and> map_cmd (\<lambda>w. cstr b (fst w)) x = ex_cmd)"
proof
  show "print 0 ex_cmd = ''ls -l | (cat ; wc ) >>out & ; <f ''"
    by (simp add: ex_cmd_def bracket_def print_words_def print_redir_def params)
  have "writable ex_cmd"
    by (simp add: ex_cmd_def MAXARGS_def word_ok_def word_char_def is_ws_def is_sym_def whitespace_def symbols_def)
  then show "\<exists>x b t. parsecmd (print 0 ex_cmd @ NUL # ''tail'') 7 = Ok (x, b) t \<and> map_cmd (\<lambda>w. cstr b (fst w)) x = ex_cmd"
    by (rule parse_print)
qed

end
