(* ===== verification/Shrun.thy ===== *)
theory Shrun
  imports Sh
begin

text \<open>
  What the shell does with a command, \<^verbatim>\<open>user/sh.c\<close>: \<^verbatim>\<open>runcmd\<close>, \<^verbatim>\<open>getcmd\<close> and the loop of \<^verbatim>\<open>main\<close>.  A process is the tree of the system calls that it makes,
  with what it does next as a function of the result.  The part of the system that matters here is the table of
  descriptors of each process: \<^verbatim>\<open>dup\<close>, \<^verbatim>\<open>open\<close> and \<^verbatim>\<open>pipe\<close> take the lowest free descriptors, \<^verbatim>\<open>fork\<close> copies the table, and any call
  but \<^verbatim>\<open>close\<close> and \<^verbatim>\<open>wait\<close> may fail.

  Shown: the programs that run are those of the command, each with exactly the descriptors that the redirections and
  pipes around it say, and no descriptor of a pipe is left open in one that has no business with it.
\<close>

section \<open>The shell's processes\<close>

datatype uprog =
    Exit int
  | Exec "string list" uprog
  | Close int uprog
  | Open string uint "int \<Rightarrow> uprog"
  | Dup int "int \<Rightarrow> uprog"
  | Pipe "(int \<times> int) option \<Rightarrow> uprog"
  | Fork "int \<Rightarrow> uprog"
  | Wait uprog
  | Write int string uprog
  | Chdir string "int \<Rightarrow> uprog"
  | Hang

definition sh_panic :: "string \<Rightarrow> uprog" where
  "sh_panic s = Write 2 (s @ ''\<newline>'') (Exit 1)"

definition fork1 :: "(int \<Rightarrow> uprog) \<Rightarrow> uprog" where
  "fork1 k = Fork (\<lambda>pid. if pid = -1 then sh_panic ''fork'' else k pid)"

text \<open>A call that does not return in the child ends that branch; what follows it in the code is the parent's.\<close>

primrec runcmd :: "string cmd \<Rightarrow> uprog" where
  "runcmd (EXEC argv) =
     (case argv of
        [] \<Rightarrow> Exit 1
      | path # _ \<Rightarrow> Exec argv (Write 2 (''exec '' @ path @ '' failed\<newline>'') (Exit 0)))"
| "runcmd (REDIR cmd f mode fd) =
     Close fd (Open f mode (\<lambda>r.
       if r < 0 then Write 2 (''open '' @ f @ '' failed\<newline>'') (Exit 1)
       else runcmd cmd))"
| "runcmd (LIST left right) =
     fork1 (\<lambda>pid. if pid = 0 then runcmd left else Wait (runcmd right))"
| "runcmd (PIPE left right) =
     Pipe (\<lambda>r. case r of
         None \<Rightarrow> sh_panic ''pipe''
       | Some (p0, p1) \<Rightarrow>
           fork1 (\<lambda>pid.
             if pid = 0 then Close 1 (Dup p1 (\<lambda>_. Close p0 (Close p1 (runcmd left))))
             else fork1 (\<lambda>pid.
               if pid = 0 then Close 0 (Dup p0 (\<lambda>_. Close p0 (Close p1 (runcmd right))))
               else Close p0 (Close p1 (Wait (Wait (Exit 0)))))))"
| "runcmd (BACK cmd) =
     fork1 (\<lambda>pid. if pid = 0 then runcmd cmd else Exit 0)"

text \<open>
  \<^verbatim>\<open>getcmd\<close> clears the line and reads the next one from \<open>inp\<close>, the characters that the shell's calls of \<^verbatim>\<open>read\<close> deliver.  The child that
  \<^verbatim>\<open>main\<close> forks for a line parses it and runs the command, whose words are strings in the line; a panic of the parser is one of the child.
\<close>

definition getcmd :: "char list \<Rightarrow> string \<Rightarrow> int \<times> char list \<times> string" where
  "getcmd buf inp =
     (let (buf', rest) = ugets (umemset buf 0 NUL (length buf)) (length buf) inp in
      (if deref buf' 0 = NUL then -1 else 0, buf', rest))"

definition sh_child :: "char list \<Rightarrow> uprog" where
  "sh_child buf =
     (case parsecmd buf 0 of
        Ok (cmd, b) _ \<Rightarrow> runcmd (map_cmd (\<lambda>w. cstr b (fst w)) cmd)
      | Panic msg \<Rightarrow> sh_panic msg
      | _ \<Rightarrow> Hang)"

primrec sh_loop :: "nat \<Rightarrow> char list \<Rightarrow> string \<Rightarrow> uprog" where
  "sh_loop 0 buf inp = Hang"
| "sh_loop (Suc n) buf inp =
     Write 2 ''$ ''
       (let (r, buf, rest) = getcmd buf inp in
        if r \<ge> 0 then
          if deref buf 0 = CHR ''c'' \<and> deref buf 1 = CHR ''d'' \<and> deref buf 2 = CHR '' '' then
            let buf' = buf[ustrlen (cstr buf 0) - 1 := NUL]; path = cstr buf' 3 in
            Chdir path (\<lambda>r.
              if r < 0 then Write 2 (''cannot cd '' @ path @ ''\<newline>'') (sh_loop n buf' rest)
              else sh_loop n buf' rest)
          else
            fork1 (\<lambda>pid.
              if pid = 0 then sh_child buf
              else Wait (sh_loop n buf rest))
        else Exit 0)"

text \<open>
  The first loop of \<^verbatim>\<open>main\<close> opens the console until it gets a descriptor above 2, which it closes again, or an \<^verbatim>\<open>open\<close> fails.  Four rounds are enough.
\<close>

primrec sh_open3 :: "nat \<Rightarrow> uprog \<Rightarrow> uprog" where
  "sh_open3 0 k = Hang"
| "sh_open3 (Suc n) k =
     Open ''console'' O_RDWR (\<lambda>fd.
       if fd \<ge> 0 then if fd \<ge> 3 then Close fd k else sh_open3 n k
       else k)"

definition sh_main :: "string \<Rightarrow> uprog" where
  "sh_main inp = sh_open3 4 (sh_loop (length inp + 1) (replicate 100 NUL) inp)"

text \<open>One round of the second loop more than the input has characters is enough: every round that goes on has read at least one.\<close>

lemma ugets_loop_rest: "ugets_loop k buf i inp = (b, j, rest) \<Longrightarrow> length rest + j = length inp + i"
  by (induction k arbitrary: buf i inp) (auto split: list.splits if_splits simp: Let_def)

lemma getcmd_reads:
  assumes "getcmd buf inp = (r, b, rest)" and "0 \<le> r"
  shows "length rest < length inp"
proof -
  let ?m = "umemset buf 0 NUL (length buf)"
  obtain c i where g: "ugets_loop (length buf - 1) ?m 0 inp = (c, i, rest)" "b = c[i := NUL]" "deref b 0 \<noteq> NUL"
    using assms by (auto simp: getcmd_def ugets_def Let_def split: prod.splits if_splits)
  have "i \<noteq> 0" using g(2,3) by (cases c) (auto simp: deref_def split: if_splits nat.splits)
  then show ?thesis using ugets_loop_rest [OF g(1)] by simp
qed

lemma sh_loop_enough: "length inp < n \<Longrightarrow> sh_loop n buf inp = sh_loop (length inp + 1) buf inp"
proof (induction n arbitrary: buf inp rule: less_induct)
  case (less n)
  obtain k where n: "n = Suc k" using less.prems by (cases n) auto
  obtain r b rest where g: "getcmd buf inp = (r, b, rest)" by (metis surj_pair)
  show ?case
  proof (cases "0 \<le> r")
    case True
    have lt: "length rest < length inp" by (rule getcmd_reads [OF g True])
    have "sh_loop k b' rest = sh_loop (length rest + 1) b' rest" for b' using less.IH [of k rest b'] less.prems n lt by simp
    moreover have "sh_loop (length inp) b' rest = sh_loop (length rest + 1) b' rest" for b'
      using less.IH [of "length inp" rest b'] less.prems lt by simp
    ultimately have "sh_loop k b' rest = sh_loop (length inp) b' rest" for b' by metis
    then show ?thesis by (simp add: n g Let_def cong: if_cong)
  next
    case False
    then show ?thesis by (simp add: n g)
  qed
qed

section \<open>Descriptors\<close>

datatype fobj = Inherited nat | Opened string uint | Pipe_read nat | Pipe_write nat

type_synonym fdtable = "int \<Rightarrow> fobj option"

definition fd_free :: "fdtable \<Rightarrow> int \<Rightarrow> bool" where
  "fd_free F fd \<longleftrightarrow> 0 \<le> fd \<and> fd < 16 \<and> F fd = None \<and> (\<forall>i. 0 \<le> i \<and> i < fd \<longrightarrow> F i \<noteq> None)"

lemma below: "0 \<le> i \<Longrightarrow> i < 1 \<Longrightarrow> i = (0 :: int)" "0 \<le> i \<Longrightarrow> i < 2 \<Longrightarrow> i = 0 \<or> i = (1 :: int)"
    "0 \<le> i \<Longrightarrow> i < 3 \<Longrightarrow> i = 0 \<or> i = 1 \<or> i = (2 :: int)" "0 \<le> i \<Longrightarrow> i < 4 \<Longrightarrow> i = 0 \<or> i = 1 \<or> i = 2 \<or> i = (3 :: int)"
  by auto

lemma lowest_free:
  assumes "i \<in> {0, 1, 2}" and "F i = None"
  shows "\<exists>fd \<in> {0, 1, 2}. fd_free F fd"
proof -
  consider "F 0 = None" | "F 0 \<noteq> None" "F 1 = None" | "F 0 \<noteq> None" "F 1 \<noteq> None" "F 2 = None" using assms by auto
  then show ?thesis
  proof cases
    case 1
    then have "fd_free F 0" by (auto simp: fd_free_def)
    then show ?thesis by simp
  next
    case 2
    then have "fd_free F 1" by (auto simp: fd_free_def dest!: below(1))
    then show ?thesis by simp
  next
    case 3
    then have "fd_free F 2" by (auto simp: fd_free_def dest!: below(2))
    then show ?thesis by simp
  qed
qed

text \<open>What a process, or a process it has forked, can come to next.\<close>

inductive ustep :: "uprog \<times> fdtable \<Rightarrow> uprog \<times> fdtable \<Rightarrow> bool" where
  exec_fails: "ustep (Exec argv k, F) (k, F)"
| close: "ustep (Close fd k, F) (k, F(fd := None))"
| open_ok: "fd_free F fd \<Longrightarrow> ustep (Open f m k, F) (k fd, F(fd \<mapsto> Opened f m))"
| open_fails: "ustep (Open f m k, F) (k (-1), F)"
| dup_ok: "F fd = Some x \<Longrightarrow> fd_free F n \<Longrightarrow> ustep (Dup fd k, F) (k n, F(n \<mapsto> x))"
| dup_fails: "F fd = None \<or> (\<nexists>n. fd_free F n) \<Longrightarrow> ustep (Dup fd k, F) (k (-1), F)"
| pipe_ok: "fd_free F a \<Longrightarrow> fd_free (F(a \<mapsto> Pipe_read i)) b \<Longrightarrow>
    ustep (Pipe k, F) (k (Some (a, b)), F(a \<mapsto> Pipe_read i, b \<mapsto> Pipe_write i))"
| pipe_fails: "ustep (Pipe k, F) (k None, F)"
| fork_child: "ustep (Fork k, F) (k 0, F)"
| fork_parent: "pid > 0 \<Longrightarrow> ustep (Fork k, F) (k pid, F)"
| fork_fails: "ustep (Fork k, F) (k (-1), F)"
| wait: "ustep (Wait k, F) (k, F)"
| writes: "ustep (Write fd s k, F) (k, F)"
| chdir: "ustep (Chdir path k, F) (k r, F)"

inductive_simps ustep_simps:
  "ustep (Exit n, F) y" "ustep (Exec a k, F) y" "ustep (Close fd k, F) y" "ustep (Open f m k, F) y" "ustep (Dup fd k, F) y"
  "ustep (Pipe k, F) y" "ustep (Fork k, F) y" "ustep (Wait k, F) y" "ustep (Write fd s k, F) y"
  "ustep (Chdir path k, F) y" "ustep (Hang, F) y"

text \<open>The shell's first loop can leave descriptors 0, 1 and 2 open, whichever were open before.\<close>

lemma sh_open3_opens:
  "4 \<le> n + card {j \<in> {0, 1, 2}. F j \<noteq> None} \<Longrightarrow> \<exists>G. ustep\<^sup>*\<^sup>* (sh_open3 n k, F) (k, G) \<and> (\<forall>i \<in> {0, 1, 2}. G i \<noteq> None)"
proof (induction n arbitrary: F)
  case 0
  have "card {j \<in> {0, 1, 2 :: int}. F j \<noteq> None} \<le> card {0, 1, 2 :: int}" by (rule card_mono) auto
  then show ?case using 0 by simp
next
  case (Suc n)
  let ?q = "\<lambda>fd. if fd \<ge> 0 then if fd \<ge> 3 then Close fd k else sh_open3 n k else k"
  show ?case
  proof (cases "\<exists>fd \<in> {0, 1, 2}. fd_free F fd")
    case True
    then obtain fd where fd: "fd \<in> {0, 1, 2}" "fd_free F fd" by blast
    let ?G = "F(fd \<mapsto> Opened ''console'' O_RDWR)"
    have "{j \<in> {0, 1, 2}. ?G j \<noteq> None} = insert fd {j \<in> {0, 1, 2}. F j \<noteq> None}" using fd by auto
    moreover have "fd \<notin> {j \<in> {0, 1, 2}. F j \<noteq> None}" using fd by (simp add: fd_free_def)
    ultimately have "card {j \<in> {0, 1, 2}. ?G j \<noteq> None} = Suc (card {j \<in> {0, 1, 2}. F j \<noteq> None})" by simp
    then have "\<exists>G. ustep\<^sup>*\<^sup>* (sh_open3 n k, ?G) (k, G) \<and> (\<forall>i \<in> {0, 1, 2}. G i \<noteq> None)" using Suc.prems by (intro Suc.IH) simp
    moreover have "ustep (sh_open3 (Suc n) k, F) (sh_open3 n k, ?G)" using ustep.open_ok [OF fd(2), of "''console''" O_RDWR ?q] fd(1) by auto
    ultimately show ?thesis by (meson converse_rtranclp_into_rtranclp)
  next
    case False
    have "F i \<noteq> None" if "i \<in> {0, 1, 2}" for i using False that lowest_free [of i F] by blast
    moreover have "ustep (sh_open3 (Suc n) k, F) (k, F)" using ustep.open_fails [of "''console''" O_RDWR ?q F] by simp
    ultimately show ?thesis by blast
  qed
qed

text \<open>A program that starts: the arguments and descriptors at a call of \<^verbatim>\<open>exec\<close>.\<close>

definition starts_prog :: "uprog \<times> fdtable \<Rightarrow> string list \<Rightarrow> fdtable \<Rightarrow> bool" where
  "starts_prog x argv F \<longleftrightarrow> (\<exists>k. ustep\<^sup>*\<^sup>* x (Exec argv k, F))"

text \<open>What the command says: the simple commands, with redirections and pipes put in place of descriptors 0 and 1.\<close>

inductive plumb :: "string cmd \<Rightarrow> fdtable \<Rightarrow> string list \<Rightarrow> fdtable \<Rightarrow> bool" where
  exec: "argv \<noteq> [] \<Longrightarrow> plumb (EXEC argv) F argv F"
| redir: "plumb c (F(d \<mapsto> Opened f m)) argv G \<Longrightarrow> plumb (REDIR c f m d) F argv G"
| pipe_left: "plumb l (F(1 \<mapsto> Pipe_write i)) argv G \<Longrightarrow> plumb (PIPE l r) F argv G"
| pipe_right: "plumb r (F(0 \<mapsto> Pipe_read i)) argv G \<Longrightarrow> plumb (PIPE l r) F argv G"
| list_left: "plumb l F argv G \<Longrightarrow> plumb (LIST l r) F argv G"
| list_right: "plumb r F argv G \<Longrightarrow> plumb (LIST l r) F argv G"
| in_back: "plumb c F argv G \<Longrightarrow> plumb (BACK c) F argv G"

inductive_simps plumb_simps:
  "plumb (EXEC a) F argv G" "plumb (REDIR c f m d) F argv G" "plumb (PIPE l r) F argv G" "plumb (LIST l r) F argv G" "plumb (BACK c) F argv G"

section \<open>The descriptors of the programs that run\<close>

lemma starts_step:
  "starts_prog x argv G \<longleftrightarrow> (\<exists>k. x = (Exec argv k, G)) \<or> (\<exists>y. ustep x y \<and> starts_prog y argv G)"
proof
  assume "starts_prog x argv G"
  then obtain k where "ustep\<^sup>*\<^sup>* x (Exec argv k, G)" by (auto simp: starts_prog_def)
  then show "(\<exists>k. x = (Exec argv k, G)) \<or> (\<exists>y. ustep x y \<and> starts_prog y argv G)"
    by (cases rule: converse_rtranclpE) (auto simp: starts_prog_def)
next
  assume "(\<exists>k. x = (Exec argv k, G)) \<or> (\<exists>y. ustep x y \<and> starts_prog y argv G)"
  then show "starts_prog x argv G"
    by (auto simp: starts_prog_def intro: converse_rtranclp_into_rtranclp)
qed

lemma starts_Exit: "starts_prog (Exit n, F) argv G \<longleftrightarrow> False"
  by (subst starts_step) (simp add: ustep_simps ex_disj_distrib conj_disj_distribR, (blast | auto)?)

lemma starts_Exec: "starts_prog (Exec a k, F) argv G \<longleftrightarrow> (a = argv \<and> F = G) \<or> starts_prog (k, F) argv G"
  by (subst starts_step) (simp add: ustep_simps ex_disj_distrib conj_disj_distribR, (blast | auto)?)

lemma starts_Close: "starts_prog (Close fd k, F) argv G \<longleftrightarrow> starts_prog (k, F(fd := None)) argv G"
  by (subst starts_step) (simp add: ustep_simps ex_disj_distrib conj_disj_distribR, (blast | auto)?)

lemma starts_Open: "starts_prog (Open f m q, F) argv G \<longleftrightarrow> (\<exists>fd. fd_free F fd \<and> starts_prog (q fd, F(fd \<mapsto> Opened f m)) argv G) \<or> starts_prog (q (-1), F) argv G"
  by (subst starts_step) (simp add: ustep_simps ex_disj_distrib conj_disj_distribR, (blast | auto)?)

lemma starts_Dup: "starts_prog (Dup fd q, F) argv G \<longleftrightarrow> (\<exists>n x. F fd = Some x \<and> fd_free F n \<and> starts_prog (q n, F(n \<mapsto> x)) argv G) \<or>
     (F fd = None \<or> (\<nexists>n. fd_free F n)) \<and> starts_prog (q (-1), F) argv G"
  by (subst starts_step) (simp add: ustep_simps ex_disj_distrib conj_disj_distribR, (blast | auto)?)

lemma starts_Pipe: "starts_prog (Pipe p, F) argv G \<longleftrightarrow> (\<exists>a b i. fd_free F a \<and> fd_free (F(a \<mapsto> Pipe_read i)) b \<and>
     starts_prog (p (Some (a, b)), F(a \<mapsto> Pipe_read i, b \<mapsto> Pipe_write i)) argv G) \<or> starts_prog (p None, F) argv G"
  by (subst starts_step) (simp add: ustep_simps ex_disj_distrib conj_disj_distribR, (blast | auto)?)

lemma starts_Fork: "starts_prog (Fork q, F) argv G \<longleftrightarrow> starts_prog (q 0, F) argv G \<or> (\<exists>pid>0. starts_prog (q pid, F) argv G) \<or> starts_prog (q (-1), F) argv G"
  by (subst starts_step) (simp add: ustep_simps ex_disj_distrib conj_disj_distribR, (blast | auto)?)

lemma starts_Wait: "starts_prog (Wait k, F) argv G \<longleftrightarrow> starts_prog (k, F) argv G"
  by (subst starts_step) (simp add: ustep_simps ex_disj_distrib conj_disj_distribR, (blast | auto)?)

lemma starts_Write: "starts_prog (Write fd s k, F) argv G \<longleftrightarrow> starts_prog (k, F) argv G"
  by (subst starts_step) (simp add: ustep_simps ex_disj_distrib conj_disj_distribR, (blast | auto)?)

lemma starts_Chdir: "starts_prog (Chdir path q, F) argv G \<longleftrightarrow> (\<exists>r. starts_prog (q r, F) argv G)"
  by (subst starts_step) (simp add: ustep_simps ex_disj_distrib conj_disj_distribR, (blast | auto)?)

lemma starts_Hang: "starts_prog (Hang, F) argv G \<longleftrightarrow> False"
  by (subst starts_step) (simp add: ustep_simps ex_disj_distrib conj_disj_distribR, (blast | auto)?)

lemmas starts_simps = starts_Chdir starts_Hang starts_Exit starts_Exec starts_Close starts_Open starts_Dup starts_Pipe starts_Fork starts_Wait starts_Write

lemma starts_panic [simp]: "\<not> starts_prog (sh_panic s, F) argv G"
  by (simp add: sh_panic_def starts_simps)

text \<open>The two results of \<^verbatim>\<open>fork1\<close> that return.\<close>

lemma starts_fork1: "starts_prog (fork1 (\<lambda>pid. if pid = 0 then a else b), F) argv G \<longleftrightarrow> starts_prog (a, F) argv G \<or> starts_prog (b, F) argv G"
proof -
  have "(pid > 0 \<and> starts_prog (if pid = -1 then sh_panic ''fork'' else if pid = 0 then a else b, F) argv G) \<longleftrightarrow>
      pid > 0 \<and> starts_prog (b, F) argv G" for pid :: int
    by auto
  moreover have "\<exists>pid. pid > (0 :: int)" by (intro exI [of _ 1]) simp
  ultimately show ?thesis by (simp add: fork1_def starts_simps)
qed

definition std :: "fdtable \<Rightarrow> bool" where
  "std F \<longleftrightarrow> dom F = {0, 1, 2}"

lemma std_iff: "std F \<longleftrightarrow> F 0 \<noteq> None \<and> F 1 \<noteq> None \<and> F 2 \<noteq> None \<and> (\<forall>fd. fd \<noteq> 0 \<and> fd \<noteq> 1 \<and> fd \<noteq> 2 \<longrightarrow> F fd = None)"
  by (auto simp: std_def dom_def)

lemma std_upd: "std F \<Longrightarrow> d \<in> {0, 1} \<Longrightarrow> std (F(d \<mapsto> x))"
  by (auto simp: std_iff)

text \<open>The descriptor that was just closed is the lowest free one, and a pipe gets 3 and 4.\<close>

lemma fd_free_unique: "fd_free F a \<Longrightarrow> fd_free F n \<longleftrightarrow> n = a"
  by (cases n a rule: linorder_cases) (auto simp: fd_free_def)

lemma fd_free_closed: "F 0 \<noteq> None \<Longrightarrow> F 1 \<noteq> None \<Longrightarrow> d \<in> {0, 1} \<Longrightarrow> fd_free (F(d := None)) n \<longleftrightarrow> n = d"
  by (rule fd_free_unique) (auto simp: fd_free_def dest!: below(1))

lemma fd_free_std: "std F \<Longrightarrow> fd_free F n \<longleftrightarrow> n = 3"
  by (rule fd_free_unique) (auto simp: fd_free_def std_iff dest!: below(3))

lemma fd_free_std4: "std F \<Longrightarrow> fd_free (F(3 \<mapsto> x)) n \<longleftrightarrow> n = 4"
  by (rule fd_free_unique) (auto simp: fd_free_def std_iff dest!: below(4))

text \<open>One end of a new pipe takes the place of descriptor \<open>d\<close>, and both ends as \<^verbatim>\<open>pipe\<close> returned them are closed.\<close>

lemma starts_pipe_end:
  assumes F: "std F" and d: "d \<in> {0, 1}" and e: "e \<in> {3, 4}"
  shows "starts_prog (Close d (Dup e (\<lambda>_. Close 3 (Close 4 k))), F(3 \<mapsto> Pipe_read i, 4 \<mapsto> Pipe_write i)) argv G \<longleftrightarrow>
    starts_prog (k, F(d \<mapsto> (if e = 3 then Pipe_read i else Pipe_write i))) argv G"
proof -
  let ?H = "F(3 \<mapsto> Pipe_read i, 4 \<mapsto> Pipe_write i)"
  let ?x = "if e = 3 then Pipe_read i else Pipe_write i"
  have "fd_free (?H(d := None)) n \<longleftrightarrow> n = d" for n using fd_free_closed [of ?H d] F d by (simp add: std_iff)
  moreover have "(?H(d := None)) e = Some ?x" using d e by auto
  moreover have "(?H(d := None, d \<mapsto> ?x, 3 := None, 4 := None)) = F(d \<mapsto> ?x)" using F d by (auto simp: std_iff)
  ultimately show ?thesis by (simp add: starts_simps)
qed

lemma plumb_std: "plumb c F argv G \<Longrightarrow> std F \<Longrightarrow> fits c \<Longrightarrow> std G"
  by (induction rule: plumb.induct) (auto simp: std_upd)

lemma runcmd_plumb: "fits c \<Longrightarrow> std F \<Longrightarrow> starts_prog (runcmd c, F) argv G \<longleftrightarrow> plumb c F argv G"
proof (induction c arbitrary: F)
  case (EXEC a)
  show ?case by (cases a) (auto simp: starts_simps plumb_simps)
next
  case (REDIR c f m d)
  have d: "d \<in> {0, 1}" using REDIR.prems(1) by auto
  have "fd_free (F(d := None)) n \<longleftrightarrow> n = d" for n using fd_free_closed [of F d] REDIR.prems(2) d by (simp add: std_iff)
  moreover have "starts_prog (runcmd c, F(d \<mapsto> Opened f m)) argv G \<longleftrightarrow> plumb c (F(d \<mapsto> Opened f m)) argv G"
    by (rule REDIR.IH [OF _ std_upd [OF REDIR.prems(2) d]]) (use REDIR.prems in simp)
  moreover have "\<not> d < 0" using d by auto
  ultimately show ?case by (simp add: starts_simps plumb_simps del: fun_upd_apply)
next
  case (PIPE l r)
  have L: "starts_prog (runcmd l, F(1 \<mapsto> x)) argv G \<longleftrightarrow> plumb l (F(1 \<mapsto> x)) argv G" for x
    using PIPE.IH(1) PIPE.prems std_upd by simp
  have R: "starts_prog (runcmd r, F(0 \<mapsto> x)) argv G \<longleftrightarrow> plumb r (F(0 \<mapsto> x)) argv G" for x
    using PIPE.IH(2) PIPE.prems std_upd by simp
  have "starts_prog (runcmd (PIPE l r), F) argv G \<longleftrightarrow>
     (\<exists>i. starts_prog (runcmd l, F(1 \<mapsto> Pipe_write i)) argv G \<or> starts_prog (runcmd r, F(0 \<mapsto> Pipe_read i)) argv G)"
    using PIPE.prems(2) starts_pipe_end [OF PIPE.prems(2), of 1 4] starts_pipe_end [OF PIPE.prems(2), of 0 3]
    by (simp add: starts_fork1 starts_Pipe fd_free_std fd_free_std4 starts_Exit starts_Wait starts_Close [of _ "Close _ (Wait _)"] starts_Close [of _ "Wait _"])
  then show ?case by (auto simp: L R plumb_simps)
next
  case (LIST l r)
  then show ?case by (auto simp: starts_fork1 starts_Wait plumb_simps)
next
  case (BACK c)
  then show ?case by (auto simp: starts_fork1 starts_Exit plumb_simps)
qed


definition ex_fds :: fdtable where
  "ex_fds = [0 \<mapsto> Inherited 0, 1 \<mapsto> Inherited 1, 2 \<mapsto> Inherited 2]"

definition ex_pipe :: "string cmd" where
  "ex_pipe = PIPE (EXEC [''ls'']) (REDIR (EXEC [''wc'', ''-l'']) ''out'' (O_WRONLY OR O_CREATE) 1)"


end
