(* ===== verification/Shell.thy ===== *)
theory Shell
  imports Shprint Shrun
begin

text \<open>
  The shell from its input to the programs that it starts: what \<open>Shprint\<close> and \<open>Shrun\<close> show of the parser and of \<^verbatim>\<open>runcmd\<close> is put
  together with the loop of \<^verbatim>\<open>main\<close> in \<^verbatim>\<open>user/sh.c\<close>.
\<close>

section \<open>One kind of white space is as good as another\<close>

definition blanked :: "char list \<Rightarrow> char list \<Rightarrow> bool" where
  "blanked b b' \<longleftrightarrow> (\<forall>i. deref b i = deref b' i \<or> is_ws (deref b i) \<and> is_ws (deref b' i))"

lemma ws_char: "is_ws c \<Longrightarrow> c \<noteq> NUL \<and> c \<notin> set ''|();&<>'' \<and> \<not> word_char c"
  by (auto simp: is_ws_def whitespace_def word_char_def split: if_splits)

lemma skip_while_cong: "(\<And>i. P (deref b i) = P (deref b' i)) \<Longrightarrow> skip_while P b es s = skip_while P b' es s"
proof (induction P b es s rule: skip_while.induct)
  case (1 P b es s)
  then show ?case by (subst (1 2) skip_while.simps) auto
qed

lemma blanked_class:
  assumes "blanked b b'"
  shows "is_ws (deref b i) = is_ws (deref b' i)" and "word_char (deref b i) = word_char (deref b' i)"
    and "\<not> is_ws x \<Longrightarrow> deref b i = x \<longleftrightarrow> deref b' i = x"
proof -
  consider "deref b i = deref b' i" | "is_ws (deref b i)" "is_ws (deref b' i)" using assms by (auto simp: blanked_def)
  then show "is_ws (deref b i) = is_ws (deref b' i)" "word_char (deref b i) = word_char (deref b' i)"
    "\<not> is_ws x \<Longrightarrow> deref b i = x \<longleftrightarrow> deref b' i = x" by (cases; use ws_char in auto)+
qed

lemma gettoken_blanked:
  assumes b: "blanked b b'"
  shows "gettoken b es = gettoken b' es"
proof
  fix s
  have ws: "skip_while is_ws b es t = skip_while is_ws b' es t" for t by (rule skip_while_cong) (rule blanked_class(1) [OF b])
  have wd: "skip_while (\<lambda>c. \<not> is_ws c \<and> \<not> is_sym c) b es t = skip_while (\<lambda>c. \<not> is_ws c \<and> \<not> is_sym c) b' es t" for t
    by (rule skip_while_cong) (use blanked_class(2) [OF b] in \<open>simp add: word_char_def\<close>)
  define q where "q = skip_while is_ws b' es s"
  have n: "\<not> is_ws NUL" using ws_char by auto
  have gt: "deref b (q + 1) = CHR ''>'' \<longleftrightarrow> deref b' (q + 1) = CHR ''>''" by (rule blanked_class(3) [OF b]) simp
  consider "deref b q = deref b' q" | "is_ws (deref b q)" "is_ws (deref b' q)" using b by (auto simp: blanked_def)
  then show "gettoken b es s = gettoken b' es s"
  proof cases
    case 1
    then show ?thesis using gt by (simp add: gettoken_def kern_simps Let_def ws wd q_def [symmetric])
  next
    case 2
    then show ?thesis using ws_char [OF 2(1)] ws_char [OF 2(2)] by (simp add: gettoken_def kern_simps Let_def ws wd q_def [symmetric])
  qed
qed

lemma peek_blanked:
  assumes b: "blanked b b'" and t: "\<forall>x \<in> set toks. \<not> is_ws x"
  shows "peek b es toks = peek b' es toks"
proof
  fix s
  have ws: "skip_while is_ws b es s = skip_while is_ws b' es s" by (rule skip_while_cong) (rule blanked_class(1) [OF b])
  have "deref b q \<in> set toks \<longleftrightarrow> deref b' q \<in> set toks" for q using b [unfolded blanked_def, rule_format, of q] t by auto
  moreover have "deref b q = NUL \<longleftrightarrow> deref b' q = NUL" for q using ws_char by (intro blanked_class(3) [OF b]) auto
  ultimately show "peek b es toks s = peek b' es toks s" by (simp add: peek_def kern_simps ws)
qed

lemmas symbols_blanked = gettoken_blanked peek_blanked [where toks = "''<>''"] peek_blanked [where toks = "''|)&;''"] peek_blanked [where toks = "''(''"]
  peek_blanked [where toks = "'')''"] peek_blanked [where toks = "''|''"] peek_blanked [where toks = "''&''"] peek_blanked [where toks = "'';''"]
  peek_blanked [where toks = "[]"]

lemma loops_blanked:
  assumes b: "blanked b b'"
  shows "parseredirs_loop n b es c = parseredirs_loop n b' es c" "parseexec_loop n b es args = parseexec_loop n b' es args"
    "parseback n b es c = parseback n b' es c" "parseredirs c b es = parseredirs c b' es"
proof -
  note sy = symbols_blanked [OF b]
  show r: "parseredirs_loop n b es c = parseredirs_loop n b' es c" for n c
    by (induction n arbitrary: c) (simp_all add: sy cong: if_cong)
  show "parseexec_loop n b es args = parseexec_loop n b' es args"
    by (rule ext, induction n arbitrary: args) (simp_all add: sy parseredirs_def r cong: if_cong)
  show "parseback n b es c = parseback n b' es c"
    by (induction n arbitrary: c) (simp_all add: sy cong: if_cong)
  show "parseredirs c b es = parseredirs c b' es" unfolding parseredirs_def r ..
qed

lemma parse_blanked:
  assumes b: "blanked b b'"
  shows "parseline n b es = parseline n b' es \<and> parsepipe n b es = parsepipe n b' es \<and>
    parseexec n b es = parseexec n b' es \<and> parseblock n b es = parseblock n b' es"
proof (induction n)
  case 0
  show ?case by auto
next
  case (Suc n)
  then show ?case by (intro conjI ext) (simp_all add: symbols_blanked [OF b] loops_blanked [OF b] cong: if_cong del: parseback.simps parseexec_loop.simps parseredirs_loop.simps)
qed

section \<open>A line of the input\<close>

text \<open>The line for a command, ended with a newline in place of the last blank.\<close>

definition script_line :: "string cmd \<Rightarrow> string" where
  "script_line c = butlast (print 0 c) @ ''\<newline>''"

lemma print_last: "c \<noteq> EXEC [] \<Longrightarrow> print k c \<noteq> [] \<and> last (print k c) = CHR '' ''"
proof (induction c arbitrary: k)
  case (EXEC a)
  then show ?case by (cases a rule: rev_cases) (auto simp: print_words_def)
next
  case (PIPE l r)
  then show ?case by (cases "r = EXEC []") (simp_all add: bracket_def)
next
  case (LIST l r)
  then show ?case by (cases "r = EXEC []") (simp_all add: bracket_def)
qed (simp_all add: print_redir_def bracket_def)

lemma print_ends: "c \<noteq> EXEC [] \<Longrightarrow> \<exists>u. print k c = u @ '' ''"
  using print_last [of c k] append_butlast_last_id [of "print k c"] by (intro exI [of _ "butlast (print k c)"]) simp

lemma script_line_blanked: "c \<noteq> EXEC [] \<Longrightarrow> blanked (print 0 c @ NUL # junk) (script_line c @ NUL # junk)"
proof -
  assume "c \<noteq> EXEC []"
  then obtain u where u: "print 0 c = u @ '' ''" using print_ends by blast
  have "is_ws CHR ''\<newline>''" by (simp add: is_ws_def whitespace_def)
  then show ?thesis by (auto simp: blanked_def u script_line_def deref_def nth_append nth_Cons split: nat.splits)
qed

lemma parsecmd_blanked:
  assumes b: "blanked b b'" and l: "length (cstr b 0) = length (cstr b' 0)" and p: "parsecmd b p = Ok (x, b1) t"
  shows "parsecmd b' p = Ok (x, nulterminate b' x) t"
proof -
  have "peek b es [] = peek b' es []" "parseline n b es = parseline n b' es" for es n
    using symbols_blanked(9) [OF b] parse_blanked [OF b] by simp_all
  then show ?thesis using p l by (auto simp: parsecmd_def Let_def kern_simps kdo_def split: outcome.splits if_splits)
qed

lemma script_line_chars: "writable c \<Longrightarrow> NUL \<notin> set (script_line c)" "length (script_line c) = length (print 0 c) \<or> c = EXEC []"
  using print_no_NUL [of c 0] print_ends [of c 0] by (auto simp: script_line_def dest: in_set_butlastD)

lemma word_at_blanked:
  assumes b: "blanked b b'" and l: "length b = length b'" "es \<le> length b" and v: "span_ok b es v"
  shows "word_at b' v = word_at b v"
proof -
  have e: "fst v < snd v" "snd v \<le> es" "\<And>i. fst v \<le> i \<Longrightarrow> i < snd v \<Longrightarrow> word_char (deref b i)" using v by (auto simp: span_ok_def)
  have "b' ! i = b ! i" if "fst v \<le> i" "i < snd v" for i
  proof -
    have "deref b' i = deref b i" using b [unfolded blanked_def, rule_format, of i] e(3) [OF that] ws_char by auto
    then show ?thesis using that e l by (simp add: deref_def)
  qed
  then show ?thesis using e l by (auto simp: word_at_def intro!: nth_equalityI)
qed

lemma parse_line:
  assumes w: "writable c" and c: "c \<noteq> EXEC []"
  shows "\<exists>x b t. parsecmd (script_line c @ NUL # junk) p = Ok (x, b) t \<and> map_cmd (\<lambda>w. cstr b (fst w)) x = c"
proof -
  let ?b = "print 0 c @ NUL # junk" and ?l = "script_line c @ NUL # junk"
  obtain x where x: "parsecmd ?b p = Ok (x, nulterminate ?b x) (length (print 0 c))" "map_cmd (word_at ?b) x = c" using parse_printed [OF w] by blast
  have bl: "blanked ?b ?l" by (rule script_line_blanked [OF c])
  have cs: "cstr ?b 0 = print 0 c" "cstr ?l 0 = script_line c"
    using print_no_NUL [OF w, of 0] script_line_chars(1) [OF w] by (simp_all add: cstr_def takeWhile_append)
  then have ok: "parsecmd ?l p = Ok (x, nulterminate ?l x) (length (print 0 c))"
    using script_line_chars(2) [of c] c by (intro parsecmd_blanked [OF bl _ x(1)]) simp
  have "cmd_ok ?b (length (print 0 c)) x" using parsecmd_ends [of ?b p] x(1) cs by (simp add: ends_def)
  then have "word_at ?l v = word_at ?b v" if "v \<in> set_cmd x" for v
    using that script_line_chars(2) [of c] c by (intro word_at_blanked [OF bl, where es = "length (print 0 c)"]) (auto simp: cmd_ok_def)
  then have "map_cmd (word_at ?l) x = map_cmd (word_at ?b) x" by (rule cmd.map_cong0)
  then have "map_cmd (\<lambda>w. cstr (nulterminate ?l x) (fst w)) x = c" using parsecmd_cstr [OF ok] x(2) by simp
  then show ?thesis using ok by blast
qed

section \<open>The shell's loop on a script\<close>

lemma ugets_loop_line:
  "\<forall>x \<in> set w. x \<noteq> CHR ''\<newline>'' \<and> x \<noteq> CHR 0x0D \<Longrightarrow> length w < k \<Longrightarrow> i + length w < length buf \<Longrightarrow>
   ugets_loop k buf i (w @ CHR ''\<newline>'' # rest) = (take i buf @ w @ CHR ''\<newline>'' # drop (i + length w + 1) buf, i + length w + 1, rest)"
proof (induction w arbitrary: k buf i)
  case Nil
  then show ?case by (cases k) (simp_all add: upd_conv_take_nth_drop)
next
  case (Cons x w)
  then obtain k' where k: "k = Suc k'" by (cases k) auto
  have "take (i + 1) (buf[i := x]) = take i buf @ [x]" using Cons.prems(3) by (simp add: take_Suc_conv_app_nth)
  then show ?case using Cons.IH [of k' "i + 1" "buf[i := x]"] Cons.prems k by simp
qed

definition script_ok :: "string cmd \<Rightarrow> bool" where
  "script_ok c \<longleftrightarrow> writable c \<and> c \<noteq> EXEC [] \<and> length (script_line c) < 100 \<and> take 3 (script_line c) \<noteq> ''cd ''"

lemma word_no_newline: "word_ok u \<Longrightarrow> CHR ''\<newline>'' \<notin> set u" "word_ok u \<Longrightarrow> CHR 0x0D \<notin> set u"
proof -
  have "\<not> word_char CHR ''\<newline>''" "\<not> word_char CHR 0x0D" by (simp_all add: word_char_def is_ws_def whitespace_def)
  then show "word_ok u \<Longrightarrow> CHR ''\<newline>'' \<notin> set u" "word_ok u \<Longrightarrow> CHR 0x0D \<notin> set u" unfolding word_ok_def by blast+
qed

lemma print_no_newline: "writable c \<Longrightarrow> CHR ''\<newline>'' \<notin> set (print k c) \<and> CHR 0x0D \<notin> set (print k c)"
proof (induction c arbitrary: k)
  case (EXEC a)
  then show ?case by (induction a) (simp_all add: word_no_newline)
qed (simp_all add: print_redir_def bracket_def word_no_newline)

lemma length_umemset [simp]: "length (umemset buf d c n) = length buf"
  by (induction n) simp_all

lemma getcmd_line:
  assumes c: "script_ok c" and b: "length buf = 100"
  obtains junk where "getcmd buf (script_line c @ rest) = (0, script_line c @ NUL # junk, rest)" and "length (script_line c @ NUL # junk) = 100"
proof -
  define w where "w = butlast (print 0 c)"
  have l: "script_line c = w @ ''\<newline>''" by (simp add: script_line_def w_def)
  have w: "\<forall>x \<in> set w. x \<noteq> CHR ''\<newline>'' \<and> x \<noteq> CHR 0x0D"
    using print_no_newline [of c 0] c in_set_butlastD [of _ "print 0 c"] unfolding w_def script_ok_def by blast
  let ?m = "umemset buf 0 NUL (length buf)"
  have n: "length ?m = 100" "length w + 1 < 100" using b c l by (simp_all add: script_ok_def)
  let ?d = "drop (length w + 1) ?m"
  have g: "ugets_loop 99 ?m 0 (w @ CHR ''\<newline>'' # rest) = (w @ CHR ''\<newline>'' # ?d, length w + 1, rest)"
    using ugets_loop_line [OF w, of 99 0 ?m rest] n by simp
  obtain x ds where d: "?d = x # ds" using n by (cases ?d) auto
  have "(w @ CHR ''\<newline>'' # ?d)[length w + 1 := NUL] = script_line c @ NUL # ds" unfolding d l by (simp add: list_update_append)
  moreover have "deref (script_line c @ NUL # ds) 0 \<noteq> NUL"
  proof -
    have "script_line c \<noteq> []" using l by simp
    moreover have "NUL \<notin> set (script_line c)" using script_line_chars(1) c unfolding script_ok_def by blast
    ultimately show ?thesis by (cases "script_line c") (auto simp: deref_def)
  qed
  ultimately have "getcmd buf (script_line c @ rest) = (0, script_line c @ NUL # ds, rest)"
    using g b by (simp add: getcmd_def ugets_def l)
  moreover have "length (script_line c @ NUL # ds) = 100" using arg_cong [OF d, of length] n by (simp add: l)
  ultimately show thesis by (rule that)
qed

lemma not_cd:
  assumes "script_ok c"
  shows "\<not> (deref (script_line c @ NUL # junk) 0 = CHR ''c'' \<and> deref (script_line c @ NUL # junk) 1 = CHR ''d'' \<and> deref (script_line c @ NUL # junk) 2 = CHR '' '')"
proof -
  have t: "take 3 (script_line c) \<noteq> ''cd ''" using assms by (simp add: script_ok_def)
  consider "script_line c = []" | x where "script_line c = [x]" | x y where "script_line c = [x, y]" | x y z v where "script_line c = x # y # z # v"
    by (metis list.exhaust)
  then show ?thesis by cases (use t in \<open>simp_all add: deref_def split: if_splits\<close>)
qed

lemma sh_loop_script:
  assumes F: "dom F = {0, 1, 2}"
  shows "\<forall>c \<in> set cs. script_ok c \<Longrightarrow> length buf = 100 \<Longrightarrow> length (concat (map script_line cs)) < n \<Longrightarrow>
    starts_prog (sh_loop n buf (concat (map script_line cs)), F) argv G \<longleftrightarrow> (\<exists>c \<in> set cs. plumb c F argv G)"
proof (induction cs arbitrary: buf n)
  case Nil
  then obtain k where n: "n = Suc k" by (cases n) auto
  have "fst (getcmd buf []) = -1" using Nil.prems(2) ugets_loop.simps(2) [of 98] by (simp add: getcmd_def ugets_def deref_def)
  then obtain b rest where "getcmd buf [] = (-1, b, rest)" by (metis fst_conv surj_pair)
  then show ?case by (simp add: n starts_Write starts_Exit)
next
  case (Cons c cs)
  obtain k where n: "n = Suc k" using Cons.prems(3) by (cases n) auto
  have c: "script_ok c" using Cons.prems(1) by simp
  let ?r = "concat (map script_line cs)"
  obtain junk where g: "getcmd buf (script_line c @ ?r) = (0, script_line c @ NUL # junk, ?r)" "length (script_line c @ NUL # junk) = 100"
    by (rule getcmd_line [OF c Cons.prems(2)])
  obtain x b t where p: "parsecmd (script_line c @ NUL # junk) 0 = Ok (x, b) t" "map_cmd (\<lambda>w. cstr b (fst w)) x = c"
    using parse_line [of c junk 0] c by (auto simp: script_ok_def)
  have ch: "sh_child (script_line c @ NUL # junk) = runcmd c" by (simp add: sh_child_def p)
  have "fits c" using c by (simp add: script_ok_def writable_def)
  then have rc: "starts_prog (runcmd c, F) argv G \<longleftrightarrow> plumb c F argv G" using F by (intro runcmd_plumb) (simp_all add: std_def)
  have "length (script_line c) = Suc (length (butlast (print 0 c)))" by (simp add: script_line_def)
  then have IH: "starts_prog (sh_loop k (script_line c @ NUL # junk) ?r, F) argv G \<longleftrightarrow> (\<exists>c \<in> set cs. plumb c F argv G)"
    using Cons.prems n g(2) by (intro Cons.IH) simp_all
  have "sh_loop n buf (concat (map script_line (c # cs))) =
     Write 2 ''$ '' (fork1 (\<lambda>pid. if pid = 0 then runcmd c else Wait (sh_loop k (script_line c @ NUL # junk) ?r)))"
    using g(1) not_cd [OF c, of junk] by (auto simp: n ch cong: if_cong simp del: One_nat_def)
  then show ?case by (simp add: starts_fork1 starts_Write starts_Wait rc IH)
qed

lemma starts_open3:
  assumes F: "std F"
  shows "starts_prog (sh_open3 (Suc n) k, F) argv G \<longleftrightarrow> starts_prog (k, F) argv G"
proof -
  have "F(3 := None) = F" using F by (auto simp: std_iff)
  then show ?thesis by (simp add: starts_Open starts_Close fd_free_std [OF F])
qed


definition ex_script :: "string cmd list" where
  "ex_script = [EXEC [''echo'', ''hi''], BACK (PIPE (EXEC [''ls'']) (REDIR (EXEC [''wc'']) ''out'' (O_WRONLY OR O_CREATE OR O_TRUNC) 1))]"


text \<open>
  The line of a \<^verbatim>\<open>cd\<close> need not end with the newline that \<^verbatim>\<open>main\<close> chops off: the last line of the input may lack it, and then the last character
  of the directory is lost.
\<close>

theorem cd_unterminated: "\<exists>q. sh_loop 2 (replicate 100 NUL) ''cd /ab'' = Write 2 ''$ '' (Chdir ''/a'' q)"
proof -
  define b where "b = ''cd /ab'' @ replicate 94 NUL"
  have "getcmd (replicate 100 NUL) ''cd /ab'' = (0, b, [])" unfolding b_def by code_simp
  moreover have "cstr b 0 = ''cd /ab''" "cstr (b[length ''cd /ab'' - 1 := NUL]) 3 = ''/a''" unfolding b_def by code_simp+
  moreover have "deref b 0 = CHR ''c''" "deref b 1 = CHR ''d''" "deref b 2 = CHR '' ''" by (simp_all add: b_def deref_def)
  ultimately show ?thesis by (simp add: numeral_2_eq_2 Let_def)
qed

end
