(* ===== verification/Grep.thy ===== *)
theory Grep
  imports Ulib
begin

text \<open>
  \<^verbatim>\<open>user/grep.c\<close>: the matcher for regular expressions, and the loop that reads a file in pieces and writes the lines
  that match.  Shown: the matcher decides the language of the expression; and however \<^verbatim>\<open>read\<close> divides the input, the output is the lines that
  match, as long as no line is longer than the buffer.
\<close>

section \<open>The matcher\<close>

fun matchhere :: "string \<Rightarrow> string \<Rightarrow> bool"
  and matchstar :: "char \<Rightarrow> string \<Rightarrow> string \<Rightarrow> bool" where
  "matchhere re str =
     (case re of
        [] \<Rightarrow> True
      | c # re' \<Rightarrow>
          (case re' of
             d # re'' \<Rightarrow>
               if d = CHR ''*'' then matchstar c re'' str
               else (case str of [] \<Rightarrow> False | t # ts \<Rightarrow> if c = CHR ''.'' \<or> c = t then matchhere re' ts else False)
           | [] \<Rightarrow>
               if c = CHR ''$'' then str = []
               else (case str of [] \<Rightarrow> False | t # ts \<Rightarrow> if c = CHR ''.'' \<or> c = t then matchhere re' ts else False)))"
| "matchstar c re str =
     (if matchhere re str then True
      else (case str of [] \<Rightarrow> False | t # ts \<Rightarrow> if t = c \<or> c = CHR ''.'' then matchstar c re ts else False))"

declare matchhere.simps [simp del] matchstar.simps [simp del]

primrec match_from :: "string \<Rightarrow> string \<Rightarrow> bool" where
  "match_from re [] = matchhere re []"
| "match_from re (t # ts) = (if matchhere re (t # ts) then True else match_from re ts)"

definition match :: "string \<Rightarrow> string \<Rightarrow> bool" where
  "match re str =
     (case re of
        c # re' \<Rightarrow> if c = CHR ''^'' then matchhere re' str else match_from re str
      | [] \<Rightarrow> match_from re str)"

section \<open>The language of an expression\<close>

text \<open>A pattern is a sequence of characters, each once or any number of times, where a period stands for any character.\<close>

datatype item = One char | Star char

definition stands_for :: "char \<Rightarrow> char \<Rightarrow> bool" where
  "stands_for c x \<longleftrightarrow> c = CHR ''.'' \<or> x = c"

fun items :: "string \<Rightarrow> item list" where
  "items [] = []"
| "items [c] = (if c = CHR ''$'' then [] else [One c])"
| "items (c # d # re) = (if d = CHR ''*'' then Star c # items re else One c # items (d # re))"

fun at_end :: "string \<Rightarrow> bool" where
  "at_end [] = False"
| "at_end [c] = (c = CHR ''$'')"
| "at_end (c # d # re) = (if d = CHR ''*'' then at_end re else at_end (d # re))"

inductive denotes :: "item list \<Rightarrow> string \<Rightarrow> bool" where
  none: "denotes [] []"
| one: "stands_for c x \<Longrightarrow> denotes is w \<Longrightarrow> denotes (One c # is) (x # w)"
| star: "\<forall>x \<in> set u. stands_for c x \<Longrightarrow> denotes is w \<Longrightarrow> denotes (Star c # is) (u @ w)"

inductive_simps denotes_simps: "denotes [] w" "denotes (One c # is) w" "denotes (Star c # is) w"

text \<open>A prefix of the text is in the language; all of it, if the pattern ends in a dollar sign.\<close>

definition prefix_in :: "string \<Rightarrow> string \<Rightarrow> bool" where
  "prefix_in re str \<longleftrightarrow> (\<exists>w v. str = w @ v \<and> denotes (items re) w \<and> (at_end re \<longrightarrow> v = []))"

lemma prefix_in_Nil [simp]: "prefix_in [] str"
  by (auto simp: prefix_in_def denotes_simps)

lemma prefix_in_one:
  assumes "items re = One c # items re'" and "at_end re = at_end re'"
  shows "prefix_in re str \<longleftrightarrow> (\<exists>t ts. str = t # ts \<and> stands_for c t \<and> prefix_in re' ts)"
proof
  assume "prefix_in re str"
  then obtain y v where y: "str = y @ v" "denotes (items re) y" "at_end re \<longrightarrow> v = []" unfolding prefix_in_def by blast
  then obtain x w where "y = x # w" "stands_for c x" "denotes (items re') w" using assms by (auto simp: denotes_simps)
  with y have "str = x # (w @ v)" "stands_for c x" "denotes (items re') w" "at_end re' \<longrightarrow> v = []" using assms by simp_all
  then show "\<exists>t ts. str = t # ts \<and> stands_for c t \<and> prefix_in re' ts" unfolding prefix_in_def by blast
next
  assume "\<exists>t ts. str = t # ts \<and> stands_for c t \<and> prefix_in re' ts"
  then obtain x w v where "str = x # w @ v" "stands_for c x" "denotes (items re') w" "at_end re' \<longrightarrow> v = []"
    unfolding prefix_in_def by blast
  then have "str = (x # w) @ v" "denotes (items re) (x # w)" "at_end re \<longrightarrow> v = []" using assms denotes.one by simp_all
  then show "prefix_in re str" unfolding prefix_in_def by blast
qed

lemma prefix_in_star:
  assumes "items re = Star c # items re'" and "at_end re = at_end re'"
  shows "prefix_in re str \<longleftrightarrow> (\<exists>u ts. str = u @ ts \<and> (\<forall>x \<in> set u. stands_for c x) \<and> prefix_in re' ts)"
proof
  assume "prefix_in re str"
  then obtain y v where y: "str = y @ v" "denotes (items re) y" "at_end re \<longrightarrow> v = []" unfolding prefix_in_def by blast
  then obtain u w where "y = u @ w" "\<forall>x \<in> set u. stands_for c x" "denotes (items re') w" using assms by (auto simp: denotes_simps)
  with y have "str = u @ (w @ v)" "\<forall>x \<in> set u. stands_for c x" "denotes (items re') w" "at_end re' \<longrightarrow> v = []" using assms by simp_all
  then show "\<exists>u ts. str = u @ ts \<and> (\<forall>x \<in> set u. stands_for c x) \<and> prefix_in re' ts" unfolding prefix_in_def by blast
next
  assume "\<exists>u ts. str = u @ ts \<and> (\<forall>x \<in> set u. stands_for c x) \<and> prefix_in re' ts"
  then obtain u w v where "str = u @ w @ v" "\<forall>x \<in> set u. stands_for c x" "denotes (items re') w" "at_end re' \<longrightarrow> v = []"
    unfolding prefix_in_def by blast
  then have "str = (u @ w) @ v" "denotes (items re) (u @ w)" "at_end re \<longrightarrow> v = []" using assms denotes.star by simp_all
  then show "prefix_in re str" unfolding prefix_in_def by blast
qed

lemma matcher_prefix:
  "matchhere re str \<longleftrightarrow> prefix_in re str"
  "matchstar c re str \<longleftrightarrow> (\<exists>u ts. str = u @ ts \<and> (\<forall>x \<in> set u. stands_for c x) \<and> prefix_in re ts)"
proof (induction re str and c re str rule: matchhere_matchstar.induct)
  case (1 re str)
  have one: "(case str of [] \<Rightarrow> False | t # ts \<Rightarrow> if c = CHR ''.'' \<or> c = t then matchhere re' ts else False) \<longleftrightarrow>
      (\<exists>t ts. str = t # ts \<and> stands_for c t \<and> prefix_in re' ts)"
    if "\<And>t ts. str = t # ts \<Longrightarrow> c = CHR ''.'' \<or> c = t \<Longrightarrow> matchhere re' ts = prefix_in re' ts" for c re'
    using that by (cases str) (auto simp: stands_for_def)
  show ?case
  proof (cases re)
    case Nil
    then show ?thesis by (simp add: matchhere.simps)
  next
    case (Cons c re')
    show ?thesis
    proof (cases re')
      case re': Nil
      show ?thesis
      proof (cases "c = CHR ''$''")
        case True
        then show ?thesis using Cons re' by (auto simp: matchhere.simps prefix_in_def denotes_simps)
      next
        case False
        then show ?thesis using Cons re' one [of c "[]"] 1 prefix_in_one [of re c "[]" str] by (subst matchhere.simps) (auto simp: matchhere.simps)
      qed
    next
      case re': (Cons d re'')
      show ?thesis
      proof (cases "d = CHR ''*''")
        case True
        then show ?thesis using Cons re' "1.IH"(2) [OF Cons re' True] prefix_in_star [of re c re'' str] by (subst matchhere.simps) simp
      next
        case False
        have "matchhere re' ts = prefix_in re' ts" if "str = t # ts" "c = CHR ''.'' \<or> c = t" for t ts
          using "1.IH"(3) [OF Cons re' False that] .
        then show ?thesis using Cons re' False prefix_in_one [of re c re' str] by (subst matchhere.simps, cases str) (auto simp: stands_for_def)
      qed
    qed
  qed
next
  case (2 c re str)
  let ?R = "\<lambda>str. \<exists>u ts. str = u @ ts \<and> (\<forall>x \<in> set u. stands_for c x) \<and> prefix_in re ts"
  have step: "?R str \<longleftrightarrow> prefix_in re str \<or> (\<exists>t ts. str = t # ts \<and> stands_for c t \<and> ?R ts)"
  proof
    assume "?R str"
    then obtain u ts where u: "str = u @ ts" "\<forall>x \<in> set u. stands_for c x" "prefix_in re ts" by blast
    then show "prefix_in re str \<or> (\<exists>t ts. str = t # ts \<and> stands_for c t \<and> ?R ts)" by (cases u) auto
  next
    assume "prefix_in re str \<or> (\<exists>t ts. str = t # ts \<and> stands_for c t \<and> ?R ts)"
    then show "?R str"
    proof
      assume "prefix_in re str"
      then show ?thesis by (intro exI [of _ "[]"] exI [of _ str]) simp
    next
      assume "\<exists>t ts. str = t # ts \<and> stands_for c t \<and> ?R ts"
      then obtain t u ts where "str = (t # u) @ ts" "stands_for c t" "\<forall>x \<in> set u. stands_for c x" "prefix_in re ts" by auto
      then show ?thesis by (intro exI [of _ "t # u"] exI [of _ ts]) simp
    qed
  qed
  show ?case unfolding step matchstar.simps [of c re str] using 2 by (cases str) (auto simp: stands_for_def)
qed

lemma match_from_iff: "match_from re str \<longleftrightarrow> (\<exists>u v. str = u @ v \<and> matchhere re v)"
proof (induction str)
  case (Cons t ts)
  have "(\<exists>u v. t # ts = u @ v \<and> matchhere re v) \<longleftrightarrow> matchhere re (t # ts) \<or> (\<exists>u v. ts = u @ v \<and> matchhere re v)"
    by (metis append_Cons append_Nil append_eq_Cons_conv)
  then show ?case using Cons by simp
qed simp

text \<open>
  C36.  The matcher of \<^verbatim>\<open>grep\<close> decides regular expressions.  It accepts a line exactly if some part of the line is in the language of the
  expression: a sequence of characters, each to be found once or, before an asterisk, any number of times, where a period stands for any character;
  the part begins the line if the expression begins with a circumflex, and ends it if the expression ends with a dollar sign.
\<close>

theorem match_language:
  "match re str \<longleftrightarrow>
    (let anchored = (re \<noteq> [] \<and> hd re = CHR ''^''); body = (if anchored then tl re else re) in
     \<exists>u w v. str = u @ w @ v \<and> denotes (items body) w \<and> (anchored \<longrightarrow> u = []) \<and> (at_end body \<longrightarrow> v = []))"
  by (auto simp: match_def match_from_iff matcher_prefix(1) prefix_in_def Let_def split: list.splits)

theorem match_language_witness:
  "match ''^ab*$'' ''abb'' \<and> (\<exists>u w v. ''abb'' = u @ w @ v \<and> denotes (items ''ab*$'') w \<and> u = [] \<and> v = []) \<and> \<not> match ''^ab*$'' ''abbc''"
proof -
  have "match ''^ab*$'' ''abb''" "\<not> match ''^ab*$'' ''abbc''" by code_simp+
  moreover have "at_end ''ab*$''" by simp
  ultimately show ?thesis using match_language [of "''^ab*$''" "''abb''"] by (auto simp: Let_def)
qed

section \<open>The lines of a file\<close>

abbreviation nl :: char where "nl \<equiv> CHR ''\<newline>''"

definition BUFSZ :: nat where [params]: "BUFSZ = 1024"

text \<open>The inner loop: the array, the position after the last line, and what is written.\<close>

function grep_lines :: "string \<Rightarrow> char list \<Rightarrow> nat \<Rightarrow> char list \<times> nat \<times> string" where
  "grep_lines pattern buf p =
     (case strchr (cstr buf p) nl of
        None \<Rightarrow> (buf, p, [])
      | Some i \<Rightarrow>
          let q = p + i;
              b1 = buf[q := NUL];
              hit = match pattern (cstr b1 p);
              b2 = (if hit then b1[q := nl] else b1);
              w = (if hit then take (q + 1 - p) (drop p b2) else []);
              (b, p', out) = grep_lines pattern b2 (q + 1)
          in (b, p', w @ out))"
  by pat_completeness auto
termination
proof (relation "measure (\<lambda>(pattern, buf, p). length buf - p)")
  fix pattern buf p i q b1 hit b2 w
  assume "strchr (cstr buf p) nl = Some i" "q = p + i" "b1 = buf[q := NUL]" "b2 = (if hit then b1[q := nl] else b1)"
  moreover have "length (cstr buf p) \<le> length buf - p" by (simp add: cstr_def length_takeWhile_le [THEN le_trans])
  ultimately show "((pattern, b2, q + 1), pattern, buf, p) \<in> measure (\<lambda>(pattern, buf, p). length buf - p)"
    by (auto simp: strchr_Some)
qed simp

declare grep_lines.simps [simp del]

text \<open>
  The outer loop.  The file still has \<open>inp\<close> to give; call number \<open>t\<close> of \<^verbatim>\<open>read\<close>, for \<open>a\<close> characters when there are \<open>l\<close>, gives \<open>rd t a l\<close> of them.
\<close>

primrec grep_loop :: "nat \<Rightarrow> (nat \<Rightarrow> nat \<Rightarrow> nat \<Rightarrow> nat) \<Rightarrow> string \<Rightarrow> char list \<Rightarrow> nat \<Rightarrow> string \<Rightarrow> string" where
  "grep_loop 0 rd pattern buf m inp = []"
| "grep_loop (Suc t) rd pattern buf m inp =
     (let n = rd t (BUFSZ - m - 1) (length inp) in
      if n = 0 then []
      else
        let m1 = m + n;
            b1 = (take m buf @ take n inp @ drop m1 buf)[m1 := NUL];
            (b2, p, out) = grep_lines pattern b1 0;
            m2 = m1 - p;
            b3 = (if m1 > 0 then umemmove b2 0 p (int m2) else b2)
        in out @ grep_loop t rd pattern b3 m2 (drop n inp))"

definition grep :: "(nat \<Rightarrow> nat \<Rightarrow> nat \<Rightarrow> nat) \<Rightarrow> string \<Rightarrow> string \<Rightarrow> string" where
  "grep rd pattern inp = grep_loop (length inp + 1) rd pattern (replicate BUFSZ NUL) 0 inp"

section \<open>What grep writes\<close>

text \<open>The specification: the lines that match, each with its newline, and what follows the last newline.\<close>

function matching_lines :: "string \<Rightarrow> string \<Rightarrow> string" where
  "matching_lines re s =
     (case strchr s nl of
        None \<Rightarrow> []
      | Some i \<Rightarrow> (if match re (take i s) then take i s @ [nl] else []) @ matching_lines re (drop (i + 1) s))"
  by pat_completeness auto
termination by (relation "measure (\<lambda>(re, s). length s)") (auto simp: strchr_Some)

function leftover :: "string \<Rightarrow> string" where
  "leftover s = (case strchr s nl of None \<Rightarrow> s | Some i \<Rightarrow> leftover (drop (i + 1) s))"
  by pat_completeness auto
termination by (relation "measure length") (auto simp: strchr_Some)

declare matching_lines.simps [simp del] leftover.simps [simp del]

lemma split_line:
  obtains (no) "nl \<notin> set s" "strchr s nl = None" | (yes) u v where "s = u @ nl # v" "nl \<notin> set u" "strchr s nl = Some (length u)"
proof (cases "strchr s nl")
  case None
  then show ?thesis using no by simp
next
  case (Some i)
  then have i: "i < length s" "s ! i = nl" "nl \<notin> set (take i s)" by (simp_all add: strchr_Some)
  have "s = take i s @ nl # drop (Suc i) s" using id_take_nth_drop [OF i(1)] i(2) by simp
  then show ?thesis using yes [of "take i s" "drop (Suc i) s"] i Some by simp
qed

lemma strchr_none: "c \<notin> set s \<Longrightarrow> strchr s c = None"
  by simp

lemma strchr_append: "nl \<notin> set u \<Longrightarrow> strchr (u @ nl # v) nl = Some (length u)"
  by (auto simp: strchr_Some nth_append)

lemma line_simps:
  "nl \<notin> set s \<Longrightarrow> matching_lines re s = []" "nl \<notin> set s \<Longrightarrow> leftover s = s"
  "nl \<notin> set u \<Longrightarrow> matching_lines re (u @ nl # v) = (if match re u then u @ [nl] else []) @ matching_lines re v"
  "nl \<notin> set u \<Longrightarrow> leftover (u @ nl # v) = leftover v"
  by (simp_all add: strchr_append strchr_none matching_lines.simps [of _ s] leftover.simps [of s] matching_lines.simps [of _ "u @ nl # v"] leftover.simps [of "u @ nl # v"])

lemma leftover_props: "nl \<notin> set (leftover s) \<and> (\<exists>u. s = u @ leftover s)"
proof (induction s rule: leftover.induct)
  case (1 s)
  show ?case
  proof (cases s rule: split_line)
    case (yes u v)
    then have "nl \<notin> set (leftover v) \<and> (\<exists>w. v = w @ leftover v)" using 1 [of "length u"] by simp
    then show ?thesis using yes(2) by (auto simp: yes(1) line_simps) (metis append_Cons append.assoc)
  qed (simp add: line_simps)
qed

lemma matching_lines_append: "matching_lines re (s @ t) = matching_lines re s @ matching_lines re (leftover s @ t)"
proof (induction s rule: leftover.induct)
  case (1 s)
  show ?case
  proof (cases s rule: split_line)
    case (yes u v)
    then have "matching_lines re (v @ t) = matching_lines re v @ matching_lines re (leftover v @ t)" using 1 [of "length u"] by simp
    then show ?thesis using yes(2) line_simps(3) [OF yes(2), of re "v @ t"] by (simp add: yes(1) line_simps)
  qed (simp add: line_simps)
qed

text \<open>The inner loop on an array that holds the string \<open>s\<close> from position \<open>p\<close> on.\<close>

lemma cstr_append: "NUL \<notin> set s \<Longrightarrow> length a = p \<Longrightarrow> cstr (a @ s @ NUL # r) p = s"
  by (simp add: cstr_def takeWhile_append)

lemma grep_lines_at:
  "NUL \<notin> set s \<Longrightarrow> buf = a @ s @ NUL # r \<Longrightarrow> length a = p \<Longrightarrow>
   \<exists>a'. grep_lines re buf p = (a' @ leftover s @ NUL # r, p + length s - length (leftover s), matching_lines re s) \<and>
     length a' = p + length s - length (leftover s)"
proof (induction s arbitrary: buf a p rule: leftover.induct)
  case (1 s)
  have c: "cstr buf p = s" using cstr_append [of s a p r] "1.prems" by simp
  show ?case
  proof (cases s rule: split_line)
    case no
    then have "grep_lines re buf p = (buf, p, [])" by (subst grep_lines.simps) (simp add: c strchr_none)
    then show ?thesis using "1.prems" no(1) by (intro exI [of _ a]) (simp add: line_simps)
  next
    case (yes u v)
    let ?q = "p + length u"
    have u: "NUL \<notin> set u" "NUL \<notin> set v" using "1.prems"(1) yes(1) by simp_all
    have b1: "buf[?q := NUL] = a @ u @ NUL # v @ NUL # r" using "1.prems" yes(1) by (simp add: list_update_append)
    have t: "cstr (a @ u @ NUL # v @ NUL # r) p = u" using cstr_append [OF u(1) "1.prems"(3)] .
    let ?x = "if match re u then nl else NUL"
    let ?b = "(a @ u @ [?x]) @ v @ NUL # r"
    have b2: "(if match re u then (a @ u @ NUL # v @ NUL # r)[?q := nl] else a @ u @ NUL # v @ NUL # r) = ?b"
      using "1.prems"(3) by (simp add: list_update_append)
    have w: "take (?q + 1 - p) (drop p ?b) = u @ [?x]" using "1.prems"(3) by simp
    have IH: "\<exists>a'. grep_lines re ?b (?q + 1) = (a' @ leftover v @ NUL # r, ?q + 1 + length v - length (leftover v), matching_lines re v) \<and>
        length a' = ?q + 1 + length v - length (leftover v)"
      using 1(1) [of "length u" ?b "a @ u @ [?x]" "?q + 1"] yes u(2) "1.prems"(3) by simp
    then obtain a' where a': "grep_lines re ?b (?q + 1) = (a' @ leftover v @ NUL # r, ?q + 1 + length v - length (leftover v), matching_lines re v)"
      "length a' = ?q + 1 + length v - length (leftover v)" by blast
    have "grep_lines re buf p = (a' @ leftover v @ NUL # r, ?q + 1 + length v - length (leftover v), (if match re u then u @ [nl] else []) @ matching_lines re v)"
      by (subst grep_lines.simps) (simp only: c yes(3) option.case Let_def b1 t b2 w a' prod.case, simp)
    then show ?thesis using a'(2) yes(2) by (intro exI [of _ a']) (simp add: yes(1) line_simps)
  qed
qed

lemma ucopy_down_same: "dst + n \<le> length buf \<Longrightarrow> ucopy_down buf dst dst n = buf"
  by (induction n) (auto simp: deref_def)

lemma umemmove_front:
  assumes "p + k \<le> length b"
  shows "length (umemmove b 0 p (int k)) = length b \<and> take k (umemmove b 0 p (int k)) = take k (drop p b)"
proof (cases "p = 0")
  case True
  then show ?thesis using ucopy_down_same [of 0 k b] assms by (simp add: umemmove_def)
next
  case False
  then have "umemmove b 0 p (int k) = ucopy_up b 0 p k" by (simp add: umemmove_def)
  moreover note ucopy_up_at [of 0 p k b]
  ultimately show ?thesis using False assms by (auto intro!: nth_equalityI)
qed

text \<open>One round: the lines that are complete are written, and the rest is moved to the front.\<close>

lemma grep_round:
  assumes b: "length buf = BUFSZ" and m: "take m buf = pend" "length pend = m" and c: "0 < length c" "m + length c < BUFSZ"
    and N: "NUL \<notin> set pend" "NUL \<notin> set c"
  obtains b2 p where "grep_lines re ((take m buf @ c @ drop (m + length c) buf)[m + length c := NUL]) 0 = (b2, p, matching_lines re (pend @ c))"
    and "m + length c - p = length (leftover (pend @ c))" and "length (umemmove b2 0 p (int (m + length c - p))) = BUFSZ"
    and "take (m + length c - p) (umemmove b2 0 p (int (m + length c - p))) = leftover (pend @ c)"
proof -
  let ?s = "pend @ c"
  let ?r = "drop (m + length c + 1) buf"
  have "drop (m + length c) buf = buf ! (m + length c) # ?r" using b c(2) by (simp add: Cons_nth_drop_Suc)
  then have b1: "(take m buf @ c @ drop (m + length c) buf)[m + length c := NUL] = [] @ ?s @ NUL # ?r"
    using m by (simp add: list_update_append)
  have s: "NUL \<notin> set ?s" using N by simp
  obtain a' where a': "grep_lines re ([] @ ?s @ NUL # ?r) 0 = (a' @ leftover ?s @ NUL # ?r, 0 + length ?s - length (leftover ?s), matching_lines re ?s)"
    "length a' = 0 + length ?s - length (leftover ?s)"
    using grep_lines_at [OF s refl, of "[]" 0 re] by auto
  obtain u where u: "?s = u @ leftover ?s" using leftover_props by blast
  have l: "length (leftover ?s) \<le> length ?s" by (subst (2) u) simp
  let ?b2 = "a' @ leftover ?s @ NUL # ?r"
  let ?p = "length ?s - length (leftover ?s)"
  have k: "m + length c - ?p = length (leftover ?s)" using l m(2) by simp
  have len: "length ?b2 = BUFSZ" using a'(2) l b c(2) m(2) by simp
  have mv: "length (umemmove ?b2 0 ?p (int (length (leftover ?s)))) = length ?b2 \<and>
      take (length (leftover ?s)) (umemmove ?b2 0 ?p (int (length (leftover ?s)))) = take (length (leftover ?s)) (drop ?p ?b2)"
    by (rule umemmove_front) (use a'(2) l in simp)
  show ?thesis
  proof (rule that [of ?b2 ?p])
    show "grep_lines re ((take m buf @ c @ drop (m + length c) buf)[m + length c := NUL]) 0 = (?b2, ?p, matching_lines re ?s)" using a'(1) by (simp add: b1)
  qed (use k mv len a'(2) in \<open>simp_all\<close>)
qed

text \<open>No part of the input as long as the buffer is without a newline.\<close>

definition short_lines :: "string \<Rightarrow> bool" where
  "short_lines s \<longleftrightarrow> (\<forall>u v w. s = u @ v @ w \<and> nl \<notin> set v \<longrightarrow> length v < BUFSZ - 1)"

lemma short_lines_suffix: "short_lines (u @ s) \<Longrightarrow> short_lines s"
  unfolding short_lines_def by (metis append.assoc)

lemma grep_loop_writes:
  assumes rd: "\<And>t a l. rd t a l \<le> a \<and> rd t a l \<le> l" "\<And>t a l. 0 < a \<Longrightarrow> 0 < l \<Longrightarrow> 0 < rd t a l"
  shows "length buf = BUFSZ \<Longrightarrow> take m buf = pend \<Longrightarrow> length pend = m \<Longrightarrow> nl \<notin> set pend \<Longrightarrow> NUL \<notin> set (pend @ inp) \<Longrightarrow>
    short_lines (pend @ inp) \<Longrightarrow> length inp < t \<Longrightarrow> grep_loop t rd re buf m inp = matching_lines re (pend @ inp)"
proof (induction t arbitrary: buf m pend inp)
  case (Suc t)
  define n where "n = rd t (BUFSZ - Suc m) (length inp)"
  have m: "m < BUFSZ - 1" using Suc.prems(6) [unfolded short_lines_def, rule_format, of "[]" pend inp] Suc.prems(3,4) by simp
  have n: "n \<le> BUFSZ - Suc m" "n \<le> length inp" using rd(1) by (simp_all add: n_def)
  show ?case
  proof (cases "n = 0")
    case True
    then have "inp = []" using rd(2) [of "BUFSZ - Suc m" "length inp" t] m by (auto simp: n_def BUFSZ_def)
    then show ?thesis using Suc.prems(4) True by (simp add: n_def line_simps)
  next
    case False
    let ?c = "take n inp"
    have c: "length ?c = n" using n by simp
    obtain b2 p where g: "grep_lines re ((take m buf @ ?c @ drop (m + length ?c) buf)[m + length ?c := NUL]) 0 = (b2, p, matching_lines re (pend @ ?c))"
      "m + length ?c - p = length (leftover (pend @ ?c))" "length (umemmove b2 0 p (int (m + length ?c - p))) = BUFSZ"
      "take (m + length ?c - p) (umemmove b2 0 p (int (m + length ?c - p))) = leftover (pend @ ?c)"
      by (rule grep_round [OF Suc.prems(1-3), of ?c re]) (use c n m False Suc.prems(5) in \<open>auto dest: in_set_takeD\<close>)
    let ?l = "leftover (pend @ ?c)"
    obtain u where u: "pend @ ?c = u @ ?l" "nl \<notin> set ?l" using leftover_props by blast
    have all: "pend @ inp = u @ ?l @ drop n inp" using u(1) append_take_drop_id [of n inp] by (metis append.assoc)
    have "grep_loop t rd re (umemmove b2 0 p (int (m + n - p))) (m + n - p) (drop n inp) = matching_lines re (?l @ drop n inp)"
    proof (rule Suc.IH)
      show "NUL \<notin> set (?l @ drop n inp)" using Suc.prems(5) unfolding all by auto
      show "short_lines (?l @ drop n inp)" using Suc.prems(6) unfolding all by (rule short_lines_suffix)
      show "length (drop n inp) < t" using Suc.prems(7) False n(2) by simp
    qed (use g u(2) c in simp_all)
    then have "grep_loop (Suc t) rd re buf m inp = matching_lines re (pend @ ?c) @ matching_lines re (?l @ drop n inp)"
      using g(1) False c by (simp add: n_def [symmetric] Let_def)
    also have "\<dots> = matching_lines re ((pend @ ?c) @ drop n inp)" by (rule matching_lines_append [symmetric])
    finally show ?thesis by simp
  qed
qed simp


lemma short_lines_length: "length s < BUFSZ - 1 \<Longrightarrow> short_lines s"
  by (auto simp: short_lines_def)

definition ex_read :: "nat \<Rightarrow> nat \<Rightarrow> nat \<Rightarrow> nat" where
  "ex_read t a l = min a (min l (t mod 3 + 1))"


text \<open>
  The bound is needed: a line of 1023 characters fills the buffer, the next \<^verbatim>\<open>read\<close> is for no characters, and \<^verbatim>\<open>grep\<close> takes its 0 for the end of the file.  The line
  and everything behind it is passed over in silence.
\<close>

lemma grep_loop_stops:
  assumes rd: "\<And>t a l. rd t a l \<le> a \<and> rd t a l \<le> l"
  shows "length buf = BUFSZ \<Longrightarrow> take m buf = pend \<Longrightarrow> length pend = m \<Longrightarrow> NUL \<notin> set (pend @ inp) \<Longrightarrow>
    nl \<notin> set (take (BUFSZ - 1) (pend @ inp)) \<Longrightarrow> m \<le> BUFSZ - 1 \<Longrightarrow> grep_loop t rd re buf m inp = []"
proof (induction t arbitrary: buf m pend inp)
  case (Suc t)
  define n where "n = rd t (BUFSZ - Suc m) (length inp)"
  have n: "n \<le> BUFSZ - Suc m" "n \<le> length inp" using rd by (simp_all add: n_def)
  show ?case
  proof (cases "n = 0")
    case False
    let ?c = "take n inp"
    have c: "length ?c = n" using n by simp
    obtain b2 p where g: "grep_lines re ((take m buf @ ?c @ drop (m + length ?c) buf)[m + length ?c := NUL]) 0 = (b2, p, matching_lines re (pend @ ?c))"
      "m + length ?c - p = length (leftover (pend @ ?c))" "length (umemmove b2 0 p (int (m + length ?c - p))) = BUFSZ"
      "take (m + length ?c - p) (umemmove b2 0 p (int (m + length ?c - p))) = leftover (pend @ ?c)"
      by (rule grep_round [OF Suc.prems(1-3), of ?c re]) (use c n False Suc.prems(4,6) in \<open>auto simp: BUFSZ_def dest: in_set_takeD\<close>)
    have "take (BUFSZ - 1) (pend @ inp) = (pend @ ?c) @ take (BUFSZ - 1 - (m + n)) (drop n inp)"
    proof -
      have "BUFSZ - Suc m = n + (BUFSZ - Suc (m + n))" using n(1) by simp
      then show ?thesis using n Suc.prems(3,6) by (simp add: take_add [symmetric])
    qed
    then have no: "nl \<notin> set (pend @ ?c)" using Suc.prems(5) by simp
    have l: "leftover (pend @ ?c) = pend @ ?c" "matching_lines re (pend @ ?c) = []" by (rule line_simps(2) [OF no], rule line_simps(1) [OF no])
    have "grep_loop t rd re (umemmove b2 0 p (int (m + n - p))) (m + n - p) (drop n inp) = []"
    proof (rule Suc.IH)
      show "NUL \<notin> set ((pend @ ?c) @ drop n inp)" "nl \<notin> set (take (BUFSZ - 1) ((pend @ ?c) @ drop n inp))" using Suc.prems(4,5) by simp_all
    qed (use g l c n Suc.prems(3,6) in simp_all)
    then show ?thesis using g(1) False c l(2) by (simp add: n_def [symmetric] Let_def)
  qed (simp add: n_def)
qed simp

theorem grep_long_line:
  assumes "\<And>t a l. rd t a l \<le> a \<and> rd t a l \<le> l" and "NUL \<notin> set inp" and "nl \<notin> set (take (BUFSZ - 1) inp)"
  shows "grep rd re inp = []"
  unfolding grep_def by (rule grep_loop_stops [where pend = "[]", simplified]) (use assms in auto)

end
