(* ===== verification/Kbytes.thy ===== *)
theory Kbytes
  imports Kprelude
begin

text \<open>
  Little-endian loads and stores of 16-, 32- and 64-bit values in byte-addressed memory, which is
  how the kernel reads and writes the structures that lie in disk blocks (\<^verbatim>\<open>struct dinode\<close>,
  \<^verbatim>\<open>struct dirent\<close>, \<^verbatim>\<open>struct superblock\<close>, \<^verbatim>\<open>struct logheader\<close>, arrays of \<^verbatim>\<open>uint\<close>) and in physical
  memory (page-table entries, the links of the free list).  RISC-V is little-endian.
\<close>

section \<open>Loads and stores\<close>

definition get16 :: "bytes \<Rightarrow> nat \<Rightarrow> ushort" where
  "get16 m a = ucast (m a) OR push_bit 8 (ucast (m (a + 1)))"

definition put16 :: "bytes \<Rightarrow> nat \<Rightarrow> ushort \<Rightarrow> bytes" where
  "put16 m a v = m(a := ucast v, a + 1 := ucast (drop_bit 8 v))"

definition get32 :: "bytes \<Rightarrow> nat \<Rightarrow> uint" where
  "get32 m a = ucast (get16 m a) OR push_bit 16 (ucast (get16 m (a + 2)))"

definition put32 :: "bytes \<Rightarrow> nat \<Rightarrow> uint \<Rightarrow> bytes" where
  "put32 m a v = put16 (put16 m a (ucast v)) (a + 2) (ucast (drop_bit 16 v))"

definition get64 :: "bytes \<Rightarrow> nat \<Rightarrow> uint64" where
  "get64 m a = ucast (get32 m a) OR push_bit 32 (ucast (get32 m (a + 4)))"

definition put64 :: "bytes \<Rightarrow> nat \<Rightarrow> uint64 \<Rightarrow> bytes" where
  "put64 m a v = put32 (put32 m a (ucast v)) (a + 4) (ucast (drop_bit 32 v))"

text \<open>Two runs of \<open>n\<close> bytes do not overlap.\<close>

definition apart :: "nat \<Rightarrow> nat \<Rightarrow> nat \<Rightarrow> bool" where
  "apart n a b \<longleftrightarrow> a + n \<le> b \<or> b + n \<le> a"

section \<open>Their laws\<close>

lemma split_join16: "(ucast (ucast v :: uchar) :: ushort) OR push_bit 8 (ucast (ucast (drop_bit 8 v) :: uchar)) = v"
  by (rule bit_word_eqI) (auto simp: bit_simps)

lemma split_join32: "(ucast (ucast v :: ushort) :: uint) OR push_bit 16 (ucast (ucast (drop_bit 16 v) :: ushort)) = v"
  by (rule bit_word_eqI) (auto simp: bit_simps)

lemma split_join64: "(ucast (ucast v :: uint) :: uint64) OR push_bit 32 (ucast (ucast (drop_bit 32 v) :: uint)) = v"
  by (rule bit_word_eqI) (auto simp: bit_simps)

lemma put16_outside: "b < a \<or> a + 2 \<le> b \<Longrightarrow> put16 m a v b = m b"
  by (auto simp: put16_def)

lemma put32_outside: "b < a \<or> a + 4 \<le> b \<Longrightarrow> put32 m a v b = m b"
  by (auto simp: put32_def put16_outside)

lemma put64_outside: "b < a \<or> a + 8 \<le> b \<Longrightarrow> put64 m a v b = m b"
  by (auto simp: put64_def put32_outside)

lemma get16_put16: "get16 (put16 m a v) a = v"
  by (simp add: get16_def put16_def split_join16)

lemma get16_cong: "m a = m' a \<Longrightarrow> m (a + 1) = m' (a + 1) \<Longrightarrow> get16 m a = get16 m' a"
  by (simp add: get16_def)

lemma get32_cong: "(\<And>i. i < 4 \<Longrightarrow> m (a + i) = m' (a + i)) \<Longrightarrow> get32 m a = get32 m' a"
proof -
  assume h: "\<And>i. i < 4 \<Longrightarrow> m (a + i) = m' (a + i)"
  have "get16 m a = get16 m' a" using h [of 0] h [of 1] by (intro get16_cong) simp_all
  moreover have "get16 m (a + 2) = get16 m' (a + 2)"
    using h [of 2] h [of 3] by (intro get16_cong) (simp_all add: numeral_eq_Suc)
  ultimately show ?thesis by (simp add: get32_def)
qed

lemma get64_cong: "(\<And>i. i < 8 \<Longrightarrow> m (a + i) = m' (a + i)) \<Longrightarrow> get64 m a = get64 m' a"
proof -
  assume h: "\<And>i. i < 8 \<Longrightarrow> m (a + i) = m' (a + i)"
  have "get32 m a = get32 m' a" using h by (intro get32_cong) simp
  moreover have "get32 m (a + 4) = get32 m' (a + 4)"
    using h by (intro get32_cong) (simp add: add.assoc)
  ultimately show ?thesis by (simp add: get64_def)
qed

lemma get16_put16_apart: "apart 2 a b \<Longrightarrow> get16 (put16 m a v) b = get16 m b"
  by (rule get16_cong) (auto simp: apart_def put16_outside)

lemma get32_put32: "get32 (put32 m a v) a = v"
proof -
  have "get16 (put32 m a v) a = ucast v"
    by (simp add: put32_def get16_put16_apart get16_put16 apart_def)
  moreover have "get16 (put32 m a v) (a + 2) = ucast (drop_bit 16 v)"
    by (simp add: put32_def get16_put16)
  ultimately show ?thesis by (simp add: get32_def split_join32)
qed

lemma get32_put32_apart: "apart 4 a b \<Longrightarrow> get32 (put32 m a v) b = get32 m b"
  by (rule get32_cong) (auto simp: apart_def put32_outside)

lemma get64_put64: "get64 (put64 m a v) a = v"
proof -
  have "get32 (put64 m a v) a = ucast v"
    by (simp add: put64_def get32_put32_apart get32_put32 apart_def)
  moreover have "get32 (put64 m a v) (a + 4) = ucast (drop_bit 32 v)"
    by (simp add: put64_def get32_put32)
  ultimately show ?thesis by (simp add: get64_def split_join64)
qed

lemma get64_put64_apart: "apart 8 a b \<Longrightarrow> get64 (put64 m a v) b = get64 m b"
  by (rule get64_cong) (auto simp: apart_def put64_outside)

interpretation le16: store get16 put16 "apart 2"
  by unfold_locales (simp_all add: get16_put16 get16_put16_apart)

interpretation le32: store get32 put32 "apart 4"
  by unfold_locales (simp_all add: get32_put32 get32_put32_apart)

interpretation le64: store get64 put64 "apart 8"
  by unfold_locales (simp_all add: get64_put64 get64_put64_apart)

text \<open>Elements of an array of \<open>n\<close>-byte values are apart from one another.\<close>

lemma apart_array: "i \<noteq> j \<Longrightarrow> apart n (base + n * i) (base + n * j)"
proof -
  assume "i \<noteq> j"
  then consider "Suc i \<le> j" | "Suc j \<le> i" by linarith
  then show ?thesis
  proof cases
    case 1
    then have "n * Suc i \<le> n * j" by (rule mult_le_mono2)
    then show ?thesis by (simp add: apart_def)
  next
    case 2
    then have "n * Suc j \<le> n * i" by (rule mult_le_mono2)
    then show ?thesis by (simp add: apart_def)
  qed
qed

lemma apart_sym: "apart n a b = apart n b a"
  by (auto simp: apart_def)

end
