(* ===== verification/Umalloc.thy ===== *)
theory Umalloc
  imports Kbytes "HOL-Library.Monad_Syntax"
begin

text \<open>
  The user-level allocator, \<^verbatim>\<open>user/umalloc.c\<close>.  The free blocks form a ring in ascending order of addresses, linked through headers in front of the
  blocks; the ring starts at the header \<^verbatim>\<open>base\<close> in the program's data, below the heap.  Memory is bytes, a header has a pointer (8 bytes) and a size in
  units of headers (4 bytes) and takes 16 bytes.  The two loops run around the ring and are partial functions: not returning is \<open>None\<close>.

  The heap grows by \<^verbatim>\<open>sbrk\<close>, as the kernel does it: up to a limit that is arbitrary here, and a negative amount makes the process smaller, or
  does nothing if the process is not that large.
\<close>

section \<open>Headers\<close>

record heap =
  umem :: bytes
  freep :: nat
  base :: nat
  brk :: nat
  lim :: nat

definition hptr :: "bytes \<Rightarrow> nat \<Rightarrow> nat" where
  "hptr m a = unat (get64 m a)"

definition hsize :: "bytes \<Rightarrow> nat \<Rightarrow> nat" where
  "hsize m a = unat (get32 m (a + 8))"

definition set_hptr :: "nat \<Rightarrow> nat \<Rightarrow> bytes \<Rightarrow> bytes" where
  "set_hptr a p m = put64 m a (of_nat p)"

definition set_hsize :: "nat \<Rightarrow> nat \<Rightarrow> bytes \<Rightarrow> bytes" where
  "set_hsize a n m = put32 m (a + 8) (of_nat n)"

section \<open>The code\<close>

partial_function (option) free_search :: "bytes \<Rightarrow> nat \<Rightarrow> nat \<Rightarrow> nat option" where
  "free_search m bp p =
     (if bp > p \<and> bp < hptr m p then Some p
      else if p \<ge> hptr m p \<and> (bp > p \<or> bp < hptr m p) then Some p
      else free_search m bp (hptr m p))"

definition free_link :: "bytes \<Rightarrow> nat \<Rightarrow> nat \<Rightarrow> bytes" where
  "free_link m bp p =
     (let m1 = (if bp + 16 * hsize m bp = hptr m p
                then let m' = set_hsize bp (hsize m bp + hsize m (hptr m p)) m in set_hptr bp (hptr m' (hptr m' p)) m'
                else set_hptr bp (hptr m p) m)
      in if p + 16 * hsize m1 p = bp
         then let m' = set_hsize p (hsize m1 p + hsize m1 bp) m1 in set_hptr p (hptr m' bp) m'
         else set_hptr p bp m1)"

definition free :: "nat \<Rightarrow> heap \<Rightarrow> heap option" where
  "free ap h =
     (let bp = ap - 16 in
      Option.bind (free_search (umem h) bp (freep h)) (\<lambda>p.
      Some (h\<lparr>umem := free_link (umem h) bp p, freep := p\<rparr>)))"

definition usbrk :: "int \<Rightarrow> heap \<Rightarrow> int \<times> heap" where
  "usbrk n h =
     (if n < 0 then (int (brk h), if nat (- n) \<le> brk h then h\<lparr>brk := brk h - nat (- n)\<rparr> else h)
      else if brk h + nat n \<le> lim h then (int (brk h), h\<lparr>brk := brk h + nat n\<rparr>)
      else (-1, h))"

definition morecore :: "nat \<Rightarrow> heap \<Rightarrow> (nat \<times> heap) option" where
  "morecore nu h =
     (let nu = (if nu < 4096 then 4096 else nu);
          (p, h1) = usbrk (sint (of_nat (nu * 16) :: uint)) h
      in if p = -1 then Some (0, h1)
         else
           let hp = nat p; h2 = h1\<lparr>umem := set_hsize hp nu (umem h1)\<rparr> in
           Option.bind (free (hp + 16) h2) (\<lambda>h3.
           Some (freep h3, h3)))"

definition malloc_take :: "nat \<Rightarrow> nat \<Rightarrow> nat \<Rightarrow> heap \<Rightarrow> nat \<times> heap" where
  "malloc_take nunits prevp p h =
     (let m = umem h in
      if hsize m p = nunits then (p + 16, h\<lparr>umem := set_hptr prevp (hptr m p) m, freep := prevp\<rparr>)
      else
        let m1 = set_hsize p (hsize m p - nunits) m;
            q = p + 16 * hsize m1 p
        in (q + 16, h\<lparr>umem := set_hsize q nunits m1, freep := prevp\<rparr>))"

partial_function (option) malloc_loop :: "nat \<Rightarrow> nat \<Rightarrow> nat \<Rightarrow> heap \<Rightarrow> (nat \<times> heap) option" where
  "malloc_loop nunits prevp p h =
     (if hsize (umem h) p \<ge> nunits then Some (malloc_take nunits prevp p h)
      else if p = freep h then
        Option.bind (morecore nunits h) (\<lambda>(p', h').
          if p' = 0 then Some (0, h') else malloc_loop nunits p' (hptr (umem h') p') h')
      else malloc_loop nunits p (hptr (umem h) p) h)"

definition nunits_of :: "nat \<Rightarrow> nat" where
  "nunits_of nbytes = (nbytes + 15) div 16 + 1"

definition malloc_start :: "heap \<Rightarrow> heap" where
  "malloc_start h = (if freep h = 0
     then h\<lparr>umem := set_hsize (base h) 0 (set_hptr (base h) (base h) (umem h)), freep := base h\<rparr> else h)"

definition malloc :: "uint \<Rightarrow> heap \<Rightarrow> (nat \<times> heap) option" where
  "malloc nbytes h =
     (let nunits = nunits_of (unat nbytes); h0 = malloc_start h
      in malloc_loop nunits (freep h0) (hptr (umem h0) (freep h0)) h0)"

section \<open>Reading and writing headers\<close>

definition apart16 :: "nat \<Rightarrow> nat \<Rightarrow> bool" where
  "apart16 a b \<longleftrightarrow> a + 16 \<le> b \<or> b + 16 \<le> a"

lemma set_hptr_outside: "i < a \<or> a + 16 \<le> i \<Longrightarrow> set_hptr a p m i = m i"
  unfolding set_hptr_def by (rule put64_outside) auto

lemma set_hsize_outside: "i < a \<or> a + 16 \<le> i \<Longrightarrow> set_hsize a n m i = m i"
  unfolding set_hsize_def by (rule put32_outside) auto

lemma hptr_cong: "(\<And>i. i < 16 \<Longrightarrow> m (a + i) = m' (a + i)) \<Longrightarrow> hptr m a = hptr m' a"
  unfolding hptr_def by (rule arg_cong [where f = unat], rule get64_cong) simp

lemma hsize_cong: "(\<And>i. i < 16 \<Longrightarrow> m (a + i) = m' (a + i)) \<Longrightarrow> hsize m a = hsize m' a"
  unfolding hsize_def by (rule arg_cong [where f = unat], rule get32_cong) (simp add: add.assoc)

lemma hdr_same:
  "p < 2 ^ 64 \<Longrightarrow> hptr (set_hptr a p m) a = p"
  "n < 2 ^ 32 \<Longrightarrow> hsize (set_hsize a n m) a = n"
  "hsize (set_hptr a p m) a = hsize m a"
  "hptr (set_hsize a n m) a = hptr m a"
proof -
  show "p < 2 ^ 64 \<Longrightarrow> hptr (set_hptr a p m) a = p" by (simp add: hptr_def set_hptr_def get64_put64 unsigned_of_nat take_bit_nat_eq_self)
  show "n < 2 ^ 32 \<Longrightarrow> hsize (set_hsize a n m) a = n" by (simp add: hsize_def set_hsize_def get32_put32 unsigned_of_nat take_bit_nat_eq_self)
  show "hsize (set_hptr a p m) a = hsize m a"
    unfolding hsize_def set_hptr_def by (rule arg_cong [where f = unat], rule get32_cong) (simp add: put64_outside)
  show "hptr (set_hsize a n m) a = hptr m a"
    unfolding hptr_def set_hsize_def by (rule arg_cong [where f = unat], rule get64_cong) (simp add: put32_outside)
qed

lemma hdr_apart:
  assumes "apart16 a b"
  shows "hptr (set_hptr a p m) b = hptr m b" "hsize (set_hptr a p m) b = hsize m b"
    "hptr (set_hsize a n m) b = hptr m b" "hsize (set_hsize a n m) b = hsize m b"
proof -
  have o: "b + i < a \<or> a + 16 \<le> b + i" if "i < 16" for i using assms that by (auto simp: apart16_def)
  show "hptr (set_hptr a p m) b = hptr m b" by (rule hptr_cong) (simp add: set_hptr_outside o)
  show "hsize (set_hptr a p m) b = hsize m b" by (rule hsize_cong) (simp add: set_hptr_outside o)
  show "hptr (set_hsize a n m) b = hptr m b" by (rule hptr_cong) (simp add: set_hsize_outside o)
  show "hsize (set_hsize a n m) b = hsize m b" by (rule hsize_cong) (simp add: set_hsize_outside o)
qed

lemma apart16_sym: "apart16 a b \<Longrightarrow> apart16 b a"
  by (auto simp: apart16_def)

section \<open>The ring\<close>

text \<open>The headers of \<open>xs\<close> are linked in this order and the last one points to \<open>z\<close>.\<close>

fun lseg :: "bytes \<Rightarrow> nat list \<Rightarrow> nat \<Rightarrow> bool" where
  "lseg m [] z \<longleftrightarrow> True"
| "lseg m (x # xs) z \<longleftrightarrow> hptr m x = hd (xs @ [z]) \<and> lseg m xs z"

lemma lseg_append: "lseg m (xs @ ys) z \<longleftrightarrow> lseg m xs (hd (ys @ [z])) \<and> lseg m ys z"
proof (induction xs)
  case (Cons x xs)
  then show ?case by (cases xs) auto
qed simp

lemma lseg_cong: "(\<And>a. a \<in> set xs \<Longrightarrow> hptr m a = hptr m' a) \<Longrightarrow> lseg m xs z = lseg m' xs z"
  by (induction xs) auto

lemma lseg_nth: "lseg m xs z \<Longrightarrow> i < length xs \<Longrightarrow> hptr m (xs ! i) = (if Suc i < length xs then xs ! Suc i else z)"
proof (induction xs arbitrary: i)
  case (Cons x xs)
  then show ?case by (cases i; cases xs) auto
qed simp

text \<open>The ring can be entered anywhere.\<close>

lemma lseg_rotate: "lseg m (us @ f # vs) (hd (us @ f # vs)) \<Longrightarrow> lseg m (f # vs @ us) f"
  by (cases us; cases vs) (auto simp: lseg_append hd_append)

lemma lseg_inj:
  assumes "lseg m xs (hd xs)" and "distinct xs" and "a \<in> set xs" and "b \<in> set xs" and "hptr m a = hptr m b"
  shows "a = b"
proof -
  obtain i j where ij: "i < length xs" "a = xs ! i" "j < length xs" "b = xs ! j" using assms(3,4) by (auto simp: in_set_conv_nth)
  have x: "hd xs = xs ! 0" using ij by (cases xs) auto
  have "(if Suc i < length xs then xs ! Suc i else xs ! 0) = (if Suc j < length xs then xs ! Suc j else xs ! 0)"
    using lseg_nth [OF assms(1) ij(1)] lseg_nth [OF assms(1) ij(3)] assms(5) unfolding ij(2,4) x by metis
  moreover have "0 < length xs" using ij by auto
  ultimately have "i = j" using ij nth_eq_iff_index_eq [OF assms(2), of 0 "Suc j"] nth_eq_iff_index_eq [OF assms(2), of "Suc i" 0]
      nth_eq_iff_index_eq [OF assms(2), of "Suc i" "Suc j"]
    by (auto split: if_splits)
  then show ?thesis using ij by simp
qed

section \<open>The invariant\<close>

text \<open>
  \<open>sep m S\<close>: the blocks with headers at \<open>S\<close> are not empty and do not overlap.  \<open>um_ok h X hs\<close>: the ring is \<^verbatim>\<open>base\<close>
  followed by the free blocks \<open>hs\<close> in ascending order, and these and the blocks \<open>X\<close> in use lie apart in the heap.
\<close>

definition sep :: "bytes \<Rightarrow> nat set \<Rightarrow> bool" where
  "sep m S \<longleftrightarrow> (\<forall>a \<in> S. 1 \<le> hsize m a) \<and> (\<forall>a \<in> S. \<forall>b \<in> S. a < b \<longrightarrow> a + 16 * hsize m a \<le> b)"

definition within :: "bytes \<Rightarrow> nat \<Rightarrow> nat \<Rightarrow> nat set \<Rightarrow> bool" where
  "within m lo hi S \<longleftrightarrow> (\<forall>a \<in> S. lo \<le> a \<and> a + 16 * hsize m a \<le> hi)"

definition heap_ok :: "bytes \<Rightarrow> nat \<Rightarrow> nat \<Rightarrow> nat set \<Rightarrow> bool" where
  "heap_ok m B hi S \<longleftrightarrow> sep m S \<and> within m (B + 16) hi S \<and> hsize m B = 0 \<and> B + 16 \<le> hi \<and> hi < 2 ^ 31"

definition um_ok :: "heap \<Rightarrow> nat set \<Rightarrow> nat list \<Rightarrow> bool" where
  "um_ok h X hs \<longleftrightarrow>
     0 < base h \<and> lseg (umem h) (base h # hs) (base h) \<and> sorted_wrt (<) (base h # hs) \<and> freep h \<in> set (base h # hs) \<and>
     set hs \<inter> X = {} \<and> heap_ok (umem h) (base h) (brk h) (set hs \<union> X) \<and> brk h \<le> lim h \<and> lim h < 2 ^ 31"

lemma um_okD:
  assumes "um_ok h X hs"
  shows "0 < base h" "lseg (umem h) (base h # hs) (base h)" "sorted_wrt (<) (base h # hs)"
    "freep h \<in> set (base h # hs)" "set hs \<inter> X = {}" "heap_ok (umem h) (base h) (brk h) (set hs \<union> X)" "brk h \<le> lim h" "lim h < 2 ^ 31"
  using assms by (simp_all add: um_ok_def)

lemma heap_ok_block:
  assumes "heap_ok m B hi S" and "a \<in> S"
  shows "B + 16 \<le> a" "1 \<le> hsize m a" "a + 16 * hsize m a \<le> hi" "hi < 2 ^ 31"
  using assms by (simp_all add: heap_ok_def sep_def within_def)

lemma heap_ok_apart:
  assumes "heap_ok m B hi S" and "a \<in> insert B S" and "b \<in> insert B S" and "a \<noteq> b"
  shows "apart16 a b"
proof -
  note d = heap_ok_block [OF assms(1)]
  have S: "apart16 a b" if ab: "a \<in> S" "b \<in> S" "a < b" for a b
  proof -
    have "a + 16 * hsize m a \<le> b" using assms(1) ab unfolding heap_ok_def sep_def by blast
    then show ?thesis using d(2) [OF ab(1)] unfolding apart16_def by linarith
  qed
  show ?thesis
  proof (cases "a = B \<or> b = B")
    case True
    then show ?thesis using assms(2-4) d(1) by (auto simp: apart16_def)
  next
    case False
    then have "a \<in> S" "b \<in> S" using assms(2,3) by auto
    then show ?thesis using S [of a b] S [of b a] assms(4) apart16_sym by (cases a b rule: linorder_cases) blast+
  qed
qed

text \<open>Bytes of blocks in use.\<close>

definition same_on :: "bytes \<Rightarrow> bytes \<Rightarrow> nat set \<Rightarrow> bool" where
  "same_on m m' X \<longleftrightarrow> (\<forall>a \<in> X. \<forall>i. a \<le> i \<and> i < a + 16 * hsize m a \<longrightarrow> m' i = m i)"

lemma same_on_hsize: "same_on m m' X \<Longrightarrow> a \<in> X \<Longrightarrow> 1 \<le> hsize m a \<Longrightarrow> hsize m' a = hsize m a"
  by (rule hsize_cong) (simp add: same_on_def)

lemma same_on_trans: "same_on m m1 X \<Longrightarrow> same_on m1 m2 X \<Longrightarrow> (\<And>a. a \<in> X \<Longrightarrow> hsize m1 a = hsize m a) \<Longrightarrow> same_on m m2 X"
  by (auto simp: same_on_def)

lemma outside_block:
  assumes "sep m (insert b S)" and "a \<in> S" and "a \<noteq> b" and "a \<le> i" "i < a + 16 * hsize m a"
  shows "i < b \<or> b + 16 \<le> i"
proof -
  have 1: "1 \<le> hsize m b" using assms(1) by (simp add: sep_def)
  have "a < b \<Longrightarrow> a + 16 * hsize m a \<le> b" "b < a \<Longrightarrow> b + 16 * hsize m b \<le> a" using assms(1,2) by (simp_all add: sep_def)
  then show ?thesis using assms(3-5) 1 by (cases a b rule: linorder_cases) auto
qed

section \<open>Freeing a block\<close>

definition stop :: "bytes \<Rightarrow> nat \<Rightarrow> nat \<Rightarrow> bool" where
  "stop m bp p \<longleftrightarrow> (bp > p \<and> bp < hptr m p) \<or> (p \<ge> hptr m p \<and> (bp > p \<or> bp < hptr m p))"

lemma free_search_step: "free_search m bp p = (if stop m bp p then Some p else free_search m bp (hptr m p))"
  by (subst free_search.simps) (auto simp: stop_def)

lemma free_search_walk: "lseg m (us @ [p]) z \<Longrightarrow> \<forall>u \<in> set us. \<not> stop m bp u \<Longrightarrow> stop m bp p \<Longrightarrow> free_search m bp (hd (us @ [p])) = Some p"
proof (induction us)
  case Nil
  then show ?case by (simp add: free_search_step)
next
  case (Cons u us)
  then have "hptr m u = hd (us @ [p])" by (cases us) auto
  then show ?case using Cons by (simp add: free_search_step [of m bp u])
qed

text \<open>The place of a block in the ring: the free block or \<^verbatim>\<open>base\<close> before it.\<close>

lemma split_at:
  assumes "sorted_wrt (<) (B # hs)" and "B < (bp :: nat)" and "bp \<notin> set hs"
  obtains xs p ys where "B # hs = xs @ p # ys" and "\<forall>x \<in> set xs. x < p" and "p < bp" and "\<forall>y \<in> set ys. bp < y"
proof -
  define ls where "ls = takeWhile (\<lambda>x. x < bp) (B # hs)"
  define ys where "ys = dropWhile (\<lambda>x. x < bp) (B # hs)"
  have eq: "B # hs = ls @ ys" unfolding ls_def ys_def by (rule takeWhile_dropWhile_id [symmetric])
  have ne: "ls \<noteq> []" using assms(2) by (simp add: ls_def)
  obtain xs p where l: "ls = xs @ [p]" using ne by (metis rev_exhaust)
  have srt: "sorted_wrt (<) (xs @ p # ys)" using assms(1) eq l by simp
  have "\<forall>x \<in> set ls. x < bp" unfolding ls_def by (auto dest: set_takeWhileD)
  then have p: "p < bp" using l by simp
  have "\<forall>y \<in> set ys. bp < y"
  proof (cases ys)
    case (Cons y zs)
    have "\<not> y < bp" using Cons hd_dropWhile [of "\<lambda>x. x < bp" "B # hs", folded ys_def] by simp
    moreover have "y \<in> set (B # hs)" unfolding eq Cons by simp
    then have "y \<noteq> bp" using assms(2,3) by auto
    ultimately have "bp < y" by simp
    then show ?thesis using srt Cons by (auto simp: sorted_wrt_append)
  qed simp
  then show ?thesis using that [of xs p ys] eq l srt p by (auto simp: sorted_wrt_append)
qed

lemma stop_unique:
  assumes "lseg m (xs @ p # ys) B" and "sorted_wrt (<) (xs @ p # ys)" and "hd (xs @ p # ys) = B"
    and "p < bp" and "\<forall>y \<in> set ys. bp < y" and "B < bp" and q: "q \<in> set (xs @ p # ys)"
  shows "stop m bp q \<longleftrightarrow> q = p"
proof -
  obtain as bs where s: "xs @ p # ys = as @ q # bs" using q by (metis split_list)
  have n: "hptr m q = hd (bs @ [B])" using assms(1) unfolding s by (simp add: lseg_append)
  have srt: "\<forall>a \<in> set as. a < q" "\<forall>b \<in> set bs. q < b" using assms(2) unfolding s by (auto simp: sorted_wrt_append)
  have Bq: "B \<le> q" using assms(3) unfolding s using srt(1) by (cases as) auto
  have cases3: "q \<in> set xs \<or> q = p \<or> q \<in> set ys" using q by auto
  show ?thesis
  proof (cases "q = p")
    case True
    have "p \<notin> set xs" "p \<notin> set ys" using assms(2) by (auto simp: sorted_wrt_append)
    then have "bs = ys" using s True append_Cons_eq_iff [of p xs ys as bs] by simp
    then show ?thesis using True n assms(4,5,6) Bq by (cases ys) (auto simp: stop_def)
  next
    case False
    then consider (lo) "q \<in> set xs" | (hi) "q \<in> set ys" using cases3 by blast
    then show ?thesis
    proof cases
      case lo
      have "q < p" using assms(2) lo by (simp add: sorted_wrt_append)
      moreover have "p \<in> set (as @ q # bs)" unfolding s [symmetric] by simp
      ultimately have "p \<in> set bs" using srt(1) by auto
      then obtain b bs' where b: "bs = b # bs'" "b \<le> p" using srt assms(2) s by (cases bs) (auto simp: sorted_wrt_append)
      then show ?thesis using False n assms(4) srt(2) by (auto simp: stop_def)
    next
      case hi
      then have "bp < q" using assms(5) by simp
      then show ?thesis using False n srt(2) assms(6) by (cases bs) (auto simp: stop_def)
    qed
  qed
qed

lemma free_search_finds:
  assumes l: "lseg m (xs @ p # ys) B" and srt: "sorted_wrt (<) (xs @ p # ys)" and B: "hd (xs @ p # ys) = B"
    and bp: "p < bp" "\<forall>y \<in> set ys. bp < y" "B < bp" and f: "f \<in> set (xs @ p # ys)"
  shows "free_search m bp f = Some p"
proof -
  obtain us vs where r: "xs @ p # ys = us @ f # vs" using f by (metis split_list)
  have L: "lseg m (f # vs @ us) f" using lseg_rotate [of m us f vs] l B unfolding r by simp
  have st: "set (f # vs @ us) = set (xs @ p # ys)" unfolding r by auto
  have "distinct (us @ f # vs)" using srt unfolding strict_sorted_iff r by blast
  then have dst: "distinct (f # vs @ us)" by auto
  have "p \<in> set (f # vs @ us)" unfolding st by simp
  then obtain as bs where a: "f # vs @ us = as @ p # bs" by (metis split_list)
  have "lseg m ((as @ [p]) @ bs) f" using L a by simp
  then have 1: "lseg m (as @ [p]) (hd (bs @ [f]))" unfolding lseg_append by simp
  have "\<not> stop m bp u" if "u \<in> set as" for u
  proof -
    have "u \<in> set (xs @ p # ys)" unfolding st [symmetric] a using that by simp
    moreover have "u \<noteq> p" using dst that unfolding a by auto
    ultimately show ?thesis using stop_unique [OF l srt B bp] by blast
  qed
  moreover have "stop m bp p" using stop_unique [OF l srt B bp, of p] by simp
  ultimately have "free_search m bp (hd (as @ [p])) = Some p" using free_search_walk [OF 1] by blast
  moreover have "hd (as @ [p]) = f" using a by (cases as) auto
  ultimately show ?thesis by simp
qed

text \<open>Two blocks that touch become one.\<close>

lemma sep_merge:
  assumes s: "sep m S" and ab: "a \<in> S" "b \<in> S" "a + 16 * hsize m a = b" "hsize m' a = hsize m a + hsize m b"
    and c: "\<And>c. c \<in> S \<Longrightarrow> c \<noteq> a \<Longrightarrow> hsize m' c = hsize m c"
  shows "sep m' (S - {b})"
proof -
  have pos: "1 \<le> hsize m c" if "c \<in> S" for c using s that by (simp add: sep_def)
  have lt: "c + 16 * hsize m c \<le> d" if "c \<in> S" "d \<in> S" "c < d" for c d using s that by (simp add: sep_def)
  have "c + 16 * hsize m' c \<le> d" if cd: "c \<in> S - {b}" "d \<in> S - {b}" "c < d" for c d
  proof (cases "c = a")
    case True
    have "b \<le> d" using lt [OF ab(1), of d] cd True ab(3) by simp
    then have "b + 16 * hsize m b \<le> d" using lt [OF ab(2), of d] cd by (cases "b = d") auto
    then show ?thesis using True ab(3,4) by simp
  next
    case False
    then show ?thesis using lt [of c d] c [of c] cd by simp
  qed
  moreover have "1 \<le> hsize m' c" if "c \<in> S - {b}" for c
    using pos [of c] pos [OF ab(1)] c [of c] ab(4) that by (cases "c = a") auto
  ultimately show ?thesis by (simp add: sep_def)
qed

lemma within_merge:
  assumes "within m lo hi S" and "a \<in> S" "b \<in> S" "a + 16 * hsize m a = b" "hsize m' a = hsize m a + hsize m b"
    and "\<And>c. c \<in> S \<Longrightarrow> c \<noteq> a \<Longrightarrow> hsize m' c = hsize m c"
  shows "within m' lo hi (S - {b})"
proof -
  have "lo \<le> c \<and> c + 16 * hsize m' c \<le> hi" if "c \<in> S - {b}" for c
  proof (cases "c = a")
    case True
    have "lo \<le> a" "b + 16 * hsize m b \<le> hi" using assms(1-3) by (simp_all add: within_def)
    then show ?thesis using True assms(4,5) by simp
  next
    case False
    then show ?thesis using assms(1,6) that by (simp add: within_def)
  qed
  then show ?thesis by (simp add: within_def)
qed

lemma sep_cong: "(\<And>a. a \<in> S \<Longrightarrow> hsize m' a = hsize m a) \<Longrightarrow> sep m' S = sep m S"
  by (simp add: sep_def)

lemma within_cong: "(\<And>a. a \<in> S \<Longrightarrow> hsize m' a = hsize m a) \<Longrightarrow> within m' lo hi S = within m lo hi S"
  by (simp add: within_def)

lemma hptr_less: "hptr m a < 2 ^ 64"
  unfolding hptr_def using unsigned_less [of "get64 m a"] by simp

lemma hptr_copied: "hptr (set_hptr a (hptr m' b) m) a = hptr m' b"
  by (rule hdr_same(1) [OF hptr_less])

lemma heap_ok_merge:
  assumes h: "heap_ok m B hi S" and ab: "a \<in> S" "b \<in> S" "a + 16 * hsize m a = b" "hsize m' a = hsize m a + hsize m b"
    and c: "\<And>c. c \<in> insert B S \<Longrightarrow> c \<noteq> a \<Longrightarrow> hsize m' c = hsize m c"
  shows "heap_ok m' B hi (S - {b})"
proof -
  have "hsize m' B = hsize m B" using c [of B] heap_ok_block(1) [OF h ab(1)] by simp
  then show ?thesis
    using h sep_merge [OF _ ab, of] within_merge [OF _ ab] c unfolding heap_ok_def by simp
qed

lemma heap_ok_cong: "heap_ok m B hi S \<Longrightarrow> (\<And>c. c \<in> insert B S \<Longrightarrow> hsize m' c = hsize m c) \<Longrightarrow> heap_ok m' B hi S"
  unfolding heap_ok_def using sep_cong [of S m' m] within_cong [of S m' m] by simp

text \<open>The sum of the sizes of two neighbours does not overflow.\<close>

lemma merged_size:
  assumes "heap_ok m B hi S" and "a \<in> S" "b \<in> S" "a + 16 * hsize m a = b"
  shows "hsize m a + hsize m b < 2 ^ 32"
  using heap_ok_block(3,4) [OF assms(1,3)] assms(4) by simp

lemma link_first:
  assumes h: "heap_ok m B hi S" and bp: "bp \<in> S" and p: "p \<in> insert B S" "p \<noteq> bp"
    and n: "hptr m p \<in> insert B S" "hptr m p \<noteq> bp"
    and m1: "m1 = (if bp + 16 * hsize m bp = hptr m p
                then let m' = set_hsize bp (hsize m bp + hsize m (hptr m p)) m in set_hptr bp (hptr m' (hptr m' p)) m'
                else set_hptr bp (hptr m p) m)"
    and c1: "c1 = (bp + 16 * hsize m bp = hptr m p)"
  shows "heap_ok m1 B hi (S - (if c1 then {hptr m p} else {}))"
    and "a \<in> insert B S \<Longrightarrow> a \<noteq> bp \<Longrightarrow> hptr m1 a = hptr m a \<and> hsize m1 a = hsize m a"
    and "hptr m1 bp = (if c1 then hptr m (hptr m p) else hptr m p)" and "hsize m bp \<le> hsize m1 bp"
    and "i < bp \<or> bp + 16 \<le> i \<Longrightarrow> m1 i = m i"
proof -
  let ?q = "hptr m p"
  have ap: "apart16 bp a" if "a \<in> insert B S" "a \<noteq> bp" for a using heap_ok_apart [OF h _ that(1)] bp that(2) by simp
  have q: "?q \<in> S" "hsize m bp + hsize m ?q < 2 ^ 32" if c1
  proof -
    show "?q \<in> S" using n that heap_ok_block(1) [OF h bp] by (auto simp: c1)
    then show "hsize m bp + hsize m ?q < 2 ^ 32" using merged_size [OF h bp] that by (simp add: c1)
  qed
  show same: "hptr m1 a = hptr m a \<and> hsize m1 a = hsize m a" if "a \<in> insert B S" "a \<noteq> bp" for a
    using hdr_apart [OF ap [OF that]] by (simp add: m1 Let_def)
  have sz: "hsize m1 bp = (if c1 then hsize m bp + hsize m ?q else hsize m bp)"
    using q(2) by (auto simp: m1 c1 Let_def hdr_same)
  show "hptr m1 bp = (if c1 then hptr m ?q else ?q)"
    using hdr_apart(3) [OF ap [OF p]] hdr_apart(3) [OF ap [OF n]] by (simp add: m1 c1 Let_def hdr_same hptr_copied)
  show "hsize m bp \<le> hsize m1 bp" using sz by simp
  show "m1 i = m i" if "i < bp \<or> bp + 16 \<le> i" using that by (simp add: m1 Let_def set_hptr_outside set_hsize_outside)
  show "heap_ok m1 B hi (S - (if c1 then {?q} else {}))"
  proof (cases c1)
    case True
    then have "heap_ok m1 B hi (S - {?q})" using sz same q(1) c1 by (intro heap_ok_merge [OF h bp]) auto
    then show ?thesis using True by simp
  next
    case False
    have "heap_ok m1 B hi S" by (rule heap_ok_cong [OF h]) (use sz same False in \<open>metis\<close>)
    then show ?thesis using False by simp
  qed
qed

lemma link_second:
  assumes h: "heap_ok m1 B hi S" and bp: "bp \<in> S" and p: "p \<in> insert B S" "p \<noteq> bp"
    and m2: "m2 = (if p + 16 * hsize m1 p = bp
         then let m' = set_hsize p (hsize m1 p + hsize m1 bp) m1 in set_hptr p (hptr m' bp) m'
         else set_hptr p bp m1)"
    and c2: "c2 = (p + 16 * hsize m1 p = bp)"
  shows "heap_ok m2 B hi (S - (if c2 then {bp} else {}))"
    and "a \<in> insert B S \<Longrightarrow> a \<noteq> p \<Longrightarrow> hptr m2 a = hptr m1 a \<and> hsize m2 a = hsize m1 a"
    and "hptr m2 p = (if c2 then hptr m1 bp else bp)" and "c2 \<Longrightarrow> p \<in> S \<and> hsize m1 bp \<le> hsize m2 p"
    and "i < p \<or> p + 16 \<le> i \<Longrightarrow> m2 i = m1 i"
proof -
  have ap: "apart16 p a" if "a \<in> insert B S" "a \<noteq> p" for a using heap_ok_apart [OF h p(1) that(1)] that(2) by simp
  have bpp: "bp \<in> insert B S" "bp \<noteq> p" using bp p(2) by auto
  have bp64: "bp < 2 ^ 64" using heap_ok_block(3,4) [OF h bp] by simp
  have q: "p \<in> S" "hsize m1 p + hsize m1 bp < 2 ^ 32" if c2
  proof -
    have "hsize m1 B = 0" "B + 16 \<le> bp" using h heap_ok_block(1) [OF h bp] by (simp_all add: heap_ok_def)
    then show "p \<in> S" using p that by (auto simp: c2)
    then show "hsize m1 p + hsize m1 bp < 2 ^ 32" using merged_size [OF h _ bp] that by (simp add: c2)
  qed
  show same: "hptr m2 a = hptr m1 a \<and> hsize m2 a = hsize m1 a" if "a \<in> insert B S" "a \<noteq> p" for a
    using hdr_apart [OF ap [OF that]] by (simp add: m2 Let_def)
  have sz: "hsize m2 p = (if c2 then hsize m1 p + hsize m1 bp else hsize m1 p)"
    using q(2) by (auto simp: m2 c2 Let_def hdr_same)
  show "hptr m2 p = (if c2 then hptr m1 bp else bp)"
    using hdr_apart(3) [OF ap [OF bpp]] bp64 by (simp add: m2 c2 Let_def hdr_same hptr_copied)
  show "p \<in> S \<and> hsize m1 bp \<le> hsize m2 p" if c2 using sz q(1) that by simp
  show "m2 i = m1 i" if "i < p \<or> p + 16 \<le> i" using that by (simp add: m2 Let_def set_hptr_outside set_hsize_outside)
  show "heap_ok m2 B hi (S - (if c2 then {bp} else {}))"
  proof (cases c2)
    case True
    then have "heap_ok m2 B hi (S - {bp})" using sz same q(1) c2 bp by (intro heap_ok_merge [OF h, of p]) auto
    then show ?thesis using True by simp
  next
    case False
    have "heap_ok m2 B hi S" by (rule heap_ok_cong [OF h]) (use sz same False in \<open>metis\<close>)
    then show ?thesis using False by simp
  qed
qed

text \<open>The ring after a block has been put in behind \<open>p\<close>, merged with its neighbours or not.\<close>

lemma ring_after:
  assumes l: "lseg m (xs @ p # ys) B" and srt: "sorted_wrt (<) (xs @ p # ys)" and bp: "p < bp" "\<forall>y \<in> set ys. bp < y"
    and c1: "c1 \<Longrightarrow> ys \<noteq> []" and ys': "ys' = (if c1 then tl ys else ys)"
    and same: "\<And>a. a \<in> set (xs @ ys') \<Longrightarrow> hptr m2 a = hptr m a"
    and q: "q = (if c1 then hptr m (hptr m p) else hptr m p)"
    and p2: "hptr m2 p = (if c2 then q else bp)" and bp2: "\<not> c2 \<Longrightarrow> hptr m2 bp = q"
  shows "lseg m2 (xs @ p # (if c2 then ys' else bp # ys')) B" and "sorted_wrt (<) (xs @ p # (if c2 then ys' else bp # ys'))"
proof -
  have L: "lseg m xs p" "hptr m p = hd (ys @ [B])" "lseg m ys B" using l by (simp_all add: lseg_append)
  have q': "q = hd (ys' @ [B])" using q L(2,3) c1 ys' by (cases ys) auto
  have Y: "lseg m ys' B" using L(3) ys' by (cases ys) auto
  have "lseg m2 xs p" "lseg m2 ys' B" using L(1) Y lseg_cong [of xs m2 m p] lseg_cong [of ys' m2 m B] same by simp_all
  then show "lseg m2 (xs @ p # (if c2 then ys' else bp # ys')) B"
    using p2 bp2 q' by (auto simp: lseg_append)
  have "set ys' \<subseteq> set ys" using ys' by (cases ys) auto
  moreover have "sorted_wrt (<) ys'" using srt ys' by (cases ys) (auto simp: sorted_wrt_append)
  ultimately show "sorted_wrt (<) (xs @ p # (if c2 then ys' else bp # ys'))"
    using srt bp by (auto simp: sorted_wrt_append subset_iff dest: order.strict_trans)
qed

text \<open>The bytes of a block in use are outside the headers of other blocks.\<close>

lemma in_use_outside:
  assumes h: "heap_ok m B hi S" and a: "a \<in> S" and b: "b \<in> insert B S" "a \<noteq> b" and i: "a \<le> i" "i < a + 16 * hsize m a"
  shows "i < b \<or> b + 16 \<le> i"
proof (cases "b \<in> S")
  case True
  then have "sep m (insert b S)" using h by (simp add: heap_ok_def insert_absorb)
  from outside_block [OF this a b(2) i] show ?thesis .
next
  case False
  then show ?thesis using b(1) heap_ok_block(1) [OF h a] i(1) by auto
qed

lemma same_on_hdr:
  assumes h: "heap_ok m B hi S" and b: "b \<in> insert B S" "b \<notin> X" "X \<subseteq> S" and m': "\<And>i. i < b \<or> b + 16 \<le> i \<Longrightarrow> m' i = m i"
  shows "same_on m m' X"
  unfolding same_on_def
proof (intro ballI allI impI)
  fix a i assume a: "a \<in> X" "a \<le> i \<and> i < a + 16 * hsize m a"
  have "a \<in> S" "a \<noteq> b" using a(1) b(2,3) by auto
  then show "m' i = m i" using in_use_outside [OF h _ b(1), of a i] a(2) m' by simp
qed

text \<open>The blocks of the ring after a block \<open>bp\<close> has been put in, the block behind it merged into it (\<open>c1\<close>) and it merged into the one before (\<open>c2\<close>).\<close>

lemma ring_sets:
  assumes e: "B # hs = xs @ p # ys" "distinct (B # hs)" and X: "set hs \<inter> insert bp X = {}" "bp \<notin> X" "B \<notin> insert bp X"
    and c1: "c1 \<longrightarrow> ys \<noteq> [] \<and> q = hd ys" and ys': "ys' = (if c1 then tl ys else ys)"
    and S1: "S1 = set hs \<union> insert bp X - (if c1 then {q} else {})"
  shows "a \<in> set (xs @ ys') \<Longrightarrow> a \<in> insert B S1 \<and> a \<noteq> p \<and> a \<noteq> bp"
    and "xs @ p # (if c2 then ys' else bp # ys') = B # hs' \<Longrightarrow> B \<notin> set hs' \<Longrightarrow>
      set hs' \<union> X = S1 - (if c2 then {bp} else {}) \<and> set hs' \<inter> X = {}"
proof -
  have d: "distinct (xs @ p # ys)" using e by simp
  have fs: "set (xs @ p # ys) = insert B (set hs)" using arg_cong [OF e(1), of set] by simp
  have B: "B \<notin> set hs" using e(2) by simp
  define U where "U = set (xs @ p # ys')"
  have q: "q \<in> set (xs @ p # ys) \<and> q \<notin> U" if c1 using c1 that d by (cases ys) (auto simp: U_def ys')
  have U: "set (xs @ p # ys) = U \<union> (if c1 then {q} else {})" using c1 by (cases ys) (auto simp: U_def ys')
  have UB: "insert B (set hs) = U \<union> (if c1 then {q} else {})" using U unfolding fs .
  have bpU: "bp \<notin> U" "U \<inter> X = {}" using UB X by auto
  have qX: "q \<notin> insert bp X" if c1 using q [OF that] X unfolding fs by auto
  show "a \<in> insert B S1 \<and> a \<noteq> p \<and> a \<noteq> bp" if a: "a \<in> set (xs @ ys')"
  proof (intro conjI)
    have aU: "a \<in> U" using a by (auto simp: U_def)
    show "a \<noteq> bp" using aU bpU(1) by auto
    show "a \<noteq> p" using a d by (cases ys) (auto simp: ys' split: if_splits)
    show "a \<in> insert B S1" using aU UB q unfolding S1 by (cases c1) auto
  qed
  assume r: "xs @ p # (if c2 then ys' else bp # ys') = B # hs'" and nB: "B \<notin> set hs'"
  have "insert B (set hs') = U \<union> (if c2 then {} else {bp})" using arg_cong [OF r, of set] by (auto simp: U_def split: if_splits)
  then have h: "set hs' = (U - {B}) \<union> (if c2 then {} else {bp})" using nB X(3) by auto
  have "S1 = (U - {B}) \<union> insert bp X" 
  proof (cases c1)
    case True
    have "set hs - {q} = U - {B}" using UB B q [OF True] True by auto
    then show ?thesis unfolding S1 using qX [OF True] True by auto
  next
    case False
    then have "set hs = U - {B}" using UB B by auto
    then show ?thesis unfolding S1 using False by simp
  qed
  then show "set hs' \<union> X = S1 - (if c2 then {bp} else {}) \<and> set hs' \<inter> X = {}" unfolding h using bpU X(2) by auto
qed

lemma free_link_ok:
  assumes h: "heap_ok m B hi (set hs \<union> insert bp X)" and X: "set hs \<inter> insert bp X = {}" "bp \<notin> X"
    and l: "lseg m (B # hs) B" "sorted_wrt (<) (B # hs)"
    and e: "B # hs = xs @ p # ys" "p < bp" "\<forall>y \<in> set ys. bp < y" and m2: "m2 = free_link m bp p"
  obtains hs' where "lseg m2 (B # hs') B" "sorted_wrt (<) (B # hs')" "p \<in> set (B # hs')" "set hs' \<inter> X = {}"
    "heap_ok m2 B hi (set hs' \<union> X)" "same_on m m2 X" "\<exists>c \<in> set hs'. hsize m bp \<le> hsize m2 c"
proof -
  define S where "S = set hs \<union> insert bp X"
  have bpS: "bp \<in> S" by (simp add: S_def)
  have Bbp: "B + 16 \<le> bp" by (rule heap_ok_block(1) [OF h]) simp
  have fs: "set (xs @ p # ys) = insert B (set hs)" using arg_cong [OF e(1), of set] by simp
  have mem: "a \<in> insert B (set hs)" if "a \<in> set xs \<or> a = p \<or> a \<in> set ys" for a unfolding fs [symmetric] using that by auto
  have pS: "p \<in> insert B S" "p \<noteq> bp" using mem [of p] e(2) by (auto simp: S_def)
  have nx: "hptr m p = hd (ys @ [B])" using l(1) unfolding e(1) by (simp add: lseg_append)
  have nS: "hptr m p \<in> insert B S" "hptr m p \<noteq> bp" using nx mem [of "hd ys"] e(3) Bbp by (cases ys; auto simp: S_def)+
  define c1 where "c1 = (bp + 16 * hsize m bp = hptr m p)"
  have c1: "ys \<noteq> [] \<and> hptr m p = hd ys" if c1 using that nx Bbp by (cases ys) (auto simp: c1_def)
  define m1 where "m1 = (if bp + 16 * hsize m bp = hptr m p
                then let m' = set_hsize bp (hsize m bp + hsize m (hptr m p)) m in set_hptr bp (hptr m' (hptr m' p)) m'
                else set_hptr bp (hptr m p) m)"
  note first = link_first [OF h [folded S_def] bpS pS nS m1_def c1_def]
  define S1 where "S1 = S - (if c1 then {hptr m p} else {})"
  have bp1: "bp \<in> S1" using bpS nS(2) by (simp add: S1_def)
  have p1: "p \<in> insert B S1" using pS(1) c1 e(2,3) by (cases ys) (auto simp: S1_def)
  define c2 where "c2 = (p + 16 * hsize m1 p = bp)"
  have m2': "m2 = (if p + 16 * hsize m1 p = bp
         then let m' = set_hsize p (hsize m1 p + hsize m1 bp) m1 in set_hptr p (hptr m' bp) m'
         else set_hptr p bp m1)" by (simp only: m2 free_link_def m1_def Let_def)
  note second = link_second [OF first(1) [folded S1_def] bp1 p1 pS(2) m2' c2_def]
  define ys' where "ys' = (if c1 then tl ys else ys)"
  define r where "r = (if c2 then ys' else bp # ys')"
  have BX: "B \<notin> S" using heap_ok_block(1) [OF h [folded S_def], of B] by auto
  have dst: "distinct (B # hs)" using l(2) unfolding strict_sorted_iff by blast
  have BX': "B \<notin> insert bp X" using BX by (simp add: S_def)
  have c1i: "c1 \<longrightarrow> ys \<noteq> [] \<and> hptr m p = hd ys" using c1 by blast
  note sets = ring_sets [OF e(1) dst X BX' c1i ys'_def S1_def [unfolded S_def]]
  have same: "hptr m2 a = hptr m a" if "a \<in> set (xs @ ys')" for a
    using second(2) [of a] first(2) [of a] sets(1) [OF that] by (auto simp: S1_def split: if_splits)
  have ring: "lseg m2 (xs @ p # r) B" "sorted_wrt (<) (xs @ p # r)"
    unfolding r_def by (rule ring_after [OF l(1) [unfolded e(1)] l(2) [unfolded e(1)] e(2,3) _ ys'_def same refl];
      use c1 second(2,3) first(3) bp1 pS(2) in auto)+
  obtain hs' where hs': "xs @ p # r = B # hs'" using e(1) by (cases xs) auto
  have pX: "p \<notin> X" using mem [of p] X(1) BX by (auto simp: S_def)
  have "B \<notin> set hs'" using ring(2) unfolding hs' by auto
  with sets(2) [OF hs' [unfolded r_def]] have S2: "set hs' \<union> X = S1 - (if c2 then {bp} else {})" and dj: "set hs' \<inter> X = {}" by blast+
  show thesis
  proof (rule that [of hs'])
    show "lseg m2 (B # hs') B" "sorted_wrt (<) (B # hs')" using ring hs' by simp_all
    show "p \<in> set (B # hs')" unfolding hs' [symmetric] by simp
    show "set hs' \<inter> X = {}" by (rule dj)
    show "heap_ok m2 B hi (set hs' \<union> X)" using second(1) unfolding S2 .
    show "same_on m m2 X" unfolding same_on_def
    proof (intro ballI allI impI)
      fix a i assume a: "a \<in> X" "a \<le> i \<and> i < a + 16 * hsize m a"
      have aS: "a \<in> S" "a \<noteq> bp" "a \<noteq> p" using a(1) X(2) pX by (auto simp: S_def)
      have "i < bp \<or> bp + 16 \<le> i" "i < p \<or> p + 16 \<le> i"
        using in_use_outside [OF h [folded S_def] aS(1)] a(2) aS(2,3) bpS pS(1) by auto
      then show "m2 i = m i" using first(5) second(5) by simp
    qed
    show "\<exists>c \<in> set hs'. hsize m bp \<le> hsize m2 c"
    proof (cases c2)
      case True
      have s: "p \<in> S1" "hsize m1 bp \<le> hsize m2 p" using second(4) [OF True] by simp_all
      have "p \<in> set hs' \<union> X" unfolding S2 using s(1) pS(2) by simp
      then have "p \<in> set hs'" using pX by simp
      then show ?thesis using first(4) s(2) by (intro bexI [of _ p]) simp_all
    next
      case False
      then have "bp \<in> set hs'" using S2 bp1 X(2) by auto
      moreover have "hsize m2 bp = hsize m1 bp" using second(2) [of bp] bp1 pS(2) by simp
      ultimately show ?thesis using first(4) by (intro bexI [of _ bp]) simp_all
    qed
  qed
qed

lemma free_ok:
  assumes ok: "um_ok h (insert bp X) hs" and X: "bp \<notin> X"
  obtains h' hs' where "free (bp + 16) h = Some h'" and "um_ok h' X hs'" and "same_on (umem h) (umem h') X"
    and "\<exists>c \<in> set hs'. hsize (umem h) bp \<le> hsize (umem h') c" and "base h' = base h" "brk h' = brk h" "lim h' = lim h"
proof -
  note d = um_okD [OF ok]
  have "base h + 16 \<le> bp" by (rule heap_ok_block(1) [OF d(6)]) simp
  then have Bbp: "base h < bp" by simp
  have "bp \<notin> set hs" using d(5) by auto
  then obtain xs p ys where e: "base h # hs = xs @ p # ys" "p < bp" "\<forall>y \<in> set ys. bp < y"
    by (rule split_at [OF d(3) Bbp]) blast
  have "hd (xs @ p # ys) = base h" using arg_cong [OF e(1), of hd] by simp
  then have s: "free_search (umem h) bp (freep h) = Some p"
    by (rule free_search_finds [OF d(2) [unfolded e(1)] d(3) [unfolded e(1)] _ e(2,3) Bbp d(4) [unfolded e(1)]])
  define m2 where "m2 = free_link (umem h) bp p"
  obtain hs' where r: "lseg m2 (base h # hs') (base h)" "sorted_wrt (<) (base h # hs')" "p \<in> set (base h # hs')" "set hs' \<inter> X = {}"
    "heap_ok m2 (base h) (brk h) (set hs' \<union> X)" "same_on (umem h) m2 X" "\<exists>c \<in> set hs'. hsize (umem h) bp \<le> hsize m2 c"
    by (rule free_link_ok [OF d(6,5) X d(2,3) e m2_def])
  show thesis
  proof (rule that [of "h\<lparr>umem := m2, freep := p\<rparr>" hs'])
    show "free (bp + 16) h = Some (h\<lparr>umem := m2, freep := p\<rparr>)" by (simp add: free_def s m2_def)
    show "um_ok (h\<lparr>umem := m2, freep := p\<rparr>) X hs'" using d r by (simp add: um_ok_def)
  qed (use r in simp_all)
qed

section \<open>Taking a block\<close>

text \<open>A block is cut in two.\<close>

lemma heap_ok_split:
  assumes h: "heap_ok m B hi S" and p: "p \<in> S" and n: "1 \<le> n" "n < hsize m p" and r: "r = p + 16 * (hsize m p - n)"
    and m': "hsize m' p = hsize m p - n" "hsize m' r = n" "\<And>c. c \<in> insert B S \<Longrightarrow> c \<noteq> p \<Longrightarrow> hsize m' c = hsize m c"
  shows "heap_ok m' B hi (insert r S)" and "r \<notin> insert B S"
proof -
  note b = heap_ok_block [OF h]
  have lt: "c + 16 * hsize m c \<le> d" if "c \<in> S" "d \<in> S" "c < d" for c d using h that by (simp add: heap_ok_def sep_def)
  have rp: "p < r" "r + 16 * n = p + 16 * hsize m p" using n r by simp_all
  have out: "c + 16 * hsize m c \<le> p \<or> r + 16 * n \<le> c" if "c \<in> S" "c \<noteq> p" for c
    using lt [OF that(1) p] lt [OF p that(1)] that(2) rp by (cases c p rule: linorder_cases) auto
  have B: "B < r" using b(1) [OF p] rp by simp
  show "r \<notin> insert B S"
  proof
    assume "r \<in> insert B S"
    then have "r \<in> S" using B by auto
    then show False using out [of r] rp b(2) [of r] n by auto
  qed
  have sz: "hsize m' c = (if c = p then hsize m p - n else if c = r then n else hsize m c)" if "c \<in> insert r S" for c
    using m' that by auto
  have pos: "1 \<le> hsize m' c" if "c \<in> insert r S" for c using sz [OF that] b(2) [of c] that n by auto
  have ord: "c + 16 * hsize m' c \<le> d" if cd: "c \<in> insert r S" "d \<in> insert r S" "c < d" for c d
  proof -
    consider "c = p" "d = r" | "c = p" "d \<noteq> r" "d \<in> S" "d \<noteq> p" | "c = r" "d \<in> S" "d \<noteq> p" | "c \<in> S" "c \<noteq> p" "c \<noteq> r" "d = r \<or> d = p" | "c \<in> S" "c \<noteq> p" "c \<noteq> r" "d \<in> S"
      using cd rp(1) by (cases "c = p"; cases "c = r"; cases "d = r"; cases "d = p") auto
    then show ?thesis
    proof cases
      case 1
      then show ?thesis using sz [OF cd(1)] n r by simp
    next
      case 2
      then show ?thesis using sz [OF cd(1)] out [of d] cd(3) rp n by auto
    next
      case 3
      then show ?thesis using sz [OF cd(1)] out [of d] cd(3) rp(1) by auto
    next
      case 4
      then show ?thesis using sz [OF cd(1)] out [of c] cd(3) rp n by auto
    next
      case 5
      then show ?thesis using sz [OF cd(1)] lt [of c d] cd(3) by simp
    qed
  qed
  have "B + 16 \<le> c \<and> c + 16 * hsize m' c \<le> hi" if "c \<in> insert r S" for c
    using sz [OF that] b(1,3) [of c] b(1,3) [OF p] rp n that by auto
  moreover have "hsize m' B = 0" using m'(3) [of B] b(1) [OF p] h by (simp add: heap_ok_def)
  ultimately show "heap_ok m' B hi (insert r S)" using h pos ord by (simp add: heap_ok_def sep_def within_def)
qed

lemma ring_pred:
  assumes l: "lseg m (B # hs) B" and srt: "sorted_wrt (<) (B # hs)" and p: "p \<in> set hs" "prevp \<in> set (B # hs)" "hptr m prevp = p"
  obtains ws vs where "B # hs = ws @ prevp # p # vs"
proof -
  obtain us vs where uv: "hs = us @ p # vs" using p(1) by (metis split_list)
  obtain ws q where wq: "B # us = ws @ [q]" by (metis append_butlast_last_id list.distinct(1))
  have ring: "B # hs = ws @ q # p # vs" using arg_cong [OF wq, of "\<lambda>x. x @ p # vs"] by (simp add: uv)
  have dst: "distinct (B # hs)" using srt unfolding strict_sorted_iff by blast
  have "lseg m (ws @ q # p # vs) B" using l unfolding ring .
  then have "hptr m q = p" by (simp add: lseg_append)
  moreover have "q \<in> set (B # hs)" unfolding ring by simp
  ultimately have "q = prevp" using lseg_inj [of m "B # hs" q prevp] l dst p(2,3) by simp
  then show thesis using that ring by blast
qed

lemma ring_unlink:
  assumes l: "lseg m (B # hs) B" and srt: "sorted_wrt (<) (B # hs)" and r: "B # hs = ws @ q # p # vs"
    and m': "\<And>a. a \<in> set (B # hs) \<Longrightarrow> a \<noteq> q \<Longrightarrow> hptr m' a = hptr m a" "hptr m' q = hptr m p"
  obtains hs' where "lseg m' (B # hs') B" and "sorted_wrt (<) (B # hs')" and "q \<in> set (B # hs')" and "set hs' = set hs - {p}" and "p \<in> set hs"
proof -
  have L: "lseg m (ws @ q # p # vs) B" "sorted_wrt (<) (ws @ q # p # vs)" using l srt unfolding r by simp_all
  have dst: "distinct (ws @ q # p # vs)" using L(2) unfolding strict_sorted_iff by blast
  obtain hs' where hs': "ws @ q # vs = B # hs'" using r by (cases ws) auto
  have st: "set (B # hs') = set (B # hs) - {p}" unfolding r hs' [symmetric] using dst by auto
  have srt': "sorted_wrt (<) (B # hs')" unfolding hs' [symmetric] using L(2) by (auto simp: sorted_wrt_append)
  have pB: "p \<noteq> B" using r dst by (cases ws) auto
  have "hptr m' a = hptr m a" if "a \<in> set (ws @ vs)" for a using that dst by (intro m'(1)) (auto simp: r)
  then have "lseg m' ws q" "lseg m' vs B" using L(1) lseg_cong [of ws m' m q] lseg_cong [of vs m' m B] by (simp_all add: lseg_append)
  moreover have "hptr m p = hd (vs @ [B])" using L(1) by (simp add: lseg_append)
  ultimately have "lseg m' (ws @ q # vs) B" using m'(2) by (simp add: lseg_append)
  then have lg: "lseg m' (B # hs') B" unfolding hs' .
  have "q \<in> set (B # hs')" unfolding hs' [symmetric] by simp
  moreover have "set hs' = set hs - {p}" "p \<in> set hs"
  proof -
    have "B \<notin> set hs'" "B \<notin> set hs" using srt srt' by auto
    then have "set hs' = set (B # hs') - {B}" "set hs = set (B # hs) - {B}" by simp_all
    then show "set hs' = set hs - {p}" unfolding st by blast
    have "p \<in> set (B # hs)" unfolding r by simp
    then show "p \<in> set hs" using pB by simp
  qed
  ultimately show thesis using that lg srt' by blast
qed

lemma malloc_take_exact:
  assumes ok: "um_ok h X hs" and p: "p \<in> set hs" "prevp \<in> set (base h # hs)" "hptr (umem h) prevp = p" and n: "hsize (umem h) p = n"
  obtains h' hs' where "malloc_take n prevp p h = (p + 16, h')" and "um_ok h' (insert p X) hs'" and "p \<notin> X" and "hsize (umem h') p = n"
    and "same_on (umem h) (umem h') X" and "base h' = base h" "brk h' = brk h" "lim h' = lim h"
proof -
  note d = um_okD [OF ok]
  obtain ws vs where r: "base h # hs = ws @ prevp # p # vs" by (rule ring_pred [OF d(2,3) p])
  define m' where "m' = set_hptr prevp (hptr (umem h) p) (umem h)"
  define h' where "h' = h\<lparr>umem := m', freep := prevp\<rparr>"
  have pv: "prevp \<in> insert (base h) (set hs \<union> X)" using p(2) by auto
  have ap: "apart16 prevp a" if "a \<in> insert (base h) (set hs \<union> X)" "a \<noteq> prevp" for a
    using heap_ok_apart [OF d(6) pv that(1)] that(2) by simp
  have sz: "hsize m' a = hsize (umem h) a" if "a \<in> insert (base h) (set hs \<union> X)" for a
    using hdr_apart(2) [OF ap [OF that]] hdr_same(3) by (cases "a = prevp") (auto simp: m'_def)
  have pt: "hptr m' a = hptr (umem h) a" if "a \<in> set (base h # hs)" "a \<noteq> prevp" for a
  proof -
    have "a \<in> insert (base h) (set hs \<union> X)" using that(1) by auto
    from hdr_apart(1) [OF ap [OF this that(2)]] show ?thesis by (simp add: m'_def)
  qed
  have q: "hptr m' prevp = hptr (umem h) p" by (simp add: m'_def hptr_copied)
  obtain hs' where hs': "lseg m' (base h # hs') (base h)" "sorted_wrt (<) (base h # hs')" "prevp \<in> set (base h # hs')" "set hs' = set hs - {p}" "p \<in> set hs"
    by (rule ring_unlink [OF d(2,3) r pt q])
  have pX: "p \<notin> X" using d(5) p(1) by auto
  have st: "set hs' \<union> insert p X = set hs \<union> X" "set hs' \<inter> insert p X = {}" using hs'(4,5) d(5) by auto
  have "um_ok h' (insert p X) hs'"
    using d hs' st heap_ok_cong [OF d(6), of m'] sz unfolding um_ok_def h'_def by simp
  moreover have "prevp \<notin> X" using p(2) d(5) heap_ok_block(1) [OF d(6), of "base h"] by auto
  then have "same_on (umem h) m' X" by (intro same_on_hdr [OF d(6) pv]) (simp_all add: m'_def set_hptr_outside)
  moreover have "malloc_take n prevp p h = (p + 16, h')" by (simp add: malloc_take_def n h'_def m'_def Let_def)
  ultimately show thesis using that [of h' hs'] pX sz [of p] p(1) n by (simp add: h'_def)
qed

lemma malloc_take_split:
  assumes ok: "um_ok h X hs" and p: "p \<in> set hs" "prevp \<in> set (base h # hs)" and n: "1 \<le> n" "n < hsize (umem h) p"
    and r: "r = p + 16 * (hsize (umem h) p - n)"
  obtains h' hs' where "malloc_take n prevp p h = (r + 16, h')" and "um_ok h' (insert r X) hs'" and "r \<notin> X" and "hsize (umem h') r = n"
    and "same_on (umem h) (umem h') X" and "base h' = base h" "brk h' = brk h" "lim h' = lim h"
proof -
  note d = um_okD [OF ok]
  define m where "m = umem h"
  define S where "S = set hs \<union> X"
  have h: "heap_ok m (base h) (brk h) S" using d(6) by (simp add: m_def S_def)
  have pS: "p \<in> S" using p(1) by (simp add: S_def)
  have small: "hsize m p < 2 ^ 32" using heap_ok_block(3,4) [OF h pS] by simp
  define m1 where "m1 = set_hsize p (hsize m p - n) m"
  define m2 where "m2 = set_hsize r n m1"
  have rp: "p + 16 \<le> r" "r + 16 * n = p + 16 * hsize m p" using n r by (simp_all add: m_def)
  have s1: "hsize m1 p = hsize m p - n" using small by (simp add: m1_def hdr_same)
  have ar: "apart16 r a" if a: "a \<in> insert (base h) S" for a
  proof (cases "a = p")
    case True
    then show ?thesis using rp(1) by (simp add: apart16_def)
  next
    case False
    consider "a + 16 \<le> p" | "p + 16 * hsize m p \<le> a" | "a \<in> S" "a < p"
      using heap_ok_block(1) [OF h pS] a False h pS unfolding heap_ok_def sep_def by (metis insert_iff linorder_neqE_nat)
    then show ?thesis
    proof cases
      case 3
      then have "a + 16 * hsize m a \<le> p" using h pS by (simp add: heap_ok_def sep_def)
      then show ?thesis using heap_ok_block(2) [OF h 3(1)] rp(1) by (simp add: apart16_def)
    qed (use rp n(1) in \<open>auto simp: apart16_def\<close>)
  qed
  have ap: "apart16 p a" if "a \<in> insert (base h) S" "a \<noteq> p" for a using heap_ok_apart [OF h _ that(1), of p] pS that(2) by simp
  have hd2: "hptr m2 a = hptr m a" "a \<noteq> p \<Longrightarrow> hsize m2 a = hsize m a" if "a \<in> insert (base h) S" for a
    using hdr_apart(3,4) [OF ar [OF that]] hdr_apart(3,4) [OF ap [OF that]] hdr_same(4) by (cases "a = p"; simp add: m2_def m1_def)+
  have s2: "hsize m2 p = hsize m p - n" "hsize m2 r = n"
    using hdr_apart(4) [OF ar [of p]] pS s1 small n by (simp_all add: m2_def hdr_same m_def)
  have sp: "heap_ok m2 (base h) (brk h) (insert r S)" "r \<notin> insert (base h) S"
    by (rule heap_ok_split [OF h pS n(1) n(2) [folded m_def] r [folded m_def] s2 hd2(2)]; simp)+
  define h' where "h' = h\<lparr>umem := m2, freep := prevp\<rparr>"
  have "um_ok h' (insert r X) hs"
    using d p(2) sp lseg_cong [of "base h # hs" m2 m "base h"] hd2(1) unfolding um_ok_def h'_def by (auto simp: S_def m_def)
  moreover have "same_on m m1 X"
    by (rule same_on_hdr [OF h, of p]) (use pS d(5) p(1) in \<open>auto simp: m1_def set_hsize_outside S_def\<close>)
  moreover have "same_on m1 m2 X"
    unfolding same_on_def
  proof (intro ballI allI impI)
    fix a i assume a: "a \<in> X" "a \<le> i \<and> i < a + 16 * hsize m1 a"
    have aS: "a \<in> S" "a \<noteq> p" using a(1) d(5) p(1) by (auto simp: S_def)
    have "hsize m1 a = hsize m a" using hdr_apart(4) [OF ap [of a]] aS by (simp add: m1_def)
    moreover have "a + 16 * hsize m a \<le> p \<or> p + 16 * hsize m p \<le> a"
      using h aS pS unfolding heap_ok_def sep_def by (metis linorder_neqE_nat)
    ultimately show "m2 i = m1 i" using a(2) rp n(1) by (auto simp: m2_def intro!: set_hsize_outside)
  qed
  ultimately have "same_on m m2 X"
    by (rule_tac same_on_trans [of m m1 X m2]) (use hdr_apart(4) [OF ap] d(5) p(1) in \<open>auto simp: m1_def S_def\<close>)
  moreover have "malloc_take n prevp p h = (r + 16, h')"
    using n(2) s1 by (simp add: malloc_take_def Let_def m_def [symmetric] m1_def [symmetric] h'_def m2_def r)
  ultimately show thesis using that [of h' hs] \<open>um_ok h' (insert r X) hs\<close> sp(2) s2(2) by (simp add: h'_def S_def m_def)
qed

lemma malloc_take_ok:
  assumes "um_ok h X hs" and "p \<in> set hs" "prevp \<in> set (base h # hs)" "hptr (umem h) prevp = p" and "1 \<le> n" "n \<le> hsize (umem h) p"
  obtains r h' hs' where "malloc_take n prevp p h = (r + 16, h')" and "um_ok h' (insert r X) hs'" and "r \<notin> X" and "hsize (umem h') r = n"
    and "same_on (umem h) (umem h') X" and "base h' = base h" "brk h' = brk h" "lim h' = lim h"
proof (cases "hsize (umem h) p = n")
  case True
  show thesis by (rule malloc_take_exact [OF assms(1-4) True]) (rule that)
next
  case False
  then have "n < hsize (umem h) p" using assms(6) by simp
  then show thesis by (rule malloc_take_split [OF assms(1-3,5) _ refl]) (rule that)
qed

section \<open>Looking for a block\<close>

lemma malloc_loop_walk:
  "lseg (umem h) (q # as) p \<Longrightarrow> \<forall>a \<in> set as. hsize (umem h) a < n \<and> a \<noteq> freep h \<Longrightarrow>
   malloc_loop n q (hd (as @ [p])) h = malloc_loop n (last (q # as)) p h \<and> hptr (umem h) (last (q # as)) = p"
proof (induction as arbitrary: q)
  case (Cons a as)
  have "hptr (umem h) a = hd (as @ [p])" using Cons.prems(1) by (cases as) auto
  then have "malloc_loop n q a h = malloc_loop n a (hd (as @ [p])) h" using Cons.prems(2) by (subst malloc_loop.simps) simp
  then show ?case using Cons by simp
qed simp

text \<open>Once round the ring, from the block after \<^verbatim>\<open>freep\<close> to \<^verbatim>\<open>freep\<close> itself.\<close>

lemma ring_round:
  assumes ok: "um_ok h X hs"
  obtains L where "set (freep h # L) = set (base h # hs)" and "distinct (freep h # L)" and "lseg (umem h) (freep h # L) (freep h)"
proof -
  note d = um_okD [OF ok]
  obtain us vs where r: "base h # hs = us @ freep h # vs" using d(4) by (metis split_list)
  have "distinct (us @ freep h # vs)" using d(3) unfolding r strict_sorted_iff by blast
  then have 1: "distinct (freep h # vs @ us)" by auto
  have "hd (us @ freep h # vs) = base h" using arg_cong [OF r, of hd] by simp
  then have 2: "lseg (umem h) (freep h # vs @ us) (freep h)"
    using lseg_rotate [of "umem h" us "freep h" vs] d(2) [unfolded r] by simp
  have 3: "set (freep h # vs @ us) = set (base h # hs)" unfolding r by auto
  show thesis using that [OF 3 1 2] .
qed

lemma malloc_finds:
  assumes ok: "um_ok h X hs" and c: "c \<in> set hs" "n \<le> hsize (umem h) c" and n: "1 \<le> n"
  obtains prevp p where "malloc_loop n (freep h) (hptr (umem h) (freep h)) h = Some (malloc_take n prevp p h)"
    and "p \<in> set hs" and "prevp \<in> set (base h # hs)" and "hptr (umem h) prevp = p" and "n \<le> hsize (umem h) p"
proof -
  note d = um_okD [OF ok]
  let ?f = "freep h"
  obtain L where L: "set (?f # L) = set (base h # hs)" "distinct (?f # L)" "lseg (umem h) (?f # L) ?f" by (rule ring_round [OF ok])
  have "c \<in> set (L @ [?f])" using L(1) c(1) by auto
  then have "\<exists>x \<in> set (L @ [?f]). n \<le> hsize (umem h) x" using c(2) by blast
  then obtain as p bs where s: "L @ [?f] = as @ p # bs" "n \<le> hsize (umem h) p" "\<forall>a \<in> set as. \<not> n \<le> hsize (umem h) a"
    by (rule split_list_first_propE)
  have as: "lseg (umem h) (?f # as) p \<and> ?f \<notin> set as \<and> set (?f # as) \<subseteq> set (base h # hs)"
  proof (cases bs rule: rev_cases)
    case Nil
    then have "as = L" "p = ?f" using s(1) by auto
    then show ?thesis using L by auto
  next
    case (snoc bs' x)
    then have e: "L = as @ p # bs'" using s(1) by auto
    then have "lseg (umem h) (?f # as) p" using L(3) lseg_append [of "umem h" "?f # as" "p # bs'" ?f] by simp
    then show ?thesis using L(1,2) e by auto
  qed
  have h0: "hptr (umem h) ?f = hd (as @ [p])"
  proof -
    have "hptr (umem h) ?f = hd (L @ [?f])" using L(3) by simp
    then show ?thesis unfolding s(1) by (cases as) auto
  qed
  have w: "malloc_loop n ?f (hd (as @ [p])) h = malloc_loop n (last (?f # as)) p h \<and> hptr (umem h) (last (?f # as)) = p"
    by (rule malloc_loop_walk [OF conjunct1 [OF as]]) (use s(3) as in auto)
  have "p \<in> set (base h # hs)" unfolding L(1) [symmetric] using arg_cong [OF s(1), of set] by auto
  moreover have "p \<noteq> base h" using s(2) n d(6) by (auto simp: heap_ok_def)
  ultimately have p: "p \<in> set hs" by simp
  have "last (?f # as) \<in> set (base h # hs)" using as last_in_set [of "?f # as"] by blast
  then show thesis using that [of "last (?f # as)" p] w h0 p s(2) by (subst (asm) (2) malloc_loop.simps) simp
qed

lemma malloc_none:
  assumes ok: "um_ok h X hs" and c: "\<And>c. c \<in> set hs \<Longrightarrow> hsize (umem h) c < n" and n: "1 \<le> n"
  shows "malloc_loop n (freep h) (hptr (umem h) (freep h)) h =
    Option.bind (morecore n h) (\<lambda>(p', h'). if p' = 0 then Some (0, h') else malloc_loop n p' (hptr (umem h') p') h')"
proof -
  note d = um_okD [OF ok]
  let ?f = "freep h"
  obtain L where L: "set (?f # L) = set (base h # hs)" "distinct (?f # L)" "lseg (umem h) (?f # L) ?f" by (rule ring_round [OF ok])
  have sm: "hsize (umem h) a < n" if "a \<in> set (?f # L)" for a using that c [of a] n d(6) unfolding L(1) by (auto simp: heap_ok_def)
  have "malloc_loop n ?f (hd (L @ [?f])) h = malloc_loop n (last (?f # L)) ?f h"
  proof (rule malloc_loop_walk [OF L(3), THEN conjunct1])
    show "\<forall>a \<in> set L. hsize (umem h) a < n \<and> a \<noteq> ?f" using sm L(2) by auto
  qed
  moreover have "hptr (umem h) ?f = hd (L @ [?f])" using L(3) by simp
  moreover have "malloc_loop n (last (?f # L)) ?f h = Option.bind (morecore n h) (\<lambda>(p', h'). if p' = 0 then Some (0, h') else malloc_loop n p' (hptr (umem h') p') h')"
    using sm [of ?f] by (subst malloc_loop.simps) simp
  ultimately show ?thesis by simp
qed

section \<open>Growing the heap\<close>

text \<open>The new block is in use until it is freed.\<close>

lemma um_ok_grow:
  assumes ok: "um_ok h X hs" and n: "1 \<le> n" "16 * n < 2 ^ 31" "brk h + 16 * n \<le> lim h"
    and h': "h' = h\<lparr>brk := brk h + 16 * n, umem := set_hsize (brk h) n (umem h)\<rparr>"
  shows "um_ok h' (insert (brk h) X) hs" and "brk h \<notin> X" and "same_on (umem h) (umem h') X" and "hsize (umem h') (brk h) = n"
proof -
  note d = um_okD [OF ok]
  let ?m = "set_hsize (brk h) n (umem h)" and ?S = "set hs \<union> X"
  note b = heap_ok_block [OF d(6)]
  have B: "base h + 16 \<le> brk h" using d(6) by (simp add: heap_ok_def)
  have below: "a + 16 \<le> brk h" if "a \<in> insert (base h) ?S" for a
  proof (cases "a = base h")
    case False
    then have "a \<in> ?S" using that by simp
    then show ?thesis using b(2,3) [of a] by linarith
  qed (simp add: B)
  have sz: "hsize ?m a = hsize (umem h) a" "hptr ?m a = hptr (umem h) a" if "a \<in> insert (base h) ?S" for a
    using below [OF that] by (simp_all add: hdr_apart apart16_def)
  have new: "brk h \<notin> insert (base h) ?S" using below by force
  have n32: "n < 2 ^ 32" using n(2) by simp
  have szn: "hsize ?m (brk h) = n" using hdr_same(2) [OF n32] .
  show "brk h \<notin> X" using new by simp
  show "hsize (umem h') (brk h) = n" using szn by (simp add: h')
  have "same_on (umem h) ?m X" unfolding same_on_def
  proof (intro ballI allI impI)
    fix a i assume a: "a \<in> X" "a \<le> i \<and> i < a + 16 * hsize (umem h) a"
    then show "?m i = umem h i" using b(3) [of a] by (simp add: set_hsize_outside)
  qed
  then show "same_on (umem h) (umem h') X" by (simp add: h')
  have sepo: "sep (umem h) ?S" "within (umem h) (base h + 16) (brk h) ?S" using d(6) by (simp_all add: heap_ok_def)
  have "sep ?m (insert (brk h) ?S)" unfolding sep_def
  proof (intro conjI ballI impI)
    fix a assume "a \<in> insert (brk h) ?S"
    then show "1 \<le> hsize ?m a" using sz(1) b(2) szn n(1) by auto
  next
    fix a c assume ac: "a \<in> insert (brk h) ?S" "c \<in> insert (brk h) ?S" "a < c"
    have a: "a \<in> ?S" using ac below [of c] by auto
    have "a + 16 * hsize (umem h) a \<le> c"
    proof (cases "c = brk h")
      case False
      then show ?thesis using ac(2,3) a sepo(1) by (simp add: sep_def)
    qed (use b(3) [OF a] in simp)
    then show "a + 16 * hsize ?m a \<le> c" using sz(1) [of a] a by simp
  qed
  moreover have "within ?m (base h + 16) (brk h + 16 * n) (insert (brk h) ?S)" unfolding within_def
  proof
    fix a assume "a \<in> insert (brk h) ?S"
    then show "base h + 16 \<le> a \<and> a + 16 * hsize ?m a \<le> brk h + 16 * n" using sz(1) [of a] szn b(1,3) [of a] B by auto
  qed
  ultimately have "heap_ok ?m (base h) (brk h + 16 * n) (set hs \<union> insert (brk h) X)"
    using sz(1) [of "base h"] d(6,8) B n(3) by (simp add: heap_ok_def)
  moreover have "lseg ?m (base h # hs) (base h)" using d(2) lseg_cong [of "base h # hs" ?m "umem h" "base h"] sz(2) by auto
  ultimately show "um_ok h' (insert (brk h) X) hs" using d n(3) new by (simp add: um_ok_def h')
qed

lemma usbrk_grow: "16 * n < 2 ^ 31 \<Longrightarrow> usbrk (sint (of_nat (n * 16) :: uint)) h =
  (if brk h + 16 * n \<le> lim h then (int (brk h), h\<lparr>brk := brk h + 16 * n\<rparr>) else (-1, h))"
proof -
  assume n: "16 * n < 2 ^ 31"
  have "sint (of_nat (n * 16) :: uint) = signed_take_bit 31 (int (n * 16))" unfolding signed_of_nat by simp
  also have "\<dots> = int (n * 16)" using n by (simp add: signed_take_bit_int_eq_self)
  finally have s: "sint (of_nat (n * 16) :: uint) = int (n * 16)" .
  show ?thesis unfolding s usbrk_def by (auto simp: mult.commute)
qed

lemma morecore_ok:
  assumes ok: "um_ok h X hs" and n: "1 \<le> n" "16 * n < 2 ^ 31"
  obtains (full) "morecore n h = Some (0, h)"
  | (more) h' hs' where "morecore n h = Some (freep h', h')" and "freep h' \<noteq> 0" and "um_ok h' X hs'" and "same_on (umem h) (umem h') X"
    and "\<exists>c \<in> set hs'. n \<le> hsize (umem h') c" and "base h' = base h" "brk h \<le> brk h'" "lim h' = lim h"
proof -
  define nu where "nu = (if n < 4096 then 4096 else n)"
  have nu: "1 \<le> nu" "16 * nu < 2 ^ 31" "n \<le> nu" using n by (simp_all add: nu_def)
  note s = usbrk_grow [OF nu(2), of h]
  show thesis
  proof (cases "brk h + 16 * nu \<le> lim h")
    case False
    then show thesis using full s by (simp add: morecore_def nu_def [symmetric])
  next
    case True
    define h2 where "h2 = h\<lparr>brk := brk h + 16 * nu, umem := set_hsize (brk h) nu (umem h)\<rparr>"
    note g = um_ok_grow [OF ok nu(1,2) True h2_def]
    obtain h3 hs' where f: "free (brk h + 16) h2 = Some h3" "um_ok h3 X hs'" "same_on (umem h2) (umem h3) X"
      "\<exists>c \<in> set hs'. hsize (umem h2) (brk h) \<le> hsize (umem h3) c" "base h3 = base h2" "brk h3 = brk h2" "lim h3 = lim h2"
      by (rule free_ok [OF g(1,2)])
    have "same_on (umem h) (umem h3) X"
      by (rule same_on_trans [OF g(3) f(3)]) (rule same_on_hsize [OF g(3)], use um_okD(6) [OF ok] in \<open>auto simp: heap_ok_def sep_def\<close>)
    moreover have "\<exists>c \<in> set hs'. n \<le> hsize (umem h3) c" using f(4) nu(3) unfolding g(4) by (meson order_trans)
    moreover have "morecore n h = Some (freep h3, h3)"
      using True s f(1) by (simp add: morecore_def nu_def [symmetric] h2_def)
    moreover have "freep h3 \<noteq> 0"
      using um_okD(1,3,4) [OF f(2)] by auto
    ultimately show thesis using more [of h3 hs'] f(2,5-7) by (simp add: h2_def)
  qed
qed

section \<open>Allocating\<close>

lemma malloc_loop_ok:
  assumes ok: "um_ok h X hs" and n: "1 \<le> n" "16 * n < 2 ^ 31"
  obtains (null) h' hs' where "malloc_loop n (freep h) (hptr (umem h) (freep h)) h = Some (0, h')" and "um_ok h' X hs'"
    and "same_on (umem h) (umem h') X" and "base h' = base h" "lim h' = lim h"
  | (block) r h' hs' where "malloc_loop n (freep h) (hptr (umem h) (freep h)) h = Some (r + 16, h')" and "um_ok h' (insert r X) hs'"
    and "r \<notin> X" and "hsize (umem h') r = n" and "same_on (umem h) (umem h') X" and "base h' = base h" "lim h' = lim h"
proof (cases "\<exists>c \<in> set hs. n \<le> hsize (umem h) c")
  case True
  then obtain c where c: "c \<in> set hs" "n \<le> hsize (umem h) c" by blast
  obtain prevp p where p: "malloc_loop n (freep h) (hptr (umem h) (freep h)) h = Some (malloc_take n prevp p h)"
    "p \<in> set hs" "prevp \<in> set (base h # hs)" "hptr (umem h) prevp = p" "n \<le> hsize (umem h) p" by (rule malloc_finds [OF ok c n(1)])
  show thesis by (rule malloc_take_ok [OF ok p(2-4) n(1) p(5)]) (use block p(1) in simp)
next
  case False
  then have e: "malloc_loop n (freep h) (hptr (umem h) (freep h)) h =
      Option.bind (morecore n h) (\<lambda>(p', h'). if p' = 0 then Some (0, h') else malloc_loop n p' (hptr (umem h') p') h')"
    by (intro malloc_none [OF ok _ n(1)]) auto
  show thesis
  proof (rule morecore_ok [OF ok n])
    assume "morecore n h = Some (0, h)"
    then show thesis using null [of h hs] ok e by (simp add: same_on_def)
  next
    fix h1 hs1
    assume m: "morecore n h = Some (freep h1, h1)" "freep h1 \<noteq> 0" "um_ok h1 X hs1" "same_on (umem h) (umem h1) X"
      "\<exists>c \<in> set hs1. n \<le> hsize (umem h1) c" "base h1 = base h" "lim h1 = lim h"
    then obtain c where c: "c \<in> set hs1" "n \<le> hsize (umem h1) c" by blast
    obtain prevp p where p: "malloc_loop n (freep h1) (hptr (umem h1) (freep h1)) h1 = Some (malloc_take n prevp p h1)"
      "p \<in> set hs1" "prevp \<in> set (base h1 # hs1)" "hptr (umem h1) prevp = p" "n \<le> hsize (umem h1) p" by (rule malloc_finds [OF m(3) c n(1)])
    obtain r h' hs' where t: "malloc_take n prevp p h1 = (r + 16, h')" "um_ok h' (insert r X) hs'" "r \<notin> X" "hsize (umem h') r = n"
      "same_on (umem h1) (umem h') X" "base h' = base h1" "lim h' = lim h1" by (rule malloc_take_ok [OF m(3) p(2-4) n(1) p(5)])
    have "same_on (umem h) (umem h') X"
      by (rule same_on_trans [OF m(4) t(5)]) (rule same_on_hsize [OF m(4)], use um_okD(6) [OF ok] in \<open>auto simp: heap_ok_def sep_def\<close>)
    then show thesis using block [of r h' hs'] e m(1,2,6,7) p(1) t by simp
  qed
qed

text \<open>
  Before the first call \<^verbatim>\<open>freep\<close> is null, the header \<^verbatim>\<open>base\<close> has any contents, and no block is in use; \<open>heap_inv h X\<close> covers
  this state as well.
\<close>

definition heap_new :: "heap \<Rightarrow> bool" where
  "heap_new h \<longleftrightarrow> freep h = 0 \<and> 0 < base h \<and> base h + 16 \<le> brk h \<and> brk h \<le> lim h \<and> lim h < 2 ^ 31"

definition heap_inv :: "heap \<Rightarrow> nat set \<Rightarrow> bool" where
  "heap_inv h X \<longleftrightarrow> (heap_new h \<and> X = {}) \<or> (\<exists>hs. um_ok h X hs)"

lemma malloc_start_ok:
  assumes "heap_inv h X"
  obtains hs where "um_ok (malloc_start h) X hs" and "same_on (umem h) (umem (malloc_start h)) X"
proof (cases "heap_new h \<and> X = {}")
  case True
  then have b: "base h < 2 ^ 64" by (simp add: heap_new_def)
  have "um_ok (malloc_start h) X []"
    using True hdr_same(1) [OF b, of "base h" "umem h"] by (simp add: um_ok_def malloc_start_def heap_new_def hdr_same heap_ok_def sep_def within_def)
  then show thesis using that True by (simp add: same_on_def)
next
  case False
  then obtain hs where hs: "um_ok h X hs" using assms by (auto simp: heap_inv_def)
  then have "freep h \<noteq> 0" using um_okD(1,3,4) [OF hs] by auto
  then show thesis using that [of hs] hs by (simp add: malloc_start_def same_on_def)
qed

lemma malloc_eq: "malloc nbytes h = malloc_loop (nunits_of (unat nbytes)) (freep (malloc_start h)) (hptr (umem (malloc_start h)) (freep (malloc_start h))) (malloc_start h)"
  by (simp add: malloc_def Let_def)

lemma nunits_of_bounds: "nb \<le> 16 * (nunits_of nb - 1)" "16 * nunits_of nb \<le> nb + 31" "1 \<le> nunits_of nb"
proof -
  have "nb + 15 = 16 * ((nb + 15) div 16) + (nb + 15) mod 16" by simp
  moreover have "(nb + 15) mod 16 < 16" by simp
  ultimately show "nb \<le> 16 * (nunits_of nb - 1)" "16 * nunits_of nb \<le> nb + 31" by (simp_all add: nunits_of_def)
qed (simp add: nunits_of_def)

lemma malloc_ok:
  assumes ok: "heap_inv h X" and n: "unat nbytes + 31 < 2 ^ 31"
  obtains (null) h' where "malloc nbytes h = Some (0, h')" and "heap_inv h' X" and "same_on (umem h) (umem h') X" and "base h' = base h" "lim h' = lim h"
  | (block) r h' where "malloc nbytes h = Some (r + 16, h')" and "heap_inv h' (insert r X)" and "r \<notin> X" and "same_on (umem h) (umem h') X"
    and "hsize (umem h') r = nunits_of (unat nbytes)" and "base h' = base h" "lim h' = lim h"
proof -
  let ?n = "nunits_of (unat nbytes)" and ?h = "malloc_start h"
  obtain hs where hs: "um_ok ?h X hs" "same_on (umem h) (umem ?h) X" by (rule malloc_start_ok [OF ok])
  have n': "1 \<le> ?n" "16 * ?n < 2 ^ 31" using nunits_of_bounds(2,3) [of "unat nbytes"] n by simp_all
  have "1 \<le> hsize (umem h) a" if "a \<in> X" for a
    using ok that um_okD(6) [of h X] by (auto simp: heap_inv_def heap_ok_def sep_def)
  then have tr: "same_on (umem h) m X" if "same_on (umem ?h) m X" for m
    by (intro same_on_trans [OF hs(2) that] same_on_hsize [OF hs(2)])
  have bl: "base ?h = base h" "lim ?h = lim h" by (simp_all add: malloc_start_def)
  show thesis
  proof (rule malloc_loop_ok [OF hs(1) n'])
    fix h' hs'
    assume "malloc_loop ?n (freep ?h) (hptr (umem ?h) (freep ?h)) ?h = Some (0, h')" "um_ok h' X hs'" "same_on (umem ?h) (umem h') X"
      "base h' = base ?h" "lim h' = lim ?h"
    then show thesis using null [of h'] tr bl by (auto simp: malloc_eq heap_inv_def)
  next
    fix r h' hs'
    assume "malloc_loop ?n (freep ?h) (hptr (umem ?h) (freep ?h)) ?h = Some (r + 16, h')" "um_ok h' (insert r X) hs'" "r \<notin> X" "hsize (umem h') r = ?n"
      "same_on (umem ?h) (umem h') X" "base h' = base ?h" "lim h' = lim ?h"
    then show thesis using block [of r h'] tr bl by (auto simp: malloc_eq heap_inv_def)
  qed
qed

section \<open>The first allocation, and one that is too large\<close>

lemma free_first:
  assumes m: "hptr m B = B" "hsize m B = 0" and B: "B + 16 \<le> K" "K < 2 ^ 64"
  shows "free_search m K B = Some B" "hptr (free_link m K B) B = K" "hsize (free_link m K B) K = hsize m K" "hptr (free_link m K B) K = B"
proof -
  have ap: "apart16 B K" "apart16 K B" using B(1) by (simp_all add: apart16_def)
  show "free_search m K B = Some B" using m(1) B(1) by (subst free_search.simps) simp
  have l: "free_link m K B = set_hptr B K (set_hptr K B m)"
    using m B(1) by (simp add: free_link_def Let_def hdr_apart [OF ap(2)])
  have "B < 2 ^ 64" using B by simp
  then show "hptr (free_link m K B) B = K" "hsize (free_link m K B) K = hsize m K" "hptr (free_link m K B) K = B"
    unfolding l hdr_apart [OF ap(1)] using hdr_same(1) [OF B(2)] hdr_same(1) [of B K m] hdr_same(3) by simp_all
qed

lemma malloc_first:
  assumes h: "freep h = 0" "base h + 16 \<le> brk h" "brk h < 2 ^ 31" "0 < base h" and n: "n = nunits_of (unat nbytes)" "nu = (if n < 4096 then 4096 else n)"
    and s: "usbrk (sint (of_nat (nu * 16) :: uint)) (malloc_start h) = (int (brk h), (malloc_start h)\<lparr>brk := b\<rparr>)"
  shows "\<exists>h'. malloc nbytes h = Some (brk h + 16 * (nu - n) + 16, h') \<and> brk h' = b"
proof -
  define B K where "B = base h" and "K = brk h"
  define m0 where "m0 = set_hsize B 0 (set_hptr B B (umem h))"
  define m1 where "m1 = set_hsize K nu m0"
  have BK: "B + 16 \<le> K" "K < 2 ^ 64" "B < 2 ^ 64" using h by (simp_all add: B_def K_def)
  have ap: "apart16 K B" using BK(1) by (simp add: apart16_def)
  have "unat nbytes < 2 ^ LENGTH(32)" by (rule unsigned_less)
  then have "n < 2 ^ 32" using nunits_of_bounds(2) [of "unat nbytes"] by (simp add: n(1))
  then have nu: "nu < 2 ^ 32" "n \<le> nu" using n(2) by simp_all
  have m0: "hptr m0 B = B" "hsize m0 B = 0" using hdr_same(1) [OF BK(3), of B] by (simp_all add: m0_def hdr_same)
  have m1: "hptr m1 B = B" "hsize m1 B = 0" "hsize m1 K = nu" using m0 hdr_same(2) [OF nu(1)] by (simp_all add: m1_def hdr_apart [OF ap])
  note f = free_first [OF m1(1,2) BK(1,2)]
  have st: "malloc_start h = h\<lparr>umem := m0, freep := B\<rparr>" using h(1) by (simp add: malloc_start_def m0_def B_def)
  define h3 where "h3 = (malloc_start h)\<lparr>brk := b, umem := free_link m1 K B, freep := B\<rparr>"
  have mc: "morecore n (malloc_start h) = Some (B, h3)"
    using s f(1) by (simp add: morecore_def n(2) [symmetric] K_def [symmetric] free_def st h3_def m1_def [symmetric] Let_def)
  have "1 \<le> n" unfolding n(1) by (rule nunits_of_bounds(3))
  then have "malloc_loop n B B (malloc_start h) = malloc_loop n B K h3"
    using mc m0 h f(2) by (subst malloc_loop.simps) (auto simp: st h3_def B_def)
  also have "\<dots> = Some (malloc_take n B K h3)"
    using f(3) m1(3) nu(2) by (subst malloc_loop.simps) (simp add: h3_def)
  finally have "malloc nbytes h = Some (malloc_take n B K h3)"
    using m0(1) by (simp add: malloc_eq n(1) [symmetric] st)
  moreover have "hsize (set_hsize K (nu - n) (free_link m1 K B)) K = nu - n"
    using nu(1) by (intro hdr_same(2)) simp
  ultimately show ?thesis using f(3) m1(3) by (simp add: malloc_take_def h3_def Let_def K_def)
qed

text \<open>
  The size is not limited to what \<^verbatim>\<open>sbrk\<close> can be asked for: its argument is an \<^verbatim>\<open>int\<close>.  For the largest size the heap grows by one header,
  and the pointer to the memory behind it is returned as if the block were there.
\<close>

theorem malloc_wraps:
  assumes h: "heap_new h" "brk h + 16 \<le> lim h"
  shows "\<exists>h'. malloc (- 1) h = Some (brk h + 16, h') \<and> brk h' = brk h + 16"
proof -
  have n: "nunits_of (unat (- 1 :: uint)) = 2 ^ 28 + 1" by (simp add: nunits_of_def unsigned_minus_1_eq_mask mask_eq_exp_minus_1)
  have "sint (of_nat ((2 ^ 28 + 1) * 16) :: uint) = 16" by simp
  then have "usbrk (sint (of_nat ((2 ^ 28 + 1) * 16) :: uint)) (malloc_start h) = (int (brk h), (malloc_start h)\<lparr>brk := brk h + 16\<rparr>)"
    using h by (simp add: usbrk_def malloc_start_def del: of_nat_mult of_nat_numeral)
  then show ?thesis
    using malloc_first [OF _ _ _ _ n [symmetric], of h "2 ^ 28 + 1" "brk h + 16"] h by (simp add: heap_new_def)
qed

section \<open>A program that allocates\<close>

text \<open>
  A program that uses the allocator: its blocks, each with the number of bytes asked for.  It calls \<^verbatim>\<open>malloc\<close> and \<^verbatim>\<open>free\<close>, the latter on
  blocks it has, and writes within its blocks; the limit of the heap moves, as other processes use memory.
\<close>

record client =
  heap_of :: heap
  blocks :: "nat \<rightharpoonup> nat"

definition small :: "uint \<Rightarrow> bool" where
  "small nbytes \<longleftrightarrow> unat nbytes + 31 < 2 ^ 31"

inductive client_step :: "client \<Rightarrow> client \<Rightarrow> bool" where
  got: "small n \<Longrightarrow> malloc n (heap_of c) = Some (p, h) \<Longrightarrow> p \<noteq> 0 \<Longrightarrow> client_step c \<lparr>heap_of = h, blocks = (blocks c)(p \<mapsto> unat n)\<rparr>"
| no_memory: "small n \<Longrightarrow> malloc n (heap_of c) = Some (0, h) \<Longrightarrow> client_step c (c\<lparr>heap_of := h\<rparr>)"
| freed: "blocks c p = Some k \<Longrightarrow> free p (heap_of c) = Some h \<Longrightarrow> client_step c \<lparr>heap_of = h, blocks = (blocks c)(p := None)\<rparr>"
| writes: "blocks c p = Some k \<Longrightarrow> p \<le> i \<Longrightarrow> i < p + k \<Longrightarrow>
    client_step c (c\<lparr>heap_of := (heap_of c)\<lparr>umem := (umem (heap_of c))(i := v)\<rparr>\<rparr>)"
| limit: "brk (heap_of c) \<le> l \<Longrightarrow> l < 2 ^ 31 \<Longrightarrow> client_step c (c\<lparr>heap_of := (heap_of c)\<lparr>lim := l\<rparr>\<rparr>)"

definition client_start :: "client \<Rightarrow> bool" where
  "client_start c \<longleftrightarrow> heap_new (heap_of c) \<and> blocks c = Map.empty"

definition in_use :: "client \<Rightarrow> nat set" where
  "in_use c = (\<lambda>p. p - 16) ` dom (blocks c)"

definition client_inv :: "client \<Rightarrow> bool" where
  "client_inv c \<longleftrightarrow> heap_inv (heap_of c) (in_use c) \<and>
     (\<forall>p k. blocks c p = Some k \<longrightarrow> 16 \<le> p \<and> k \<le> 16 * (hsize (umem (heap_of c)) (p - 16) - 1))"

lemma heap_inv_sep:
  assumes "heap_inv h X"
  shows "sep (umem h) X" "within (umem h) (base h + 16) (brk h) X"
  using assms um_okD(6) [of h X] unfolding heap_inv_def heap_ok_def sep_def within_def by auto

lemma um_ok_writes:
  assumes ok: "um_ok h X hs" and a: "a \<in> X" and i: "a + 16 \<le> i" "i < a + 16 * hsize (umem h) a"
  shows "um_ok (h\<lparr>umem := (umem h)(i := v)\<rparr>) X hs" and "\<And>c. c \<in> X \<Longrightarrow> hsize ((umem h)(i := v)) c = hsize (umem h) c"
proof -
  note d = um_okD [OF ok]
  let ?m = "(umem h)(i := v)"
  have out: "i < b \<or> b + 16 \<le> i" if "b \<in> insert (base h) (set hs \<union> X)" for b
    using in_use_outside [OF d(6) _ that, of a i] a i by (cases "b = a") auto
  have same: "hptr ?m b = hptr (umem h) b" "hsize ?m b = hsize (umem h) b" if "b \<in> insert (base h) (set hs \<union> X)" for b
    using out [OF that] by (auto intro!: hptr_cong hsize_cong)
  then show "\<And>c. c \<in> X \<Longrightarrow> hsize ?m c = hsize (umem h) c" by simp
  have "lseg ?m (base h # hs) (base h)" using d(2) lseg_cong [of "base h # hs" ?m "umem h" "base h"] same(1) by auto
  moreover have "heap_ok ?m (base h) (brk h) (set hs \<union> X)" by (rule heap_ok_cong [OF d(6)]) (rule same(2))
  ultimately show "um_ok (h\<lparr>umem := ?m\<rparr>) X hs" using d by (simp add: um_ok_def)
qed

lemma heap_inv_writes:
  assumes "heap_inv h X" and "a \<in> X" and "a + 16 \<le> i" "i < a + 16 * hsize (umem h) a"
  shows "heap_inv (h\<lparr>umem := (umem h)(i := v)\<rparr>) X" and "\<And>c. c \<in> X \<Longrightarrow> hsize ((umem h)(i := v)) c = hsize (umem h) c"
proof -
  obtain hs where "um_ok h X hs" using assms(1,2) by (auto simp: heap_inv_def)
  note w = um_ok_writes [OF this assms(2-4)]
  show "heap_inv (h\<lparr>umem := (umem h)(i := v)\<rparr>) X" using w(1) unfolding heap_inv_def by blast
  show "\<And>c. c \<in> X \<Longrightarrow> hsize ((umem h)(i := v)) c = hsize (umem h) c" by (rule w(2))
qed

lemma heap_inv_limit: "heap_inv h X \<Longrightarrow> brk h \<le> l \<Longrightarrow> l < 2 ^ 31 \<Longrightarrow> heap_inv (h\<lparr>lim := l\<rparr>) X"
  by (auto simp: heap_inv_def heap_new_def um_ok_def)

text \<open>A block of the program is a block of the heap, and distinct blocks have distinct headers.\<close>

lemma client_block:
  assumes "client_inv c" and "blocks c p = Some k"
  shows "16 \<le> p" "p - 16 \<in> in_use c" "k \<le> 16 * (hsize (umem (heap_of c)) (p - 16) - 1)" "1 \<le> hsize (umem (heap_of c)) (p - 16)"
proof -
  show "16 \<le> p" "k \<le> 16 * (hsize (umem (heap_of c)) (p - 16) - 1)" using assms by (auto simp: client_inv_def)
  show u: "p - 16 \<in> in_use c" using assms(2) by (auto simp: in_use_def)
  show "1 \<le> hsize (umem (heap_of c)) (p - 16)" using heap_inv_sep(1) [of "heap_of c" "in_use c"] assms(1) u by (simp add: client_inv_def sep_def)
qed

lemma in_use_freed:
  assumes c: "client_inv c" and p: "blocks c p = Some k"
  shows "in_use c = insert (p - 16) (in_use c - {p - 16})" and "in_use (c\<lparr>blocks := (blocks c)(p := None)\<rparr>) = in_use c - {p - 16}"
proof -
  show "in_use c = insert (p - 16) (in_use c - {p - 16})" using client_block(2) [OF c p] by auto
  have "q = p" if "q \<in> dom (blocks c)" "q - 16 = p - 16" for q
    using that client_block(1) [OF c, of q] client_block(1) [OF c p] by auto
  then show "in_use (c\<lparr>blocks := (blocks c)(p := None)\<rparr>) = in_use c - {p - 16}" by (auto simp: in_use_def)
qed

lemma client_malloc:
  assumes c: "client_inv c" and n: "small n"
  obtains (null) h where "malloc n (heap_of c) = Some (0, h)" and "client_inv (c\<lparr>heap_of := h\<rparr>)" and "same_on (umem (heap_of c)) (umem h) (in_use c)"
  | (block) p h where "malloc n (heap_of c) = Some (p, h)" and "p \<noteq> 0" and "blocks c p = None"
    and "client_inv \<lparr>heap_of = h, blocks = (blocks c)(p \<mapsto> unat n)\<rparr>" and "same_on (umem (heap_of c)) (umem h) (in_use c)"
proof -
  have i: "heap_inv (heap_of c) (in_use c)" using c by (simp add: client_inv_def)
  have keep: "k \<le> 16 * (hsize (umem h) (p - 16) - 1)" if "same_on (umem (heap_of c)) (umem h) (in_use c)" "blocks c p = Some k" for p k h
    using client_block [OF c that(2)] same_on_hsize [OF that(1)] by simp
  show thesis
  proof (rule malloc_ok [OF i n [unfolded small_def]])
    fix h assume h: "malloc n (heap_of c) = Some (0, h)" "heap_inv h (in_use c)" "same_on (umem (heap_of c)) (umem h) (in_use c)"
    have "client_inv (c\<lparr>heap_of := h\<rparr>)" using h(2) keep [OF h(3)] client_block(1) [OF c] by (simp add: client_inv_def in_use_def)
    then show thesis by (rule null [OF h(1) _ h(3)])
  next
    fix r h assume h: "malloc n (heap_of c) = Some (r + 16, h)" "heap_inv h (insert r (in_use c))" "r \<notin> in_use c"
      "same_on (umem (heap_of c)) (umem h) (in_use c)" "hsize (umem h) r = nunits_of (unat n)"
    have "in_use \<lparr>heap_of = h, blocks = (blocks c)(r + 16 \<mapsto> unat n)\<rparr> = insert r (in_use c)"
      using h(3) by (auto simp: in_use_def)
    then have "client_inv \<lparr>heap_of = h, blocks = (blocks c)(r + 16 \<mapsto> unat n)\<rparr>"
      using h(2,5) keep [OF h(4)] client_block(1) [OF c] nunits_of_bounds(1) [of "unat n"] by (simp add: client_inv_def)
    moreover have "blocks c (r + 16) = None" using h(3) image_eqI [of r "\<lambda>p. p - 16" "r + 16" "dom (blocks c)"] by (auto simp: in_use_def domIff)
    ultimately show thesis by (intro block [OF h(1) _ _ _ h(4)]) simp_all
  qed
qed

lemma client_free:
  assumes c: "client_inv c" and p: "blocks c p = Some k"
  obtains h where "free p (heap_of c) = Some h" and "client_inv \<lparr>heap_of = h, blocks = (blocks c)(p := None)\<rparr>"
    and "same_on (umem (heap_of c)) (umem h) (in_use c - {p - 16})"
proof -
  let ?X = "in_use c - {p - 16}" and ?c = "c\<lparr>blocks := (blocks c)(p := None)\<rparr>"
  note b = client_block [OF c p]
  obtain hs where "um_ok (heap_of c) (in_use c) hs" using c b(2) by (auto simp: client_inv_def heap_inv_def)
  then have ok: "um_ok (heap_of c) (insert (p - 16) ?X) hs" using in_use_freed(1) [OF c p] by simp
  obtain h hs' where h: "free p (heap_of c) = Some h" "um_ok h ?X hs'" "same_on (umem (heap_of c)) (umem h) ?X"
    by (rule free_ok [OF ok]) (use b(1) in simp_all)
  have "q - 16 \<in> ?X" if "blocks ?c q = Some k'" for q k'
  proof -
    have "q - 16 \<in> in_use ?c" unfolding in_use_def by (intro imageI domI) (rule that)
    then show ?thesis unfolding in_use_freed(2) [OF c p] .
  qed
  then have "16 \<le> q \<and> k' \<le> 16 * (hsize (umem h) (q - 16) - 1)" if "blocks ?c q = Some k'" for q k'
    using that client_block [OF c, of q k'] same_on_hsize [OF h(3), of "q - 16"] by (simp split: if_splits)
  then have "client_inv \<lparr>heap_of = h, blocks = (blocks c)(p := None)\<rparr>"
    using h(2) in_use_freed(2) [OF c p] by (auto simp: client_inv_def heap_inv_def in_use_def)
  then show thesis using that h(1,3) by blast
qed

lemma client_inv_step:
  assumes c: "client_inv c" and s: "client_step c d"
  shows "client_inv d"
  using s
proof cases
  case (got n p h)
  show ?thesis by (rule client_malloc [OF c got(2)]) (use got in simp_all)
next
  case (no_memory n h)
  show ?thesis by (rule client_malloc [OF c no_memory(2)]) (use no_memory in simp_all)
next
  case (freed p k h)
  show ?thesis by (rule client_free [OF c freed(2)]) (use freed in simp)
next
  case (writes p k i v)
  note b = client_block [OF c writes(2)]
  have i: "p - 16 + 16 \<le> i" "i < p - 16 + 16 * hsize (umem (heap_of c)) (p - 16)" using b writes(3,4) by simp_all
  have "heap_inv (heap_of c) (in_use c)" using c by (simp add: client_inv_def)
  note w = heap_inv_writes [OF this b(2) i, where v = v]
  show ?thesis using writes(1) c w client_block(2) [OF c] by (simp add: client_inv_def in_use_def)
next
  case (limit l)
  then show ?thesis using c heap_inv_limit by (simp add: client_inv_def in_use_def)
qed

interpretation um: machine client_start client_step client_inv
proof unfold_locales
  show "client_start c \<Longrightarrow> client_inv c" for c by (simp add: client_start_def client_inv_def heap_inv_def in_use_def)
  show "client_inv c \<Longrightarrow> client_step c d \<Longrightarrow> client_inv d" for c d by (rule client_inv_step)
qed

text \<open>The regions of the blocks of a program are apart, and lie in the heap above \<^verbatim>\<open>base\<close>.\<close>

lemma client_apart:
  assumes c: "client_inv c" and p: "blocks c p = Some k" and q: "blocks c q = Some l" "p < q"
  shows "p + k \<le> q"
proof -
  note bp = client_block [OF c p] and bq = client_block [OF c q(1)]
  have "heap_inv (heap_of c) (in_use c)" using c by (simp add: client_inv_def)
  then have "p - 16 + 16 * hsize (umem (heap_of c)) (p - 16) \<le> q - 16"
    using heap_inv_sep(1) [of "heap_of c" "in_use c"] bp(1,2) bq(1,2) q(2) by (auto simp: sep_def)
  then show ?thesis using bp bq by linarith
qed

lemma client_within:
  assumes c: "client_inv c" and p: "blocks c p = Some k"
  shows "base (heap_of c) + 32 \<le> p" "p + k \<le> brk (heap_of c)"
proof -
  note b = client_block [OF c p]
  have "heap_inv (heap_of c) (in_use c)" using c by (simp add: client_inv_def)
  then have "base (heap_of c) + 16 \<le> p - 16" "p - 16 + 16 * hsize (umem (heap_of c)) (p - 16) \<le> brk (heap_of c)"
    using heap_inv_sep(2) [of "heap_of c" "in_use c"] b(2) by (simp_all add: within_def)
  then show "base (heap_of c) + 32 \<le> p" "p + k \<le> brk (heap_of c)" using b by linarith+
qed

definition keeps_blocks :: "client \<Rightarrow> heap \<Rightarrow> bool" where
  "keeps_blocks c h \<longleftrightarrow> (\<forall>q l i. blocks c q = Some l \<and> q \<le> i \<and> i < q + l \<longrightarrow> umem h i = umem (heap_of c) i)"

definition apart_from :: "nat \<Rightarrow> nat \<Rightarrow> client \<Rightarrow> bool" where
  "apart_from p k c \<longleftrightarrow> (\<forall>q l. blocks c q = Some l \<longrightarrow> q + l \<le> p \<or> p + k \<le> q)"

lemma keeps_blocksI:
  assumes c: "client_inv c" and s: "same_on (umem (heap_of c)) (umem h) X" and X: "\<And>q. q \<in> dom B \<Longrightarrow> q - 16 \<in> X" and B: "B \<subseteq>\<^sub>m blocks c"
  shows "keeps_blocks (c\<lparr>blocks := B\<rparr>) h"
  unfolding keeps_blocks_def
proof (intro allI impI)
  fix q l i assume "blocks (c\<lparr>blocks := B\<rparr>) q = Some l \<and> q \<le> i \<and> i < q + l"
  then have q: "B q = Some l" "q \<le> i" "i < q + l" by simp_all
  then have "blocks c q = Some l" using B by (auto simp: map_le_def dom_def)
  note b = client_block [OF c this]
  have "q - 16 \<in> X" using X q(1) by blast
  moreover have "q - 16 \<le> i \<and> i < q - 16 + 16 * hsize (umem (heap_of c)) (q - 16)" using b q(2,3) by linarith
  ultimately have "umem h i = umem (heap_of c) i" using s unfolding same_on_def by blast
  then show "umem h i = umem (heap_of (c\<lparr>blocks := B\<rparr>)) i" by simp
qed


definition heap0 :: heap where
  "heap0 = \<lparr>umem = (\<lambda>_. 0), freep = 0, base = 4096, brk = 8192, lim = 1048576\<rparr>"

lemma malloc_heap0: "\<exists>h. malloc 100 heap0 = Some (73616, h)"
proof -
  have n: "nunits_of (unat (100 :: uint)) = 8" by (simp add: nunits_of_def)
  have "usbrk (sint (of_nat (4096 * 16) :: uint)) (malloc_start heap0) = (int (brk heap0), (malloc_start heap0)\<lparr>brk := 73728\<rparr>)"
    by (simp add: usbrk_def malloc_start_def heap0_def)
  then show ?thesis using malloc_first [OF _ _ _ _ n [symmetric], of heap0 4096 73728] by (auto simp: heap0_def)
qed


end
