(* ===== verification/Ksync.thy ===== *)
theory Ksync
  imports Kbytes
begin

text \<open>
  The process table (\<^verbatim>\<open>proc.h\<close>) and the part of \<^verbatim>\<open>proc.c\<close> that other components synchronise with:
  \<^verbatim>\<open>sleep\<close>, \<^verbatim>\<open>wakeup\<close>, \<^verbatim>\<open>sched\<close>, \<^verbatim>\<open>yield\<close>, \<^verbatim>\<open>kill\<close>; and the sleep-locks of \<^verbatim>\<open>sleeplock.c\<close>.

  A spinlock is seen here as the kernel thread that takes it sees it: the set \<open>held\<close> of the locks
  this CPU holds.  Taking a lock already held and giving back one that is not held are the panics of
  \<^verbatim>\<open>acquire\<close> and \<^verbatim>\<open>release\<close>; \<^verbatim>\<open>noff\<close>, the depth of nested \<^verbatim>\<open>push_off\<close> calls, is the number of locks
  held.  Theory \<open>Spinlock\<close> has the lock itself, with its test-and-set, the interrupt flag and several
  CPUs, and shows that it provides this view.
\<close>

section \<open>Parameters\<close>

definition NPROC :: nat where [params]: "NPROC = 64"
definition NOFILE :: nat where [params]: "NOFILE = 16"

section \<open>The process table\<close>

datatype procstate = UNUSED | USED | SLEEPING | RUNNABLE | RUNNING | ZOMBIE

text \<open>
  The saved registers of a kernel thread.  The callee-saved registers \<^verbatim>\<open>s0\<close> to \<^verbatim>\<open>s11\<close> are one field.
\<close>

record kcontext =
  ctx_ra :: uint64
  ctx_sp :: uint64
  ctx_s :: "nat \<Rightarrow> uint64"

text \<open>
  \<^verbatim>\<open>struct proc\<close>.  Pointers to other processes, open files and inodes are indices into the tables they
  point into, with \<^term>\<open>None\<close> for a null pointer; page tables and trapframes are physical pages, so those
  pointers are addresses.  The name is the sixteen bytes of the array.
\<close>

record proc =
  p_state :: procstate
  p_chan :: "chan option"
  p_killed :: bool
  p_xstate :: int
  p_pid :: int
  p_parent :: "nat option"
  p_kstack :: uint64
  p_sz :: uint64
  p_pagetable :: uint64
  p_trapframe :: uint64
  p_context :: kcontext
  p_ofile :: "nat \<Rightarrow> nat option"
  p_cwd :: "nat option"
  p_name :: bytes

record sleeplock =
  sl_locked :: bool
  sl_pid :: int

record kcore =
  held :: "lock set"
  cpu_proc :: "nat option"
  proc :: "nat \<Rightarrow> proc"
  initproc :: "nat option"
  nextpid :: int
  ticks :: uint
  slock :: "slk \<Rightarrow> sleeplock"

abbreviation upd_proc :: "nat \<Rightarrow> (proc \<Rightarrow> proc) \<Rightarrow> 'a kcore_scheme \<Rightarrow> 'a kcore_scheme" where
  "upd_proc p f s \<equiv> s\<lparr>proc := (proc s)(p := f (proc s p))\<rparr>"

section \<open>Spinlocks, as seen by the thread that takes them\<close>

definition acquire :: "lock \<Rightarrow> ('a kcore_scheme, unit) kern" where
  "acquire l = (\<lambda>s. if l \<in> held s then Panic ''acquire'' else Ok () (s\<lparr>held := insert l (held s)\<rparr>))"

definition release :: "lock \<Rightarrow> ('a kcore_scheme, unit) kern" where
  "release l = (\<lambda>s. if l \<notin> held s then Panic ''release'' else Ok () (s\<lparr>held := held s - {l}\<rparr>))"

lemma acquire_at [kern_simps]: "l \<notin> held s \<Longrightarrow> acquire l s = Ok () (s\<lparr>held := insert l (held s)\<rparr>)"
  by (simp add: acquire_def)

lemma release_at [kern_simps]: "l \<in> held s \<Longrightarrow> release l s = Ok () (s\<lparr>held := held s - {l}\<rparr>)"
  by (simp add: release_def)

lemma kdo_acquire [kern_simps]:
  "l \<notin> held s \<Longrightarrow> kdo (acquire l) f s = f () (s\<lparr>held := insert l (held s)\<rparr>)"
  by (simp add: kdo_def acquire_def)

lemma kdo_release [kern_simps]:
  "l \<in> held s \<Longrightarrow> kdo (release l) f s = f () (s\<lparr>held := held s - {l}\<rparr>)"
  by (simp add: kdo_def release_def)

lemma held_restore [simp]: "l \<notin> h \<Longrightarrow> insert l h - {l} = h"
  by simp

lemma held_same [simp]: "s\<lparr>held := held s\<rparr> = s"
  by simp

section \<open>The current process\<close>

definition myproc :: "('a kcore_scheme, nat option) kern" where
  "myproc = gets cpu_proc"

text \<open>
  Code that follows the pointer \<^verbatim>\<open>myproc()\<close> gives.  A null pointer is not mapped in the kernel's page
  table, so following it traps and \<^verbatim>\<open>kerneltrap\<close> panics.
\<close>

definition curproc :: "('a kcore_scheme, nat) kern" where
  "curproc = kdo myproc (\<lambda>p. case p of None \<Rightarrow> panic ''kerneltrap'' | Some q \<Rightarrow> ret q)"

lemma myproc_at [kern_simps]: "myproc s = Ok (cpu_proc s) s"
  by (simp add: myproc_def kern_simps)

lemma kdo_myproc [kern_simps]: "kdo myproc f s = f (cpu_proc s) s"
  by (simp add: myproc_def kern_simps)

lemma curproc_at [kern_simps]: "cpu_proc s = Some p \<Longrightarrow> curproc s = Ok p s"
  by (simp add: curproc_def kern_simps)

lemma kdo_curproc [kern_simps]: "cpu_proc s = Some p \<Longrightarrow> kdo curproc f s = f p s"
  by (simp add: kdo_def curproc_at)

section \<open>Switching to the scheduler\<close>

text \<open>
  \<^verbatim>\<open>sched()\<close>: the checks, then \<^verbatim>\<open>swtch\<close> to the scheduler.  Interrupts are off whenever a lock is held,
  so its last check, \<^verbatim>\<open>intr_get()\<close>, cannot fail once \<^verbatim>\<open>noff\<close> is 1.
\<close>

definition sched :: "('a kcore_scheme, 'b) kern" where
  "sched =
     kdo curproc (\<lambda>p.
     kdo (gets held) (\<lambda>h.
     kdo (gets (\<lambda>s. p_state (proc s p))) (\<lambda>st.
       if Proc_lock p \<notin> h then panic ''sched p->lock''
       else if card h \<noteq> 1 then panic ''sched locks''
       else if st = RUNNING then panic ''sched running''
       else (\<lambda>s. Switch s))))"

text \<open>
  \<^verbatim>\<open>yield()\<close> up to its switch; when the thread runs again it only gives back its own lock.
\<close>

definition yield :: "('a kcore_scheme, 'b) kern" where
  "yield =
     kdo curproc (\<lambda>p.
     kdo (acquire (Proc_lock p)) (\<lambda>_.
     kdo (modify (upd_proc p (\<lambda>q. q\<lparr>p_state := RUNNABLE\<rparr>))) (\<lambda>_.
     sched)))"

definition yield_resume :: "('a kcore_scheme, unit) kern" where
  "yield_resume = kdo curproc (\<lambda>p. release (Proc_lock p))"

text \<open>
  \<^verbatim>\<open>sleep(chan, lk)\<close> up to its switch, and what it does when it runs again.
\<close>

definition sleep :: "chan \<Rightarrow> lock \<Rightarrow> ('a kcore_scheme, 'b) kern" where
  "sleep chan lk =
     kdo curproc (\<lambda>p.
     kdo (acquire (Proc_lock p)) (\<lambda>_.
     kdo (release lk) (\<lambda>_.
     kdo (modify (upd_proc p (\<lambda>q. q\<lparr>p_chan := Some chan, p_state := SLEEPING\<rparr>))) (\<lambda>_.
     sched))))"

definition sleep_resume :: "lock \<Rightarrow> ('a kcore_scheme, unit) kern" where
  "sleep_resume lk =
     kdo curproc (\<lambda>p.
     kdo (modify (upd_proc p (\<lambda>q. q\<lparr>p_chan := None\<rparr>))) (\<lambda>_.
     kdo (release (Proc_lock p)) (\<lambda>_.
     acquire lk)))"

definition wakeup_one :: "chan \<Rightarrow> nat \<Rightarrow> ('a kcore_scheme, unit) kern" where
  "wakeup_one chan p =
     kdo myproc (\<lambda>me.
     kwhen (Some p \<noteq> me) (
       kdo (acquire (Proc_lock p)) (\<lambda>_.
       kdo (gets (\<lambda>s. proc s p)) (\<lambda>q.
       kdo (kwhen (p_state q = SLEEPING \<and> p_chan q = Some chan)
              (modify (upd_proc p (\<lambda>q. q\<lparr>p_state := RUNNABLE\<rparr>)))) (\<lambda>_.
       release (Proc_lock p))))))"

definition wakeup :: "chan \<Rightarrow> ('a kcore_scheme, unit) kern" where
  "wakeup chan = for_each [0..<NPROC] (wakeup_one chan)"

definition kill :: "int \<Rightarrow> ('a kcore_scheme, int) kern" where
  "kill pid =
     kdo (scan [0..<NPROC] (\<lambda>p.
            kdo (acquire (Proc_lock p)) (\<lambda>_.
            kdo (gets (\<lambda>s. proc s p)) (\<lambda>q.
              if p_pid q = pid then
                kdo (modify (upd_proc p (\<lambda>q. q\<lparr>p_killed := True\<rparr>))) (\<lambda>_.
                kdo (kwhen (p_state q = SLEEPING)
                       (modify (upd_proc p (\<lambda>q. q\<lparr>p_state := RUNNABLE\<rparr>)))) (\<lambda>_.
                kdo (release (Proc_lock p)) (\<lambda>_.
                ret (Some 0))))
              else kdo (release (Proc_lock p)) (\<lambda>_. ret None)))))
       (\<lambda>r. case r of Some v \<Rightarrow> ret v | None \<Rightarrow> ret (-1))"

definition setkilled :: "nat \<Rightarrow> ('a kcore_scheme, unit) kern" where
  "setkilled p =
     kdo (acquire (Proc_lock p)) (\<lambda>_.
     kdo (modify (upd_proc p (\<lambda>q. q\<lparr>p_killed := True\<rparr>))) (\<lambda>_.
     release (Proc_lock p)))"

definition killed :: "nat \<Rightarrow> ('a kcore_scheme, bool) kern" where
  "killed p =
     kdo (acquire (Proc_lock p)) (\<lambda>_.
     kdo (gets (\<lambda>s. p_killed (proc s p))) (\<lambda>k.
     kdo (release (Proc_lock p)) (\<lambda>_.
     ret k)))"

definition allocpid :: "('a kcore_scheme, int) kern" where
  "allocpid =
     kdo (acquire Pid_lock) (\<lambda>_.
     kdo (gets nextpid) (\<lambda>pid.
     kdo (modify (\<lambda>s. s\<lparr>nextpid := nextpid s + 1\<rparr>)) (\<lambda>_.
     kdo (release Pid_lock) (\<lambda>_.
     ret pid))))"

section \<open>Sleep-locks\<close>

definition initsleeplock :: "slk \<Rightarrow> ('a kcore_scheme, unit) kern" where
  "initsleeplock l = modify (\<lambda>s. s\<lparr>slock := (slock s)(l := \<lparr>sl_locked = False, sl_pid = 0\<rparr>)\<rparr>)"

text \<open>
  A thread woken in \<^verbatim>\<open>acquiresleep\<close> holds the inner spinlock again and tests the flag again: it goes on
  as \<open>acquiresleep_loop\<close>.
\<close>

definition acquiresleep_loop :: "slk \<Rightarrow> ('a kcore_scheme, unit) kern" where
  "acquiresleep_loop l =
     kdo (gets (\<lambda>s. sl_locked (slock s l))) (\<lambda>locked.
       if locked then sleep (Chan_sleeplock l) (Sleep_lk l)
       else
         kdo curproc (\<lambda>p.
         kdo (modify (\<lambda>s. s\<lparr>slock := (slock s)(l := \<lparr>sl_locked = True, sl_pid = p_pid (proc s p)\<rparr>)\<rparr>)) (\<lambda>_.
         release (Sleep_lk l))))"

definition acquiresleep :: "slk \<Rightarrow> ('a kcore_scheme, unit) kern" where
  "acquiresleep l = kdo (acquire (Sleep_lk l)) (\<lambda>_. acquiresleep_loop l)"

definition releasesleep :: "slk \<Rightarrow> ('a kcore_scheme, unit) kern" where
  "releasesleep l =
     kdo (acquire (Sleep_lk l)) (\<lambda>_.
     kdo (modify (\<lambda>s. s\<lparr>slock := (slock s)(l := \<lparr>sl_locked = False, sl_pid = 0\<rparr>)\<rparr>)) (\<lambda>_.
     kdo (wakeup (Chan_sleeplock l)) (\<lambda>_.
     release (Sleep_lk l))))"

definition holdingsleep :: "slk \<Rightarrow> ('a kcore_scheme, bool) kern" where
  "holdingsleep l =
     kdo (acquire (Sleep_lk l)) (\<lambda>_.
     kdo curproc (\<lambda>p.
     kdo (gets (\<lambda>s. sl_locked (slock s l) \<and> sl_pid (slock s l) = p_pid (proc s p))) (\<lambda>r.
     kdo (release (Sleep_lk l)) (\<lambda>_.
     ret r))))"

section \<open>What they do\<close>

text \<open>The effect of \<^verbatim>\<open>wakeup\<close> on the process table, for the process \<open>me\<close> that calls it.\<close>

definition wake :: "chan \<Rightarrow> nat option \<Rightarrow> (nat \<Rightarrow> proc) \<Rightarrow> nat \<Rightarrow> proc" where
  "wake c me P = (\<lambda>p. if p < NPROC \<and> Some p \<noteq> me \<and> p_state (P p) = SLEEPING \<and> p_chan (P p) = Some c
                      then (P p)\<lparr>p_state := RUNNABLE\<rparr> else P p)"

text \<open>The precondition of \<^verbatim>\<open>wakeup\<close>: no lock of another process is held.\<close>

definition no_proc_locks :: "'a kcore_scheme \<Rightarrow> bool" where
  "no_proc_locks s \<longleftrightarrow> (\<forall>p. Some p \<noteq> cpu_proc s \<longrightarrow> Proc_lock p \<notin> held s)"

lemma wakeup_one_at:
  assumes "no_proc_locks s"
  shows "wakeup_one c p s =
    Ok () (if Some p \<noteq> cpu_proc s \<and> p_state (proc s p) = SLEEPING \<and> p_chan (proc s p) = Some c
           then upd_proc p (\<lambda>q. q\<lparr>p_state := RUNNABLE\<rparr>) s else s)"
  using assms by (simp add: wakeup_one_def kern_simps no_proc_locks_def)

lemma wakeup_upto:
  assumes "no_proc_locks s"
  shows "for_each [0..<n] (wakeup_one c) s
   = Ok () (s\<lparr>proc := (\<lambda>p. if p < n \<and> Some p \<noteq> cpu_proc s \<and> p_state (proc s p) = SLEEPING \<and>
                              p_chan (proc s p) = Some c
                           then (proc s p)\<lparr>p_state := RUNNABLE\<rparr> else proc s p)\<rparr>)"
  (is "_ = Ok () (s\<lparr>proc := ?P n\<rparr>)")
  using assms
proof (induction n)
  case 0
  then show ?case by (simp add: kern_simps)
next
  case (Suc n)
  have "no_proc_locks (s\<lparr>proc := ?P n\<rparr>)" using Suc.prems by (simp add: no_proc_locks_def)
  then have "wakeup_one c n (s\<lparr>proc := ?P n\<rparr>) = Ok () (s\<lparr>proc := ?P (Suc n)\<rparr>)"
    by (simp add: wakeup_one_at) (auto simp: fun_eq_iff less_Suc_eq)
  with Suc show ?case by (simp add: for_each_append kdo_def ret_def)
qed

lemma wakeup_at:
  "no_proc_locks s \<Longrightarrow> wakeup c s = Ok () (s\<lparr>proc := wake c (cpu_proc s) (proc s)\<rparr>)"
  by (simp add: wakeup_def wakeup_upto wake_def)

lemma kdo_wakeup [kern_simps]:
  "no_proc_locks s \<Longrightarrow> kdo (wakeup c) f s = f () (s\<lparr>proc := wake c (cpu_proc s) (proc s)\<rparr>)"
  by (rule kdo_Ok) (rule wakeup_at)

text \<open>\<^verbatim>\<open>wakeup\<close> changes nothing of a process but its scheduling state.\<close>

lemma wake_fields [simp]:
  "p_pid (wake c me P p) = p_pid (P p)" "p_chan (wake c me P p) = p_chan (P p)"
  "p_killed (wake c me P p) = p_killed (P p)" "p_parent (wake c me P p) = p_parent (P p)"
  "p_pagetable (wake c me P p) = p_pagetable (P p)" "p_trapframe (wake c me P p) = p_trapframe (P p)"
  "p_ofile (wake c me P p) = p_ofile (P p)" "p_cwd (wake c me P p) = p_cwd (P p)"
  "p_sz (wake c me P p) = p_sz (P p)" "p_xstate (wake c me P p) = p_xstate (P p)"
  "p_kstack (wake c me P p) = p_kstack (P p)" "p_name (wake c me P p) = p_name (P p)"
  by (simp_all add: wake_def)

lemma wake_me [simp]: "wake c (Some me) P me = P me"
  by (simp add: wake_def)

lemma killed_at [kern_simps]:
  "Proc_lock p \<notin> held s \<Longrightarrow> killed p s = Ok (p_killed (proc s p)) s"
  by (simp add: killed_def kern_simps)

lemma kdo_killed [kern_simps]:
  "Proc_lock p \<notin> held s \<Longrightarrow> kdo (killed p) f s = f (p_killed (proc s p)) s"
  by (rule kdo_Ok) (rule killed_at)

lemma setkilled_at [kern_simps]:
  "Proc_lock p \<notin> held s \<Longrightarrow> setkilled p s = Ok () (upd_proc p (\<lambda>q. q\<lparr>p_killed := True\<rparr>) s)"
  by (simp add: setkilled_def kern_simps)

lemma allocpid_at [kern_simps]:
  "Pid_lock \<notin> held s \<Longrightarrow> allocpid s = Ok (nextpid s) (s\<lparr>nextpid := nextpid s + 1\<rparr>)"
  by (simp add: allocpid_def kern_simps)

text \<open>
  A thread that sleeps holding exactly the lock it passes goes to sleep on the channel, gives back
  that lock, and switches holding only its own process's lock: the window in which a wakeup could be
  lost is closed by that lock.
\<close>

lemma sleep_at:
  assumes "cpu_proc s = Some p" and "held s = {lk}" and "lk \<noteq> Proc_lock p"
  shows "sleep c lk s =
    Switch (upd_proc p (\<lambda>q. q\<lparr>p_chan := Some c, p_state := SLEEPING\<rparr>) (s\<lparr>held := {Proc_lock p}\<rparr>))"
proof -
  have "insert (Proc_lock p) {lk} - {lk} = {Proc_lock p}" using assms(3) by auto
  with assms show ?thesis by (simp add: sleep_def sched_def kern_simps)
qed

lemma sched_not_Ok: "sched s \<noteq> Ok x t"
  by (auto simp: sched_def curproc_def myproc_def kdo_def kmonad_defs split: option.splits if_splits)

lemma sleep_not_Ok: "sleep c lk s \<noteq> Ok x t"
  by (auto simp: sched_not_Ok sleep_def elim!: kdo_OkE)

text \<open>Sleeping with any further spinlock held is a panic: \<^verbatim>\<open>sched\<close> sees \<^verbatim>\<open>noff\<close> above 1.\<close>

lemma sleep_two_locks:
  assumes "cpu_proc s = Some p" and "lk \<in> held s" and "l' \<in> held s" and "l' \<noteq> lk"
    and "Proc_lock p \<notin> held s" and "finite (held s)"
  shows "sleep c lk s = Panic ''sched locks''"
proof -
  let ?h = "insert (Proc_lock p) (held s) - {lk}"
  from assms have "{Proc_lock p, l'} \<subseteq> ?h" by auto
  moreover have "l' \<noteq> Proc_lock p" using assms by auto
  then have "card {Proc_lock p, l'} = 2" by simp
  ultimately have "card ?h \<noteq> 1" using assms(6) card_mono [of ?h "{Proc_lock p, l'}"] by auto
  moreover have "Proc_lock p \<in> ?h" using assms by auto
  ultimately show ?thesis using assms by (simp add: sleep_def sched_def kern_simps)
qed

lemma acquiresleep_free:
  assumes "cpu_proc s = Some p" and "Sleep_lk l \<notin> held s" and "\<not> sl_locked (slock s l)"
  shows "acquiresleep l s =
    Ok () (s\<lparr>slock := (slock s)(l := \<lparr>sl_locked = True, sl_pid = p_pid (proc s p)\<rparr>)\<rparr>)"
  using assms by (simp add: acquiresleep_def acquiresleep_loop_def kern_simps)

lemma acquiresleep_locked:
  assumes "cpu_proc s = Some p" and "held s = {}" and "sl_locked (slock s l)"
  shows "acquiresleep l s =
    Switch (upd_proc p (\<lambda>q. q\<lparr>p_chan := Some (Chan_sleeplock l), p_state := SLEEPING\<rparr>)
             (s\<lparr>held := {Proc_lock p}\<rparr>))"
  using assms by (simp add: acquiresleep_def acquiresleep_loop_def kern_simps sleep_at)

lemma releasesleep_at:
  assumes "no_proc_locks s" and "Sleep_lk l \<notin> held s"
  shows "releasesleep l s =
    Ok () (s\<lparr>slock := (slock s)(l := \<lparr>sl_locked = False, sl_pid = 0\<rparr>),
             proc := wake (Chan_sleeplock l) (cpu_proc s) (proc s)\<rparr>)"
  using assms by (simp add: releasesleep_def kern_simps no_proc_locks_def)

lemma holdingsleep_at:
  assumes "cpu_proc s = Some p" and "Sleep_lk l \<notin> held s"
  shows "holdingsleep l s = Ok (sl_locked (slock s l) \<and> sl_pid (slock s l) = p_pid (proc s p)) s"
  using assms by (simp add: holdingsleep_def kern_simps)

lemma kdo_acquiresleep [kern_simps]:
  assumes "cpu_proc s = Some p" and "Sleep_lk l \<notin> held s" and "\<not> sl_locked (slock s l)"
  shows "kdo (acquiresleep l) f s =
    f () (s\<lparr>slock := (slock s)(l := \<lparr>sl_locked = True, sl_pid = p_pid (proc s p)\<rparr>)\<rparr>)"
  using acquiresleep_free [OF assms] by (rule kdo_Ok)

lemma kdo_releasesleep [kern_simps]:
  assumes "no_proc_locks s" and "Sleep_lk l \<notin> held s"
  shows "kdo (releasesleep l) f s =
    f () (s\<lparr>slock := (slock s)(l := \<lparr>sl_locked = False, sl_pid = 0\<rparr>),
            proc := wake (Chan_sleeplock l) (cpu_proc s) (proc s)\<rparr>)"
  using releasesleep_at [OF assms] by (rule kdo_Ok)

lemma kdo_holdingsleep [kern_simps]:
  assumes "cpu_proc s = Some p" and "Sleep_lk l \<notin> held s"
  shows "kdo (holdingsleep l) f s = f (sl_locked (slock s l) \<and> sl_pid (slock s l) = p_pid (proc s p)) s"
  using holdingsleep_at [OF assms] by (rule kdo_Ok)

lemma no_proc_locks_empty [simp]: "held s = {} \<Longrightarrow> no_proc_locks s"
  by (simp add: no_proc_locks_def)

section \<open>What they leave alone\<close>

text \<open>
  A predicate that does not look at locks and processes is kept by every synchronisation operation,
  whether it returns or switches.
\<close>

definition core_blind :: "('a kcore_scheme \<Rightarrow> bool) \<Rightarrow> bool" where
  "core_blind I \<longleftrightarrow> (\<forall>s h P L. I (s\<lparr>held := h\<rparr>) = I s \<and> I (s\<lparr>proc := P\<rparr>) = I s \<and> I (s\<lparr>slock := L\<rparr>) = I s)"

lemma core_blindD:
  assumes "core_blind I"
  shows "I (s\<lparr>held := h\<rparr>) = I s" "I (s\<lparr>proc := P\<rparr>) = I s" "I (s\<lparr>slock := L\<rparr>) = I s"
  using assms unfolding core_blind_def by blast+

lemma keeps_acquire [keeps_intros]: "core_blind I \<Longrightarrow> keeps I (acquire l)"
  by (auto simp: keeps_def acquire_def core_blindD)

lemma keeps_release [keeps_intros]: "core_blind I \<Longrightarrow> keeps I (release l)"
  by (auto simp: keeps_def release_def core_blindD)

lemma keeps_myproc [keeps_intros]: "keeps I myproc"
  by (simp add: myproc_def keeps_gets)

lemma keeps_curproc [keeps_intros]: "keeps I curproc"
  unfolding curproc_def by (intro keeps_intros)

lemma keeps_sched [keeps_intros]: "keeps I sched"
  unfolding sched_def by (intro keeps_intros) (simp add: keeps_def)

lemma keeps_upd_proc [keeps_intros]: "core_blind I \<Longrightarrow> keeps I (modify (upd_proc p f))"
  by (rule keeps_modify) (simp add: core_blindD)

lemma keeps_sleep [keeps_intros]: "core_blind I \<Longrightarrow> keeps I (sleep c lk)"
  unfolding sleep_def by (intro keeps_intros)

lemma keeps_wakeup [keeps_intros]: "core_blind I \<Longrightarrow> keeps I (wakeup c)"
  unfolding wakeup_def wakeup_one_def by (intro keeps_intros)

lemma keeps_acquiresleep [keeps_intros]: "core_blind I \<Longrightarrow> keeps I (acquiresleep l)"
  unfolding acquiresleep_def acquiresleep_loop_def
  by (intro keeps_intros keeps_modify) (simp_all add: core_blindD)

lemma keeps_releasesleep [keeps_intros]: "core_blind I \<Longrightarrow> keeps I (releasesleep l)"
  unfolding releasesleep_def by (intro keeps_intros keeps_modify) (simp_all add: core_blindD)

lemma keeps_holdingsleep [keeps_intros]: "core_blind I \<Longrightarrow> keeps I (holdingsleep l)"
  unfolding holdingsleep_def by (intro keeps_intros)

section \<open>A concrete state\<close>

text \<open>
  The process table as it is when nothing has run but one process, number 0 with pid 1, which is
  running.  The concrete cases of the properties start from it.
\<close>

definition zero_proc :: proc where
  "zero_proc = \<lparr>p_state = UNUSED, p_chan = None, p_killed = False, p_xstate = 0, p_pid = 0, p_parent = None,
     p_kstack = 0, p_sz = 0, p_pagetable = 0, p_trapframe = 0,
     p_context = \<lparr>ctx_ra = 0, ctx_sp = 0, ctx_s = (\<lambda>_. 0)\<rparr>, p_ofile = (\<lambda>_. None), p_cwd = None,
     p_name = (\<lambda>_. 0)\<rparr>"

definition ex_core :: kcore where
  "ex_core = \<lparr>held = {}, cpu_proc = Some 0,
     proc = (\<lambda>_. zero_proc)(0 := zero_proc\<lparr>p_state := RUNNING, p_pid := 1\<rparr>),
     initproc = Some 0, nextpid = 2, ticks = 0, slock = (\<lambda>_. \<lparr>sl_locked = False, sl_pid = 0\<rparr>)\<rparr>"

lemma ex_core_sel [simp]:
  "held ex_core = {}" "cpu_proc ex_core = Some 0" "slock ex_core = (\<lambda>_. \<lparr>sl_locked = False, sl_pid = 0\<rparr>)"
  "nextpid ex_core = 2" "proc ex_core 0 = zero_proc\<lparr>p_state := RUNNING, p_pid := 1\<rparr>"
  "p \<noteq> 0 \<Longrightarrow> proc ex_core p = zero_proc"
  by (simp_all add: ex_core_def)

end
