(* ===== verification/Kstring.thy ===== *)
theory Kstring
  imports Kbytes
begin

text \<open>
  \<^verbatim>\<open>kernel/string.c\<close>: the byte and string routines, each as the loop it is, over byte-addressed memory.
  A pointer is an index.  \<^verbatim>\<open>memset\<close> and \<^verbatim>\<open>memmove\<close> work inside one memory, where source and destination
  may overlap; \<open>blit\<close> is \<^verbatim>\<open>memmove\<close> between two objects that cannot overlap (a disk buffer and a
  structure on the stack, say).
\<close>

section \<open>The routines\<close>

primrec memset :: "bytes \<Rightarrow> nat \<Rightarrow> uchar \<Rightarrow> nat \<Rightarrow> bytes" where
  "memset m dst c 0 = m"
| "memset m dst c (Suc n) = (memset m dst c n)(dst + n := c)"

primrec memcmp :: "bytes \<Rightarrow> nat \<Rightarrow> bytes \<Rightarrow> nat \<Rightarrow> nat \<Rightarrow> int" where
  "memcmp v1 s1 v2 s2 0 = 0"
| "memcmp v1 s1 v2 s2 (Suc n) =
     (if v1 s1 \<noteq> v2 s2 then uint (v1 s1) - uint (v2 s2)
      else memcmp v1 (s1 + 1) v2 (s2 + 1) n)"

primrec copy_forward :: "bytes \<Rightarrow> nat \<Rightarrow> nat \<Rightarrow> nat \<Rightarrow> bytes" where
  "copy_forward m d s 0 = m"
| "copy_forward m d s (Suc n) = (let m' = copy_forward m d s n in m'(d + n := m' (s + n)))"

primrec copy_backward :: "bytes \<Rightarrow> nat \<Rightarrow> nat \<Rightarrow> nat \<Rightarrow> bytes" where
  "copy_backward m d s 0 = m"
| "copy_backward m d s (Suc n) = copy_backward (m(d + n := m (s + n))) d s n"

definition memmove :: "bytes \<Rightarrow> nat \<Rightarrow> nat \<Rightarrow> nat \<Rightarrow> bytes" where
  "memmove m dst src n =
     (if n = 0 then m
      else if src < dst \<and> src + n > dst then copy_backward m dst src n
      else copy_forward m dst src n)"

definition memcpy :: "bytes \<Rightarrow> nat \<Rightarrow> nat \<Rightarrow> nat \<Rightarrow> bytes" where
  "memcpy m dst src n = memmove m dst src n"

primrec blit :: "bytes \<Rightarrow> nat \<Rightarrow> bytes \<Rightarrow> nat \<Rightarrow> nat \<Rightarrow> bytes" where
  "blit dst d src s 0 = dst"
| "blit dst d src s (Suc n) = (blit dst d src s n)(d + n := src (s + n))"

primrec strncmp :: "bytes \<Rightarrow> nat \<Rightarrow> bytes \<Rightarrow> nat \<Rightarrow> nat \<Rightarrow> int" where
  "strncmp p i q j 0 = 0"
| "strncmp p i q j (Suc n) =
     (if p i \<noteq> 0 \<and> p i = q j then strncmp p (i + 1) q (j + 1) n
      else uint (p i) - uint (q j))"

primrec strncpy :: "bytes \<Rightarrow> nat \<Rightarrow> bytes \<Rightarrow> nat \<Rightarrow> nat \<Rightarrow> bytes" where
  "strncpy s i t j 0 = s"
| "strncpy s i t j (Suc n) =
     (if t j \<noteq> 0 then strncpy (s(i := t j)) (i + 1) t (j + 1) n
      else memset (s(i := 0)) (i + 1) 0 n)"

primrec safestrcpy_loop :: "bytes \<Rightarrow> nat \<Rightarrow> bytes \<Rightarrow> nat \<Rightarrow> nat \<Rightarrow> bytes" where
  "safestrcpy_loop s i t j 0 = s(i := 0)"
| "safestrcpy_loop s i t j (Suc n) =
     (if t j \<noteq> 0 then safestrcpy_loop (s(i := t j)) (i + 1) t (j + 1) n
      else s(i := 0, i + 1 := 0))"

definition safestrcpy :: "bytes \<Rightarrow> nat \<Rightarrow> bytes \<Rightarrow> nat \<Rightarrow> int \<Rightarrow> bytes" where
  "safestrcpy s i t j n = (if n \<le> 0 then s else safestrcpy_loop s i t j (nat (n - 1)))"

text \<open>\<^verbatim>\<open>strlen\<close> runs to the first NUL; without one it never returns.\<close>

partial_function (option) strlen :: "bytes \<Rightarrow> nat \<Rightarrow> nat \<Rightarrow> nat option" where
  "strlen s i n = (if s (i + n) = 0 then Some n else strlen s i (n + 1))"

section \<open>What they compute\<close>

lemma uint_eq_iff [simp]: "uint a = uint b \<longleftrightarrow> a = (b :: 'a::len word)"
  by (simp add: word_uint_eq_iff)

lemma memset_at: "memset m d c n i = (if d \<le> i \<and> i < d + n then c else m i)"
  by (induction n) auto

lemma blit_at: "blit dst d src s n i = (if d \<le> i \<and> i < d + n then src (s + (i - d)) else dst i)"
  by (induction n) auto

lemma copy_forward_at:
  assumes "\<not> (s < d \<and> s + n > d)"
  shows "copy_forward m d s n i = (if d \<le> i \<and> i < d + n then m (s + (i - d)) else m i)"
  using assms
proof (induction n arbitrary: i)
  case 0
  then show ?case by auto
next
  case (Suc n)
  have IH: "copy_forward m d s n k = (if d \<le> k \<and> k < d + n then m (s + (k - d)) else m k)" for k
    by (rule Suc.IH) (use Suc.prems in auto)
  have "copy_forward m d s n (s + n) = m (s + n)"
    using IH [of "s + n"] Suc.prems by auto
  then show ?case by (auto simp: Let_def IH)
qed

lemma copy_backward_at:
  assumes "s < d"
  shows "copy_backward m d s n i = (if d \<le> i \<and> i < d + n then m (s + (i - d)) else m i)"
proof (induction n arbitrary: m)
  case 0
  then show ?case by auto
next
  case (Suc n)
  show ?case using assms by (auto simp: Suc.IH)
qed

text \<open>
  \<^verbatim>\<open>memmove\<close> copies the bytes the source range held before the call, whether or not the ranges
  overlap, and changes nothing else.
\<close>

lemma memmove_at:
  "memmove m dst src n i = (if dst \<le> i \<and> i < dst + n then m (src + (i - dst)) else m i)"
  by (auto simp: memmove_def copy_forward_at copy_backward_at)

lemma memcmp_eq_0: "memcmp v1 s1 v2 s2 n = 0 \<longleftrightarrow> (\<forall>k < n. v1 (s1 + k) = v2 (s2 + k))"
proof (induction n arbitrary: s1 s2)
  case 0
  then show ?case by simp
next
  case (Suc n)
  have "(\<forall>k < Suc n. v1 (s1 + k) = v2 (s2 + k)) \<longleftrightarrow>
        v1 s1 = v2 s2 \<and> (\<forall>k < n. v1 (s1 + 1 + k) = v2 (s2 + 1 + k))"
    by (auto simp: less_Suc_eq_0_disj)
  with Suc.IH [of "s1 + 1" "s2 + 1"] show ?case by auto
qed

text \<open>Two strings as \<^verbatim>\<open>strncmp\<close> compares them: equal up to the first NUL or the first \<open>n\<close> bytes.\<close>

definition same_str :: "bytes \<Rightarrow> nat \<Rightarrow> bytes \<Rightarrow> nat \<Rightarrow> nat \<Rightarrow> bool" where
  "same_str p i q j n \<longleftrightarrow> (\<forall>k < n. (\<forall>l < k. p (i + l) \<noteq> 0) \<longrightarrow> p (i + k) = q (j + k))"

lemma same_str_Suc:
  "same_str p i q j (Suc n) \<longleftrightarrow>
     p i = q j \<and> (p i \<noteq> 0 \<longrightarrow> same_str p (i + 1) q (j + 1) n)"
  by (auto simp: same_str_def All_less_Suc2)

lemma strncmp_eq_0: "strncmp p i q j n = 0 \<longleftrightarrow> same_str p i q j n"
proof (induction n arbitrary: i j)
  case 0
  then show ?case by (simp add: same_str_def)
next
  case (Suc n)
  then show ?case unfolding same_str_Suc by auto
qed

lemma strncpy_outside: "a < i \<or> i + n \<le> a \<Longrightarrow> strncpy s i t j n a = s a"
  by (induction n arbitrary: s i j) (auto simp: memset_at)

lemma strncpy_inside:
  "d < n \<Longrightarrow> strncpy s i t j n (i + d) = (if \<forall>l < d. t (j + l) \<noteq> 0 then t (j + d) else 0)"
proof (induction n arbitrary: s i j d)
  case 0
  then show ?case by simp
next
  case (Suc n)
  show ?case
  proof (cases "t j = 0")
    case True
    with Suc.prems show ?thesis by (cases d) (auto simp: memset_at)
  next
    case False
    show ?thesis
    proof (cases d)
      case 0
      with False show ?thesis by (simp add: strncpy_outside)
    next
      case d: (Suc d')
      with Suc.prems have "d' < n" by simp
      then have "strncpy (s(i := t j)) (i + 1) t (j + 1) n (i + 1 + d') =
          (if \<forall>l < d'. t (j + 1 + l) \<noteq> 0 then t (j + 1 + d') else 0)"
        by (rule Suc.IH)
      with d False show ?thesis by (auto simp: All_less_Suc2)
    qed
  qed
qed

text \<open>
  \<^verbatim>\<open>strncpy\<close> and \<^verbatim>\<open>strncmp\<close> fit together: the copy compares equal to the original, which is what the
  directory code relies on.
\<close>

lemma strncmp_strncpy: "strncmp t j (strncpy s i t j n) i n = 0"
  by (simp add: strncmp_eq_0 same_str_def strncpy_inside)

lemma safestrcpy_loop_outside: "a < i \<or> a > i + n \<Longrightarrow> safestrcpy_loop s i t j n a = s a"
  by (induction n arbitrary: s i j) auto

text \<open>\<^verbatim>\<open>safestrcpy\<close> always leaves a NUL within the \<open>n\<close> bytes it may write, and writes no others.\<close>

lemma safestrcpy_terminates: "\<exists>k \<le> n. safestrcpy_loop s i t j n (i + k) = 0"
proof (induction n arbitrary: s i j)
  case 0
  then show ?case by simp
next
  case (Suc n)
  show ?case
  proof (cases "t j = 0")
    case True
    then show ?thesis by (intro exI [of _ 0]) simp
  next
    case False
    obtain k where "k \<le> n" and "safestrcpy_loop (s(i := t j)) (i + 1) t (j + 1) n (i + 1 + k) = 0"
      using Suc.IH by blast
    with False show ?thesis by (intro exI [of _ "Suc k"]) simp
  qed
qed

lemma strlen_from:
  assumes "\<And>k. n \<le> k \<Longrightarrow> k < z \<Longrightarrow> s (i + k) \<noteq> 0" and "s (i + z) = 0" and "n \<le> z"
  shows "strlen s i n = Some z"
  using assms
proof (induction "z - n" arbitrary: n)
  case 0
  then show ?case by (subst strlen.simps) auto
next
  case (Suc d)
  then have "n < z" by simp
  with Suc.prems have "s (i + n) \<noteq> 0" by auto
  moreover have "strlen s i (n + 1) = Some z"
    by (rule Suc.hyps) (use Suc in auto)
  ultimately show ?case by (subst strlen.simps) simp
qed

text \<open>\<^verbatim>\<open>strlen\<close> returns, and returns the distance to the first NUL, whenever there is one.\<close>

lemma strlen_eq:
  assumes "\<And>k. k < z \<Longrightarrow> s (i + k) \<noteq> 0" and "s (i + z) = 0"
  shows "strlen s i 0 = Some z"
  by (rule strlen_from) (use assms in auto)

end
