(* ===== verification/Kalloc.thy ===== *)
theory Kalloc
  imports Ksync Kstring
begin

text \<open>
  \<^verbatim>\<open>kernel/kalloc.c\<close>: the allocator of whole physical pages.  Free pages form a linked list whose links
  are stored in the pages themselves, so the state is physical memory and the head of the list.
  The address \<^verbatim>\<open>end\<close>, the first after the kernel image, is given by the linker: it is a field of the
  state that nothing writes.  The kernel's page table, a global of \<^verbatim>\<open>vm.c\<close>, is a field here too.
\<close>

section \<open>Pages and physical memory\<close>

definition PGSIZE :: nat where [params]: "PGSIZE = 4096"

definition PGROUNDUP :: "uint64 \<Rightarrow> uint64" where
  "PGROUNDUP sz = (sz + 4096 - 1) AND NOT (4096 - 1)"

definition PGROUNDDOWN :: "uint64 \<Rightarrow> uint64" where
  "PGROUNDDOWN a = a AND NOT (4096 - 1)"

definition KERNBASE :: uint64 where [params]: "KERNBASE = 0x80000000"
definition PHYSTOP :: uint64 where [params]: "PHYSTOP = KERNBASE + 128*1024*1024"

record kmem_st = kcore +
  pmem :: bytes
  freelist :: uint64
  kend :: uint64
  kernel_pagetable :: uint64

section \<open>The allocator\<close>

definition kfree :: "uint64 \<Rightarrow> ('a kmem_st_scheme, unit) kern" where
  "kfree pa =
     kdo (gets kend) (\<lambda>end'.
       if unat pa mod PGSIZE \<noteq> 0 \<or> pa < end' \<or> pa \<ge> PHYSTOP then panic ''kfree''
       else
         kdo (modify (\<lambda>s. s\<lparr>pmem := memset (pmem s) (unat pa) 1 PGSIZE\<rparr>)) (\<lambda>_.
         kdo (acquire Kmem_lock) (\<lambda>_.
         kdo (modify (\<lambda>s. s\<lparr>pmem := put64 (pmem s) (unat pa) (freelist s)\<rparr>)) (\<lambda>_.
         kdo (modify (\<lambda>s. s\<lparr>freelist := pa\<rparr>)) (\<lambda>_.
         release Kmem_lock)))))"

definition kalloc :: "('a kmem_st_scheme, uint64) kern" where
  "kalloc =
     kdo (acquire Kmem_lock) (\<lambda>_.
     kdo (gets freelist) (\<lambda>r.
     kdo (kwhen (r \<noteq> 0) (modify (\<lambda>s. s\<lparr>freelist := get64 (pmem s) (unat r)\<rparr>))) (\<lambda>_.
     kdo (release Kmem_lock) (\<lambda>_.
     kdo (kwhen (r \<noteq> 0) (modify (\<lambda>s. s\<lparr>pmem := memset (pmem s) (unat r) 5 PGSIZE\<rparr>))) (\<lambda>_.
     ret r)))))"

text \<open>
  The loop of \<^verbatim>\<open>freerange\<close>.  Its fuel, the number of pages below the end of the range, is enough
  for every range the kernel frees (\<open>freerange_loop_pages\<close>).
\<close>

primrec freerange_loop :: "nat \<Rightarrow> uint64 \<Rightarrow> uint64 \<Rightarrow> ('a kmem_st_scheme, unit) kern" where
  "freerange_loop 0 p pa_end = diverge"
| "freerange_loop (Suc fuel) p pa_end =
     (if p + 4096 \<le> pa_end then kdo (kfree p) (\<lambda>_. freerange_loop fuel (p + 4096) pa_end)
      else ret ())"

definition freerange :: "uint64 \<Rightarrow> uint64 \<Rightarrow> ('a kmem_st_scheme, unit) kern" where
  "freerange pa_start pa_end =
     freerange_loop (unat pa_end div PGSIZE + 1) (PGROUNDUP pa_start) pa_end"

definition kinit :: "('a kmem_st_scheme, unit) kern" where
  "kinit = kdo (gets kend) (\<lambda>end'. freerange end' PHYSTOP)"

section \<open>Rounding to pages\<close>

lemma and_not_mask_shift: "w AND NOT (4096 - 1) = push_bit 12 (drop_bit 12 (w :: uint64))"
proof -
  have m: "(4096 - 1 :: uint64) = mask 12" by (simp add: mask_eq_exp_minus_1)
  show ?thesis unfolding m
    by (rule bit_word_eqI) (auto simp: bit_and_iff bit_not_iff bit_mask_iff bit_push_bit_iff bit_drop_bit_eq)
qed

lemma and_not_mask_unat: "unat (w AND NOT (4096 - 1) :: uint64) = 4096 * (unat w div 4096)"
proof -
  have "unat (drop_bit 12 w) = unat w div 4096"
    by (subst unat_drop_bit_eq) (simp add: drop_bit_eq_div)
  moreover have "unat w < 2 ^ 64" by (rule order_less_le_trans [OF unsigned_less]) simp
  then have "4096 * (unat w div 4096) < 2 ^ 64" by simp
  ultimately show ?thesis unfolding and_not_mask_shift by (simp add: push_bit_eq_mult unat_word_ariths)
qed

lemma unat_PGROUNDDOWN: "unat (PGROUNDDOWN a) = 4096 * (unat a div 4096)"
  unfolding PGROUNDDOWN_def by (rule and_not_mask_unat)

lemma unat_PGROUNDUP:
  assumes "unat a + 4095 < 2 ^ 64"
  shows "unat (PGROUNDUP a) = 4096 * ((unat a + 4095) div 4096)"
proof -
  have "a + 4096 - 1 = a + 4095" by simp
  moreover have "unat (a + 4095) = unat a + 4095"
    using assms by (simp add: unat_word_ariths)
  ultimately show ?thesis unfolding PGROUNDUP_def by (simp only: and_not_mask_unat)
qed

section \<open>Its invariant\<close>

text \<open>The list of free pages that starts at \<open>x\<close>.\<close>

primrec free_list :: "bytes \<Rightarrow> uint64 \<Rightarrow> uint64 list \<Rightarrow> bool" where
  "free_list m x [] \<longleftrightarrow> x = 0"
| "free_list m x (a # as) \<longleftrightarrow> x = a \<and> a \<noteq> 0 \<and> free_list m (get64 m (unat a)) as"

text \<open>A page the allocator may hand out: aligned, above the kernel image, within RAM.\<close>

definition page_ok :: "uint64 \<Rightarrow> uint64 \<Rightarrow> bool" where
  "page_ok end' a \<longleftrightarrow> unat a mod PGSIZE = 0 \<and> end' \<le> a \<and> a < PHYSTOP"

definition kmem_ok :: "'a kmem_st_scheme \<Rightarrow> uint64 list \<Rightarrow> bool" where
  "kmem_ok s xs \<longleftrightarrow> free_list (pmem s) (freelist s) xs \<and> distinct xs \<and>
     (\<forall>a \<in> set xs. page_ok (kend s) a) \<and> 0 < kend s"

lemma page_ok_nonzero: "page_ok e a \<Longrightarrow> 0 < e \<Longrightarrow> a \<noteq> 0"
  by (auto simp: page_ok_def)

text \<open>Distinct pages do not overlap.\<close>

lemma pages_disjoint:
  assumes "a mod PGSIZE = 0" and "b mod PGSIZE = 0" and "a \<noteq> b"
  shows "a + PGSIZE \<le> b \<or> b + PGSIZE \<le> a"
proof -
  from assms obtain i j where "a = PGSIZE * i" and "b = PGSIZE * j" by (metis mod_0_imp_dvd dvdE)
  with assms(3) show ?thesis using apart_array [of i j PGSIZE 0] by (auto simp: apart_def)
qed

lemma page_ok_disjoint:
  assumes "page_ok e a" and "page_ok e b" and "a \<noteq> b"
  shows "unat a + PGSIZE \<le> unat b \<or> unat b + PGSIZE \<le> unat a"
  using assms pages_disjoint [of "unat a" "unat b"] by (simp add: page_ok_def word_unat_eq_iff)

text \<open>A list of free pages depends only on the first eight bytes of each of its pages.\<close>

lemma free_list_cong:
  assumes "\<And>a k. a \<in> set xs \<Longrightarrow> k < 8 \<Longrightarrow> m' (unat a + k) = m (unat a + k)"
  shows "free_list m' x xs = free_list m x xs"
  using assms
proof (induction xs arbitrary: x)
  case Nil
  then show ?case by simp
next
  case (Cons a as)
  have "get64 m' (unat a) = get64 m (unat a)" by (rule get64_cong) (use Cons.prems in simp)
  with Cons show ?case by simp
qed

lemma free_list_outside:
  assumes "\<And>i. i < unat p \<or> unat p + PGSIZE \<le> i \<Longrightarrow> m' i = m i"
    and "page_ok e p" and "p \<notin> set xs" and "\<And>a. a \<in> set xs \<Longrightarrow> page_ok e a"
  shows "free_list m' x xs = free_list m x xs"
proof (rule free_list_cong)
  fix a and k :: nat assume a: "a \<in> set xs" and "k < 8"
  with assms have "a \<noteq> p" by auto
  then have "unat a + PGSIZE \<le> unat p \<or> unat p + PGSIZE \<le> unat a"
    using page_ok_disjoint assms(2) assms(4) [OF a] by blast
  with \<open>k < 8\<close> show "m' (unat a + k) = m (unat a + k)"
    by (intro assms(1)) (auto simp: params)
qed

section \<open>What the operations do\<close>

text \<open>
  With a page to give, \<^verbatim>\<open>kalloc\<close> takes the first of the list, fills it with the junk byte 5, and
  leaves the rest of memory alone.
\<close>

lemma kalloc_some:
  assumes ok: "kmem_ok s (a # as)" and l: "Kmem_lock \<notin> held s"
  shows "kalloc s = Ok a (s\<lparr>freelist := get64 (pmem s) (unat a),
                            pmem := memset (pmem s) (unat a) 5 PGSIZE\<rparr>)"
    and "kmem_ok (s\<lparr>freelist := get64 (pmem s) (unat a), pmem := memset (pmem s) (unat a) 5 PGSIZE\<rparr>) as"
proof -
  from ok have a: "freelist s = a" "a \<noteq> 0" by (auto simp: kmem_ok_def)
  with l show "kalloc s = Ok a (s\<lparr>freelist := get64 (pmem s) (unat a),
                            pmem := memset (pmem s) (unat a) 5 PGSIZE\<rparr>)"
    by (simp add: kalloc_def kern_simps)
  from ok have "free_list (memset (pmem s) (unat a) 5 PGSIZE) (get64 (pmem s) (unat a)) as
      = free_list (pmem s) (get64 (pmem s) (unat a)) as"
    by (intro free_list_outside [where p = a and e = "kend s"]) (auto simp: memset_at kmem_ok_def)
  with ok show "kmem_ok (s\<lparr>freelist := get64 (pmem s) (unat a), pmem := memset (pmem s) (unat a) 5 PGSIZE\<rparr>) as"
    by (auto simp: kmem_ok_def)
qed

lemma kalloc_none:
  assumes "kmem_ok s []" and "Kmem_lock \<notin> held s"
  shows "kalloc s = Ok 0 s"
  using assms by (simp add: kalloc_def kern_simps kmem_ok_def)

lemma kfree_state:
  assumes ok: "kmem_ok s xs" and p: "page_ok (kend s) p" "p \<notin> set xs" and l: "Kmem_lock \<notin> held s"
  shows "kfree p s = Ok () (s\<lparr>pmem := put64 (memset (pmem s) (unat p) 1 PGSIZE) (unat p) (freelist s),
                              freelist := p\<rparr>)"
    and "kmem_ok (s\<lparr>pmem := put64 (memset (pmem s) (unat p) 1 PGSIZE) (unat p) (freelist s),
                     freelist := p\<rparr>) (p # xs)"
proof -
  from p have g: "\<not> (unat p mod PGSIZE \<noteq> 0 \<or> p < kend s \<or> p \<ge> PHYSTOP)"
    by (auto simp: page_ok_def not_less not_le)
  with l show "kfree p s = Ok () (s\<lparr>pmem := put64 (memset (pmem s) (unat p) 1 PGSIZE) (unat p) (freelist s),
                              freelist := p\<rparr>)"
    by (simp add: kfree_def kern_simps)
  have "free_list (put64 (memset (pmem s) (unat p) 1 PGSIZE) (unat p) (freelist s)) (freelist s) xs
      = free_list (pmem s) (freelist s) xs"
    using ok p by (intro free_list_outside [where p = p and e = "kend s"])
      (auto simp: memset_at put64_outside kmem_ok_def params)
  moreover have "p \<noteq> 0" using p ok by (auto simp: kmem_ok_def dest: page_ok_nonzero)
  ultimately show "kmem_ok (s\<lparr>pmem := put64 (memset (pmem s) (unat p) 1 PGSIZE) (unat p) (freelist s),
                     freelist := p\<rparr>) (p # xs)"
    using ok p by (auto simp: kmem_ok_def get64_put64)
qed

text \<open>Anything that is not a page of the allocator's range makes \<^verbatim>\<open>kfree\<close> panic.\<close>

lemma kfree_bad: "\<not> page_ok (kend s) p \<Longrightarrow> kfree p s = Panic ''kfree''"
  by (auto simp: kfree_def page_ok_def kern_simps not_less not_le)

section \<open>Filling the allocator\<close>

text \<open>The \<open>n\<close> pages from address \<open>p\<close> on.\<close>

definition page_run :: "uint64 \<Rightarrow> nat \<Rightarrow> uint64 list" where
  "page_run p n = map (\<lambda>i. p + of_nat (PGSIZE * i)) [0..<n]"

lemma page_run_Suc: "page_run p (Suc n) = p # page_run (p + 4096) n"
  by (simp add: page_run_def upt_conv_Cons map_Suc_upt [symmetric] params algebra_simps del: upt_Suc)

lemma freerange_loop_pages:
  assumes "kmem_ok s xs" and "Kmem_lock \<notin> held s"
    and "unat p mod PGSIZE = 0" and "kend s \<le> p" and "p \<le> pa_end" and "pa_end \<le> PHYSTOP"
    and "\<forall>a \<in> set xs. a < p"
    and "(unat pa_end - unat p) div PGSIZE < fuel"
  shows "\<exists>m f. freerange_loop fuel p pa_end s = Ok () (s\<lparr>pmem := m, freelist := f\<rparr>) \<and>
      kmem_ok (s\<lparr>pmem := m, freelist := f\<rparr>)
        (rev (page_run p ((unat pa_end - unat p) div PGSIZE)) @ xs)"
  using assms
proof (induction fuel arbitrary: s p xs)
  case 0
  then show ?case by simp
next
  case (Suc fuel)
  have top: "unat pa_end \<le> 0x88000000"
    using Suc.prems(6) by (simp add: word_le_nat_alt params)
  have p: "unat p \<le> unat pa_end" using Suc.prems(5) by (simp add: word_le_nat_alt)
  then have p4: "unat (p + 4096) = unat p + 4096" using top by (simp add: unat_word_ariths)
  show ?case
  proof (cases "p + 4096 \<le> pa_end")
    case False
    then have "unat pa_end - unat p < PGSIZE" by (simp add: word_le_nat_alt p4 params)
    then have "(unat pa_end - unat p) div PGSIZE = 0" by simp
    then show ?thesis using False Suc.prems(1)
      by (intro exI [of _ "pmem s"] exI [of _ "freelist s"]) (simp add: kern_simps page_run_def)
  next
    case True
    then have le: "unat p + 4096 \<le> unat pa_end" by (simp add: word_le_nat_alt p4)
    have pok: "page_ok (kend s) p" "p \<notin> set xs"
      using Suc.prems le top by (auto simp: page_ok_def word_less_nat_alt params)
    let ?s1 = "s\<lparr>pmem := put64 (memset (pmem s) (unat p) 1 PGSIZE) (unat p) (freelist s), freelist := p\<rparr>"
    note free = kfree_state [OF Suc.prems(1) pok Suc.prems(2)]
    have n: "(unat pa_end - unat p) div PGSIZE = Suc ((unat pa_end - unat (p + 4096)) div PGSIZE)"
      using le by (simp add: p4 params div_if)
    have "\<exists>m f. freerange_loop fuel (p + 4096) pa_end ?s1 = Ok () (?s1\<lparr>pmem := m, freelist := f\<rparr>) \<and>
      kmem_ok (?s1\<lparr>pmem := m, freelist := f\<rparr>)
        (rev (page_run (p + 4096) ((unat pa_end - unat (p + 4096)) div PGSIZE)) @ p # xs)"
    proof (rule Suc.IH)
      show "kmem_ok ?s1 (p # xs)" by (rule free(2))
      show "\<forall>a \<in> set (p # xs). a < p + 4096"
        using Suc.prems(7) by (auto simp: word_less_nat_alt p4 intro: less_trans)
      show "kend ?s1 \<le> p + 4096" using Suc.prems(4) by (simp add: word_le_nat_alt p4)
      show "unat (p + 4096) mod PGSIZE = 0" using Suc.prems(3) by (simp add: p4 params)
      show "(unat pa_end - unat (p + 4096)) div PGSIZE < fuel" using Suc.prems(8) n by simp
    qed (use Suc.prems True in simp_all)
    then show ?thesis using True by (simp add: kdo_def free(1) n page_run_Suc)
  qed
qed

text \<open>
  \<^verbatim>\<open>kinit\<close> returns, and every whole page between the end of the kernel and the top of RAM is then free.
\<close>

lemma kinit_pages:
  assumes "freelist s = 0" and "Kmem_lock \<notin> held s" and "0 < kend s" and "kend s \<le> PHYSTOP"
  shows "\<exists>m f. kinit s = Ok () (s\<lparr>pmem := m, freelist := f\<rparr>) \<and>
    kmem_ok (s\<lparr>pmem := m, freelist := f\<rparr>)
      (rev (page_run (PGROUNDUP (kend s)) ((unat PHYSTOP - unat (PGROUNDUP (kend s))) div PGSIZE)))"
proof -
  have e: "unat (kend s) \<le> 0x88000000" using assms(4) by (simp add: word_le_nat_alt params)
  then have r: "unat (PGROUNDUP (kend s)) = 4096 * ((unat (kend s) + 4095) div 4096)"
    by (intro unat_PGROUNDUP) simp
  have lo: "unat (kend s) \<le> unat (PGROUNDUP (kend s))" unfolding r
    using div_mult_mod_eq [of "unat (kend s) + 4095" 4096] mod_less_divisor [of 4096 "unat (kend s) + 4095"]
    by linarith
  have "(unat (kend s) + 4095) div 4096 \<le> (0x88000000 + 4095) div 4096"
    by (rule div_le_mono) (use e in simp)
  then have hi: "unat (PGROUNDUP (kend s)) \<le> unat PHYSTOP" unfolding r by (simp add: params)
  have "\<exists>m f. freerange_loop (unat PHYSTOP div PGSIZE + 1) (PGROUNDUP (kend s)) PHYSTOP s
      = Ok () (s\<lparr>pmem := m, freelist := f\<rparr>) \<and> kmem_ok (s\<lparr>pmem := m, freelist := f\<rparr>)
      (rev (page_run (PGROUNDUP (kend s)) ((unat PHYSTOP - unat (PGROUNDUP (kend s))) div PGSIZE)) @ [])"
  proof (rule freerange_loop_pages)
    show "unat (PGROUNDUP (kend s)) mod PGSIZE = 0" by (simp add: r params)
    show "(unat PHYSTOP - unat (PGROUNDUP (kend s))) div PGSIZE < unat PHYSTOP div PGSIZE + 1"
      by (simp add: div_le_mono less_Suc_eq_le)
  qed (use assms lo hi in \<open>auto simp: kmem_ok_def word_le_nat_alt\<close>)
  then show ?thesis by (simp add: kinit_def freerange_def kern_simps)
qed

section \<open>The allocator as an interface\<close>

text \<open>
  What the rest of the kernel relies on: a set of free pages, an allocation that takes one of them
  whenever there is one and says so by returning it, and a release that puts one back.
\<close>

locale page_allocator =
  fixes ok :: "'s \<Rightarrow> bool"
    and free :: "'s \<Rightarrow> 'p set"
    and owned :: "'s \<Rightarrow> 'p \<Rightarrow> bool"
    and null :: 'p
    and alloc :: "('s, 'p) kern"
    and dealloc :: "'p \<Rightarrow> ('s, unit) kern"
  assumes alloc_some: "ok s \<Longrightarrow> free s \<noteq> {} \<Longrightarrow>
      \<exists>p t. alloc s = Ok p t \<and> ok t \<and> p \<in> free s \<and> free t = free s - {p} \<and> owned t p \<and> p \<noteq> null"
    and alloc_none: "ok s \<Longrightarrow> free s = {} \<Longrightarrow> alloc s = Ok null s"
    and dealloc_owned: "ok s \<Longrightarrow> owned s p \<Longrightarrow>
      \<exists>t. dealloc p s = Ok () t \<and> ok t \<and> free t = insert p (free s)"
begin

text \<open>An allocation gives a page no one else has, or null exactly when there is none.\<close>

lemma alloc_fresh:
  assumes "ok s"
  shows "\<exists>p t. alloc s = Ok p t \<and> ok t \<and> (p = null \<longleftrightarrow> free s = {}) \<and>
    (p \<noteq> null \<longrightarrow> p \<in> free s \<and> free t = free s - {p})"
proof (cases "free s = {}")
  case True
  with alloc_none [OF assms] assms show ?thesis by simp
next
  case False
  then obtain p t where "alloc s = Ok p t" "ok t" "p \<in> free s" "free t = free s - {p}" "p \<noteq> null"
    using alloc_some [OF assms] by blast
  with False show ?thesis by simp
qed

text \<open>Giving back what was allocated restores the set of free pages.\<close>

lemma alloc_dealloc:
  assumes "ok s" and "free s \<noteq> {}"
  shows "\<exists>p t u. alloc s = Ok p t \<and> dealloc p t = Ok () u \<and> ok u \<and> free u = free s"
proof -
  from alloc_some [OF assms] obtain p t where
    a: "alloc s = Ok p t" "ok t" "p \<in> free s" "free t = free s - {p}" "owned t p" by blast
  from dealloc_owned [OF a(2,5)] obtain u where "dealloc p t = Ok () u" "ok u" "free u = insert p (free t)"
    by blast
  with a show ?thesis by (intro exI [of _ p] exI [of _ t] exI [of _ u]) auto
qed

end

definition kmem_wf :: "'a kmem_st_scheme \<Rightarrow> bool" where
  "kmem_wf s \<longleftrightarrow> (\<exists>xs. kmem_ok s xs) \<and> Kmem_lock \<notin> held s"

definition free_pages :: "'a kmem_st_scheme \<Rightarrow> uint64 set" where
  "free_pages s = {a. \<exists>xs. kmem_ok s xs \<and> a \<in> set xs}"

definition page_owned :: "'a kmem_st_scheme \<Rightarrow> uint64 \<Rightarrow> bool" where
  "page_owned s p \<longleftrightarrow> page_ok (kend s) p \<and> p \<notin> free_pages s"

lemma free_list_unique: "free_list m x xs \<Longrightarrow> free_list m x ys \<Longrightarrow> xs = ys"
proof (induction xs arbitrary: x ys)
  case Nil
  then show ?case by (cases ys) auto
next
  case (Cons a xs)
  then show ?case by (cases ys) auto
qed

lemma free_pages_eq:
  assumes "kmem_ok s xs"
  shows "free_pages s = set xs"
proof -
  have "ys = xs" if "kmem_ok s ys" for ys
    using that assms unfolding kmem_ok_def by (metis free_list_unique)
  with assms show ?thesis unfolding free_pages_def by blast
qed

interpretation km: page_allocator kmem_wf free_pages page_owned 0 kalloc kfree
proof
  fix s :: "'a kmem_st_scheme"
  assume "kmem_wf s"
  then obtain xs where xs: "kmem_ok s xs" and l: "Kmem_lock \<notin> held s" by (auto simp: kmem_wf_def)
  {
    assume "free_pages s \<noteq> {}"
    with xs obtain a as where ok: "kmem_ok s (a # as)" by (cases xs) (auto simp: free_pages_eq)
    let ?t = "s\<lparr>freelist := get64 (pmem s) (unat a), pmem := memset (pmem s) (unat a) 5 PGSIZE\<rparr>"
    note a = kalloc_some [OF ok l]
    have "a \<notin> set as" "page_ok (kend s) a" "a \<noteq> 0" using ok by (auto simp: kmem_ok_def)
    with a l ok show "\<exists>p t. kalloc s = Ok p t \<and> kmem_wf t \<and> p \<in> free_pages s \<and>
        free_pages t = free_pages s - {p} \<and> page_owned t p \<and> p \<noteq> 0"
      by (intro exI [of _ a] exI [of _ ?t])
        (auto simp: kmem_wf_def free_pages_eq [OF ok] free_pages_eq [OF a(2)] page_owned_def)
  next
    assume "free_pages s = {}"
    with xs have "kmem_ok s []" by (auto simp: free_pages_eq)
    from kalloc_none [OF this l] show "kalloc s = Ok 0 s" .
  next
    fix p assume "page_owned s p"
    with xs have p: "page_ok (kend s) p" "p \<notin> set xs" by (auto simp: page_owned_def free_pages_eq)
    note f = kfree_state [OF xs p l]
    show "\<exists>t. kfree p s = Ok () t \<and> kmem_wf t \<and> free_pages t = insert p (free_pages s)"
      using f l by (auto simp: kmem_wf_def free_pages_eq [OF xs] free_pages_eq [OF f(2)])
  }
qed

section \<open>The allocator and its clients\<close>

text \<open>
  A run of the allocator: the pages handed out so far and not given back are \<open>own\<close>.  A client may
  allocate, give back a page it owns, and write anywhere in a page it owns.
\<close>

inductive kmem_step :: "('a kmem_st_scheme \<times> uint64 set) \<Rightarrow> ('a kmem_st_scheme \<times> uint64 set) \<Rightarrow> bool" where
  alloc_page: "kalloc s = Ok p t \<Longrightarrow> p \<noteq> 0 \<Longrightarrow> kmem_step (s, own) (t, insert p own)"
| alloc_null: "kalloc s = Ok 0 t \<Longrightarrow> kmem_step (s, own) (t, own)"
| free_page: "p \<in> own \<Longrightarrow> kfree p s = Ok () t \<Longrightarrow> kmem_step (s, own) (t, own - {p})"
| write_page: "p \<in> own \<Longrightarrow> unat p \<le> a \<Longrightarrow> a < unat p + PGSIZE \<Longrightarrow>
    kmem_step (s, own) (s\<lparr>pmem := (pmem s)(a := v)\<rparr>, own)"

inductive_cases kmem_stepE: "kmem_step (s, own) x"

text \<open>
  The pages between \<open>e\<close> and the top of RAM are free or owned, and none is both.
\<close>

fun kmem_inv :: "uint64 \<Rightarrow> ('a kmem_st_scheme \<times> uint64 set) \<Rightarrow> bool" where
  "kmem_inv e (s, own) \<longleftrightarrow> kmem_wf s \<and> kend s = e \<and>
     own \<inter> free_pages s = {} \<and> own \<union> free_pages s = {a. page_ok e a}"

fun kmem_start :: "uint64 \<Rightarrow> ('a kmem_st_scheme \<times> uint64 set) \<Rightarrow> bool" where
  "kmem_start e (s, own) \<longleftrightarrow> own = {} \<and>
     (\<exists>s0. kinit s0 = Ok () s \<and> freelist s0 = 0 \<and> Kmem_lock \<notin> held s0 \<and>
           0 < kend s0 \<and> kend s0 \<le> PHYSTOP \<and> kend s0 = e)"

lemma page_run_all:
  assumes "0 < e" and "e \<le> PHYSTOP"
  shows "set (page_run (PGROUNDUP e) ((unat PHYSTOP - unat (PGROUNDUP e)) div PGSIZE)) = {a. page_ok e a}"
    (is "set (page_run ?r ?n) = _")
proof -
  have e: "unat e \<le> 0x88000000" using assms(2) by (simp add: word_le_nat_alt params)
  then have r: "unat ?r = 4096 * ((unat e + 4095) div 4096)"
    by (intro unat_PGROUNDUP) simp
  have lo: "unat e \<le> unat ?r" and hi: "unat ?r < unat e + 4096" unfolding r
    using div_mult_mod_eq [of "unat e + 4095" 4096] mod_less_divisor [of 4096 "unat e + 4095"] by linarith+
  have top: "unat PHYSTOP = 4096 * 0x88000" by (simp add: params)
  have at: "unat (?r + of_nat (PGSIZE * i)) = unat ?r + 4096 * i" if "i < ?n" for i
  proof -
    have "4096 * i < 4096 * ?n" using that by simp
    also have "\<dots> \<le> unat PHYSTOP - unat ?r" by (simp add: params)
    finally have "unat ?r + 4096 * i < 2 ^ 64" using top by simp
    then show ?thesis by (simp add: params unat_word_ariths unat_of_nat unsigned_of_nat take_bit_nat_eq_self)
  qed
  have "page_ok e (?r + of_nat (PGSIZE * i))" if i: "i < ?n" for i
  proof -
    have "4096 * i < 4096 * ?n" using i by simp
    also have "\<dots> \<le> unat PHYSTOP - unat ?r" by (simp add: params)
    finally show ?thesis using lo r
      unfolding page_ok_def word_le_nat_alt word_less_nat_alt at [OF i] by (simp add: params)
  qed
  moreover have "a \<in> set (page_run ?r ?n)" if a: "page_ok e a" for a
  proof -
    from a obtain k where k: "unat a = 4096 * k" by (auto simp: page_ok_def params elim: dvdE)
    have "unat e \<le> unat a" "unat a < unat PHYSTOP" using a by (auto simp: page_ok_def word_le_nat_alt word_less_nat_alt)
    then have "(unat e + 4095) div 4096 \<le> k" "k < 0x88000" using k top r hi by auto
    then obtain i where i: "k = (unat e + 4095) div 4096 + i" by (metis le_Suc_ex)
    have "i < ?n" using i \<open>k < 0x88000\<close> r top by (simp add: params)
    with at [of i] i k r have "a = ?r + of_nat (PGSIZE * i)" by (simp add: word_unat_eq_iff)
    with \<open>i < ?n\<close> show ?thesis by (auto simp: page_run_def)
  qed
  ultimately show ?thesis by (auto simp: page_run_def)
qed

lemma kinit_all:
  assumes "freelist s = 0" and "Kmem_lock \<notin> held s" and "0 < kend s" and "kend s \<le> PHYSTOP"
  shows "\<exists>t. kinit s = Ok () t \<and> kmem_wf t \<and> kend t = kend s \<and> free_pages t = {a. page_ok (kend s) a}"
proof -
  from kinit_pages [OF assms] obtain m f where e: "kinit s = Ok () (s\<lparr>pmem := m, freelist := f\<rparr>)"
    and ok: "kmem_ok (s\<lparr>pmem := m, freelist := f\<rparr>)
      (rev (page_run (PGROUNDUP (kend s)) ((unat PHYSTOP - unat (PGROUNDUP (kend s))) div PGSIZE)))" by blast
  from e ok assms(2) page_run_all [OF assms(3,4)] show ?thesis
    by (auto simp: kmem_wf_def free_pages_eq [OF ok])
qed

lemma kalloc_kend: "kalloc s = Ok p t \<Longrightarrow> kend t = kend s"
  by (auto simp: kalloc_def kern_simps acquire_def release_def kdo_def kmonad_defs kwhen_def
      split: if_splits outcome.splits)

lemma kfree_kend: "kfree p s = Ok u t \<Longrightarrow> kend t = kend s"
  by (auto simp: kfree_def kern_simps acquire_def release_def kdo_def kmonad_defs kwhen_def
      split: if_splits outcome.splits)

lemma write_page_inv:
  assumes i: "kmem_inv e (s, own)" and p: "p \<in> own" "unat p \<le> a" "a < unat p + PGSIZE"
  shows "kmem_inv e (s\<lparr>pmem := (pmem s)(a := v)\<rparr>, own)"
proof -
  let ?t = "s\<lparr>pmem := (pmem s)(a := v)\<rparr>"
  from i obtain xs where xs: "kmem_ok s xs" by (auto simp: kmem_wf_def)
  have "page_ok e p" "p \<notin> set xs" using i p free_pages_eq [OF xs] by auto
  then have "free_list (pmem ?t) (freelist s) xs = free_list (pmem s) (freelist s) xs"
    using xs p i by (intro free_list_outside [where p = p and e = e]) (auto simp: kmem_ok_def)
  with xs have t: "kmem_ok ?t xs" by (simp add: kmem_ok_def)
  then show ?thesis using i by (auto simp: kmem_wf_def free_pages_eq [OF xs] free_pages_eq [OF t])
qed

interpretation kmem_m: machine "kmem_start e" kmem_step "kmem_inv e" for e
proof
  fix x :: "'a kmem_st_scheme \<times> uint64 set"
  assume "kmem_start e x"
  then obtain s s0 where x: "x = (s, {})" and s0: "kinit s0 = Ok () s" "freelist s0 = 0"
    "Kmem_lock \<notin> held s0" "0 < kend s0" "kend s0 \<le> PHYSTOP" "kend s0 = e" by (cases x) auto
  from kinit_all [OF s0(2-5)] s0 show "kmem_inv e x" by (auto simp: x)
next
  fix x y :: "'a kmem_st_scheme \<times> uint64 set"
  assume i: "kmem_inv e x" and "kmem_step x y"
  from this(2) show "kmem_inv e y"
  proof cases
    case (alloc_page s p t own)
    with i km.alloc_fresh [of s] kalloc_kend [of s p t] show ?thesis by fastforce
  next
    case (alloc_null s t own)
    with i km.alloc_fresh [of s] km.alloc_none [of s] kalloc_kend [of s 0 t] show ?thesis by fastforce
  next
    case (free_page p own s t)
    then have "page_owned s p" using i by (auto simp: page_owned_def)
    then obtain u where "kfree p s = Ok () u" "kmem_wf u" "free_pages u = insert p (free_pages s)"
      using i free_page km.dealloc_owned [of s p] by auto
    with free_page i kfree_kend [of p s "()" t] show ?thesis by auto
  next
    case (write_page p own a s v)
    with i show ?thesis using write_page_inv by blast
  qed
qed

text \<open>
  C2.  After \<^verbatim>\<open>kinit\<close>, whatever sequence of allocations, releases of owned pages and writes into owned
  pages the kernel performs: every page of RAM above the kernel is either free or owned by exactly
  one client, \<^verbatim>\<open>kalloc\<close> returns, returns null exactly when every page is taken and otherwise a page
  nobody owned, and giving back an owned page does not panic.
\<close>

theorem kalloc_exclusive:
  assumes "kmem_start e (s0, {})" and "kmem_step\<^sup>*\<^sup>* (s0, {}) (s, own)"
  shows "own \<inter> free_pages s = {} \<and> own \<union> free_pages s = {a. page_ok e a} \<and>
    (\<exists>p t. kalloc s = Ok p t \<and> (p = 0 \<longleftrightarrow> own = {a. page_ok e a}) \<and> (p \<noteq> 0 \<longrightarrow> page_ok e p \<and> p \<notin> own)) \<and>
    (\<forall>p \<in> own. \<exists>t. kfree p s = Ok () t)"
proof -
  have i: "kmem_inv e (s, own)" using kmem_m.inv_reachable [OF assms] .
  then have 1: "own \<inter> free_pages s = {}" and 2: "own \<union> free_pages s = {a. page_ok e a}" by auto
  from i have "kmem_wf s" by simp
  from km.alloc_fresh [OF this] obtain p t where "kalloc s = Ok p t" "p = 0 \<longleftrightarrow> free_pages s = {}"
    "p \<noteq> 0 \<longrightarrow> p \<in> free_pages s" by blast
  moreover have "\<exists>t. kfree p s = Ok () t" if "p \<in> own" for p
    using km.dealloc_owned [of s p] i that by (auto simp: page_owned_def)
  moreover have "free_pages s = {} \<longleftrightarrow> own = {a. page_ok e a}" using 1 2 by auto
  ultimately show ?thesis using 1 2 by (metis (full_types) Int_iff Un_iff empty_iff mem_Collect_eq)
qed

definition ex_kmem :: kmem_st where
  "ex_kmem = kcore.extend ex_core \<lparr>pmem = (\<lambda>_. 0), freelist = 0, kend = 0x80021000, kernel_pagetable = 0\<rparr>"

lemma ex_kmem_sel [simp]:
  "held ex_kmem = {}" "freelist ex_kmem = 0" "kend ex_kmem = 0x80021000" "cpu_proc ex_kmem = Some 0"
  by (simp_all add: ex_kmem_def kcore.defs ex_core_def)

theorem kalloc_exclusive_witness:
  "\<exists>s0 p s. kinit ex_kmem = Ok () s0 \<and> kalloc s0 = Ok p s \<and> p \<noteq> 0 \<and>
     {p} \<inter> free_pages s = {} \<and> {p} \<union> free_pages s = {a. page_ok 0x80021000 a} \<and>
     (\<exists>q t. kalloc s = Ok q t \<and> (q = 0 \<longleftrightarrow> {p} = {a. page_ok 0x80021000 a}) \<and>
           (q \<noteq> 0 \<longrightarrow> page_ok 0x80021000 q \<and> q \<notin> {p})) \<and>
     (\<forall>q \<in> {p}. \<exists>t. kfree q s = Ok () t)"
proof -
  have "\<exists>t. kinit ex_kmem = Ok () t \<and> kmem_wf t \<and> kend t = kend ex_kmem \<and>
      free_pages t = {a. page_ok (kend ex_kmem) a}"
    by (rule kinit_all) (simp_all add: params)
  then obtain s0 where s0: "kinit ex_kmem = Ok () s0" "kmem_wf s0" "free_pages s0 = {a. page_ok 0x80021000 a}"
    by auto
  have "page_ok 0x80021000 0x80021000" by (simp add: page_ok_def params)
  then have "free_pages s0 \<noteq> {}" using s0 by blast
  then obtain p s where p: "kalloc s0 = Ok p s" "p \<noteq> 0" using km.alloc_some [OF s0(2)] by blast
  have "kmem_step (s0, {}) (s, insert p {})" by (rule kmem_step.alloc_page [OF p])
  moreover have "kmem_start 0x80021000 (s0, {})"
    using s0(1) by (auto simp: params intro!: exI [of _ ex_kmem])
  ultimately show ?thesis
    using kalloc_exclusive [of "0x80021000" s0 s "{p}"] s0(1) p by blast
qed

end
