(* ===== verification/Vm.thy ===== *)
theory Vm
  imports Kalloc
begin

text \<open>
  \<^verbatim>\<open>kernel/vm.c\<close>: Sv39 page tables.  Page tables live in physical memory, so all of this is code on
  \<open>pmem\<close>; a page-table entry is named by its physical address.  Buffers of the kernel that are not
  pages (the source of \<^verbatim>\<open>copyout\<close>, the destination of \<^verbatim>\<open>copyin\<close>) are byte arrays of their own.
\<close>

section \<open>Page-table entries\<close>

definition PTE_V :: uint64 where "PTE_V = 1"
definition PTE_R :: uint64 where "PTE_R = 2"
definition PTE_W :: uint64 where "PTE_W = 4"
definition PTE_X :: uint64 where "PTE_X = 8"
definition PTE_U :: uint64 where "PTE_U = 16"

definition PA2PTE :: "uint64 \<Rightarrow> uint64" where
  "PA2PTE pa = push_bit 10 (drop_bit 12 pa)"

definition PTE2PA :: "uint64 \<Rightarrow> uint64" where
  "PTE2PA pte = push_bit 12 (drop_bit 10 pte)"

definition PTE_FLAGS :: "uint64 \<Rightarrow> uint64" where
  "PTE_FLAGS pte = pte AND 0x3FF"

definition PXSHIFT :: "nat \<Rightarrow> nat" where
  "PXSHIFT level = 12 + 9 * level"

definition PX :: "nat \<Rightarrow> uint64 \<Rightarrow> uint64" where
  "PX level va = drop_bit (PXSHIFT level) va AND 0x1FF"

definition MAXVA :: uint64 where [params]: "MAXVA = push_bit (9 + 9 + 9 + 12 - 1) 1"

definition TRAMPOLINE :: uint64 where [params]: "TRAMPOLINE = MAXVA - 4096"
definition TRAPFRAME :: uint64 where [params]: "TRAPFRAME = TRAMPOLINE - 4096"

definition KSTACK :: "nat \<Rightarrow> uint64" where
  "KSTACK p = TRAMPOLINE - (of_nat p + 1) * 2 * 4096"

definition UART0 :: uint64 where [params]: "UART0 = 0x10000000"
definition VIRTIO0 :: uint64 where [params]: "VIRTIO0 = 0x10001000"
definition PLIC :: uint64 where [params]: "PLIC = 0x0c000000"

definition load_pte :: "uint64 \<Rightarrow> ('a kmem_st_scheme, uint64) kern" where
  "load_pte a = gets (\<lambda>s. get64 (pmem s) (unat a))"

definition store_pte :: "uint64 \<Rightarrow> uint64 \<Rightarrow> ('a kmem_st_scheme, unit) kern" where
  "store_pte a v = modify (\<lambda>s. s\<lparr>pmem := put64 (pmem s) (unat a) v\<rparr>)"

definition memset_page :: "uint64 \<Rightarrow> uchar \<Rightarrow> ('a kmem_st_scheme, unit) kern" where
  "memset_page pa v = modify (\<lambda>s. s\<lparr>pmem := memset (pmem s) (unat pa) v PGSIZE\<rparr>)"

section \<open>Walking and mapping\<close>

text \<open>
  \<^verbatim>\<open>walk\<close>: the loop over levels 2 and 1, then the address of the entry in the last table; 0 is the null
  pointer.
\<close>

primrec walk_loop :: "nat \<Rightarrow> uint64 \<Rightarrow> uint64 \<Rightarrow> bool \<Rightarrow> ('a kmem_st_scheme, uint64) kern" where
  "walk_loop 0 pagetable va alloc = ret (pagetable + 8 * PX 0 va)"
| "walk_loop (Suc l) pagetable va alloc =
     kdo (load_pte (pagetable + 8 * PX (Suc l) va)) (\<lambda>pte.
       if pte AND PTE_V \<noteq> 0 then walk_loop l (PTE2PA pte) va alloc
       else if \<not> alloc then ret 0
       else
         kdo kalloc (\<lambda>p.
           if p = 0 then ret 0
           else
             kdo (memset_page p 0) (\<lambda>_.
             kdo (store_pte (pagetable + 8 * PX (Suc l) va) (PA2PTE p OR PTE_V)) (\<lambda>_.
             walk_loop l p va alloc))))"

definition walk :: "uint64 \<Rightarrow> uint64 \<Rightarrow> bool \<Rightarrow> ('a kmem_st_scheme, uint64) kern" where
  "walk pagetable va alloc = (if va \<ge> MAXVA then panic ''walk'' else walk_loop 2 pagetable va alloc)"

definition walkaddr :: "uint64 \<Rightarrow> uint64 \<Rightarrow> ('a kmem_st_scheme, uint64) kern" where
  "walkaddr pagetable va =
     (if va \<ge> MAXVA then ret 0
      else
        kdo (walk pagetable va False) (\<lambda>pte.
          if pte = 0 then ret 0
          else
            kdo (load_pte pte) (\<lambda>e.
              if e AND PTE_V = 0 then ret 0
              else if e AND PTE_U = 0 then ret 0
              else ret (PTE2PA e))))"

text \<open>
  The loop of \<^verbatim>\<open>mappages\<close> runs once for each page of the range, which is the fuel it is given.
\<close>

primrec mappages_loop :: "nat \<Rightarrow> uint64 \<Rightarrow> uint64 \<Rightarrow> uint64 \<Rightarrow> uint64 \<Rightarrow> uint64 \<Rightarrow> ('a kmem_st_scheme, int) kern" where
  "mappages_loop 0 pagetable a last_a pa perm = diverge"
| "mappages_loop (Suc fuel) pagetable a last_a pa perm =
     kdo (walk pagetable a True) (\<lambda>pte.
       if pte = 0 then ret (-1)
       else
         kdo (load_pte pte) (\<lambda>e.
           if e AND PTE_V \<noteq> 0 then panic ''mappages: remap''
           else
             kdo (store_pte pte (PA2PTE pa OR perm OR PTE_V)) (\<lambda>_.
               if a = last_a then ret 0
               else mappages_loop fuel pagetable (a + 4096) last_a (pa + 4096) perm)))"

definition mappages :: "uint64 \<Rightarrow> uint64 \<Rightarrow> uint64 \<Rightarrow> uint64 \<Rightarrow> uint64 \<Rightarrow> ('a kmem_st_scheme, int) kern" where
  "mappages pagetable va sz pa perm =
     (if va mod 4096 \<noteq> 0 then panic ''mappages: va not aligned''
      else if sz mod 4096 \<noteq> 0 then panic ''mappages: size not aligned''
      else if sz = 0 then panic ''mappages: size''
      else mappages_loop (unat sz div PGSIZE) pagetable va (va + sz - 4096) pa perm)"

definition kvmmap :: "uint64 \<Rightarrow> uint64 \<Rightarrow> uint64 \<Rightarrow> uint64 \<Rightarrow> uint64 \<Rightarrow> ('a kmem_st_scheme, unit) kern" where
  "kvmmap kpgtbl va pa sz perm =
     kdo (mappages kpgtbl va sz pa perm) (\<lambda>r. if r \<noteq> 0 then panic ''kvmmap'' else ret ())"

definition proc_mapstacks :: "uint64 \<Rightarrow> ('a kmem_st_scheme, unit) kern" where
  "proc_mapstacks kpgtbl =
     for_each [0..<NPROC] (\<lambda>p.
       kdo kalloc (\<lambda>pa.
         if pa = 0 then panic ''kalloc''
         else kvmmap kpgtbl (KSTACK p) pa 4096 (PTE_R OR PTE_W)))"

text \<open>The linker's symbols \<^verbatim>\<open>etext\<close> and \<^verbatim>\<open>trampoline\<close> are parameters.\<close>

definition kvmmake :: "uint64 \<Rightarrow> uint64 \<Rightarrow> ('a kmem_st_scheme, uint64) kern" where
  "kvmmake etext trampoline =
     kdo kalloc (\<lambda>kpgtbl.
     kdo (memset_page kpgtbl 0) (\<lambda>_.
     kdo (kvmmap kpgtbl UART0 UART0 4096 (PTE_R OR PTE_W)) (\<lambda>_.
     kdo (kvmmap kpgtbl VIRTIO0 VIRTIO0 4096 (PTE_R OR PTE_W)) (\<lambda>_.
     kdo (kvmmap kpgtbl PLIC PLIC 0x400000 (PTE_R OR PTE_W)) (\<lambda>_.
     kdo (kvmmap kpgtbl KERNBASE KERNBASE (etext - KERNBASE) (PTE_R OR PTE_X)) (\<lambda>_.
     kdo (kvmmap kpgtbl etext etext (PHYSTOP - etext) (PTE_R OR PTE_W)) (\<lambda>_.
     kdo (kvmmap kpgtbl TRAMPOLINE trampoline 4096 (PTE_R OR PTE_X)) (\<lambda>_.
     kdo (proc_mapstacks kpgtbl) (\<lambda>_.
     ret kpgtbl)))))))))"

definition kvminit :: "uint64 \<Rightarrow> uint64 \<Rightarrow> ('a kmem_st_scheme, unit) kern" where
  "kvminit etext trampoline =
     kdo (kvmmake etext trampoline) (\<lambda>p. modify (\<lambda>s. s\<lparr>kernel_pagetable := p\<rparr>))"

section \<open>User address spaces\<close>

text \<open>
  The loop of \<^verbatim>\<open>uvmunmap\<close>, over the addresses from \<open>a\<close> below \<open>last_a\<close>; its fuel is one more than the number
  of pages.
\<close>

primrec uvmunmap_loop :: "nat \<Rightarrow> uint64 \<Rightarrow> uint64 \<Rightarrow> uint64 \<Rightarrow> bool \<Rightarrow> ('a kmem_st_scheme, unit) kern" where
  "uvmunmap_loop 0 pagetable a last_a do_free = diverge"
| "uvmunmap_loop (Suc fuel) pagetable a last_a do_free =
     (if a < last_a then
        kdo (walk pagetable a False) (\<lambda>pte.
          if pte = 0 then panic ''uvmunmap: walk''
          else
            kdo (load_pte pte) (\<lambda>e.
              if e AND PTE_V = 0 then panic ''uvmunmap: not mapped''
              else if PTE_FLAGS e = PTE_V then panic ''uvmunmap: not a leaf''
              else
                kdo (if do_free then kfree (PTE2PA e) else ret ()) (\<lambda>_.
                kdo (store_pte pte 0) (\<lambda>_.
                uvmunmap_loop fuel pagetable (a + 4096) last_a do_free))))
      else ret ())"

definition uvmunmap :: "uint64 \<Rightarrow> uint64 \<Rightarrow> uint64 \<Rightarrow> bool \<Rightarrow> ('a kmem_st_scheme, unit) kern" where
  "uvmunmap pagetable va npages do_free =
     (if va mod 4096 \<noteq> 0 then panic ''uvmunmap: not aligned''
      else uvmunmap_loop (unat npages + 1) pagetable va (va + npages * 4096) do_free)"

definition uvmcreate :: "('a kmem_st_scheme, uint64) kern" where
  "uvmcreate =
     kdo kalloc (\<lambda>pagetable.
       if pagetable = 0 then ret 0
       else kdo (memset_page pagetable 0) (\<lambda>_. ret pagetable))"

definition uvmfirst :: "uint64 \<Rightarrow> bytes \<Rightarrow> nat \<Rightarrow> ('a kmem_st_scheme, unit) kern" where
  "uvmfirst pagetable src sz =
     (if sz \<ge> PGSIZE then panic ''uvmfirst: more than a page''
      else
        kdo kalloc (\<lambda>mem.
        kdo (memset_page mem 0) (\<lambda>_.
        kdo (mappages pagetable 0 4096 mem (PTE_W OR PTE_R OR PTE_X OR PTE_U)) (\<lambda>_.
        modify (\<lambda>s. s\<lparr>pmem := blit (pmem s) (unat mem) src 0 sz\<rparr>)))))"

definition uvmdealloc :: "uint64 \<Rightarrow> uint64 \<Rightarrow> uint64 \<Rightarrow> ('a kmem_st_scheme, uint64) kern" where
  "uvmdealloc pagetable oldsz newsz =
     (if newsz \<ge> oldsz then ret oldsz
      else
        kdo (if PGROUNDUP newsz < PGROUNDUP oldsz
             then uvmunmap pagetable (PGROUNDUP newsz)
                    (scast (ucast ((PGROUNDUP oldsz - PGROUNDUP newsz) div 4096) :: uint)) True
             else ret ()) (\<lambda>_.
        ret newsz))"

primrec uvmalloc_loop :: "nat \<Rightarrow> uint64 \<Rightarrow> uint64 \<Rightarrow> uint64 \<Rightarrow> uint64 \<Rightarrow> uint64 \<Rightarrow> ('a kmem_st_scheme, uint64) kern" where
  "uvmalloc_loop 0 pagetable a oldsz newsz xperm = diverge"
| "uvmalloc_loop (Suc fuel) pagetable a oldsz newsz xperm =
     (if a < newsz then
        kdo kalloc (\<lambda>mem.
          if mem = 0 then kdo (uvmdealloc pagetable a oldsz) (\<lambda>_. ret 0)
          else
            kdo (memset_page mem 0) (\<lambda>_.
            kdo (mappages pagetable a 4096 mem (PTE_R OR PTE_U OR xperm)) (\<lambda>r.
              if r \<noteq> 0 then
                kdo (kfree mem) (\<lambda>_.
                kdo (uvmdealloc pagetable a oldsz) (\<lambda>_.
                ret 0))
              else uvmalloc_loop fuel pagetable (a + 4096) oldsz newsz xperm)))
      else ret newsz)"

definition uvmalloc :: "uint64 \<Rightarrow> uint64 \<Rightarrow> uint64 \<Rightarrow> uint64 \<Rightarrow> ('a kmem_st_scheme, uint64) kern" where
  "uvmalloc pagetable oldsz newsz xperm =
     (if newsz < oldsz then ret oldsz
      else uvmalloc_loop (unat newsz div PGSIZE + 2) pagetable (PGROUNDUP oldsz) (PGROUNDUP oldsz) newsz xperm)"

text \<open>
  \<^verbatim>\<open>freewalk\<close> recurs into the tables below; the fuel is the depth, and more levels than there are pages
  of RAM would be a cycle.
\<close>

primrec freewalk_level :: "nat \<Rightarrow> uint64 \<Rightarrow> ('a kmem_st_scheme, unit) kern" where
  "freewalk_level 0 pagetable = diverge"
| "freewalk_level (Suc fuel) pagetable =
     kdo (for_each [0..<512] (\<lambda>i.
            kdo (load_pte (pagetable + 8 * of_nat i)) (\<lambda>pte.
              if pte AND PTE_V \<noteq> 0 \<and> pte AND (PTE_R OR PTE_W OR PTE_X) = 0 then
                kdo (freewalk_level fuel (PTE2PA pte)) (\<lambda>_.
                store_pte (pagetable + 8 * of_nat i) 0)
              else if pte AND PTE_V \<noteq> 0 then panic ''freewalk: leaf''
              else ret ()))) (\<lambda>_.
     kfree pagetable)"

definition freewalk :: "uint64 \<Rightarrow> ('a kmem_st_scheme, unit) kern" where
  "freewalk pagetable = freewalk_level (unat PHYSTOP div PGSIZE) pagetable"

definition uvmfree :: "uint64 \<Rightarrow> uint64 \<Rightarrow> ('a kmem_st_scheme, unit) kern" where
  "uvmfree pagetable sz =
     kdo (if sz > 0 then uvmunmap pagetable 0 (PGROUNDUP sz div 4096) True else ret ()) (\<lambda>_.
     freewalk pagetable)"

definition uvmcopy_err :: "uint64 \<Rightarrow> uint64 \<Rightarrow> ('a kmem_st_scheme, int) kern" where
  "uvmcopy_err new i = kdo (uvmunmap new 0 (i div 4096) True) (\<lambda>_. ret (-1))"

primrec uvmcopy_loop :: "nat \<Rightarrow> uint64 \<Rightarrow> uint64 \<Rightarrow> uint64 \<Rightarrow> uint64 \<Rightarrow> ('a kmem_st_scheme, int) kern" where
  "uvmcopy_loop 0 old new i sz = diverge"
| "uvmcopy_loop (Suc fuel) old new i sz =
     (if i < sz then
        kdo (walk old i False) (\<lambda>pte.
          if pte = 0 then panic ''uvmcopy: pte should exist''
          else
            kdo (load_pte pte) (\<lambda>e.
              if e AND PTE_V = 0 then panic ''uvmcopy: page not present''
              else
                kdo kalloc (\<lambda>mem.
                  if mem = 0 then uvmcopy_err new i
                  else
                    kdo (modify (\<lambda>s. s\<lparr>pmem := memmove (pmem s) (unat mem) (unat (PTE2PA e)) PGSIZE\<rparr>)) (\<lambda>_.
                    kdo (mappages new i 4096 mem (PTE_FLAGS e)) (\<lambda>r.
                      if r \<noteq> 0 then kdo (kfree mem) (\<lambda>_. uvmcopy_err new i)
                      else uvmcopy_loop fuel old new (i + 4096) sz)))))
      else ret 0)"

definition uvmcopy :: "uint64 \<Rightarrow> uint64 \<Rightarrow> uint64 \<Rightarrow> ('a kmem_st_scheme, int) kern" where
  "uvmcopy old new sz = uvmcopy_loop (unat sz div PGSIZE + 2) old new 0 sz"

definition uvmclear :: "uint64 \<Rightarrow> uint64 \<Rightarrow> ('a kmem_st_scheme, unit) kern" where
  "uvmclear pagetable va =
     kdo (walk pagetable va False) (\<lambda>pte.
       if pte = 0 then panic ''uvmclear''
       else kdo (load_pte pte) (\<lambda>e. store_pte pte (e AND NOT PTE_U)))"

section \<open>Copying between kernel and user\<close>

text \<open>
  Each turn of the three loops ends at a page boundary or at the end of the data, so the fuel is the
  number of pages the data can touch, plus one.
\<close>

primrec copyout_loop :: "nat \<Rightarrow> uint64 \<Rightarrow> uint64 \<Rightarrow> bytes \<Rightarrow> nat \<Rightarrow> uint64 \<Rightarrow> ('a kmem_st_scheme, int) kern" where
  "copyout_loop 0 pagetable dstva src off len = diverge"
| "copyout_loop (Suc fuel) pagetable dstva src off len =
     (if len > 0 then
        let va0 = PGROUNDDOWN dstva in
        if va0 \<ge> MAXVA then ret (-1)
        else
          kdo (walk pagetable va0 False) (\<lambda>pte.
            if pte = 0 then ret (-1)
            else
              kdo (load_pte pte) (\<lambda>e.
                if e AND PTE_V = 0 \<or> e AND PTE_U = 0 \<or> e AND PTE_W = 0 then ret (-1)
                else
                  let pa0 = PTE2PA e;
                      n = min (4096 - (dstva - va0)) len in
                  kdo (modify (\<lambda>s. s\<lparr>pmem := blit (pmem s) (unat (pa0 + (dstva - va0))) src off (unat n)\<rparr>)) (\<lambda>_.
                  copyout_loop fuel pagetable (va0 + 4096) src (off + unat n) (len - n))))
      else ret 0)"

definition copyout :: "uint64 \<Rightarrow> uint64 \<Rightarrow> bytes \<Rightarrow> uint64 \<Rightarrow> ('a kmem_st_scheme, int) kern" where
  "copyout pagetable dstva src len = copyout_loop (unat len div PGSIZE + 3) pagetable dstva src 0 len"

primrec copyin_loop :: "nat \<Rightarrow> uint64 \<Rightarrow> bytes \<Rightarrow> nat \<Rightarrow> uint64 \<Rightarrow> uint64 \<Rightarrow> ('a kmem_st_scheme, int \<times> bytes) kern" where
  "copyin_loop 0 pagetable dst off srcva len = diverge"
| "copyin_loop (Suc fuel) pagetable dst off srcva len =
     (if len > 0 then
        let va0 = PGROUNDDOWN srcva in
        kdo (walkaddr pagetable va0) (\<lambda>pa0.
          if pa0 = 0 then ret (-1, dst)
          else
            let n = min (4096 - (srcva - va0)) len in
            kdo (gets pmem) (\<lambda>m.
            copyin_loop fuel pagetable (blit dst off m (unat (pa0 + (srcva - va0))) (unat n)) (off + unat n)
              (va0 + 4096) (len - n)))
      else ret (0, dst))"

definition copyin :: "uint64 \<Rightarrow> bytes \<Rightarrow> uint64 \<Rightarrow> uint64 \<Rightarrow> ('a kmem_st_scheme, int \<times> bytes) kern" where
  "copyin pagetable dst srcva len = copyin_loop (unat len div PGSIZE + 3) pagetable dst 0 srcva len"

text \<open>
  The inner loop of \<^verbatim>\<open>copyinstr\<close>: at most \<open>n\<close> bytes from physical address \<open>p\<close>; it gives the destination
  and its offset, and whether the terminator was seen.
\<close>

primrec copyinstr_page :: "nat \<Rightarrow> bytes \<Rightarrow> nat \<Rightarrow> bytes \<Rightarrow> nat \<Rightarrow> bytes \<times> nat \<times> bool" where
  "copyinstr_page 0 m p dst off = (dst, off, False)"
| "copyinstr_page (Suc n) m p dst off =
     (if m p = 0 then (dst(off := 0), off, True)
      else copyinstr_page n m (p + 1) (dst(off := m p)) (off + 1))"

primrec copyinstr_loop :: "nat \<Rightarrow> uint64 \<Rightarrow> bytes \<Rightarrow> nat \<Rightarrow> uint64 \<Rightarrow> uint64 \<Rightarrow> ('a kmem_st_scheme, int \<times> bytes) kern" where
  "copyinstr_loop 0 pagetable dst off srcva max' = diverge"
| "copyinstr_loop (Suc fuel) pagetable dst off srcva max' =
     (if max' > 0 then
        let va0 = PGROUNDDOWN srcva in
        kdo (walkaddr pagetable va0) (\<lambda>pa0.
          if pa0 = 0 then ret (-1, dst)
          else
            let n = min (4096 - (srcva - va0)) max' in
            kdo (gets pmem) (\<lambda>m.
            case copyinstr_page (unat n) m (unat (pa0 + (srcva - va0))) dst off of (dst', off', got_null) \<Rightarrow>
              if got_null then ret (0, dst')
              else copyinstr_loop fuel pagetable dst' off' (va0 + 4096) (max' - n)))
      else ret (-1, dst))"

definition copyinstr :: "uint64 \<Rightarrow> bytes \<Rightarrow> uint64 \<Rightarrow> uint64 \<Rightarrow> ('a kmem_st_scheme, int \<times> bytes) kern" where
  "copyinstr pagetable dst srcva max' = copyinstr_loop (unat max' div PGSIZE + 3) pagetable dst 0 srcva max'"

text \<open>
  \<^verbatim>\<open>either_copyout\<close> and \<^verbatim>\<open>either_copyin\<close> of \<^verbatim>\<open>proc.c\<close>.  The flag and the address they take say where the other side
  is: at a user address of the current process, at a kernel address that is a physical address (kernel memory
  is mapped one to one), or in an object on the kernel stack, at an offset.  Such an object is passed in as
  its bytes \<open>loc\<close>, and its new bytes are part of the result.
\<close>

datatype mref = User uint64 | Kern uint64 | Local nat

fun mref_add :: "mref \<Rightarrow> nat \<Rightarrow> mref" where
  "mref_add (User a) n = User (a + of_nat n)"
| "mref_add (Kern a) n = Kern (a + of_nat n)"
| "mref_add (Local a) n = Local (a + n)"

fun either_copyout :: "mref \<Rightarrow> bytes \<Rightarrow> bytes \<Rightarrow> nat \<Rightarrow> uint64 \<Rightarrow> ('a kmem_st_scheme, int \<times> bytes) kern" where
  "either_copyout (User dst) loc src off len =
     kdo curproc (\<lambda>p.
     kdo (gets (\<lambda>s. p_pagetable (proc s p))) (\<lambda>pt.
     kdo (copyout pt dst (\<lambda>i. src (off + i)) len) (\<lambda>r.
     ret (r, loc))))"
| "either_copyout (Kern dst) loc src off len =
     kdo (modify (\<lambda>s. s\<lparr>pmem := blit (pmem s) (unat dst) src off (unat len)\<rparr>)) (\<lambda>_.
     ret (0, loc))"
| "either_copyout (Local dst) loc src off len = ret (0, blit loc dst src off (unat len))"

fun either_copyin :: "bytes \<Rightarrow> nat \<Rightarrow> mref \<Rightarrow> bytes \<Rightarrow> uint64 \<Rightarrow> ('a kmem_st_scheme, int \<times> bytes) kern" where
  "either_copyin dst off (User src) loc len =
     kdo curproc (\<lambda>p.
     kdo (gets (\<lambda>s. p_pagetable (proc s p))) (\<lambda>pt.
     kdo (copyin pt (\<lambda>i. dst (off + i)) src len) (\<lambda>rd.
     ret (fst rd, \<lambda>i. if off \<le> i then snd rd (i - off) else dst i))))"
| "either_copyin dst off (Kern src) loc len =
     kdo (gets pmem) (\<lambda>m.
     ret (0, blit dst off m (unat src) (unat len)))"
| "either_copyin dst off (Local src) loc len = ret (0, blit dst off loc src (unat len))"

section \<open>Page-table entries hold what is put into them\<close>

lemma PTE2PA_PA2PTE:
  assumes "unat pa mod PGSIZE = 0" and "pa < push_bit 56 1" and "f < 1024"
  shows "PTE2PA (PA2PTE pa OR f) = pa" and "PTE_FLAGS (PA2PTE pa OR f) = f"
proof -
  have lo: "\<not> bit pa n" if "n < 12" for n
  proof -
    have "take_bit 12 pa = 0"
      using assms(1) by (simp add: word_unat_eq_iff unsigned_take_bit_eq take_bit_eq_mod params unat_mod)
    from arg_cong [OF this, of "\<lambda>w. bit w n"] that show ?thesis by (simp add: bit_simps)
  qed
  have hi: "\<not> bit pa n" if "56 \<le> n" for n
  proof -
    have "take_bit 56 pa = pa"
      using assms(2) by (intro word_unat_eq_iff [THEN iffD2]) (simp add: unsigned_take_bit_eq take_bit_nat_eq_self word_less_nat_alt)
    then show ?thesis using that by (metis bit_take_bit_iff not_le)
  qed
  have f: "\<not> bit f n" if "10 \<le> n" for n
  proof -
    have "take_bit 10 f = f"
      using assms(3) by (intro word_unat_eq_iff [THEN iffD2]) (simp add: unsigned_take_bit_eq take_bit_nat_eq_self word_less_nat_alt)
    then show ?thesis using that by (metis bit_take_bit_iff not_le)
  qed
  show "PTE2PA (PA2PTE pa OR f) = pa"
  proof (rule bit_word_eqI)
    fix n assume "n < LENGTH(64)"
    show "bit (PTE2PA (PA2PTE pa OR f)) n = bit pa n"
    proof (cases "n < 12")
      case True
      then show ?thesis using lo [of n] by (simp add: PTE2PA_def PA2PTE_def bit_simps)
    next
      case False
      then obtain j where j: "n = 12 + j" by (metis le_Suc_ex not_less)
      show ?thesis using \<open>n < LENGTH(64)\<close> hi [of n] f [of "10 + j"]
        by (auto simp: PTE2PA_def PA2PTE_def bit_simps j)
    qed
  qed
  show "PTE_FLAGS (PA2PTE pa OR f) = f"
  proof (rule bit_word_eqI)
    fix n assume "n < LENGTH(64)"
    have "(0x3FF :: uint64) = mask 10" by (simp add: mask_eq_exp_minus_1)
    then have "bit (0x3FF :: uint64) n \<longleftrightarrow> n < 10" using \<open>n < LENGTH(64)\<close> by (simp only: bit_mask_iff) auto
    then show "bit (PTE_FLAGS (PA2PTE pa OR f)) n = bit f n"
      using f [of n] by (auto simp: PTE_FLAGS_def PA2PTE_def bit_simps not_le)
  qed
qed

section \<open>Translation\<close>

text \<open>\<^verbatim>\<open>walk\<close> without allocation only reads: it is a function of memory.\<close>

primrec lookup :: "nat \<Rightarrow> bytes \<Rightarrow> uint64 \<Rightarrow> uint64 \<Rightarrow> uint64" where
  "lookup 0 m pt va = pt + 8 * PX 0 va"
| "lookup (Suc l) m pt va =
     (let e = get64 m (unat (pt + 8 * PX (Suc l) va)) in
      if e AND PTE_V \<noteq> 0 then lookup l m (PTE2PA e) va else 0)"

lemma walk_loop_lookup: "walk_loop l pt va False s = Ok (lookup l (pmem s) pt va) s"
  by (induction l arbitrary: pt) (simp_all add: kern_simps load_pte_def Let_def)

lemma walk_lookup: "va < MAXVA \<Longrightarrow> walk pt va False s = Ok (lookup 2 (pmem s) pt va) s"
  by (simp add: walk_def walk_loop_lookup not_le [symmetric])

lemma kdo_walk: "va < MAXVA \<Longrightarrow> kdo (walk pt va False) f s = f (lookup 2 (pmem s) pt va) s"
  by (rule kdo_Ok) (rule walk_lookup)

text \<open>
  The entry for the page of \<open>va\<close>, 0 when there is none, and the physical page it gives a user who needs
  the permissions \<open>perm\<close>.  Physical page 0 is not RAM: \<^verbatim>\<open>walkaddr\<close> cannot tell it from a missing page.
\<close>

definition entry :: "bytes \<Rightarrow> uint64 \<Rightarrow> uint64 \<Rightarrow> uint64" where
  "entry m pt va = (let a = lookup 2 m pt va in if a = 0 then 0 else get64 m (unat a))"

definition upage :: "uint64 set \<Rightarrow> bytes \<Rightarrow> uint64 \<Rightarrow> uint64 \<Rightarrow> uint64 option" where
  "upage perm m pt va =
     (if va < MAXVA \<and> (\<forall>f\<in>perm. entry m pt va AND f \<noteq> 0) \<and> PTE2PA (entry m pt va) \<noteq> 0
      then Some (PTE2PA (entry m pt va)) else None)"

text \<open>The physical byte at virtual address \<open>va\<close>.\<close>

definition uaddr :: "uint64 set \<Rightarrow> bytes \<Rightarrow> uint64 \<Rightarrow> uint64 \<Rightarrow> nat option" where
  "uaddr perm m pt va = map_option (\<lambda>pa. unat pa + unat va mod PGSIZE) (upage perm m pt (PGROUNDDOWN va))"

lemma walkaddr_page:
  "walkaddr pt va s = Ok (case upage {PTE_V, PTE_U} (pmem s) pt va of None \<Rightarrow> 0 | Some pa \<Rightarrow> pa) s"
  by (auto simp: walkaddr_def kern_simps kdo_walk load_pte_def upage_def entry_def Let_def)

lemma kdo_walkaddr:
  "kdo (walkaddr pt va) f s = f (case upage {PTE_V, PTE_U} (pmem s) pt va of None \<Rightarrow> 0 | Some pa \<Rightarrow> pa) s"
  by (rule kdo_Ok) (rule walkaddr_page)

lemma PTE2PA_aligned: "unat (PTE2PA e) mod 4096 = 0"
proof -
  have "take_bit 12 (PTE2PA e) = 0"
    by (rule bit_word_eqI) (auto simp: PTE2PA_def bit_simps)
  then have "unat (take_bit 12 (PTE2PA e)) = 0" by simp
  then show ?thesis by (simp add: take_bit_eq_mod unat_mod)
qed

lemma aligned_room:
  assumes "unat (pa :: uint64) mod 4096 = 0" and "k < 4096"
  shows "unat pa + k < 2 ^ 64"
proof -
  have "unat pa < 2 ^ 64" using unsigned_less [of pa] by simp
  moreover from assms(1) obtain q where "unat pa = 4096 * q" by (auto elim: dvdE)
  moreover have "(2 :: nat) ^ 64 = 4096 * 2 ^ 52" by simp
  ultimately have "4096 * q < 4096 * 2 ^ 52" by simp
  then have "4096 * (q + 1) \<le> 4096 * 2 ^ 52" by (simp del: mult_Suc_right)
  with \<open>unat pa = 4096 * q\<close> assms(2) show ?thesis by simp
qed

lemma PTE2PA_add:
  assumes "k < 4096"
  shows "unat (PTE2PA e + of_nat k) = unat (PTE2PA e) + k"
  using aligned_room [OF PTE2PA_aligned assms, of e] assms
  by (simp add: unat_word_ariths unsigned_of_nat take_bit_nat_eq_self)

lemma page_split:
  "unat (PGROUNDDOWN va) = 4096 * (unat va div 4096)" "unat (va - PGROUNDDOWN va) = unat va mod 4096"
  "PGROUNDDOWN va \<le> va"
proof -
  show 1: "unat (PGROUNDDOWN va) = 4096 * (unat va div 4096)" by (rule unat_PGROUNDDOWN)
  then show le: "PGROUNDDOWN va \<le> va"
    using div_mult_mod_eq [of "unat va" 4096] by (simp add: word_le_nat_alt)
  show "unat (va - PGROUNDDOWN va) = unat va mod 4096"
    using 1 le div_mult_mod_eq [of "unat va" 4096] by (simp add: unat_sub minus_mult_div_eq_mod)
qed

lemma page_next:
  assumes "PGROUNDDOWN va < MAXVA"
  shows "unat (PGROUNDDOWN va + 4096) = 4096 * (unat va div 4096) + 4096"
proof -
  have "unat (PGROUNDDOWN va) < 2 ^ 38" using assms by (simp add: word_less_nat_alt params)
  then show ?thesis by (simp add: unat_word_ariths page_split(1))
qed

text \<open>Addresses within a page are translated alike.\<close>

lemma page_same:
  assumes "PGROUNDDOWN va < MAXVA" and "unat va mod 4096 + k < 4096"
  shows "PGROUNDDOWN (va + of_nat k) = PGROUNDDOWN va" and "unat (va + of_nat k) mod 4096 = unat va mod 4096 + k"
proof -
  have "unat (PGROUNDDOWN va) < 2 ^ 38" using assms by (simp add: word_less_nat_alt params)
  then have "unat va < 2 ^ 38 + 4096"
    using page_split(1) [of va] div_mult_mod_eq [of "unat va" 4096] mod_less_divisor [of 4096 "unat va"] by linarith
  then have u: "unat (va + of_nat k) = unat va + k"
    using assms(2) by (simp add: unat_word_ariths unsigned_of_nat take_bit_nat_eq_self)
  obtain q r where qr: "unat va div 4096 = q" "unat va mod 4096 = r" by blast
  have e: "unat va + k = 4096 * q + (r + k)" using div_mult_mod_eq [of "unat va" 4096] qr by linarith
  have "(unat va + k) div 4096 = q" "(unat va + k) mod 4096 = r + k"
    unfolding e using assms(2) qr by simp_all
  with qr show "PGROUNDDOWN (va + of_nat k) = PGROUNDDOWN va" "unat (va + of_nat k) mod 4096 = unat va mod 4096 + k"
    by (simp_all add: word_unat_eq_iff page_split(1) u)
qed

lemma uaddr_same_page:
  assumes "upage perm m pt (PGROUNDDOWN va) = Some pa" and "unat va mod 4096 + k < 4096"
  shows "uaddr perm m pt (va + of_nat k) = Some (unat pa + unat va mod 4096 + k)"
proof -
  have "PGROUNDDOWN va < MAXVA" using assms(1) by (auto simp: upage_def split: if_splits)
  from page_same [OF this assms(2)] assms(1) show ?thesis by (simp add: uaddr_def params)
qed

section \<open>Copying\<close>

lemma copy_first:
  assumes pa: "upage perm m pt (PGROUNDDOWN va) = Some pa" and n: "n = min (4096 - (va - PGROUNDDOWN va)) len"
    and len: "0 < len"
  shows "unat n \<le> unat len" and "unat va mod 4096 + unat n \<le> 4096" and "0 < unat n"
    and "unat (pa + (va - PGROUNDDOWN va)) = unat pa + unat va mod 4096"
    and "n \<noteq> len \<Longrightarrow> unat n = 4096 - unat va mod 4096 \<and> n < len"
proof -
  have r: "unat (4096 - (va - PGROUNDDOWN va)) = 4096 - unat va mod 4096"
  proof -
    have "va - PGROUNDDOWN va \<le> 4096" by (simp add: word_le_nat_alt page_split(2))
    then show ?thesis by (simp add: unat_sub page_split(2))
  qed
  have u: "unat n = min (4096 - unat va mod 4096) (unat len)"
    unfolding n by (simp add: min_def word_le_nat_alt r)
  show "unat n \<le> unat len" "unat va mod 4096 + unat n \<le> 4096"
    using u mod_less_divisor [of 4096 "unat va"] by (auto simp: min_def)
  show "0 < unat n" using u mod_less_divisor [of 4096 "unat va"] len by (auto simp: min_def word_less_nat_alt)
  show "n \<noteq> len \<Longrightarrow> unat n = 4096 - unat va mod 4096 \<and> n < len"
    using u by (auto simp: min_def word_unat_eq_iff word_less_nat_alt split: if_splits)
  from pa obtain e where e: "pa = PTE2PA e" by (auto simp: upage_def split: if_splits)
  have "va - PGROUNDDOWN va = of_nat (unat va mod 4096)"
    by (simp add: word_unat_eq_iff page_split(2) unsigned_of_nat take_bit_nat_eq_self)
  then show "unat (pa + (va - PGROUNDDOWN va)) = unat pa + unat va mod 4096"
    unfolding e using PTE2PA_add [of "unat va mod 4096" e] by simp
qed

text \<open>
  How many of the user bytes \<open>va\<close>, \<open>va+1\<close>, \<dots>, \<open>va+len-1\<close> are accessible before the first that is not.
\<close>

definition upre :: "uint64 set \<Rightarrow> bytes \<Rightarrow> uint64 \<Rightarrow> uint64 \<Rightarrow> nat \<Rightarrow> nat" where
  "upre perm m pt va len = length (takeWhile (\<lambda>i. uaddr perm m pt (va + of_nat i) \<noteq> None) [0..<len])"

lemma upre_le: "upre perm m pt va len \<le> len"
  using length_takeWhile_le [of _ "[0..<len]"] by (simp add: upre_def)

lemma upre_at: "k < upre perm m pt va len \<Longrightarrow> uaddr perm m pt (va + of_nat k) \<noteq> None"
proof -
  define P where "P i \<longleftrightarrow> uaddr perm m pt (va + of_nat i) \<noteq> None" for i
  assume "k < upre perm m pt va len"
  then have k: "k < length (takeWhile P [0..<len])" by (simp add: upre_def P_def [abs_def])
  have "takeWhile P [0..<len] ! k = [0..<len] ! k" by (rule takeWhile_nth) (rule k)
  moreover have "[0..<len] ! k = k" using k length_takeWhile_le [of P "[0..<len]"] by simp
  moreover have "P (takeWhile P [0..<len] ! k)" using nth_mem [OF k] by (rule set_takeWhileD [THEN conjunct2])
  ultimately show ?thesis by (simp add: P_def)
qed

lemma upre_all: "(\<And>k. k < len \<Longrightarrow> uaddr perm m pt (va + of_nat k) \<noteq> None) \<Longrightarrow> upre perm m pt va len = len"
  by (simp add: upre_def takeWhile_eq_all_conv [THEN iffD2])

lemma upre_full: "upre perm m pt va len = len \<longleftrightarrow> (\<forall>k<len. uaddr perm m pt (va + of_nat k) \<noteq> None)"
  using upre_all [of len perm m pt va] upre_at [of _ perm m pt va len] by auto

lemma upre_none: "upage perm m pt (PGROUNDDOWN va) = None \<Longrightarrow> upre perm m pt va len = 0"
  by (cases len) (simp_all add: upre_def uaddr_def upt_conv_Cons del: upt_Suc)

lemma upre_split:
  assumes "upre perm m pt va a = a"
  shows "upre perm m pt va (a + b) = a + upre perm m pt (va + of_nat a) b"
proof -
  define P where "P i \<longleftrightarrow> uaddr perm m pt (va + of_nat i) \<noteq> None" for i
  have "[0..<a + b] = [0..<a] @ map ((+) a) [0..<b]"
    by (rule nth_equalityI) (auto simp: nth_append)
  moreover have "\<And>x. x \<in> set [0..<a] \<Longrightarrow> P x" using assms by (auto simp: upre_full P_def)
  ultimately have "takeWhile P [0..<a + b] = [0..<a] @ takeWhile P (map ((+) a) [0..<b])"
    by (simp only: takeWhile_append2)
  then show ?thesis by (simp add: upre_def takeWhile_map comp_def add.assoc P_def [abs_def])
qed

lemma upre_page:
  assumes "upage perm m pt (PGROUNDDOWN va) = Some pa" and "unat va mod 4096 + n \<le> 4096"
  shows "upre perm m pt va n = n"
proof (rule upre_all)
  fix k assume "k < n"
  then show "uaddr perm m pt (va + of_nat k) \<noteq> None" using uaddr_same_page [OF assms(1), of k] assms(2) by simp
qed

text \<open>The next page begins where this one's bytes end.\<close>

lemma next_page_va:
  assumes "PGROUNDDOWN va < MAXVA" and "n = 4096 - unat va mod 4096"
  shows "PGROUNDDOWN va + 4096 = va + of_nat n"
proof -
  have "of_nat n = 4096 - (va - PGROUNDDOWN va)"
    using assms(2) mod_less_divisor [of 4096 "unat va"]
    by (simp add: word_unat_eq_iff unat_sub word_le_nat_alt page_split(2) unsigned_of_nat take_bit_nat_eq_self)
  then show ?thesis by simp
qed

lemma pages_fuel: "a mod 4096 + n \<le> 4096 * (n div 4096 + 2)" for a n :: nat
proof -
  obtain q r where "n div 4096 = q" "n mod 4096 = r" by blast
  moreover have "n = 4096 * (n div 4096) + n mod 4096" "n mod 4096 < 4096" "a mod 4096 < 4096" by simp_all
  ultimately show ?thesis by simp
qed

lemma copyin_loop_ok:
  assumes "unat va mod 4096 + unat len \<le> 4096 * fuel" and "k = upre {PTE_V, PTE_U} (pmem s) pt va (unat len)"
  shows "copyin_loop (Suc fuel) pt dst off va len s =
      Ok (if k = unat len then 0 else -1, \<lambda>i. if off \<le> i \<and> i < off + k
               then pmem s (the (uaddr {PTE_V, PTE_U} (pmem s) pt (va + of_nat (i - off)))) else dst i) s"
  using assms
proof (induction fuel arbitrary: dst off va len k)
  case 0
  then have "unat len = 0" by simp
  then have "len = 0" by (simp add: unat_eq_0)
  with 0 show ?case by (auto simp: kern_simps upre_def fun_eq_iff)
next
  case (Suc fuel)
  let ?u = "upage {PTE_V, PTE_U} (pmem s) pt" and ?m = "upre {PTE_V, PTE_U} (pmem s) pt"
    and ?a = "\<lambda>v. the (uaddr {PTE_V, PTE_U} (pmem s) pt v)"
  show ?case
  proof (cases "0 < len")
    case False
    then have "len = 0" by (simp add: word_neq_0_conv [symmetric])
    with Suc.prems show ?thesis by (auto simp: kern_simps upre_def fun_eq_iff)
  next
    case len: True
    then have pos: "0 < unat len" by (simp add: word_less_nat_alt)
    show ?thesis
    proof (cases "?u (PGROUNDDOWN va)")
      case None
      then have "k = 0" using upre_none [OF None] Suc.prems by simp
      with None len pos show ?thesis by (auto simp: Let_def kdo_walkaddr kern_simps fun_eq_iff)
    next
      case (Some pa)
      define n where "n = min (4096 - (va - PGROUNDDOWN va)) len"
      note f = copy_first [OF Some n_def len]
      have p0: "pa \<noteq> 0" using Some by (auto simp: upage_def split: if_splits)
      have lt: "PGROUNDDOWN va < MAXVA" using Some by (auto simp: upage_def split: if_splits)
      let ?d1 = "blit dst off (pmem s) (unat pa + unat va mod 4096) (unat n)"
      have step: "copyin_loop (Suc (Suc fuel)) pt dst off va len s =
        copyin_loop (Suc fuel) pt ?d1 (off + unat n) (PGROUNDDOWN va + 4096) (len - n) s"
        using len p0 f(4) by (subst copyin_loop.simps) (simp add: Let_def kdo_walkaddr kern_simps Some n_def [symmetric] del: copyin_loop.simps)
      have mp: "?m va (unat n) = unat n" by (rule upre_page [OF Some f(2)])
      have addr: "?a (va + of_nat j) = unat pa + unat va mod 4096 + j" if "j < unat n" for j
        using uaddr_same_page [OF Some, of j] that f(2) by simp
      have ln: "unat (len - n) = unat len - unat n" using f(1) by (simp add: unat_sub word_le_nat_alt)
      show ?thesis
      proof (cases "n = len")
        case True
        have d: "?d1 = (\<lambda>i. if off \<le> i \<and> i < off + unat len then pmem s (?a (va + of_nat (i - off))) else dst i)"
        proof
          fix i
          show "?d1 i = (if off \<le> i \<and> i < off + unat len then pmem s (?a (va + of_nat (i - off))) else dst i)"
            using addr [of "i - off"] by (auto simp: blit_at True simp del: of_nat_diff)
        qed
        have "copyin_loop (Suc fuel) pt ?d1 (off + unat n) (PGROUNDDOWN va + 4096) 0 s = Ok (0, ?d1) s"
          by (simp add: kern_simps)
        with mp d Suc.prems show ?thesis unfolding step by (simp add: True)
      next
        case False
        with f(5) have n: "unat n = 4096 - unat va mod 4096" "n < len" by auto
        have va: "PGROUNDDOWN va + 4096 = va + of_nat (unat n)" by (rule next_page_va [OF lt n(1)])
        have al: "unat (PGROUNDDOWN va + 4096) mod 4096 = 0" using page_next [OF lt] by simp
        have fuel: "unat (PGROUNDDOWN va + 4096) mod 4096 + unat (len - n) \<le> 4096 * fuel"
          using Suc.prems n ln al mod_less_divisor [of 4096 "unat va"] by simp
        define k' where "k' = ?m (PGROUNDDOWN va + 4096) (unat (len - n))"
        have k: "k = unat n + k'"
          using upre_split [OF mp, of "unat (len - n)"] f(1) ln Suc.prems(2) by (simp add: k'_def va)
        have "(if off + unat n \<le> i \<and> i < off + unat n + k'
               then pmem s (?a (PGROUNDDOWN va + 4096 + of_nat (i - (off + unat n)))) else ?d1 i) =
             (if off \<le> i \<and> i < off + k then pmem s (?a (va + of_nat (i - off))) else dst i)" for i
        proof (cases "off + unat n \<le> i")
          case True
          then obtain j where "i = off + unat n + j" by (metis le_Suc_ex)
          then show ?thesis using k by (auto simp: blit_at add.assoc va)
        next
          case False
          then show ?thesis using addr [of "i - off"] k by (auto simp: blit_at simp del: of_nat_diff)
        qed
        moreover have "k' = unat (len - n) \<longleftrightarrow> k = unat len" using k ln f(1) by auto
        ultimately show ?thesis using Suc.IH [OF fuel k'_def, of ?d1 "off + unat n"] unfolding step by simp
      qed
    qed
  qed
qed

lemma copyin_ok:
  "copyin pt dst va len s =
     Ok (if upre {PTE_V, PTE_U} (pmem s) pt va (unat len) = unat len then 0 else -1,
         \<lambda>i. if i < upre {PTE_V, PTE_U} (pmem s) pt va (unat len)
             then pmem s (the (uaddr {PTE_V, PTE_U} (pmem s) pt (va + of_nat i))) else dst i) s"
proof -
  have "unat va mod 4096 + unat len \<le> 4096 * (unat len div 4096 + 2)"
    by (rule pages_fuel)
  from copyin_loop_ok [OF this refl, of pt dst 0 s] show ?thesis
    by (simp add: copyin_def params numeral_3_eq_3 del: copyin_loop.simps cong: if_cong)
qed

text \<open>
  C9. \<^verbatim>\<open>copyin\<close> always returns and never changes kernel memory.  It copies, byte by byte from the physical
  addresses the page table gives, up to the first byte that is not on a page the user may read (valid, with
  \<^verbatim>\<open>PTE_U\<close>, below \<^verbatim>\<open>MAXVA\<close>); it returns 0 exactly when that is all \<^verbatim>\<open>len\<close> bytes, and -1 otherwise; the
  rest of the destination is untouched.
\<close>

theorem copyin_exact:
  "copyin pt dst va len s =
     (let k = upre {PTE_V, PTE_U} (pmem s) pt va (unat len) in
      Ok (if k = unat len then 0 else -1,
          \<lambda>i. if i < k then pmem s (the (uaddr {PTE_V, PTE_U} (pmem s) pt (va + of_nat i))) else dst i) s)"
  using copyin_ok [of pt dst va len s] by (simp add: Let_def)

section \<open>The pages of a page table\<close>

text \<open>The pages that hold the table itself: the root, and the tables its valid entries point to.\<close>

primrec pt_pages :: "nat \<Rightarrow> bytes \<Rightarrow> uint64 \<Rightarrow> uint64 set" where
  "pt_pages 0 m pt = {pt}"
| "pt_pages (Suc l) m pt = insert pt (\<Union>i\<in>{..<512}.
     let e = get64 m (unat pt + 8 * i) in if e AND PTE_V \<noteq> 0 then pt_pages l m (PTE2PA e) else {})"

definition page_bytes :: "uint64 set \<Rightarrow> nat set" where
  "page_bytes P = {a. \<exists>p\<in>P. unat p \<le> a \<and> a < unat p + PGSIZE}"

lemma page_bytesI: "p \<in> P \<Longrightarrow> k < PGSIZE \<Longrightarrow> unat p + k \<in> page_bytes P"
  unfolding page_bytes_def by (intro CollectI bexI [of _ p]) simp_all

lemma page_bytes_mono: "P \<subseteq> Q \<Longrightarrow> page_bytes P \<subseteq> page_bytes Q"
  by (auto simp: page_bytes_def)

lemma page_bytes_apart:
  assumes "\<And>p. p \<in> P \<Longrightarrow> unat p mod PGSIZE = 0" and "unat q mod PGSIZE = 0" and "q \<notin> P" and "k < PGSIZE"
  shows "unat q + k \<notin> page_bytes P"
proof
  assume "unat q + k \<in> page_bytes P"
  then obtain p where p: "p \<in> P" "unat p \<le> unat q + k" "unat q + k < unat p + PGSIZE" by (auto simp: page_bytes_def)
  then have "p \<noteq> q" using assms(3) by auto
  then show False using pages_disjoint [of "unat p" "unat q"] assms p by (auto simp: word_unat_eq_iff)
qed

lemma PX_lt: "unat (PX l va) < 512"
proof -
  have "(0x1FF :: uint64) = mask 9" by (simp add: mask_eq_exp_minus_1)
  then have "PX l va = take_bit 9 (drop_bit (PXSHIFT l) va)" by (simp add: PX_def take_bit_eq_mask)
  then show ?thesis by (simp add: unsigned_take_bit_eq take_bit_nat_less_exp [of 9, simplified])
qed

lemma pte_addr:
  assumes "unat pt mod 4096 = 0"
  shows "unat (pt + 8 * PX l va) = unat pt + 8 * unat (PX l va)"
proof -
  have "unat (8 * PX l va) = 8 * unat (PX l va)" using PX_lt [of l va] by (simp add: unat_word_ariths)
  moreover have "unat pt + 8 * unat (PX l va) < 2 ^ 64" by (rule aligned_room [OF assms]) (use PX_lt [of l va] in simp)
  ultimately show ?thesis by (simp add: unat_word_ariths)
qed

lemma pt_pages_root: "pt \<in> pt_pages l m pt"
  by (cases l) auto

lemma pt_pages_aligned:
  "unat pt mod 4096 = 0 \<Longrightarrow> p \<in> pt_pages l m pt \<Longrightarrow> unat p mod 4096 = 0"
proof (induction l arbitrary: pt)
  case (Suc l)
  from Suc.prems(2) consider "p = pt" | i where "i < 512" "p \<in> pt_pages l m (PTE2PA (get64 m (unat pt + 8 * i)))"
    by (auto simp: Let_def split: if_splits)
  then show ?case using Suc.prems(1) Suc.IH [OF PTE2PA_aligned] by cases auto
qed simp

lemma pt_pages_sub:
  assumes "i < 512" and "get64 m (unat pt + 8 * i) AND PTE_V \<noteq> 0"
  shows "pt_pages l m (PTE2PA (get64 m (unat pt + 8 * i))) \<subseteq> pt_pages (Suc l) m pt"
  using assms by (auto simp: Let_def)

lemma pt_pages_cong:
  assumes "\<And>a. a \<in> page_bytes (pt_pages l m pt) \<Longrightarrow> m' a = m a"
  shows "pt_pages l m' pt = pt_pages l m pt"
  using assms
proof (induction l arbitrary: pt)
  case (Suc l)
  have e: "get64 m' (unat pt + 8 * i) = get64 m (unat pt + 8 * i)" if "i < 512" for i
  proof (rule get64_cong)
    fix k :: nat assume "k < 8"
    with that page_bytesI [OF pt_pages_root, of "8 * i + k" pt "Suc l" m]
    show "m' (unat pt + 8 * i + k) = m (unat pt + 8 * i + k)"
      by (intro Suc.prems) (simp add: params add.assoc)
  qed
  have "pt_pages l m' (PTE2PA (get64 m (unat pt + 8 * i))) = pt_pages l m (PTE2PA (get64 m (unat pt + 8 * i)))"
    if "i < 512" "get64 m (unat pt + 8 * i) AND PTE_V \<noteq> 0" for i
    by (rule Suc.IH) (use Suc.prems page_bytes_mono [OF pt_pages_sub [OF that, of l]] in blast)
  then have "(\<Union>i\<in>{..<512}. if get64 m (unat pt + 8 * i) AND PTE_V \<noteq> 0 then pt_pages l m' (PTE2PA (get64 m (unat pt + 8 * i))) else {}) =
    (\<Union>i\<in>{..<512}. if get64 m (unat pt + 8 * i) AND PTE_V \<noteq> 0 then pt_pages l m (PTE2PA (get64 m (unat pt + 8 * i))) else {})"
    by (intro SUP_cong) auto
  then show ?case by (simp add: e Let_def cong: SUP_cong_simp)
qed simp

lemma lookup_cong:
  assumes "unat pt mod 4096 = 0" and "\<And>a. a \<in> page_bytes (pt_pages l m pt) \<Longrightarrow> m' a = m a"
  shows "lookup l m' pt va = lookup l m pt va"
  using assms
proof (induction l arbitrary: pt)
  case (Suc l)
  let ?a = "unat pt + 8 * unat (PX (Suc l) va)"
  have a: "unat (pt + 8 * PX (Suc l) va) = ?a" by (rule pte_addr) (rule Suc.prems)
  have e: "get64 m' ?a = get64 m ?a"
  proof (rule get64_cong)
    fix k :: nat assume "k < 8"
    with PX_lt [of "Suc l" va] page_bytesI [OF pt_pages_root, of "8 * unat (PX (Suc l) va) + k" pt "Suc l" m]
    show "m' (?a + k) = m (?a + k)" by (intro Suc.prems(2)) (simp add: params add.assoc)
  qed
  have "lookup l m' (PTE2PA (get64 m ?a)) va = lookup l m (PTE2PA (get64 m ?a)) va" if "get64 m ?a AND PTE_V \<noteq> 0"
    by (rule Suc.IH) (use PTE2PA_aligned Suc.prems page_bytes_mono [OF pt_pages_sub [OF PX_lt that, of l]] in \<open>auto simp del: pt_pages.simps\<close>)
  then show ?case by (simp add: a e Let_def)
qed simp

lemma lookup_page:
  assumes "unat pt mod 4096 = 0"
  shows "lookup l m pt va = 0 \<or> (\<exists>p\<in>pt_pages l m pt. lookup l m pt va = p + 8 * PX 0 va)"
  using assms
proof (induction l arbitrary: pt)
  case (Suc l)
  let ?a = "unat pt + 8 * unat (PX (Suc l) va)"
  have a: "unat (pt + 8 * PX (Suc l) va) = ?a" by (rule pte_addr) (rule Suc.prems)
  show ?case
  proof (cases "get64 m ?a AND PTE_V = 0")
    case False
    then show ?thesis using Suc.IH [of "PTE2PA (get64 m ?a)"] PTE2PA_aligned pt_pages_sub [OF PX_lt False, of l]
      by (auto simp: a Let_def simp del: pt_pages.simps)
  qed (simp add: a Let_def)
qed simp

lemma entry_cong:
  assumes pt: "unat pt mod 4096 = 0" and m: "\<And>a. a \<in> page_bytes (pt_pages 2 m pt) \<Longrightarrow> m' a = m a"
  shows "entry m' pt va = entry m pt va"
proof -
  have l: "lookup 2 m' pt va = lookup 2 m pt va" using lookup_cong [OF pt, of 2 m m'] m by blast
  show ?thesis
  proof (cases "lookup 2 m pt va = 0")
    case False
    then obtain p where p: "p \<in> pt_pages 2 m pt" "lookup 2 m pt va = p + 8 * PX 0 va"
      using lookup_page [OF pt, of 2 m va] by blast
    have a: "unat (p + 8 * PX 0 va) = unat p + 8 * unat (PX 0 va)" by (rule pte_addr) (rule pt_pages_aligned [OF pt p(1)])
    have "get64 m' (unat p + 8 * unat (PX 0 va)) = get64 m (unat p + 8 * unat (PX 0 va))"
    proof (rule get64_cong)
      fix k :: nat assume "k < 8"
      with PX_lt [of 0 va] page_bytesI [OF p(1), of "8 * unat (PX 0 va) + k"]
      show "m' (unat p + 8 * unat (PX 0 va) + k) = m (unat p + 8 * unat (PX 0 va) + k)"
        by (intro m) (simp add: params add.assoc)
    qed
    then show ?thesis by (simp add: entry_def l p(2) a Let_def)
  qed (simp add: entry_def l)
qed

section \<open>Copying out\<close>

abbreviation uw :: "uint64 set" where
  "uw \<equiv> {PTE_V, PTE_U, PTE_W}"

text \<open>The pages a user may write are not pages of the table itself, and are RAM.\<close>

definition tables_apart :: "bytes \<Rightarrow> uint64 \<Rightarrow> bool" where
  "tables_apart m pt \<longleftrightarrow> unat pt mod PGSIZE = 0 \<and>
     (\<forall>va. va < MAXVA \<and> (\<forall>f\<in>uw. entry m pt va AND f \<noteq> 0) \<longrightarrow>
        PTE2PA (entry m pt va) \<noteq> 0 \<and> PTE2PA (entry m pt va) \<notin> pt_pages 2 m pt)"

text \<open>Writing the bytes \<open>src off\<close>, \<open>src (off+1)\<close>, \<dots> at the user addresses \<open>va\<close>, \<open>va+1\<close>, \<dots>\<close>

definition ustore :: "bytes \<Rightarrow> uint64 \<Rightarrow> uint64 \<Rightarrow> bytes \<Rightarrow> nat \<Rightarrow> nat \<Rightarrow> bytes \<Rightarrow> bytes" where
  "ustore m0 pt va src off k m = fold (\<lambda>i m. m(the (uaddr uw m0 pt (va + of_nat i)) := src (off + i))) [0..<k] m"

lemma ustore_split:
  "ustore m0 pt va src off (a + b) m = ustore m0 pt (va + of_nat a) src (off + a) b (ustore m0 pt va src off a m)"
proof -
  have "[0..<a + b] = [0..<a] @ map ((+) a) [0..<b]"
    by (rule nth_equalityI) (auto simp: nth_append)
  then show ?thesis by (simp add: ustore_def fold_map comp_def add.assoc)
qed

lemma ustore_cong: "(\<And>v. uaddr uw m1 pt v = uaddr uw m0 pt v) \<Longrightarrow> ustore m1 pt va src off k m = ustore m0 pt va src off k m"
  by (simp add: ustore_def)

lemma ustore_page:
  assumes "upage uw m0 pt (PGROUNDDOWN va) = Some pa" and "unat va mod 4096 + n \<le> 4096"
  shows "ustore m0 pt va src off n m = blit m (unat pa + unat va mod 4096) src off n"
  using assms(2)
proof (induction n)
  case (Suc n)
  then have "uaddr uw m0 pt (va + of_nat n) = Some (unat pa + unat va mod 4096 + n)"
    by (intro uaddr_same_page [OF assms(1)]) simp
  with Suc show ?case by (simp add: ustore_def)
qed (simp add: ustore_def)

lemma write_user_page:
  assumes ta: "tables_apart m pt" and pa: "upage uw m pt (PGROUNDDOWN va) = Some pa" and n: "unat va mod 4096 + n \<le> 4096"
    and m': "m' = blit m (unat pa + unat va mod 4096) src off n"
  shows "entry m' pt v = entry m pt v" and "tables_apart m' pt"
proof -
  from ta have al: "unat pt mod 4096 = 0" by (simp add: tables_apart_def params)
  have "pa = PTE2PA (entry m pt (PGROUNDDOWN va))" "PGROUNDDOWN va < MAXVA" "\<forall>f\<in>uw. entry m pt (PGROUNDDOWN va) AND f \<noteq> 0"
    using pa by (auto simp: upage_def split: if_splits)
  then have np: "pa \<notin> pt_pages 2 m pt" and pal: "unat pa mod 4096 = 0"
    using ta by (auto simp: tables_apart_def PTE2PA_aligned [simplified])
  have same: "m' a = m a" if a: "a \<in> page_bytes (pt_pages 2 m pt)" for a
  proof (rule ccontr)
    assume "m' a \<noteq> m a"
    then have "unat pa + unat va mod 4096 \<le> a" "a < unat pa + unat va mod 4096 + n"
      by (auto simp: m' blit_at split: if_splits)
    then obtain k where "a = unat pa + k" "k < PGSIZE" using n
      by (intro that [of "a - unat pa"]) (auto simp: params)
    moreover have "p \<in> pt_pages 2 m pt \<Longrightarrow> unat p mod PGSIZE = 0" for p
      using pt_pages_aligned [OF al, of p 2 m] by (simp add: params)
    ultimately show False using a page_bytes_apart [of "pt_pages 2 m pt" pa k] np pal by (auto simp: params)
  qed
  show e: "entry m' pt v = entry m pt v" for v by (rule entry_cong [OF al same])
  have "pt_pages 2 m' pt = pt_pages 2 m pt" by (rule pt_pages_cong [OF same])
  with ta show "tables_apart m' pt" by (simp add: tables_apart_def e)
qed

lemma copyout_loop_ok:
  assumes "unat va mod 4096 + unat len \<le> 4096 * fuel" and "tables_apart (pmem s) pt"
    and "k = upre uw (pmem s) pt va (unat len)"
  shows "copyout_loop (Suc fuel) pt va src off len s =
    Ok (if k = unat len then 0 else -1) (s\<lparr>pmem := ustore (pmem s) pt va src off k (pmem s)\<rparr>)"
  using assms
proof (induction fuel arbitrary: s off va len k)
  case 0
  then have "unat len = 0" by simp
  then have "len = 0" by (simp add: unat_eq_0)
  with 0 show ?case by (auto simp: kern_simps upre_def ustore_def)
next
  case (Suc fuel)
  show ?case
  proof (cases "0 < len")
    case False
    then have "len = 0" by (simp add: word_neq_0_conv [symmetric])
    with Suc.prems show ?thesis by (auto simp: kern_simps upre_def ustore_def)
  next
    case len: True
    then have pos: "0 < unat len" by (simp add: word_less_nat_alt)
    show ?thesis
    proof (cases "upage uw (pmem s) pt (PGROUNDDOWN va)")
      case None
      then have "k = 0" using upre_none [OF None] Suc.prems by simp
      moreover have "copyout_loop (Suc (Suc fuel)) pt va src off len s = Ok (-1) s"
      proof (cases "PGROUNDDOWN va < MAXVA")
        case True
        with None Suc.prems(2) have "\<exists>f\<in>uw. entry (pmem s) pt (PGROUNDDOWN va) AND f = 0"
          by (auto simp: upage_def tables_apart_def split: if_splits)
        then show ?thesis using True len
          by (subst copyout_loop.simps) (auto simp: Let_def kdo_walk kern_simps load_pte_def entry_def not_le [symmetric] simp del: copyout_loop.simps)
      qed (simp add: len Let_def kern_simps not_less)
      ultimately show ?thesis using pos by (simp add: ustore_def)
    next
      case (Some pa)
      define n where "n = min (4096 - (va - PGROUNDDOWN va)) len"
      note f = copy_first [OF Some n_def len]
      have pg: "PGROUNDDOWN va < MAXVA" "\<forall>f\<in>uw. entry (pmem s) pt (PGROUNDDOWN va) AND f \<noteq> 0"
        "pa = PTE2PA (entry (pmem s) pt (PGROUNDDOWN va))"
        using Some by (auto simp: upage_def split: if_splits)
      define m where "m = blit (pmem s) (unat pa + unat va mod 4096) src off (unat n)"
      define t where "t = s\<lparr>pmem := m\<rparr>"
      have step: "copyout_loop (Suc (Suc fuel)) pt va src off len s =
          copyout_loop (Suc fuel) pt (PGROUNDDOWN va + 4096) src (off + unat n) (len - n) t"
      proof -
        have "lookup 2 (pmem s) pt (PGROUNDDOWN va) \<noteq> 0" using pg(2) by (auto simp: entry_def)
        then show ?thesis using pg pg(1) [unfolded not_le [symmetric]] len f(4)
          by (subst copyout_loop.simps)
            (simp add: Let_def kdo_walk kern_simps load_pte_def entry_def n_def [symmetric] m_def t_def del: copyout_loop.simps)
      qed
      note w = write_user_page [OF Suc.prems(2) Some f(2) m_def]
      have ua: "uaddr perm (pmem t) pt v = uaddr perm (pmem s) pt v" for perm v
        by (simp add: uaddr_def upage_def w(1) t_def)
      have up: "upre uw (pmem t) pt v l = upre uw (pmem s) pt v l" for v l by (simp add: upre_def ua)
      have m: "m = ustore (pmem s) pt va src off (unat n) (pmem s)"
        unfolding m_def by (rule ustore_page [OF Some f(2), symmetric])
      have mp: "upre uw (pmem s) pt va (unat n) = unat n" by (rule upre_page [OF Some f(2)])
      have ln: "unat (len - n) = unat len - unat n" using f(1) by (simp add: unat_sub word_le_nat_alt)
      show ?thesis
      proof (cases "n = len")
        case True
        then show ?thesis unfolding step using Suc.prems(3) mp m by (simp add: kern_simps t_def)
      next
        case False
        with f(5) have n: "unat n = 4096 - unat va mod 4096" "n < len" by auto
        have va: "PGROUNDDOWN va + 4096 = va + of_nat (unat n)" by (rule next_page_va [OF pg(1) n(1)])
        have al: "unat (PGROUNDDOWN va + 4096) mod 4096 = 0" using page_next [OF pg(1)] by simp
        have fuel: "unat (PGROUNDDOWN va + 4096) mod 4096 + unat (len - n) \<le> 4096 * fuel"
          using Suc.prems n ln al mod_less_divisor [of 4096 "unat va"] by simp
        define k' where "k' = upre uw (pmem t) pt (PGROUNDDOWN va + 4096) (unat (len - n))"
        have k: "k = unat n + k'"
          using upre_split [OF mp, of "unat (len - n)"] f(1) ln Suc.prems(3) by (simp add: k'_def va up)
        have "copyout_loop (Suc fuel) pt (PGROUNDDOWN va + 4096) src (off + unat n) (len - n) t =
            Ok (if k' = unat (len - n) then 0 else -1)
              (t\<lparr>pmem := ustore (pmem t) pt (PGROUNDDOWN va + 4096) src (off + unat n) k' (pmem t)\<rparr>)"
          by (rule Suc.IH [OF fuel _ k'_def]) (use w(2) in \<open>simp add: t_def\<close>)
        also have "ustore (pmem t) pt (PGROUNDDOWN va + 4096) src (off + unat n) k' (pmem t) =
            ustore (pmem s) pt va src off k (pmem s)"
          unfolding k ustore_split ustore_cong [OF ua] va by (simp add: t_def m)
        finally show ?thesis unfolding step using k ln f(1) by (auto simp: t_def)
      qed
    qed
  qed
qed

lemma copyout_ok:
  assumes "tables_apart (pmem s) pt"
  shows "copyout pt va src len s =
    Ok (if upre uw (pmem s) pt va (unat len) = unat len then 0 else -1)
       (s\<lparr>pmem := ustore (pmem s) pt va src 0 (upre uw (pmem s) pt va (unat len)) (pmem s)\<rparr>)"
proof -
  have "unat va mod 4096 + unat len \<le> 4096 * (unat len div 4096 + 2)"
    by (rule pages_fuel)
  from copyout_loop_ok [OF this assms refl, of src 0] show ?thesis
    by (simp add: copyout_def params numeral_3_eq_3 del: copyout_loop.simps)
qed

lemma uaddr_user_page:
  assumes "uaddr uw m pt v = Some a"
  obtains pa where "upage uw m pt (PGROUNDDOWN v) = Some pa" and "a = unat pa + unat v mod 4096"
  using assms by (auto simp: uaddr_def params)

lemma ustore_tables:
  assumes "tables_apart m pt" and "\<And>i. i < k \<Longrightarrow> uaddr uw m pt (va + of_nat i) \<noteq> None"
  shows "tables_apart (ustore m pt va src off k m) pt \<and> (\<forall>v. entry (ustore m pt va src off k m) pt v = entry m pt v)"
  using assms(2)
proof (induction k)
  case 0
  then show ?case using assms(1) by (simp add: ustore_def)
next
  case (Suc k)
  let ?m = "ustore m pt va src off k m" and ?v = "va + of_nat k"
  have IH: "tables_apart ?m pt" "\<And>v. entry ?m pt v = entry m pt v" using Suc by simp_all
  have u: "upage uw ?m pt v = upage uw m pt v" for v by (simp add: upage_def IH(2))
  obtain a where a: "uaddr uw m pt ?v = Some a" using Suc.prems [of k] by auto
  then obtain pa where pa: "upage uw ?m pt (PGROUNDDOWN ?v) = Some pa" "a = unat pa + unat ?v mod 4096"
    unfolding u by (rule uaddr_user_page)
  have e: "ustore m pt va src off (Suc k) m = blit ?m (unat pa + unat ?v mod 4096) src (off + k) 1"
    using a pa(2) by (simp add: ustore_def)
  have "unat ?v mod 4096 + 1 \<le> 4096" using mod_less_divisor [of 4096 "unat ?v"] by simp
  from write_user_page [OF IH(1) pa(1) this e] show ?case by (simp add: IH(2))
qed

lemma ustore_outside: "(\<And>i. i < k \<Longrightarrow> uaddr uw m0 pt (va + of_nat i) \<noteq> Some a) \<Longrightarrow>
    (\<And>i. i < k \<Longrightarrow> uaddr uw m0 pt (va + of_nat i) \<noteq> None) \<Longrightarrow> ustore m0 pt va src off k m a = m a"
proof (induction k)
  case (Suc k)
  have "the (uaddr uw m0 pt (va + of_nat k)) \<noteq> a" using Suc.prems(1) [of k] Suc.prems(2) [of k] by auto
  with Suc show ?case by (simp add: ustore_def)
qed (simp add: ustore_def)

text \<open>
  C10. When the pages a user may write are apart from the page table's own pages, \<^verbatim>\<open>copyout\<close> always returns; it
  stores the source bytes, in order, at the physical addresses the page table gives for the user addresses,
  up to the first address the user may not write (valid, with \<^verbatim>\<open>PTE_U\<close> and \<^verbatim>\<open>PTE_W\<close>, below \<^verbatim>\<open>MAXVA\<close>), and
  returns 0 exactly when that is all of them.  No other byte of memory changes, and the translation of
  every address stays as it was.
\<close>

theorem copyout_exact:
  assumes "tables_apart (pmem s) pt"
  shows "let k = upre uw (pmem s) pt va (unat len); m = ustore (pmem s) pt va src 0 k (pmem s) in
    copyout pt va src len s = Ok (if k = unat len then 0 else -1) (s\<lparr>pmem := m\<rparr>) \<and>
    (\<forall>a. (\<forall>i<k. uaddr uw (pmem s) pt (va + of_nat i) \<noteq> Some a) \<longrightarrow> m a = pmem s a) \<and>
    tables_apart m pt \<and> (\<forall>v. entry m pt v = entry (pmem s) pt v)"
proof -
  define k where "k = upre uw (pmem s) pt va (unat len)"
  have out: "ustore (pmem s) pt va src 0 k (pmem s) a = pmem s a"
    if "\<forall>i<k. uaddr uw (pmem s) pt (va + of_nat i) \<noteq> Some a" for a
    using that upre_at [of _ uw "pmem s" pt va "unat len"] by (intro ustore_outside) (auto simp: k_def)
  have st: "tables_apart (ustore (pmem s) pt va src 0 k (pmem s)) pt \<and>
      (\<forall>v. entry (ustore (pmem s) pt va src 0 k (pmem s)) pt v = entry (pmem s) pt v)"
    by (rule ustore_tables [OF assms]) (use upre_at [of _ uw "pmem s" pt va "unat len"] in \<open>auto simp: k_def\<close>)
  show ?thesis unfolding Let_def k_def [symmetric]
    using copyout_ok [OF assms, of va src len] out st by (simp add: k_def [symmetric])
qed

text \<open>
  A page table with one user page: the root at 0x80010000, the tables below it in the next two pages, and
  virtual page 1 on the physical page 0x80013000, readable and writable, whose bytes count up.
\<close>

definition ex_pt :: uint64 where "ex_pt = 0x80010000"

definition ex_ptmem :: bytes where
  "ex_ptmem = put64 (put64 (put64 (\<lambda>a. if 0x80013000 \<le> a then of_nat (a - 0x80013000) else 0)
     0x80010000 (PA2PTE 0x80011000 OR PTE_V))
     0x80011000 (PA2PTE 0x80012000 OR PTE_V))
     0x80012008 (PA2PTE 0x80013000 OR PTE_V OR PTE_U OR PTE_R OR PTE_W)"

lemma ex_pt_index: "PX 2 4096 = 0" "PX (Suc 0) 4096 = 0" "PX 0 4096 = 1"
  by code_simp+

lemma ex_pt_tables: "(PA2PTE 0x80011000 OR PTE_V) AND PTE_V \<noteq> 0" "PTE2PA (PA2PTE 0x80011000 OR PTE_V) = 0x80011000"
  "(PA2PTE 0x80012000 OR PTE_V) AND PTE_V \<noteq> 0" "PTE2PA (PA2PTE 0x80012000 OR PTE_V) = 0x80012000"
  by code_simp+

lemma ex_pt_leaf: "(PA2PTE 0x80013000 OR PTE_V OR PTE_U OR PTE_R OR PTE_W) AND PTE_V \<noteq> 0"
  "(PA2PTE 0x80013000 OR PTE_V OR PTE_U OR PTE_R OR PTE_W) AND PTE_U \<noteq> 0"
  "PTE2PA (PA2PTE 0x80013000 OR PTE_V OR PTE_U OR PTE_R OR PTE_W) = 0x80013000"
  by code_simp+

lemma ex_pt_entry: "entry ex_ptmem ex_pt 4096 = PA2PTE 0x80013000 OR PTE_V OR PTE_U OR PTE_R OR PTE_W"
proof -
  have l: "lookup 2 m pt va = lookup (Suc (Suc 0)) m pt va" for m pt va by (simp only: numeral_2_eq_2)
  have nz: "PTE_V \<noteq> 0" by (simp add: PTE_V_def)
  show ?thesis
    by (simp add: entry_def ex_ptmem_def ex_pt_def l Let_def get64_put64 get64_put64_apart apart_def
        ex_pt_index [unfolded numeral_2_eq_2] ex_pt_tables nz del: One_nat_def)
qed

lemma ex_pt_page: "upage {PTE_V, PTE_U} ex_ptmem ex_pt 4096 = Some 0x80013000"
  by (simp add: upage_def ex_pt_entry ex_pt_leaf params)

lemma get64_zero: "(\<And>k. k < 8 \<Longrightarrow> m (a + k) = 0) \<Longrightarrow> get64 m a = 0"
  using get64_cong [of m a "\<lambda>_. 0"] by (simp add: get64_def get32_def get16_def)

lemma ex_pt_get:
  assumes "i < 512"
  shows "get64 ex_ptmem (0x80010000 + 8 * i) = (if i = 0 then PA2PTE 0x80011000 OR PTE_V else 0)"
    and "get64 ex_ptmem (0x80011000 + 8 * i) = (if i = 0 then PA2PTE 0x80012000 OR PTE_V else 0)"
    and "get64 ex_ptmem (0x80012000 + 8 * i) = (if i = 1 then PA2PTE 0x80013000 OR PTE_V OR PTE_U OR PTE_R OR PTE_W else 0)"
proof -
  have z: "get64 (\<lambda>a. if 0x80013000 \<le> a then of_nat (a - 0x80013000) else 0) a = 0" if "a + 8 \<le> 0x80013000" for a
    by (rule get64_zero) (use that in auto)
  have p: "get64 (put64 m (b + 8 * j) v) (b + 8 * i) = (if i = j then v else get64 m (b + 8 * i))" for b j m v
    using apart_array [of j i 8 b] by (simp add: get64_put64 get64_put64_apart)
  have q: "get64 (put64 m (b' + 8 * j) v) (b + 8 * i) = get64 m (b + 8 * i)" if "b + 4096 \<le> b' \<or> b' + 4096 \<le> b" "j < 512" for b b' j m v
    using that assms by (intro get64_put64_apart) (auto simp: apart_def)
  show "get64 ex_ptmem (0x80010000 + 8 * i) = (if i = 0 then PA2PTE 0x80011000 OR PTE_V else 0)"
    using p [where b = "0x80010000" and j = 0] q [where b = "0x80010000" and b' = "0x80011000" and j = 0] q [where b = "0x80010000" and b' = "0x80012000" and j = 1] assms
    by (simp add: ex_ptmem_def z)
  show "get64 ex_ptmem (0x80011000 + 8 * i) = (if i = 0 then PA2PTE 0x80012000 OR PTE_V else 0)"
    using p [where b = "0x80011000" and j = 0] q [where b = "0x80011000" and b' = "0x80010000" and j = 0] q [where b = "0x80011000" and b' = "0x80012000" and j = 1] assms
    by (simp add: ex_ptmem_def z)
  show "get64 ex_ptmem (0x80012000 + 8 * i) = (if i = 1 then PA2PTE 0x80013000 OR PTE_V OR PTE_U OR PTE_R OR PTE_W else 0)"
    using p [where b = "0x80012000" and j = 1] q [where b = "0x80012000" and b' = "0x80010000" and j = 0] q [where b = "0x80012000" and b' = "0x80011000" and j = 0] assms
    by (simp add: ex_ptmem_def z)
qed

lemma ex_pt_pages: "pt_pages 2 ex_ptmem ex_pt = {0x80010000, 0x80011000, 0x80012000}"
proof -
  have nz: "PTE_V \<noteq> 0" by (simp add: PTE_V_def)
  have l1: "pt_pages (Suc 0) ex_ptmem 0x80011000 = {0x80011000, 0x80012000}"
    using ex_pt_get(2) ex_pt_tables by (auto simp: Let_def nz split: if_splits)
  show ?thesis unfolding numeral_2_eq_2 ex_pt_def
    using ex_pt_get(1) ex_pt_tables l1 by (auto simp: Let_def nz split: if_splits simp del: pt_pages.simps(2) simp: pt_pages.simps(2) [of "Suc 0"])
qed

lemma ex_pt_entries:
  assumes "entry ex_ptmem ex_pt va \<noteq> 0"
  shows "entry ex_ptmem ex_pt va = PA2PTE 0x80013000 OR PTE_V OR PTE_U OR PTE_R OR PTE_W"
proof -
  have l: "lookup 2 m pt va = lookup (Suc (Suc 0)) m pt va" for m pt by (simp only: numeral_2_eq_2)
  have a: "unat (0x80010000 + 8 * PX l va) = 0x80010000 + 8 * unat (PX l va)"
    "unat (0x80011000 + 8 * PX l va) = 0x80011000 + 8 * unat (PX l va)"
    "unat (0x80012000 + 8 * PX l va) = 0x80012000 + 8 * unat (PX l va)" for l
    using pte_addr [of "0x80010000" l va] pte_addr [of "0x80011000" l va] pte_addr [of "0x80012000" l va] by simp_all
  show ?thesis using assms ex_pt_get [OF PX_lt] ex_pt_tables
    by (auto simp: entry_def l ex_pt_def Let_def a split: if_splits)
qed

lemma ex_pt_apart: "tables_apart ex_ptmem ex_pt"
  unfolding tables_apart_def
proof (intro conjI allI impI)
  show "unat ex_pt mod PGSIZE = 0" by (simp add: ex_pt_def params)
  fix va assume "va < MAXVA \<and> (\<forall>f\<in>uw. entry ex_ptmem ex_pt va AND f \<noteq> 0)"
  then have "entry ex_ptmem ex_pt va \<noteq> 0" by auto
  from ex_pt_entries [OF this] ex_pt_leaf
  show "PTE2PA (entry ex_ptmem ex_pt va) \<noteq> 0" "PTE2PA (entry ex_ptmem ex_pt va) \<notin> pt_pages 2 ex_ptmem ex_pt"
    by (simp_all add: ex_pt_pages)
qed

lemma ex_pt_wpage: "upage uw ex_ptmem ex_pt 4096 = Some 0x80013000"
proof -
  have "(PA2PTE 0x80013000 OR PTE_V OR PTE_U OR PTE_R OR PTE_W) AND PTE_W \<noteq> 0" by code_simp
  then show ?thesis by (simp add: upage_def ex_pt_entry ex_pt_leaf params)
qed

lemma ex_pt_addr: "k < 3 \<Longrightarrow> uaddr uw ex_ptmem ex_pt (4098 + of_nat k) = Some (0x80013002 + k)"
proof -
  have "PGROUNDDOWN 4098 = 4096" by (simp add: PGROUNDDOWN_def)
  then show "k < 3 \<Longrightarrow> ?thesis"
    using uaddr_same_page [of uw ex_ptmem ex_pt 4098 "0x80013000" k] ex_pt_wpage by simp
qed

theorem copyout_exact_witness:
  "\<exists>m. copyout ex_pt 4098 (\<lambda>i. of_nat (i + 7)) 3 (ex_kmem\<lparr>pmem := ex_ptmem\<rparr>) = Ok 0 (ex_kmem\<lparr>pmem := m\<rparr>) \<and>
     m 0x80013003 = 8 \<and> m 0x80013005 = ex_ptmem 0x80013005"
proof -
  have k: "upre uw ex_ptmem ex_pt 4098 3 = 3" by (rule upre_all) (simp add: ex_pt_addr)
  let ?m = "ustore ex_ptmem ex_pt 4098 (\<lambda>i. of_nat (i + 7)) 0 3 ex_ptmem"
  have "?m 0x80013003 = 8"
    using ex_pt_addr [of 0] ex_pt_addr [of 1] ex_pt_addr [of 2] by (simp add: ustore_def upt_rec)
  moreover have "?m 0x80013005 = ex_ptmem 0x80013005"
    using copyout_exact [of "ex_kmem\<lparr>pmem := ex_ptmem\<rparr>" ex_pt 4098 3 "\<lambda>i. of_nat (i + 7)"] ex_pt_apart ex_pt_addr
    by (simp add: Let_def k)
  ultimately show ?thesis
    using copyout_exact [of "ex_kmem\<lparr>pmem := ex_ptmem\<rparr>" ex_pt 4098 3 "\<lambda>i. of_nat (i + 7)"] ex_pt_apart
    by (intro exI [of _ ?m]) (simp add: Let_def k)
qed

end
