(* ===== verification/Ptable.thy ===== *)
theory Ptable
  imports Vm
begin

text \<open>
  Page tables as trees: when the pages of a table form a tree of pages that the allocator has handed out, \<^verbatim>\<open>walk\<close> and
  \<^verbatim>\<open>mappages\<close> keep them one, change the entries they are asked to change, and no others.
\<close>

section \<open>Well-formed page tables\<close>

definition slot :: "bytes \<Rightarrow> uint64 \<Rightarrow> nat \<Rightarrow> uint64" where
  "slot m pt i = get64 m (unat pt + 8 * i)"

definition valid :: "uint64 \<Rightarrow> bool" where
  "valid e \<longleftrightarrow> e AND PTE_V \<noteq> 0"

definition inner :: "uint64 \<Rightarrow> bool" where
  "inner e \<longleftrightarrow> e AND (PTE_R OR PTE_W OR PTE_X) = 0"

text \<open>The pages of the tables below entry \<open>i\<close>.\<close>

definition sub :: "nat \<Rightarrow> bytes \<Rightarrow> uint64 \<Rightarrow> nat \<Rightarrow> uint64 set" where
  "sub l m pt i = (if valid (slot m pt i) then pt_pages l m (PTE2PA (slot m pt i)) else {})"

primrec pt_tree :: "nat \<Rightarrow> bytes \<Rightarrow> uint64 \<Rightarrow> bool" where
  "pt_tree 0 m pt \<longleftrightarrow> True"
| "pt_tree (Suc l) m pt \<longleftrightarrow>
     (\<forall>i<512. pt \<notin> sub l m pt i \<and> (valid (slot m pt i) \<longrightarrow> inner (slot m pt i) \<and> pt_tree l m (PTE2PA (slot m pt i)))) \<and>
     (\<forall>i<512. \<forall>j<512. i \<noteq> j \<longrightarrow> sub l m pt i \<inter> sub l m pt j = {})"

definition pt_ok :: "nat \<Rightarrow> 'a kmem_st_scheme \<Rightarrow> uint64 \<Rightarrow> bool" where
  "pt_ok l s pt \<longleftrightarrow> pt_tree l (pmem s) pt \<and> (\<forall>p \<in> pt_pages l (pmem s) pt. page_owned s p)"

text \<open>The entry for an address in a table of \<open>l\<close> levels, 0 when there is none; \<^const>\<open>entry\<close> is the case of a whole table.\<close>

definition ent :: "nat \<Rightarrow> bytes \<Rightarrow> uint64 \<Rightarrow> uint64 \<Rightarrow> uint64" where
  "ent l m pt va = (let a = lookup l m pt va in if a = 0 then 0 else get64 m (unat a))"

lemma entry_ent: "entry m pt va = ent 2 m pt va"
  by (simp add: entry_def ent_def)

abbreviation px :: "nat \<Rightarrow> uint64 \<Rightarrow> nat" where
  "px l va \<equiv> unat (PX l va)"

lemma pt_pages_Suc: "pt_pages (Suc l) m pt = insert pt (\<Union>i\<in>{..<512}. sub l m pt i)"
  by (simp add: sub_def slot_def valid_def Let_def)

lemma lookup_Suc:
  assumes "unat pt mod 4096 = 0"
  shows "lookup (Suc l) m pt va = (if valid (slot m pt (px (Suc l) va)) then lookup l m (PTE2PA (slot m pt (px (Suc l) va))) va else 0)"
  by (simp add: Let_def pte_addr [OF assms] slot_def valid_def)

lemma ent_Suc:
  assumes "unat pt mod 4096 = 0"
  shows "ent (Suc l) m pt va = (if valid (slot m pt (px (Suc l) va)) then ent l m (PTE2PA (slot m pt (px (Suc l) va))) va else 0)"
  using lookup_Suc [OF assms, of l m va] by (simp add: ent_def Let_def del: lookup.simps)

declare pt_pages.simps(2) [simp del] lookup.simps(2) [simp del]

lemma ent_0: "unat pt mod 4096 = 0 \<Longrightarrow> pt \<noteq> 0 \<Longrightarrow> ent 0 m pt va = slot m pt (px 0 va)"
proof -
  assume pt: "unat pt mod 4096 = 0" "pt \<noteq> 0"
  have u: "unat (pt + 8 * PX 0 va) = unat pt + 8 * px 0 va" by (rule pte_addr [OF pt(1)])
  then have "unat (pt + 8 * PX 0 va) \<noteq> 0" using pt(2) by (simp add: unat_eq_0)
  then have "pt + 8 * PX 0 va \<noteq> 0" by (simp add: unat_eq_0)
  then show ?thesis by (simp add: ent_def Let_def slot_def u)
qed

section \<open>Changes outside a table\<close>

lemma slot_cong: "i < 512 \<Longrightarrow> (\<And>k. k < PGSIZE \<Longrightarrow> m' (unat pt + k) = m (unat pt + k)) \<Longrightarrow> slot m' pt i = slot m pt i"
  unfolding slot_def by (rule get64_cong) (simp add: add.assoc params)

definition agree :: "uint64 set \<Rightarrow> bytes \<Rightarrow> bytes \<Rightarrow> bool" where
  "agree P m m' \<longleftrightarrow> (\<forall>a \<in> page_bytes P. m' a = m a)"

lemma agree_mono: "agree P m m' \<Longrightarrow> Q \<subseteq> P \<Longrightarrow> agree Q m m'"
  using page_bytes_mono [of Q P] by (auto simp: agree_def)

lemma agree_slot: "agree P m m' \<Longrightarrow> pt \<in> P \<Longrightarrow> i < 512 \<Longrightarrow> slot m' pt i = slot m pt i"
  by (rule slot_cong) (auto simp: agree_def page_bytesI)

lemma agree_pages: "agree (pt_pages l m pt) m m' \<Longrightarrow> pt_pages l m' pt = pt_pages l m pt"
  by (rule pt_pages_cong) (simp add: agree_def)

lemma sub_pages: "i < 512 \<Longrightarrow> sub l m pt i \<subseteq> pt_pages (Suc l) m pt"
  unfolding pt_pages_Suc by blast

lemma agree_sub:
  assumes "agree (insert pt (sub l m pt i)) m m'" and "i < 512"
  shows "sub l m' pt i = sub l m pt i"
proof -
  have s: "slot m' pt i = slot m pt i" using agree_slot [OF assms(1) _ assms(2)] by simp
  have "agree (sub l m pt i) m m'" using assms(1) by (rule agree_mono) blast
  then show ?thesis using agree_pages [of l m "PTE2PA (slot m pt i)" m'] by (simp add: sub_def s split: if_splits)
qed

lemma agree_tree: "agree (pt_pages l m pt) m m' \<Longrightarrow> pt_tree l m' pt = pt_tree l m pt"
proof (induction l arbitrary: pt)
  case (Suc l)
  have s: "slot m' pt i = slot m pt i" if "i < 512" for i using agree_slot [OF Suc.prems pt_pages_root that] .
  have sb: "sub l m' pt i = sub l m pt i" if "i < 512" for i
    by (rule agree_sub [OF agree_mono [OF Suc.prems] that]) (use sub_pages [OF that] pt_pages_root in blast)
  have "pt_tree l m' (PTE2PA (slot m pt i)) = pt_tree l m (PTE2PA (slot m pt i))" if "i < 512" "valid (slot m pt i)" for i
    by (rule Suc.IH, rule agree_mono [OF Suc.prems]) (use sub_pages [OF that(1), of l m pt] that(2) in \<open>simp add: sub_def\<close>)
  then show ?case by (simp add: s sb)
qed simp

lemma agree_ent:
  assumes "unat pt mod 4096 = 0" and "pt \<noteq> 0"
  shows "agree (pt_pages l m pt) m m' \<Longrightarrow> (\<And>p. p \<in> pt_pages l m pt \<Longrightarrow> p \<noteq> 0) \<Longrightarrow> ent l m' pt va = ent l m pt va"
  using assms
proof (induction l arbitrary: pt)
  case 0
  then show ?case using agree_slot [OF 0(1) pt_pages_root PX_lt] by (simp add: ent_0)
next
  case (Suc l)
  let ?i = "px (Suc l) va"
  have s: "slot m' pt ?i = slot m pt ?i" by (rule agree_slot [OF Suc.prems(1) pt_pages_root PX_lt])
  have "ent l m' (PTE2PA (slot m pt ?i)) va = ent l m (PTE2PA (slot m pt ?i)) va" if v: "valid (slot m pt ?i)"
  proof -
    have P: "pt_pages l m (PTE2PA (slot m pt ?i)) \<subseteq> pt_pages (Suc l) m pt" using sub_pages [OF PX_lt, of l m pt "Suc l" va] v by (simp add: sub_def)
    show ?thesis
    proof (rule Suc.IH)
      show "agree (pt_pages l m (PTE2PA (slot m pt ?i))) m m'" by (rule agree_mono [OF Suc.prems(1) P])
      show "PTE2PA (slot m pt ?i) \<noteq> 0" using Suc.prems(2) P pt_pages_root by blast
    qed (use Suc.prems(2) P PTE2PA_aligned in blast)+
  qed
  then show ?case by (simp add: ent_Suc [OF Suc.prems(3)] s del: lookup.simps)
qed

section \<open>Changing one entry\<close>

lemma graft:
  assumes tr: "pt_tree (Suc l) m pt" and i: "i < 512"
    and e: "slot m' pt i = e" "valid e" "inner e" "pt_tree l m' (PTE2PA e)" "pt \<notin> pt_pages l m' (PTE2PA e)"
    and slots: "\<And>j. j < 512 \<Longrightarrow> j \<noteq> i \<Longrightarrow> slot m' pt j = slot m pt j"
    and old: "\<And>j. j < 512 \<Longrightarrow> j \<noteq> i \<Longrightarrow> agree (sub l m pt j) m m'"
    and N: "pt_pages l m' (PTE2PA e) \<subseteq> sub l m pt i \<union> N" "N \<inter> pt_pages (Suc l) m pt = {}"
  shows "pt_tree (Suc l) m' pt" and "pt_pages (Suc l) m' pt \<subseteq> pt_pages (Suc l) m pt \<union> pt_pages l m' (PTE2PA e)"
proof -
  have si: "sub l m' pt i = pt_pages l m' (PTE2PA e)" using e by (simp add: sub_def)
  have sj: "sub l m' pt j = sub l m pt j" if "j < 512" "j \<noteq> i" for j
    using slots [OF that] old [OF that] agree_pages [of l m "PTE2PA (slot m pt j)" m'] by (simp add: sub_def split: if_splits)
  have tj: "pt_tree l m' (PTE2PA (slot m pt j))" if "j < 512" "j \<noteq> i" "valid (slot m pt j)" for j
    using old [OF that(1,2)] agree_tree [of l m "PTE2PA (slot m pt j)" m'] that tr by (simp add: sub_def)
  have d: "sub l m' pt i \<inter> sub l m pt j = {}" if "j < 512" "j \<noteq> i" for j
  proof -
    have "sub l m pt i \<inter> sub l m pt j = {}" using tr i that by simp
    moreover have "N \<inter> sub l m pt j = {}" using N(2) sub_pages [OF that(1), of l m pt] by blast
    ultimately show ?thesis using N(1) si by blast
  qed
  show "pt_tree (Suc l) m' pt" unfolding pt_tree.simps
  proof (intro conjI allI impI)
    fix j :: nat assume j: "j < 512"
    show "pt \<notin> sub l m' pt j" using tr j e(5) si sj by (cases "j = i") auto
    assume v: "valid (slot m' pt j)"
    show "inner (slot m' pt j)" using tr j v e slots by (cases "j = i") auto
    show "pt_tree l m' (PTE2PA (slot m' pt j))" using j v e slots tj by (cases "j = i") auto
  next
    fix j k :: nat assume jk: "j < 512" "k < 512" "j \<noteq> k"
    show "sub l m' pt j \<inter> sub l m' pt k = {}"
    proof (cases "j = i \<or> k = i")
      case True
      then show ?thesis using d [of k] d [of j] sj [of k] sj [of j] jk by auto
    next
      case False
      then show ?thesis using tr jk sj by simp
    qed
  qed
  have "sub l m' pt j \<subseteq> pt_pages (Suc l) m pt \<union> pt_pages l m' (PTE2PA e)" if "j < 512" for j
    using si sj [of j] sub_pages [OF that, of l m pt] that by (cases "j = i") auto
  then show "pt_pages (Suc l) m' pt \<subseteq> pt_pages (Suc l) m pt \<union> pt_pages l m' (PTE2PA e)"
    unfolding pt_pages_Suc [of l m'] using pt_pages_root [of pt "Suc l" m] by blast
qed

lemma graft_ent:
  assumes pt: "unat pt mod 4096 = 0"
    and slots: "\<And>j. j < 512 \<Longrightarrow> j \<noteq> i \<Longrightarrow> slot m' pt j = slot m pt j"
    and old: "\<And>j. j < 512 \<Longrightarrow> j \<noteq> i \<Longrightarrow> agree (sub l m pt j) m m'"
    and nz: "\<And>p. p \<in> pt_pages (Suc l) m pt \<Longrightarrow> p \<noteq> 0" and v: "px (Suc l) v \<noteq> i"
  shows "ent (Suc l) m' pt v = ent (Suc l) m pt v"
proof -
  let ?j = "px (Suc l) v"
  have s: "slot m' pt ?j = slot m pt ?j" by (rule slots [OF PX_lt v])
  have "ent l m' (PTE2PA (slot m pt ?j)) v = ent l m (PTE2PA (slot m pt ?j)) v" if w: "valid (slot m pt ?j)"
  proof (rule agree_ent)
    have P: "pt_pages l m (PTE2PA (slot m pt ?j)) \<subseteq> pt_pages (Suc l) m pt" using sub_pages [OF PX_lt, of l m pt "Suc l" v] w by (simp add: sub_def)
    show "agree (pt_pages l m (PTE2PA (slot m pt ?j))) m m'" using old [OF PX_lt v] w by (simp add: sub_def)
    show "\<And>p. p \<in> pt_pages l m (PTE2PA (slot m pt ?j)) \<Longrightarrow> p \<noteq> 0" using nz P by blast
    show "PTE2PA (slot m pt ?j) \<noteq> 0" using nz P pt_pages_root by blast
  qed (rule PTE2PA_aligned)
  then show ?thesis by (simp add: ent_Suc [OF pt] s)
qed

section \<open>New tables\<close>

lemma zero_table:
  assumes z: "\<And>k. k < PGSIZE \<Longrightarrow> m (unat p + k) = 0" and p: "unat p mod 4096 = 0" "p \<noteq> 0"
  shows "pt_pages l m p = {p}" and "pt_tree l m p" and "ent l m p v = 0"
proof -
  have s: "slot m p i = 0" if "i < 512" for i
  proof -
    have "slot m p i = slot (\<lambda>_. 0) p i" by (rule slot_cong [OF that]) (rule z)
    also have "\<dots> = 0" by (simp add: slot_def get64_def get32_def get16_def)
    finally show ?thesis .
  qed
  then have n: "sub l' m p i = {}" "\<not> valid (slot m p i)" if "i < 512" for i l' using that by (simp_all add: sub_def valid_def)
  show "pt_pages l m p = {p}" using n(1) by (cases l) (auto simp: pt_pages_Suc)
  show "pt_tree l m p" using n by (cases l) auto
  show "ent l m p v = 0" using s [OF PX_lt] n(2) [OF PX_lt] by (cases l) (simp_all add: ent_0 [OF p] ent_Suc [OF p(1)])
qed

lemma kmem_wf_write:
  assumes ok: "kmem_wf s" and p: "page_owned s p" and m: "\<And>b. b < unat p \<or> unat p + PGSIZE \<le> b \<Longrightarrow> m' b = pmem s b"
  shows "kmem_wf (s\<lparr>pmem := m'\<rparr>)" and "free_pages (s\<lparr>pmem := m'\<rparr>) = free_pages s"
proof -
  obtain xs where xs: "kmem_ok s xs" and l: "Kmem_lock \<notin> held s" using ok by (auto simp: kmem_wf_def)
  have "page_ok (kend s) p" "p \<notin> set xs" using p free_pages_eq [OF xs] by (auto simp: page_owned_def)
  then have "free_list m' (freelist s) xs = free_list (pmem s) (freelist s) xs"
    using xs m by (intro free_list_outside [where p = p and e = "kend s"]) (auto simp: kmem_ok_def)
  then have t: "kmem_ok (s\<lparr>pmem := m'\<rparr>) xs" using xs by (simp add: kmem_ok_def)
  then show "kmem_wf (s\<lparr>pmem := m'\<rparr>)" using l by (auto simp: kmem_wf_def)
  show "free_pages (s\<lparr>pmem := m'\<rparr>) = free_pages s" using free_pages_eq [OF xs] free_pages_eq [OF t] by simp
qed

lemma owned_page:
  assumes "kmem_wf s" and "page_owned s p"
  shows "unat p mod 4096 = 0" "p \<noteq> 0" "p < push_bit 56 1" "p \<notin> free_pages s"
proof -
  obtain xs where "kmem_ok s xs" using assms(1) by (auto simp: kmem_wf_def)
  then have e: "0 < kend s" by (simp add: kmem_ok_def)
  have p: "page_ok (kend s) p" using assms(2) by (simp add: page_owned_def)
  show "unat p mod 4096 = 0" "p \<notin> free_pages s" using assms(2) by (simp_all add: page_owned_def page_ok_def params)
  show "p \<noteq> 0" by (rule page_ok_nonzero [OF p e])
  have "PHYSTOP \<le> push_bit 56 1" by (simp add: params)
  then show "p < push_bit 56 1" using p order.strict_trans2 unfolding page_ok_def by blast
qed

section \<open>Walking with allocation\<close>

text \<open>
  What \<^verbatim>\<open>walk\<close> may do to memory: the table stays well-formed and grows only by free pages, and no byte outside the table and the free pages changes.
\<close>

definition grows :: "nat \<Rightarrow> uint64 \<Rightarrow> 'a kmem_st_scheme \<Rightarrow> 'a kmem_st_scheme \<Rightarrow> bool" where
  "grows l pt s t \<longleftrightarrow> kmem_wf t \<and> pt_ok l t pt \<and> (\<exists>m f. t = s\<lparr>pmem := m, freelist := f\<rparr>) \<and> free_pages t \<subseteq> free_pages s \<and>
     pt_pages l (pmem t) pt \<subseteq> pt_pages l (pmem s) pt \<union> free_pages s \<and>
     (\<forall>b. b \<notin> page_bytes (pt_pages l (pmem s) pt \<union> free_pages s) \<longrightarrow> pmem t b = pmem s b)"

lemma growsD:
  assumes "grows l pt s t"
  shows "kmem_wf t" "pt_ok l t pt" "kend t = kend s" "free_pages t \<subseteq> free_pages s"
    "pt_pages l (pmem t) pt \<subseteq> pt_pages l (pmem s) pt \<union> free_pages s"
    "\<And>b. b \<notin> page_bytes (pt_pages l (pmem s) pt \<union> free_pages s) \<Longrightarrow> pmem t b = pmem s b"
    "\<exists>m f. t = s\<lparr>pmem := m, freelist := f\<rparr>"
  using assms by (auto simp: grows_def)

lemma same_state: "\<exists>m f. s = s\<lparr>pmem := m, freelist := f\<rparr>"
  by (intro exI [of _ "pmem s"] exI [of _ "freelist s"]) simp

lemma grows_refl: "kmem_wf s \<Longrightarrow> pt_ok l s pt \<Longrightarrow> grows l pt s s"
  unfolding grows_def using same_state by blast

lemma free_aligned: "kmem_wf s \<Longrightarrow> p \<in> free_pages s \<Longrightarrow> unat p mod PGSIZE = 0 \<and> page_ok (kend s) p"
  by (auto simp: free_pages_def kmem_ok_def page_ok_def)

lemma byte_outside:
  assumes P: "\<And>p. p \<in> P \<Longrightarrow> unat p mod PGSIZE = 0" and q: "unat q mod PGSIZE = 0" "q \<notin> P" and b: "unat q \<le> b" "b < unat q + PGSIZE"
  shows "b \<notin> page_bytes P"
  using page_bytes_apart [OF P q(1,2), of "b - unat q"] b by auto

lemma table_pages:
  assumes wf: "kmem_wf s" and ok: "pt_ok (Suc l) s pt" and i: "i < 512"
  shows "pt \<notin> sub l (pmem s) pt i \<union> free_pages s" and "\<And>p. p \<in> sub l (pmem s) pt i \<union> free_pages s \<Longrightarrow> unat p mod PGSIZE = 0"
    and "k < PGSIZE \<Longrightarrow> unat pt + k \<notin> page_bytes (sub l (pmem s) pt i \<union> free_pages s)" and "unat pt mod 4096 = 0"
proof -
  have tree: "pt_tree (Suc l) (pmem s) pt" and own: "\<And>p. p \<in> pt_pages (Suc l) (pmem s) pt \<Longrightarrow> page_owned s p"
    using ok by (simp_all add: pt_ok_def del: pt_tree.simps)
  note op = owned_page [OF wf own]
  show a: "unat pt mod 4096 = 0" by (rule op(1) [OF pt_pages_root])
  show n: "pt \<notin> sub l (pmem s) pt i \<union> free_pages s" using op(4) [OF pt_pages_root] tree i by simp
  show al: "unat p mod PGSIZE = 0" if "p \<in> sub l (pmem s) pt i \<union> free_pages s" for p
    using that free_aligned [OF wf] op(1) sub_pages [OF i, of l "pmem s" pt] by (auto simp: params)
  show "unat pt + k \<notin> page_bytes (sub l (pmem s) pt i \<union> free_pages s)" if "k < PGSIZE"
    using byte_outside [of "sub l (pmem s) pt i \<union> free_pages s" pt "unat pt + k"] al n a that by (simp add: params)
qed

text \<open>A change below entry \<open>i\<close>, in free pages and in the entry itself leaves the other entries and the tables below them alone.\<close>

lemma outside_child:
  assumes wf: "kmem_wf s" and ok: "pt_ok (Suc l) s pt" and i: "i < 512"
    and ts: "\<And>b. b \<notin> page_bytes (sub l (pmem s) pt i \<union> free_pages s) \<Longrightarrow> b < unat pt + 8 * i \<or> unat pt + 8 * i + 8 \<le> b \<Longrightarrow> m' b = pmem s b"
    and j: "j < 512" "j \<noteq> i"
  shows "slot m' pt j = slot (pmem s) pt j" and "agree (sub l (pmem s) pt j) (pmem s) m'"
proof -
  let ?S = "sub l (pmem s) pt i" and ?F = "free_pages s"
  note T = table_pages [OF wf ok i]
  have tree: "pt_tree (Suc l) (pmem s) pt" and own: "\<And>p. p \<in> pt_pages (Suc l) (pmem s) pt \<Longrightarrow> page_owned s p"
    using ok by (simp_all add: pt_ok_def del: pt_tree.simps)
  note op = owned_page [OF wf own]
  show "slot m' pt j = slot (pmem s) pt j"
    unfolding slot_def
  proof (rule get64_cong)
    fix k :: nat assume k: "k < 8"
    have "unat pt + 8 * j + k < unat pt + 8 * i \<or> unat pt + 8 * i + 8 \<le> unat pt + 8 * j + k" using j k by linarith
    moreover have "unat pt + (8 * j + k) \<notin> page_bytes (?S \<union> ?F)" by (rule T(3)) (use j k in \<open>simp add: params\<close>)
    ultimately show "m' (unat pt + 8 * j + k) = pmem s (unat pt + 8 * j + k)" by (intro ts) (simp_all add: add.assoc)
  qed
  show "agree (sub l (pmem s) pt j) (pmem s) m'"
    unfolding agree_def
  proof
    fix b assume "b \<in> page_bytes (sub l (pmem s) pt j)"
    then obtain p where p: "p \<in> sub l (pmem s) pt j" "unat p \<le> b" "b < unat p + PGSIZE" by (auto simp: page_bytes_def)
    have P: "p \<in> pt_pages (Suc l) (pmem s) pt" using sub_pages [OF j(1)] p(1) by blast
    have "p \<notin> ?S" "p \<noteq> pt" using tree i j p(1) by (auto simp: disjoint_iff)
    then have "p \<notin> ?S \<union> ?F" "p \<noteq> pt" using op(4) [OF P] by blast+
    then have 1: "b \<notin> page_bytes (?S \<union> ?F)" using byte_outside [of "?S \<union> ?F" p b] T(2) op(1) [OF P] p by (simp add: params)
    have "unat p + PGSIZE \<le> unat pt \<or> unat pt + PGSIZE \<le> unat p"
      using pages_disjoint [of "unat p" "unat pt"] op(1) [OF P] T(4) \<open>p \<noteq> pt\<close> by (simp add: params word_unat_eq_iff)
    then have "b < unat pt + 8 * i \<or> unat pt + 8 * i + 8 \<le> b" using p i by (auto simp: params)
    then show "m' b = pmem s b" by (rule ts [OF 1])
  qed
qed

text \<open>
  From a table below entry \<open>i\<close> to the whole: \<open>s1\<close> is the state in which entry \<open>i\<close> points to a well-formed table, made of pages that were below the
  entry or free in \<open>s\<close>, and \<open>t\<close> is what has become of \<open>s1\<close>.
\<close>

lemma grow_child:
  assumes wf: "kmem_wf s" and ok: "pt_ok (Suc l) s pt" and i: "i < 512"
    and e: "slot (pmem s1) pt i = e" "valid e" "inner e" and q: "pt_pages l (pmem s1) (PTE2PA e) \<subseteq> sub l (pmem s) pt i \<union> free_pages s"
    and s1: "\<exists>m f. s1 = s\<lparr>pmem := m, freelist := f\<rparr>" "free_pages s1 \<subseteq> free_pages s"
    and b: "\<And>b. b \<notin> page_bytes (sub l (pmem s) pt i \<union> free_pages s) \<Longrightarrow> b < unat pt + 8 * i \<or> unat pt + 8 * i + 8 \<le> b \<Longrightarrow> pmem s1 b = pmem s b"
    and g: "grows l (PTE2PA e) s1 t"
  shows "grows (Suc l) pt s t" and "slot (pmem t) pt i = e"
    and "px (Suc l) v \<noteq> i \<Longrightarrow> ent (Suc l) (pmem t) pt v = ent (Suc l) (pmem s) pt v"
proof -
  let ?S = "sub l (pmem s) pt i" and ?F = "free_pages s"
  note G = growsD [OF g]
  have tree: "pt_tree (Suc l) (pmem s) pt" and own: "\<And>p. p \<in> pt_pages (Suc l) (pmem s) pt \<Longrightarrow> page_owned s p"
    using ok by (simp_all add: pt_ok_def del: pt_tree.simps)
  note op = owned_page [OF wf own]
  note T = table_pages [OF wf ok i]
  have inSF: "pt_pages l (pmem s1) (PTE2PA e) \<union> free_pages s1 \<subseteq> ?S \<union> ?F" using q s1(2) by blast
  have t1: "pmem t b = pmem s1 b" if "b \<notin> page_bytes (?S \<union> ?F)" for b
    using G(6) that page_bytes_mono [OF inSF] by blast
  have ts: "pmem t b = pmem s b" if "b \<notin> page_bytes (?S \<union> ?F)" "b < unat pt + 8 * i \<or> unat pt + 8 * i + 8 \<le> b" for b
    using t1 [OF that(1)] b [OF that] by simp
  have "slot (pmem t) pt i = slot (pmem s1) pt i" by (rule slot_cong [OF i]) (rule t1 [OF T(3)])
  then show ei: "slot (pmem t) pt i = e" using e(1) by simp
  note sl = outside_child(1) [OF wf ok i ts] and old = outside_child(2) [OF wf ok i ts]
  have new: "pt_pages l (pmem t) (PTE2PA e) \<subseteq> ?S \<union> ?F" using G(5) inSF by blast
  have "pt_tree l (pmem t) (PTE2PA e)" using G(2) by (simp add: pt_ok_def)
  moreover have "pt \<notin> pt_pages l (pmem t) (PTE2PA e)" using new T(1) by blast
  moreover have F: "?F \<inter> pt_pages (Suc l) (pmem s) pt = {}" using op(4) by blast
  ultimately have gr: "pt_tree (Suc l) (pmem t) pt" "pt_pages (Suc l) (pmem t) pt \<subseteq> pt_pages (Suc l) (pmem s) pt \<union> pt_pages l (pmem t) (PTE2PA e)"
    using graft [OF tree i ei e(2,3) _ _ sl old new] by blast+
  have kend: "kend t = kend s" using G(3) s1(1) by auto
  have "page_owned t p" if "p \<in> pt_pages (Suc l) (pmem t) pt" for p
  proof (cases "p \<in> pt_pages l (pmem t) (PTE2PA e)")
    case True
    then show ?thesis using G(2) by (simp add: pt_ok_def)
  next
    case False
    then have "page_owned s p" using that gr(2) own by blast
    then show ?thesis using G(4) s1(2) kend by (auto simp: page_owned_def)
  qed
  then have "pt_ok (Suc l) t pt" using gr(1) by (simp add: pt_ok_def del: pt_tree.simps)
  moreover have "pt_pages (Suc l) (pmem t) pt \<subseteq> pt_pages (Suc l) (pmem s) pt \<union> ?F" using gr(2) new sub_pages [OF i] by blast
  moreover have "pmem t b = pmem s b" if nb: "b \<notin> page_bytes (pt_pages (Suc l) (pmem s) pt \<union> ?F)" for b
  proof (rule ts)
    show "b \<notin> page_bytes (?S \<union> ?F)" using nb page_bytes_mono [of "?S \<union> ?F" "pt_pages (Suc l) (pmem s) pt \<union> ?F"] sub_pages [OF i, of l "pmem s" pt] by blast
    have "\<not> (unat pt \<le> b \<and> b < unat pt + PGSIZE)" using nb pt_pages_root [of pt "Suc l" "pmem s"] by (auto simp: page_bytes_def)
    then show "b < unat pt + 8 * i \<or> unat pt + 8 * i + 8 \<le> b" using i by (auto simp: params)
  qed
  moreover have "\<exists>m f. t = s\<lparr>pmem := m, freelist := f\<rparr>"
  proof -
    obtain m f m1 f1 where "t = s1\<lparr>pmem := m, freelist := f\<rparr>" "s1 = s\<lparr>pmem := m1, freelist := f1\<rparr>" using G(7) s1(1) by blast
    then have "t = s\<lparr>pmem := m, freelist := f\<rparr>" by simp
    then show ?thesis by blast
  qed
  ultimately show "grows (Suc l) pt s t" using G(1,4) s1(2) unfolding grows_def by blast
  show "ent (Suc l) (pmem t) pt v = ent (Suc l) (pmem s) pt v" if "px (Suc l) v \<noteq> i"
    by (rule graft_ent [OF T(4) sl old _ that]) (use op(2) in auto)
qed

lemma flags_and: "PTE_FLAGS e = f \<Longrightarrow> x AND 0x3FF = x \<Longrightarrow> e AND x = f AND x"
proof -
  assume f: "PTE_FLAGS e = f" and x: "x AND 0x3FF = x"
  have "e AND x = e AND (x AND 0x3FF)" unfolding x ..
  also have "\<dots> = PTE_FLAGS e AND x" unfolding PTE_FLAGS_def by (simp only: ac_simps)
  finally show ?thesis unfolding f .
qed

lemma inner_entry:
  assumes "unat p mod 4096 = 0" and "p < push_bit 56 1"
  shows "valid (PA2PTE p OR PTE_V)" "inner (PA2PTE p OR PTE_V)" "PTE2PA (PA2PTE p OR PTE_V) = p"
proof -
  have f: "PTE_V < 1024" by (simp add: PTE_V_def)
  note e = PTE2PA_PA2PTE [OF _ assms(2) f]
  show "PTE2PA (PA2PTE p OR PTE_V) = p" by (rule e(1)) (use assms(1) in \<open>simp add: params\<close>)
  have fl: "PTE_FLAGS (PA2PTE p OR PTE_V) = PTE_V" by (rule e(2)) (use assms(1) in \<open>simp add: params\<close>)
  show "valid (PA2PTE p OR PTE_V)" using flags_and [OF fl, of PTE_V] by (simp add: valid_def PTE_V_def)
  show "inner (PA2PTE p OR PTE_V)" using flags_and [OF fl, of "PTE_R OR PTE_W OR PTE_X"] by (simp add: inner_def PTE_V_def PTE_R_def PTE_W_def PTE_X_def)
qed

text \<open>A page from the allocator, cleared and entered at \<open>i\<close>, is an empty table.\<close>

lemma new_table:
  assumes wf: "kmem_wf s" and ok: "pt_ok (Suc l) s pt" and i: "i < 512" and free: "free_pages s \<noteq> {}"
  obtains p s1 s3 where "kalloc s = Ok p s1" "p \<noteq> 0" "unat p mod 4096 = 0" "p < push_bit 56 1" "p \<in> free_pages s"
    "s3 = s1\<lparr>pmem := put64 (memset (pmem s1) (unat p) 0 PGSIZE) (unat pt + 8 * i) (PA2PTE p OR PTE_V)\<rparr>"
    "kmem_wf s3" "pt_ok l s3 p" "pt_pages l (pmem s3) p = {p}" "\<And>v. ent l (pmem s3) p v = 0"
    "\<exists>m f. s3 = s\<lparr>pmem := m, freelist := f\<rparr>" "free_pages s3 \<subseteq> free_pages s"
    "\<And>b. b < unat p \<or> unat p + PGSIZE \<le> b \<Longrightarrow> b < unat pt + 8 * i \<or> unat pt + 8 * i + 8 \<le> b \<Longrightarrow> pmem s3 b = pmem s b"
proof -
  obtain xs where xs: "kmem_ok s xs" and l: "Kmem_lock \<notin> held s" using wf by (auto simp: kmem_wf_def)
  then obtain p as where k: "kmem_ok s (p # as)" using free by (cases xs) (auto simp: free_pages_eq)
  note F = free_pages_eq [OF k]
  define s1 where "s1 = s\<lparr>freelist := get64 (pmem s) (unat p), pmem := memset (pmem s) (unat p) 5 PGSIZE\<rparr>"
  have a: "kalloc s = Ok p s1" "kmem_ok s1 as" using kalloc_some [OF k l] by (simp_all add: s1_def)
  have w1: "kmem_wf s1" using a(2) l by (auto simp: kmem_wf_def s1_def)
  have F1: "free_pages s1 = set as" by (rule free_pages_eq [OF a(2)])
  have pn: "page_ok (kend s) p" "p \<notin> set as" using k by (simp_all add: kmem_ok_def)
  have o1: "page_owned s1 p" using pn F1 by (simp add: page_owned_def s1_def)
  note op = owned_page [OF w1 o1]
  define s2 where "s2 = s1\<lparr>pmem := memset (pmem s1) (unat p) 0 PGSIZE\<rparr>"
  have "memset (pmem s1) (unat p) 0 PGSIZE b = pmem s1 b" if "b < unat p \<or> unat p + PGSIZE \<le> b" for b using that by (auto simp: memset_at)
  from kmem_wf_write [OF w1 o1 this] have w2: "kmem_wf s2" "free_pages s2 = set as" using F1 by (simp_all add: s2_def)
  have pt: "page_owned s pt" "pt \<noteq> p" using ok pt_pages_root F by (auto simp: pt_ok_def page_owned_def simp del: pt_tree.simps)
  then have o2: "page_owned s2 pt" using w2(2) F by (simp add: page_owned_def s2_def s1_def)
  define m3 where "m3 = put64 (memset (pmem s1) (unat p) 0 PGSIZE) (unat pt + 8 * i) (PA2PTE p OR PTE_V)"
  have out: "m3 b = pmem s2 b" if "b < unat pt + 8 * i \<or> unat pt + 8 * i + 8 \<le> b" for b
    using that by (simp add: m3_def s2_def put64_outside)
  define s3 where "s3 = s1\<lparr>pmem := m3\<rparr>"
  have s3: "s3 = s2\<lparr>pmem := m3\<rparr>" by (simp add: s3_def s2_def)
  have "m3 b = pmem s2 b" if "b < unat pt \<or> unat pt + PGSIZE \<le> b" for b by (rule out) (use that i in \<open>auto simp: params\<close>)
  from kmem_wf_write [OF w2(1) o2 this] have w3: "kmem_wf s3" "free_pages s3 = set as" using w2(2) by (simp_all add: s3)
  have "unat p + PGSIZE \<le> unat pt \<or> unat pt + PGSIZE \<le> unat p"
    using pages_disjoint [of "unat p" "unat pt"] op(1) owned_page(1) [OF wf pt(1)] pt(2) by (simp add: params word_unat_eq_iff)
  then have z: "m3 (unat p + k) = 0" if "k < PGSIZE" for k using that i by (subst out) (auto simp: s2_def memset_at params)
  note zt = zero_table [where m = m3 and p = p, OF z op(1,2)]
  have 1: "pt_ok l s3 p" using zt o1 w3(2) F1 by (simp add: pt_ok_def s3_def page_owned_def)
  have 2: "pmem s3 b = pmem s b" if "b < unat p \<or> unat p + PGSIZE \<le> b" "b < unat pt + 8 * i \<or> unat pt + 8 * i + 8 \<le> b" for b
  proof -
    have "pmem s3 b = memset (memset (pmem s) (unat p) 5 PGSIZE) (unat p) 0 PGSIZE b" using out [OF that(2)] by (simp add: s3_def s2_def s1_def)
    also have "\<dots> = pmem s b" using that(1) by (auto simp: memset_at)
    finally show ?thesis .
  qed
  have 3: "s3 = s\<lparr>pmem := m3, freelist := get64 (pmem s) (unat p)\<rparr>" by (simp add: s3_def s1_def)
  show thesis
  proof (rule that [OF a(1) op(2,1,3) _ s3_def [unfolded m3_def] w3(1) 1 _ _ _ _ 2])
    show "p \<in> free_pages s" "free_pages s3 \<subseteq> free_pages s" using F w3(2) by auto
    show "pt_pages l (pmem s3) p = {p}" "\<And>v. ent l (pmem s3) p v = 0" using zt by (simp_all add: s3_def)
    show "\<exists>m f. s3 = s\<lparr>pmem := m, freelist := f\<rparr>" using 3 by blast
  qed
qed

text \<open>What a walk with allocation gives: the address of the entry, or null when no page is left, and the same entries as before.\<close>

definition walks :: "nat \<Rightarrow> uint64 \<Rightarrow> uint64 \<Rightarrow> 'a kmem_st_scheme \<Rightarrow> uint64 \<Rightarrow> 'a kmem_st_scheme \<Rightarrow> bool" where
  "walks l pt va s a t \<longleftrightarrow> walk_loop l pt va True s = Ok a t \<and> grows l pt s t \<and> (\<forall>v. ent l (pmem t) pt v = ent l (pmem s) pt v) \<and>
     (if a = 0 then free_pages t = {} else lookup l (pmem t) pt va = a)"

lemma walksD:
  assumes "walks l pt va s a t"
  shows "walk_loop l pt va True s = Ok a t" "grows l pt s t" "ent l (pmem t) pt v = ent l (pmem s) pt v"
    "if a = 0 then free_pages t = {} else lookup l (pmem t) pt va = a"
  using assms unfolding walks_def by blast+

lemma pt_ok_child:
  assumes "pt_ok (Suc l) s pt" and i: "i < 512" and "valid (slot (pmem s) pt i)"
  shows "pt_ok l s (PTE2PA (slot (pmem s) pt i))" and "inner (slot (pmem s) pt i)"
    and "sub l (pmem s) pt i = pt_pages l (pmem s) (PTE2PA (slot (pmem s) pt i))"
  using assms sub_pages [OF i, of l "pmem s" pt] by (auto simp: pt_ok_def sub_def)

text \<open>The entry of an upper level that \<^verbatim>\<open>walk\<close> looks at.\<close>

lemma walk_loop_Suc:
  assumes "unat pt mod 4096 = 0"
  shows "walk_loop (Suc l) pt va alloc s =
    (if valid (slot (pmem s) pt (px (Suc l) va)) then walk_loop l (PTE2PA (slot (pmem s) pt (px (Suc l) va))) va alloc s
     else if \<not> alloc then Ok 0 s
     else kdo kalloc (\<lambda>p. if p = 0 then ret 0 else kdo (memset_page p 0) (\<lambda>_.
            kdo (store_pte (pt + 8 * PX (Suc l) va) (PA2PTE p OR PTE_V)) (\<lambda>_. walk_loop l p va alloc))) s)"
  by (simp add: load_pte_def kern_simps pte_addr [OF assms] slot_def valid_def)

lemma walk_down:
  assumes wf: "kmem_wf s" and ok: "pt_ok (Suc l) s pt" and e: "e = slot (pmem s) pt (px (Suc l) va)" "valid e"
    and w: "walks l (PTE2PA e) va s a t"
  shows "walks (Suc l) pt va s a t"
proof -
  let ?i = "px (Suc l) va"
  note W = walksD [OF w] and T = table_pages [OF wf ok PX_lt] and c = pt_ok_child [OF ok PX_lt e(2) [unfolded e(1)]]
  note g = grow_child [OF wf ok PX_lt e(1) [symmetric] e(2) c(2) [folded e(1)] _ same_state subset_refl refl W(2)]
  have gr: "grows (Suc l) pt s t" "slot (pmem t) pt ?i = e" by (rule g; simp add: c(3) e(1))+
  have "ent (Suc l) (pmem t) pt v = ent (Suc l) (pmem s) pt v" for v
  proof (cases "px (Suc l) v = ?i")
    case True
    then show ?thesis using W(3) gr(2) e by (simp add: ent_Suc [OF T(4)])
  qed (rule g(3), simp_all add: c(3) e(1))
  moreover have "walk_loop (Suc l) pt va True s = Ok a t" using W(1) e by (simp add: walk_loop_Suc [OF T(4)] del: walk_loop.simps)
  moreover have "a \<noteq> 0 \<Longrightarrow> lookup (Suc l) (pmem t) pt va = a" using W(4) gr(2) e(2) by (simp add: lookup_Suc [OF T(4)])
  ultimately show ?thesis using gr(1) W(4) by (auto simp: walks_def simp del: walk_loop.simps)
qed

lemma walk_new:
  assumes wf: "kmem_wf s" and ok: "pt_ok (Suc l) s pt" and e: "\<not> valid (slot (pmem s) pt (px (Suc l) va))" and F: "free_pages s \<noteq> {}"
    and IH: "\<And>pt (s :: 'a kmem_st_scheme). kmem_wf s \<Longrightarrow> pt_ok l s pt \<Longrightarrow> \<exists>a t. walks l pt va s a t"
  shows "\<exists>a t. walks (Suc l) pt va (s :: 'a kmem_st_scheme) a t"
proof -
  let ?i = "px (Suc l) va"
  note T = table_pages [OF wf ok PX_lt]
  obtain p s1 s3 where n: "kalloc s = Ok p s1" "p \<noteq> 0" "unat p mod 4096 = 0" "p < push_bit 56 1" "p \<in> free_pages s"
    "s3 = s1\<lparr>pmem := put64 (memset (pmem s1) (unat p) 0 PGSIZE) (unat pt + 8 * ?i) (PA2PTE p OR PTE_V)\<rparr>"
    "kmem_wf s3" "pt_ok l s3 p" "pt_pages l (pmem s3) p = {p}" "\<And>v. ent l (pmem s3) p v = 0"
    "\<exists>m f. s3 = s\<lparr>pmem := m, freelist := f\<rparr>" "free_pages s3 \<subseteq> free_pages s"
    "\<And>b. b < unat p \<or> unat p + PGSIZE \<le> b \<Longrightarrow> b < unat pt + 8 * ?i \<or> unat pt + 8 * ?i + 8 \<le> b \<Longrightarrow> pmem s3 b = pmem s b"
    by (rule new_table [OF wf ok PX_lt F]) (rule that)
  note pte = inner_entry [OF n(3,4)]
  obtain a t where w: "walks l p va s3 a t" using IH [OF n(7,8)] by blast
  note W = walksD [OF w]
  have s3: "slot (pmem s3) pt ?i = PA2PTE p OR PTE_V" by (simp add: n(6) slot_def get64_put64)
  have b: "pmem s3 b = pmem s b" if "b \<notin> page_bytes (sub l (pmem s) pt ?i \<union> free_pages s)" "b < unat pt + 8 * ?i \<or> unat pt + 8 * ?i + 8 \<le> b" for b
    by (rule n(13) [OF _ that(2)]) (use that(1) n(5) in \<open>auto simp: page_bytes_def not_le\<close>)
  have sb: "pt_pages l (pmem s3) (PTE2PA (PA2PTE p OR PTE_V)) \<subseteq> sub l (pmem s) pt ?i \<union> free_pages s" using n(5,9) pte(3) by simp
  note g = grow_child [OF wf ok PX_lt s3 pte(1,2) sb n(11,12) b, unfolded pte(3), OF _ _ W(2)]
  have gr: "grows (Suc l) pt s t" "slot (pmem t) pt ?i = PA2PTE p OR PTE_V" by (rule g; simp)+
  have "ent (Suc l) (pmem t) pt v = ent (Suc l) (pmem s) pt v" for v
  proof (cases "px (Suc l) v = ?i")
    case True
    then show ?thesis using W(3) n(10) gr(2) pte e by (simp add: ent_Suc [OF T(4)])
  qed (rule g(3))
  moreover have "walk_loop (Suc l) pt va True s = Ok a t"
    using e n(2) W(1) by (simp add: walk_loop_Suc [OF T(4)] kdo_Ok [where m = kalloc, OF n(1)] memset_page_def store_pte_def kern_simps pte_addr [OF T(4)] n(6) del: walk_loop.simps)
  moreover have "a \<noteq> 0 \<Longrightarrow> lookup (Suc l) (pmem t) pt va = a" using W(4) gr(2) pte by (simp add: lookup_Suc [OF T(4)])
  ultimately show ?thesis using gr(1) W(4) by (intro exI [of _ a] exI [of _ t]) (auto simp: walks_def simp del: walk_loop.simps)
qed

lemma walk_grows: "kmem_wf s \<Longrightarrow> pt_ok l s pt \<Longrightarrow> \<exists>a t. walks l pt va s a t"
proof (induction l arbitrary: pt s)
  case 0
  have o: "page_owned s pt" using 0(2) by (simp add: pt_ok_def)
  note op = owned_page [OF 0(1) o]
  have "unat (pt + 8 * PX 0 va) \<noteq> 0" using op(2) by (simp add: pte_addr [OF op(1)] unat_eq_0)
  then have "pt + 8 * PX 0 va \<noteq> 0" by (simp add: unat_eq_0)
  then show ?case using grows_refl [OF 0] by (simp add: walks_def ret_def)
next
  case (Suc l)
  let ?e = "slot (pmem s) pt (px (Suc l) va)"
  show ?case
  proof (cases "valid ?e")
    case True
    obtain a t where "walks l (PTE2PA ?e) va s a t" using Suc.IH [OF Suc.prems(1) pt_ok_child(1) [OF Suc.prems(2) PX_lt True]] by blast
    then show ?thesis using walk_down [OF Suc.prems refl True] by blast
  next
    case False
    show ?thesis
    proof (cases "free_pages s = {}")
      case True
      have "kalloc s = Ok 0 s" by (rule km.alloc_none [OF Suc.prems(1) True])
      then have "walk_loop (Suc l) pt va True s = Ok 0 s"
        using False by (simp add: walk_loop_Suc [OF table_pages(4) [OF Suc.prems PX_lt]] kdo_def ret_def del: walk_loop.simps)
      then show ?thesis using True grows_refl [OF Suc.prems] by (intro exI [of _ 0] exI [of _ s]) (simp add: walks_def del: walk_loop.simps)
    qed (rule walk_new [OF Suc.prems False _ Suc.IH])
  qed
qed

section \<open>Storing an entry\<close>

lemma grows_trans:
  assumes "grows l pt s t" and "grows l pt t u"
  shows "grows l pt s u"
proof -
  note A = growsD [OF assms(1)] and B = growsD [OF assms(2)]
  have P: "pt_pages l (pmem t) pt \<union> free_pages t \<subseteq> pt_pages l (pmem s) pt \<union> free_pages s" using A(4,5) by blast
  have "pmem u b = pmem s b" if "b \<notin> page_bytes (pt_pages l (pmem s) pt \<union> free_pages s)" for b
    using A(6) [OF that] B(6) [of b] page_bytes_mono [OF P] that by auto
  moreover obtain m f m' f' where "t = s\<lparr>pmem := m, freelist := f\<rparr>" "u = t\<lparr>pmem := m', freelist := f'\<rparr>" using A(7) B(7) by blast
  then have "u = s\<lparr>pmem := m', freelist := f'\<rparr>" by simp
  ultimately show ?thesis using A(4) B(1,2,4,5) P unfolding grows_def by blast
qed

lemma set_leaf:
  "kmem_wf s \<Longrightarrow> pt_ok l s pt \<Longrightarrow> lookup l (pmem s) pt va = a \<Longrightarrow> a \<noteq> 0 \<Longrightarrow> t = s\<lparr>pmem := put64 (pmem s) (unat a) x\<rparr> \<Longrightarrow>
   grows l pt s t \<and> ent l (pmem t) pt va = x \<and> (\<forall>v. (\<exists>k\<le>l. px k v \<noteq> px k va) \<longrightarrow> ent l (pmem t) pt v = ent l (pmem s) pt v)"
proof (induction l arbitrary: pt)
  case 0
  have o: "page_owned s pt" using 0(2) by (simp add: pt_ok_def)
  note op = owned_page [OF 0(1) o]
  let ?b = "unat pt + 8 * px 0 va"
  have a: "unat a = ?b" using 0(3) pte_addr [OF op(1), of 0 va] by simp
  have out: "pmem t b = pmem s b" if "b < ?b \<or> ?b + 8 \<le> b" for b using that 0(5) by (simp add: a put64_outside)
  have "put64 (pmem s) (unat a) x b = pmem s b" if "b < unat pt \<or> unat pt + PGSIZE \<le> b" for b
    using that PX_lt [of 0 va] by (intro put64_outside) (auto simp: a params)
  note w = kmem_wf_write [OF 0(1) o this]
  have t: "kmem_wf t" "free_pages t = free_pages s" using w 0(5) by simp_all
  have "pmem t b = pmem s b" if "b \<notin> page_bytes ({pt} \<union> free_pages s)" for b
    using that PX_lt [of 0 va] by (intro out) (auto simp: page_bytes_def params)
  moreover have "t = s\<lparr>pmem := put64 (pmem s) (unat a) x, freelist := freelist s\<rparr>" using 0(5) by simp
  then have "\<exists>m f. t = s\<lparr>pmem := m, freelist := f\<rparr>" by blast
  moreover have "page_owned t pt" using o t(2) 0(5) by (simp add: page_owned_def)
  ultimately have "grows 0 pt s t" using t by (simp add: grows_def pt_ok_def)
  moreover have "slot (pmem t) pt (px 0 va) = x" using 0(5) by (simp add: slot_def a get64_put64)
  moreover have "slot (pmem t) pt (px 0 v) = slot (pmem s) pt (px 0 v)" if "px 0 v \<noteq> px 0 va" for v
    unfolding slot_def using that by (intro get64_cong out) linarith
  ultimately show ?case by (simp add: ent_0 [OF op(1,2)])
next
  case (Suc l)
  let ?i = "px (Suc l) va"
  let ?e = "slot (pmem s) pt ?i"
  have i: "?i < 512" by (rule PX_lt)
  note T = table_pages [OF Suc.prems(1,2) i]
  have v: "valid ?e" "lookup l (pmem s) (PTE2PA ?e) va = a" using Suc.prems(3,4) by (simp_all add: lookup_Suc [OF T(4)] split: if_splits)
  note c = pt_ok_child [OF Suc.prems(2) i v(1)]
  from Suc.IH [OF Suc.prems(1) c(1) v(2) Suc.prems(4,5)] have h: "grows l (PTE2PA ?e) s t" "ent l (pmem t) (PTE2PA ?e) va = x"
    "\<And>w. \<exists>k\<le>l. px k w \<noteq> px k va \<Longrightarrow> ent l (pmem t) (PTE2PA ?e) w = ent l (pmem s) (PTE2PA ?e) w" by blast+
  note g = grow_child [OF Suc.prems(1,2) i refl v(1) c(2) _ same_state subset_refl refl h(1)]
  have gr: "grows (Suc l) pt s t" "slot (pmem t) pt ?i = ?e" by (rule g; simp add: c(3))+
  moreover have "ent (Suc l) (pmem t) pt va = x" using gr(2) h(2) v(1) by (simp add: ent_Suc [OF T(4)])
  moreover have "ent (Suc l) (pmem t) pt w = ent (Suc l) (pmem s) pt w" if w: "\<exists>k\<le>Suc l. px k w \<noteq> px k va" for w
  proof (cases "px (Suc l) w = ?i")
    case True
    then have "\<exists>k\<le>l. px k w \<noteq> px k va" using w by (metis le_Suc_eq)
    then show ?thesis using h(3) gr(2) True by (simp add: ent_Suc [OF T(4)])
  qed (rule g(3), simp_all add: c(3))
  ultimately show ?case by blast
qed

section \<open>Addresses and pages\<close>

lemma px_unat: "px k v = unat v div 2 ^ (12 + 9 * k) mod 512"
proof -
  have "(0x1FF :: uint64) = mask 9" by (simp add: mask_eq_exp_minus_1)
  then have "PX k v = take_bit 9 (drop_bit (PXSHIFT k) v)" by (simp add: PX_def take_bit_eq_mask)
  moreover have "unat v < 2 ^ LENGTH(64)" by (rule unsigned_less)
  then have "take_bit 64 (unat v) = unat v" by (simp add: take_bit_nat_eq_self)
  ultimately have "px k v = take_bit 9 (drop_bit (PXSHIFT k) (unat v))" by (simp add: unsigned_take_bit_eq unsigned_drop_bit_eq)
  then show ?thesis by (simp add: take_bit_eq_mod drop_bit_eq_div PXSHIFT_def)
qed

lemma page_px: "unat v div 4096 = unat w div 4096 \<Longrightarrow> px k v = px k w"
proof -
  assume "unat v div 4096 = unat w div 4096"
  then have "unat v div 4096 div 2 ^ (9 * k) = unat w div 4096 div 2 ^ (9 * k)" by simp
  then show ?thesis by (simp add: px_unat power_add div_mult2_eq)
qed

lemma px_page:
  assumes "unat v < 2 ^ 38" and "unat w < 2 ^ 38" and "unat v div 4096 \<noteq> unat w div 4096"
  shows "\<exists>k\<le>2. px k v \<noteq> px k w"
proof (rule ccontr)
  assume "\<not> ?thesis"
  then have e: "px k v = px k w" if "k \<le> 2" for k using that by blast
  let ?d = "\<lambda>n :: nat. n mod 512 + 512 * (n div 512 mod 512) + 512 * 512 * (n div 512 div 512 mod 512)"
  have n: "unat x div 4096 = ?d (unat x div 4096)" if "unat x < 2 ^ 38" for x :: uint64
  proof -
    define n where "n = unat x div 4096"
    have "n < 512 * 512 * 512" using that by (simp add: n_def)
    then have "n div 512 div 512 < 512" by (simp add: div_mult2_eq [symmetric])
    then have "n div 512 div 512 mod 512 = n div 512 div 512" by simp
    moreover have "n = 512 * (n div 512) + n mod 512" "n div 512 = 512 * (n div 512 div 512) + n div 512 mod 512" by simp_all
    ultimately have "n = ?d n" by linarith
    then show ?thesis unfolding n_def .
  qed
  have p: "px 0 x = unat x div 4096 mod 512" "px 1 x = unat x div 4096 div 512 mod 512" "px 2 x = unat x div 4096 div 512 div 512 mod 512" for x :: uint64
    by (simp_all add: px_unat div_mult2_eq [symmetric])
  have "unat v div 4096 = unat w div 4096"
    using n [OF assms(1)] n [OF assms(2)] e [of 0] e [of 1] e [of 2] by (simp add: p del: One_nat_def)
  then show False using assms(3) by simp
qed

section \<open>Mapping pages\<close>

lemma ent_page: "unat v div 4096 = unat w div 4096 \<Longrightarrow> ent l m pt v = ent l m pt w"
proof -
  assume "unat v div 4096 = unat w div 4096"
  then have "PX k v = PX k w" for k using page_px [of v w k] by (simp add: word_unat_eq_iff)
  then have "lookup l m pt v = lookup l m pt w" by (induction l arbitrary: pt) (simp_all add: lookup.simps Let_def)
  then show ?thesis by (simp add: ent_def)
qed

text \<open>One page: the entry for \<open>va\<close> is stored, or there was no memory for the tables above it.\<close>

lemma map_page:
  assumes wf: "kmem_wf s" and ok: "pt_ok 2 s pt" and va: "va < MAXVA" and free: "\<not> valid (entry (pmem s) pt va)"
  obtains (full) t where "walk pt va True s = Ok 0 t" and "grows 2 pt s t" and "free_pages t = {}" and "\<And>v. entry (pmem t) pt v = entry (pmem s) pt v"
  | (page) a t where "walk pt va True s = Ok a t" and "a \<noteq> 0" and "load_pte a t = Ok (entry (pmem s) pt va) t"
    and "\<And>x. grows 2 pt s (t\<lparr>pmem := put64 (pmem t) (unat a) x\<rparr>)"
    and "\<And>x v. v < MAXVA \<Longrightarrow> entry (put64 (pmem t) (unat a) x) pt v = (if unat v div 4096 = unat va div 4096 then x else entry (pmem s) pt v)"
proof -
  obtain a t where t: "walk_loop 2 pt va True s = Ok a t" "grows 2 pt s t" "\<And>v. ent 2 (pmem t) pt v = ent 2 (pmem s) pt v"
    "if a = 0 then free_pages t = {} else lookup 2 (pmem t) pt va = a" using walk_grows [OF wf ok, of va] unfolding walks_def by blast
  have w: "walk pt va True s = Ok a t" using t(1) va by (simp add: walk_def not_le [symmetric] del: walk_loop.simps)
  show thesis
  proof (cases "a = 0")
    case True
    then show thesis using full [of t] w t by (simp add: entry_ent)
  next
    case False
    then have a: "lookup 2 (pmem t) pt va = a" using t(4) by simp
    have "load_pte a t = Ok (entry (pmem s) pt va) t"
      using t(3) [of va] a False by (simp add: load_pte_def kern_simps entry_ent ent_def)
    moreover have st: "grows 2 pt t (t\<lparr>pmem := put64 (pmem t) (unat a) x\<rparr>) \<and> ent 2 (put64 (pmem t) (unat a) x) pt va = x \<and>
        (\<forall>v. (\<exists>k\<le>2. px k v \<noteq> px k va) \<longrightarrow> ent 2 (put64 (pmem t) (unat a) x) pt v = ent 2 (pmem t) pt v)" for x
      using set_leaf [OF growsD(1,2) [OF t(2)] a False refl, of x] by simp
    moreover have "entry (put64 (pmem t) (unat a) x) pt v = (if unat v div 4096 = unat va div 4096 then x else entry (pmem s) pt v)" if "v < MAXVA" for x v
    proof (cases "unat v div 4096 = unat va div 4096")
      case True
      then show ?thesis using ent_page [OF True] st [of x] by (simp add: entry_ent)
    next
      case False
      have "unat v < 2 ^ 38" "unat va < 2 ^ 38" using that va by (simp_all add: word_less_nat_alt params)
      then show ?thesis using px_page [OF _ _ False] st [of x] t(3) False by (simp add: entry_ent)
    qed
    ultimately show thesis using page [OF w False] grows_trans [OF t(2)] by blast
  qed
qed

text \<open>The entries after \<open>k\<close> pages have been mapped from \<open>va\<close> to \<open>pa\<close>.\<close>

definition pt_mapped :: "bytes \<Rightarrow> uint64 \<Rightarrow> uint64 \<Rightarrow> nat \<Rightarrow> uint64 \<Rightarrow> uint64 \<Rightarrow> uint64 \<Rightarrow> uint64" where
  "pt_mapped m pt va k pa perm v =
     (let i = unat v div 4096; j = unat va div 4096 in
      if j \<le> i \<and> i < j + k then PA2PTE (pa + 4096 * of_nat (i - j)) OR perm OR PTE_V else entry m pt v)"

lemma next_page:
  assumes "unat (va :: uint64) mod 4096 = 0" and "unat va + 4096 * (n + 1) \<le> 2 ^ 38"
  shows "unat (va + 4096) = unat va + 4096" and "unat (va + 4096) div 4096 = unat va div 4096 + 1" and "unat (va + 4096) mod 4096 = 0"
proof -
  show u: "unat (va + 4096) = unat va + 4096" using assms(2) by (simp add: unat_word_ariths)
  show "unat (va + 4096) div 4096 = unat va div 4096 + 1" "unat (va + 4096) mod 4096 = 0" unfolding u using assms(1) by simp_all
qed

lemma pt_mapped_0 [simp]: "pt_mapped m pt va 0 pa perm v = entry m pt v"
  by (auto simp: pt_mapped_def Let_def)

lemma pt_mapped_Suc:
  assumes j: "unat (va + 4096) div 4096 = unat va div 4096 + 1"
    and e: "entry m' pt v = (if unat v div 4096 = unat va div 4096 then PA2PTE pa OR perm OR PTE_V else entry m pt v)"
  shows "pt_mapped m' pt (va + 4096) k (pa + 4096) perm v = pt_mapped m pt va (Suc k) pa perm v"
proof (cases "unat va div 4096 < unat v div 4096")
  case True
  then obtain d where d: "unat v div 4096 = unat va div 4096 + Suc d" by (metis add_Suc_right less_iff_Suc_add)
  have "pa + 4096 + 4096 * of_nat d = pa + 4096 * of_nat (Suc d)" by (simp add: algebra_simps)
  then show ?thesis using e unfolding pt_mapped_def j d Let_def by (simp add: add.assoc)
next
  case False
  then show ?thesis using e unfolding pt_mapped_def j Let_def by auto
qed

lemma page_at:
  assumes "unat (a :: uint64) mod 4096 = 0" and "unat a + 4096 * (k + 1) \<le> 2 ^ 38"
  shows "unat (a + 4096 * of_nat k) = unat a + 4096 * k" "a + 4096 * of_nat k < MAXVA" "unat (a + 4096 * of_nat k) div 4096 = unat a div 4096 + k"
proof -
  have "unat (4096 * of_nat k :: uint64) = 4096 * k" using assms(2) by (simp add: unat_word_ariths unsigned_of_nat take_bit_nat_eq_self)
  then show u: "unat (a + 4096 * of_nat k) = unat a + 4096 * k" using assms(2) by (simp add: unat_word_ariths)
  then show "a + 4096 * of_nat k < MAXVA" using assms(2) by (simp add: word_less_nat_alt params)
  show "unat (a + 4096 * of_nat k) div 4096 = unat a div 4096 + k" unfolding u by simp
qed

lemma mappages_loop_maps:
  "kmem_wf s \<Longrightarrow> pt_ok 2 s pt \<Longrightarrow> unat a mod 4096 = 0 \<Longrightarrow> 0 < n \<Longrightarrow> unat a + 4096 * n \<le> 2 ^ 38 \<Longrightarrow>
   (\<And>k. k < n \<Longrightarrow> \<not> valid (entry (pmem s) pt (a + 4096 * of_nat k))) \<Longrightarrow>
   \<exists>r t k. mappages_loop n pt a (a + 4096 * of_nat (n - 1)) pa perm s = Ok r t \<and> grows 2 pt s t \<and>
     (r = 0 \<and> k = n \<or> r = -1 \<and> k < n \<and> free_pages t = {}) \<and> (\<forall>v. v < MAXVA \<longrightarrow> entry (pmem t) pt v = pt_mapped (pmem s) pt a k pa perm v)"
proof (induction n arbitrary: s a pa)
  case (Suc n s a pa)
  have a: "a < MAXVA" using Suc.prems(5) by (simp add: word_less_nat_alt params)
  have nv: "\<not> valid (entry (pmem s) pt a)" using Suc.prems(6) [of 0] by simp
  show ?case
  proof (rule map_page [OF Suc.prems(1,2) a nv])
    fix t assume t: "walk pt a True s = Ok 0 t" "grows 2 pt s t" "free_pages t = {}" "\<And>v. entry (pmem t) pt v = entry (pmem s) pt v"
    have "mappages_loop (Suc n) pt a (a + 4096 * of_nat (Suc n - 1)) pa perm s = Ok (-1) t" using t(1) by (simp add: kdo_def ret_def)
    then show ?case using t by (intro exI [of _ "-1"] exI [of _ t] exI [of _ 0]) (simp del: mappages_loop.simps)
  next
    fix b t
    assume t: "walk pt a True s = Ok b t" "b \<noteq> 0" "load_pte b t = Ok (entry (pmem s) pt a) t"
      "\<And>x. grows 2 pt s (t\<lparr>pmem := put64 (pmem t) (unat b) x\<rparr>)"
      "\<And>x v. v < MAXVA \<Longrightarrow> entry (put64 (pmem t) (unat b) x) pt v = (if unat v div 4096 = unat a div 4096 then x else entry (pmem s) pt v)"
    define u where "u = t\<lparr>pmem := put64 (pmem t) (unat b) (PA2PTE pa OR perm OR PTE_V)\<rparr>"
    have u: "entry (pmem u) pt v = (if unat v div 4096 = unat a div 4096 then PA2PTE pa OR perm OR PTE_V else entry (pmem s) pt v)" if "v < MAXVA" for v
      using t(5) [OF that] by (simp add: u_def)
    have g: "grows 2 pt s u" unfolding u_def by (rule t(4))
    have step: "mappages_loop (Suc n) pt a l pa perm s = (if a = l then Ok 0 u else mappages_loop n pt (a + 4096) l (pa + 4096) perm u)" for l
      using t(1-3) nv by (simp add: kdo_def ret_def valid_def store_pte_def modify_def u_def)
    show ?case
    proof (cases n)
      case 0
      have "entry (pmem u) pt v = pt_mapped (pmem s) pt a 1 pa perm v" if "v < MAXVA" for v
        using u [OF that] by (auto simp: pt_mapped_def Let_def)
      then show ?thesis using g step 0 by (intro exI [of _ 0] exI [of _ u] exI [of _ 1]) (simp del: mappages_loop.simps)
    next
      case (Suc n')
      have le: "unat a + 4096 * (n' + 1 + 1) \<le> 2 ^ 38" using Suc.prems(5) Suc by simp
      note nx = next_page [OF Suc.prems(3) le]
      have e: "a + 4096 * of_nat (Suc n - 1) = a + 4096 + 4096 * of_nat (n - 1)" using Suc by (simp add: algebra_simps)
      have "a \<noteq> a + 4096 * of_nat (Suc n - 1)" using page_at(1) [OF Suc.prems(3), of n] Suc.prems(5) Suc by auto
      then have st: "mappages_loop (Suc n) pt a (a + 4096 * of_nat (Suc n - 1)) pa perm s =
          mappages_loop n pt (a + 4096) (a + 4096 + 4096 * of_nat (n - 1)) (pa + 4096) perm u" unfolding step e by simp
      have nv': "\<not> valid (entry (pmem u) pt (a + 4096 + 4096 * of_nat k))" if k: "k < n" for k
      proof -
        have e: "a + 4096 + 4096 * of_nat k = a + 4096 * of_nat (Suc k)" by (simp add: algebra_simps)
        have "unat a + 4096 * (Suc k + 1) \<le> 2 ^ 38" using Suc.prems(5) k by simp
        from page_at [OF Suc.prems(3) this] show ?thesis using u Suc.prems(6) [of "Suc k"] k unfolding e by simp
      qed
      have "\<exists>r w k. mappages_loop n pt (a + 4096) (a + 4096 + 4096 * of_nat (n - 1)) (pa + 4096) perm u = Ok r w \<and> grows 2 pt u w \<and>
        (r = 0 \<and> k = n \<or> r = -1 \<and> k < n \<and> free_pages w = {}) \<and> (\<forall>v. v < MAXVA \<longrightarrow> entry (pmem w) pt v = pt_mapped (pmem u) pt (a + 4096) k (pa + 4096) perm v)"
        by (rule Suc.IH [OF growsD(1,2) [OF g] nx(3) _ _ nv']) (use Suc nx(1) Suc.prems(5) in simp_all)
      then obtain r w k where h: "mappages_loop n pt (a + 4096) (a + 4096 + 4096 * of_nat (n - 1)) (pa + 4096) perm u = Ok r w" "grows 2 pt u w"
        "r = 0 \<and> k = n \<or> r = -1 \<and> k < n \<and> free_pages w = {}"
        "\<And>v. v < MAXVA \<Longrightarrow> entry (pmem w) pt v = pt_mapped (pmem u) pt (a + 4096) k (pa + 4096) perm v" by blast
      have "entry (pmem w) pt v = pt_mapped (pmem s) pt a (Suc k) pa perm v" if v: "v < MAXVA" for v
        unfolding h(4) [OF v] by (rule pt_mapped_Suc [OF nx(2) u [OF v]])
      then show ?thesis using st h(1,3) grows_trans [OF g h(2)]
        by (intro exI [of _ r] exI [of _ w] exI [of _ "Suc k"]) (auto simp del: mappages_loop.simps)
    qed
  qed
qed simp

text \<open>
  C39.  Page tables stay well-formed, and \<^verbatim>\<open>mappages\<close> maps exactly what it is asked to.  A well-formed table is a tree of three levels: its pages are owned (handed out by
  the allocator and not free), no page is in it twice, and the entries of the upper levels are pointers to tables without permissions.  Given such a table and \<open>n\<close>
  pages of addresses that are not mapped, \<^verbatim>\<open>mappages\<close> does not panic; the table is well-formed afterwards, and has grown only by pages that were free.  It returns 0 with all \<open>n\<close> pages
  mapped, or -1 with the first \<open>k\<close> of them mapped and no page left to allocate.  The entry of every other address is as it was, and no byte outside the table and the free pages
  has changed.
\<close>

theorem mappages_maps:
  assumes "kmem_wf s" and "pt_ok 2 s pt" and "unat va mod PGSIZE = 0" and "0 < n" and "unat va + PGSIZE * n \<le> unat MAXVA"
    and "\<And>k. k < n \<Longrightarrow> \<not> valid (entry (pmem s) pt (va + 4096 * of_nat k))"
  shows "\<exists>r t k. mappages pt va (4096 * of_nat n) pa perm s = Ok r t \<and> kmem_wf t \<and> pt_ok 2 t pt \<and>
    pt_pages 2 (pmem t) pt \<subseteq> pt_pages 2 (pmem s) pt \<union> free_pages s \<and>
    (r = 0 \<and> k = n \<or> r = -1 \<and> k < n \<and> free_pages t = {}) \<and>
    (\<forall>v. v < MAXVA \<longrightarrow> entry (pmem t) pt v = pt_mapped (pmem s) pt va k pa perm v) \<and>
    (\<forall>b. b \<notin> page_bytes (pt_pages 2 (pmem s) pt \<union> free_pages s) \<longrightarrow> pmem t b = pmem s b)"
proof -
  have va: "unat va mod 4096 = 0" and le: "unat va + 4096 * n \<le> 2 ^ 38" using assms(3,5) by (simp_all add: params)
  obtain r t k where m: "mappages_loop n pt va (va + 4096 * of_nat (n - 1)) pa perm s = Ok r t" "grows 2 pt s t"
    "r = 0 \<and> k = n \<or> r = -1 \<and> k < n \<and> free_pages t = {}" "\<And>v. v < MAXVA \<Longrightarrow> entry (pmem t) pt v = pt_mapped (pmem s) pt va k pa perm v"
    using mappages_loop_maps [OF assms(1,2) va assms(4) le assms(6)] by blast
  have u: "unat (4096 * of_nat n :: uint64) = 4096 * n" using le by (simp add: unat_word_ariths unsigned_of_nat take_bit_nat_eq_self)
  have z: "va mod 4096 = 0" "(4096 * of_nat n :: uint64) mod 4096 = 0" "(4096 * of_nat n :: uint64) \<noteq> 0"
    using va u assms(4) by (auto simp: word_unat_eq_iff unat_mod)
  have l: "va + 4096 * of_nat n - 4096 = va + 4096 * of_nat (n - 1)" using assms(4) by (cases n) (simp_all add: algebra_simps)
  have "mappages pt va (4096 * of_nat n) pa perm s = mappages_loop n pt va (va + 4096 * of_nat n - 4096) pa perm s"
    using z by (simp add: mappages_def u params)
  then have "mappages pt va (4096 * of_nat n) pa perm s = Ok r t" unfolding l m(1) .
  then show ?thesis using m(3,4) growsD(1,2,5,6) [OF m(2)] by blast
qed

definition ex_table :: kmem_st where
  "ex_table = ex_kmem\<lparr>pmem := put64 (\<lambda>_. 0) 0x80002000 0x80003000, freelist := 0x80002000, kend := 0x80001000\<rparr>"

theorem mappages_maps_witness:
  "\<exists>r t k. mappages 0x80001000 0x3000 0x2000 0x87ffe000 (PTE_R OR PTE_U) ex_table = Ok r t \<and> pt_ok 2 t 0x80001000 \<and>
    (r = 0 \<and> k = 2 \<or> r = -1 \<and> k < 2 \<and> free_pages t = {}) \<and>
    (\<forall>v. v < MAXVA \<longrightarrow> entry (pmem t) 0x80001000 v = pt_mapped (pmem ex_table) 0x80001000 0x3000 k 0x87ffe000 (PTE_R OR PTE_U) v)"
proof -
  have k: "kmem_ok ex_table [0x80002000, 0x80003000]"
  proof -
    have "get64 (put64 (\<lambda>_. 0) 0x80002000 (0x80003000 :: uint64)) 0x80003000 = get64 (\<lambda>_. 0) 0x80003000" by (rule get64_cong) (simp add: put64_outside)
    also have "\<dots> = 0" by (simp add: get64_def get32_def get16_def)
    finally show ?thesis by (simp add: kmem_ok_def ex_table_def get64_put64 page_ok_def params)
  qed
  then have w: "kmem_wf ex_table" by (auto simp: kmem_wf_def ex_table_def)
  have F: "free_pages ex_table = {0x80002000, 0x80003000}" using free_pages_eq [OF k] by auto
  have "pmem ex_table (unat (0x80001000 :: uint64) + k) = 0" if "k < PGSIZE" for k
    using that by (simp add: ex_table_def put64_outside params)
  note z = zero_table [where m = "pmem ex_table" and p = "0x80001000", OF this, simplified]
  have ok: "pt_ok 2 ex_table 0x80001000" using z F by (simp add: pt_ok_def page_owned_def page_ok_def params) (simp add: ex_table_def)
  have e: "\<not> valid (entry (pmem ex_table) 0x80001000 v)" for v by (simp add: entry_ent valid_def z(3))
  from mappages_maps [where va = "0x3000" and n = 2 and pa = "0x87ffe000" and perm = "PTE_R OR PTE_U", OF w ok] e show ?thesis by (simp add: params) blast
qed

end
