(* ===== verification/Spinlock.thy ===== *)
theory Spinlock
  imports Ksync
begin

text \<open>
  \<^verbatim>\<open>kernel/spinlock.c\<close>, on several CPUs.  The rest of the development sees a spinlock as its holder does
  (theory \<open>Ksync\<close>); here are the lock word, the owner field, the interrupt flag and the nesting depth,
  and CPUs whose instructions interleave.  Shown: at most one CPU is inside a lock, interrupts are off
  while a lock is held, \<^verbatim>\<open>push_off\<close> and \<^verbatim>\<open>pop_off\<close> nest, and each completed \<^verbatim>\<open>acquire\<close> and \<^verbatim>\<open>release\<close> acts on
  the set of locks a CPU holds exactly as the operations of \<open>Ksync\<close> say, panics included.
\<close>

section \<open>State\<close>

record cpu =
  c_noff :: int
  c_intena :: bool
  c_intr :: bool

record spinlock =
  l_locked :: bool
  l_cpu :: "nat option"

text \<open>
  Where a CPU is in \<^verbatim>\<open>acquire\<close> or \<^verbatim>\<open>release\<close>.  Between two shared-memory accesses a CPU does only
  things of its own, so these are the points at which others can come in.
\<close>

datatype pc =
    Idle
  | Acq_check lock   \<comment> \<open>interrupts are off, before \<^verbatim>\<open>holding\<close>\<close>
  | Acq_spin lock    \<comment> \<open>before a test-and-set\<close>
  | Acq_own lock     \<comment> \<open>before the store to \<^verbatim>\<open>lk->cpu\<close>\<close>
  | Rel_check lock   \<comment> \<open>before \<^verbatim>\<open>holding\<close>\<close>
  | Rel_clear lock   \<comment> \<open>before the store to \<^verbatim>\<open>lk->cpu\<close>\<close>
  | Rel_unlock lock  \<comment> \<open>before the store to \<^verbatim>\<open>lk->locked\<close>\<close>
  | Rel_pop lock     \<comment> \<open>before \<^verbatim>\<open>pop_off\<close>\<close>
  | Panicked string

record smp =
  cpus :: "nat \<Rightarrow> cpu"
  locks :: "lock \<Rightarrow> spinlock"
  pcs :: "nat \<Rightarrow> pc"

abbreviation upd_cpu :: "nat \<Rightarrow> (cpu \<Rightarrow> cpu) \<Rightarrow> smp \<Rightarrow> smp" where
  "upd_cpu c f s \<equiv> s\<lparr>cpus := (cpus s)(c := f (cpus s c))\<rparr>"

abbreviation upd_lock :: "lock \<Rightarrow> (spinlock \<Rightarrow> spinlock) \<Rightarrow> smp \<Rightarrow> smp" where
  "upd_lock l f s \<equiv> s\<lparr>locks := (locks s)(l := f (locks s l))\<rparr>"

abbreviation goto :: "nat \<Rightarrow> pc \<Rightarrow> smp \<Rightarrow> smp" where
  "goto c p s \<equiv> s\<lparr>pcs := (pcs s)(c := p)\<rparr>"

section \<open>The code\<close>

definition initlock :: "lock \<Rightarrow> smp \<Rightarrow> smp" where
  "initlock l s = upd_lock l (\<lambda>x. x\<lparr>l_locked := False, l_cpu := None\<rparr>) s"

definition holding :: "nat \<Rightarrow> lock \<Rightarrow> smp \<Rightarrow> bool" where
  "holding c l s \<longleftrightarrow> l_locked (locks s l) \<and> l_cpu (locks s l) = Some c"

definition push_off :: "nat \<Rightarrow> smp \<Rightarrow> smp" where
  "push_off c s =
     (let old = c_intr (cpus s c);
          s1 = upd_cpu c (\<lambda>x. x\<lparr>c_intr := False\<rparr>) s;
          s2 = (if c_noff (cpus s1 c) = 0 then upd_cpu c (\<lambda>x. x\<lparr>c_intena := old\<rparr>) s1 else s1)
      in upd_cpu c (\<lambda>x. x\<lparr>c_noff := c_noff x + 1\<rparr>) s2)"

definition pop_off :: "nat \<Rightarrow> smp \<Rightarrow> string + smp" where
  "pop_off c s =
     (if c_intr (cpus s c) then Inl ''pop_off - interruptible''
      else if c_noff (cpus s c) < 1 then Inl ''pop_off''
      else
        let s1 = upd_cpu c (\<lambda>x. x\<lparr>c_noff := c_noff x - 1\<rparr>) s in
        Inr (if c_noff (cpus s1 c) = 0 \<and> c_intena (cpus s1 c)
             then upd_cpu c (\<lambda>x. x\<lparr>c_intr := True\<rparr>) s1 else s1))"

text \<open>
  \<^verbatim>\<open>acquire\<close>: the call itself (with \<^verbatim>\<open>push_off\<close>, which touches nothing shared), then one step at a time.
\<close>

definition acquire_call :: "nat \<Rightarrow> lock \<Rightarrow> smp \<Rightarrow> smp" where
  "acquire_call c l s = goto c (Acq_check l) (push_off c s)"

definition release_call :: "nat \<Rightarrow> lock \<Rightarrow> smp \<Rightarrow> smp" where
  "release_call c l s = goto c (Rel_check l) s"

fun acquire_step :: "nat \<Rightarrow> smp \<Rightarrow> smp" where
  "acquire_step c s =
     (case pcs s c of
        Acq_check l \<Rightarrow> if holding c l s then goto c (Panicked ''acquire'') s else goto c (Acq_spin l) s
      | Acq_spin l \<Rightarrow>
          let old = l_locked (locks s l);
              s1 = upd_lock l (\<lambda>x. x\<lparr>l_locked := True\<rparr>) s
          in if old then s1 else goto c (Acq_own l) s1
      | Acq_own l \<Rightarrow> goto c Idle (upd_lock l (\<lambda>x. x\<lparr>l_cpu := Some c\<rparr>) s)
      | _ \<Rightarrow> s)"

fun release_step :: "nat \<Rightarrow> smp \<Rightarrow> smp" where
  "release_step c s =
     (case pcs s c of
        Rel_check l \<Rightarrow> if \<not> holding c l s then goto c (Panicked ''release'') s else goto c (Rel_clear l) s
      | Rel_clear l \<Rightarrow> goto c (Rel_unlock l) (upd_lock l (\<lambda>x. x\<lparr>l_cpu := None\<rparr>) s)
      | Rel_unlock l \<Rightarrow> goto c (Rel_pop l) (upd_lock l (\<lambda>x. x\<lparr>l_locked := False\<rparr>) s)
      | Rel_pop l \<Rightarrow> (case pop_off c s of Inl e \<Rightarrow> goto c (Panicked e) s | Inr t \<Rightarrow> goto c Idle t)
      | _ \<Rightarrow> s)"

text \<open>
  Any CPU that is not in the middle of one of the two may call one, or (with interrupts as they
  are) switch them on or off while it holds no lock, as the kernel's \<^verbatim>\<open>intr_on\<close> and \<^verbatim>\<open>intr_off\<close> calls do.
\<close>

inductive smp_step :: "smp \<Rightarrow> smp \<Rightarrow> bool" where
  call_acquire: "pcs s c = Idle \<Longrightarrow> smp_step s (acquire_call c l s)"
| call_release: "pcs s c = Idle \<Longrightarrow> smp_step s (release_call c l s)"
| run_acquire: "smp_step s (acquire_step c s)"
| run_release: "smp_step s (release_step c s)"
| intr_switch: "pcs s c = Idle \<Longrightarrow> c_noff (cpus s c) = 0 \<Longrightarrow> smp_step s (upd_cpu c (\<lambda>x. x\<lparr>c_intr := b\<rparr>) s)"

definition smp_start :: "smp \<Rightarrow> bool" where
  "smp_start s \<longleftrightarrow> (\<forall>c. c_noff (cpus s c) = 0 \<and> pcs s c = Idle) \<and>
     (\<forall>l. \<not> l_locked (locks s l) \<and> l_cpu (locks s l) = None)"

section \<open>The invariant\<close>

text \<open>The locks CPU \<open>c\<close> holds, as the code records it.\<close>

definition held_by :: "smp \<Rightarrow> nat \<Rightarrow> lock set" where
  "held_by s c = {l. l_cpu (locks s l) = Some c}"

text \<open>The CPU has the lock word of \<open>l\<close>, whether or not the owner field says so at the moment.\<close>

definition inside :: "smp \<Rightarrow> lock \<Rightarrow> nat \<Rightarrow> bool" where
  "inside s l c \<longleftrightarrow> l_cpu (locks s l) = Some c \<or> pcs s c = Acq_own l \<or> pcs s c = Rel_unlock l"

text \<open>The call in progress has done its \<^verbatim>\<open>push_off\<close> but holds no lock yet, or no longer.\<close>

fun pending :: "pc \<Rightarrow> nat" where
  "pending (Acq_check l) = 1"
| "pending (Acq_spin l) = 1"
| "pending (Acq_own l) = 1"
| "pending (Rel_unlock l) = 1"
| "pending (Rel_pop l) = 1"
| "pending (Panicked e) = (if e = ''acquire'' then 1 else 0)"
| "pending _ = 0"

definition smp_inv :: "smp \<Rightarrow> bool" where
  "smp_inv s \<longleftrightarrow>
     (\<forall>l c d. inside s l c \<and> inside s l d \<longrightarrow> c = d) \<and>
     (\<forall>l c. l_cpu (locks s l) = Some c \<longrightarrow> pcs s c \<noteq> Acq_own l \<and> pcs s c \<noteq> Rel_unlock l) \<and>
     (\<forall>l. l_locked (locks s l) \<longleftrightarrow> (\<exists>c. inside s l c)) \<and>
     (\<forall>l c. pcs s c = Rel_clear l \<longrightarrow> l_cpu (locks s l) = Some c) \<and>
     (\<forall>c. finite (held_by s c)) \<and>
     (\<forall>c. c_noff (cpus s c) = int (card (held_by s c) + pending (pcs s c))) \<and>
     (\<forall>c. c_noff (cpus s c) \<noteq> 0 \<longrightarrow> \<not> c_intr (cpus s c)) \<and>
     (\<forall>c e. pcs s c = Panicked e \<longrightarrow> e = ''acquire'' \<or> e = ''release'')"

lemma smp_invD:
  assumes "smp_inv s"
  shows "\<And>l c d. inside s l c \<Longrightarrow> inside s l d \<Longrightarrow> c = d"
    and "\<And>l c. l_cpu (locks s l) = Some c \<Longrightarrow> pcs s c \<noteq> Acq_own l \<and> pcs s c \<noteq> Rel_unlock l"
    and "\<And>l. l_locked (locks s l) \<longleftrightarrow> (\<exists>c. inside s l c)"
    and "\<And>l c. pcs s c = Rel_clear l \<Longrightarrow> l_cpu (locks s l) = Some c"
    and "\<And>c. finite (held_by s c)"
    and "\<And>c. c_noff (cpus s c) = int (card (held_by s c) + pending (pcs s c))"
    and "\<And>c. c_noff (cpus s c) \<noteq> 0 \<Longrightarrow> \<not> c_intr (cpus s c)"
    and "\<And>c e. pcs s c = Panicked e \<Longrightarrow> e = ''acquire'' \<or> e = ''release''"
  using assms unfolding smp_inv_def by blast+

lemma smp_invI:
  assumes "\<And>l c d. inside s l c \<Longrightarrow> inside s l d \<Longrightarrow> c = d"
    and "\<And>l c. l_cpu (locks s l) = Some c \<Longrightarrow> pcs s c \<noteq> Acq_own l \<and> pcs s c \<noteq> Rel_unlock l"
    and "\<And>l. l_locked (locks s l) \<longleftrightarrow> (\<exists>c. inside s l c)"
    and "\<And>l c. pcs s c = Rel_clear l \<Longrightarrow> l_cpu (locks s l) = Some c"
    and "\<And>c. finite (held_by s c)"
    and "\<And>c. c_noff (cpus s c) = int (card (held_by s c) + pending (pcs s c))"
    and "\<And>c. c_noff (cpus s c) \<noteq> 0 \<Longrightarrow> \<not> c_intr (cpus s c)"
    and "\<And>c e. pcs s c = Panicked e \<Longrightarrow> e = ''acquire'' \<or> e = ''release''"
  shows "smp_inv s"
  unfolding smp_inv_def using assms by blast

text \<open>A step that changes only a CPU's place in the code, and none of the places that matter.\<close>

lemma goto_inv:
  assumes i: "smp_inv s" and p: "pending p = pending (pcs s c)"
    and "\<And>l. p \<noteq> Acq_own l" "\<And>l. p \<noteq> Rel_unlock l" "\<And>l. pcs s c \<noteq> Acq_own l" "\<And>l. pcs s c \<noteq> Rel_unlock l"
    and "\<And>l. p = Rel_clear l \<Longrightarrow> l_cpu (locks s l) = Some c" "\<And>e. p = Panicked e \<Longrightarrow> e = ''acquire'' \<or> e = ''release''"
  shows "smp_inv (goto c p s)"
proof -
  have ins: "inside (goto c p s) l d = inside s l d" for l d using assms(3-6) by (auto simp: inside_def)
  have h: "held_by (goto c p s) d = held_by s d" for d by (simp add: held_by_def)
  note d = smp_invD [OF i]
  show ?thesis
  proof (rule smp_invI)
    show "c_noff (cpus (goto c p s) x) = int (card (held_by (goto c p s) x) + pending (pcs (goto c p s) x))" for x
      using d(6) [of x] p by (simp add: h)
    show "l_cpu (locks (goto c p s) l) = Some x \<Longrightarrow> pcs (goto c p s) x \<noteq> Acq_own l \<and> pcs (goto c p s) x \<noteq> Rel_unlock l" for l x
      using d(2) [of l x] assms(3,4) by simp
    show "pcs (goto c p s) x = Rel_clear l \<Longrightarrow> l_cpu (locks (goto c p s) l) = Some x" for l x
      using d(4) [of x l] assms(7) by (auto split: if_splits)
    show "pcs (goto c p s) x = Panicked e \<Longrightarrow> e = ''acquire'' \<or> e = ''release''" for x e
      using d(8) [of x e] assms(8) by (auto split: if_splits)
  qed (use d in \<open>simp_all add: ins h\<close>)
qed

lemma acquire_call_inv:
  assumes i: "smp_inv s" and p: "pcs s c = Idle" and t_def: "t = acquire_call c l s"
  shows "smp_inv t"
proof -
  have t: "pcs t = (pcs s)(c := Acq_check l)" "locks t = locks s"
    "c_noff (cpus t d) = (if d = c then c_noff (cpus s c) + 1 else c_noff (cpus s d))"
    "c_intr (cpus t d) = (if d = c then False else c_intr (cpus s d))" for d
    by (simp_all add: t_def acquire_call_def push_off_def Let_def)
  have ins: "inside t m d = inside s m d" for m d using p by (auto simp: inside_def t)
  have h: "held_by t d = held_by s d" for d by (simp add: held_by_def t)
  note d = smp_invD [OF i]
  show ?thesis
  proof (rule smp_invI)
    show "c_noff (cpus t x) = int (card (held_by t x) + pending (pcs t x))" for x
      using d(6) [of x] p by (cases "x = c") (simp_all add: h t)
    show "\<not> c_intr (cpus t x)" if "c_noff (cpus t x) \<noteq> 0" for x
      using d(7) [of x] that by (auto simp: t split: if_splits)
    show "l_cpu (locks t m) = Some x \<Longrightarrow> pcs t x \<noteq> Acq_own m \<and> pcs t x \<noteq> Rel_unlock m" for m x
      using d(2) [of m x] by (simp add: t)
    show "pcs t x = Rel_clear m \<Longrightarrow> l_cpu (locks t m) = Some x" for m x
      using d(4) [of x m] by (auto simp: t split: if_splits)
    show "pcs t x = Panicked e \<Longrightarrow> e = ''acquire'' \<or> e = ''release''" for x e
      using d(8) [of x e] by (auto simp: t split: if_splits)
  qed (use d in \<open>simp_all add: ins h t\<close>)
qed

lemma spin_inv:
  assumes i: "smp_inv s" and p: "pcs s c = Acq_spin l" and free: "\<not> l_locked (locks s l)"
    and t_def: "t = goto c (Acq_own l) (upd_lock l (\<lambda>x. x\<lparr>l_locked := True\<rparr>) s)"
  shows "smp_inv t"
proof -
  note d = smp_invD [OF i]
  have t: "pcs t = (pcs s)(c := Acq_own l)" "cpus t = cpus s" "l_cpu (locks t m) = l_cpu (locks s m)"
    "l_locked (locks t m) = (m = l \<or> l_locked (locks s m))" for m by (simp_all add: t_def)
  have none: "\<not> inside s l x" for x using d(3) [of l] free by blast
  have ins: "inside t m x \<longleftrightarrow> inside s m x \<or> m = l \<and> x = c" for m x using p by (auto simp: inside_def t)
  have h: "held_by t x = held_by s x" for x by (auto simp: held_by_def t)
  show ?thesis
  proof (rule smp_invI)
    show "inside t m x \<Longrightarrow> inside t m y \<Longrightarrow> x = y" for m x y using none d(1) [of m x y] by (auto simp: ins)
    show "l_locked (locks t m) = (\<exists>x. inside t m x)" for m using d(3) [of m] by (auto simp: ins t)
    show "l_cpu (locks t m) = Some x \<Longrightarrow> pcs t x \<noteq> Acq_own m \<and> pcs t x \<noteq> Rel_unlock m" for m x
      using d(2) [of m x] none [of x] by (auto simp: inside_def t split: if_splits)
    show "c_noff (cpus t x) = int (card (held_by t x) + pending (pcs t x))" for x
      using d(6) [of x] p by (cases "x = c") (simp_all add: h t)
    show "pcs t x = Rel_clear m \<Longrightarrow> l_cpu (locks t m) = Some x" for m x
      using d(4) [of x m] by (auto simp: t split: if_splits)
    show "pcs t x = Panicked e \<Longrightarrow> e = ''acquire'' \<or> e = ''release''" for x e
      using d(8) [of x e] by (auto simp: t split: if_splits)
  qed (use d in \<open>simp_all add: h t\<close>)
qed

lemma own_inv:
  assumes i: "smp_inv s" and p: "pcs s c = Acq_own l"
    and t_def: "t = goto c Idle (upd_lock l (\<lambda>x. x\<lparr>l_cpu := Some c\<rparr>) s)"
  shows "smp_inv t" and "held_by t d = (if d = c then insert l (held_by s c) else held_by s d)"
    and "l \<notin> held_by s c"
proof -
  note d = smp_invD [OF i]
  have me: "inside s l c" using p by (simp add: inside_def)
  have none: "l_cpu (locks s l) = None"
  proof (rule ccontr)
    assume "l_cpu (locks s l) \<noteq> None"
    then obtain x where x: "l_cpu (locks s l) = Some x" by auto
    then have "x = c" using d(1) [OF _ me, of x] by (simp add: inside_def)
    with d(2) [OF x] p show False by simp
  qed
  have t: "pcs t = (pcs s)(c := Idle)" "cpus t = cpus s" "l_locked (locks t m) = l_locked (locks s m)"
    "l_cpu (locks t m) = (if m = l then Some c else l_cpu (locks s m))" for m by (simp_all add: t_def)
  show h: "held_by t d = (if d = c then insert l (held_by s c) else held_by s d)" for d
    using none by (auto simp: held_by_def t)
  show nl: "l \<notin> held_by s c" using none by (simp add: held_by_def)
  have ins: "inside t m x \<longleftrightarrow> inside s m x" for m x
  proof (cases "m = l \<and> x \<noteq> c")
    case True
    then have "\<not> inside s l x" using d(1) [OF me] by blast
    with True show ?thesis by (simp add: inside_def t)
  next
    case False
    then show ?thesis using p none by (auto simp: inside_def t)
  qed
  show "smp_inv t"
  proof (rule smp_invI)
    show "inside t m x \<Longrightarrow> inside t m y \<Longrightarrow> x = y" for m x y unfolding ins using d(1) by blast
    show "l_locked (locks t m) = (\<exists>x. inside t m x)" for m using d(3) [of m] by (simp add: ins t)
    show "c_noff (cpus t x) = int (card (held_by t x) + pending (pcs t x))" for x
      using d(6) [of x] d(5) [of c] p nl by (cases "x = c") (simp_all add: h t)
    show "finite (held_by t x)" for x using d(5) by (simp add: h)
    show "l_cpu (locks t m) = Some x \<Longrightarrow> pcs t x \<noteq> Acq_own m \<and> pcs t x \<noteq> Rel_unlock m" for m x
      using d(2) [of m x] by (auto simp: t split: if_splits)
    show "pcs t x = Rel_clear m \<Longrightarrow> l_cpu (locks t m) = Some x" for m x
      using d(4) [of x m] none by (auto simp: t split: if_splits)
    show "pcs t x = Panicked e \<Longrightarrow> e = ''acquire'' \<or> e = ''release''" for x e
      using d(8) [of x e] by (auto simp: t split: if_splits)
    show "c_noff (cpus t x) \<noteq> 0 \<Longrightarrow> \<not> c_intr (cpus t x)" for x using d(7) by (simp add: t)
  qed
qed

lemma clear_inv:
  assumes i: "smp_inv s" and p: "pcs s c = Rel_clear l"
    and t_def: "t = goto c (Rel_unlock l) (upd_lock l (\<lambda>x. x\<lparr>l_cpu := None\<rparr>) s)"
  shows "smp_inv t" and "held_by t d = (if d = c then held_by s c - {l} else held_by s d)" and "l \<in> held_by s c"
proof -
  note d = smp_invD [OF i]
  have own: "l_cpu (locks s l) = Some c" using d(4) [OF p] .
  have t: "pcs t = (pcs s)(c := Rel_unlock l)" "cpus t = cpus s" "l_locked (locks t m) = l_locked (locks s m)"
    "l_cpu (locks t m) = (if m = l then None else l_cpu (locks s m))" for m by (simp_all add: t_def)
  show h: "held_by t d = (if d = c then held_by s c - {l} else held_by s d)" for d
    using own by (auto simp: held_by_def t)
  show il: "l \<in> held_by s c" using own by (simp add: held_by_def)
  have ins: "inside t m x \<longleftrightarrow> inside s m x" for m x
    using p own by (auto simp: inside_def t)
  have card: "card (held_by s c) = Suc (card (held_by s c - {l}))"
    using card.remove [OF d(5) il] .
  show "smp_inv t"
  proof (rule smp_invI)
    show "inside t m x \<Longrightarrow> inside t m y \<Longrightarrow> x = y" for m x y unfolding ins using d(1) by blast
    show "l_locked (locks t m) = (\<exists>x. inside t m x)" for m using d(3) [of m] by (simp add: ins t)
    show "c_noff (cpus t x) = int (card (held_by t x) + pending (pcs t x))" for x
      using d(6) [of x] p card by (cases "x = c") (simp_all add: h t)
    show "finite (held_by t x)" for x using d(5) by (simp add: h)
    show "l_cpu (locks t m) = Some x \<Longrightarrow> pcs t x \<noteq> Acq_own m \<and> pcs t x \<noteq> Rel_unlock m" for m x
      using d(2) [of m x] by (auto simp: t split: if_splits)
    show "pcs t x = Rel_clear m \<Longrightarrow> l_cpu (locks t m) = Some x" for m x
      using d(4) [of x m] own by (auto simp: t split: if_splits)
    show "pcs t x = Panicked e \<Longrightarrow> e = ''acquire'' \<or> e = ''release''" for x e
      using d(8) [of x e] by (auto simp: t split: if_splits)
    show "c_noff (cpus t x) \<noteq> 0 \<Longrightarrow> \<not> c_intr (cpus t x)" for x using d(7) by (simp add: t)
  qed
qed

lemma unlock_inv:
  assumes i: "smp_inv s" and p: "pcs s c = Rel_unlock l"
    and t_def: "t = goto c (Rel_pop l) (upd_lock l (\<lambda>x. x\<lparr>l_locked := False\<rparr>) s)"
  shows "smp_inv t"
proof -
  note d = smp_invD [OF i]
  have me: "inside s l c" using p by (simp add: inside_def)
  have t: "pcs t = (pcs s)(c := Rel_pop l)" "cpus t = cpus s" "l_cpu (locks t m) = l_cpu (locks s m)"
    "l_locked (locks t m) = (m \<noteq> l \<and> l_locked (locks s m))" for m by (simp_all add: t_def)
  have nc: "l_cpu (locks s l) \<noteq> Some c" using d(2) [of l c] p by blast
  have ins: "inside t m x \<longleftrightarrow> inside s m x \<and> m \<noteq> l" for m x
  proof (cases "m = l \<and> x \<noteq> c")
    case True
    then have "\<not> inside s l x" using d(1) [OF me] by blast
    with True show ?thesis by (simp add: inside_def t)
  next
    case False
    then show ?thesis using p nc by (auto simp: inside_def t)
  qed
  have h: "held_by t x = held_by s x" for x by (auto simp: held_by_def t)
  show ?thesis
  proof (rule smp_invI)
    show "inside t m x \<Longrightarrow> inside t m y \<Longrightarrow> x = y" for m x y unfolding ins using d(1) by blast
    show "l_locked (locks t m) = (\<exists>x. inside t m x)" for m using d(3) [of m] by (auto simp: ins t)
    show "l_cpu (locks t m) = Some x \<Longrightarrow> pcs t x \<noteq> Acq_own m \<and> pcs t x \<noteq> Rel_unlock m" for m x
      using d(2) [of m x] by (auto simp: t split: if_splits)
    show "c_noff (cpus t x) = int (card (held_by t x) + pending (pcs t x))" for x
      using d(6) [of x] p by (cases "x = c") (simp_all add: h t)
    show "pcs t x = Rel_clear m \<Longrightarrow> l_cpu (locks t m) = Some x" for m x
      using d(4) [of x m] by (auto simp: t split: if_splits)
    show "pcs t x = Panicked e \<Longrightarrow> e = ''acquire'' \<or> e = ''release''" for x e
      using d(8) [of x e] by (auto simp: t split: if_splits)
  qed (use d in \<open>simp_all add: h t\<close>)
qed

text \<open>The last step of \<^verbatim>\<open>release\<close> cannot panic.\<close>

lemma pop_inv:
  assumes i: "smp_inv s" and p: "pcs s c = Rel_pop l"
  obtains t where "pop_off c s = Inr t" and "smp_inv (goto c Idle t)" and "locks t = locks s" and "pcs t = pcs s"
proof -
  note d = smp_invD [OF i]
  have n: "c_noff (cpus s c) \<ge> 1" using d(6) [of c] p by simp
  then have ni: "\<not> c_intr (cpus s c)" using d(7) [of c] by simp
  let ?b = "c_noff (cpus s c) = 1 \<and> c_intena (cpus s c)"
  obtain u where e: "pop_off c s = Inr u" and u: "pcs u = pcs s" "locks u = locks s"
    "\<forall>x. c_noff (cpus u x) = (if x = c then c_noff (cpus s c) - 1 else c_noff (cpus s x))"
    "\<forall>x. c_intr (cpus u x) = (if x = c then ?b else c_intr (cpus s x))"
    using n ni by (simp add: pop_off_def Let_def)
  define t where "t = goto c Idle u"
  have t: "pcs t = (pcs s)(c := Idle)" "locks t = locks s"
    "c_noff (cpus t x) = (if x = c then c_noff (cpus s c) - 1 else c_noff (cpus s x))"
    "c_intr (cpus t x) = (if x = c then ?b else c_intr (cpus s x))" for x using u by (simp_all add: t_def)
  have ins: "inside t m x = inside s m x" for m x using p by (auto simp: inside_def t)
  have h: "held_by t x = held_by s x" for x by (simp add: held_by_def t)
  have "smp_inv t"
  proof (rule smp_invI)
    show "inside t m x \<Longrightarrow> inside t m y \<Longrightarrow> x = y" for m x y unfolding ins using d(1) by blast
    show "l_locked (locks t m) = (\<exists>x. inside t m x)" for m using d(3) [of m] by (simp add: ins t)
    show "c_noff (cpus t x) = int (card (held_by t x) + pending (pcs t x))" for x
      using d(6) [of x] p by (cases "x = c") (simp_all add: h t)
    show "\<not> c_intr (cpus t x)" if "c_noff (cpus t x) \<noteq> 0" for x
      using d(7) [of x] that by (auto simp: t split: if_splits)
    show "l_cpu (locks t m) = Some x \<Longrightarrow> pcs t x \<noteq> Acq_own m \<and> pcs t x \<noteq> Rel_unlock m" for m x
      using d(2) [of m x] by (auto simp: t split: if_splits)
    show "pcs t x = Rel_clear m \<Longrightarrow> l_cpu (locks t m) = Some x" for m x
      using d(4) [of x m] by (auto simp: t split: if_splits)
    show "pcs t x = Panicked e \<Longrightarrow> e = ''acquire'' \<or> e = ''release''" for x e
      using d(8) [of x e] by (auto simp: t split: if_splits)
    show "finite (held_by t x)" for x using d(5) by (simp add: h)
  qed
  with e u show ?thesis unfolding t_def by (intro that [of u]) simp_all
qed

section \<open>What the machine guarantees\<close>

lemma acquire_step_inv:
  assumes i: "smp_inv s"
  shows "smp_inv (acquire_step c s)"
proof (cases "pcs s c")
  case (Acq_check l)
  then show ?thesis using goto_inv [OF i, of "Panicked ''acquire''" c] goto_inv [OF i, of "Acq_spin l" c] by simp
next
  case (Acq_spin l)
  show ?thesis
  proof (cases "l_locked (locks s l)")
    case True
    then have "(locks s l)\<lparr>l_locked := True\<rparr> = locks s l" by (cases "locks s l") simp
    then have "upd_lock l (\<lambda>x. x\<lparr>l_locked := True\<rparr>) s = s" by (simp only: fun_upd_triv) simp
    with True Acq_spin i show ?thesis by (simp add: Let_def)
  next
    case False
    with spin_inv [OF i Acq_spin False refl] Acq_spin show ?thesis by (simp add: Let_def)
  qed
next
  case (Acq_own l)
  with own_inv(1) [OF i Acq_own refl] show ?thesis by simp
qed (use i in simp_all)

lemma release_step_inv:
  assumes i: "smp_inv s"
  shows "smp_inv (release_step c s)"
proof (cases "pcs s c")
  case (Rel_check l)
  then show ?thesis
    using goto_inv [OF i, of "Panicked ''release''" c] goto_inv [OF i, of "Rel_clear l" c] by (simp add: holding_def)
next
  case (Rel_clear l)
  with clear_inv(1) [OF i Rel_clear refl] show ?thesis by simp
next
  case (Rel_unlock l)
  with unlock_inv [OF i Rel_unlock refl] show ?thesis by simp
next
  case (Rel_pop l)
  obtain t where "pop_off c s = Inr t" "smp_inv (goto c Idle t)" using pop_inv [OF i Rel_pop] by blast
  with Rel_pop show ?thesis by simp
qed (use i in simp_all)

interpretation smp: machine smp_start smp_step smp_inv
proof
  fix s assume "smp_start s"
  then show "smp_inv s" by (intro smp_invI) (auto simp: smp_start_def inside_def held_by_def)
next
  fix s t assume i: "smp_inv s" and "smp_step s t"
  from this(2) show "smp_inv t"
  proof cases
    case (call_acquire c l)
    with acquire_call_inv [OF i] show ?thesis by blast
  next
    case (call_release c l)
    with goto_inv [OF i, of "Rel_check l" c] show ?thesis by (simp add: release_call_def)
  next
    case (run_acquire c)
    with acquire_step_inv [OF i] show ?thesis by blast
  next
    case (run_release c)
    with release_step_inv [OF i] show ?thesis by blast
  next
    case (intr_switch c b)
    have f: "inside t = inside s" "held_by t = held_by s" "pcs t = pcs s" "locks t = locks s"
      "c_noff (cpus t x) = c_noff (cpus s x)" "x \<noteq> c \<Longrightarrow> c_intr (cpus t x) = c_intr (cpus s x)" for x
      using intr_switch(1) by (simp_all add: inside_def held_by_def fun_eq_iff)
    note d = smp_invD [OF i]
    show ?thesis
    proof (rule smp_invI)
      show "\<not> c_intr (cpus t x)" if "c_noff (cpus t x) \<noteq> 0" for x
        using d(7) [of x] that intr_switch(3) f(5,6) by (cases "x = c") auto
      show "inside t l x \<Longrightarrow> inside t l y \<Longrightarrow> x = y" for l x y unfolding f using d(1) by blast
      show "l_cpu (locks t l) = Some x \<Longrightarrow> pcs t x \<noteq> Acq_own l \<and> pcs t x \<noteq> Rel_unlock l" for l x
        unfolding f using d(2) by blast
    qed (use d in \<open>simp_all add: f\<close>)
  qed
qed

text \<open>
  C3.  Mutual exclusion.  In every interleaving of any number of CPUs that take and give back locks: two
  CPUs are never both inside the same lock, a CPU that holds a lock has interrupts off, and its
  nesting depth \<^verbatim>\<open>noff\<close> is the number of locks it holds once it is not in the middle of a call.
\<close>

theorem spinlock_mutex:
  assumes "smp_start s0" and "smp_step\<^sup>*\<^sup>* s0 s"
  shows "(inside s l c \<and> inside s l d \<longrightarrow> c = d) \<and> (inside s l c \<longrightarrow> \<not> c_intr (cpus s c)) \<and>
    (pcs s c = Idle \<longrightarrow> c_noff (cpus s c) = int (card (held_by s c)))"
proof -
  have i: "smp_inv s" using smp.inv_reachable [OF assms] .
  note d = smp_invD [OF i]
  have "\<not> c_intr (cpus s c)" if "inside s l c"
  proof (rule d(7))
    show "c_noff (cpus s c) \<noteq> 0"
    proof (cases "l \<in> held_by s c")
      case True
      then have "card (held_by s c) \<noteq> 0" using d(5) by (auto simp: card_eq_0_iff)
      then show ?thesis using d(6) [of c] by simp
    next
      case False
      with that have "pcs s c = Acq_own l \<or> pcs s c = Rel_unlock l" by (auto simp: inside_def held_by_def)
      then show ?thesis using d(6) [of c] by auto
    qed
  qed
  then show ?thesis using d(1) [of l c d] d(6) [of c] by auto
qed

text \<open>Two CPUs contend for \<open>kmem.lock\<close>: CPU 0 has taken it, CPU 1 spins.\<close>

definition ex_smp :: smp where
  "ex_smp = \<lparr>cpus = (\<lambda>_. \<lparr>c_noff = 0, c_intena = False, c_intr = True\<rparr>),
     locks = (\<lambda>_. \<lparr>l_locked = False, l_cpu = None\<rparr>), pcs = (\<lambda>_. Idle)\<rparr>"

definition ex_contend :: smp where
  "ex_contend =
     acquire_step 1 (acquire_step 1 (acquire_call 1 Kmem_lock
       (acquire_step 0 (acquire_step 0 (acquire_step 0 (acquire_call 0 Kmem_lock ex_smp))))))"

lemma ex_contend_run: "smp_step\<^sup>*\<^sup>* ex_smp ex_contend"
proof -
  let ?s1 = "acquire_step 0 (acquire_step 0 (acquire_step 0 (acquire_call 0 Kmem_lock ex_smp)))"
  have "smp_step ex_smp (acquire_call 0 Kmem_lock ex_smp)"
    by (rule smp_step.call_acquire) (simp add: ex_smp_def)
  then have "smp_step\<^sup>*\<^sup>* ex_smp ?s1"
    by (meson rtranclp.rtrancl_into_rtrancl r_into_rtranclp smp_step.run_acquire)
  moreover have "smp_step ?s1 (acquire_call 1 Kmem_lock ?s1)"
    by (rule smp_step.call_acquire) (simp add: ex_smp_def acquire_call_def push_off_def holding_def Let_def)
  ultimately show ?thesis unfolding ex_contend_def
    by (meson rtranclp.rtrancl_into_rtrancl smp_step.run_acquire)
qed

theorem spinlock_mutex_witness:
  "inside ex_contend Kmem_lock 0 \<and> \<not> c_intr (cpus ex_contend 0) \<and> \<not> inside ex_contend Kmem_lock 1"
proof -
  have "smp_start ex_smp" by (simp add: smp_start_def ex_smp_def)
  moreover have "inside ex_contend Kmem_lock 0"
    by (simp add: inside_def ex_contend_def ex_smp_def acquire_call_def push_off_def holding_def Let_def)
  ultimately show ?thesis
    using spinlock_mutex [OF _ ex_contend_run, of Kmem_lock 0 1] by auto
qed

section \<open>Refinement of the holder's view\<close>

lemma own_step_refines:
  assumes i: "smp_inv s" and p: "pcs s c = Acq_own l" and h: "held K = held_by s c"
  shows "\<exists>K'. acquire l K = Ok () K' \<and> held K' = held_by (acquire_step c s) c"
  using own_inv(2,3) [OF i p refl] p h by (simp add: acquire_def)

lemma clear_step_refines:
  assumes i: "smp_inv s" and p: "pcs s c = Rel_clear l" and h: "held K = held_by s c"
  shows "\<exists>K'. release l K = Ok () K' \<and> held K' = held_by (release_step c s) c"
  using clear_inv(2,3) [OF i p refl] p h by (simp add: release_def)

lemma push_off_locks [simp]: "locks (push_off c s) = locks s"
  by (simp add: push_off_def Let_def)

lemma acquire_step_other:
  assumes i: "smp_inv s" and n: "\<And>l. pcs s x = Acq_own l \<Longrightarrow> x \<noteq> c"
  shows "held_by (acquire_step x s) c = held_by s c"
proof (cases "pcs s x")
  case (Acq_own l)
  then show ?thesis using own_inv(2) [OF i Acq_own refl] n by simp
qed (auto simp: held_by_def Let_def)

lemma release_step_other:
  assumes i: "smp_inv s" and n: "\<And>l. pcs s x = Rel_clear l \<Longrightarrow> x \<noteq> c"
  shows "held_by (release_step x s) c = held_by s c"
proof (cases "pcs s x")
  case (Rel_clear l)
  then show ?thesis using clear_inv(2) [OF i Rel_clear refl] n by simp
next
  case (Rel_pop l)
  obtain t where "pop_off x s = Inr t" "locks t = locks s" using pop_inv [OF i Rel_pop] by blast
  with Rel_pop show ?thesis by (simp add: held_by_def)
qed (auto simp: held_by_def)

text \<open>How a CPU can come to have panicked.\<close>

lemma step_panics:
  assumes i: "smp_inv s" and st: "smp_step s t" and p: "pcs t c = Panicked e" "pcs s c \<noteq> Panicked e"
  shows "\<exists>l. e = ''acquire'' \<and> pcs s c = Acq_check l \<and> holding c l s \<or> e = ''release'' \<and> pcs s c = Rel_check l \<and> \<not> holding c l s"
  using st
proof cases
  case (run_acquire x)
  with p show ?thesis by (auto simp: Let_def split: pc.splits if_splits)
next
  case (run_release x)
  show ?thesis
  proof (cases "\<exists>l. pcs s x = Rel_pop l")
    case True
    then obtain l u where "pcs s x = Rel_pop l" "pop_off x s = Inr u" "pcs u = pcs s" using pop_inv [OF i] by metis
    with run_release p show ?thesis by (auto split: if_splits)
  next
    case False
    with run_release p show ?thesis by (auto split: pc.splits if_splits)
  qed
qed (use p in \<open>auto simp: acquire_call_def release_call_def push_off_def Let_def split: if_splits\<close>)



section \<open>Nesting\<close>

primrec pops :: "nat \<Rightarrow> nat \<Rightarrow> smp \<Rightarrow> string + smp" where
  "pops c 0 s = Inr s"
| "pops c (Suc n) s = (case pop_off c s of Inl e \<Rightarrow> Inl e | Inr t \<Rightarrow> pops c n t)"

text \<open>
  As many \<^verbatim>\<open>pop_off\<close>s as \<^verbatim>\<open>push_off\<close>s restore the interrupt flag, also when it was off to begin with.
\<close>

lemma push_off_cpu:
  "c_noff (cpus (push_off c s) c) = c_noff (cpus s c) + 1" "\<not> c_intr (cpus (push_off c s) c)"
  "c_intena (cpus (push_off c s) c) = (if c_noff (cpus s c) = 0 then c_intr (cpus s c) else c_intena (cpus s c))"
  by (simp_all add: push_off_def Let_def)

lemma pops_from:
  assumes "c_noff (cpus u c) = m + int n" and "0 < n" and "0 \<le> m" and "\<not> c_intr (cpus u c)"
  shows "\<exists>t. pops c n u = Inr t \<and> c_noff (cpus t c) = m \<and> c_intr (cpus t c) = (m = 0 \<and> c_intena (cpus u c))"
  using assms
proof (induction n arbitrary: u)
  case 0
  then show ?case by simp
next
  case (Suc n)
  obtain v where v: "pop_off c u = Inr v" "c_noff (cpus v c) = m + int n" "c_intena (cpus v c) = c_intena (cpus u c)"
    "c_intr (cpus v c) = (m + int n = 0 \<and> c_intena (cpus u c))"
    using Suc.prems by (auto simp: pop_off_def Let_def)
  show ?case
  proof (cases n)
    case 0
    with v Suc.prems show ?thesis by simp
  next
    case (Suc k)
    then have "\<not> c_intr (cpus v c)" using v(4) Suc.prems(3) by simp
    with Suc.IH [OF v(2) _ Suc.prems(3)] Suc v show ?thesis by simp
  qed
qed

lemma pushes_cpu:
  "c_noff (cpus ((push_off c ^^ n) s) c) = c_noff (cpus s c) + int n"
  "0 < n \<Longrightarrow> \<not> c_intr (cpus ((push_off c ^^ n) s) c)"
  "0 < n \<Longrightarrow> 0 \<le> c_noff (cpus s c) \<Longrightarrow> c_intena (cpus ((push_off c ^^ n) s) c) =
     (if c_noff (cpus s c) = 0 then c_intr (cpus s c) else c_intena (cpus s c))"
proof -
  show n: "c_noff (cpus ((push_off c ^^ n) s) c) = c_noff (cpus s c) + int n" for n
    by (induction n) (simp_all add: push_off_cpu)
  show "0 < n \<Longrightarrow> \<not> c_intr (cpus ((push_off c ^^ n) s) c)" by (cases n) (simp_all add: push_off_cpu)
  assume "0 < n" and z: "0 \<le> c_noff (cpus s c)"
  then show "c_intena (cpus ((push_off c ^^ n) s) c) =
     (if c_noff (cpus s c) = 0 then c_intr (cpus s c) else c_intena (cpus s c))"
  proof (induction n)
    case (Suc n)
    then show ?case using n [of n] by (cases "n = 0") (simp_all add: push_off_cpu)
  qed simp
qed

lemma push_pop_nest:
  assumes "0 \<le> c_noff (cpus s c)" and "c_noff (cpus s c) \<noteq> 0 \<Longrightarrow> \<not> c_intr (cpus s c)"
  shows "\<exists>t. pops c n ((push_off c ^^ n) s) = Inr t \<and> c_noff (cpus t c) = c_noff (cpus s c) \<and>
    c_intr (cpus t c) = c_intr (cpus s c)"
proof (cases "n = 0")
  case False
  then show ?thesis
    using pops_from [of "(push_off c ^^ n) s" c "c_noff (cpus s c)" n] pushes_cpu [where n = n and c = c and s = s] assms
    by (cases "c_noff (cpus s c) = 0") auto
qed simp

end
