(* ===== verification/Bio.thy ===== *)
theory Bio
  imports Kalloc
begin

text \<open>
  \<^verbatim>\<open>kernel/bio.c\<close>: the buffer cache.  Buffers sit on a doubly linked list in order of use, most recent
  first; the pointers are modelled as they are, with the buffers numbered from 0 and the list head
  \<^verbatim>\<open>bcache.head\<close> as number \<^verbatim>\<open>NBUF\<close>.

  The disk is a map from block numbers to blocks.  The driver's \<^verbatim>\<open>virtio_disk_rw\<close> appears here by the
  effect its caller sees when it returns, \<open>disk_rw\<close>: one block copied between buffer and disk; \<open>Virtio\<close> has the driver itself and shows this.  The
  order of block writes matters for crash recovery, so the state also records them, in \<open>dwrites\<close>;
  nothing in the code reads that field.
\<close>

section \<open>Buffers\<close>

definition BSIZE :: nat where [params]: "BSIZE = 1024"
definition NBUF :: nat where [params]: "NBUF = 30"
definition ROOTDEV :: uint where [params]: "ROOTDEV = 1"

record buf =
  b_valid :: bool
  b_disk :: bool
  b_dev :: uint
  b_blockno :: uint
  b_refcnt :: uint
  b_prev :: nat
  b_next :: nat
  b_data :: bytes

record bcache_st = kmem_st +
  buf :: "nat \<Rightarrow> buf"
  disk :: "uint \<Rightarrow> bytes"
  dwrites :: "(uint \<times> bytes) list"

abbreviation upd_buf :: "nat \<Rightarrow> (buf \<Rightarrow> buf) \<Rightarrow> 'a bcache_st_scheme \<Rightarrow> 'a bcache_st_scheme" where
  "upd_buf b f s \<equiv> s\<lparr>buf := (buf s)(b := f (buf s b))\<rparr>"

definition disk_rw :: "nat \<Rightarrow> bool \<Rightarrow> ('a bcache_st_scheme, unit) kern" where
  "disk_rw b write =
     (if write then
        modify (\<lambda>s. s\<lparr>disk := (disk s)(b_blockno (buf s b) := b_data (buf s b)),
                      dwrites := dwrites s @ [(b_blockno (buf s b), b_data (buf s b))]\<rparr>)
      else modify (\<lambda>s. upd_buf b (\<lambda>x. x\<lparr>b_data := disk s (b_blockno x)\<rparr>) s))"

section \<open>The operations\<close>

text \<open>The four pointer assignments that put \<open>b\<close> right after the list head, in their order.\<close>

definition link_front :: "(nat \<Rightarrow> buf) \<Rightarrow> nat \<Rightarrow> nat \<Rightarrow> buf" where
  "link_front B b =
     (let B1 = B(b := (B b)\<lparr>b_next := b_next (B NBUF)\<rparr>);
          B2 = B1(b := (B1 b)\<lparr>b_prev := NBUF\<rparr>);
          h = b_next (B2 NBUF);
          B3 = B2(h := (B2 h)\<lparr>b_prev := b\<rparr>)
      in B3(NBUF := (B3 NBUF)\<lparr>b_next := b\<rparr>))"

text \<open>The two that take \<open>b\<close> out of the list.\<close>

definition unlink_buf :: "(nat \<Rightarrow> buf) \<Rightarrow> nat \<Rightarrow> nat \<Rightarrow> buf" where
  "unlink_buf B b =
     (let B1 = B(b_next (B b) := (B (b_next (B b)))\<lparr>b_prev := b_prev (B b)\<rparr>)
      in B1(b_prev (B1 b) := (B1 (b_prev (B1 b)))\<lparr>b_next := b_next (B1 b)\<rparr>))"

definition binit_one :: "nat \<Rightarrow> ('a bcache_st_scheme, unit) kern" where
  "binit_one b =
     kdo (initsleeplock (Buf_lock b)) (\<lambda>_.
     modify (\<lambda>s. s\<lparr>buf := link_front (buf s) b\<rparr>))"

definition binit :: "('a bcache_st_scheme, unit) kern" where
  "binit =
     kdo (modify (upd_buf NBUF (\<lambda>h. h\<lparr>b_prev := NBUF, b_next := NBUF\<rparr>))) (\<lambda>_.
     for_each [0..<NBUF] binit_one)"

text \<open>
  The two searches of \<^verbatim>\<open>bget\<close>, forwards for the block and backwards for an unused buffer.  Each gives
  \<^term>\<open>Some (Some b)\<close> for a buffer found, \<^term>\<open>Some None\<close> when it comes back to the list head, and
  \<^term>\<open>None\<close> when it has followed more pointers than there are buffers.
\<close>

primrec bget_cached :: "nat \<Rightarrow> (nat \<Rightarrow> buf) \<Rightarrow> uint \<Rightarrow> uint \<Rightarrow> nat \<Rightarrow> nat option option" where
  "bget_cached 0 B dev blockno b = None"
| "bget_cached (Suc fuel) B dev blockno b =
     (if b = NBUF then Some None
      else if b_dev (B b) = dev \<and> b_blockno (B b) = blockno then Some (Some b)
      else bget_cached fuel B dev blockno (b_next (B b)))"

primrec bget_unused :: "nat \<Rightarrow> (nat \<Rightarrow> buf) \<Rightarrow> nat \<Rightarrow> nat option option" where
  "bget_unused 0 B b = None"
| "bget_unused (Suc fuel) B b =
     (if b = NBUF then Some None
      else if b_refcnt (B b) = 0 then Some (Some b)
      else bget_unused fuel B (b_prev (B b)))"

definition bget :: "uint \<Rightarrow> uint \<Rightarrow> ('a bcache_st_scheme, nat) kern" where
  "bget dev blockno =
     kdo (acquire Bcache_lock) (\<lambda>_.
     kdo (gets buf) (\<lambda>B.
     case bget_cached (NBUF + 1) B dev blockno (b_next (B NBUF)) of
       None \<Rightarrow> diverge
     | Some (Some b) \<Rightarrow>
         kdo (modify (upd_buf b (\<lambda>x. x\<lparr>b_refcnt := b_refcnt x + 1\<rparr>))) (\<lambda>_.
         kdo (release Bcache_lock) (\<lambda>_.
         kdo (acquiresleep (Buf_lock b)) (\<lambda>_.
         ret b)))
     | Some None \<Rightarrow>
         (case bget_unused (NBUF + 1) B (b_prev (B NBUF)) of
            None \<Rightarrow> diverge
          | Some (Some b) \<Rightarrow>
              kdo (modify (upd_buf b (\<lambda>x. x\<lparr>b_dev := dev, b_blockno := blockno,
                                            b_valid := False, b_refcnt := 1\<rparr>))) (\<lambda>_.
              kdo (release Bcache_lock) (\<lambda>_.
              kdo (acquiresleep (Buf_lock b)) (\<lambda>_.
              ret b)))
          | Some None \<Rightarrow> panic ''bget: no buffers'')))"

definition bread :: "uint \<Rightarrow> uint \<Rightarrow> ('a bcache_st_scheme, nat) kern" where
  "bread dev blockno =
     kdo (bget dev blockno) (\<lambda>b.
     kdo (gets (\<lambda>s. b_valid (buf s b))) (\<lambda>valid.
     kdo (kwhen (\<not> valid)
            (kdo (disk_rw b False) (\<lambda>_.
             modify (upd_buf b (\<lambda>x. x\<lparr>b_valid := True\<rparr>))))) (\<lambda>_.
     ret b)))"

definition bwrite :: "nat \<Rightarrow> ('a bcache_st_scheme, unit) kern" where
  "bwrite b =
     kdo (holdingsleep (Buf_lock b)) (\<lambda>h.
     if \<not> h then panic ''bwrite'' else disk_rw b True)"

definition brelse :: "nat \<Rightarrow> ('a bcache_st_scheme, unit) kern" where
  "brelse b =
     kdo (holdingsleep (Buf_lock b)) (\<lambda>h.
     if \<not> h then panic ''brelse''
     else
       kdo (releasesleep (Buf_lock b)) (\<lambda>_.
       kdo (acquire Bcache_lock) (\<lambda>_.
       kdo (modify (upd_buf b (\<lambda>x. x\<lparr>b_refcnt := b_refcnt x - 1\<rparr>))) (\<lambda>_.
       kdo (gets (\<lambda>s. b_refcnt (buf s b))) (\<lambda>r.
       kdo (kwhen (r = 0) (modify (\<lambda>s. s\<lparr>buf := link_front (unlink_buf (buf s) b) b\<rparr>))) (\<lambda>_.
       release Bcache_lock))))))"

definition bpin :: "nat \<Rightarrow> ('a bcache_st_scheme, unit) kern" where
  "bpin b =
     kdo (acquire Bcache_lock) (\<lambda>_.
     kdo (modify (upd_buf b (\<lambda>x. x\<lparr>b_refcnt := b_refcnt x + 1\<rparr>))) (\<lambda>_.
     release Bcache_lock))"

definition bunpin :: "nat \<Rightarrow> ('a bcache_st_scheme, unit) kern" where
  "bunpin b =
     kdo (acquire Bcache_lock) (\<lambda>_.
     kdo (modify (upd_buf b (\<lambda>x. x\<lparr>b_refcnt := b_refcnt x - 1\<rparr>))) (\<lambda>_.
     release Bcache_lock))"

section \<open>What they leave alone\<close>

definition cache_blind :: "('a bcache_st_scheme \<Rightarrow> bool) \<Rightarrow> bool" where
  "cache_blind I \<longleftrightarrow> core_blind I \<and>
     (\<forall>s B D W. I (s\<lparr>buf := B\<rparr>) = I s \<and> I (s\<lparr>disk := D\<rparr>) = I s \<and> I (s\<lparr>dwrites := W\<rparr>) = I s)"

lemma cache_blindD:
  assumes "cache_blind I"
  shows "core_blind I" "I (s\<lparr>buf := B\<rparr>) = I s" "I (s\<lparr>disk := D\<rparr>) = I s" "I (s\<lparr>dwrites := W\<rparr>) = I s"
  using assms unfolding cache_blind_def by blast+

lemma keeps_disk_rw: "cache_blind I \<Longrightarrow> keeps I (disk_rw b w)"
  unfolding disk_rw_def by (intro keeps_intros keeps_modify) (simp_all add: cache_blindD)

lemma keeps_bread [keeps_intros]: "cache_blind I \<Longrightarrow> keeps I (bread dev bn)"
  unfolding bread_def bget_def
  by (intro keeps_intros keeps_modify keeps_disk_rw) (simp_all add: cache_blindD)

lemma keeps_bwrite [keeps_intros]: "cache_blind I \<Longrightarrow> keeps I (bwrite b)"
  unfolding bwrite_def by (intro keeps_intros keeps_disk_rw) (simp_all add: cache_blindD)

lemma keeps_brelse [keeps_intros]: "cache_blind I \<Longrightarrow> keeps I (brelse b)"
  unfolding brelse_def by (intro keeps_intros keeps_modify) (simp_all add: cache_blindD)

lemma keeps_bpin [keeps_intros]: "cache_blind I \<Longrightarrow> keeps I (bpin b)"
  unfolding bpin_def by (intro keeps_intros keeps_modify) (simp_all add: cache_blindD)

lemma keeps_bunpin [keeps_intros]: "cache_blind I \<Longrightarrow> keeps I (bunpin b)"
  unfolding bunpin_def by (intro keeps_intros keeps_modify) (simp_all add: cache_blindD)

section \<open>The list of buffers\<close>

text \<open>
  \<open>linked B a xs z\<close>: following \<^verbatim>\<open>next\<close> from \<open>a\<close> one passes \<open>xs\<close> and arrives at \<open>z\<close>, and \<^verbatim>\<open>prev\<close> leads back.
\<close>

primrec linked :: "(nat \<Rightarrow> buf) \<Rightarrow> nat \<Rightarrow> nat list \<Rightarrow> nat \<Rightarrow> bool" where
  "linked B a [] z \<longleftrightarrow> b_next (B a) = z \<and> b_prev (B z) = a"
| "linked B a (x # xs) z \<longleftrightarrow> b_next (B a) = x \<and> b_prev (B x) = a \<and> linked B x xs z"

text \<open>The whole cache is one cycle through the head, and \<open>xs\<close> lists it from most to least recent use.\<close>

definition lru :: "(nat \<Rightarrow> buf) \<Rightarrow> nat list \<Rightarrow> bool" where
  "lru B xs \<longleftrightarrow> linked B NBUF xs NBUF \<and> distinct xs \<and> set xs = {..<NBUF}"

lemma linked_append: "linked B a (xs @ y # ys) z \<longleftrightarrow> linked B a xs y \<and> linked B y ys z"
  by (induction xs arbitrary: a) auto

lemma linked_next: "linked B a xs z \<Longrightarrow> b_next (B a) = hd (xs @ [z])"
  by (cases xs) auto

lemma linked_prev: "linked B a xs z \<Longrightarrow> b_prev (B z) = last (a # xs)"
  by (induction xs arbitrary: a) auto

lemma linked_cong:
  assumes "\<And>i. i \<in> set (a # xs) \<Longrightarrow> b_next (B' i) = b_next (B i)"
    and "\<And>i. i \<in> set (xs @ [z]) \<Longrightarrow> b_prev (B' i) = b_prev (B i)"
  shows "linked B' a xs z = linked B a xs z"
  using assms by (induction xs arbitrary: a) auto

text \<open>Cutting a list short at its end: the last node is made to point to \<open>z\<close> instead of \<open>y\<close>.\<close>

lemma linked_redirect:
  assumes "linked B a xs y" and "distinct (a # xs)" and "z \<notin> set xs"
    and "\<And>i. i \<noteq> last (a # xs) \<Longrightarrow> b_next (B' i) = b_next (B i)"
    and "\<And>i. i \<noteq> z \<Longrightarrow> b_prev (B' i) = b_prev (B i)"
    and "b_next (B' (last (a # xs))) = z" and "b_prev (B' z) = last (a # xs)"
  shows "linked B' a xs z"
  using assms
proof (induction xs arbitrary: a)
  case Nil
  then show ?case by simp
next
  case (Cons x xs)
  have "linked B' x xs z" by (rule Cons.IH) (use Cons.prems in auto)
  moreover have "a \<noteq> last (a # x # xs)" using Cons.prems(2) by (auto simp del: last.simps)
      (metis last_ConsR last_in_set list.discI list.set_intros(1,2) set_ConsD)
  ultimately show ?case using Cons.prems by auto
qed

lemma unlink_linked:
  assumes l: "linked B NBUF (xs @ b # ys) NBUF" and d: "distinct (xs @ b # ys)"
    and n: "NBUF \<notin> set (xs @ b # ys)"
  shows "linked (unlink_buf B b) NBUF (xs @ ys) NBUF"
proof -
  let ?p = "last (NBUF # xs)" and ?n = "hd (ys @ [NBUF])" and ?B = "unlink_buf B b"
  from l have xs: "linked B NBUF xs b" and ys: "linked B b ys NBUF" by (auto simp: linked_append)
  have p: "b_prev (B b) = ?p" and nx: "b_next (B b) = ?n"
    using linked_prev [OF xs] linked_next [OF ys] by auto
  have pb: "?p \<noteq> b" using d n by (cases xs rule: rev_cases) auto
  have nb: "?n \<noteq> b" using d n by (cases ys) auto
  have nxt: "b_next (?B i) = (if i = ?p then ?n else b_next (B i))" for i
    using p nx pb nb by (auto simp: unlink_buf_def Let_def)
  have prv: "b_prev (?B i) = (if i = ?n then ?p else b_prev (B i))" for i
    using p nx pb nb by (auto simp: unlink_buf_def Let_def)
  have nn: "?n \<notin> set xs" using d n by (cases ys) auto
  have first: "linked ?B NBUF xs ?n"
    by (rule linked_redirect [OF xs]) (use d n nn nxt prv in auto)
  show ?thesis
  proof (cases ys)
    case Nil
    with first show ?thesis by simp
  next
    case (Cons y ys')
    have "linked ?B y ys' NBUF = linked B y ys' NBUF"
    proof (rule linked_cong)
      fix i assume "i \<in> set (y # ys')"
      moreover have "?p \<notin> set (y # ys')" using Cons d n by (cases xs rule: rev_cases) auto
      ultimately show "b_next (?B i) = b_next (B i)" by (auto simp: nxt)
    next
      fix i assume "i \<in> set (ys' @ [NBUF])"
      moreover have "?n \<notin> set (ys' @ [NBUF])" using Cons d n by auto
      ultimately show "b_prev (?B i) = b_prev (B i)" by (auto simp: prv)
    qed
    with ys Cons first show ?thesis by (simp add: linked_append)
  qed
qed

lemma link_front_linked:
  assumes l: "linked B NBUF zs NBUF" and "b \<notin> set zs" and "NBUF \<notin> set zs" and "b \<noteq> NBUF" and "distinct zs"
  shows "linked (link_front B b) NBUF (b # zs) NBUF"
proof -
  let ?h = "hd (zs @ [NBUF])" and ?B = "link_front B b"
  have h: "b_next (B NBUF) = ?h" using linked_next [OF l] .
  have hb: "?h \<noteq> b" using assms by (cases zs) auto
  have nxt: "b_next (?B i) = (if i = NBUF then b else if i = b then ?h else b_next (B i))" for i
    using h hb assms(4) by (auto simp: link_front_def Let_def)
  have prv: "b_prev (?B i) = (if i = ?h then b else if i = b then NBUF else b_prev (B i))" for i
    using h hb assms(4) by (auto simp: link_front_def Let_def)
  have "linked ?B b zs NBUF"
  proof (cases zs)
    case Nil
    then show ?thesis using assms(4) by (simp add: nxt prv)
  next
    case (Cons z zs')
    have "linked ?B z zs' NBUF = linked B z zs' NBUF"
      by (rule linked_cong) (use Cons assms in \<open>auto simp: nxt prv\<close>)
    with Cons l assms(4) show ?thesis by (simp add: nxt prv)
  qed
  then show ?thesis using hb by (simp add: nxt prv)
qed

text \<open>A buffer that is released last becomes the most recent one; the order of the others stays.\<close>

definition move_front :: "nat \<Rightarrow> nat list \<Rightarrow> nat list" where
  "move_front b xs = b # filter (\<lambda>c. c \<noteq> b) xs"

lemma filter_split: "distinct (xs @ b # ys) \<Longrightarrow> filter (\<lambda>c. c \<noteq> b) (xs @ b # ys) = xs @ ys"
proof -
  assume d: "distinct (xs @ b # ys)"
  have "filter (\<lambda>c. c \<noteq> b) xs = xs" by (rule filter_True) (use d in auto)
  moreover have "filter (\<lambda>c. c \<noteq> b) ys = ys" by (rule filter_True) (use d in auto)
  ultimately show ?thesis by simp
qed

lemma move_front_lru:
  assumes l: "lru B xs" and b: "b < NBUF"
  shows "lru (link_front (unlink_buf B b) b) (move_front b xs)"
proof -
  from l b have "b \<in> set xs" by (auto simp: lru_def)
  then obtain ys zs where xs: "xs = ys @ b # zs" by (auto simp: in_set_conv_decomp)
  have nb: "NBUF \<notin> set xs" using l by (auto simp: lru_def)
  have d: "distinct (ys @ b # zs)" using l xs by (simp add: lru_def)
  have "linked (unlink_buf B b) NBUF (ys @ zs) NBUF"
    by (rule unlink_linked) (use l xs nb in \<open>auto simp: lru_def\<close>)
  then have "linked (link_front (unlink_buf B b) b) NBUF (b # ys @ zs) NBUF"
    by (rule link_front_linked) (use d nb xs b in auto)
  moreover have "move_front b xs = b # ys @ zs"
    unfolding move_front_def xs using filter_split [OF d] by simp
  moreover have "set (b # ys @ zs) = {..<NBUF}" using l xs by (auto simp: lru_def)
  ultimately show ?thesis using d by (simp add: lru_def)
qed

text \<open>The two searches find what the list says.\<close>

lemma bget_cached_find:
  assumes "linked B a xs NBUF" and "NBUF \<notin> set xs" and "length xs < fuel"
  shows "bget_cached fuel B dev bn (b_next (B a)) =
         Some (find (\<lambda>b. b_dev (B b) = dev \<and> b_blockno (B b) = bn) xs)"
  using assms
proof (induction xs arbitrary: a fuel)
  case Nil
  then show ?case by (cases fuel) auto
next
  case (Cons x xs)
  then obtain f where f: "fuel = Suc f" by (cases fuel) auto
  have "bget_cached f B dev bn (b_next (B x)) = Some (find (\<lambda>b. b_dev (B b) = dev \<and> b_blockno (B b) = bn) xs)"
    by (rule Cons.IH) (use Cons.prems f in auto)
  with Cons.prems f show ?case by auto
qed

lemma bget_unused_find:
  assumes "linked B NBUF xs z" and "NBUF \<notin> set xs" and "length xs < fuel"
  shows "bget_unused fuel B (b_prev (B z)) = Some (find (\<lambda>b. b_refcnt (B b) = 0) (rev xs))"
  using assms
proof (induction xs arbitrary: z fuel rule: rev_induct)
  case Nil
  then show ?case by (cases fuel) auto
next
  case (snoc x xs)
  then obtain f where f: "fuel = Suc f" by (cases fuel) auto
  have l: "linked B NBUF xs x" "b_prev (B z) = x" using snoc.prems(1) by (auto simp: linked_append)
  have "bget_unused f B (b_prev (B x)) = Some (find (\<lambda>b. b_refcnt (B b) = 0) (rev xs))"
    by (rule snoc.IH) (use l snoc.prems f in auto)
  with snoc.prems f l show ?case by auto
qed

lemma lru_length: "lru B xs \<Longrightarrow> length xs = NBUF"
  using distinct_card [of xs] by (simp add: lru_def)

lemma lru_cached:
  assumes "lru B xs"
  shows "bget_cached (NBUF + 1) B dev bn (b_next (B NBUF)) =
         Some (find (\<lambda>b. b_dev (B b) = dev \<and> b_blockno (B b) = bn) xs)"
  by (rule bget_cached_find) (use assms lru_length [OF assms] in \<open>auto simp: lru_def\<close>)

lemma lru_unused:
  assumes "lru B xs"
  shows "bget_unused (NBUF + 1) B (b_prev (B NBUF)) = Some (find (\<lambda>b. b_refcnt (B b) = 0) (rev xs))"
  by (rule bget_unused_find) (use assms lru_length [OF assms] in \<open>auto simp: lru_def\<close>)

lemma find_SomeD: "find p xs = Some x \<Longrightarrow> x \<in> set xs \<and> p x"
  by (auto simp: find_Some_iff)

lemma lru_links_cong:
  assumes "\<And>i. b_next (B' i) = b_next (B i)" and "\<And>i. b_prev (B' i) = b_prev (B i)"
  shows "lru B' xs = lru B xs"
  using linked_cong [of NBUF xs B' B NBUF] assms by (simp add: lru_def)

text \<open>The pointer surgery changes no other field.\<close>

lemma surgery_fields:
  "b_valid (link_front B b c) = b_valid (B c)" "b_dev (link_front B b c) = b_dev (B c)"
  "b_blockno (link_front B b c) = b_blockno (B c)" "b_refcnt (link_front B b c) = b_refcnt (B c)"
  "b_data (link_front B b c) = b_data (B c)"
  "b_valid (unlink_buf B b c) = b_valid (B c)" "b_dev (unlink_buf B b c) = b_dev (B c)"
  "b_blockno (unlink_buf B b c) = b_blockno (B c)" "b_refcnt (unlink_buf B b c) = b_refcnt (B c)"
  "b_data (unlink_buf B b c) = b_data (B c)"
  by (simp_all add: link_front_def unlink_buf_def Let_def)

section \<open>The invariant\<close>

text \<open>
  The buffers form the list; no two of them cache the same block; a locked buffer is in use; only
  the root device is used (device 0 marks a buffer never used); and the copy in an unused buffer is
  what the disk has, so that giving the buffer to another block loses nothing.
\<close>

definition binv :: "'a bcache_st_scheme \<Rightarrow> bool" where
  "binv s \<longleftrightarrow>
     (\<exists>xs. lru (buf s) xs) \<and>
     (\<forall>b<NBUF. \<forall>c<NBUF. b_dev (buf s b) \<noteq> 0 \<and> b_dev (buf s b) = b_dev (buf s c) \<and>
        b_blockno (buf s b) = b_blockno (buf s c) \<longrightarrow> b = c) \<and>
     (\<forall>b<NBUF. b_dev (buf s b) = 0 \<or> b_dev (buf s b) = ROOTDEV) \<and>
     (\<forall>b<NBUF. b_valid (buf s b) \<longrightarrow> b_dev (buf s b) = ROOTDEV) \<and>
     (\<forall>b<NBUF. sl_locked (slock s (Buf_lock b)) \<longrightarrow> b_refcnt (buf s b) \<noteq> 0) \<and>
     (\<forall>b<NBUF. b_valid (buf s b) \<and> b_refcnt (buf s b) = 0 \<longrightarrow>
        b_data (buf s b) = disk s (b_blockno (buf s b)))"

definition caches :: "'a bcache_st_scheme \<Rightarrow> uint \<Rightarrow> nat \<Rightarrow> bool" where
  "caches s bn b \<longleftrightarrow> b < NBUF \<and> b_dev (buf s b) = ROOTDEV \<and> b_blockno (buf s b) = bn"

text \<open>What a reader of block \<open>bn\<close> sees: the cached copy if there is one, else the disk's.\<close>

definition view :: "'a bcache_st_scheme \<Rightarrow> uint \<Rightarrow> bytes" where
  "view s bn =
     (case find (\<lambda>b. b_dev (buf s b) = ROOTDEV \<and> b_blockno (buf s b) = bn \<and> b_valid (buf s b)) [0..<NBUF] of
        Some b \<Rightarrow> b_data (buf s b) | None \<Rightarrow> disk s bn)"

lemma binv_unique:
  "\<lbrakk>binv s; b < NBUF; c < NBUF; b_dev (buf s b) \<noteq> 0; b_dev (buf s b) = b_dev (buf s c);
    b_blockno (buf s b) = b_blockno (buf s c)\<rbrakk> \<Longrightarrow> b = c"
  unfolding binv_def by blast

lemma binvI:
  assumes "lru (buf s) xs"
    and "\<And>b c. \<lbrakk>b < NBUF; c < NBUF; b_dev (buf s b) \<noteq> 0; b_dev (buf s b) = b_dev (buf s c);
           b_blockno (buf s b) = b_blockno (buf s c)\<rbrakk> \<Longrightarrow> b = c"
    and "\<And>b. b < NBUF \<Longrightarrow> b_dev (buf s b) = 0 \<or> b_dev (buf s b) = ROOTDEV"
    and "\<And>b. b < NBUF \<Longrightarrow> b_valid (buf s b) \<Longrightarrow> b_dev (buf s b) = ROOTDEV"
    and "\<And>b. b < NBUF \<Longrightarrow> sl_locked (slock s (Buf_lock b)) \<Longrightarrow> b_refcnt (buf s b) \<noteq> 0"
    and "\<And>b. b < NBUF \<Longrightarrow> b_valid (buf s b) \<Longrightarrow> b_refcnt (buf s b) = 0 \<Longrightarrow>
          b_data (buf s b) = disk s (b_blockno (buf s b))"
  shows "binv s"
  unfolding binv_def using assms by blast

lemma binvD:
  assumes "binv s" and "b < NBUF"
  shows "b_dev (buf s b) = 0 \<or> b_dev (buf s b) = ROOTDEV"
    and "b_valid (buf s b) \<Longrightarrow> b_dev (buf s b) = ROOTDEV"
    and "sl_locked (slock s (Buf_lock b)) \<Longrightarrow> b_refcnt (buf s b) \<noteq> 0"
    and "b_valid (buf s b) \<Longrightarrow> b_refcnt (buf s b) = 0 \<Longrightarrow> b_data (buf s b) = disk s (b_blockno (buf s b))"
  using assms unfolding binv_def by blast+

lemma caches_unique: "binv s \<Longrightarrow> caches s bn b \<Longrightarrow> caches s bn c \<Longrightarrow> b = c"
  unfolding binv_def caches_def ROOTDEV_def by (metis one_neq_zero)

lemma view_valid:
  assumes "binv s" and "caches s bn b" and "b_valid (buf s b)"
  shows "view s bn = b_data (buf s b)"
proof -
  let ?p = "\<lambda>b. b_dev (buf s b) = ROOTDEV \<and> b_blockno (buf s b) = bn \<and> b_valid (buf s b)"
  have "find ?p [0..<NBUF] \<noteq> None" using assms by (auto simp: find_None_iff caches_def)
  then obtain c where c: "find ?p [0..<NBUF] = Some c" by auto
  with find_SomeD [OF c] have "caches s bn c" by (auto simp: caches_def)
  with assms have "c = b" by (blast intro: caches_unique)
  with c show ?thesis by (simp add: view_def)
qed

lemma view_disk:
  assumes "\<And>b. caches s bn b \<Longrightarrow> \<not> b_valid (buf s b)"
  shows "view s bn = disk s bn"
proof -
  have "find (\<lambda>b. b_dev (buf s b) = ROOTDEV \<and> b_blockno (buf s b) = bn \<and> b_valid (buf s b)) [0..<NBUF] = None"
    using assms by (auto simp: find_None_iff caches_def)
  then show ?thesis by (simp add: view_def)
qed

lemma view_cong:
  assumes "\<And>b. b < NBUF \<Longrightarrow> b_dev (buf t b) = b_dev (buf s b) \<and> b_blockno (buf t b) = b_blockno (buf s b) \<and>
                 b_valid (buf t b) = b_valid (buf s b) \<and> b_data (buf t b) = b_data (buf s b)"
    and "disk t = disk s"
  shows "view t = view s"
proof
  fix bn
  let ?p = "\<lambda>s b. b_dev (buf s b) = ROOTDEV \<and> b_blockno (buf s b) = bn \<and> b_valid (buf s b)"
  have f: "find (?p t) [0..<NBUF] = find (?p s) [0..<NBUF]"
    by (rule find_cong) (use assms in auto)
  show "view t bn = view s bn"
  proof (cases "find (?p s) [0..<NBUF]")
    case None
    with f assms(2) show ?thesis by (simp add: view_def)
  next
    case (Some b)
    with find_SomeD [OF Some] f assms(1) show ?thesis by (auto simp: view_def)
  qed
qed

section \<open>Reading a block\<close>

text \<open>
  What a thread needs to read block \<open>bn\<close> without waiting: no spinlock held, a buffer for the block,
  and that buffer not locked by anyone.
\<close>

definition readable :: "'a bcache_st_scheme \<Rightarrow> uint \<Rightarrow> bool" where
  "readable s bn \<longleftrightarrow>
     binv s \<and> held s = {} \<and> cpu_proc s \<noteq> None \<and>
     (\<forall>b<NBUF. b_dev (buf s b) = ROOTDEV \<and> b_blockno (buf s b) = bn \<longrightarrow>
        \<not> sl_locked (slock s (Buf_lock b)) \<and> b_refcnt (buf s b) \<noteq> - 1) \<and>
     ((\<exists>b<NBUF. b_dev (buf s b) = ROOTDEV \<and> b_blockno (buf s b) = bn) \<or> (\<exists>b<NBUF. b_refcnt (buf s b) = 0))"

text \<open>The state after \<open>b\<close> has been obtained for block \<open>bn\<close>.\<close>

definition obtained :: "'a bcache_st_scheme \<Rightarrow> uint \<Rightarrow> nat \<Rightarrow> 'a bcache_st_scheme \<Rightarrow> bool" where
  "obtained s bn b t \<longleftrightarrow>
     (\<exists>x. t = s\<lparr>buf := (buf s)(b := x),
                slock := (slock s)(Buf_lock b := \<lparr>sl_locked = True, sl_pid = p_pid (proc s (the (cpu_proc s)))\<rparr>)\<rparr> \<and>
          b < NBUF \<and> b_dev x = ROOTDEV \<and> b_blockno x = bn \<and> b_valid x \<and> b_data x = view s bn \<and>
          b_next x = b_next (buf s b) \<and> b_prev x = b_prev (buf s b) \<and>
          (caches s bn b \<and> b_refcnt x = b_refcnt (buf s b) + 1 \<or>
           (\<forall>c. \<not> caches s bn c) \<and> b_refcnt (buf s b) = 0 \<and> b_refcnt x = 1))"

lemma bget_cached_ok:
  assumes i: "binv s" and h: "held s = {}" and c: "cpu_proc s = Some p"
    and b: "caches s bn b" and f: "\<not> sl_locked (slock s (Buf_lock b))"
  shows "bget ROOTDEV bn s =
    Ok b (s\<lparr>buf := (buf s)(b := (buf s b)\<lparr>b_refcnt := b_refcnt (buf s b) + 1\<rparr>),
            slock := (slock s)(Buf_lock b := \<lparr>sl_locked = True, sl_pid = p_pid (proc s p)\<rparr>)\<rparr>)"
proof -
  from i obtain xs where l: "lru (buf s) xs" by (auto simp: binv_def)
  let ?q = "\<lambda>b. b_dev (buf s b) = ROOTDEV \<and> b_blockno (buf s b) = bn"
  have "find ?q xs \<noteq> None" using b l by (auto simp: find_None_iff caches_def lru_def)
  then obtain d where d: "find ?q xs = Some d" by auto
  have "caches s bn d" using find_SomeD [OF d] l by (auto simp: caches_def lru_def)
  with i b have "d = b" by (blast intro: caches_unique)
  then have e: "bget_cached (NBUF + 1) (buf s) ROOTDEV bn (b_next (buf s NBUF)) = Some (Some b)"
    using lru_cached [OF l] d by simp
  from h c f e show ?thesis
    by (simp add: bget_def kern_simps del: bget_cached.simps bget_unused.simps One_nat_def)
qed

lemma bget_recycle_ok:
  assumes i: "binv s" and h: "held s = {}" and c: "cpu_proc s = Some p"
    and n: "\<And>b. \<not> caches s bn b" and u: "b0 < NBUF" "b_refcnt (buf s b0) = 0"
  obtains b where "b < NBUF" and "b_refcnt (buf s b) = 0" and
    "\<And>xs. lru (buf s) xs \<Longrightarrow> find (\<lambda>b. b_refcnt (buf s b) = 0) (rev xs) = Some b" and
    "bget ROOTDEV bn s =
      Ok b (s\<lparr>buf := (buf s)(b := (buf s b)\<lparr>b_dev := ROOTDEV, b_blockno := bn, b_valid := False, b_refcnt := 1\<rparr>),
              slock := (slock s)(Buf_lock b := \<lparr>sl_locked = True, sl_pid = p_pid (proc s p)\<rparr>)\<rparr>)"
proof -
  from i obtain xs where l: "lru (buf s) xs" by (auto simp: binv_def)
  have "find (\<lambda>b. b_dev (buf s b) = ROOTDEV \<and> b_blockno (buf s b) = bn) xs = None"
    using n l by (auto simp: find_None_iff caches_def lru_def)
  then have e1: "bget_cached (NBUF + 1) (buf s) ROOTDEV bn (b_next (buf s NBUF)) = Some None"
    using lru_cached [OF l] by simp
  have "find (\<lambda>b. b_refcnt (buf s b) = 0) (rev xs) \<noteq> None"
    using u l by (auto simp: find_None_iff lru_def)
  then obtain b where b: "find (\<lambda>b. b_refcnt (buf s b) = 0) (rev xs) = Some b" by auto
  then have e2: "bget_unused (NBUF + 1) (buf s) (b_prev (buf s NBUF)) = Some (Some b)"
    using lru_unused [OF l] by simp
  have bn: "b < NBUF" "b_refcnt (buf s b) = 0" using find_SomeD [OF b] l by (auto simp: lru_def)
  then have f: "\<not> sl_locked (slock s (Buf_lock b))" using i by (auto simp: binv_def)
  have "bget ROOTDEV bn s =
      Ok b (s\<lparr>buf := (buf s)(b := (buf s b)\<lparr>b_dev := ROOTDEV, b_blockno := bn, b_valid := False, b_refcnt := 1\<rparr>),
              slock := (slock s)(Buf_lock b := \<lparr>sl_locked = True, sl_pid = p_pid (proc s p)\<rparr>)\<rparr>)"
    using h c f e1 e2 by (simp add: bget_def kern_simps del: bget_cached.simps bget_unused.simps One_nat_def)
  moreover have "find (\<lambda>b. b_refcnt (buf s b) = 0) (rev ys) = Some b" if "lru (buf s) ys" for ys
    using lru_unused [OF that] e2 by (simp only: option.inject)
  ultimately show ?thesis using bn by (intro that) blast+
qed

lemma bread_ok:
  assumes r: "readable s bn"
  obtains b t where "bread ROOTDEV bn s = Ok b t" and "obtained s bn b t"
proof -
  from r obtain p where i: "binv s" and h: "held s = {}" and c: "cpu_proc s = Some p"
    by (auto simp: readable_def)
  show ?thesis
  proof (cases "\<exists>b. caches s bn b")
    case True
    then obtain b where b: "caches s bn b" by auto
    then have f: "\<not> sl_locked (slock s (Buf_lock b))" using r by (auto simp: readable_def caches_def)
    note g = bget_cached_ok [OF i h c b f]
    let ?x = "(buf s b)\<lparr>b_refcnt := b_refcnt (buf s b) + 1\<rparr>"
    let ?t = "\<lambda>x. s\<lparr>buf := (buf s)(b := x), slock := (slock s)(Buf_lock b := \<lparr>sl_locked = True, sl_pid = p_pid (proc s p)\<rparr>)\<rparr>"
    show ?thesis
    proof (cases "b_valid (buf s b)")
      case True
      have "bread ROOTDEV bn s = Ok b (?t ?x)"
        by (simp add: bread_def kdo_Ok [where m = "bget ROOTDEV bn", OF g] kern_simps True)
      moreover have "obtained s bn b (?t ?x)" unfolding obtained_def
        by (rule exI [of _ ?x]) (use True b c view_valid [OF i b True] in \<open>simp add: caches_def\<close>)
      ultimately show ?thesis by (rule that)
    next
      case False
      let ?y = "?x\<lparr>b_data := disk s bn, b_valid := True\<rparr>"
      have v: "view s bn = disk s bn"
        by (rule view_disk) (metis b False i caches_unique)
      have "bread ROOTDEV bn s = Ok b (?t ?y)"
        using b by (simp add: bread_def kdo_Ok [where m = "bget ROOTDEV bn", OF g] kern_simps False disk_rw_def caches_def)
      moreover have "obtained s bn b (?t ?y)" unfolding obtained_def
        by (rule exI [of _ ?y]) (use b c v in \<open>simp add: caches_def\<close>)
      ultimately show ?thesis by (rule that)
    qed
  next
    case False
    with r obtain b0 where "b0 < NBUF" "b_refcnt (buf s b0) = 0" by (auto simp: readable_def caches_def)
    with i h c False obtain b where b: "b < NBUF" "b_refcnt (buf s b) = 0" and g:
     "bget ROOTDEV bn s =
      Ok b (s\<lparr>buf := (buf s)(b := (buf s b)\<lparr>b_dev := ROOTDEV, b_blockno := bn, b_valid := False, b_refcnt := 1\<rparr>),
              slock := (slock s)(Buf_lock b := \<lparr>sl_locked = True, sl_pid = p_pid (proc s p)\<rparr>)\<rparr>)"
      by (elim bget_recycle_ok) auto
    let ?y = "(buf s b)\<lparr>b_dev := ROOTDEV, b_blockno := bn, b_refcnt := 1, b_data := disk s bn, b_valid := True\<rparr>"
    let ?t = "s\<lparr>buf := (buf s)(b := ?y), slock := (slock s)(Buf_lock b := \<lparr>sl_locked = True, sl_pid = p_pid (proc s p)\<rparr>)\<rparr>"
    have v: "view s bn = disk s bn" by (rule view_disk) (use False in blast)
    have "bread ROOTDEV bn s = Ok b ?t"
      by (simp add: bread_def kdo_Ok [where m = "bget ROOTDEV bn", OF g] kern_simps disk_rw_def)
    moreover have "obtained s bn b ?t" unfolding obtained_def
      by (rule exI [of _ ?y]) (use False b c v in simp)
    ultimately show ?thesis by (rule that)
  qed
qed

text \<open>Reading keeps the invariant and changes what no reader sees.\<close>

lemma obtained_fields:
  assumes "obtained s bn b t"
  shows "b < NBUF" "caches t bn b" "b_valid (buf t b)" "b_data (buf t b) = view s bn"
    "sl_locked (slock t (Buf_lock b))"
    "sl_pid (slock t (Buf_lock b)) = p_pid (proc s (the (cpu_proc s)))"
    "held t = held s" "cpu_proc t = cpu_proc s" "proc t = proc s" "disk t = disk s" "dwrites t = dwrites s"
    "\<And>c. c \<noteq> b \<Longrightarrow> buf t c = buf s c" "\<And>l. l \<noteq> Buf_lock b \<Longrightarrow> slock t l = slock s l"
  using assms by (auto simp: obtained_def caches_def)

lemma obtained_binv:
  assumes r: "readable s bn" and o: "obtained s bn b t"
  shows "binv t"
proof -
  from o obtain x where t: "t = s\<lparr>buf := (buf s)(b := x),
         slock := (slock s)(Buf_lock b := \<lparr>sl_locked = True, sl_pid = p_pid (proc s (the (cpu_proc s)))\<rparr>)\<rparr>"
    and b: "b < NBUF" and x: "b_dev x = ROOTDEV" "b_blockno x = bn" "b_valid x" "b_data x = view s bn"
    and l: "b_next x = b_next (buf s b)" "b_prev x = b_prev (buf s b)"
    and c: "caches s bn b \<and> b_refcnt x = b_refcnt (buf s b) + 1 \<or>
           (\<forall>c. \<not> caches s bn c) \<and> b_refcnt (buf s b) = 0 \<and> b_refcnt x = 1"
    unfolding obtained_def by blast
  have i: "binv s" using r by (simp add: readable_def)
  have ref: "b_refcnt x \<noteq> 0"
    using c r eq_neg_iff_add_eq_0 [of "b_refcnt (buf s b)" 1] by (auto simp: readable_def caches_def)
  have u: "c = b" if "caches s bn c" for c
    using c that caches_unique [OF i] by blast
  from i obtain xs where xs: "lru (buf s) xs" by (auto simp: binv_def)
  have "lru ((buf s)(b := x)) xs"
    using xs l by (subst lru_links_cong [of _ "buf s"]) auto
  then have 1: "\<exists>xs. lru (buf t) xs" by (auto simp: t)
  have B: "buf t c = (if c = b then x else buf s c)" for c by (simp add: t)
  have e: "e = b" if "e < NBUF" "b_dev (buf t e) = ROOTDEV" "b_blockno (buf t e) = bn" for e
    using u [of e] that by (cases "e = b") (simp_all add: B caches_def)
  have 2: "c = d" if "c < NBUF" "d < NBUF" "b_dev (buf t c) \<noteq> 0" "b_dev (buf t c) = b_dev (buf t d)"
      "b_blockno (buf t c) = b_blockno (buf t d)" for c d
  proof (cases "c = b \<or> d = b")
    case True
    then have "b_dev (buf t c) = ROOTDEV \<and> b_blockno (buf t c) = bn" using that x by (auto simp: B)
    then show ?thesis using that e [of c] e [of d] by simp
  next
    case False
    with that binv_unique [OF i, of c d] show ?thesis by (simp add: B)
  qed
  from 1 obtain ys where ys: "lru (buf t) ys" ..
  show ?thesis
    by (rule binvI [OF ys])
      (use 2 binvD [OF i] x ref in \<open>auto simp: t split: if_splits\<close>)
qed

lemma obtained_view:
  assumes r: "readable s bn" and o: "obtained s bn b t"
  shows "view t = view s"
proof
  fix n
  have i: "binv s" and it: "binv t" using r obtained_binv [OF r o] by (simp_all add: readable_def)
  note f = obtained_fields [OF o]
  show "view t n = view s n"
  proof (cases "n = bn")
    case True
    with view_valid [OF it f(2,3)] f(4) show ?thesis by simp
  next
    case n: False
    then have nb: "caches t n c \<longleftrightarrow> caches s n c \<and> c \<noteq> b" for c
      using o by (auto simp: obtained_def caches_def split: if_splits)
    have v: "view s n = disk s n" if "caches s n b"
    proof (cases "b_valid (buf s b)")
      case True
      from o n that have "b_refcnt (buf s b) = 0" by (auto simp: obtained_def caches_def)
      with True i that view_valid [OF i that True] show ?thesis
        by (auto simp: binv_def caches_def)
    next
      case False
      with i that show ?thesis by (intro view_disk) (metis caches_unique)
    qed
    show ?thesis
    proof (cases "\<exists>c. caches t n c \<and> b_valid (buf t c)")
      case True
      then obtain c where c: "caches t n c" "b_valid (buf t c)" by blast
      with nb have sc: "caches s n c" "c \<noteq> b" by auto
      with c f(12) have "b_valid (buf s c)" by simp
      then show ?thesis using view_valid [OF it c] view_valid [OF i sc(1)] f(12) [OF sc(2)] by simp
    next
      case False
      then have t: "view t n = disk s n" using f(10) view_disk [of t n] by auto
      show ?thesis
      proof (cases "caches s n b")
        case True
        with v t show ?thesis by simp
      next
        case b: False
        have "view s n = disk s n"
        proof (rule view_disk)
          fix c assume c: "caches s n c"
          with b have "c \<noteq> b" by auto
          with c nb have "caches t n c" by simp
          with False f(12) [OF \<open>c \<noteq> b\<close>] show "\<not> b_valid (buf s c)" by auto
        qed
        with t show ?thesis by simp
      qed
    qed
  qed
qed

section \<open>Releasing, writing and pinning\<close>

definition released :: "'a bcache_st_scheme \<Rightarrow> nat \<Rightarrow> 'a bcache_st_scheme \<Rightarrow> bool" where
  "released s b t \<longleftrightarrow>
     (\<exists>B. t = s\<lparr>buf := B, slock := (slock s)(Buf_lock b := \<lparr>sl_locked = False, sl_pid = 0\<rparr>),
                proc := wake (Chan_sleeplock (Buf_lock b)) (cpu_proc s) (proc s)\<rparr> \<and>
          (\<forall>c. b_valid (B c) = b_valid (buf s c) \<and> b_dev (B c) = b_dev (buf s c) \<and>
               b_blockno (B c) = b_blockno (buf s c) \<and> b_data (B c) = b_data (buf s c) \<and>
               b_refcnt (B c) = (if c = b then b_refcnt (buf s c) - 1 else b_refcnt (buf s c))) \<and>
          (\<forall>xs. lru (buf s) xs \<longrightarrow> lru B (if b_refcnt (buf s b) = 1 then move_front b xs else xs)))"

definition holds_buf :: "'a bcache_st_scheme \<Rightarrow> nat \<Rightarrow> bool" where
  "holds_buf s b \<longleftrightarrow> b < NBUF \<and> held s = {} \<and>
     (\<exists>p. cpu_proc s = Some p \<and> sl_locked (slock s (Buf_lock b)) \<and> sl_pid (slock s (Buf_lock b)) = p_pid (proc s p))"

lemma brelse_ok:
  assumes "holds_buf s b"
  obtains t where "brelse b s = Ok () t" and "released s b t"
proof -
  from assms obtain p where b: "b < NBUF" and h: "held s = {}" and c: "cpu_proc s = Some p"
    and l: "sl_locked (slock s (Buf_lock b))" "sl_pid (slock s (Buf_lock b)) = p_pid (proc s p)"
    by (auto simp: holds_buf_def)
  let ?B = "(buf s)(b := (buf s b)\<lparr>b_refcnt := b_refcnt (buf s b) - 1\<rparr>)"
  let ?C = "if b_refcnt (buf s b) = 1 then link_front (unlink_buf ?B b) b else ?B"
  let ?t = "s\<lparr>buf := ?C, slock := (slock s)(Buf_lock b := \<lparr>sl_locked = False, sl_pid = 0\<rparr>),
                proc := wake (Chan_sleeplock (Buf_lock b)) (cpu_proc s) (proc s)\<rparr>"
  have "brelse b s = Ok () ?t"
    using h c l by (simp add: brelse_def kern_simps)
  moreover have "lru ?B xs = lru (buf s) xs" for xs
    by (rule lru_links_cong) auto
  then have "lru ?C (if b_refcnt (buf s b) = 1 then move_front b xs else xs)" if "lru (buf s) xs" for xs
    using that move_front_lru [of ?B xs b] b
    by (cases "b_refcnt (buf s b) = 1") (simp_all only: if_P if_not_P if_False not_False_eq_True)
  then have "released s b ?t" unfolding released_def
    by (intro exI [of _ ?C]) (simp add: surgery_fields)
  ultimately show ?thesis by (rule that)
qed

lemma brelse_not_held:
  assumes "held s = {}" and "cpu_proc s = Some p"
    and "\<not> sl_locked (slock s (Buf_lock b)) \<or> sl_pid (slock s (Buf_lock b)) \<noteq> p_pid (proc s p)"
  shows "brelse b s = Panic ''brelse''"
  using assms by (auto simp: brelse_def kern_simps)

lemma released_view: "released s b t \<Longrightarrow> view t = view s"
  by (rule view_cong) (auto simp: released_def)

text \<open>
  Giving up the last reference keeps the invariant if the buffer has nothing the disk has not.
\<close>

lemma released_binv:
  assumes i: "binv s" and b: "b < NBUF" and r: "released s b t"
    and clean: "b_refcnt (buf s b) = 1 \<Longrightarrow> b_data (buf s b) = disk s (b_blockno (buf s b))"
  shows "binv t"
  using assms unfolding binv_def released_def by (elim exE conjE) (auto; blast)

lemma bwrite_ok:
  assumes "holds_buf s b"
  shows "bwrite b s =
    Ok () (s\<lparr>disk := (disk s)(b_blockno (buf s b) := b_data (buf s b)),
             dwrites := dwrites s @ [(b_blockno (buf s b), b_data (buf s b))]\<rparr>)"
  using assms by (auto simp: holds_buf_def bwrite_def kern_simps disk_rw_def)

lemma bwrite_not_held:
  assumes "held s = {}" and "cpu_proc s = Some p"
    and "\<not> sl_locked (slock s (Buf_lock b)) \<or> sl_pid (slock s (Buf_lock b)) \<noteq> p_pid (proc s p)"
  shows "bwrite b s = Panic ''bwrite''"
  using assms by (auto simp: bwrite_def kern_simps)

lemma bpin_at [kern_simps]:
  "Bcache_lock \<notin> held s \<Longrightarrow> bpin b s = Ok () (upd_buf b (\<lambda>x. x\<lparr>b_refcnt := b_refcnt x + 1\<rparr>) s)"
  by (simp add: bpin_def kern_simps)

lemma kdo_bpin [kern_simps]:
  "Bcache_lock \<notin> held s \<Longrightarrow> kdo (bpin b) f s = f () (upd_buf b (\<lambda>x. x\<lparr>b_refcnt := b_refcnt x + 1\<rparr>) s)"
  by (rule kdo_Ok) (rule bpin_at)

lemma bunpin_at [kern_simps]:
  "Bcache_lock \<notin> held s \<Longrightarrow> bunpin b s = Ok () (upd_buf b (\<lambda>x. x\<lparr>b_refcnt := b_refcnt x - 1\<rparr>) s)"
  by (simp add: bunpin_def kern_simps)

lemma kdo_bunpin [kern_simps]:
  "Bcache_lock \<notin> held s \<Longrightarrow> kdo (bunpin b) f s = f () (upd_buf b (\<lambda>x. x\<lparr>b_refcnt := b_refcnt x - 1\<rparr>) s)"
  by (rule kdo_Ok) (rule bunpin_at)

text \<open>Changing the data or the count of a buffer in use keeps the invariant.\<close>

lemma upd_buf_binv:
  assumes i: "binv s"
    and f: "b_valid (f (buf s b)) = b_valid (buf s b)" "b_dev (f (buf s b)) = b_dev (buf s b)"
      "b_blockno (f (buf s b)) = b_blockno (buf s b)" "b_next (f (buf s b)) = b_next (buf s b)"
      "b_prev (f (buf s b)) = b_prev (buf s b)" "b_refcnt (f (buf s b)) \<noteq> 0"
  shows "binv (upd_buf b f s)"
proof -
  from i obtain xs where "lru (buf s) xs" by (auto simp: binv_def)
  then have "lru ((buf s)(b := f (buf s b))) xs"
    by (subst lru_links_cong [where B = "buf s"]) (simp_all add: f)
  moreover have "buf (upd_buf b f s) c = (if c = b then f (buf s b) else buf s c)" for c by simp
  ultimately show ?thesis
    by (intro binvI [where xs = xs]) (simp_all add: f binvD [OF i] binv_unique [OF i] split: if_splits)
qed

lemma write_view:
  assumes i: "binv s" and b: "caches s bn b" and v: "b_valid (buf s b)" and r: "b_refcnt (buf s b) \<noteq> 0"
  shows "view (upd_buf b (\<lambda>x. x\<lparr>b_data := d\<rparr>) s) = (view s)(bn := d)"
proof
  fix n
  let ?t = "upd_buf b (\<lambda>x. x\<lparr>b_data := d\<rparr>) s"
  have it: "binv ?t" by (rule upd_buf_binv [OF i]) (simp_all add: r)
  have ct: "caches ?t m c = caches s m c" for m c by (auto simp: caches_def)
  show "view ?t n = ((view s)(bn := d)) n"
  proof (cases "n = bn")
    case True
    with view_valid [OF it, of bn b] b v show ?thesis by (simp add: ct)
  next
    case False
    then have "\<not> caches s n b" using b by (simp add: caches_def)
    then have "find (\<lambda>c. b_dev (buf ?t c) = ROOTDEV \<and> b_blockno (buf ?t c) = n \<and> b_valid (buf ?t c)) [0..<NBUF] =
               find (\<lambda>c. b_dev (buf s c) = ROOTDEV \<and> b_blockno (buf s c) = n \<and> b_valid (buf s c)) [0..<NBUF]"
      by (intro find_cong) auto
    moreover have "c \<noteq> b"
      if "find (\<lambda>c. b_dev (buf s c) = ROOTDEV \<and> b_blockno (buf s c) = n \<and> b_valid (buf s c)) [0..<NBUF] = Some c" for c
      using find_SomeD [OF that] \<open>\<not> caches s n b\<close> by (auto simp: caches_def)
    ultimately show ?thesis using False by (simp add: view_def split: option.split)
  qed
qed

section \<open>The cache's contract\<close>

lemma find_rev_last: "find p (rev xs) = (if filter p xs = [] then None else Some (last (filter p xs)))"
  by (induction xs rule: rev_induct) auto

text \<open>
  C5.  Reading a block.  When \<^verbatim>\<open>bread\<close> finds a free or cached buffer it returns it locked, with the
  contents every reader of that block sees: the cached copy if there is one and the disk's otherwise.
  The cache's invariant still holds, and no block's contents changed for any reader, also not those
  of the block whose buffer was recycled.
\<close>

theorem bread_view:
  assumes "readable s bn"
  shows "\<exists>b t. bread ROOTDEV bn s = Ok b t \<and> holds_buf t b \<and> caches t bn b \<and>
    b_data (buf t b) = view s bn \<and> binv t \<and> view t = view s \<and> disk t = disk s"
proof -
  obtain b t where e: "bread ROOTDEV bn s = Ok b t" and o: "obtained s bn b t" using bread_ok [OF assms] .
  note f = obtained_fields [OF o]
  have "held s = {}" "cpu_proc s \<noteq> None" using assms by (auto simp: readable_def)
  then have "holds_buf t b" using f by (auto simp: holds_buf_def)
  with e f obtained_binv [OF assms o] obtained_view [OF assms o] show ?thesis by blast
qed


section \<open>Initialisation\<close>

text \<open>
  The buffers are static data, all zero, when \<^verbatim>\<open>binit\<close> builds the list.
\<close>

definition fresh_buf :: buf where
  "fresh_buf = \<lparr>b_valid = False, b_disk = False, b_dev = 0, b_blockno = 0, b_refcnt = 0,
                b_prev = 0, b_next = 0, b_data = (\<lambda>_. 0)\<rparr>"

lemma binit_loop:
  assumes "n \<le> NBUF"
    and "linked (buf s) NBUF [] NBUF"
  shows "\<exists>B L. for_each [0..<n] binit_one s = Ok () (s\<lparr>buf := B, slock := L\<rparr>) \<and>
     linked B NBUF (rev [0..<n]) NBUF \<and>
     (\<forall>c. b_valid (B c) = b_valid (buf s c) \<and> b_dev (B c) = b_dev (buf s c) \<and> b_refcnt (B c) = b_refcnt (buf s c)) \<and>
     (\<forall>c<n. \<not> sl_locked (L (Buf_lock c)))"
  using assms
proof (induction n)
  case 0
  then show ?case by (intro exI [of _ "buf s"] exI [of _ "slock s"]) (simp add: kern_simps)
next
  case (Suc n)
  then obtain B L where
    e: "for_each [0..<n] binit_one s = Ok () (s\<lparr>buf := B, slock := L\<rparr>)"
    and l: "linked B NBUF (rev [0..<n]) NBUF"
    and f: "\<forall>c. b_valid (B c) = b_valid (buf s c) \<and> b_dev (B c) = b_dev (buf s c) \<and> b_refcnt (B c) = b_refcnt (buf s c)"
    and k: "\<forall>c<n. \<not> sl_locked (L (Buf_lock c))"
    by auto
  let ?L = "L(Buf_lock n := \<lparr>sl_locked = False, sl_pid = 0\<rparr>)"
  have "linked (link_front B n) NBUF (n # rev [0..<n]) NBUF"
    by (rule link_front_linked [OF l]) (use Suc.prems in auto)
  moreover have "for_each [0..<Suc n] binit_one s = Ok () (s\<lparr>buf := link_front B n, slock := ?L\<rparr>)"
    using kdo_Ok [where m = "for_each [0..<n] binit_one" and f = "\<lambda>_. for_each [n] binit_one", OF e]
    by (simp add: for_each_append kern_simps binit_one_def initsleeplock_def)
  ultimately show ?case using f k
    by (intro exI [of _ "link_front B n"] exI [of _ ?L]) (simp add: surgery_fields less_Suc_eq fun_upd_def)
qed

lemma binit_ok:
  assumes "\<And>b. b < NBUF \<Longrightarrow> buf s b = fresh_buf"
  obtains t where "binit s = Ok () t" and "binv t" and "\<And>b. b < NBUF \<Longrightarrow> b_refcnt (buf t b) = 0"
    and "view t = disk s" and "t = s\<lparr>buf := buf t, slock := slock t\<rparr>"
    and "\<And>b. b < NBUF \<Longrightarrow> b_dev (buf t b) = 0" and "lru (buf t) (rev [0..<NBUF])" and "\<And>b. b < NBUF \<Longrightarrow> \<not> sl_locked (slock t (Buf_lock b))"
proof -
  let ?s = "upd_buf NBUF (\<lambda>h. h\<lparr>b_prev := NBUF, b_next := NBUF\<rparr>) s"
  obtain B L where
    e: "for_each [0..<NBUF] binit_one ?s = Ok () (?s\<lparr>buf := B, slock := L\<rparr>)"
    and l: "linked B NBUF (rev [0..<NBUF]) NBUF"
    and f: "\<forall>c. b_valid (B c) = b_valid (buf ?s c) \<and> b_dev (B c) = b_dev (buf ?s c) \<and> b_refcnt (B c) = b_refcnt (buf ?s c)"
    and k: "\<forall>c<NBUF. \<not> sl_locked (L (Buf_lock c))"
    using binit_loop [of NBUF ?s] by auto
  let ?t = "s\<lparr>buf := B, slock := L\<rparr>"
  have fr: "b_valid (B c) = False \<and> b_dev (B c) = 0 \<and> b_refcnt (B c) = 0" if "c < NBUF" for c
    using f assms that by (simp add: fresh_buf_def)
  have lru: "lru B (rev [0..<NBUF])" using l by (auto simp: lru_def)
  then have "\<exists>xs. lru B xs" by blast
  then have "binv ?t" using fr k by (simp add: binv_def)
  moreover have "binit s = Ok () ?t" using e by (simp add: binit_def kern_simps)
  moreover have "view ?t = disk s"
    using fr by (intro ext) (subst view_disk, auto simp: caches_def ROOTDEV_def)
  ultimately show ?thesis using fr lru k by (intro that [of ?t]) auto
qed

text \<open>The cache as \<^verbatim>\<open>binit\<close> leaves it, with a disk of zeros.\<close>

definition ex_bio :: bcache_st where
  "ex_bio = kmem_st.extend ex_kmem \<lparr>buf = (\<lambda>_. fresh_buf), disk = (\<lambda>_ _. 0), dwrites = []\<rparr>"

lemma ex_bio_sel [simp]: "held ex_bio = {}" "cpu_proc ex_bio = Some 0" "buf ex_bio = (\<lambda>_. fresh_buf)"
  by (simp_all add: ex_bio_def kmem_st.defs ex_kmem_def kcore.defs ex_core_def)

lemma ex_bio_ready:
  obtains s where "binit ex_bio = Ok () s" and "readable s 7" and "\<forall>b. \<not> caches s 7 b"
    and "lru (buf s) (rev [0..<NBUF])"
proof -
  obtain s where s: "binit ex_bio = Ok () s" "binv s" "\<And>b. b < NBUF \<Longrightarrow> b_refcnt (buf s b) = 0"
    "s = ex_bio\<lparr>buf := buf s, slock := slock s\<rparr>" "lru (buf s) (rev [0..<NBUF])"
    "\<And>b. b < NBUF \<Longrightarrow> \<not> sl_locked (slock s (Buf_lock b))"
    "\<And>b. b < NBUF \<Longrightarrow> b_dev (buf s b) = 0"
    using binit_ok [of ex_bio] by (metis ex_bio_sel(3))
  have f: "held s = {}" "cpu_proc s = Some 0"
    using arg_cong [OF s(4), of held] arg_cong [OF s(4), of cpu_proc] by simp_all
  have n: "\<forall>b. \<not> caches s 7 b" using s(7) by (auto simp: caches_def params)
  have "readable s 7" using s(2,3,7) f n
    by (auto simp: readable_def params intro: exI [of _ 0])
  with s(1,5) n show ?thesis by (intro that)
qed

theorem bread_view_witness:
  "\<exists>s b t. binit ex_bio = Ok () s \<and> bread ROOTDEV 7 s = Ok b t \<and> holds_buf t b \<and> caches t 7 b \<and>
    b_data (buf t b) = view s 7 \<and> binv t \<and> view t = view s \<and> disk t = disk s"
proof -
  obtain s where "binit ex_bio = Ok () s" "readable s 7" by (rule ex_bio_ready)
  with bread_view [of s 7] show ?thesis by blast
qed


end
