(* ===== verification/Bview.thy ===== *)
theory Bview
  imports Bio
begin

text \<open>
  The buffer cache as one thread uses it: which buffers it has locked, which blocks are pinned, and
  what it reads and writes through them.  The log and the file system are verified on top of these
  lemmas and never look at a buffer's list pointers, count or lock again.
\<close>

section \<open>What a cache operation may change\<close>

text \<open>
  Everything but the buffers, their locks, the disk, and the scheduling state of processes stays.
\<close>

definition bframe :: "'a bcache_st_scheme \<Rightarrow> 'a bcache_st_scheme \<Rightarrow> bool" where
  "bframe s t \<longleftrightarrow>
     (\<exists>B L Q D W. t = s\<lparr>buf := B, slock := L, proc := Q, disk := D, dwrites := W\<rparr> \<and>
        (\<forall>p. Q p = (proc s p)\<lparr>p_state := p_state (Q p)\<rparr>) \<and>
        (\<forall>p. cpu_proc s = Some p \<longrightarrow> Q p = proc s p) \<and>
        (\<forall>i. L (Inode_lock i) = slock s (Inode_lock i)))"

lemma bframe_refl [simp]: "bframe s s"
  unfolding bframe_def
  by (intro exI [of _ "buf s"] exI [of _ "slock s"] exI [of _ "proc s"] exI [of _ "disk s"] exI [of _ "dwrites s"]) simp

lemma bframe_fields:
  assumes "bframe s t"
  shows "held t = held s" "cpu_proc t = cpu_proc s" "initproc t = initproc s" "nextpid t = nextpid s"
    "ticks t = ticks s" "pmem t = pmem s" "freelist t = freelist s" "kend t = kend s"
    "bcache_st.more t = bcache_st.more s" "slock t (Inode_lock i) = slock s (Inode_lock i)"
    "p_pid (proc t p) = p_pid (proc s p)" "proc t p = (proc s p)\<lparr>p_state := p_state (proc t p)\<rparr>"
    "cpu_proc s = Some q \<Longrightarrow> proc t q = proc s q"
proof -
  from assms obtain B L Q D W where t: "t = s\<lparr>buf := B, slock := L, proc := Q, disk := D, dwrites := W\<rparr>"
    and Q: "\<forall>p. Q p = (proc s p)\<lparr>p_state := p_state (Q p)\<rparr>" "\<forall>p. cpu_proc s = Some p \<longrightarrow> Q p = proc s p"
    and L: "\<forall>i. L (Inode_lock i) = slock s (Inode_lock i)"
    unfolding bframe_def by blast
  have "p_pid (Q p) = p_pid (proc s p)" using arg_cong [OF spec [OF Q(1), of p], of p_pid] by simp
  moreover from Q(1) show "proc t p = (proc s p)\<lparr>p_state := p_state (proc t p)\<rparr>" unfolding t by simp
  moreover from Q(2) show "cpu_proc s = Some q \<Longrightarrow> proc t q = proc s q" unfolding t by simp
  ultimately show "held t = held s" "cpu_proc t = cpu_proc s" "initproc t = initproc s" "nextpid t = nextpid s"
    "ticks t = ticks s" "pmem t = pmem s" "freelist t = freelist s" "kend t = kend s"
    "bcache_st.more t = bcache_st.more s" "slock t (Inode_lock i) = slock s (Inode_lock i)"
    "p_pid (proc t p) = p_pid (proc s p)"
    using L unfolding t by simp_all
qed

lemma bframe_eqI:
  assumes "t = s\<lparr>buf := buf t, slock := slock t, proc := proc t, disk := disk t, dwrites := dwrites t\<rparr>"
    and "\<And>p. proc t p = (proc s p)\<lparr>p_state := p_state (proc t p)\<rparr>"
    and "\<And>p. cpu_proc s = Some p \<Longrightarrow> proc t p = proc s p"
    and "\<And>i. slock t (Inode_lock i) = slock s (Inode_lock i)"
  shows "bframe s t"
  unfolding bframe_def using assms by blast

lemma bframe_trans:
  assumes a: "bframe s t" and b: "bframe t u"
  shows "bframe s u"
proof (rule bframe_eqI)
  from a obtain B L Q D W where t: "t = s\<lparr>buf := B, slock := L, proc := Q, disk := D, dwrites := W\<rparr>"
    unfolding bframe_def by blast
  from b obtain B' L' Q' D' W' where "u = t\<lparr>buf := B', slock := L', proc := Q', disk := D', dwrites := W'\<rparr>"
    unfolding bframe_def by blast
  then show "u = s\<lparr>buf := buf u, slock := slock u, proc := proc u, disk := disk u, dwrites := dwrites u\<rparr>"
    by (simp add: t)
  show "proc u p = (proc s p)\<lparr>p_state := p_state (proc u p)\<rparr>" for p
    using bframe_fields(12) [OF a, of p] bframe_fields(12) [OF b, of p]
    by (metis (no_types, lifting) proc.update_convs(1) proc.surjective)
  show "proc u p = proc s p" if "cpu_proc s = Some p" for p
    using that bframe_fields(2,13) [OF a] bframe_fields(13) [OF b] by simp
  show "slock u (Inode_lock i) = slock s (Inode_lock i)" for i
    using bframe_fields(10) [OF a] bframe_fields(10) [OF b] by simp
qed

section \<open>Pinned blocks and held buffers\<close>

text \<open>
  \<open>calm s P H\<close>: no other thread is using the cache; the blocks \<open>P\<close> are pinned, and this thread holds
  the locks of the buffers \<open>H\<close>.  A buffer's count is then known.
\<close>

definition calm :: "'a bcache_st_scheme \<Rightarrow> uint set \<Rightarrow> nat set \<Rightarrow> bool" where
  "calm s P H \<longleftrightarrow>
     binv s \<and> held s = {} \<and> cpu_proc s \<noteq> None \<and> H \<subseteq> {..<NBUF} \<and>
     (\<forall>b<NBUF. sl_locked (slock s (Buf_lock b)) \<longleftrightarrow> b \<in> H) \<and>
     (\<forall>b\<in>H. sl_pid (slock s (Buf_lock b)) = p_pid (proc s (the (cpu_proc s)))) \<and>
     (\<forall>b\<in>H. b_valid (buf s b) \<and> b_dev (buf s b) = ROOTDEV) \<and>
     (\<forall>b<NBUF. b_refcnt (buf s b) =
        (if b_dev (buf s b) = ROOTDEV \<and> b_blockno (buf s b) \<in> P then 1 else 0) + (if b \<in> H then 1 else 0)) \<and>
     (\<forall>bn\<in>P. \<exists>b<NBUF. b_dev (buf s b) = ROOTDEV \<and> b_blockno (buf s b) = bn \<and> b_valid (buf s b))"

lemma calmD:
  assumes "calm s P H"
  shows "binv s" "held s = {}" "cpu_proc s \<noteq> None" "H \<subseteq> {..<NBUF}"
    "\<And>b. b < NBUF \<Longrightarrow> sl_locked (slock s (Buf_lock b)) \<longleftrightarrow> b \<in> H"
    "\<And>b. b \<in> H \<Longrightarrow> sl_pid (slock s (Buf_lock b)) = p_pid (proc s (the (cpu_proc s)))"
    "\<And>b. b \<in> H \<Longrightarrow> b_valid (buf s b)" "\<And>b. b \<in> H \<Longrightarrow> b_dev (buf s b) = ROOTDEV"
    "\<And>b. b < NBUF \<Longrightarrow> b_refcnt (buf s b) =
        (if b_dev (buf s b) = ROOTDEV \<and> b_blockno (buf s b) \<in> P then 1 else 0) + (if b \<in> H then 1 else 0)"
    "\<And>bn. bn \<in> P \<Longrightarrow> \<exists>b<NBUF. b_dev (buf s b) = ROOTDEV \<and> b_blockno (buf s b) = bn \<and> b_valid (buf s b)"
  using assms unfolding calm_def by blast+

lemma calmI:
  assumes "binv s" "held s = {}" "cpu_proc s \<noteq> None" "H \<subseteq> {..<NBUF}"
    "\<And>b. b < NBUF \<Longrightarrow> sl_locked (slock s (Buf_lock b)) \<longleftrightarrow> b \<in> H"
    "\<And>b. b \<in> H \<Longrightarrow> sl_pid (slock s (Buf_lock b)) = p_pid (proc s (the (cpu_proc s)))"
    "\<And>b. b \<in> H \<Longrightarrow> b_valid (buf s b)" "\<And>b. b \<in> H \<Longrightarrow> b_dev (buf s b) = ROOTDEV"
    "\<And>b. b < NBUF \<Longrightarrow> b_refcnt (buf s b) =
        (if b_dev (buf s b) = ROOTDEV \<and> b_blockno (buf s b) \<in> P then 1 else 0) + (if b \<in> H then 1 else 0)"
    "\<And>bn. bn \<in> P \<Longrightarrow> \<exists>b<NBUF. b_dev (buf s b) = ROOTDEV \<and> b_blockno (buf s b) = bn \<and> b_valid (buf s b)"
  shows "calm s P H"
  using assms unfolding calm_def by blast

lemma calm_held_caches: "calm s P H \<Longrightarrow> b \<in> H \<Longrightarrow> caches s (b_blockno (buf s b)) b"
  using calmD(4,8) unfolding caches_def by blast

lemma calm_view:
  assumes "calm s P H" and "b \<in> H"
  shows "view s (b_blockno (buf s b)) = b_data (buf s b)"
  using view_valid [OF calmD(1) [OF assms(1)] calm_held_caches [OF assms] calmD(7) [OF assms]] .

lemma calm_inj:
  assumes "calm s P H" and "b \<in> H" and "c < NBUF" and "b_dev (buf s c) = ROOTDEV"
    and "b_blockno (buf s c) = b_blockno (buf s b)"
  shows "c = b"
  using caches_unique [OF calmD(1) [OF assms(1)] _ calm_held_caches [OF assms(1,2)], of c] assms(3-5)
  by (simp add: caches_def)

lemma calm_holds: "calm s P H \<Longrightarrow> b \<in> H \<Longrightarrow> holds_buf s b"
  using calmD [of s P H] by (auto simp: holds_buf_def)

text \<open>There is an unused buffer as long as fewer than \<^verbatim>\<open>NBUF\<close> are pinned or held.\<close>

lemma calm_unused:
  assumes c: "calm s P H" and fin: "finite P" and n: "card P + card H < NBUF"
  shows "\<exists>b<NBUF. b_refcnt (buf s b) = 0"
proof -
  let ?Q = "{b. b < NBUF \<and> b_dev (buf s b) = ROOTDEV \<and> b_blockno (buf s b) \<in> P}"
  have "inj_on (\<lambda>b. b_blockno (buf s b)) ?Q"
  proof (rule inj_onI)
    fix b d assume "b \<in> ?Q" "d \<in> ?Q" "b_blockno (buf s b) = b_blockno (buf s d)"
    then show "b = d" using binv_unique [OF calmD(1) [OF c], of b d] by (simp add: params)
  qed
  then have "card ?Q \<le> card P"
    by (rule card_inj_on_le) (use fin in auto)
  moreover have "card (?Q \<union> H) \<le> card ?Q + card H" by (rule card_Un_le)
  ultimately have lt: "card (?Q \<union> H) < card {..<NBUF}" using n by simp
  have sub: "?Q \<union> H \<subseteq> {..<NBUF}" using calmD(4) [OF c] by auto
  have "?Q \<union> H \<noteq> {..<NBUF}"
  proof
    assume "?Q \<union> H = {..<NBUF}"
    with lt show False by (simp only: less_irrefl)
  qed
  with sub obtain b where "b < NBUF" "b \<notin> ?Q \<union> H" by blast
  then show ?thesis using calmD(9) [OF c, of b] by auto
qed

section \<open>The operations\<close>

lemma calm_bread:
  assumes c: "calm s P H" and h: "\<And>b. b \<in> H \<Longrightarrow> b_blockno (buf s b) \<noteq> bn"
    and r: "bn \<in> P \<or> finite P \<and> card P + card H < NBUF"
  shows "\<exists>b t. bread ROOTDEV bn s = Ok b t \<and> calm t P (insert b H) \<and> b \<notin> H \<and>
    b_blockno (buf t b) = bn \<and> b_data (buf t b) = view s bn \<and> view t = view s \<and>
    (\<forall>c\<in>H. buf t c = buf s c) \<and> bframe s t \<and> disk t = disk s \<and> dwrites t = dwrites s"
proof -
  note d = calmD [OF c]
  have un: "b \<notin> H" if "b < NBUF" "b_blockno (buf s b) = bn" for b using h that by blast
  have rd: "readable s bn"
    unfolding readable_def
  proof (intro conjI allI impI)
    fix b assume b: "b < NBUF" "b_dev (buf s b) = ROOTDEV \<and> b_blockno (buf s b) = bn"
    then show "\<not> sl_locked (slock s (Buf_lock b))" using un d(5) by blast
    show "b_refcnt (buf s b) \<noteq> - 1" using b un d(9) by simp
  next
    show "(\<exists>b<NBUF. b_dev (buf s b) = ROOTDEV \<and> b_blockno (buf s b) = bn) \<or> (\<exists>b<NBUF. b_refcnt (buf s b) = 0)"
      using r calm_unused [OF c] d(10) by blast
  qed (use d in auto)
  then obtain b t where e: "bread ROOTDEV bn s = Ok b t" and o: "obtained s bn b t"
    by (elim bread_ok)
  note f = obtained_fields [OF o]
  have bH: "b \<notin> H"
  proof
    assume b: "b \<in> H"
    then have "b < NBUF" using d(4) by auto
    then have "b_refcnt (buf s b) \<noteq> 0" using b d(9) [of b] by simp
    with o have "caches s bn b" unfolding obtained_def by auto
    with h b show False by (auto simp: caches_def)
  qed
  have same: "buf t x = buf s x" if "x \<in> H" for x using f(12) [of x] that bH by metis
  have "calm t P (insert b H)"
  proof (rule calmI)
    show "binv t" using obtained_binv [OF rd o] .
    show "b_refcnt (buf t x) = (if b_dev (buf t x) = ROOTDEV \<and> b_blockno (buf t x) \<in> P then 1 else 0) +
            (if x \<in> insert b H then 1 else 0)" if x: "x < NBUF" for x
    proof (cases "x = b")
      case True
      from o consider y where "buf t b = y" "caches s bn b" "b_refcnt y = b_refcnt (buf s b) + 1"
          "b_dev y = ROOTDEV" "b_blockno y = bn"
        | y where "buf t b = y" "\<forall>c. \<not> caches s bn c" "b_refcnt y = 1" "b_dev y = ROOTDEV" "b_blockno y = bn"
        unfolding obtained_def by force
      then show ?thesis
      proof cases
        case 1
        then show ?thesis using True d(9) [of b] bH x by (simp add: caches_def)
      next
        case 2
        then have "bn \<notin> P" using d(10) [of bn] by (auto simp: caches_def)
        with 2 True show ?thesis by simp
      qed
    next
      case False
      then show ?thesis using f(12) d(9) x by simp
    qed
    show "\<exists>x<NBUF. b_dev (buf t x) = ROOTDEV \<and> b_blockno (buf t x) = n \<and> b_valid (buf t x)" if n: "n \<in> P" for n
    proof (cases "n = bn")
      case True
      then show ?thesis using f(2,3) by (auto simp: caches_def)
    next
      case False
      from d(10) [OF n] obtain x where x: "x < NBUF" "b_dev (buf s x) = ROOTDEV" "b_blockno (buf s x) = n"
        "b_valid (buf s x)" by blast
      have "x \<noteq> b"
      proof
        assume "x = b"
        with x n d(9) [of b] have "b_refcnt (buf s b) \<noteq> 0" using bH by simp
        with o have "caches s bn b" unfolding obtained_def by auto
        with \<open>x = b\<close> x False show False by (simp add: caches_def)
      qed
      with x f(12) show ?thesis by (intro exI [of _ x]) simp
    qed
  next
    show "sl_locked (slock t (Buf_lock x)) = (x \<in> insert b H)" if "x < NBUF" for x
      using d(5) that f(5,13) by (cases "x = b") simp_all
    show "sl_pid (slock t (Buf_lock x)) = p_pid (proc t (the (cpu_proc t)))" if "x \<in> insert b H" for x
      using d(6) that f(6,8,9,13) by (cases "x = b") simp_all
    show "b_valid (buf t x)" "b_dev (buf t x) = ROOTDEV" if "x \<in> insert b H" for x
      using d(7,8) that f(2,3) same by (auto simp: caches_def)
  qed (use d f in auto)
  moreover have "bframe s t"
    by (rule bframe_eqI) (use o in \<open>auto simp: obtained_def\<close>)
  ultimately show ?thesis using e bH f obtained_view [OF rd o] same
    by (intro exI [of _ b] exI [of _ t]) (simp add: caches_def)
qed

text \<open>The holder changes the block's contents.\<close>

lemma calm_write:
  assumes c: "calm s P H" and b: "b \<in> H"
  shows "calm (upd_buf b (\<lambda>x. x\<lparr>b_data := d\<rparr>) s) P H"
    and "view (upd_buf b (\<lambda>x. x\<lparr>b_data := d\<rparr>) s) = (view s)(b_blockno (buf s b) := d)"
    and "bframe s (upd_buf b (\<lambda>x. x\<lparr>b_data := d\<rparr>) s)"
proof -
  note f = calmD [OF c]
  have bn: "b < NBUF" using b f(4) by blast
  then have r: "b_refcnt (buf s b) \<noteq> 0" using f(9) [of b] b by simp
  have i: "binv (upd_buf b (\<lambda>x. x\<lparr>b_data := d\<rparr>) s)"
    by (rule upd_buf_binv [OF f(1)]) (simp_all add: r)
  show "calm (upd_buf b (\<lambda>x. x\<lparr>b_data := d\<rparr>) s) P H"
  proof (rule calmI [OF i])
    show "\<exists>x<NBUF. b_dev (buf (upd_buf b (\<lambda>x. x\<lparr>b_data := d\<rparr>) s) x) = ROOTDEV \<and>
        b_blockno (buf (upd_buf b (\<lambda>x. x\<lparr>b_data := d\<rparr>) s) x) = n \<and>
        b_valid (buf (upd_buf b (\<lambda>x. x\<lparr>b_data := d\<rparr>) s) x)" if "n \<in> P" for n
    proof -
      from f(10) [OF that] obtain x where "x < NBUF" "b_dev (buf s x) = ROOTDEV" "b_blockno (buf s x) = n"
        "b_valid (buf s x)" by blast
      then show ?thesis by (intro exI [of _ x]) auto
    qed
    show "b_valid (buf (upd_buf b (\<lambda>x. x\<lparr>b_data := d\<rparr>) s) x)"
      "b_dev (buf (upd_buf b (\<lambda>x. x\<lparr>b_data := d\<rparr>) s) x) = ROOTDEV" if "x \<in> H" for x
      using f(7,8) [OF that] f(7,8) [OF b] by simp_all
  qed (use f in simp_all)
  show "view (upd_buf b (\<lambda>x. x\<lparr>b_data := d\<rparr>) s) = (view s)(b_blockno (buf s b) := d)"
    using write_view [OF f(1) calm_held_caches [OF c b] f(7) [OF b] r] .
  show "bframe s (upd_buf b (\<lambda>x. x\<lparr>b_data := d\<rparr>) s)" by (rule bframe_eqI) simp_all
qed

lemma calm_bwrite:
  assumes c: "calm s P H" and b: "b \<in> H"
  shows "\<exists>t. bwrite b s = Ok () t \<and> calm t P H \<and> view t = view s \<and> bframe s t \<and>
    disk t = (disk s)(b_blockno (buf s b) := b_data (buf s b)) \<and>
    dwrites t = dwrites s @ [(b_blockno (buf s b), b_data (buf s b))] \<and> buf t = buf s"
proof -
  note f = calmD [OF c]
  let ?t = "s\<lparr>disk := (disk s)(b_blockno (buf s b) := b_data (buf s b)),
             dwrites := dwrites s @ [(b_blockno (buf s b), b_data (buf s b))]\<rparr>"
  from f(1) obtain xs where xs: "lru (buf s) xs" by (auto simp: binv_def)
  have dat: "b_data (buf s x) = disk ?t (b_blockno (buf s x))"
    if "x < NBUF" "b_valid (buf s x)" "b_refcnt (buf s x) = 0" for x
  proof (cases "b_blockno (buf s x) = b_blockno (buf s b)")
    case True
    have "x = b" using calm_inj [OF c b that(1) binvD(2) [OF f(1) that(1,2)] True] .
    then show ?thesis by simp
  next
    case False
    then show ?thesis using binvD(4) [OF f(1) that] by simp
  qed
  have i: "binv ?t"
    by (rule binvI [of _ xs]) (use xs binvD [OF f(1)] binv_unique [OF f(1)] dat in simp_all)
  have "calm ?t P H"
    by (rule calmI [OF i]) (use f in simp_all)
  moreover have "view ?t = view s"
  proof
    fix n
    show "view ?t n = view s n"
    proof (cases "n = b_blockno (buf s b)")
      case True
      have "view ?t n = b_data (buf ?t b)"
        by (rule view_valid [OF i]) (use True calm_held_caches [OF c b] f(7) [OF b] in \<open>simp_all add: caches_def\<close>)
      then show ?thesis using calm_view [OF c b] True by simp
    next
      case False
      then show ?thesis by (simp add: view_def split: option.split)
    qed
  qed
  moreover have "bframe s ?t" by (rule bframe_eqI) simp_all
  ultimately show ?thesis using bwrite_ok [OF calm_holds [OF c b]] by (intro exI [of _ ?t]) simp
qed

lemma wake_only_state: "wake c me P p = (P p)\<lparr>p_state := p_state (wake c me P p)\<rparr>"
  by (simp add: wake_def)

lemma calm_brelse:
  assumes c: "calm s P H" and b: "b \<in> H"
    and clean: "b_blockno (buf s b) \<in> P \<or> b_data (buf s b) = disk s (b_blockno (buf s b))"
  shows "\<exists>t. brelse b s = Ok () t \<and> calm t P (H - {b}) \<and> view t = view s \<and> bframe s t \<and>
    disk t = disk s \<and> dwrites t = dwrites s \<and>
    (\<forall>c. b_blockno (buf t c) = b_blockno (buf s c) \<and> b_data (buf t c) = b_data (buf s c))"
proof -
  note f = calmD [OF c]
  have bn: "b < NBUF" using b f(4) by blast
  from brelse_ok [OF calm_holds [OF c b]] obtain t where e: "brelse b s = Ok () t" and r: "released s b t" .
  from r obtain B where t: "t = s\<lparr>buf := B, slock := (slock s)(Buf_lock b := \<lparr>sl_locked = False, sl_pid = 0\<rparr>),
                proc := wake (Chan_sleeplock (Buf_lock b)) (cpu_proc s) (proc s)\<rparr>"
    and B: "\<And>c. b_valid (B c) = b_valid (buf s c)" "\<And>c. b_dev (B c) = b_dev (buf s c)"
      "\<And>c. b_blockno (B c) = b_blockno (buf s c)" "\<And>c. b_data (B c) = b_data (buf s c)"
      "\<And>c. b_refcnt (B c) = (if c = b then b_refcnt (buf s c) - 1 else b_refcnt (buf s c))"
    unfolding released_def by blast
  have i: "binv t"
  proof (rule released_binv [OF f(1) bn r])
    assume "b_refcnt (buf s b) = 1"
    then have "b_blockno (buf s b) \<notin> P" using f(8) [OF b] f(9) [OF bn] b by auto
    with clean show "b_data (buf s b) = disk s (b_blockno (buf s b))" by blast
  qed
  have "calm t P (H - {b})"
  proof (rule calmI [OF i])
    show "b_refcnt (buf t x) = (if b_dev (buf t x) = ROOTDEV \<and> b_blockno (buf t x) \<in> P then 1 else 0) +
            (if x \<in> H - {b} then 1 else 0)" if "x < NBUF" for x
      using f(9) [OF that] b by (cases "x = b") (simp_all add: t B)
    show "\<exists>x<NBUF. b_dev (buf t x) = ROOTDEV \<and> b_blockno (buf t x) = n \<and> b_valid (buf t x)" if "n \<in> P" for n
      using f(10) [OF that] by (simp add: t B)
    show "sl_pid (slock t (Buf_lock x)) = p_pid (proc t (the (cpu_proc t)))" if "x \<in> H - {b}" for x
      using f(6) [of x] that by (simp add: t)
  qed (use f in \<open>auto simp: t B\<close>)
  moreover have "bframe s t"
    by (rule bframe_eqI) (use wake_only_state f(3) in \<open>auto simp: t\<close>)
  ultimately show ?thesis using e released_view [OF r] B by (intro exI [of _ t]) (simp add: t)
qed

lemma calm_pin:
  assumes c: "calm s P H" and b: "b \<in> H" and n: "b_blockno (buf s b) \<notin> P"
  shows "calm (upd_buf b (\<lambda>x. x\<lparr>b_refcnt := b_refcnt x + 1\<rparr>) s) (insert (b_blockno (buf s b)) P) H"
    and "view (upd_buf b (\<lambda>x. x\<lparr>b_refcnt := b_refcnt x + 1\<rparr>) s) = view s"
    and "bframe s (upd_buf b (\<lambda>x. x\<lparr>b_refcnt := b_refcnt x + 1\<rparr>) s)"
proof -
  note f = calmD [OF c]
  let ?t = "upd_buf b (\<lambda>x. x\<lparr>b_refcnt := b_refcnt x + 1\<rparr>) s"
  have bn: "b < NBUF" using b f(4) by blast
  have r: "b_refcnt (buf s b) = 1" using f(8) [OF b] f(9) [OF bn] b n by simp
  have i: "binv ?t" by (rule upd_buf_binv [OF f(1)]) (simp_all add: r)
  have other: "b_blockno (buf s x) \<noteq> b_blockno (buf s b)" if "x < NBUF" "x \<noteq> b" "b_dev (buf s x) = ROOTDEV" for x
    using calm_inj [OF c b that(1,3)] that(2) by blast
  show "calm ?t (insert (b_blockno (buf s b)) P) H"
  proof (rule calmI [OF i])
    show "b_refcnt (buf ?t x) = (if b_dev (buf ?t x) = ROOTDEV \<and> b_blockno (buf ?t x) \<in> insert (b_blockno (buf s b)) P
        then 1 else 0) + (if x \<in> H then 1 else 0)" if "x < NBUF" for x
      using f(9) [OF that] f(8) [OF b] other [OF that] b r by (cases "x = b") auto
    show "\<exists>x<NBUF. b_dev (buf ?t x) = ROOTDEV \<and> b_blockno (buf ?t x) = m \<and> b_valid (buf ?t x)"
      if "m \<in> insert (b_blockno (buf s b)) P" for m
    proof (cases "m = b_blockno (buf s b)")
      case True
      then show ?thesis using bn f(7,8) [OF b] by (intro exI [of _ b]) simp
    next
      case False
      with that f(10) [of m] obtain x where "x < NBUF" "b_dev (buf s x) = ROOTDEV" "b_blockno (buf s x) = m"
        "b_valid (buf s x)" by blast
      then show ?thesis by (intro exI [of _ x]) auto
    qed
    show "b_valid (buf ?t x)" "b_dev (buf ?t x) = ROOTDEV" if "x \<in> H" for x
      using f(7,8) [OF that] f(7,8) [OF b] by simp_all
  qed (use f in simp_all)
  show "view ?t = view s" by (rule view_cong) auto
  show "bframe s ?t" by (rule bframe_eqI) simp_all
qed

lemma calm_unpin:
  assumes c: "calm s P H" and b: "b \<in> H" and n: "b_blockno (buf s b) \<in> P"
  shows "calm (upd_buf b (\<lambda>x. x\<lparr>b_refcnt := b_refcnt x - 1\<rparr>) s) (P - {b_blockno (buf s b)}) H"
    and "view (upd_buf b (\<lambda>x. x\<lparr>b_refcnt := b_refcnt x - 1\<rparr>) s) = view s"
    and "bframe s (upd_buf b (\<lambda>x. x\<lparr>b_refcnt := b_refcnt x - 1\<rparr>) s)"
proof -
  note f = calmD [OF c]
  let ?t = "upd_buf b (\<lambda>x. x\<lparr>b_refcnt := b_refcnt x - 1\<rparr>) s"
  have bn: "b < NBUF" using b f(4) by blast
  have r: "b_refcnt (buf s b) = 2" using f(8) [OF b] f(9) [OF bn] b n by simp
  have i: "binv ?t" by (rule upd_buf_binv [OF f(1)]) (simp_all add: r)
  have other: "b_blockno (buf s x) \<noteq> b_blockno (buf s b)" if "x < NBUF" "x \<noteq> b" "b_dev (buf s x) = ROOTDEV" for x
    using calm_inj [OF c b that(1,3)] that(2) by blast
  show "calm ?t (P - {b_blockno (buf s b)}) H"
  proof (rule calmI [OF i])
    show "b_refcnt (buf ?t x) = (if b_dev (buf ?t x) = ROOTDEV \<and> b_blockno (buf ?t x) \<in> P - {b_blockno (buf s b)}
        then 1 else 0) + (if x \<in> H then 1 else 0)" if "x < NBUF" for x
      using f(9) [OF that] f(8) [OF b] other [OF that] b r by (cases "x = b") auto
    show "\<exists>x<NBUF. b_dev (buf ?t x) = ROOTDEV \<and> b_blockno (buf ?t x) = m \<and> b_valid (buf ?t x)"
      if "m \<in> P - {b_blockno (buf s b)}" for m
    proof -
      from that f(10) [of m] obtain x where "x < NBUF" "b_dev (buf s x) = ROOTDEV" "b_blockno (buf s x) = m"
        "b_valid (buf s x)" by blast
      then show ?thesis by (intro exI [of _ x]) auto
    qed
    show "b_valid (buf ?t x)" "b_dev (buf ?t x) = ROOTDEV" if "x \<in> H" for x
      using f(7,8) [OF that] f(7,8) [OF b] by simp_all
  qed (use f in simp_all)
  show "view ?t = view s" by (rule view_cong) auto
  show "bframe s ?t" by (rule bframe_eqI) simp_all
qed

end
