(* ===== verification/Log.thy ===== *)
theory Log
  imports Bview
begin

text \<open>
  \<^verbatim>\<open>kernel/log.c\<close>: the redo log that makes file-system updates atomic across crashes.  A transaction's
  blocks are pinned in the cache by \<^verbatim>\<open>log_write\<close>; when the last system call of the transaction ends,
  \<^verbatim>\<open>commit\<close> copies them to the log, writes the log header, copies them home and clears the header.
  After a crash \<^verbatim>\<open>initlog\<close> replays what the header says.

  The main result is that a crash after any number of the disk writes of a commit, followed by
  recovery, leaves either all of the transaction's updates on disk or none of them.
\<close>

section \<open>The log\<close>

definition MAXOPBLOCKS :: nat where [params]: "MAXOPBLOCKS = 10"
definition LOGSIZE :: nat where [params]: "LOGSIZE = MAXOPBLOCKS * 3"

record superblock =
  sb_magic :: uint
  sb_size :: uint
  sb_nblocks :: uint
  sb_ninodes :: uint
  sb_nlog :: uint
  sb_logstart :: uint
  sb_inodestart :: uint
  sb_bmapstart :: uint

record logheader =
  lh_n :: int
  lh_block :: "nat \<Rightarrow> uint"

record log =
  log_start :: int
  log_size :: int
  log_outstanding :: int
  log_committing :: bool
  log_dev :: uint
  log_lh :: logheader

record log_st = bcache_st +
  log :: log

abbreviation upd_log :: "(log \<Rightarrow> log) \<Rightarrow> 'a log_st_scheme \<Rightarrow> 'a log_st_scheme" where
  "upd_log f s \<equiv> s\<lparr>log := f (log s)\<rparr>"

abbreviation log_n :: "log \<Rightarrow> int" where
  "log_n l \<equiv> lh_n (log_lh l)"

abbreviation log_block :: "log \<Rightarrow> nat \<Rightarrow> uint" where
  "log_block l \<equiv> lh_block (log_lh l)"

text \<open>
  The data of a buffer is an array of \<^verbatim>\<open>BSIZE\<close> bytes, so that a \<^verbatim>\<open>memmove\<close> of \<^verbatim>\<open>BSIZE\<close> bytes between two
  buffers copies the array.
\<close>

definition copy_block :: "nat \<Rightarrow> nat \<Rightarrow> ('a bcache_st_scheme, unit) kern" where
  "copy_block dst src = modify (\<lambda>s. upd_buf dst (\<lambda>x. x\<lparr>b_data := b_data (buf s src)\<rparr>) s)"

definition install_one :: "int \<Rightarrow> nat \<Rightarrow> ('a log_st_scheme, unit) kern" where
  "install_one recovering tail =
     kdo (gets log) (\<lambda>l.
     kdo (bread (log_dev l) (word_of_int (log_start l + int tail + 1))) (\<lambda>lbuf.
     kdo (bread (log_dev l) (log_block l tail)) (\<lambda>dbuf.
     kdo (copy_block dbuf lbuf) (\<lambda>_.
     kdo (bwrite dbuf) (\<lambda>_.
     kdo (kwhen (recovering = 0) (bunpin dbuf)) (\<lambda>_.
     kdo (brelse lbuf) (\<lambda>_.
     brelse dbuf)))))))"

definition install_trans :: "int \<Rightarrow> ('a log_st_scheme, unit) kern" where
  "install_trans recovering =
     kdo (gets (\<lambda>s. log_n (log s))) (\<lambda>n.
     for_each [0..<nat n] (install_one recovering))"

text \<open>
  The header block: \<^verbatim>\<open>n\<close> and then the block numbers, four bytes each.  A header on disk with more than
  \<^verbatim>\<open>LOGSIZE\<close> entries would overrun the array in memory; the theorems are about headers the log wrote.
\<close>

definition read_head :: "('a log_st_scheme, unit) kern" where
  "read_head =
     kdo (gets log) (\<lambda>l.
     kdo (bread (log_dev l) (word_of_int (log_start l))) (\<lambda>b.
     kdo (gets (\<lambda>s. b_data (buf s b))) (\<lambda>lh.
     kdo (modify (upd_log (\<lambda>l. l\<lparr>log_lh := (log_lh l)\<lparr>lh_n := sint (get32 lh 0)\<rparr>\<rparr>))) (\<lambda>_.
     kdo (for_each [0..<nat (sint (get32 lh 0))] (\<lambda>i.
            modify (upd_log (\<lambda>l. l\<lparr>log_lh := (log_lh l)\<lparr>lh_block := (log_block l)(i := get32 lh (4 + 4 * i))\<rparr>\<rparr>)))) (\<lambda>_.
     brelse b)))))"

definition write_head :: "('a log_st_scheme, unit) kern" where
  "write_head =
     kdo (gets log) (\<lambda>l.
     kdo (bread (log_dev l) (word_of_int (log_start l))) (\<lambda>b.
     kdo (modify (upd_buf b (\<lambda>x. x\<lparr>b_data := put32 (b_data x) 0 (word_of_int (log_n l))\<rparr>))) (\<lambda>_.
     kdo (for_each [0..<nat (log_n l)] (\<lambda>i.
            modify (upd_buf b (\<lambda>x. x\<lparr>b_data := put32 (b_data x) (4 + 4 * i) (log_block l i)\<rparr>)))) (\<lambda>_.
     kdo (bwrite b) (\<lambda>_.
     brelse b)))))"

definition clear_n :: "('a log_st_scheme, unit) kern" where
  "clear_n = modify (upd_log (\<lambda>l. l\<lparr>log_lh := (log_lh l)\<lparr>lh_n := 0\<rparr>\<rparr>))"

definition recover_from_log :: "('a log_st_scheme, unit) kern" where
  "recover_from_log =
     kdo read_head (\<lambda>_.
     kdo (install_trans 1) (\<lambda>_.
     kdo clear_n (\<lambda>_.
     write_head)))"

definition initlog :: "uint \<Rightarrow> superblock \<Rightarrow> ('a log_st_scheme, unit) kern" where
  "initlog dev sb =
     (if 4 * (1 + LOGSIZE) \<ge> BSIZE then panic ''initlog: too big logheader''
      else
        kdo (modify (upd_log (\<lambda>l. l\<lparr>log_start := sint (sb_logstart sb), log_size := sint (sb_nlog sb),
                                    log_dev := dev\<rparr>))) (\<lambda>_.
        recover_from_log))"

text \<open>
  The loop of \<^verbatim>\<open>begin_op\<close>.  A thread that has to wait goes to sleep; woken, it holds the lock again and
  goes round the loop again.
\<close>

definition begin_op_loop :: "('a log_st_scheme, unit) kern" where
  "begin_op_loop =
     kdo (gets log) (\<lambda>l.
       if log_committing l then sleep Chan_log Log_lock
       else if log_n l + (log_outstanding l + 1) * int MAXOPBLOCKS > int LOGSIZE then sleep Chan_log Log_lock
       else
         kdo (modify (upd_log (\<lambda>l. l\<lparr>log_outstanding := log_outstanding l + 1\<rparr>))) (\<lambda>_.
         release Log_lock))"

definition begin_op :: "('a log_st_scheme, unit) kern" where
  "begin_op = kdo (acquire Log_lock) (\<lambda>_. begin_op_loop)"

definition write_log_one :: "nat \<Rightarrow> ('a log_st_scheme, unit) kern" where
  "write_log_one tail =
     kdo (gets log) (\<lambda>l.
     kdo (bread (log_dev l) (word_of_int (log_start l + int tail + 1))) (\<lambda>to.
     kdo (bread (log_dev l) (log_block l tail)) (\<lambda>from.
     kdo (copy_block to from) (\<lambda>_.
     kdo (bwrite to) (\<lambda>_.
     kdo (brelse from) (\<lambda>_.
     brelse to))))))"

definition write_log :: "('a log_st_scheme, unit) kern" where
  "write_log =
     kdo (gets (\<lambda>s. log_n (log s))) (\<lambda>n.
     for_each [0..<nat n] write_log_one)"

definition commit :: "('a log_st_scheme, unit) kern" where
  "commit =
     kdo (gets (\<lambda>s. log_n (log s))) (\<lambda>n.
     kwhen (n > 0)
       (kdo write_log (\<lambda>_.
        kdo write_head (\<lambda>_.
        kdo (install_trans 0) (\<lambda>_.
        kdo clear_n (\<lambda>_.
        write_head))))))"

definition end_op :: "('a log_st_scheme, unit) kern" where
  "end_op =
     kdo (acquire Log_lock) (\<lambda>_.
     kdo (modify (upd_log (\<lambda>l. l\<lparr>log_outstanding := log_outstanding l - 1\<rparr>))) (\<lambda>_.
     kdo (gets log) (\<lambda>l.
       if log_committing l then panic ''log.committing''
       else if log_outstanding l = 0 then
         kdo (modify (upd_log (\<lambda>l. l\<lparr>log_committing := True\<rparr>))) (\<lambda>_.
         kdo (release Log_lock) (\<lambda>_.
         kdo commit (\<lambda>_.
         kdo (acquire Log_lock) (\<lambda>_.
         kdo (modify (upd_log (\<lambda>l. l\<lparr>log_committing := False\<rparr>))) (\<lambda>_.
         kdo (wakeup Chan_log) (\<lambda>_.
         release Log_lock))))))
       else
         kdo (wakeup Chan_log) (\<lambda>_.
         release Log_lock))))"

text \<open>The position of a block in the header, or the first free one.\<close>

definition log_index :: "log \<Rightarrow> uint \<Rightarrow> nat" where
  "log_index l bn = (case find (\<lambda>i. log_block l i = bn) [0..<nat (log_n l)] of Some i \<Rightarrow> i | None \<Rightarrow> nat (log_n l))"

definition log_write :: "nat \<Rightarrow> ('a log_st_scheme, unit) kern" where
  "log_write b =
     kdo (acquire Log_lock) (\<lambda>_.
     kdo (gets log) (\<lambda>l.
       if log_n l \<ge> int LOGSIZE \<or> log_n l \<ge> log_size l - 1 then panic ''too big a transaction''
       else if log_outstanding l < 1 then panic ''log_write outside of trans''
       else
         kdo (gets (\<lambda>s. b_blockno (buf s b))) (\<lambda>bn.
         kdo (gets (\<lambda>s. log_index (log s) bn)) (\<lambda>i.
         kdo (modify (upd_log (\<lambda>l. l\<lparr>log_lh := (log_lh l)\<lparr>lh_block := (log_block l)(i := bn)\<rparr>\<rparr>))) (\<lambda>_.
         kdo (kwhen (int i = log_n l)
                (kdo (bpin b) (\<lambda>_.
                 modify (upd_log (\<lambda>l. l\<lparr>log_lh := (log_lh l)\<lparr>lh_n := log_n l + 1\<rparr>\<rparr>))))) (\<lambda>_.
         release Log_lock))))))"

section \<open>The header block\<close>

definition hdr_n :: "bytes \<Rightarrow> int" where
  "hdr_n d = sint (get32 d 0)"

definition hdr_block :: "bytes \<Rightarrow> nat \<Rightarrow> uint" where
  "hdr_block d i = get32 d (4 + 4 * i)"

definition hdr_put :: "bytes \<Rightarrow> int \<Rightarrow> (nat \<Rightarrow> uint) \<Rightarrow> bytes" where
  "hdr_put d n blk = fold (\<lambda>i d. put32 d (4 + 4 * i) (blk i)) [0..<nat n] (put32 d 0 (word_of_int n))"

lemma hdr_n_put:
  assumes "0 \<le> n" and "n < 2 ^ 31"
  shows "hdr_n (hdr_put d n blk) = n"
proof -
  have "get32 (hdr_put d n blk) 0 = get32 (put32 d 0 (word_of_int n)) 0"
    unfolding hdr_put_def by (rule le32.rd_writes_apart) (simp add: apart_def)
  then show ?thesis using assms
    by (simp add: hdr_n_def get32_put32 sint_sbintrunc' signed_take_bit_int_eq_self)
qed

lemma hdr_block_put:
  assumes "i < nat n"
  shows "hdr_block (hdr_put d n blk) i = blk i"
  unfolding hdr_put_def hdr_block_def
  by (rule le32.rd_writes [where at = "\<lambda>i. 4 + 4 * i"]) (use assms in \<open>auto simp: apart_def\<close>)

section \<open>Writes to the disk\<close>

definition apply_writes :: "(uint \<times> bytes) list \<Rightarrow> (uint \<Rightarrow> bytes) \<Rightarrow> uint \<Rightarrow> bytes" where
  "apply_writes W D = fold (\<lambda>(bn, d) D. D(bn := d)) W D"

lemma apply_writes_simps [simp]:
  "apply_writes [] D = D" "apply_writes ((bn, d) # W) D = apply_writes W (D(bn := d))"
  "apply_writes (V @ W) D = apply_writes W (apply_writes V D)"
  by (simp_all add: apply_writes_def)

lemma apply_writes_other: "bn \<notin> fst ` set W \<Longrightarrow> apply_writes W D bn = D bn"
  by (induction W arbitrary: D) auto

lemma apply_writes_map:
  assumes "i < n" and "inj_on f {..<n}"
  shows "apply_writes (map (\<lambda>i. (f i, g i)) [0..<n]) D (f i) = g i"
  using assms
proof (induction n)
  case 0
  then show ?case by simp
next
  case (Suc n)
  have "inj_on f {..<n}" using Suc.prems(2) by (rule inj_on_subset) auto
  then have "apply_writes (map (\<lambda>i. (f i, g i)) [0..<n]) D (f i) = g i" if "i \<noteq> n"
    using Suc.IH that Suc.prems(1) by simp
  moreover have "f i \<noteq> f n" if "i \<noteq> n" using inj_onD [OF Suc.prems(2), of i n] Suc.prems(1) that by auto
  ultimately show ?case by (cases "i = n") simp_all
qed

section \<open>One thread, one block at a time\<close>

lemma bframe_log: "bframe s t \<Longrightarrow> log t = log (s :: 'a log_st_scheme)"
  unfolding bframe_def by auto

lemma calm_more: "calm (upd_log f s) P H = calm s P H"
  unfolding calm_def binv_def by simp

lemma view_more: "view (upd_log f s) = view s"
  by (rule view_cong) auto

lemma view_log [simp]: "view (s\<lparr>log := l\<rparr>) = view s"
  by (rule view_cong) auto

lemma calm_log [simp]: "calm (s\<lparr>log := l\<rparr>) P H = calm s P H"
  unfolding calm_def binv_def by simp

text \<open>A block neither pinned nor held is on disk as any reader sees it.\<close>

lemma calm_clean:
  assumes c: "calm s P H" and n: "bn \<notin> P" and h: "\<And>b. b \<in> H \<Longrightarrow> b_blockno (buf s b) \<noteq> bn"
  shows "view s bn = disk s bn"
proof (cases "\<exists>b. caches s bn b \<and> b_valid (buf s b)")
  case True
  then obtain b where b: "caches s bn b" "b_valid (buf s b)" by blast
  then have l: "b < NBUF" "b_blockno (buf s b) = bn" by (simp_all add: caches_def)
  then have "b \<notin> H" using h by blast
  then have "b_refcnt (buf s b) = 0" using calmD(9) [OF c l(1)] n l by simp
  then show ?thesis using view_valid [OF calmD(1) [OF c] b] binvD(4) [OF calmD(1) [OF c] l(1) b(2)] l by simp
next
  case False
  then show ?thesis by (intro view_disk) blast
qed

lemma write_log_one_ok:
  assumes c: "calm s P {}" and fin: "finite P" and n: "card P < NBUF" and d: "log_dev (log s) = ROOTDEV"
    and dst: "dst = word_of_int (log_start (log s) + int i + 1)" "dst \<notin> P" and src: "log_block (log s) i \<in> P"
  shows "\<exists>t. write_log_one i s = Ok () t \<and> calm t P {} \<and> bframe s t \<and>
    view t = (view s)(dst := view s (log_block (log s) i)) \<and>
    dwrites t = dwrites s @ [(dst, view s (log_block (log s) i))] \<and>
    disk t = (disk s)(dst := view s (log_block (log s) i))"
proof -
  let ?src = "log_block (log s) i"
  have r1: "dst \<in> P \<or> finite P \<and> card P + card {} < NBUF" using fin n by simp
  obtain b1 s1 where 1: "bread ROOTDEV dst s = Ok b1 s1" "calm s1 P {b1}" "b_blockno (buf s1 b1) = dst"
    "view s1 = view s" "bframe s s1" "disk s1 = disk s" "dwrites s1 = dwrites s"
    using calm_bread [OF c _ r1] by auto
  have h2: "b_blockno (buf s1 b) \<noteq> ?src" if "b \<in> {b1}" for b using that 1(3) dst(2) src by auto
  obtain b2 s2 where 2: "bread ROOTDEV ?src s1 = Ok b2 s2" "calm s2 P {b2, b1}" "b2 \<notin> {b1}"
    "b_blockno (buf s2 b2) = ?src" "b_data (buf s2 b2) = view s1 ?src" "view s2 = view s1"
    "\<forall>c\<in>{b1}. buf s2 c = buf s1 c" "bframe s1 s2" "disk s2 = disk s1" "dwrites s2 = dwrites s1"
    using calm_bread [OF 1(2) h2] src by blast
  define s3 where "s3 = upd_buf b1 (\<lambda>x. x\<lparr>b_data := b_data (buf s2 b2)\<rparr>) s2"
  have 3: "calm s3 P {b2, b1}" "view s3 = (view s2)(dst := view s ?src)" "bframe s2 s3"
    using calm_write [OF 2(2), of b1 "b_data (buf s2 b2)"] 1 2 by (simp_all add: s3_def)
  have f3: "b_blockno (buf s3 b1) = dst" "b_data (buf s3 b1) = view s ?src" "b_blockno (buf s3 b2) = ?src"
    "disk s3 = disk s2" "dwrites s3 = dwrites s2"
    using 1 2 by (simp_all add: s3_def)
  obtain s4 where 4: "bwrite b1 s3 = Ok () s4" "calm s4 P {b2, b1}" "view s4 = view s3" "bframe s3 s4"
    "disk s4 = (disk s3)(b_blockno (buf s3 b1) := b_data (buf s3 b1))"
    "dwrites s4 = dwrites s3 @ [(b_blockno (buf s3 b1), b_data (buf s3 b1))]" "buf s4 = buf s3"
    using calm_bwrite [OF 3(1), of b1] by blast
  obtain s5 where 5: "brelse b2 s4 = Ok () s5" "calm s5 P ({b2, b1} - {b2})" "view s5 = view s4" "bframe s4 s5"
    "disk s5 = disk s4" "dwrites s5 = dwrites s4"
    "\<forall>c. b_blockno (buf s5 c) = b_blockno (buf s4 c) \<and> b_data (buf s5 c) = b_data (buf s4 c)"
    using calm_brelse [OF 4(2), of b2] 4(7) f3(3) src by auto
  have h5: "{b2, b1} - {b2} = {b1}" using 2(3) by auto
  obtain s6 where 6: "brelse b1 s5 = Ok () s6" "calm s6 P ({b1} - {b1})" "view s6 = view s5" "bframe s5 s6"
    "disk s6 = disk s5" "dwrites s6 = dwrites s5"
    using calm_brelse [OF 5(2) [unfolded h5], of b1] 5 4 f3 by auto
  have "write_log_one i s = Ok () s6"
    by (simp add: write_log_one_def kern_simps d dst(1) [symmetric] copy_block_def kdo_Ok [where m = "bread ROOTDEV _", OF 1(1)]
        kdo_Ok [where m = "bread ROOTDEV _", OF 2(1)] s3_def [symmetric] kdo_Ok [where m = "bwrite _", OF 4(1)]
        kdo_Ok [where m = "brelse _", OF 5(1)] 6(1) del: of_int_add)
  moreover have "bframe s s6"
    using 1(5) 2(8) 3(3) 4(4) 5(4) 6(4) by (blast intro: bframe_trans)
  ultimately show ?thesis using 6 5 4 3 f3 2 1 by simp
qed

lemma for_each_put32:
  "for_each is (\<lambda>i. modify (upd_buf b (\<lambda>x. x\<lparr>b_data := put32 (b_data x) (at i) (v i)\<rparr>))) s =
   Ok () (upd_buf b (\<lambda>x. x\<lparr>b_data := fold (\<lambda>i d. put32 d (at i) (v i)) is (b_data x)\<rparr>) s)"
proof (induction "is" arbitrary: s)
  case Nil
  then show ?case by (simp add: kern_simps)
next
  case (Cons i "is")
  show ?case unfolding for_each.simps kdo_modify Cons.IH by (simp add: fun_upd_def cong: if_cong)
qed

lemma for_each_lh_block:
  "for_each is (\<lambda>i. modify (upd_log (\<lambda>l. l\<lparr>log_lh := (log_lh l)\<lparr>lh_block := (log_block l)(i := v i)\<rparr>\<rparr>))) s =
   Ok () (upd_log (\<lambda>l. l\<lparr>log_lh := (log_lh l)\<lparr>lh_block := (\<lambda>i. if i \<in> set is then v i else log_block l i)\<rparr>\<rparr>) s)"
proof (induction "is" arbitrary: s)
  case Nil
  then show ?case by (simp add: kern_simps)
next
  case (Cons i "is")
  have "(\<lambda>j. if j \<in> set is then v j else if j = i then v i else log_block (log s) j) =
        (\<lambda>j. if j = i \<or> j \<in> set is then v j else log_block (log s) j)" by auto
  then show ?case unfolding for_each.simps kdo_modify Cons.IH by (simp add: fun_upd_def cong: if_cong)
qed

lemma write_head_ok:
  assumes c: "calm s P {}" and fin: "finite P" and n: "card P < NBUF" and d: "log_dev (log s) = ROOTDEV"
    and h: "h = word_of_int (log_start (log s))" "h \<notin> P"
  shows "\<exists>t. write_head s = Ok () t \<and> calm t P {} \<and> bframe s t \<and>
    view t = (view s)(h := hdr_put (view s h) (log_n (log s)) (log_block (log s))) \<and>
    dwrites t = dwrites s @ [(h, hdr_put (view s h) (log_n (log s)) (log_block (log s)))] \<and>
    disk t = (disk s)(h := hdr_put (view s h) (log_n (log s)) (log_block (log s)))"
proof -
  let ?d = "hdr_put (view s h) (log_n (log s)) (log_block (log s))"
  have r1: "h \<in> P \<or> finite P \<and> card P + card {} < NBUF" using fin n by simp
  obtain b s1 where 1: "bread ROOTDEV h s = Ok b s1" "calm s1 P {b}" "b_blockno (buf s1 b) = h"
    "b_data (buf s1 b) = view s h" "view s1 = view s" "bframe s s1" "disk s1 = disk s" "dwrites s1 = dwrites s"
    using calm_bread [OF c _ r1] by auto
  define s2 where "s2 = upd_buf b (\<lambda>x. x\<lparr>b_data := ?d\<rparr>) s1"
  have 2: "calm s2 P {b}" "view s2 = (view s1)(h := ?d)" "bframe s1 s2"
    using calm_write [OF 1(2), of b ?d] 1 by (simp_all add: s2_def)
  have f2: "b_blockno (buf s2 b) = h" "b_data (buf s2 b) = ?d" "disk s2 = disk s1" "dwrites s2 = dwrites s1"
    using 1 by (simp_all add: s2_def)
  obtain s3 where 3: "bwrite b s2 = Ok () s3" "calm s3 P {b}" "view s3 = view s2" "bframe s2 s3"
    "disk s3 = (disk s2)(b_blockno (buf s2 b) := b_data (buf s2 b))"
    "dwrites s3 = dwrites s2 @ [(b_blockno (buf s2 b), b_data (buf s2 b))]" "buf s3 = buf s2"
    using calm_bwrite [OF 2(1), of b] by blast
  obtain s4 where 4: "brelse b s3 = Ok () s4" "calm s4 P ({b} - {b})" "view s4 = view s3" "bframe s3 s4"
    "disk s4 = disk s3" "dwrites s4 = dwrites s3"
    using calm_brelse [OF 3(2), of b] 3 f2 by auto
  have "kdo (modify (upd_buf b (\<lambda>x. x\<lparr>b_data := put32 (b_data x) 0 (word_of_int (log_n (log s)))\<rparr>))) (\<lambda>_.
        for_each [0..<nat (log_n (log s))] (\<lambda>i.
            modify (upd_buf b (\<lambda>x. x\<lparr>b_data := put32 (b_data x) (4 + 4 * i) (log_block (log s) i)\<rparr>)))) s1 = Ok () s2"
    unfolding kdo_modify for_each_put32 s2_def hdr_put_def 1(4) [symmetric] by simp
  then have "write_head s = Ok () s4"
    by (simp add: write_head_def kern_simps d h(1) [symmetric] kdo_Ok [where m = "bread ROOTDEV _", OF 1(1)]
        for_each_put32 kdo_Ok [where m = "for_each _ _", OF for_each_put32] kdo_Ok [where m = "bwrite _", OF 3(1)] 4(1))
  moreover have "bframe s s4"
    using 1(6) 2(3) 3(4) 4(4) by (blast intro: bframe_trans)
  ultimately show ?thesis using 4 3 2 f2 1 by simp
qed

lemma install_one_ok:
  assumes c: "calm s P {}" and fin: "finite P" and n: "card P < NBUF" and d: "log_dev (log s) = ROOTDEV"
    and src: "src = word_of_int (log_start (log s) + int i + 1)" "src \<notin> P" "src \<noteq> log_block (log s) i"
    and dst: "if rec = 0 then log_block (log s) i \<in> P else card P + 1 < NBUF"
  shows "\<exists>t. install_one rec i s = Ok () t \<and>
    calm t (if rec = 0 then P - {log_block (log s) i} else P) {} \<and> bframe s t \<and>
    view t = (view s)(log_block (log s) i := view s src) \<and>
    dwrites t = dwrites s @ [(log_block (log s) i, view s src)] \<and>
    disk t = (disk s)(log_block (log s) i := view s src)"
proof -
  let ?dst = "log_block (log s) i"
  have r1: "src \<in> P \<or> finite P \<and> card P + card {} < NBUF" using fin n by simp
  obtain b1 s1 where 1: "bread ROOTDEV src s = Ok b1 s1" "calm s1 P {b1}" "b_blockno (buf s1 b1) = src"
    "b_data (buf s1 b1) = view s src" "view s1 = view s" "bframe s s1" "disk s1 = disk s" "dwrites s1 = dwrites s"
    using calm_bread [OF c _ r1] by auto
  have h2: "b_blockno (buf s1 b) \<noteq> ?dst" if "b \<in> {b1}" for b using that 1(3) src(3) by auto
  have r2: "?dst \<in> P \<or> finite P \<and> card P + card {b1} < NBUF" using dst fin by (auto split: if_splits)
  obtain b2 s2 where 2: "bread ROOTDEV ?dst s1 = Ok b2 s2" "calm s2 P {b2, b1}" "b2 \<notin> {b1}"
    "b_blockno (buf s2 b2) = ?dst" "view s2 = view s1"
    "\<forall>c\<in>{b1}. buf s2 c = buf s1 c" "bframe s1 s2" "disk s2 = disk s1" "dwrites s2 = dwrites s1"
    using calm_bread [OF 1(2) h2 r2] by blast
  define s3 where "s3 = upd_buf b2 (\<lambda>x. x\<lparr>b_data := b_data (buf s2 b1)\<rparr>) s2"
  have 3: "calm s3 P {b2, b1}" "view s3 = (view s2)(?dst := view s src)" "bframe s2 s3"
    using calm_write [OF 2(2), of b2 "b_data (buf s2 b1)"] 1 2 by (simp_all add: s3_def)
  have f3: "b_blockno (buf s3 b2) = ?dst" "b_data (buf s3 b2) = view s src" "b_blockno (buf s3 b1) = src"
    "b_data (buf s3 b1) = view s src" "disk s3 = disk s2" "dwrites s3 = dwrites s2"
    using 1 2 by (simp_all add: s3_def)
  obtain s4 where 4: "bwrite b2 s3 = Ok () s4" "calm s4 P {b2, b1}" "view s4 = view s3" "bframe s3 s4"
    "disk s4 = (disk s3)(b_blockno (buf s3 b2) := b_data (buf s3 b2))"
    "dwrites s4 = dwrites s3 @ [(b_blockno (buf s3 b2), b_data (buf s3 b2))]" "buf s4 = buf s3"
    using calm_bwrite [OF 3(1), of b2] by blast
  define Q where "Q = (if rec = 0 then P - {?dst} else P)"
  define s5 where "s5 = (if rec = 0 then upd_buf b2 (\<lambda>x. x\<lparr>b_refcnt := b_refcnt x - 1\<rparr>) s4 else s4)"
  have 5: "calm s5 Q {b2, b1}" "view s5 = view s4" "bframe s4 s5"
    using calm_unpin [OF 4(2), of b2] 4(2) dst f3(1) 4(7) by (auto simp: s5_def Q_def split: if_splits)
  have f5: "b_blockno (buf s5 b2) = ?dst" "b_data (buf s5 b2) = view s src" "b_blockno (buf s5 b1) = src"
    "b_data (buf s5 b1) = view s src" "disk s5 = (disk s2)(?dst := view s src)"
    "dwrites s5 = dwrites s2 @ [(?dst, view s src)]"
    using f3 4 2(3) by (simp_all add: s5_def)
  have cl: "view s src = disk s src" by (rule calm_clean [OF c src(2)]) simp
  have 6: "kdo (kwhen (rec = 0) (bunpin b2)) f s4 = f () s5" for f :: "unit \<Rightarrow> ('a log_st_scheme, unit) kern"
    using calmD(2) [OF 4(2)] by (simp add: s5_def kern_simps)
  obtain s6 where 7: "brelse b1 s5 = Ok () s6" "calm s6 Q ({b2, b1} - {b1})" "view s6 = view s5" "bframe s5 s6"
    "disk s6 = disk s5" "dwrites s6 = dwrites s5"
    "\<forall>c. b_blockno (buf s6 c) = b_blockno (buf s5 c) \<and> b_data (buf s6 c) = b_data (buf s5 c)"
    using calm_brelse [OF 5(1), of b1] f5 cl src(3) 2(8) 1(7) by auto
  have h7: "{b2, b1} - {b1} = {b2}" using 2(3) by auto
  obtain s7 where 8: "brelse b2 s6 = Ok () s7" "calm s7 Q ({b2} - {b2})" "view s7 = view s6" "bframe s6 s7"
    "disk s7 = disk s6" "dwrites s7 = dwrites s6"
    using calm_brelse [OF 7(2) [unfolded h7], of b2] 7 f5 by auto
  have "install_one rec i s = Ok () s7"
    by (simp add: install_one_def kern_simps d src(1) [symmetric] copy_block_def kdo_Ok [where m = "bread ROOTDEV _", OF 1(1)]
        kdo_Ok [where m = "bread ROOTDEV _", OF 2(1)] s3_def [symmetric] kdo_Ok [where m = "bwrite _", OF 4(1)]
        6 kdo_Ok [where m = "brelse _", OF 7(1)] 8(1) del: of_int_add kdo_kwhen)
  moreover have "bframe s s7"
    using 1(6) 2(7) 3(3) 4(4) 5(3) 7(4) 8(4) by (blast intro: bframe_trans)
  ultimately show ?thesis using 8 7 5 f5 4 3 f3 2 1 by (simp add: Q_def)
qed

section \<open>The loops\<close>

text \<open>The disk block of the header and of the \<open>i\<close>-th logged block.\<close>

definition log_hd :: "log \<Rightarrow> uint" where
  "log_hd l = word_of_int (log_start l)"

definition log_blk :: "log \<Rightarrow> nat \<Rightarrow> uint" where
  "log_blk l i = word_of_int (log_start l + int i + 1)"

text \<open>How many blocks the log has room for, in memory and on disk.\<close>

definition log_cap :: "log \<Rightarrow> nat" where
  "log_cap l = min LOGSIZE (nat (log_size l - 1))"

lemma log_cap_le: "k \<le> log_cap l \<Longrightarrow> k \<le> LOGSIZE" "i < log_cap l \<Longrightarrow> i < LOGSIZE"
  by (simp_all add: log_cap_def)

definition in_log :: "log \<Rightarrow> uint \<Rightarrow> bool" where
  "in_log l bn \<longleftrightarrow> bn = log_hd l \<or> (\<exists>i<log_cap l. bn = log_blk l i)"

definition log_layout :: "log \<Rightarrow> bool" where
  "log_layout l \<longleftrightarrow> log_dev l = ROOTDEV \<and> 0 \<le> log_start l \<and> log_start l + int LOGSIZE < 2 ^ 31"

lemma word_of_int_inj32:
  assumes "(word_of_int a :: uint) = word_of_int b" and "0 \<le> a" "a < 2 ^ 32" "0 \<le> b" "b < 2 ^ 32"
  shows "a = b"
  using assms by (simp add: word_of_int_eq_iff take_bit_int_eq_self)

lemma log_blk_inj: "log_layout l \<Longrightarrow> i < log_cap l \<Longrightarrow> j < log_cap l \<Longrightarrow> log_blk l i = log_blk l j \<Longrightarrow> i = j"
  unfolding log_blk_def log_layout_def by (drule word_of_int_inj32) (auto dest!: log_cap_le(2))

lemma log_blk_hd: "log_layout l \<Longrightarrow> i < log_cap l \<Longrightarrow> log_blk l i \<noteq> log_hd l"
  unfolding log_blk_def log_hd_def log_layout_def
  using word_of_int_inj32 [of "log_start l + int i + 1" "log_start l"] by (auto dest!: log_cap_le(2) simp del: of_int_add)

lemma in_log_simps [simp]: "in_log l (log_hd l)" "i < log_cap l \<Longrightarrow> in_log l (log_blk l i)"
  by (auto simp: in_log_def)

lemma not_in_logI:
  assumes l: "log_layout l" and b: "uint bn < log_start l \<or> log_start l + int (log_cap l) < uint bn"
  shows "\<not> in_log l bn"
proof
  assume "in_log l bn"
  then have "\<exists>i. 0 \<le> i \<and> i \<le> int (log_cap l) \<and> bn = word_of_int (log_start l + i)"
  proof (unfold in_log_def, elim disjE exE conjE)
    assume "bn = log_hd l"
    then show ?thesis by (intro exI [of _ 0]) (simp add: log_hd_def)
  next
    fix i assume "i < log_cap l" "bn = log_blk l i"
    then show ?thesis by (intro exI [of _ "int i + 1"]) (simp add: log_blk_def add.assoc)
  qed
  then obtain i where i: "0 \<le> i" "i \<le> int (log_cap l)" "bn = word_of_int (log_start l + i)" by blast
  then have "uint bn = log_start l + i"
    using l log_cap_le(1) [OF order_refl, of l] by (simp add: log_layout_def uint_word_of_int_eq take_bit_int_eq_self del: of_int_add)
  then show False using b i by linarith
qed

text \<open>The writes of \<^verbatim>\<open>write_log\<close> and of \<^verbatim>\<open>install_trans\<close>, when readers see \<open>V\<close> before them.\<close>

definition log_writes :: "log \<Rightarrow> (uint \<Rightarrow> bytes) \<Rightarrow> nat \<Rightarrow> (uint \<times> bytes) list" where
  "log_writes l V k = map (\<lambda>i. (log_blk l i, V (log_block l i))) [0..<k]"

definition home_writes :: "log \<Rightarrow> (uint \<Rightarrow> bytes) \<Rightarrow> nat \<Rightarrow> (uint \<times> bytes) list" where
  "home_writes l V k = map (\<lambda>i. (log_block l i, V (log_blk l i))) [0..<k]"

lemma log_writes_Suc: "log_writes l V (Suc k) = log_writes l V k @ [(log_blk l k, V (log_block l k))]"
  by (simp add: log_writes_def)

lemma home_writes_Suc: "home_writes l V (Suc k) = home_writes l V k @ [(log_block l k, V (log_blk l k))]"
  by (simp add: home_writes_def)

lemma log_writes_other: "k \<le> log_cap l \<Longrightarrow> \<not> in_log l bn \<Longrightarrow> apply_writes (log_writes l V k) D bn = D bn"
proof (rule apply_writes_other)
  assume k: "k \<le> log_cap l" and n: "\<not> in_log l bn"
  have "fst ` set (log_writes l V k) = log_blk l ` {..<k}" by (auto simp: log_writes_def image_image)
  moreover have "in_log l bn" if "bn \<in> log_blk l ` {..<k}" using that k by auto
  ultimately show "bn \<notin> fst ` set (log_writes l V k)" using n by blast
qed

lemma log_writes_hd: "log_layout l \<Longrightarrow> k \<le> log_cap l \<Longrightarrow> apply_writes (log_writes l V k) D (log_hd l) = D (log_hd l)"
  by (rule apply_writes_other) (auto simp: log_writes_def dest: log_blk_hd [OF _ less_le_trans])

lemma log_writes_blk:
  "log_layout l \<Longrightarrow> k \<le> log_cap l \<Longrightarrow> i < k \<Longrightarrow> apply_writes (log_writes l V k) D (log_blk l i) = V (log_block l i)"
  unfolding log_writes_def by (rule apply_writes_map) (auto intro!: inj_onI dest: log_blk_inj [OF _ less_le_trans less_le_trans])

lemma home_writes_other: "bn \<notin> log_block l ` {..<k} \<Longrightarrow> apply_writes (home_writes l V k) D bn = D bn"
  by (rule apply_writes_other) (auto simp: home_writes_def)

lemma home_writes_block:
  "inj_on (log_block l) {..<k} \<Longrightarrow> i < k \<Longrightarrow> apply_writes (home_writes l V k) D (log_block l i) = V (log_blk l i)"
  unfolding home_writes_def by (rule apply_writes_map)

lemma write_log_loop:
  assumes "calm s P {}" and "finite P" and "card P < NBUF" and "log_layout (log s)"
    and "k \<le> log_cap (log s)" and "\<And>i. i < k \<Longrightarrow> log_block (log s) i \<in> P" and "\<And>bn. bn \<in> P \<Longrightarrow> \<not> in_log (log s) bn"
  shows "\<exists>t. for_each [0..<k] write_log_one s = Ok () t \<and> calm t P {} \<and> bframe s t \<and>
    view t = apply_writes (log_writes (log s) (view s) k) (view s) \<and>
    dwrites t = dwrites s @ log_writes (log s) (view s) k \<and>
    disk t = apply_writes (log_writes (log s) (view s) k) (disk s)"
  using assms(5,6)
proof (induction k)
  case 0
  then show ?case using assms(1) by (intro exI [of _ s]) (simp add: kern_simps log_writes_def)
next
  case (Suc k)
  let ?l = "log s"
  obtain t where t: "for_each [0..<k] write_log_one s = Ok () t" "calm t P {}" "bframe s t"
    "view t = apply_writes (log_writes ?l (view s) k) (view s)"
    "dwrites t = dwrites s @ log_writes ?l (view s) k"
    "disk t = apply_writes (log_writes ?l (view s) k) (disk s)"
    using Suc.IH Suc.prems by auto
  have l: "log t = ?l" using bframe_log [OF t(3)] .
  have P: "log_block ?l k \<in> P" "\<not> in_log ?l (log_block ?l k)" using Suc.prems(2) [of k] assms(7) by auto
  have "log_blk ?l k \<notin> P" using assms(7) [of "log_blk ?l k"] Suc.prems(1) by auto
  then obtain u where u: "write_log_one k t = Ok () u" "calm u P {}" "bframe t u"
    "view u = (view t)(log_blk ?l k := view t (log_block ?l k))"
    "dwrites u = dwrites t @ [(log_blk ?l k, view t (log_block ?l k))]"
    "disk u = (disk t)(log_blk ?l k := view t (log_block ?l k))"
    using write_log_one_ok [OF t(2) assms(2,3), of "log_blk ?l k" k] assms(4) P(1)
    unfolding l log_layout_def log_blk_def by blast
  have v: "view t (log_block ?l k) = view s (log_block ?l k)"
    using log_writes_other P(2) Suc.prems(1) t(4) by simp
  have "for_each [0..<Suc k] write_log_one s = Ok () u"
    by (simp add: for_each_append kdo_Ok [where m = "for_each [0..<k] _", OF t(1)] kdo_Ok [where m = "write_log_one _", OF u(1)] kern_simps)
  then show ?case using u t bframe_trans [OF t(3) u(3)]
    by (intro exI [of _ u]) (simp add: v [unfolded t(4)] log_writes_Suc)
qed

lemma install_loop:
  assumes "calm s P {}" and "finite P" and "log_layout (log s)" and "k \<le> log_cap (log s)"
    and "inj_on (log_block (log s)) {..<k}" and "\<And>i. i < k \<Longrightarrow> \<not> in_log (log s) (log_block (log s) i)"
    and "\<And>bn. bn \<in> P \<Longrightarrow> \<not> in_log (log s) bn"
    and "if rec = 0 then card P < NBUF \<and> (\<forall>i<k. log_block (log s) i \<in> P) else card P + 1 < NBUF"
  shows "\<exists>t. for_each [0..<k] (install_one rec) s = Ok () t \<and>
    calm t (if rec = 0 then P - log_block (log s) ` {..<k} else P) {} \<and> bframe s t \<and>
    view t = apply_writes (home_writes (log s) (view s) k) (view s) \<and>
    dwrites t = dwrites s @ home_writes (log s) (view s) k \<and>
    disk t = apply_writes (home_writes (log s) (view s) k) (disk s)"
  using assms(4-6,8)
proof (induction k)
  case 0
  then show ?case using assms(1) by (intro exI [of _ s]) (simp add: kern_simps home_writes_def)
next
  case (Suc k)
  let ?l = "log s" and ?Q = "\<lambda>k. if rec = 0 then P - log_block (log s) ` {..<k} else P"
  have inj: "inj_on (log_block ?l) {..<k}" using Suc.prems(2) by (rule inj_on_subset) auto
  obtain t where t: "for_each [0..<k] (install_one rec) s = Ok () t" "calm t (?Q k) {}" "bframe s t"
    "view t = apply_writes (home_writes ?l (view s) k) (view s)"
    "dwrites t = dwrites s @ home_writes ?l (view s) k"
    "disk t = apply_writes (home_writes ?l (view s) k) (disk s)"
    using Suc.IH [OF _ inj] Suc.prems by (auto split: if_splits)
  have l: "log t = ?l" using bframe_log [OF t(3)] .
  have nin: "\<not> in_log ?l (log_block ?l i)" if "i \<le> k" for i using Suc.prems(3) that by auto
  have fin: "finite (?Q k)" using assms(2) by simp
  have le: "card (?Q k) \<le> card P" using assms(2) by (auto intro: card_mono)
  have notQ: "log_blk ?l k \<notin> ?Q k" using assms(7) [of "log_blk ?l k"] Suc.prems(1) by auto
  have ne: "log_blk ?l k \<noteq> log_block ?l k" using nin [of k] Suc.prems(1) in_log_simps(2) [of k ?l] by force
  have memQ: "log_block ?l k \<in> ?Q k" if "rec = 0"
  proof -
    have "log_block ?l k \<noteq> log_block ?l i" if "i < k" for i
      using inj_onD [OF Suc.prems(2), of k i] that by auto
    then show ?thesis using Suc.prems(4) that by auto
  qed
  have dst: "if rec = 0 then log_block (log t) k \<in> ?Q k else card (?Q k) + 1 < NBUF"
    using memQ le Suc.prems(4) by (auto simp: l)
  have card: "card (?Q k) < NBUF" using le Suc.prems(4) by (auto split: if_splits)
  have dev: "log_dev (log t) = ROOTDEV" using assms(3) by (simp add: l log_layout_def)
  obtain u where u: "install_one rec k t = Ok () u"
    "calm u (if rec = 0 then ?Q k - {log_block ?l k} else ?Q k) {}" "bframe t u"
    "view u = (view t)(log_block ?l k := view t (log_blk ?l k))"
    "dwrites u = dwrites t @ [(log_block ?l k, view t (log_blk ?l k))]"
    "disk u = (disk t)(log_block ?l k := view t (log_blk ?l k))"
    using install_one_ok [OF t(2) fin card dev, of "log_blk ?l k" k, OF _ notQ _ dst] ne
    unfolding l log_blk_def by blast
  have v: "view t (log_blk ?l k) = view s (log_blk ?l k)"
    unfolding t(4)
  proof (rule home_writes_other)
    show "log_blk ?l k \<notin> log_block ?l ` {..<k}"
      using nin Suc.prems(1) by (metis Suc_le_lessD imageE in_log_simps(2) lessThan_iff less_imp_le)
  qed
  have "(if rec = 0 then ?Q k - {log_block ?l k} else ?Q k) = ?Q (Suc k)"
    by (auto simp: less_Suc_eq)
  with u(2) have "calm u (?Q (Suc k)) {}" by simp
  moreover have "for_each [0..<Suc k] (install_one rec) s = Ok () u"
    by (simp add: for_each_append kdo_Ok [where m = "for_each [0..<k] _", OF t(1)] kdo_Ok [where m = "install_one _ _", OF u(1)] kern_simps)
  ultimately show ?case using u t bframe_trans [OF t(3) u(3)]
    by (intro exI [of _ u]) (simp add: v [unfolded t(4)] home_writes_Suc)
qed

section \<open>Commit and recovery\<close>

definition lframe :: "'a log_st_scheme \<Rightarrow> 'a log_st_scheme \<Rightarrow> bool" where
  "lframe s t \<longleftrightarrow> bframe (s\<lparr>log := log t\<rparr>) t"

lemma bframe_upd_log: "bframe s t \<Longrightarrow> bframe (s\<lparr>log := l\<rparr>) (t\<lparr>log := l\<rparr>)"
proof (rule bframe_eqI)
  assume f: "bframe s t"
  show "t\<lparr>log := l\<rparr> = (s\<lparr>log := l\<rparr>)\<lparr>buf := buf (t\<lparr>log := l\<rparr>), slock := slock (t\<lparr>log := l\<rparr>),
      proc := proc (t\<lparr>log := l\<rparr>), disk := disk (t\<lparr>log := l\<rparr>), dwrites := dwrites (t\<lparr>log := l\<rparr>)\<rparr>"
    using f unfolding bframe_def by auto
qed (use bframe_fields in \<open>auto simp del: proc.update_convs\<close>)

lemma bframe_lframe: "bframe s t \<Longrightarrow> lframe s t"
  unfolding lframe_def using bframe_log [of s t] by simp

lemma lframe_upd_log: "lframe s (upd_log f s)"
  by (simp add: lframe_def)

lemma lframe_trans:
  assumes "lframe s t" and "lframe t u"
  shows "lframe s u"
  using bframe_upd_log [OF assms(1) [unfolded lframe_def], of "log u"] assms(2)
  by (auto simp: lframe_def intro: bframe_trans)

lemma read_head_ok:
  assumes c: "calm s P {}" and fin: "finite P" and n: "card P < NBUF" and d: "log_layout (log s)"
    and h: "log_hd (log s) \<notin> P"
  shows "\<exists>t. read_head s = Ok () t \<and> calm t P {} \<and> lframe s t \<and> view t = view s \<and>
    dwrites t = dwrites s \<and> disk t = disk s \<and>
    log t = (log s)\<lparr>log_lh := (log_lh (log s))\<lparr>lh_n := hdr_n (view s (log_hd (log s))),
       lh_block := (\<lambda>i. if i < nat (hdr_n (view s (log_hd (log s)))) then hdr_block (view s (log_hd (log s))) i
                        else log_block (log s) i)\<rparr>\<rparr>"
proof -
  let ?h = "log_hd (log s)"
  let ?d = "view s ?h"
  have r1: "?h \<in> P \<or> finite P \<and> card P + card {} < NBUF" using fin n by simp
  obtain b s1 where 1: "bread ROOTDEV ?h s = Ok b s1" "calm s1 P {b}" "b_blockno (buf s1 b) = ?h"
    "b_data (buf s1 b) = ?d" "view s1 = view s" "bframe s s1" "disk s1 = disk s" "dwrites s1 = dwrites s"
    using calm_bread [OF c _ r1] by auto
  let ?L = "(log_lh (log s))\<lparr>lh_n := hdr_n ?d, lh_block := (\<lambda>i. if i < nat (hdr_n ?d) then hdr_block ?d i else log_block (log s) i)\<rparr>"
  define s2 where "s2 = upd_log (\<lambda>l. l\<lparr>log_lh := ?L\<rparr>) s1"
  have l1: "log s1 = log s" using bframe_log [OF 1(6)] .
  have 2: "calm s2 P {b}" "view s2 = view s1" "disk s2 = disk s1" "dwrites s2 = dwrites s1" "buf s2 = buf s1"
    using 1(2) by (simp_all add: s2_def calm_more view_more)
  have cl: "b_data (buf s2 b) = disk s2 (b_blockno (buf s2 b))"
    using calm_clean [OF c h] 1 2 by simp
  obtain s3 where 3: "brelse b s2 = Ok () s3" "calm s3 P ({b} - {b})" "view s3 = view s2" "bframe s2 s3"
    "disk s3 = disk s2" "dwrites s3 = dwrites s2"
    using calm_brelse [OF 2(1), of b] cl by auto
  have e: "kdo (modify (upd_log (\<lambda>l. l\<lparr>log_lh := (log_lh l)\<lparr>lh_n := sint (get32 ?d 0)\<rparr>\<rparr>))) (\<lambda>_.
     kdo (for_each [0..<nat (sint (get32 ?d 0))] (\<lambda>i.
            modify (upd_log (\<lambda>l. l\<lparr>log_lh := (log_lh l)\<lparr>lh_block := (log_block l)(i := get32 ?d (4 + 4 * i))\<rparr>\<rparr>)))) f) s1
      = f () s2" for f :: "unit \<Rightarrow> ('a log_st_scheme, unit) kern"
    unfolding kdo_modify kdo_Ok [where m = "for_each _ _", OF for_each_lh_block]
    by (simp add: s2_def hdr_n_def hdr_block_def l1 cong: if_cong)
  have "read_head s = Ok () s3"
    using d unfolding read_head_def
    by (simp add: kdo_gets log_layout_def log_hd_def [symmetric] kdo_Ok [where m = "bread ROOTDEV _", OF 1(1)] 1(4) e 3(1))
  moreover have "lframe s s3"
    using bframe_lframe [OF 1(6)] bframe_lframe [OF 3(4)] lframe_upd_log [of s1]
    unfolding s2_def by (blast intro: lframe_trans)
  moreover have "log s3 = (log s)\<lparr>log_lh := ?L\<rparr>"
    using bframe_log [OF 3(4)] by (simp add: s2_def l1)
  ultimately show ?thesis using 3 2 1 by simp
qed

text \<open>
  Recovery, from a state in which nothing is pinned, when the header on disk names \<open>m\<close> distinct
  blocks outside the log.
\<close>

definition hdr_ok :: "log \<Rightarrow> bytes \<Rightarrow> bool" where
  "hdr_ok l d \<longleftrightarrow> 0 \<le> hdr_n d \<and> hdr_n d \<le> int (log_cap l) \<and> inj_on (hdr_block d) {..<nat (hdr_n d)} \<and>
     (\<forall>i<nat (hdr_n d). \<not> in_log l (hdr_block d i))"

lemma recover_ok:
  assumes c: "calm s {} {}" and l: "log_layout (log s)" and h: "hdr_ok (log s) (disk s (log_hd (log s)))"
  shows "\<exists>t d. recover_from_log s = Ok () t \<and> calm t {} {} \<and> lframe s t \<and>
    hdr_n d = 0 \<and> log_n (log t) = 0 \<and> log_start (log t) = log_start (log s) \<and>
    log_size (log t) = log_size (log s) \<and>
    disk t = (apply_writes (map (\<lambda>i. (hdr_block (disk s (log_hd (log s))) i, disk s (log_blk (log s) i)))
                [0..<nat (hdr_n (disk s (log_hd (log s))))]) (disk s))(log_hd (log s) := d)"
proof -
  let ?l = "log s" and ?d = "disk s (log_hd (log s))"
  let ?m = "nat (hdr_n ?d)"
  have v: "view s = disk s" by (rule ext) (rule calm_clean [OF c], simp_all)
  have nb: "card ({} :: uint set) < NBUF" "card ({} :: uint set) + 1 < NBUF" by (simp_all add: params)
  obtain s1 where 1: "read_head s = Ok () s1" "calm s1 {} {}" "lframe s s1" "view s1 = view s" "disk s1 = disk s"
    "log s1 = ?l\<lparr>log_lh := (log_lh ?l)\<lparr>lh_n := hdr_n ?d,
       lh_block := (\<lambda>i. if i < ?m then hdr_block ?d i else log_block ?l i)\<rparr>\<rparr>"
    using read_head_ok [OF c _ nb(1) l, unfolded v] v by auto
  have b1: "log_block (log s1) i = hdr_block ?d i" if "i < ?m" for i using that by (simp add: 1(6))
  have L1: "log_hd (log s1) = log_hd ?l" "log_blk (log s1) = log_blk ?l" "in_log (log s1) = in_log ?l"
    "log_layout (log s1)"
    using l by (simp_all add: 1(6) log_hd_def log_blk_def in_log_def log_cap_def log_layout_def fun_eq_iff)
  have "log_cap (log s1) = log_cap ?l" by (simp add: 1(6) log_cap_def)
  then have le: "?m \<le> log_cap (log s1)" using h by (simp add: hdr_ok_def nat_le_iff)
  have inj: "inj_on (log_block (log s1)) {..<?m}"
    using h by (auto simp: hdr_ok_def inj_on_def b1)
  have nin: "\<not> in_log (log s1) (log_block (log s1) i)" if "i < ?m" for i
    using h that by (simp add: hdr_ok_def b1 L1)
  obtain s2 where 2: "for_each [0..<?m] (install_one 1) s1 = Ok () s2" "calm s2 {} {}" "bframe s1 s2"
    "view s2 = apply_writes (home_writes (log s1) (view s1) ?m) (view s1)"
    "disk s2 = apply_writes (home_writes (log s1) (view s1) ?m) (disk s1)"
    using install_loop [OF 1(2) _ L1(4) le inj nin, of 1] nb by auto
  define s3 where "s3 = upd_log (\<lambda>l. l\<lparr>log_lh := (log_lh l)\<lparr>lh_n := 0\<rparr>\<rparr>) s2"
  have l2: "log s2 = log s1" using bframe_log [OF 2(3)] .
  have 3: "calm s3 {} {}" "view s3 = view s2" "disk s3 = disk s2"
    using 2(2) by (simp_all add: s3_def calm_more view_more)
  have l3: "log_hd (log s3) = log_hd ?l" "log_dev (log s3) = ROOTDEV" "log_n (log s3) = 0"
    using l by (simp_all add: s3_def l2 1(6) log_hd_def log_layout_def)
  obtain s4 d where 4: "write_head s3 = Ok () s4" "calm s4 {} {}" "bframe s3 s4" "d = hdr_put (view s3 (log_hd ?l)) 0 (log_block (log s3))"
    "disk s4 = (disk s3)(log_hd ?l := d)"
    using write_head_ok [OF 3(1) _ nb(1) l3(2) l3(1) [unfolded log_hd_def [of "log s3"], symmetric]] by (auto simp: l3)
  have "hdr_n d = 0" using 4(4) hdr_n_put by simp
  moreover have "recover_from_log s = Ok () s4"
    by (simp add: recover_from_log_def kdo_Ok [where m = read_head, OF 1(1)] install_trans_def kern_simps 1(6)
        kdo_Ok [where m = "for_each _ _", OF 2(1)] clear_n_def s3_def [symmetric] 4(1))
  moreover have "lframe s s4"
    using 1(3) bframe_lframe [OF 2(3)] lframe_upd_log [of s2] bframe_lframe [OF 4(3)]
    unfolding s3_def by (blast intro: lframe_trans)
  moreover have "home_writes (log s1) (view s1) ?m = map (\<lambda>i. (hdr_block ?d i, disk s (log_blk ?l i))) [0..<?m]"
    by (simp add: home_writes_def b1 L1 1(4) v)
  ultimately show ?thesis using 4 3 2 1 bframe_log [OF 4(3)]
    by (intro exI [of _ s4] exI [of _ d]) (simp add: s3_def l2)
qed

text \<open>
  A transaction ready to be committed: its blocks are distinct, outside the log, pinned and cached,
  nothing else is pinned, and there are fewer of them than buffers.
\<close>

definition log_blocks :: "log \<Rightarrow> uint set" where
  "log_blocks l = log_block l ` {..<nat (log_n l)}"

definition log_inv :: "log \<Rightarrow> bool" where
  "log_inv l \<longleftrightarrow> log_layout l \<and> 0 \<le> log_n l \<and> log_n l \<le> int (log_cap l) \<and> log_n l < int NBUF \<and>
     inj_on (log_block l) {..<nat (log_n l)} \<and> (\<forall>i<nat (log_n l). \<not> in_log l (log_block l i))"

lemma log_invD:
  assumes "log_inv l"
  shows "log_layout l" "nat (log_n l) \<le> log_cap l" "inj_on (log_block l) {..<nat (log_n l)}"
    "\<And>bn. bn \<in> log_blocks l \<Longrightarrow> \<not> in_log l bn" "finite (log_blocks l)" "card (log_blocks l) < NBUF"
    "log_hd l \<notin> log_blocks l"
proof -
  show "log_layout l" "nat (log_n l) \<le> log_cap l" "inj_on (log_block l) {..<nat (log_n l)}" "finite (log_blocks l)"
    using assms by (auto simp: log_inv_def log_blocks_def nat_le_iff)
  show "\<not> in_log l bn" if "bn \<in> log_blocks l" for bn using assms that by (auto simp: log_inv_def log_blocks_def)
  then show "log_hd l \<notin> log_blocks l" using in_log_simps(1) by blast
  have "card (log_blocks l) \<le> nat (log_n l)" unfolding log_blocks_def
    using card_image_le [of "{..<nat (log_n l)}" "log_block l"] by simp
  then show "card (log_blocks l) < NBUF" using assms unfolding log_inv_def by linarith
qed

text \<open>All the disk writes of a commit, in their order.\<close>

definition commit_writes :: "log \<Rightarrow> (uint \<Rightarrow> bytes) \<Rightarrow> (uint \<times> bytes) list" where
  "commit_writes l V =
     (let n = nat (log_n l); h = hdr_put (V (log_hd l)) (log_n l) (log_block l) in
      log_writes l V n @ [(log_hd l, h)] @
      map (\<lambda>i. (log_block l i, V (log_block l i))) [0..<n] @ [(log_hd l, hdr_put h 0 (log_block l))])"

lemma commit_ok:
  assumes c: "calm s (log_blocks (log s)) {}" and i: "log_inv (log s)" and pos: "0 < log_n (log s)"
  shows "\<exists>t. commit s = Ok () t \<and> calm t {} {} \<and> lframe s t \<and>
    log t = (log s)\<lparr>log_lh := (log_lh (log s))\<lparr>lh_n := 0\<rparr>\<rparr> \<and>
    view t = apply_writes (commit_writes (log s) (view s)) (view s) \<and>
    dwrites t = dwrites s @ commit_writes (log s) (view s) \<and>
    disk t = apply_writes (commit_writes (log s) (view s)) (disk s)"
proof -
  let ?l = "log s" and ?n = "nat (log_n (log s))" and ?P = "log_blocks (log s)" and ?V = "view s"
  note d = log_invD [OF i]
  obtain s1 where 1: "for_each [0..<?n] write_log_one s = Ok () s1" "calm s1 ?P {}" "bframe s s1"
    "view s1 = apply_writes (log_writes ?l ?V ?n) ?V" "dwrites s1 = dwrites s @ log_writes ?l ?V ?n"
    "disk s1 = apply_writes (log_writes ?l ?V ?n) (disk s)"
    using write_log_loop [OF c d(5,6,1,2) _ d(4)] by (auto simp: log_blocks_def)
  have l1: "log s1 = ?l" using bframe_log [OF 1(3)] .
  have v1: "view s1 (log_hd ?l) = ?V (log_hd ?l)" "\<And>bn. \<not> in_log ?l bn \<Longrightarrow> view s1 bn = ?V bn"
    "\<And>k. k < ?n \<Longrightarrow> view s1 (log_blk ?l k) = ?V (log_block ?l k)"
    using log_writes_hd [OF d(1,2)] log_writes_other [OF d(2)] log_writes_blk [OF d(1,2)] by (simp_all add: 1(4))
  define h where "h = hdr_put (?V (log_hd ?l)) (log_n ?l) (log_block ?l)"
  have dev: "log_dev (log s1) = ROOTDEV" using d(1) by (simp add: l1 log_layout_def)
  have hd1: "log_hd ?l = word_of_int (log_start (log s1))" by (simp add: log_hd_def l1)
  obtain s2 where 2: "write_head s1 = Ok () s2" "calm s2 ?P {}" "bframe s1 s2"
    "view s2 = (view s1)(log_hd ?l := h)" "dwrites s2 = dwrites s1 @ [(log_hd ?l, h)]"
    "disk s2 = (disk s1)(log_hd ?l := h)"
    using write_head_ok [OF 1(2) d(5,6) dev hd1 d(7)] by (auto simp: l1 v1 h_def)
  have l2: "log s2 = ?l" using bframe_log [OF 2(3)] l1 by simp
  obtain s3 where 3: "for_each [0..<?n] (install_one 0) s2 = Ok () s3" "calm s3 (?P - log_block ?l ` {..<?n}) {}" "bframe s2 s3"
    "view s3 = apply_writes (home_writes ?l (view s2) ?n) (view s2)" "dwrites s3 = dwrites s2 @ home_writes ?l (view s2) ?n"
    "disk s3 = apply_writes (home_writes ?l (view s2) ?n) (disk s2)"
    using install_loop [OF 2(2) d(5), of ?n 0] d i by (auto simp: l2 log_blocks_def log_inv_def)
  have hw: "home_writes ?l (view s2) ?n = map (\<lambda>i. (log_block ?l i, ?V (log_block ?l i))) [0..<?n]"
    using log_blk_hd [OF d(1)] d(2) v1(3) by (simp add: home_writes_def 2(4))
  have c3: "calm s3 {} {}" using 3(2) by (simp add: log_blocks_def)
  define s4 where "s4 = upd_log (\<lambda>l. l\<lparr>log_lh := (log_lh l)\<lparr>lh_n := 0\<rparr>\<rparr>) s3"
  have l3: "log s3 = ?l" using bframe_log [OF 3(3)] l2 by simp
  have 4: "calm s4 {} {}" "view s4 = view s3" "disk s4 = disk s3" "dwrites s4 = dwrites s3"
    using c3 by (simp_all add: s4_def calm_more view_more)
  have l4: "log_hd ?l = word_of_int (log_start (log s4))" "log_dev (log s4) = ROOTDEV" "log_n (log s4) = 0"
    "log_block (log s4) = log_block ?l"
    using d(1) by (simp_all add: s4_def l3 log_hd_def log_layout_def)
  have hv: "view s4 (log_hd ?l) = h"
    using d(7) home_writes_other [of "log_hd ?l" ?l ?n] by (simp add: 4 3(4) 2(4) log_blocks_def)
  have fin: "finite ({} :: uint set)" "card ({} :: uint set) < NBUF" "log_hd ?l \<notin> {}" by (simp_all add: params)
  obtain s5 where 5: "write_head s4 = Ok () s5" "calm s5 {} {}" "bframe s4 s5"
    "view s5 = (view s4)(log_hd ?l := hdr_put h 0 (log_block ?l))"
    "dwrites s5 = dwrites s4 @ [(log_hd ?l, hdr_put h 0 (log_block ?l))]"
    "disk s5 = (disk s4)(log_hd ?l := hdr_put h 0 (log_block ?l))"
    using write_head_ok [OF 4(1) fin(1,2) l4(2,1) fin(3)] unfolding l4(3,4) hv by blast
  have "commit s = Ok () s5"
    using pos
    by (simp add: commit_def write_log_def install_trans_def kern_simps kdo_Ok [where m = "for_each _ _", OF 1(1)]
        kdo_Ok [where m = write_head, OF 2(1)] l2 kdo_Ok [where m = "for_each _ _", OF 3(1)]
        clear_n_def s4_def [symmetric] 5(1))
  moreover have "lframe s s5"
    using bframe_lframe [OF 1(3)] bframe_lframe [OF 2(3)] bframe_lframe [OF 3(3)] lframe_upd_log [of s3]
      bframe_lframe [OF 5(3)] unfolding s4_def by (blast intro: lframe_trans)
  moreover have "log s5 = ?l\<lparr>log_lh := (log_lh ?l)\<lparr>lh_n := 0\<rparr>\<rparr>"
    using bframe_log [OF 5(3)] by (simp add: s4_def l3)
  ultimately show ?thesis using 5(2)
    by (simp add: 5 4 3(4-6) [unfolded hw] 2 1 commit_writes_def Let_def h_def [symmetric])
qed

section \<open>Crashes\<close>

text \<open>What the disk holds after the first \<open>k\<close> writes of a commit.\<close>

lemma commit_writes_take:
  assumes "n = nat (log_n l)" and "h = hdr_put (V (log_hd l)) (log_n l) (log_block l)"
  shows "k \<le> n \<Longrightarrow> take k (commit_writes l V) = log_writes l V k"
    and "j \<le> n \<Longrightarrow> take (Suc (n + j)) (commit_writes l V) =
      log_writes l V n @ [(log_hd l, h)] @ map (\<lambda>i. (log_block l i, V (log_block l i))) [0..<j]"
    and "2 * n + 2 \<le> k \<Longrightarrow> take k (commit_writes l V) = commit_writes l V"
  using assms by (auto simp: commit_writes_def Let_def log_writes_def take_map min_def)

definition recovered :: "log \<Rightarrow> (uint \<Rightarrow> bytes) \<Rightarrow> uint \<Rightarrow> bytes" where
  "recovered l E = apply_writes (map (\<lambda>i. (hdr_block (E (log_hd l)) i, E (log_blk l i)))
      [0..<nat (hdr_n (E (log_hd l)))]) E"

lemma recovered_clear: "hdr_n (E (log_hd l)) = 0 \<Longrightarrow> hdr_ok l (E (log_hd l)) \<and> recovered l E = E"
  by (simp add: hdr_ok_def recovered_def)

lemma recovered_committed:
  assumes i: "log_inv l" and hd: "E (log_hd l) = hdr_put d (log_n l) (log_block l)"
    and blk: "\<And>i. i < nat (log_n l) \<Longrightarrow> E (log_blk l i) = V (log_block l i)"
    and home: "\<And>bn. \<not> in_log l bn \<Longrightarrow> bn \<notin> log_blocks l \<Longrightarrow> E bn = V bn"
  shows "hdr_ok l (E (log_hd l))" and "\<not> in_log l bn \<Longrightarrow> recovered l E bn = V bn"
proof -
  let ?n = "nat (log_n l)"
  have n: "hdr_n (E (log_hd l)) = log_n l"
    using i unfolding hd by (intro hdr_n_put) (auto simp: log_inv_def params)
  have b: "hdr_block (E (log_hd l)) i = log_block l i" if "i < ?n" for i
    unfolding hd by (rule hdr_block_put) (rule that)
  show "hdr_ok l (E (log_hd l))"
    using i by (auto simp: hdr_ok_def n b log_inv_def inj_on_def)
  assume bn: "\<not> in_log l bn"
  have r: "recovered l E = apply_writes (map (\<lambda>i. (log_block l i, V (log_block l i))) [0..<?n]) E"
    unfolding recovered_def n
    by (rule arg_cong [where f = "\<lambda>W. apply_writes W E"]) (simp add: b blk)
  show "recovered l E bn = V bn"
  proof (cases "bn \<in> log_blocks l")
    case True
    then obtain j where "j < ?n" "bn = log_block l j" by (auto simp: log_blocks_def)
    then show ?thesis unfolding r using apply_writes_map [OF _ log_invD(3) [OF i]] by simp
  next
    case False
    then show ?thesis unfolding r using home [OF bn False]
      by (subst apply_writes_other) (auto simp: log_blocks_def)
  qed
qed

lemma crash_disk:
  assumes i: "log_inv l" and clear: "hdr_n (D (log_hd l)) = 0"
    and same: "\<And>bn. bn \<notin> log_blocks l \<Longrightarrow> D bn = V bn"
    and E: "E = apply_writes (take k (commit_writes l V)) D"
  shows "hdr_ok l (E (log_hd l)) \<and>
    (\<forall>bn. \<not> in_log l bn \<longrightarrow> recovered l E bn = (if k \<le> nat (log_n l) then D bn else V bn))"
proof -
  let ?n = "nat (log_n l)"
  define h where "h = hdr_put (V (log_hd l)) (log_n l) (log_block l)"
  note take = commit_writes_take [of ?n l h V, OF refl h_def]
  note d = log_invD [OF i]
  have nb: "\<not> in_log l (log_block l j)" if "j < ?n" for j using d(4) that by (auto simp: log_blocks_def)
  have log_home: "apply_writes (map (\<lambda>i. (log_block l i, V (log_block l i))) [0..<j]) F bn = F bn"
    if "in_log l bn" "j \<le> ?n" for bn j F
    by (rule apply_writes_other) (use that nb in fastforce)
  consider "k \<le> ?n" | j where "k = Suc (?n + j)" "j \<le> ?n" | "2 * ?n + 2 \<le> k"
    by (metis (no_types, opaque_lifting) add_2_eq_Suc' add_Suc_right le_add1 less_Suc_eq_le less_imp_Suc_add
        linorder_not_le mult_2 nat_add_left_cancel_le not_less_eq_eq)
  then show ?thesis
  proof cases
    case 1
    have "E (log_hd l) = D (log_hd l)" and "\<And>bn. \<not> in_log l bn \<Longrightarrow> E bn = D bn"
      using log_writes_hd [OF d(1)] log_writes_other 1 d(2) by (simp_all add: E take(1))
    then show ?thesis using recovered_clear [of E l] clear 1 by simp
  next
    case 2
    have e: "E = apply_writes (map (\<lambda>i. (log_block l i, V (log_block l i))) [0..<j])
               ((apply_writes (log_writes l V ?n) D)(log_hd l := h))"
      by (simp add: E 2(1) take(2) [OF 2(2)])
    have hd: "E (log_hd l) = hdr_put (V (log_hd l)) (log_n l) (log_block l)"
      using log_home [of "log_hd l" j] 2(2) by (simp add: e h_def)
    have blk: "E (log_blk l m) = V (log_block l m)" if "m < ?n" for m
      using log_home [of "log_blk l m" j] log_writes_blk [OF d(1,2) that] log_blk_hd [OF d(1), of m] d(2) that 2(2)
      by (simp add: e)
    have home: "E bn = V bn" if "\<not> in_log l bn" "bn \<notin> log_blocks l" for bn
    proof -
      have "E bn = ((apply_writes (log_writes l V ?n) D)(log_hd l := h)) bn"
        unfolding e by (rule apply_writes_other) (use that 2(2) in \<open>auto simp: log_blocks_def\<close>)
      then show ?thesis using that log_writes_other [OF d(2) that(1)] same [OF that(2)] by (auto simp: in_log_def)
    qed
    show ?thesis using recovered_committed [OF i hd blk home] 2(1) by simp
  next
    case 3
    have e: "E = (apply_writes (map (\<lambda>i. (log_block l i, V (log_block l i))) [0..<?n])
               ((apply_writes (log_writes l V ?n) D)(log_hd l := h)))(log_hd l := hdr_put h 0 (log_block l))"
      by (simp add: E take(3) [OF 3]) (simp add: commit_writes_def Let_def h_def)
    have "hdr_n (E (log_hd l)) = 0" by (simp add: e hdr_n_put)
    moreover have "E bn = V bn" if bn: "\<not> in_log l bn" for bn
    proof (cases "bn \<in> log_blocks l")
      case True
      then obtain j where "j < ?n" "bn = log_block l j" by (auto simp: log_blocks_def)
      then show ?thesis using bn apply_writes_map [OF _ d(3)] by (auto simp: e in_log_def)
    next
      case False
      have "apply_writes (map (\<lambda>i. (log_block l i, V (log_block l i))) [0..<?n])
               ((apply_writes (log_writes l V ?n) D)(log_hd l := h)) bn =
            ((apply_writes (log_writes l V ?n) D)(log_hd l := h)) bn"
        by (rule apply_writes_other) (use False in \<open>auto simp: log_blocks_def\<close>)
      then show ?thesis using bn log_writes_other [OF d(2) bn] same [OF False] by (auto simp: e in_log_def)
    qed
    ultimately show ?thesis using recovered_clear [of E l] 3 by simp
  qed
qed

section \<open>Writing within a transaction\<close>

lemma log_index_cases:
  assumes "0 \<le> log_n l"
  shows "log_index l bn < nat (log_n l) \<and> log_block l (log_index l bn) = bn \<or>
    log_index l bn = nat (log_n l) \<and> bn \<notin> log_blocks l"
proof (cases "find (\<lambda>i. log_block l i = bn) [0..<nat (log_n l)]")
  case None
  then have "bn \<notin> log_blocks l" by (auto simp: log_blocks_def find_None_iff)
  with None show ?thesis by (simp add: log_index_def)
next
  case (Some i)
  then show ?thesis using find_SomeD [OF Some] by (auto simp: log_index_def)
qed

text \<open>The header after block \<open>bn\<close> has been recorded.\<close>

definition log_add :: "log \<Rightarrow> uint \<Rightarrow> log" where
  "log_add l bn =
     (if bn \<in> log_blocks l then l
      else l\<lparr>log_lh := (log_lh l)\<lparr>lh_block := (log_block l)(nat (log_n l) := bn), lh_n := log_n l + 1\<rparr>\<rparr>)"

lemma log_add_fields [simp]:
  "log_start (log_add l bn) = log_start l" "log_size (log_add l bn) = log_size l"
  "log_outstanding (log_add l bn) = log_outstanding l" "log_committing (log_add l bn) = log_committing l"
  "log_dev (log_add l bn) = log_dev l" "in_log (log_add l bn) = in_log l" "log_hd (log_add l bn) = log_hd l"
  "log_layout (log_add l bn) = log_layout l"
  by (simp_all add: log_add_def fun_eq_iff in_log_def log_cap_def log_hd_def log_blk_def log_layout_def)

lemma log_add_blocks: "0 \<le> log_n l \<Longrightarrow> log_blocks (log_add l bn) = insert bn (log_blocks l)"
  by (auto simp: log_add_def log_blocks_def nat_add_distrib lessThan_Suc)

lemma log_add_n: "log_n (log_add l bn) \<le> log_n l + 1" "log_n l \<le> log_n (log_add l bn)"
  by (simp_all add: log_add_def)

lemma log_add_inv:
  assumes i: "log_inv l" and n: "log_n l + 1 < int NBUF" "log_n l < int (log_cap l)" and bn: "\<not> in_log l bn"
  shows "log_inv (log_add l bn)"
proof (cases "bn \<in> log_blocks l")
  case True
  with i show ?thesis by (simp add: log_add_def)
next
  case False
  let ?n = "nat (log_n l)"
  have e: "nat (log_n l + 1) = Suc ?n" using i by (simp add: log_inv_def nat_add_distrib)
  have "inj_on ((log_block l)(?n := bn)) {..<Suc ?n}"
    using i False unfolding log_inv_def log_blocks_def by (auto simp: inj_on_def less_Suc_eq)
  moreover have "\<not> in_log l (((log_block l)(?n := bn)) i)" if "i < Suc ?n" for i
    using i bn that by (auto simp: log_inv_def less_Suc_eq)
  ultimately show ?thesis using i n log_add_fields [of l bn] False
    by (simp add: log_inv_def log_add_def log_cap_def e)
qed

lemma log_index_same:
  assumes "bn \<in> log_blocks l" "0 \<le> log_n l"
  shows "(log_block l)(log_index l bn := bn) = log_block l" "log_index l bn \<noteq> nat (log_n l)"
  using log_index_cases [OF assms(2), of bn] assms(1) by auto

lemma log_write_ok:
  assumes c: "calm s (log_blocks (log s)) H" and b: "b \<in> H" and i: "log_inv (log s)"
    and n: "log_n (log s) < int LOGSIZE" "log_n (log s) < log_size (log s) - 1" and o: "1 \<le> log_outstanding (log s)"
  shows "\<exists>t. log_write b s = Ok () t \<and> log t = log_add (log s) (b_blockno (buf s b)) \<and>
    calm t (insert (b_blockno (buf s b)) (log_blocks (log s))) H \<and> lframe s t \<and> view t = view s \<and>
    disk t = disk s \<and> dwrites t = dwrites s \<and>
    (\<forall>c. b_blockno (buf t c) = b_blockno (buf s c) \<and> b_data (buf t c) = b_data (buf s c))"
proof -
  let ?l = "log s" and ?bn = "b_blockno (buf s b)"
  have h: "held s = {}" using calmD(2) [OF c] .
  have pos: "0 \<le> log_n ?l" using i by (simp add: log_inv_def)
  show ?thesis
  proof (cases "?bn \<in> log_blocks ?l")
    case True
    have "int (log_index ?l ?bn) \<noteq> log_n ?l" using log_index_same [OF True pos] by auto
    then have "log_write b s = Ok () s"
      using h n o log_index_same(1) [OF True pos] by (simp add: log_write_def kern_simps)
    with True c show ?thesis by (intro exI [of _ s]) (simp add: log_add_def insert_absorb bframe_lframe)
  next
    case False
    let ?u = "upd_buf b (\<lambda>x. x\<lparr>b_refcnt := b_refcnt x + 1\<rparr>) s"
    let ?t = "?u\<lparr>log := log_add ?l ?bn\<rparr>"
    have ix: "log_index ?l ?bn = nat (log_n ?l)" using log_index_cases [OF pos, of ?bn] False by (metis imageI lessThan_iff log_blocks_def)
    have "log_write b s = Ok () ?t"
      using h n o pos False by (simp add: log_write_def kern_simps ix log_add_def)
    moreover have "calm ?t (insert ?bn (log_blocks ?l)) H"
      using calm_pin(1) [OF c b False] calm_more [of "\<lambda>_. log_add ?l ?bn" ?u] by simp
    moreover have "view ?t = view s"
      using calm_pin(2) [OF c b False] view_more [of "\<lambda>_. log_add ?l ?bn" ?u] by simp
    moreover have "lframe s ?t"
      using bframe_upd_log [OF calm_pin(3) [OF c b False], of "log_add ?l ?bn"] by (simp add: lframe_def)
    ultimately show ?thesis by (intro exI [of _ ?t]) auto
  qed
qed

section \<open>Whole transactions\<close>

text \<open>
  The use of the log that the comment on \<^verbatim>\<open>log_write\<close> prescribes, for a list of blocks and their new
  contents.
\<close>

definition txn_write :: "uint \<times> bytes \<Rightarrow> ('a log_st_scheme, unit) kern" where
  "txn_write w =
     kdo (bread ROOTDEV (fst w)) (\<lambda>b.
     kdo (modify (upd_buf b (\<lambda>x. x\<lparr>b_data := snd w\<rparr>))) (\<lambda>_.
     kdo (log_write b) (\<lambda>_.
     brelse b)))"

definition txn :: "(uint \<times> bytes) list \<Rightarrow> ('a log_st_scheme, unit) kern" where
  "txn ws =
     kdo begin_op (\<lambda>_.
     kdo (for_each ws txn_write) (\<lambda>_.
     end_op))"

text \<open>Between transactions: nothing pinned, nothing reserved, and the header on disk is clear.\<close>

definition log_idle :: "'a log_st_scheme \<Rightarrow> bool" where
  "log_idle s \<longleftrightarrow> calm s {} {} \<and> log_layout (log s) \<and> log_n (log s) = 0 \<and> log_outstanding (log s) = 0 \<and>
     \<not> log_committing (log s) \<and> int MAXOPBLOCKS < log_size (log s) \<and> hdr_n (disk s (log_hd (log s))) = 0"

definition in_txn :: "log \<Rightarrow> 'a log_st_scheme \<Rightarrow> (uint \<times> bytes) list \<Rightarrow> 'a log_st_scheme \<Rightarrow> bool" where
  "in_txn l0 s0 ws s \<longleftrightarrow>
     calm s (log_blocks (log s)) {} \<and> log_inv (log s) \<and> log_outstanding (log s) = 1 \<and> \<not> log_committing (log s) \<and>
     log_start (log s) = log_start l0 \<and> log_size (log s) = log_size l0 \<and>
     log_n (log s) \<le> int (length ws) \<and> log_blocks (log s) = fst ` set ws \<and>
     view s = apply_writes ws (view s0) \<and> disk s = disk s0 \<and> dwrites s = dwrites s0 \<and> lframe s0 s"

lemma begin_op_ok:
  assumes "log_idle s"
  shows "\<exists>t. begin_op s = Ok () t \<and> in_txn (log s) s [] t"
proof -
  let ?t = "upd_log (\<lambda>l. l\<lparr>log_outstanding := log_outstanding l + 1\<rparr>) s"
  from assms have c: "calm s {} {}" by (simp add: log_idle_def)
  have "begin_op s = Ok () ?t"
    using assms calmD(2) [OF c]
    by (simp add: begin_op_def begin_op_loop_def kern_simps log_idle_def params)
  moreover have "log_inv (log ?t)" using assms by (simp add: log_idle_def log_inv_def log_layout_def params)
  moreover have "calm ?t {} {}" using c by (simp add: calm_more)
  ultimately show ?thesis using assms
    by (intro exI [of _ ?t]) (simp add: in_txn_def log_idle_def view_more lframe_upd_log log_blocks_def)
qed

lemma txn_write_ok:
  assumes t: "in_txn l0 s0 ws s" and n: "length ws < MAXOPBLOCKS" "int MAXOPBLOCKS < log_size l0"
    and w: "\<not> in_log (log s) bn"
  shows "\<exists>t. txn_write (bn, d) s = Ok () t \<and> in_txn l0 s0 (ws @ [(bn, d)]) t"
proof -
  let ?P = "log_blocks (log s)"
  from t have c: "calm s ?P {}" and i: "log_inv (log s)" and l: "log_n (log s) \<le> int (length ws)"
    and o: "log_outstanding (log s) = 1" and P: "?P = fst ` set ws" unfolding in_txn_def by blast+
  note inv = log_invD [OF i]
  have r: "bn \<in> ?P \<or> finite ?P \<and> card ?P + card {} < NBUF" using inv(5,6) by simp
  obtain b s1 where 1: "bread ROOTDEV bn s = Ok b s1" "calm s1 ?P {b}" "b_blockno (buf s1 b) = bn"
    "view s1 = view s" "bframe s s1" "disk s1 = disk s" "dwrites s1 = dwrites s"
    using calm_bread [OF c _ r] by auto
  define s2 where "s2 = upd_buf b (\<lambda>x. x\<lparr>b_data := d\<rparr>) s1"
  have l1: "log s1 = log s" using bframe_log [OF 1(5)] .
  have 2: "calm s2 ?P {b}" "view s2 = (view s)(bn := d)" "bframe s1 s2"
    "b_blockno (buf s2 b) = bn" "disk s2 = disk s" "dwrites s2 = dwrites s" "log s2 = log s"
    using calm_write [OF 1(2), of b d] 1 l1 by (simp_all add: s2_def)
  have n2: "log_n (log s2) < int LOGSIZE" "log_n (log s2) < log_size (log s2) - 1" "1 \<le> log_outstanding (log s2)"
    using l n o t by (simp_all add: 2(7) in_txn_def params)
  have c2: "calm s2 (log_blocks (log s2)) {b}" "log_inv (log s2)" using 2(1) i by (simp_all add: 2(7))
  obtain s3 where 3: "log_write b s2 = Ok () s3" "log s3 = log_add (log s) bn" "calm s3 (insert bn ?P) {b}"
    "lframe s2 s3" "view s3 = view s2" "disk s3 = disk s2" "dwrites s3 = dwrites s2"
    "\<forall>c. b_blockno (buf s3 c) = b_blockno (buf s2 c) \<and> b_data (buf s3 c) = b_data (buf s2 c)"
    using log_write_ok [OF c2(1) _ c2(2) n2, of b] by (auto simp: 2)
  obtain s4 where 4: "brelse b s3 = Ok () s4" "calm s4 (insert bn ?P) ({b} - {b})" "view s4 = view s3" "bframe s3 s4"
    "disk s4 = disk s3" "dwrites s4 = dwrites s3"
    using calm_brelse [OF 3(3), of b] 3(8) 2(4) by auto
  have l4: "log s4 = log_add (log s) bn" using bframe_log [OF 4(4)] 3(2) by simp
  have pos: "0 \<le> log_n (log s)" using i by (simp add: log_inv_def)
  have "log_inv (log s4)" unfolding l4
    using l n n2 by (intro log_add_inv [OF i _ _ w]) (simp_all add: 2(7) params log_cap_def)
  moreover have "log_blocks (log s4) = insert bn ?P" using log_add_blocks [OF pos] by (simp add: l4)
  moreover have "log_n (log s4) \<le> int (length ws) + 1" using l log_add_n(1) [of "log s" bn] by (simp add: l4)
  moreover have "lframe s s4"
    using bframe_lframe [OF 1(5)] bframe_lframe [OF 2(3)] 3(4) bframe_lframe [OF 4(4)] by (blast intro: lframe_trans)
  moreover have "txn_write (bn, d) s = Ok () s4"
    by (simp add: txn_write_def kdo_Ok [where m = "bread _ _", OF 1(1)] kern_simps s2_def [symmetric]
        kdo_Ok [where m = "log_write _", OF 3(1)] 4(1))
  ultimately show ?thesis using t 4 3 2 P
    by (intro exI [of _ s4]) (auto simp: in_txn_def l4 intro: lframe_trans)
qed

lemma txn_writes_ok:
  assumes "in_txn l0 s0 us s" and "length us + length ws \<le> MAXOPBLOCKS" and "int MAXOPBLOCKS < log_size l0"
    and "\<forall>w\<in>set ws. \<not> in_log l0 (fst w)"
  shows "\<exists>t. for_each ws txn_write s = Ok () t \<and> in_txn l0 s0 (us @ ws) t"
  using assms
proof (induction ws arbitrary: us s)
  case Nil
  then show ?case by (simp add: kern_simps)
next
  case (Cons w ws)
  obtain bn d where w: "w = (bn, d)" by fastforce
  have "in_log (log s) = in_log l0"
    using Cons.prems(1) by (simp add: in_txn_def fun_eq_iff in_log_def log_cap_def log_hd_def log_blk_def)
  then have nin: "\<not> in_log (log s) bn" using Cons.prems(4) w by simp
  obtain t where t: "txn_write w s = Ok () t" "in_txn l0 s0 (us @ [w]) t"
    using txn_write_ok [OF Cons.prems(1) _ Cons.prems(3) nin] Cons.prems(2) w by auto
  obtain u where "for_each ws txn_write t = Ok () u" "in_txn l0 s0 (us @ w # ws) u"
    using Cons.IH [OF t(2)] Cons.prems by auto
  then show ?case by (simp add: kdo_Ok [where m = "txn_write w", OF t(1)])
qed

lemma calm_wake: "calm (s\<lparr>proc := wake c (cpu_proc s) (proc s)\<rparr>) P H = calm s P H"
  unfolding calm_def binv_def by simp

lemma lframe_wake: "lframe s (s\<lparr>proc := wake c (cpu_proc s) (proc s), log := l\<rparr>)"
  unfolding lframe_def using wake_only_state by (intro bframe_eqI) auto

text \<open>The commit of a transaction that may be empty.\<close>

definition txn_commit_writes :: "log \<Rightarrow> (uint \<Rightarrow> bytes) \<Rightarrow> (uint \<times> bytes) list" where
  "txn_commit_writes l V = (if log_n l = 0 then [] else commit_writes l V)"

lemma commit_any:
  assumes c: "calm s (log_blocks (log s)) {}" and i: "log_inv (log s)"
  shows "\<exists>t. commit s = Ok () t \<and> calm t {} {} \<and> lframe s t \<and>
    log t = (log s)\<lparr>log_lh := (log_lh (log s))\<lparr>lh_n := 0\<rparr>\<rparr> \<and>
    view t = apply_writes (txn_commit_writes (log s) (view s)) (view s) \<and>
    dwrites t = dwrites s @ txn_commit_writes (log s) (view s) \<and>
    disk t = apply_writes (txn_commit_writes (log s) (view s)) (disk s)"
proof (cases "log_n (log s) = 0")
  case True
  then have "(log s)\<lparr>log_lh := (log_lh (log s))\<lparr>lh_n := 0\<rparr>\<rparr> = log s" by simp
  with True c show ?thesis
    by (intro exI [of _ s]) (simp add: commit_def kern_simps txn_commit_writes_def log_blocks_def bframe_lframe)
next
  case False
  then have "0 < log_n (log s)" using i by (simp add: log_inv_def)
  with commit_ok [OF c i] False show ?thesis by (simp add: txn_commit_writes_def)
qed

lemma end_op_ok:
  assumes t: "in_txn l0 s0 ws s"
  shows "\<exists>t. end_op s = Ok () t \<and> calm t {} {} \<and> lframe s t \<and>
    log t = (log s)\<lparr>log_outstanding := 0, log_lh := (log_lh (log s))\<lparr>lh_n := 0\<rparr>\<rparr> \<and>
    dwrites t = dwrites s @ txn_commit_writes (log s) (view s) \<and>
    disk t = apply_writes (txn_commit_writes (log s) (view s)) (disk s)"
proof -
  define s1 where "s1 = upd_log (\<lambda>l. l\<lparr>log_outstanding := 0, log_committing := True\<rparr>) s"
  from t have c: "calm s (log_blocks (log s)) {}" and i: "log_inv (log s)" and o: "log_outstanding (log s) = 1"
    and nc: "\<not> log_committing (log s)" unfolding in_txn_def by blast+
  have h: "held s = {}" using calmD(2) [OF c] .
  have same: "log_blocks (log s1) = log_blocks (log s)" "log_inv (log s1) = log_inv (log s)"
    "txn_commit_writes (log s1) = txn_commit_writes (log s)" "view s1 = view s" "disk s1 = disk s" "dwrites s1 = dwrites s"
    by (simp_all add: s1_def log_blocks_def log_inv_def log_layout_def in_log_def log_cap_def log_hd_def log_blk_def
        txn_commit_writes_def commit_writes_def log_writes_def ext)
  have c1: "calm s1 (log_blocks (log s1)) {}" using c unfolding same(1) by (simp add: s1_def)
  obtain s2 where 2: "commit s1 = Ok () s2" "calm s2 {} {}" "lframe s1 s2"
    "log s2 = (log s1)\<lparr>log_lh := (log_lh (log s1))\<lparr>lh_n := 0\<rparr>\<rparr>"
    "dwrites s2 = dwrites s1 @ txn_commit_writes (log s1) (view s1)"
    "disk s2 = apply_writes (txn_commit_writes (log s1) (view s1)) (disk s1)"
    using commit_any [OF c1] i same(2) by blast
  let ?t = "s2\<lparr>proc := wake Chan_log (cpu_proc s2) (proc s2), log := (log s2)\<lparr>log_committing := False\<rparr>\<rparr>"
  have h2: "held s2 = {}" using calmD(2) [OF 2(2)] .
  have u: "(log s)\<lparr>log_outstanding := log_outstanding (log s) - 1, log_committing := True\<rparr> =
           (log s)\<lparr>log_outstanding := 0, log_committing := True\<rparr>" using o by simp
  have hs: "s1\<lparr>held := {}\<rparr> = s1" using h by (simp add: s1_def)
  have "end_op s = Ok () ?t"
    using h nc h2 by (simp add: end_op_def kern_simps o u s1_def [symmetric] hs kdo_Ok [where m = commit, OF 2(1)]
        no_proc_locks_def)
  moreover have "calm ?t {} {}"
    using 2(2) calm_wake [where s = s2 and c = Chan_log and P = "{}" and H = "{}"]
      calm_more [of "\<lambda>_. (log s2)\<lparr>log_committing := False\<rparr>" "s2\<lparr>proc := wake Chan_log (cpu_proc s2) (proc s2)\<rparr>" "{}" "{}"]
    by simp
  moreover have "lframe s ?t"
    using 2(3) lframe_upd_log [of s "\<lambda>l. l\<lparr>log_outstanding := 0, log_committing := True\<rparr>"] lframe_wake [where s = s2]
    unfolding s1_def by (blast intro: lframe_trans)
  moreover have "log ?t = (log s)\<lparr>log_outstanding := 0, log_lh := (log_lh (log s))\<lparr>lh_n := 0\<rparr>\<rparr>"
    using nc by (simp add: 2(4) s1_def)
  ultimately show ?thesis using 2(5,6) same by (intro exI [of _ ?t]) simp
qed

text \<open>
  The machine comes up again: memory is fresh, \<^verbatim>\<open>binit\<close> has run, and the disk is as the crash left it.
\<close>

definition booted :: "'a log_st_scheme \<Rightarrow> bool" where
  "booted r \<longleftrightarrow> (\<exists>r0. binit r0 = Ok () r \<and> (\<forall>b<NBUF. buf r0 b = fresh_buf) \<and> held r0 = {} \<and> cpu_proc r0 \<noteq> None)"

lemma booted_calm:
  assumes "booted r"
  shows "calm r {} {}"
proof -
  from assms obtain r0 where r0: "binit r0 = Ok () r" "\<And>b. b < NBUF \<Longrightarrow> buf r0 b = fresh_buf" "held r0 = {}"
    "cpu_proc r0 \<noteq> None" by (auto simp: booted_def)
  obtain t where t: "binit r0 = Ok () t" "binv t" "\<And>b. b < NBUF \<Longrightarrow> b_refcnt (buf t b) = 0"
    "t = r0\<lparr>buf := buf t, slock := slock t\<rparr>" "\<And>b. b < NBUF \<Longrightarrow> \<not> sl_locked (slock t (Buf_lock b))"
    using binit_ok [OF r0(2)] by metis
  have "r = t" using r0(1) t(1) by simp
  moreover have "held t = {}" "cpu_proc t \<noteq> None" 
    using arg_cong [OF t(4), of held] arg_cong [OF t(4), of cpu_proc] r0(3,4) by simp_all
  ultimately show ?thesis using t by (intro calmI) simp_all
qed

text \<open>What recovery makes of a disk, whatever else is in the superblock.\<close>

lemma initlog_ok:
  assumes b: "booted r" and l: "log_layout l" and sb: "sint (sb_logstart sb) = log_start l" "sint (sb_nlog sb) = log_size l"
    and h: "hdr_ok l (disk r (log_hd l))"
  shows "\<exists>u. initlog ROOTDEV sb r = Ok () u \<and> hdr_n (disk u (log_hd l)) = 0 \<and>
    (\<forall>bn. \<not> in_log l bn \<longrightarrow> disk u bn = recovered l (disk r) bn)"
proof -
  define r1 where "r1 = upd_log (\<lambda>l. l\<lparr>log_start := sint (sb_logstart sb), log_size := sint (sb_nlog sb),
                                    log_dev := ROOTDEV\<rparr>) r"
  have c: "calm r1 {} {}" using booted_calm [OF b] by (simp add: r1_def)
  have same: "log_hd (log r1) = log_hd l" "log_blk (log r1) = log_blk l" "in_log (log r1) = in_log l"
    "log_layout (log r1)" "disk r1 = disk r"
    "log_cap (log r1) = log_cap l"
    using l sb by (simp_all add: r1_def log_hd_def log_blk_def in_log_def log_cap_def log_layout_def fun_eq_iff)
  have "hdr_ok (log r1) (disk r1 (log_hd (log r1)))" using h by (simp add: hdr_ok_def same)
  from recover_ok [OF c same(4) this] obtain u d where u: "recover_from_log r1 = Ok () u" "hdr_n d = 0"
    "disk u = (recovered l (disk r))(log_hd l := d)"
    unfolding same recovered_def by blast
  have "initlog ROOTDEV sb r = Ok () u"
    using u(1) by (simp add: initlog_def kern_simps params r1_def)
  then show ?thesis using u by (intro exI [of _ u]) (auto simp: in_log_def)
qed

text \<open>From inside a transaction: \<^verbatim>\<open>end_op\<close> and a crash during it.\<close>

lemma in_txn_atomic:
  assumes idle: "log_idle s" and t2: "in_txn (log s) s ws s2"
    and sb: "sint (sb_logstart sb) = log_start (log s)" "sint (sb_nlog sb) = log_size (log s)"
  shows "\<exists>t W n. end_op s2 = Ok () t \<and> log_idle t \<and> dwrites t = dwrites s @ W \<and>
    (\<forall>bn. \<not> in_log (log s) bn \<longrightarrow> disk t bn = apply_writes ws (disk s) bn) \<and>
    (\<forall>k r. booted r \<and> disk r = apply_writes (take k W) (disk s) \<longrightarrow>
       (\<exists>u. initlog ROOTDEV sb r = Ok () u \<and> hdr_n (disk u (log_hd (log s))) = 0 \<and>
            (\<forall>bn. \<not> in_log (log s) bn \<longrightarrow>
               disk u bn = (if k \<le> n then disk s bn else apply_writes ws (disk s) bn))))"
proof -
  let ?lg = "log s"
  have c0: "calm s {} {}" and lay0: "log_layout ?lg" and sz: "int MAXOPBLOCKS < log_size ?lg"
    and clear: "hdr_n (disk s (log_hd ?lg)) = 0" using idle by (simp_all add: log_idle_def)
  have v0: "view s = disk s" by (rule ext) (rule calm_clean [OF c0], simp_all)
  let ?l = "log s2"
  from t2 have c2: "calm s2 (log_blocks ?l) {}" and i: "log_inv ?l" and P: "log_blocks ?l = fst ` set ws"
    and v: "view s2 = apply_writes ws (disk s)" and d2: "disk s2 = disk s" "dwrites s2 = dwrites s"
    and st: "log_start ?l = log_start ?lg" "log_size ?l = log_size ?lg" and nc: "\<not> log_committing ?l"
    unfolding in_txn_def v0 by blast+
  have same: "log_hd ?l = log_hd ?lg" "in_log ?l = in_log ?lg"
    by (simp_all add: log_hd_def in_log_def log_cap_def log_blk_def st fun_eq_iff)
  let ?V = "apply_writes ws (disk s)"
  define W where "W = txn_commit_writes ?l ?V"
  obtain t where 3: "end_op s2 = Ok () t" "calm t {} {}" "log t = ?l\<lparr>log_outstanding := 0, log_lh := (log_lh ?l)\<lparr>lh_n := 0\<rparr>\<rparr>"
    "dwrites t = dwrites s @ W" "disk t = apply_writes W (disk s)"
    using end_op_ok [OF t2] by (auto simp: v d2 W_def)
  have other: "disk s bn = ?V bn" if "bn \<notin> log_blocks ?l" for bn
    using apply_writes_other [of bn ws "disk s"] that P by simp
  have lay: "log_layout ?l" using log_invD(1) [OF i] .
  have crash: "hdr_ok ?l (apply_writes (take k W) (disk s) (log_hd ?l)) \<and> (\<forall>bn. \<not> in_log ?l bn \<longrightarrow>
      recovered ?l (apply_writes (take k W) (disk s)) bn = (if k \<le> nat (log_n ?l) then disk s bn else ?V bn))" for k
  proof (cases "log_n ?l = 0")
    case True
    then have "log_blocks ?l = {}" by (simp add: log_blocks_def)
    then have "?V = disk s" using other by auto
    then show ?thesis using recovered_clear [of "disk s" ?l] clear True
      by (simp add: W_def txn_commit_writes_def same)
  next
    case False
    then show ?thesis
      using crash_disk [where k = k, OF i _ other refl] clear by (simp add: W_def txn_commit_writes_def same)
  qed
  have lim: "take (2 * nat (log_n ?l) + 2) W = W"
    using commit_writes_take(3) [of "nat (log_n ?l)" ?l _ ?V] by (auto simp: W_def txn_commit_writes_def)
  have fin: "hdr_n (disk t (log_hd ?l)) = 0 \<and> (\<forall>bn. \<not> in_log ?l bn \<longrightarrow> disk t bn = ?V bn)"
  proof (cases "log_n ?l = 0")
    case True
    then show ?thesis using crash [of 0] clear 3(5) other
      by (auto simp: W_def txn_commit_writes_def same log_blocks_def)
  next
    case False
    have h: "hdr_n (disk t (log_hd ?l)) = 0"
      using False by (simp add: 3(5) W_def txn_commit_writes_def commit_writes_def Let_def hdr_n_put)
    then have "recovered ?l (disk t) = disk t" using recovered_clear by blast
    then show ?thesis using h crash [of "2 * nat (log_n ?l) + 2"] unfolding lim 3(5) [symmetric] by simp
  qed
  have "log_idle t"
    using 3(2) lay sz nc fin by (simp add: log_idle_def 3(3) log_layout_def st same log_hd_def)
  moreover have "\<exists>u. initlog ROOTDEV sb r = Ok () u \<and> hdr_n (disk u (log_hd ?lg)) = 0 \<and>
      (\<forall>bn. \<not> in_log ?lg bn \<longrightarrow> disk u bn = (if k \<le> nat (log_n ?l) then disk s bn else ?V bn))"
    if "booted r" "disk r = apply_writes (take k W) (disk s)" for k r
    using initlog_ok [OF that(1) lay, of sb] crash [of k] sb st unfolding that(2) same by fastforce
  ultimately show ?thesis using 3(1,4) fin unfolding same by blast
qed

text \<open>
  C1.  Crash atomicity of the log.  A thread that finds the log idle and runs a transaction
  (\<^verbatim>\<open>begin_op\<close>, then \<^verbatim>\<open>bread\<close>, modify, \<^verbatim>\<open>log_write\<close>, \<^verbatim>\<open>brelse\<close> for up to \<^verbatim>\<open>MAXOPBLOCKS\<close> blocks, then \<^verbatim>\<open>end_op\<close>)
  returns without a panic, leaves the log idle and the updates on disk.  And if the machine crashes
  after any number \<open>k\<close> of the disk writes this takes, and comes up again with that disk, \<^verbatim>\<open>initlog\<close>
  returns with every block outside the log as it was before the transaction, or every one as the
  transaction wrote it; which of the two depends only on whether the header write was among the \<open>k\<close>.
\<close>

theorem txn_crash_atomic:
  assumes idle: "log_idle s" and len: "length ws \<le> MAXOPBLOCKS" and home: "\<forall>w\<in>set ws. \<not> in_log (log s) (fst w)"
    and sb: "sint (sb_logstart sb) = log_start (log s)" "sint (sb_nlog sb) = log_size (log s)"
  shows "\<exists>t W n. txn ws s = Ok () t \<and> log_idle t \<and> dwrites t = dwrites s @ W \<and>
    (\<forall>bn. \<not> in_log (log s) bn \<longrightarrow> disk t bn = apply_writes ws (disk s) bn) \<and>
    (\<forall>k r. booted r \<and> disk r = apply_writes (take k W) (disk s) \<longrightarrow>
       (\<exists>u. initlog ROOTDEV sb r = Ok () u \<and> hdr_n (disk u (log_hd (log s))) = 0 \<and>
            (\<forall>bn. \<not> in_log (log s) bn \<longrightarrow>
               disk u bn = (if k \<le> n then disk s bn else apply_writes ws (disk s) bn))))"
proof -
  have sz: "int MAXOPBLOCKS < log_size (log s)" using idle by (simp add: log_idle_def)
  from begin_op_ok [OF idle] obtain s1 where 1: "begin_op s = Ok () s1" "in_txn (log s) s [] s1" by blast
  obtain s2 where 2: "for_each ws txn_write s1 = Ok () s2" "in_txn (log s) s ws s2"
    using txn_writes_ok [OF 1(2) _ sz home] len by auto
  have "txn ws s = end_op s2"
    by (simp add: txn_def kdo_Ok [where m = begin_op, OF 1(1)] kdo_Ok [where m = "for_each ws _", OF 2(1)])
  then show ?thesis using in_txn_atomic [OF idle 2(2) sb] by simp
qed

definition ex_log :: log_st where
  "ex_log = kmem_st.extend ex_kmem \<lparr>buf = (\<lambda>_. fresh_buf), disk = (\<lambda>_ _. 0), dwrites = [],
     log = \<lparr>log_start = 2, log_size = 30, log_outstanding = 0, log_committing = False, log_dev = 1,
            log_lh = \<lparr>lh_n = 0, lh_block = (\<lambda>_. 0)\<rparr>\<rparr>\<rparr>"

lemma ex_log_sel [simp]:
  "held ex_log = {}" "cpu_proc ex_log = Some 0" "buf ex_log = (\<lambda>_. fresh_buf)" "disk ex_log = (\<lambda>_ _. 0)"
  "log ex_log = \<lparr>log_start = 2, log_size = 30, log_outstanding = 0, log_committing = False, log_dev = 1,
            log_lh = \<lparr>lh_n = 0, lh_block = (\<lambda>_. 0)\<rparr>\<rparr>"
  by (simp_all add: ex_log_def kmem_st.defs ex_kmem_def kcore.defs ex_core_def)

definition ex_sb :: superblock where
  "ex_sb = \<lparr>sb_magic = 0x10203040, sb_size = 2000, sb_nblocks = 1954, sb_ninodes = 200, sb_nlog = 30,
            sb_logstart = 2, sb_inodestart = 32, sb_bmapstart = 45\<rparr>"

lemma get32_zero [simp]: "get32 (\<lambda>_. 0) a = 0"
  by (simp add: get32_def get16_def)

lemma ex_log_boot:
  obtains s where "binit ex_log = Ok () s" and "booted s" and "log_idle s" and "log s = log ex_log"
    and "disk s = disk ex_log"
proof -
  obtain s where s: "binit ex_log = Ok () s" "s = ex_log\<lparr>buf := buf s, slock := slock s\<rparr>"
    using binit_ok [of ex_log] by (metis ex_log_sel(3))
  have b: "booted s" unfolding booted_def using s(1) by (intro exI [of _ ex_log]) simp
  have f: "log s = log ex_log" "disk s = disk ex_log"
    using arg_cong [OF s(2), of log] arg_cong [OF s(2), of disk] by simp_all
  have "log_idle s" using booted_calm [OF b]
    by (simp add: log_idle_def f log_layout_def params hdr_n_def)
  with s(1) b f show ?thesis by (intro that)
qed

theorem txn_crash_atomic_witness:
  "\<exists>s. binit ex_log = Ok () s \<and> length [(32, \<lambda>_. 7 :: uchar)] \<le> MAXOPBLOCKS \<and>
    (\<exists>t W n. txn [(32, \<lambda>_. 7)] s = Ok () t \<and> log_idle t \<and> dwrites t = dwrites s @ W \<and>
    (\<forall>bn. \<not> in_log (log s) bn \<longrightarrow> disk t bn = apply_writes [(32, \<lambda>_. 7)] (disk s) bn) \<and>
    (\<forall>k r. booted r \<and> disk r = apply_writes (take k W) (disk s) \<longrightarrow>
       (\<exists>u. initlog ROOTDEV ex_sb r = Ok () u \<and> hdr_n (disk u (log_hd (log s))) = 0 \<and>
            (\<forall>bn. \<not> in_log (log s) bn \<longrightarrow>
               disk u bn = (if k \<le> n then disk s bn else apply_writes [(32, \<lambda>_. 7)] (disk s) bn)))))"
proof -
  obtain s where s: "binit ex_log = Ok () s" "log_idle s" "log s = log ex_log" by (rule ex_log_boot)
  have "\<not> in_log (log s) 32"
    by (rule not_in_logI) (simp_all add: s(3) log_layout_def log_cap_def params)
  then show ?thesis
    using txn_crash_atomic [OF s(2), of "[(32, \<lambda>_. 7)]" ex_sb] s(1,3) by (simp add: params ex_sb_def)
qed

section \<open>Reservation of log space\<close>

text \<open>
  Whatever the state, an operation of the log that returns has a known effect on the log's own
  variables.
\<close>

lemma cache_blind_log: "cache_blind (\<lambda>s. log s = l)"
  by (simp add: cache_blind_def core_blind_def)

lemmas log_kept = keeps_intros cache_blind_log cache_blindD(1) [OF cache_blind_log]

lemma keeps_write_log: "keeps (\<lambda>s. log s = l) write_log"
  unfolding write_log_def write_log_one_def copy_block_def
  by (intro log_kept keeps_modify) simp_all

lemma keeps_install_trans: "keeps (\<lambda>s. log s = l) (install_trans r)"
  unfolding install_trans_def install_one_def copy_block_def
  by (intro log_kept keeps_modify) simp_all

lemma keeps_write_head: "keeps (\<lambda>s. log s = l) write_head"
  unfolding write_head_def by (intro log_kept keeps_modify) simp_all

lemma commit_log:
  assumes "commit s = Ok u t"
  shows "log t = (if log_n (log s) > 0 then (log s)\<lparr>log_lh := (log_lh (log s))\<lparr>lh_n := 0\<rparr>\<rparr> else log s)"
proof (cases "log_n (log s) > 0")
  case True
  then have "kdo write_log (\<lambda>_. kdo write_head (\<lambda>_. kdo (install_trans 0) (\<lambda>_. kdo clear_n (\<lambda>_. write_head)))) s = Ok u t"
    using assms by (simp add: commit_def kern_simps)
  then obtain a s1 b s2 c s3 d s4 where e: "write_log s = Ok a s1" "write_head s1 = Ok b s2"
    "install_trans 0 s2 = Ok c s3" "clear_n s3 = Ok d s4" "write_head s4 = Ok u t"
    by (elim kdo_OkE)
  have "log s1 = log s" by (rule keepsD [OF keeps_write_log refl e(1)])
  moreover have "log s2 = log s1" by (rule keepsD [OF keeps_write_head refl e(2)])
  moreover have "log s3 = log s2" by (rule keepsD [OF keeps_install_trans refl e(3)])
  moreover have "log t = log s4" by (rule keepsD [OF keeps_write_head refl e(5)])
  ultimately show ?thesis using True e(4) by (auto simp: clear_n_def kern_simps)
next
  case False
  then show ?thesis using assms by (simp add: commit_def kern_simps)
qed

lemma begin_op_log:
  assumes "begin_op s = Ok u t"
  shows "\<not> log_committing (log s) \<and> log_n (log s) + (log_outstanding (log s) + 1) * int MAXOPBLOCKS \<le> int LOGSIZE \<and>
    log t = (log s)\<lparr>log_outstanding := log_outstanding (log s) + 1\<rparr>"
proof -
  from assms obtain v s1 where a: "acquire Log_lock s = Ok v s1" and b: "begin_op_loop s1 = Ok u t"
    unfolding begin_op_def by (elim kdo_OkE)
  have "log s1 = log s" using a by (auto simp: acquire_def split: if_splits)
  then show ?thesis using b
    by (auto simp: sleep_not_Ok begin_op_loop_def kern_simps release_def split: if_splits)
qed

lemma log_write_log:
  assumes "log_write b s = Ok u t" and "0 \<le> log_n (log s)"
  shows "log_n (log s) < int LOGSIZE \<and> log_n (log s) < log_size (log s) - 1 \<and> 1 \<le> log_outstanding (log s) \<and>
    log t = log_add (log s) (b_blockno (buf s b))"
proof -
  let ?bn = "b_blockno (buf s b)"
  have h: "Log_lock \<notin> held s" using assms(1) by (auto simp: log_write_def acquire_def kdo_def split: if_splits)
  have g: "log_n (log s) < int LOGSIZE" "log_n (log s) < log_size (log s) - 1" "1 \<le> log_outstanding (log s)"
    using assms(1) h by (auto simp: log_write_def kern_simps not_le not_less split: if_splits)
  show ?thesis
  proof (cases "?bn \<in> log_blocks (log s)")
    case True
    then have "int (log_index (log s) ?bn) \<noteq> log_n (log s)" using log_index_same(2) [OF True assms(2)] by auto
    with True assms h g log_index_same(1) [OF True assms(2)] show ?thesis
      by (simp add: log_write_def kern_simps log_add_def)
  next
    case False
    then have "log_index (log s) ?bn = nat (log_n (log s))"
      using log_index_cases [OF assms(2), of ?bn] by (metis imageI lessThan_iff log_blocks_def)
    with False assms h g show ?thesis
      by (cases "Bcache_lock \<in> held s")
        (auto simp: log_write_def kern_simps log_add_def kdo_Panic bpin_def acquire_def kdo_def)
  qed
qed

lemma end_op_log:
  assumes "end_op s = Ok u t"
  shows "\<not> log_committing (log s) \<and>
    log t = (if log_outstanding (log s) = 1
             then (log s)\<lparr>log_outstanding := 0, log_lh := (log_lh (log s))\<lparr>lh_n := min 0 (log_n (log s))\<rparr>\<rparr>
             else (log s)\<lparr>log_outstanding := log_outstanding (log s) - 1\<rparr>)"
proof -
  have h: "Log_lock \<notin> held s" using assms by (auto simp: end_op_def acquire_def kdo_def split: if_splits)
  have nc: "\<not> log_committing (log s)" using assms h by (auto simp: end_op_def kern_simps)
  have fin: "log t' = log s'" if "kdo (wakeup Chan_log) (\<lambda>_. release Log_lock) s' = Ok v t'" for s' t' :: "'a log_st_scheme" and v
  proof -
    have "keeps (\<lambda>x. log x = log s') (kdo (wakeup Chan_log) (\<lambda>_. release Log_lock))"
      by (intro log_kept)
    from keepsD [OF this refl that] show ?thesis .
  qed
  show ?thesis
  proof (cases "log_outstanding (log s) = 1")
    case False
    then show ?thesis using assms h nc by (auto simp: end_op_def kern_simps dest!: fin)
  next
    case True
    define s1 where "s1 = upd_log (\<lambda>l. l\<lparr>log_outstanding := 0, log_committing := True\<rparr>) (s\<lparr>held := held s\<rparr>)"
    have "kdo commit (\<lambda>_. kdo (acquire Log_lock) (\<lambda>_.
         kdo (modify (upd_log (\<lambda>l. l\<lparr>log_committing := False\<rparr>))) (\<lambda>_.
         kdo (wakeup Chan_log) (\<lambda>_. release Log_lock)))) s1 = Ok u t"
      using assms h nc True by (simp add: end_op_def kern_simps s1_def)
    then obtain v s2 where e1: "commit s1 = Ok v s2" and r1: "kdo (acquire Log_lock) (\<lambda>_.
         kdo (modify (upd_log (\<lambda>l. l\<lparr>log_committing := False\<rparr>))) (\<lambda>_.
         kdo (wakeup Chan_log) (\<lambda>_. release Log_lock))) s2 = Ok u t" by (rule kdo_OkE)
    from r1 obtain w s3 where e2: "acquire Log_lock s2 = Ok w s3" and
      e3: "kdo (modify (upd_log (\<lambda>l. l\<lparr>log_committing := False\<rparr>))) (\<lambda>_. kdo (wakeup Chan_log) (\<lambda>_. release Log_lock)) s3 = Ok u t"
      by (rule kdo_OkE)
    have "log s3 = log s2" using e2 by (auto simp: acquire_def split: if_splits)
    moreover have "log t = (log s3)\<lparr>log_committing := False\<rparr>" using fin [OF e3 [unfolded kdo_modify]] by simp
    moreover have "log s2 = (if log_n (log s1) > 0 then (log s1)\<lparr>log_lh := (log_lh (log s1))\<lparr>lh_n := 0\<rparr>\<rparr> else log s1)"
      using commit_log [OF e1] .
    ultimately show ?thesis using True nc by (simp add: s1_def min_def)
  qed
qed

text \<open>
  Several threads use the log.  \<open>bud\<close> has, for each thread between its \<^verbatim>\<open>begin_op\<close> and its \<^verbatim>\<open>end_op\<close>, how
  many blocks its system call has added to the log; a system call adds at most \<^verbatim>\<open>MAXOPBLOCKS\<close>.  Any
  other activity of the kernel leaves the log's variables alone.
\<close>

type_synonym budget = "nat \<Rightarrow> nat option"

inductive log_step :: "('a log_st_scheme \<times> budget) \<Rightarrow> ('a log_st_scheme \<times> budget) \<Rightarrow> bool" where
  op_begin: "begin_op s = Ok () t \<Longrightarrow> bud i = None \<Longrightarrow> log_step (s, bud) (t, bud(i \<mapsto> 0))"
| op_write: "log_write b s = Ok () t \<Longrightarrow> bud i = Some u \<Longrightarrow> u < MAXOPBLOCKS \<Longrightarrow>
    log_step (s, bud) (t, bud(i \<mapsto> if log_n (log t) = log_n (log s) then u else u + 1))"
| op_end: "end_op s = Ok () t \<Longrightarrow> bud i = Some u \<Longrightarrow> log_step (s, bud) (t, bud(i := None))"
| op_other: "log t = log s \<Longrightarrow> log_step (s, bud) (t, bud)"

text \<open>What the transactions in progress may still add to the log.\<close>

definition reserved :: "budget \<Rightarrow> nat" where
  "reserved bud = (\<Sum>i\<in>dom bud. MAXOPBLOCKS - the (bud i))"

fun log_res_inv :: "int \<Rightarrow> ('a log_st_scheme \<times> budget) \<Rightarrow> bool" where
  "log_res_inv sz (s, bud) \<longleftrightarrow>
     finite (dom bud) \<and> (\<forall>i u. bud i = Some u \<longrightarrow> u \<le> MAXOPBLOCKS) \<and> log_size (log s) = sz \<and>
     log_outstanding (log s) = int (card (dom bud)) \<and> 0 \<le> log_n (log s) \<and> \<not> log_committing (log s) \<and>
     log_n (log s) + int (reserved bud) \<le> int LOGSIZE"

fun log_res_start :: "int \<Rightarrow> ('a log_st_scheme \<times> budget) \<Rightarrow> bool" where
  "log_res_start sz (s, bud) \<longleftrightarrow> bud = Map.empty \<and> log_n (log s) = 0 \<and> log_outstanding (log s) = 0 \<and>
     \<not> log_committing (log s) \<and> log_size (log s) = sz"

lemma reserved_upd:
  assumes "finite (dom bud)"
  shows "bud i = None \<Longrightarrow> reserved (bud(i \<mapsto> u)) = reserved bud + (MAXOPBLOCKS - u)"
    and "bud i = Some v \<Longrightarrow> reserved bud = reserved (bud(i := None)) + (MAXOPBLOCKS - v)"
proof -
  have same: "(\<Sum>j\<in>A. MAXOPBLOCKS - the ((bud(i := x)) j)) = (\<Sum>j\<in>A. MAXOPBLOCKS - the (bud j))"
    if "i \<notin> A" for A x by (rule sum.cong) (use that in auto)
  show "reserved (bud(i \<mapsto> u)) = reserved bud + (MAXOPBLOCKS - u)" if "bud i = None"
  proof -
    have "i \<notin> dom bud" using that by auto
    then show ?thesis using assms same [of "dom bud" "Some u"] by (simp add: reserved_def sum.insert)
  qed
  show "reserved bud = reserved (bud(i := None)) + (MAXOPBLOCKS - v)" if "bud i = Some v"
  proof -
    have d: "i \<in> dom bud" using that by auto
    show ?thesis using sum.remove [OF assms d, of "\<lambda>j. MAXOPBLOCKS - the (bud j)"] that same [of "dom bud - {i}" None]
      by (simp add: reserved_def)
  qed
qed

lemma reserved_le: "finite (dom bud) \<Longrightarrow> reserved bud \<le> card (dom bud) * MAXOPBLOCKS"
  unfolding reserved_def by (rule order_trans [OF sum_bounded_above [where K = MAXOPBLOCKS]]) auto

interpretation log_m: machine "log_res_start sz" log_step "log_res_inv sz" for sz
proof
  fix x :: "'a log_st_scheme \<times> budget"
  assume "log_res_start sz x"
  then show "log_res_inv sz x" by (cases x) (auto simp: reserved_def params)
next
  fix x y :: "'a log_st_scheme \<times> budget"
  assume i: "log_res_inv sz x" and "log_step x y"
  from this(2) show "log_res_inv sz y"
  proof cases
    case (op_begin s t bud i)
    with i begin_op_log [of s "()" t] reserved_le [of bud] show ?thesis
      by (auto simp: reserved_upd params algebra_simps domIff)
  next
    case (op_write b s t bud i u)
    have n: "0 \<le> log_n (log s)" using i op_write by simp
    note w = log_write_log [OF op_write(3) n]
    have d: "insert i (dom bud) = dom bud" using op_write(4) by auto
    have fin: "finite (dom bud)" using i op_write by simp
    have r: "reserved (bud(i \<mapsto> v)) = reserved (bud(i := None)) + (MAXOPBLOCKS - v)" for v
      using reserved_upd(1) [of "bud(i := None)" i v] fin by simp
    have "log_n (log t) \<le> log_n (log s) + 1" "log_n (log s) \<le> log_n (log t)"
      using w log_add_n [of "log s"] by auto
    then show ?thesis using i op_write(1,2,4,5) w reserved_upd(2) [OF fin op_write(4)]
      by (auto simp: d r)
  next
    case (op_end s t bud i u)
    have fin: "finite (dom bud)" using i op_end by simp
    have d: "i \<in> dom bud" using op_end by auto
    have c: "card (dom bud) = Suc (card (dom bud - {i}))" using card.remove [OF fin d] by simp
    show ?thesis using i op_end end_op_log [OF op_end(3)] reserved_upd(2) [OF fin op_end(4)] c
      by (auto split: if_splits)
  next
    case (op_other t s bud)
    with i show ?thesis by auto
  qed
qed

text \<open>
  C7.  Soundness of \<^verbatim>\<open>begin_op\<close>'s reservation.  However many threads use the log, as long as no system
  call adds more than \<^verbatim>\<open>MAXOPBLOCKS\<close> blocks, the log never holds more than \<^verbatim>\<open>LOGSIZE\<close> of them, and if
  the log on disk has room for a header and \<^verbatim>\<open>LOGSIZE\<close> blocks (\<^verbatim>\<open>log.size > LOGSIZE\<close>), then \<^verbatim>\<open>log_write\<close> on a
  buffer by a thread within its budget returns: it never panics.
\<close>

theorem log_reservation:
  assumes "log_res_start sz (s0, Map.empty)" and "log_step\<^sup>*\<^sup>* (s0, Map.empty) (s, bud)"
    and "bud i = Some u" and "u < MAXOPBLOCKS" and "int LOGSIZE < sz" and "Log_lock \<notin> held s" and "Bcache_lock \<notin> held s"
  shows "log_n (log s) < int LOGSIZE \<and> (\<exists>t. log_write b s = Ok () t)"
proof -
  have inv: "log_res_inv sz (s, bud)" using log_m.inv_reachable [OF assms(1,2)] .
  have fin: "finite (dom bud)" and d: "i \<in> dom bud" using inv assms(3) by auto
  have c: "1 \<le> card (dom bud)" using fin d by (metis One_nat_def Suc_leI card_gt_0_iff empty_iff)
  have r: "0 < reserved bud" using reserved_upd(2) [OF fin assms(3)] assms(4) by simp
  have n: "0 \<le> log_n (log s)" "log_n (log s) < int LOGSIZE" "log_n (log s) < log_size (log s) - 1"
    "1 \<le> log_outstanding (log s)" using inv r c assms(5) by auto
  then have "\<exists>t. log_write b s = Ok () t" using assms(6,7) by (simp add: log_write_def kern_simps)
  with n show ?thesis by simp
qed

definition ex_log31 :: log_st where
  "ex_log31 = ex_log\<lparr>log := (log ex_log)\<lparr>log_size := 31\<rparr>\<rparr>"

theorem log_reservation_witness:
  "\<exists>s. begin_op ex_log31 = Ok () s \<and> log_n (log s) < int LOGSIZE \<and> (\<exists>t. log_write 0 s = Ok () t)"
proof -
  let ?s = "upd_log (\<lambda>l. l\<lparr>log_outstanding := 1\<rparr>) ex_log31"
  have b: "begin_op ex_log31 = Ok () ?s"
    by (simp add: begin_op_def begin_op_loop_def kern_simps ex_log31_def params)
  have "log_step (ex_log31, Map.empty) (?s, Map.empty(7 \<mapsto> 0))" using b by (rule log_step.op_begin) simp
  then have "log_step\<^sup>*\<^sup>* (ex_log31, Map.empty) (?s, Map.empty(7 \<mapsto> 0))" by (rule r_into_rtranclp)
  with log_reservation [of 31 ex_log31 ?s "Map.empty(7 \<mapsto> 0)" 7 0 0] b show ?thesis
    by (simp add: ex_log31_def params)
qed

text \<open>
  Filling the log of a file system whose superblock says \<^verbatim>\<open>nlog = LOGSIZE\<close>, by three threads that write
  ten blocks each.
\<close>

definition fill_budget :: "nat \<Rightarrow> budget" where
  "fill_budget k = [0 \<mapsto> min k 10, 1 \<mapsto> min (k - 10) 10, 2 \<mapsto> k - 20]"

lemma fill_begin:
  "\<exists>s. log_step\<^sup>*\<^sup>* (ex_log, Map.empty) (s, fill_budget 0) \<and> held s = {} \<and> log_n (log s) = 0 \<and>
     log_outstanding (log s) = 3 \<and> log_size (log s) = 30"
proof -
  let ?s = "\<lambda>n. upd_log (\<lambda>l. l\<lparr>log_outstanding := n\<rparr>) ex_log"
  have b: "begin_op (?s n) = Ok () (?s (n + 1))" if "n \<le> 2" for n
    using that by (simp add: begin_op_def begin_op_loop_def kern_simps params)
  have "log_step (?s 0, Map.empty) (?s (0 + 1), [0 \<mapsto> 0])" by (rule log_step.op_begin [OF b]) simp_all
  then have 1: "log_step (?s 0, Map.empty) (?s 1, [0 \<mapsto> 0])" by (simp only: add_0)
  have "log_step (?s 1, [0 \<mapsto> 0]) (?s (1 + 1), [0 \<mapsto> 0, 1 \<mapsto> 0])" by (rule log_step.op_begin [OF b]) simp_all
  then have 2: "log_step (?s 1, [0 \<mapsto> 0]) (?s 2, [0 \<mapsto> 0, 1 \<mapsto> 0])" by (simp only: one_add_one)
  have "log_step (?s 2, [0 \<mapsto> 0, 1 \<mapsto> 0]) (?s (2 + 1), [0 \<mapsto> 0, 1 \<mapsto> 0, 2 \<mapsto> 0])"
    by (rule log_step.op_begin [OF b]) simp_all
  moreover have "(2 :: int) + 1 = 3" by simp
  ultimately have 3: "log_step (?s 2, [0 \<mapsto> 0, 1 \<mapsto> 0]) (?s 3, [0 \<mapsto> 0, 1 \<mapsto> 0, 2 \<mapsto> 0])" by metis
  have "?s 0 = ex_log" by (simp add: ex_log_def kmem_st.defs ex_kmem_def kcore.defs)
  then have "log_step\<^sup>*\<^sup>* (ex_log, Map.empty) (?s 3, [0 \<mapsto> 0, 1 \<mapsto> 0, 2 \<mapsto> 0])"
    using 1 2 3 by (metis (no_types, lifting) converse_rtranclp_into_rtranclp r_into_rtranclp)
  then show ?thesis by (intro exI [of _ "?s 3"]) (simp add: fill_budget_def)
qed

lemma fill_log:
  assumes "k \<le> 29"
  shows "\<exists>s. log_step\<^sup>*\<^sup>* (ex_log, Map.empty) (s, fill_budget k) \<and> held s = {} \<and> log_n (log s) = int k \<and>
     log_outstanding (log s) = 3 \<and> log_size (log s) = 30 \<and> (\<forall>i<k. log_block (log s) i = 100 + of_nat i)"
  using assms
proof (induction k)
  case 0
  then show ?case using fill_begin by simp
next
  case (Suc k)
  then obtain s where s: "log_step\<^sup>*\<^sup>* (ex_log, Map.empty) (s, fill_budget k)" "held s = {}" "log_n (log s) = int k"
     "log_outstanding (log s) = 3" "log_size (log s) = 30" "\<forall>i<k. log_block (log s) i = 100 + of_nat i" by auto
  let ?s = "upd_buf 0 (\<lambda>x. x\<lparr>b_blockno := 100 + of_nat k\<rparr>) s"
  have 1: "log_step (s, fill_budget k) (?s, fill_budget k)" by (rule log_step.op_other) simp
  have ne: "(of_nat i :: uint) \<noteq> of_nat k" if "i < k" for i
    using that Suc.prems by (simp add: word_of_nat_eq_iff take_bit_nat_eq_self)
  have new: "100 + of_nat k \<notin> log_blocks (log s)" using s(3,6) ne by (fastforce simp: log_blocks_def)
  have "\<exists>t. log_write 0 ?s = Ok () t \<and> held t = {}"
    using s(2-5) Suc.prems by (simp add: log_write_def kern_simps params)
  then obtain t where t: "log_write 0 ?s = Ok () t" "held t = {}" by blast
  have l: "log t = log_add (log s) (100 + of_nat k)" using log_write_log [OF t(1)] s(3) by simp
  then have n: "log_n (log t) = int (Suc k)" using new s(3) by (simp add: log_add_def)
  obtain i u where i: "fill_budget k i = Some u" "u < MAXOPBLOCKS" "fill_budget (Suc k) = (fill_budget k)(i \<mapsto> u + 1)"
  proof -
    consider "k < 10" | "10 \<le> k" "k < 20" | "20 \<le> k" by linarith
    then show ?thesis
    proof cases
      case 1
      then show ?thesis by (intro that [of 0 k]) (auto simp: fill_budget_def params fun_eq_iff)
    next
      case 2
      then show ?thesis by (intro that [of 1 "k - 10"]) (auto simp: fill_budget_def params fun_eq_iff)
    next
      case 3
      then show ?thesis using Suc.prems by (intro that [of 2 "k - 20"]) (auto simp: fill_budget_def params fun_eq_iff)
    qed
  qed
  have "log_step (?s, fill_budget k) (t, fill_budget (Suc k))"
    using log_step.op_write [where bud = "fill_budget k" and i = i, OF t(1) i(1,2)] n s(3) i(3) by simp
  with s(1) 1 have "log_step\<^sup>*\<^sup>* (ex_log, Map.empty) (t, fill_budget (Suc k))"
    by (meson rtranclp.rtrancl_into_rtrancl)
  moreover have "\<forall>j<Suc k. log_block (log t) j = 100 + of_nat j"
    using s(3,6) new by (auto simp: l log_add_def less_Suc_eq)
  ultimately show ?case using t(2) n s(4,5) by (intro exI [of _ t]) (simp add: l)
qed


end
