(* ===== verification/Ring.thy ===== *)
theory Ring
  imports Kprelude
begin

text \<open>
  Ring buffers.  Pipes, the console's input line and the UART's output all keep a read index and a
  write index that only ever grow, as unsigned machine integers that wrap around, and use them modulo
  the size of an array.  The interface is that of a bounded queue; it is shown here once, for indices of
  any width, and each of the three uses it through its own abstraction.
\<close>

section \<open>Bounded queues\<close>

locale bounded_queue =
  fixes content :: "'q \<Rightarrow> 'a list"
    and ok :: "'q \<Rightarrow> bool"
    and enq :: "'a \<Rightarrow> 'q \<Rightarrow> 'q"
    and front :: "'q \<Rightarrow> 'a"
    and deq :: "'q \<Rightarrow> 'q"
    and cap :: nat
  assumes content_enq: "ok q \<Longrightarrow> length (content q) < cap \<Longrightarrow> content (enq x q) = content q @ [x]"
    and ok_enq: "ok q \<Longrightarrow> length (content q) < cap \<Longrightarrow> ok (enq x q)"
    and content_deq: "ok q \<Longrightarrow> content q \<noteq> [] \<Longrightarrow> content (deq q) = tl (content q)"
    and front_hd: "ok q \<Longrightarrow> content q \<noteq> [] \<Longrightarrow> front q = hd (content q)"
    and ok_deq: "ok q \<Longrightarrow> content q \<noteq> [] \<Longrightarrow> ok (deq q)"
    and ok_cap: "ok q \<Longrightarrow> length (content q) \<le> cap"
begin

text \<open>What goes in comes out, in order, nothing lost and nothing twice.\<close>

lemma content_enqs:
  assumes "ok q" and "length (content q) + length xs \<le> cap"
  shows "ok (fold enq xs q) \<and> content (fold enq xs q) = content q @ xs"
  using assms
proof (induction xs arbitrary: q)
  case Nil
  then show ?case by simp
next
  case (Cons x xs)
  then have "length (content q) < cap" by simp
  with Cons show ?case using Cons.IH [of "enq x q"] by (simp add: content_enq ok_enq)
qed

primrec drain :: "nat \<Rightarrow> 'q \<Rightarrow> 'a list \<times> 'q" where
  "drain 0 q = ([], q)"
| "drain (Suc n) q = (let (ys, q') = drain n (deq q) in (front q # ys, q'))"

lemma drain_content:
  assumes "ok q" and "n \<le> length (content q)"
  shows "fst (drain n q) = take n (content q) \<and> content (snd (drain n q)) = drop n (content q) \<and> ok (snd (drain n q))"
  using assms
proof (induction n arbitrary: q)
  case 0
  then show ?case by simp
next
  case (Suc n)
  then have ne: "content q \<noteq> []" by auto
  then obtain x ys where x: "content q = x # ys" by (cases "content q") auto
  have "ok (deq q)" "content (deq q) = ys" using Suc.prems ne x by (auto simp: ok_deq content_deq)
  with Suc.IH [of "deq q"] Suc.prems ne x show ?case by (auto simp: Let_def split_beta front_hd)
qed

lemma fifo:
  assumes "ok q" and "length (content q) + length xs \<le> cap"
  shows "fst (drain (length (content q) + length xs) (fold enq xs q)) = content q @ xs"
  using drain_content [of "fold enq xs q"] content_enqs [OF assms] by simp

end

section \<open>Indices that wrap around\<close>

text \<open>The elements between the read index \<open>r\<close> and the write index \<open>w\<close>, oldest first.\<close>

definition ring :: "nat \<Rightarrow> (nat \<Rightarrow> 'b) \<Rightarrow> 'a::len word \<Rightarrow> 'a word \<Rightarrow> 'b list" where
  "ring n buf r w = map (\<lambda>i. buf (unat (r + of_nat i) mod n)) [0..<unat (w - r)]"

lemma length_ring [simp]: "length (ring n buf r w) = unat (w - r)"
  by (simp add: ring_def)

lemma ring_empty: "ring n buf r w = [] \<longleftrightarrow> r = w"
  using length_ring [of n buf r w] by (metis eq_iff_diff_eq_0 length_0_conv unat_eq_0)

lemma unat_succ_diff: "unat (w + 1 - r) = Suc (unat (w - r))" if "Suc (unat (w - r)) < 2 ^ LENGTH('a)" for w r :: "'a::len word"
proof -
  have e: "w + 1 - r = (w - r) + 1" by simp
  have "unat ((w - r) + 1) = (unat (w - r) + 1) mod 2 ^ LENGTH('a)" by (simp add: unat_word_ariths)
  with that show ?thesis unfolding e by simp
qed

text \<open>
  Two indices fewer than \<open>n\<close> apart fall on different slots when the size \<open>n\<close> divides the range of the
  index type, also when the index wraps around in between.
\<close>

lemma slot_mod:
  fixes r :: "'a::len word"
  assumes "n dvd 2 ^ LENGTH('a)"
  shows "unat (r + of_nat i) mod n = (unat r + i) mod n"
proof -
  have "unat (r + of_nat i) = (unat r + i) mod 2 ^ LENGTH('a)"
    by (simp add: unat_word_ariths unsigned_of_nat take_bit_eq_mod mod_simps)
  then show ?thesis using assms by (simp add: mod_mod_cancel)
qed

lemma slots_differ:
  assumes "i < j" and "j < i + n"
  shows "((a :: nat) + i) mod n \<noteq> (a + j) mod n"
proof
  assume "(a + i) mod n = (a + j) mod n"
  then have "n dvd (a + j) - (a + i)" by (rule mod_eq_dvd_iff_nat [THEN iffD1, rotated, OF sym]) (use assms in simp)
  then have "n dvd j - i" by simp
  moreover have "0 < j - i" "j - i < n" using assms by auto
  ultimately show False by (auto dest: dvd_imp_le)
qed

lemma ring_push:
  fixes r w :: "'a::len word"
  assumes n: "n dvd 2 ^ LENGTH('a)" and room: "unat (w - r) < n" and lt: "n < 2 ^ LENGTH('a)"
  shows "ring n (buf(unat w mod n := x)) r (w + 1) = ring n buf r w @ [x]"
proof -
  let ?k = "unat (w - r)"
  have len: "unat (w + 1 - r) = Suc ?k" by (rule unat_succ_diff) (use room lt in simp)
  have w: "w = r + of_nat ?k" by simp
  have wk: "unat w mod n = (unat r + ?k) mod n" by (subst w) (rule slot_mod [OF n])
  have "(unat r + i) mod n \<noteq> unat w mod n" if "i < ?k" for i
    unfolding wk by (rule slots_differ) (use that room in auto)
  then have "map (\<lambda>i. (buf(unat w mod n := x)) (unat (r + of_nat i) mod n)) [0..<?k] = ring n buf r w"
    by (auto simp: ring_def slot_mod [OF n])
  moreover have "unat (r + of_nat ?k) mod n = unat w mod n" by simp
  ultimately show ?thesis by (simp add: ring_def [of n _ r "w + 1"] len)
qed

lemma ring_pop:
  fixes r w :: "'a::len word"
  assumes "r \<noteq> w"
  shows "ring n buf r w = buf (unat r mod n) # ring n buf (r + 1) w"
proof -
  have "unat (w - r) \<noteq> 0" using assms by (simp add: unat_eq_0)
  then obtain k where k: "unat (w - r) = Suc k" by (cases "unat (w - r)") auto
  have e: "w - (r + 1) = (w - r) - 1" by simp
  have "unat ((w - r) - 1) = unat (w - r) - 1" by (rule unat_minus_one) (use assms in simp)
  then have "unat (w - (r + 1)) = k" unfolding e using k by simp
  then show ?thesis
    by (simp add: ring_def k upt_conv_Cons map_Suc_upt [symmetric] add.assoc del: upt_Suc)
qed

lemma ring_pop_last:
  fixes r w :: "'a::len word"
  assumes "r \<noteq> w"
  shows "ring n buf r w = ring n buf r (w - 1) @ [buf (unat (w - 1) mod n)]"
proof -
  have "w - r \<noteq> 0" using assms by simp
  then have k: "unat (w - r) = Suc (unat (w - 1 - r))"
    using unat_minus_one [of "w - r"] by (simp add: unat_eq_0 [symmetric] diff_diff_eq add.commute del: unat_eq_0)
  have "r + of_nat (unat (w - 1 - r)) = w - 1" by simp
  then show ?thesis by (simp add: ring_def k)
qed

text \<open>The state of a ring as a triple of array, read index and write index.\<close>

definition rq_content :: "nat \<Rightarrow> (nat \<Rightarrow> 'b) \<times> 'a::len word \<times> 'a word \<Rightarrow> 'b list" where
  "rq_content n q = (case q of (buf, r, w) \<Rightarrow> ring n buf r w)"

definition rq_ok :: "nat \<Rightarrow> (nat \<Rightarrow> 'b) \<times> 'a::len word \<times> 'a word \<Rightarrow> bool" where
  "rq_ok n q \<longleftrightarrow> length (rq_content n q) \<le> n"

definition rq_enq :: "nat \<Rightarrow> 'b \<Rightarrow> (nat \<Rightarrow> 'b) \<times> 'a::len word \<times> 'a word \<Rightarrow> (nat \<Rightarrow> 'b) \<times> 'a word \<times> 'a word" where
  "rq_enq n x q = (case q of (buf, r, w) \<Rightarrow> (buf(unat w mod n := x), r, w + 1))"

definition rq_front :: "nat \<Rightarrow> (nat \<Rightarrow> 'b) \<times> 'a::len word \<times> 'a word \<Rightarrow> 'b" where
  "rq_front n q = (case q of (buf, r, w) \<Rightarrow> buf (unat r mod n))"

definition rq_deq :: "(nat \<Rightarrow> 'b) \<times> 'a::len word \<times> 'a word \<Rightarrow> (nat \<Rightarrow> 'b) \<times> 'a word \<times> 'a word" where
  "rq_deq q = (case q of (buf, r, w) \<Rightarrow> (buf, r + 1, w))"

lemma bounded_queue_ring:
  assumes "n dvd 2 ^ LENGTH('a)" and "n < 2 ^ LENGTH('a)"
  shows "bounded_queue (rq_content n :: (nat \<Rightarrow> 'b) \<times> 'a::len word \<times> 'a word \<Rightarrow> 'b list) (rq_ok n)
    (rq_enq n) (rq_front n) rq_deq n"
proof
  fix q :: "(nat \<Rightarrow> 'b) \<times> 'a word \<times> 'a word" and x
  obtain buf r w where q: "q = (buf, r, w)" by (cases q) auto
  assume ok: "rq_ok n q"
  show "length (rq_content n q) \<le> n" using ok by (simp add: rq_ok_def)
  {
    assume "length (rq_content n q) < n"
    then show "rq_content n (rq_enq n x q) = rq_content n q @ [x]" and "rq_ok n (rq_enq n x q)"
      using ring_push [OF assms(1), of w r buf x] assms(2) by (auto simp: q rq_content_def rq_enq_def rq_ok_def)
  }
  {
    assume "rq_content n q \<noteq> []"
    then have "r \<noteq> w" by (simp add: q rq_content_def ring_empty)
    from ring_pop [OF this, of n buf] ok
    show "rq_content n (rq_deq q) = tl (rq_content n q)" and "rq_front n q = hd (rq_content n q)" and "rq_ok n (rq_deq q)"
      by (auto simp: q rq_content_def rq_deq_def rq_front_def rq_ok_def)
  }
qed

end
