(* ===== verification/Uart.thy ===== *)
theory Uart
  imports Log Ring
begin

text \<open>
  \<^verbatim>\<open>kernel/uart.c\<close> (without \<^verbatim>\<open>uartintr\<close>, which is with the console) and \<^verbatim>\<open>kernel/printf.c\<close>.

  The 16550 device is part of the state: its line-control and interrupt-enable registers, the bytes it has
  been given to send, the bytes it has received and that wait to be read, and whether it can take another
  byte.  After each byte it may or may not be able to take the next one at once; the field \<open>uart_quick\<close> says
  so, and nothing is assumed about it.  Code that spins until the device is ready relies on the device
  becoming ready, which it does once it has sent what it was given.
\<close>

section \<open>State\<close>

definition UART_TX_BUF_SIZE :: nat where [params]: "UART_TX_BUF_SIZE = 32"
definition INPUT_BUF_SIZE :: nat where [params]: "INPUT_BUF_SIZE = 128"

record con_st = log_st +
  panicked :: bool
  pr_locking :: bool
  uart_tx_buf :: "nat \<Rightarrow> uchar"
  uart_tx_w :: uint64
  uart_tx_r :: uint64
  uart_ier :: uchar
  uart_lcr :: uchar
  uart_fcr :: uchar
  uart_dll :: uchar
  uart_dlm :: uchar
  uart_idle :: bool
  uart_quick :: "nat \<Rightarrow> bool"
  uart_sent :: "uchar list"
  uart_rx :: "uchar list"
  cons_buf :: "nat \<Rightarrow> uchar"
  cons_r :: uint
  cons_w :: uint
  cons_e :: uint

section \<open>The device's registers\<close>

definition RHR :: nat where [params]: "RHR = 0"
definition THR :: nat where [params]: "THR = 0"
definition IER :: nat where [params]: "IER = 1"
definition FCR :: nat where [params]: "FCR = 2"
definition LCR :: nat where [params]: "LCR = 3"
definition LSR :: nat where [params]: "LSR = 5"
definition LSR_RX_READY :: uchar where [params]: "LSR_RX_READY = 1"
definition LSR_TX_IDLE :: uchar where [params]: "LSR_TX_IDLE = 32"
definition LCR_BAUD_LATCH :: uchar where [params]: "LCR_BAUD_LATCH = 128"
definition LCR_EIGHT_BITS :: uchar where [params]: "LCR_EIGHT_BITS = 3"
definition FCR_FIFO_ENABLE :: uchar where [params]: "FCR_FIFO_ENABLE = 1"
definition FCR_FIFO_CLEAR :: uchar where [params]: "FCR_FIFO_CLEAR = 6"
definition IER_RX_ENABLE :: uchar where [params]: "IER_RX_ENABLE = 1"
definition IER_TX_ENABLE :: uchar where [params]: "IER_TX_ENABLE = 2"

text \<open>
  With the latch bit of the line-control register set, registers 0 and 1 are the baud rate divisor;
  otherwise writing register 0 sends a byte.
\<close>

definition WriteReg :: "nat \<Rightarrow> uchar \<Rightarrow> ('a con_st_scheme, unit) kern" where
  "WriteReg reg v = modify (\<lambda>s.
     if reg = LCR then s\<lparr>uart_lcr := v\<rparr>
     else if reg = FCR then s\<lparr>uart_fcr := v\<rparr>
     else if uart_lcr s AND LCR_BAUD_LATCH \<noteq> 0 then
       (if reg = 0 then s\<lparr>uart_dll := v\<rparr> else if reg = 1 then s\<lparr>uart_dlm := v\<rparr> else s)
     else if reg = THR then s\<lparr>uart_sent := uart_sent s @ [v], uart_idle := uart_quick s (length (uart_sent s))\<rparr>
     else if reg = IER then s\<lparr>uart_ier := v\<rparr>
     else s)"

definition ReadReg_LSR :: "('a con_st_scheme, uchar) kern" where
  "ReadReg_LSR = gets (\<lambda>s. (if uart_rx s \<noteq> [] then LSR_RX_READY else 0) OR (if uart_idle s then LSR_TX_IDLE else 0))"

definition ReadReg_RHR :: "('a con_st_scheme, uchar) kern" where
  "ReadReg_RHR = (\<lambda>s. case uart_rx s of [] \<Rightarrow> Ok 0 s | c # cs \<Rightarrow> Ok c (s\<lparr>uart_rx := cs\<rparr>))"

text \<open>Spinning until the transmitter is idle.\<close>

definition wait_tx_idle :: "('a con_st_scheme, unit) kern" where
  "wait_tx_idle = modify (\<lambda>s. s\<lparr>uart_idle := True\<rparr>)"

section \<open>The driver\<close>

definition uartinit :: "('a con_st_scheme, unit) kern" where
  "uartinit =
     kdo (WriteReg IER 0) (\<lambda>_.
     kdo (WriteReg LCR LCR_BAUD_LATCH) (\<lambda>_.
     kdo (WriteReg 0 3) (\<lambda>_.
     kdo (WriteReg 1 0) (\<lambda>_.
     kdo (WriteReg LCR LCR_EIGHT_BITS) (\<lambda>_.
     kdo (WriteReg FCR (FCR_FIFO_ENABLE OR FCR_FIFO_CLEAR)) (\<lambda>_.
     WriteReg IER (IER_TX_ENABLE OR IER_RX_ENABLE)))))))"

text \<open>
  The loop of \<^verbatim>\<open>uartstart\<close> ends when the buffer is empty or the device is busy; its fuel is the size of the
  buffer, plus one.
\<close>

primrec uartstart_loop :: "nat \<Rightarrow> ('a con_st_scheme, unit) kern" where
  "uartstart_loop 0 = diverge"
| "uartstart_loop (Suc fuel) =
     kdo (gets uart_tx_w) (\<lambda>w.
     kdo (gets uart_tx_r) (\<lambda>r.
       if w = r then ret ()
       else
         kdo ReadReg_LSR (\<lambda>lsr.
           if lsr AND LSR_TX_IDLE = 0 then ret ()
           else
             kdo (gets (\<lambda>s. uart_tx_buf s (unat r mod UART_TX_BUF_SIZE))) (\<lambda>c.
             kdo (modify (\<lambda>s. s\<lparr>uart_tx_r := uart_tx_r s + 1\<rparr>)) (\<lambda>_.
             kdo (wakeup Chan_uart_tx_r) (\<lambda>_.
             kdo (WriteReg THR c) (\<lambda>_.
             uartstart_loop fuel)))))))"

definition uartstart :: "('a con_st_scheme, unit) kern" where
  "uartstart = uartstart_loop (UART_TX_BUF_SIZE + 1)"

text \<open>
  A thread that finds the buffer full sleeps and, woken, holds the lock again and tests again: it goes on as
  \<open>uartputc_loop\<close>.
\<close>

definition uartputc_loop :: "uchar \<Rightarrow> ('a con_st_scheme, unit) kern" where
  "uartputc_loop c =
     kdo (gets uart_tx_w) (\<lambda>w.
     kdo (gets uart_tx_r) (\<lambda>r.
       if w = r + of_nat UART_TX_BUF_SIZE then sleep Chan_uart_tx_r Uart_tx_lock
       else
         kdo (modify (\<lambda>s. s\<lparr>uart_tx_buf := (uart_tx_buf s)(unat w mod UART_TX_BUF_SIZE := c)\<rparr>)) (\<lambda>_.
         kdo (modify (\<lambda>s. s\<lparr>uart_tx_w := uart_tx_w s + 1\<rparr>)) (\<lambda>_.
         kdo uartstart (\<lambda>_.
         release Uart_tx_lock)))))"

definition uartputc :: "uchar \<Rightarrow> ('a con_st_scheme, unit) kern" where
  "uartputc c =
     kdo (acquire Uart_tx_lock) (\<lambda>_.
     kdo (gets panicked) (\<lambda>p.
       if p then diverge else uartputc_loop c))"

definition uartputc_sync :: "uchar \<Rightarrow> ('a con_st_scheme, unit) kern" where
  "uartputc_sync c =
     kdo (gets panicked) (\<lambda>p.
       if p then diverge
       else kdo wait_tx_idle (\<lambda>_. WriteReg THR c))"

text \<open>The second half of \<^verbatim>\<open>uartintr\<close>.\<close>

definition uartintr_tx :: "('a con_st_scheme, unit) kern" where
  "uartintr_tx =
     kdo (acquire Uart_tx_lock) (\<lambda>_.
     kdo uartstart (\<lambda>_.
     release Uart_tx_lock))"

definition uartgetc :: "('a con_st_scheme, int) kern" where
  "uartgetc =
     kdo ReadReg_LSR (\<lambda>lsr.
       if lsr AND 1 \<noteq> 0 then kdo ReadReg_RHR (\<lambda>c. ret (uint c))
       else ret (-1))"

section \<open>Formatted output\<close>

definition BACKSPACE :: int where [params]: "BACKSPACE = 0x100"

definition consputc :: "int \<Rightarrow> ('a con_st_scheme, unit) kern" where
  "consputc c =
     (if c = BACKSPACE then
        kdo (uartputc_sync 8) (\<lambda>_. kdo (uartputc_sync 32) (\<lambda>_. uartputc_sync 8))
      else uartputc_sync (word_of_int c))"

definition digits :: "nat \<Rightarrow> char" where
  "digits i = ''0123456789abcdef'' ! i"

text \<open>
  The characters that \<^verbatim>\<open>printint\<close> stores into its array \<^verbatim>\<open>buf\<close>, in the order in which it stores them: the
  \<^verbatim>\<open>do\<close>--\<^verbatim>\<open>while\<close> loop over the digits, then the sign.  64 turns are enough for every base from 2 on.
\<close>

primrec printint_digits :: "nat \<Rightarrow> uint64 \<Rightarrow> uint64 \<Rightarrow> string" where
  "printint_digits 0 x base = []"
| "printint_digits (Suc fuel) x base =
     digits (unat (x mod base)) # (let x' = x div base in if x' \<noteq> 0 then printint_digits fuel x' base else [])"

definition printint_buf :: "uint64 \<Rightarrow> uint64 \<Rightarrow> bool \<Rightarrow> string" where
  "printint_buf xx base sign =
     (let neg = sign \<and> sint xx < 0;
          x = (if neg then - xx else xx)
      in printint_digits 64 x base @ (if neg then ''-'' else []))"

definition cput :: "char \<Rightarrow> ('a con_st_scheme, unit) kern" where
  "cput c = consputc (of_char c)"

definition printint :: "uint64 \<Rightarrow> uint64 \<Rightarrow> bool \<Rightarrow> ('a con_st_scheme, unit) kern" where
  "printint xx base sign = for_each (rev (printint_buf xx base sign)) cput"

definition printptr :: "uint64 \<Rightarrow> ('a con_st_scheme, unit) kern" where
  "printptr x =
     kdo (cput (CHR ''0'')) (\<lambda>_.
     kdo (cput (CHR ''x'')) (\<lambda>_.
     for_each [0..<16] (\<lambda>i. cput (digits (unat (drop_bit 60 (push_bit (4 * i) x)))))))"

text \<open>
  The arguments of \<^verbatim>\<open>printf\<close>: \<^verbatim>\<open>va_arg\<close> with a type takes the next one.  A \<^verbatim>\<open>%d\<close>, \<^verbatim>\<open>%u\<close> or \<^verbatim>\<open>%x\<close> takes an
  \<^verbatim>\<open>int\<close>, which the call of \<^verbatim>\<open>printint\<close> extends with its sign to 64 bits; \<^verbatim>\<open>%l\<close> and \<^verbatim>\<open>%ll\<close> take a \<^verbatim>\<open>uint64\<close>;
  \<^verbatim>\<open>%s\<close> takes a string, where a null pointer is \<^term>\<open>None\<close>.
\<close>

datatype arg = Arg_int uint | Arg_long uint64 | Arg_str "string option"

fun arg_int :: "arg list \<Rightarrow> uint64" where
  "arg_int (Arg_int v # _) = scast v"
| "arg_int (Arg_long v # _) = scast (ucast v :: uint)"
| "arg_int _ = 0"

fun arg_long :: "arg list \<Rightarrow> uint64" where
  "arg_long (Arg_long v # _) = v"
| "arg_long (Arg_int v # _) = scast v"
| "arg_long _ = 0"

fun arg_str :: "arg list \<Rightarrow> string" where
  "arg_str (Arg_str (Some t) # _) = t"
| "arg_str _ = ''(null)''"

function printf_loop :: "string \<Rightarrow> arg list \<Rightarrow> ('a con_st_scheme, unit) kern" where
  "printf_loop [] ap = ret ()"
| "printf_loop (cx # cs) ap =
     (if cx \<noteq> CHR ''%'' then kdo (cput cx) (\<lambda>_. printf_loop cs ap)
      else case cs of
        [] \<Rightarrow> ret ()
      | c0 # r0 \<Rightarrow>
          if c0 = CHR ''d'' then kdo (printint (arg_int ap) 10 True) (\<lambda>_. printf_loop r0 (tl ap))
          else if c0 = CHR ''l'' \<and> take 1 r0 = ''d'' then
            kdo (printint (arg_long ap) 10 True) (\<lambda>_. printf_loop (drop 1 r0) (tl ap))
          else if c0 = CHR ''l'' \<and> take 2 r0 = ''ld'' then
            kdo (printint (arg_long ap) 10 True) (\<lambda>_. printf_loop (drop 2 r0) (tl ap))
          else if c0 = CHR ''u'' then kdo (printint (arg_int ap) 10 False) (\<lambda>_. printf_loop r0 (tl ap))
          else if c0 = CHR ''l'' \<and> take 1 r0 = ''u'' then
            kdo (printint (arg_long ap) 10 False) (\<lambda>_. printf_loop (drop 1 r0) (tl ap))
          else if c0 = CHR ''l'' \<and> take 2 r0 = ''lu'' then
            kdo (printint (arg_long ap) 10 False) (\<lambda>_. printf_loop (drop 2 r0) (tl ap))
          else if c0 = CHR ''x'' then kdo (printint (arg_int ap) 16 False) (\<lambda>_. printf_loop r0 (tl ap))
          else if c0 = CHR ''l'' \<and> take 1 r0 = ''x'' then
            kdo (printint (arg_long ap) 16 False) (\<lambda>_. printf_loop (drop 1 r0) (tl ap))
          else if c0 = CHR ''l'' \<and> take 2 r0 = ''lx'' then
            kdo (printint (arg_long ap) 16 False) (\<lambda>_. printf_loop (drop 2 r0) (tl ap))
          else if c0 = CHR ''p'' then kdo (printptr (arg_long ap)) (\<lambda>_. printf_loop r0 (tl ap))
          else if c0 = CHR ''s'' then kdo (for_each (arg_str ap) cput) (\<lambda>_. printf_loop r0 (tl ap))
          else if c0 = CHR ''%'' then kdo (cput (CHR ''%'')) (\<lambda>_. printf_loop r0 ap)
          else kdo (cput (CHR ''%'')) (\<lambda>_. kdo (cput c0) (\<lambda>_. printf_loop r0 ap)))"
  by pat_completeness auto
termination by (relation "measure (\<lambda>(f, _). length f)") auto

definition printf :: "string \<Rightarrow> arg list \<Rightarrow> ('a con_st_scheme, int) kern" where
  "printf fmt ap =
     kdo (gets pr_locking) (\<lambda>locking.
     kdo (kwhen locking (acquire Pr_lock)) (\<lambda>_.
     kdo (printf_loop fmt ap) (\<lambda>_.
     kdo (kwhen locking (release Pr_lock)) (\<lambda>_.
     ret 0))))"

text \<open>
  What \<^verbatim>\<open>panic\<close> itself does; elsewhere in the development a call of it is the outcome \<^const>\<open>Panic\<close>.
\<close>

definition panic_body :: "string \<Rightarrow> ('a con_st_scheme, unit) kern" where
  "panic_body e =
     kdo (modify (\<lambda>s. s\<lparr>pr_locking := False\<rparr>)) (\<lambda>_.
     kdo (printf ''panic: '' []) (\<lambda>_.
     kdo (printf ''%s\<newline>'' [Arg_str (Some e)]) (\<lambda>_.
     kdo (modify (\<lambda>s. s\<lparr>panicked := True\<rparr>)) (\<lambda>_.
     diverge))))"

definition printfinit :: "('a con_st_scheme, unit) kern" where
  "printfinit = modify (\<lambda>s. s\<lparr>pr_locking := True\<rparr>)"

section \<open>What is printed\<close>

text \<open>The device is out of its set-up mode and the kernel has not panicked.\<close>

definition con_ok :: "'a con_st_scheme \<Rightarrow> bool" where
  "con_ok s \<longleftrightarrow> \<not> panicked s \<and> uart_lcr s AND LCR_BAUD_LATCH = 0"

definition emit :: "uchar \<Rightarrow> 'a con_st_scheme \<Rightarrow> 'a con_st_scheme" where
  "emit c s = s\<lparr>uart_sent := uart_sent s @ [c], uart_idle := uart_quick s (length (uart_sent s))\<rparr>"

definition emits :: "uchar list \<Rightarrow> 'a con_st_scheme \<Rightarrow> 'a con_st_scheme" where
  "emits cs s = fold emit cs s"

lemma emits_simps [simp]:
  "emits [] s = s" "emits (c # cs) s = emits cs (emit c s)" "emits (as @ bs) s = emits bs (emits as s)"
  by (simp_all add: emits_def)

lemma emit_fields [simp]:
  "con_ok (emit c s) = con_ok s" "held (emit c s) = held s" "uart_sent (emit c s) = uart_sent s @ [c]"
  "pr_locking (emit c s) = pr_locking s" "cpu_proc (emit c s) = cpu_proc s" "proc (emit c s) = proc s"
  by (simp_all add: con_ok_def emit_def)

lemma emits_fields [simp]:
  "con_ok (emits cs s) = con_ok s" "held (emits cs s) = held s" "uart_sent (emits cs s) = uart_sent s @ cs"
  "pr_locking (emits cs s) = pr_locking s" "cpu_proc (emits cs s) = cpu_proc s" "proc (emits cs s) = proc s"
  by (induction cs arbitrary: s) simp_all

lemma emit_cons [simp]:
  "cons_buf (emit c s) = cons_buf s" "cons_r (emit c s) = cons_r s" "cons_w (emit c s) = cons_w s" "cons_e (emit c s) = cons_e s"
  by (simp_all add: emit_def)

lemma emits_cons [simp]:
  "cons_buf (emits cs s) = cons_buf s" "cons_r (emits cs s) = cons_r s" "cons_w (emits cs s) = cons_w s" "cons_e (emits cs s) = cons_e s"
  by (induction cs arbitrary: s) simp_all

lemma emit_held [simp]: "emit c (s\<lparr>held := h\<rparr>) = (emit c s)\<lparr>held := h\<rparr>"
  by (simp add: emit_def)

lemma emits_held [simp]: "emits cs (s\<lparr>held := h\<rparr>) = (emits cs s)\<lparr>held := h\<rparr>"
  by (induction cs arbitrary: s) simp_all

lemma WriteReg_THR: "con_ok s \<Longrightarrow> WriteReg THR c s = Ok () (emit c s)"
  by (simp add: WriteReg_def kern_simps params con_ok_def emit_def)

lemma kdo_WriteReg_THR [kern_simps]: "con_ok s \<Longrightarrow> kdo (WriteReg THR c) f s = f () (emit c s)"
  by (rule kdo_Ok) (rule WriteReg_THR)

lemma uartputc_sync_at: "con_ok s \<Longrightarrow> uartputc_sync c s = Ok () (emit c s)"
  by (simp add: uartputc_sync_def kern_simps wait_tx_idle_def WriteReg_def params con_ok_def emit_def)

lemma cput_at: "con_ok s \<Longrightarrow> cput c s = Ok () (emit (of_char c) s)"
proof -
  have "(of_char c :: int) \<noteq> 0x100" using char_of_mod_256 of_char_of [of 1] by (cases c) (simp split: if_splits)
  then show "con_ok s \<Longrightarrow> ?thesis" by (simp add: cput_def consputc_def params uartputc_sync_at of_int_of_char)
qed

lemma kdo_cput [kern_simps]: "con_ok s \<Longrightarrow> kdo (cput c) f s = f () (emit (of_char c) s)"
  by (rule kdo_Ok) (rule cput_at)

lemma puts_at: "con_ok s \<Longrightarrow> for_each cs cput s = Ok () (emits (map of_char cs) s)"
  by (induction cs arbitrary: s) (simp_all add: kern_simps)

lemma kdo_puts [kern_simps]: "con_ok s \<Longrightarrow> kdo (for_each cs cput) f s = f () (emits (map of_char cs) s)"
  by (rule kdo_Ok) (rule puts_at)

text \<open>The text of a number, and of a whole format.\<close>

definition num_text :: "uint64 \<Rightarrow> uint64 \<Rightarrow> bool \<Rightarrow> string" where
  "num_text xx base sign = rev (printint_buf xx base sign)"

definition ptr_text :: "uint64 \<Rightarrow> string" where
  "ptr_text x = ''0x'' @ map (\<lambda>i. digits (unat (drop_bit 60 (push_bit (4 * i) x)))) [0..<16]"

text \<open>One conversion: its length in the format after the \<^verbatim>\<open>%\<close>, its text, and whether it takes an argument.\<close>

definition conv :: "string \<Rightarrow> arg list \<Rightarrow> nat \<times> string \<times> bool" where
  "conv cs ap =
     (if take 1 cs = ''d'' then (1, num_text (arg_int ap) 10 True, True)
      else if take 2 cs = ''ld'' then (2, num_text (arg_long ap) 10 True, True)
      else if take 3 cs = ''lld'' then (3, num_text (arg_long ap) 10 True, True)
      else if take 1 cs = ''u'' then (1, num_text (arg_int ap) 10 False, True)
      else if take 2 cs = ''lu'' then (2, num_text (arg_long ap) 10 False, True)
      else if take 3 cs = ''llu'' then (3, num_text (arg_long ap) 10 False, True)
      else if take 1 cs = ''x'' then (1, num_text (arg_int ap) 16 False, True)
      else if take 2 cs = ''lx'' then (2, num_text (arg_long ap) 16 False, True)
      else if take 3 cs = ''llx'' then (3, num_text (arg_long ap) 16 False, True)
      else if take 1 cs = ''p'' then (1, ptr_text (arg_long ap), True)
      else if take 1 cs = ''s'' then (1, arg_str ap, True)
      else if take 1 cs = ''%'' then (1, ''%'', False)
      else (1, ''%'' @ take 1 cs, False))"

function format :: "string \<Rightarrow> arg list \<Rightarrow> string" where
  "format [] ap = []"
| "format (c # cs) ap =
     (if c \<noteq> CHR ''%'' then c # format cs ap
      else if cs = [] then []
      else case conv cs ap of (k, t, a) \<Rightarrow> t @ format (drop (max 1 k) cs) (if a then tl ap else ap))"
  by pat_completeness auto
termination by (relation "measure (\<lambda>(f, _). length f)") auto

lemma printint_at: "con_ok s \<Longrightarrow> printint x base sign s = Ok () (emits (map of_char (num_text x base sign)) s)"
  by (simp add: printint_def num_text_def puts_at)

lemma kdo_printint [kern_simps]:
  "con_ok s \<Longrightarrow> kdo (printint x base sign) f s = f () (emits (map of_char (num_text x base sign)) s)"
  by (rule kdo_Ok) (rule printint_at)

lemma for_each_map: "for_each xs (\<lambda>i. g (h i)) = for_each (map h xs) g"
  by (induction xs) simp_all

lemma printptr_at: "con_ok s \<Longrightarrow> printptr x s = Ok () (emits (map of_char (ptr_text x)) s)"
  unfolding printptr_def for_each_map [where g = cput and h = "\<lambda>i. digits (unat (drop_bit 60 (push_bit (4 * i) x)))"]
  by (simp add: ptr_text_def kern_simps puts_at del: upt_rec_numeral)

lemma kdo_printptr [kern_simps]: "con_ok s \<Longrightarrow> kdo (printptr x) f s = f () (emits (map of_char (ptr_text x)) s)"
  by (rule kdo_Ok) (rule printptr_at)

lemma take_Suc_eq: "take (Suc n) (x # xs) = y # ys \<longleftrightarrow> x = y \<and> take n xs = ys"
  by simp

lemma printf_loop_at:
  fixes s :: "'a con_st_scheme"
  shows "con_ok s \<Longrightarrow> printf_loop fmt ap s = Ok () (emits (map of_char (format fmt ap)) s)"
proof (induction fmt ap arbitrary: s rule: format.induct)
  case (1 ap)
  then show ?case by (simp add: kern_simps)
next
  case (2 c cs ap)
  show ?case
  proof (cases "c = CHR ''%''")
    case False
    with 2 show ?thesis by (simp add: kern_simps)
  next
    case c: True
    show ?thesis
    proof (cases cs)
      case Nil
      with c show ?thesis by (simp add: kern_simps)
    next
      case (Cons c0 r0)
      obtain k t a where conv: "conv cs ap = (k, t, a)" by (cases "conv cs ap") auto
      have IH: "con_ok u \<Longrightarrow> printf_loop (drop (max 1 k) cs) (if a then tl ap else ap) u =
          Ok () (emits (map of_char (format (drop (max 1 k) cs) (if a then tl ap else ap))) u)" for u :: "'a con_st_scheme"
        using 2(2) [OF _ _ conv [symmetric] refl] c Cons by auto
      have "printf_loop (c # cs) ap s = printf_loop (drop (max 1 k) cs) (if a then tl ap else ap) (emits (map of_char t) s)"
        using conv 2(3) unfolding Cons
        by (simp add: c conv_def numeral_2_eq_2 numeral_3_eq_3 kern_simps split: if_splits; auto)
      also have "\<dots> = Ok () (emits (map of_char (format (c # cs) ap)) s)"
        using IH [of "emits (map of_char t) s"] 2(3) c Cons conv by simp
      finally show ?thesis .
    qed
  qed
qed

text \<open>Numbers read back as what was printed.\<close>

definition digit_value :: "char \<Rightarrow> nat" where
  "digit_value c = (if (97 :: nat) \<le> of_char c then of_char c - 87 else of_char c - 48)"

definition read_digits :: "nat \<Rightarrow> string \<Rightarrow> nat" where
  "read_digits base cs = foldl (\<lambda>a c. base * a + digit_value c) 0 cs"

definition read_num :: "nat \<Rightarrow> string \<Rightarrow> int" where
  "read_num base cs = (if take 1 cs = ''-'' then - int (read_digits base (drop 1 cs)) else int (read_digits base cs))"

lemma digit_value_digits: "i < 16 \<Longrightarrow> digit_value (digits i) = i \<and> digits i \<noteq> CHR ''-''"
proof -
  have "list_all (\<lambda>i. digit_value (digits i) = i \<and> digits i \<noteq> CHR ''-'') [0..<16]" by code_simp
  then show "i < 16 \<Longrightarrow> ?thesis" by (simp add: list_all_iff)
qed

lemma read_digits_Cons: "read_digits base (rev (d # ds)) = base * read_digits base (rev ds) + digit_value d"
  by (simp add: read_digits_def)

lemma printint_digits_read:
  assumes "1 < unat base" and "unat base \<le> 16" and "unat x < unat base ^ fuel" and "0 < fuel"
  shows "read_digits (unat base) (rev (printint_digits fuel x base)) = unat x \<and>
    CHR ''-'' \<notin> set (printint_digits fuel x base) \<and> printint_digits fuel x base \<noteq> []"
  using assms(3,4)
proof (induction fuel arbitrary: x)
  case 0
  then show ?case by simp
next
  case (Suc fuel)
  have d: "digit_value (digits (unat (x mod base))) = unat x mod unat base" "digits (unat (x mod base)) \<noteq> CHR ''-''"
  proof -
    have "unat (x mod base) < 16" using assms by (simp add: unat_mod order_less_le_trans [OF mod_less_divisor])
    from digit_value_digits [OF this] show "digit_value (digits (unat (x mod base))) = unat x mod unat base"
      "digits (unat (x mod base)) \<noteq> CHR ''-''" by (simp_all add: unat_mod)
  qed
  show ?case
  proof (cases "x div base = 0")
    case True
    then have "unat x div unat base = 0" by (metis unat_div unat_0)
    then have "unat x < unat base" using assms(1) by (simp add: div_eq_0_iff)
    with True d show ?thesis by (simp add: read_digits_def)
  next
    case False
    then have "unat x div unat base \<noteq> 0" by (metis unat_div unat_eq_0)
    then have "0 < fuel" using Suc.prems by (cases fuel) auto
    moreover have "unat (x div base) < unat base ^ fuel"
      using Suc.prems by (simp add: unat_div div_less_iff_less_mult assms mult.commute less_mult_imp_div_less)
    ultimately have "read_digits (unat base) (rev (printint_digits fuel (x div base) base)) = unat x div unat base"
      "CHR ''-'' \<notin> set (printint_digits fuel (x div base) base)"
      using Suc.IH [of "x div base"] by (auto simp: unat_div)
    with False d read_digits_Cons [of "unat base" "digits (unat (x mod base))"] show ?thesis
      by (simp add: Let_def)
  qed
qed

lemma printint_digits_length:
  assumes "1 < unat base" and "unat x < unat base ^ fuel" and "0 < n" and "0 < fuel"
  shows "length (printint_digits fuel x base) \<le> n \<longleftrightarrow> unat x < unat base ^ n"
  using assms(2-)
proof (induction fuel arbitrary: x n)
  case 0
  then show ?case by simp
next
  case (Suc fuel)
  obtain m where n: "n = Suc m" using Suc.prems by (cases n) auto
  have lt: "unat (x div base) < unat base ^ k \<longleftrightarrow> unat x < unat base ^ Suc k" for k
    using assms(1) by (simp add: unat_div div_less_iff_less_mult mult.commute)
  show ?case
  proof (cases "x div base = 0")
    case True
    then have "unat x div unat base = 0" by (metis unat_div unat_0)
    then have "unat x < unat base ^ 1" using assms(1) by (simp add: div_eq_0_iff)
    moreover have "unat base ^ 1 \<le> unat base ^ n" by (rule power_increasing) (use n assms(1) in auto)
    ultimately have "unat x < unat base ^ n" by (rule order_less_le_trans)
    then show ?thesis using True n by simp
  next
    case False
    then have ge: "unat base \<le> unat x" using assms(1) by (metis div_less not_less unat_div unat_eq_0)
    then have fuel: "0 < fuel" using Suc.prems by (cases fuel) auto
    have ih: "0 < k \<Longrightarrow> length (printint_digits fuel (x div base) base) \<le> k \<longleftrightarrow> unat (x div base) < unat base ^ k" for k
      using Suc.IH [of "x div base" k] lt [of fuel] Suc.prems fuel by simp
    have ne: "printint_digits fuel (x div base) base \<noteq> []" using fuel by (cases fuel) auto
    show ?thesis
    proof (cases m)
      case 0
      with ne n ge False show ?thesis by (simp add: Let_def)
    next
      case (Suc k)
      with n ih [of m] lt [of m] False show ?thesis by (simp add: Let_def)
    qed
  qed
qed

lemma sint_cases: "sint xx = uint xx - (if bit (uint xx) 63 then 2 ^ 64 else 0)" for xx :: uint64
proof -
  have "take_bit 64 (uint xx) = uint xx" using uint_lt2p [of xx] by (simp add: take_bit_int_eq_self)
  then show ?thesis by (simp add: sint_uint signed_take_bit_eq_take_bit_minus)
qed

lemma neg_unat: "sint xx < 0 \<Longrightarrow> int (unat (- xx)) = - sint xx" for xx :: uint64
proof -
  assume n: "sint xx < 0"
  then have u: "uint xx = sint xx + 2 ^ 64" using sint_cases [of xx] by (auto split: if_splits)
  have "uint (- xx) = (- uint xx) mod 2 ^ 64" by (simp add: uint_word_ariths)
  also have "\<dots> = (- sint xx) mod 2 ^ 64" unfolding u by (simp add: mod_simps)
  also have "\<dots> = - sint xx" using n sint_greater_eq [of xx] by (simp add: mod_pos_pos_trivial)
  finally show ?thesis by simp
qed

lemma sint_nonneg: "0 \<le> sint xx \<Longrightarrow> sint xx = int (unat xx)" for xx :: uint64
  using sint_cases [of xx] uint_lt2p [of xx] by (auto split: if_splits)




lemma printf_at:
  assumes "con_ok s" and "Pr_lock \<notin> held s"
  shows "printf fmt ap s = Ok 0 (emits (map of_char (format fmt ap)) s)"
proof (cases "pr_locking s")
  case True
  with assms printf_loop_at [of "s\<lparr>held := insert Pr_lock (held s)\<rparr>" fmt ap] show ?thesis
    by (simp add: printf_def kern_simps con_ok_def kdo_Ok del: printf_loop.simps)
next
  case False
  with assms printf_loop_at [of s fmt ap] show ?thesis
    by (simp add: printf_def kern_simps kdo_Ok del: printf_loop.simps)
qed

lemma kdo_printf [kern_simps]:
  "con_ok s \<Longrightarrow> Pr_lock \<notin> held s \<Longrightarrow> kdo (printf fmt ap) f s = f 0 (emits (map of_char (format fmt ap)) s)"
  by (rule kdo_Ok) (rule printf_at)


definition ex_con :: con_st where
  "ex_con = log_st.extend ex_log \<lparr>panicked = False, pr_locking = True, uart_tx_buf = (\<lambda>_. 0), uart_tx_w = 0,
     uart_tx_r = 0, uart_ier = 3, uart_lcr = 3, uart_fcr = 7, uart_dll = 3, uart_dlm = 0, uart_idle = True,
     uart_quick = (\<lambda>_. False), uart_sent = [], uart_rx = [], cons_buf = (\<lambda>_. 0), cons_r = 0, cons_w = 0, cons_e = 0\<rparr>"

lemma ex_con_sel [simp]:
  "held ex_con = {}" "cpu_proc ex_con = Some 0" "panicked ex_con = False" "uart_lcr ex_con = 3" "uart_tx_w ex_con = 0"
  "uart_tx_r ex_con = 0" "uart_sent ex_con = []" "uart_idle ex_con = True" "con_ok ex_con"
  by (simp_all add: ex_con_def log_st.defs ex_log_def kmem_st.defs ex_kmem_def kcore.defs ex_core_def con_ok_def params)


section \<open>The transmit buffer is a queue\<close>

definition tx_queue :: "'a con_st_scheme \<Rightarrow> uchar list" where
  "tx_queue s = ring UART_TX_BUF_SIZE (uart_tx_buf s) (uart_tx_r s) (uart_tx_w s)"

definition tx_ok :: "'a con_st_scheme \<Rightarrow> bool" where
  "tx_ok s \<longleftrightarrow> length (tx_queue s) \<le> UART_TX_BUF_SIZE"

definition tx_enq :: "uchar \<Rightarrow> 'a con_st_scheme \<Rightarrow> 'a con_st_scheme" where
  "tx_enq c s = s\<lparr>uart_tx_buf := (uart_tx_buf s)(unat (uart_tx_w s) mod UART_TX_BUF_SIZE := c), uart_tx_w := uart_tx_w s + 1\<rparr>"

definition tx_front :: "'a con_st_scheme \<Rightarrow> uchar" where
  "tx_front s = uart_tx_buf s (unat (uart_tx_r s) mod UART_TX_BUF_SIZE)"

definition tx_deq :: "'a con_st_scheme \<Rightarrow> 'a con_st_scheme" where
  "tx_deq s = s\<lparr>uart_tx_r := uart_tx_r s + 1\<rparr>"

interpretation uart_q: bounded_queue tx_queue tx_ok tx_enq tx_front tx_deq UART_TX_BUF_SIZE
proof
  fix s :: "'a con_st_scheme" and c
  assume ok: "tx_ok s"
  show "length (tx_queue s) \<le> UART_TX_BUF_SIZE" using ok by (simp add: tx_ok_def)
  {
    assume "length (tx_queue s) < UART_TX_BUF_SIZE"
    then show "tx_queue (tx_enq c s) = tx_queue s @ [c]" and "tx_ok (tx_enq c s)"
      using ring_push [of UART_TX_BUF_SIZE "uart_tx_w s" "uart_tx_r s" "uart_tx_buf s" c]
      by (simp_all add: tx_queue_def tx_enq_def tx_ok_def params)
  }
  {
    assume "tx_queue s \<noteq> []"
    then have "uart_tx_r s \<noteq> uart_tx_w s" by (simp add: tx_queue_def ring_empty)
    from ring_pop [OF this, of UART_TX_BUF_SIZE "uart_tx_buf s"] ok
    show "tx_queue (tx_deq s) = tl (tx_queue s)" and "tx_front s = hd (tx_queue s)" and "tx_ok (tx_deq s)"
      by (simp_all add: tx_queue_def tx_deq_def tx_front_def tx_ok_def)
  }
qed

text \<open>What the transmit half leaves alone: everything but the process table's run states and its own fields.\<close>

definition tx_frame :: "'a con_st_scheme \<Rightarrow> 'a con_st_scheme \<Rightarrow> bool" where
  "tx_frame s t \<longleftrightarrow> t = s\<lparr>proc := proc t, uart_tx_buf := uart_tx_buf t, uart_tx_w := uart_tx_w t, uart_tx_r := uart_tx_r t,
     uart_idle := uart_idle t, uart_sent := uart_sent t\<rparr> \<and>
     (\<forall>p. proc t p = (proc s p)\<lparr>p_state := p_state (proc t p)\<rparr>)"

lemma tx_frame_fields:
  assumes "tx_frame s t"
  shows "held t = held s" "cpu_proc t = cpu_proc s" "con_ok t = con_ok s" "panicked t = panicked s"
    "uart_quick t = uart_quick s" "no_proc_locks t = no_proc_locks s" "uart_rx t = uart_rx s"
proof -
  have e: "t = s\<lparr>proc := proc t, uart_tx_buf := uart_tx_buf t, uart_tx_w := uart_tx_w t, uart_tx_r := uart_tx_r t,
     uart_idle := uart_idle t, uart_sent := uart_sent t\<rparr>" using assms by (simp add: tx_frame_def)
  show a: "held t = held s" "cpu_proc t = cpu_proc s" "panicked t = panicked s" "uart_quick t = uart_quick s"
    "uart_rx t = uart_rx s"
    using arg_cong [OF e, of held] arg_cong [OF e, of cpu_proc] arg_cong [OF e, of panicked]
      arg_cong [OF e, of uart_quick] arg_cong [OF e, of uart_rx] by simp_all
  have "uart_lcr t = uart_lcr s" using arg_cong [OF e, of uart_lcr] by simp
  with a show "con_ok t = con_ok s" "no_proc_locks t = no_proc_locks s"
    by (simp_all add: con_ok_def no_proc_locks_def)
qed

lemma tx_frame_trans: "tx_frame s t \<Longrightarrow> tx_frame t u \<Longrightarrow> tx_frame s u"
proof -
  assume st: "tx_frame s t" and tu: "tx_frame t u"
  have "u = t\<lparr>proc := proc u, uart_tx_buf := uart_tx_buf u, uart_tx_w := uart_tx_w u, uart_tx_r := uart_tx_r u,
     uart_idle := uart_idle u, uart_sent := uart_sent u\<rparr>" using tu by (simp add: tx_frame_def)
  also have "\<dots> = s\<lparr>proc := proc u, uart_tx_buf := uart_tx_buf u, uart_tx_w := uart_tx_w u, uart_tx_r := uart_tx_r u,
     uart_idle := uart_idle u, uart_sent := uart_sent u\<rparr>"
  proof -
    have e: "t = s\<lparr>proc := proc t, uart_tx_buf := uart_tx_buf t, uart_tx_w := uart_tx_w t, uart_tx_r := uart_tx_r t,
     uart_idle := uart_idle t, uart_sent := uart_sent t\<rparr>" using st by (simp add: tx_frame_def)
    show ?thesis by (subst e) simp
  qed
  finally have "u = s\<lparr>proc := proc u, uart_tx_buf := uart_tx_buf u, uart_tx_w := uart_tx_w u, uart_tx_r := uart_tx_r u,
     uart_idle := uart_idle u, uart_sent := uart_sent u\<rparr>" .
  moreover have "proc u p = (proc s p)\<lparr>p_state := p_state (proc u p)\<rparr>" for p
  proof -
    have "proc u p = (proc t p)\<lparr>p_state := p_state (proc u p)\<rparr>" "proc t p = (proc s p)\<lparr>p_state := p_state (proc t p)\<rparr>"
      using st tu by (simp_all add: tx_frame_def)
    then show ?thesis by (metis (no_types, lifting) proc.fold_congs(1) proc.update_convs(1) proc.select_convs(1) proc.surjective)
  qed
  ultimately show ?thesis by (simp add: tx_frame_def)
qed

text \<open>
  \<^verbatim>\<open>uartstart\<close> hands bytes to the device in the order of the queue, and stops when the queue is empty or the
  device is busy.
\<close>

lemma uartstart_loop_ok:
  assumes "con_ok s" and "no_proc_locks s" and "tx_ok s" and "length (tx_queue s) < fuel"
  shows "\<exists>t. uartstart_loop fuel s = Ok () t \<and> uart_sent t @ tx_queue t = uart_sent s @ tx_queue s \<and>
    (tx_queue t = [] \<or> \<not> uart_idle t) \<and> tx_ok t \<and> tx_frame s t \<and> uart_tx_w t = uart_tx_w s"
  using assms
proof (induction fuel arbitrary: s)
  case 0
  then show ?case by simp
next
  case (Suc fuel)
  have empty: "tx_queue s = [] \<longleftrightarrow> uart_tx_w s = uart_tx_r s" by (auto simp: tx_queue_def ring_empty)
  have idle: "((if uart_rx s \<noteq> [] then LSR_RX_READY else 0) OR (if uart_idle s then LSR_TX_IDLE else 0)) AND LSR_TX_IDLE = 0
      \<longleftrightarrow> \<not> uart_idle s"
    by (simp add: params)
  show ?case
  proof (cases "tx_queue s = [] \<or> \<not> uart_idle s")
    case True
    then have "uartstart_loop (Suc fuel) s = Ok () s"
      by (auto simp: kern_simps empty ReadReg_LSR_def idle)
    with True Suc.prems show ?thesis by (simp add: tx_frame_def)
  next
    case False
    have nz: "LSR_TX_IDLE \<noteq> 0" by (simp add: params)
    define t where "t = emit (tx_front s) ((tx_deq s)\<lparr>proc := wake Chan_uart_tx_r (cpu_proc s) (proc s)\<rparr>)"
    have step: "uartstart_loop (Suc fuel) s = uartstart_loop fuel t"
      using False Suc.prems(1,2)
      by (simp add: kern_simps empty ReadReg_LSR_def idle nz t_def tx_front_def tx_deq_def no_proc_locks_def con_ok_def)
    have q: "tx_queue t = tx_queue (tx_deq s)" by (simp add: t_def tx_queue_def emit_def)
    have deq: "tx_queue (tx_deq s) = tl (tx_queue s)" "tx_front s = hd (tx_queue s)" "tx_ok (tx_deq s)"
      using uart_q.content_deq [OF Suc.prems(3)] uart_q.front_hd [OF Suc.prems(3)] uart_q.ok_deq [OF Suc.prems(3)] False
      by simp_all
    have f: "tx_frame s t" unfolding tx_frame_def by (simp add: t_def emit_def tx_deq_def wake_def)
    have "con_ok t" "no_proc_locks t" using tx_frame_fields [OF f] Suc.prems(1,2) by simp_all
    moreover have "tx_ok t" using deq(3) q by (simp add: tx_ok_def)
    moreover have "length (tx_queue t) < fuel" using Suc.prems(4) False by (cases "tx_queue s") (auto simp: q deq)
    ultimately obtain u where u: "uartstart_loop fuel t = Ok () u" "uart_sent u @ tx_queue u = uart_sent t @ tx_queue t"
      "tx_queue u = [] \<or> \<not> uart_idle u" "tx_ok u" "tx_frame t u" "uart_tx_w u = uart_tx_w t"
      using Suc.IH [of t] by blast
    have "uart_sent t @ tx_queue t = uart_sent s @ tx_queue s"
      using False by (simp add: q deq) (simp add: t_def tx_deq_def deq(2))
    moreover have "uart_tx_w t = uart_tx_w s" by (simp add: t_def tx_deq_def emit_def)
    ultimately show ?thesis using step u f by (intro exI [of _ u]) (auto intro: tx_frame_trans)
  qed
qed

lemma uartputc_loop_ok:
  assumes "con_ok s" and "no_proc_locks s" and "Uart_tx_lock \<in> held s" and "tx_ok s"
    and room: "length (tx_queue s) < UART_TX_BUF_SIZE"
  shows "\<exists>t. uartputc_loop c s = Ok () (t\<lparr>held := held s - {Uart_tx_lock}\<rparr>) \<and>
    uart_sent t @ tx_queue t = uart_sent s @ tx_queue s @ [c] \<and> (tx_queue t = [] \<or> \<not> uart_idle t) \<and> tx_ok t \<and> tx_frame s t"
proof -
  have "uart_tx_w s \<noteq> uart_tx_r s + of_nat UART_TX_BUF_SIZE"
    using room by (auto simp: tx_queue_def params)
  moreover note e = uart_q.content_enq [OF assms(4) room, of c] uart_q.ok_enq [OF assms(4) room, of c]
  have f: "tx_frame s (tx_enq c s)" unfolding tx_frame_def by (simp add: tx_enq_def)
  obtain t where t: "uartstart (tx_enq c s) = Ok () t"
    "uart_sent t @ tx_queue t = uart_sent (tx_enq c s) @ tx_queue (tx_enq c s)"
    "tx_queue t = [] \<or> \<not> uart_idle t" "tx_ok t" "tx_frame (tx_enq c s) t"
    using uartstart_loop_ok [of "tx_enq c s" "UART_TX_BUF_SIZE + 1"] assms(1,2) tx_frame_fields [OF f] e room
    by (auto simp: uartstart_def)
  have "tx_frame s t" using tx_frame_trans [OF f t(5)] .
  moreover have "uart_sent (tx_enq c s) = uart_sent s" by (simp add: tx_enq_def)
  ultimately show ?thesis using t e tx_frame_fields [OF \<open>tx_frame s t\<close>] assms(3)
    \<open>uart_tx_w s \<noteq> uart_tx_r s + of_nat UART_TX_BUF_SIZE\<close>
    by (intro exI [of _ t]) (simp add: uartputc_loop_def kern_simps kdo_Ok [where m = uartstart] tx_enq_def)
qed

text \<open>
  A run of the transmit half: threads write bytes, the device becomes ready, and its interrupt is handled.
  \<open>acc\<close> is what \<^verbatim>\<open>uartputc\<close> has accepted.
\<close>

inductive tx_step :: "('a con_st_scheme \<times> uchar list) \<Rightarrow> ('a con_st_scheme \<times> uchar list) \<Rightarrow> bool" where
  put_byte: "uartputc c s = Ok () t \<Longrightarrow> tx_step (s, acc) (t, acc @ [c])"
| tx_interrupt: "uartintr_tx s = Ok () t \<Longrightarrow> tx_step (s, acc) (t, acc)"
| device_ready: "tx_step (s, acc) (s\<lparr>uart_idle := True\<rparr>, acc)"

fun tx_start :: "('a con_st_scheme \<times> uchar list) \<Rightarrow> bool" where
  "tx_start (s, acc) \<longleftrightarrow> con_ok s \<and> held s = {} \<and> uart_tx_w s = uart_tx_r s \<and> uart_sent s = [] \<and> acc = []"

fun tx_inv :: "('a con_st_scheme \<times> uchar list) \<Rightarrow> bool" where
  "tx_inv (s, acc) \<longleftrightarrow> con_ok s \<and> held s = {} \<and> tx_ok s \<and> uart_sent s @ tx_queue s = acc"

lemma tx_full:
  assumes "tx_ok s"
  shows "uart_tx_w s = uart_tx_r s + of_nat UART_TX_BUF_SIZE \<longleftrightarrow> \<not> length (tx_queue s) < UART_TX_BUF_SIZE"
proof
  show "uart_tx_w s = uart_tx_r s + of_nat UART_TX_BUF_SIZE \<Longrightarrow> \<not> length (tx_queue s) < UART_TX_BUF_SIZE"
    by (simp add: tx_queue_def params)
  assume "\<not> length (tx_queue s) < UART_TX_BUF_SIZE"
  with assms have "unat (uart_tx_w s - uart_tx_r s) = 32" by (simp add: tx_ok_def tx_queue_def params)
  then have "uart_tx_w s - uart_tx_r s = 32" by (simp add: word_unat_eq_iff)
  then show "uart_tx_w s = uart_tx_r s + of_nat UART_TX_BUF_SIZE" by (simp add: params algebra_simps)
qed

lemma uartputc_ok:
  assumes "con_ok s" and "held s = {}" and "tx_ok s"
  shows "length (tx_queue s) < UART_TX_BUF_SIZE \<Longrightarrow>
      \<exists>t. uartputc c s = Ok () t \<and> uart_sent t @ tx_queue t = uart_sent s @ tx_queue s @ [c] \<and> tx_ok t \<and> con_ok t \<and> held t = {}"
    and "\<not> length (tx_queue s) < UART_TX_BUF_SIZE \<Longrightarrow> cpu_proc s = Some p \<Longrightarrow>
      uartputc c s = Switch (upd_proc p (\<lambda>q. q\<lparr>p_chan := Some Chan_uart_tx_r, p_state := SLEEPING\<rparr>) (s\<lparr>held := {Proc_lock p}\<rparr>))"
    and "\<not> length (tx_queue s) < UART_TX_BUF_SIZE \<Longrightarrow> uartputc c s \<noteq> Ok () u"
proof -
  let ?s = "s\<lparr>held := {Uart_tx_lock}\<rparr>"
  have np: "\<not> panicked s" using assms(1) by (simp add: con_ok_def)
  have call: "uartputc c s = uartputc_loop c ?s" using assms(2) np by (simp add: uartputc_def kern_simps)
  have s: "con_ok ?s" "no_proc_locks ?s" "tx_ok ?s" "tx_queue ?s = tx_queue s" "uart_sent ?s = uart_sent s"
    using assms by (simp_all add: con_ok_def no_proc_locks_def tx_ok_def tx_queue_def)
  {
    assume "length (tx_queue s) < UART_TX_BUF_SIZE"
    then obtain t where "uartputc_loop c ?s = Ok () (t\<lparr>held := held ?s - {Uart_tx_lock}\<rparr>)"
      "uart_sent t @ tx_queue t = uart_sent ?s @ tx_queue ?s @ [c]" "tx_ok t" "tx_frame ?s t"
      using uartputc_loop_ok [OF s(1,2) _ s(3), of c] s(4) by auto
    with s tx_frame_fields [of ?s t] call
    show "\<exists>t. uartputc c s = Ok () t \<and> uart_sent t @ tx_queue t = uart_sent s @ tx_queue s @ [c] \<and> tx_ok t \<and> con_ok t \<and> held t = {}"
      by (intro exI [of _ "t\<lparr>held := {}\<rparr>"]) (simp add: tx_ok_def tx_queue_def con_ok_def)
  next
    assume "\<not> length (tx_queue s) < UART_TX_BUF_SIZE"
    then have full: "uart_tx_w s = uart_tx_r s + of_nat UART_TX_BUF_SIZE" using tx_full [OF assms(3)] by simp
    then have sl: "uartputc c s = sleep Chan_uart_tx_r Uart_tx_lock ?s"
      by (simp add: call uartputc_loop_def kern_simps)
    then show "uartputc c s \<noteq> Ok () u" by (simp add: sleep_not_Ok)
    assume "cpu_proc s = Some p"
    with sl show "uartputc c s = Switch (upd_proc p (\<lambda>q. q\<lparr>p_chan := Some Chan_uart_tx_r, p_state := SLEEPING\<rparr>) (s\<lparr>held := {Proc_lock p}\<rparr>))"
      using sleep_at [of ?s p Uart_tx_lock Chan_uart_tx_r] by simp
  }
qed

lemma uartintr_tx_ok:
  assumes "con_ok s" and "held s = {}" and "tx_ok s"
  shows "\<exists>t. uartintr_tx s = Ok () t \<and> uart_sent t @ tx_queue t = uart_sent s @ tx_queue s \<and>
    (tx_queue t = [] \<or> \<not> uart_idle t) \<and> tx_ok t \<and> con_ok t \<and> held t = {}"
proof -
  let ?s = "s\<lparr>held := {Uart_tx_lock}\<rparr>"
  have s: "con_ok ?s" "no_proc_locks ?s" "tx_ok ?s" "tx_queue ?s = tx_queue s" "uart_sent ?s = uart_sent s"
    using assms by (simp_all add: con_ok_def no_proc_locks_def tx_ok_def tx_queue_def)
  have "length (tx_queue ?s) < UART_TX_BUF_SIZE + 1" using assms(3) s(4) by (simp add: tx_ok_def)
  from uartstart_loop_ok [OF s(1-3) this] obtain t where t: "uartstart ?s = Ok () t"
    "uart_sent t @ tx_queue t = uart_sent s @ tx_queue s" "tx_queue t = [] \<or> \<not> uart_idle t" "tx_ok t" "tx_frame ?s t"
    by (auto simp: uartstart_def s(4,5))
  have h: "held t = {Uart_tx_lock}" "con_ok t" using tx_frame_fields [OF t(5)] s(1) by simp_all
  have "uartintr_tx s = Ok () (t\<lparr>held := {}\<rparr>)"
    using assms(2) h by (simp add: uartintr_tx_def kern_simps kdo_Ok [where m = uartstart, OF t(1)])
  with t h show ?thesis by (intro exI [of _ "t\<lparr>held := {}\<rparr>"]) (simp add: tx_ok_def tx_queue_def con_ok_def)
qed

interpretation tx_m: machine tx_start tx_step tx_inv
proof
  fix x :: "'a con_st_scheme \<times> uchar list"
  assume "tx_start x"
  then show "tx_inv x" by (cases x) (auto simp: tx_ok_def tx_queue_def ring_def)
next
  fix x y :: "'a con_st_scheme \<times> uchar list"
  assume i: "tx_inv x" and "tx_step x y"
  from this(2) show "tx_inv y"
  proof cases
    case (put_byte c s t acc)
    then show ?thesis using i uartputc_ok [where s = s and c = c] by (cases "length (tx_queue s) < UART_TX_BUF_SIZE") auto
  next
    case (tx_interrupt s t acc)
    then show ?thesis using i uartintr_tx_ok [of s] by auto
  next
    case (device_ready s acc)
    then show ?thesis using i by (auto simp: tx_ok_def tx_queue_def con_ok_def)
  qed
qed

text \<open>
  C14. The UART's output is a first-in first-out queue.  In every run of \<^verbatim>\<open>uartputc\<close> calls, device interrupts and
  changes of the device's readiness, the bytes given to the device followed by the bytes waiting in the
  buffer are exactly the bytes \<^verbatim>\<open>uartputc\<close> accepted, in their order; with fewer than 32 bytes waiting
  \<^verbatim>\<open>uartputc\<close> returns at once, and otherwise the caller sleeps and nothing is dropped.
\<close>

theorem uart_fifo:
  assumes "tx_start (s0, [])" and "tx_step\<^sup>*\<^sup>* (s0, []) (s, acc)"
  shows "uart_sent s @ tx_queue s = acc \<and> length (tx_queue s) \<le> UART_TX_BUF_SIZE \<and>
    ((\<exists>t. uartputc c s = Ok () t) \<longleftrightarrow> length (tx_queue s) < UART_TX_BUF_SIZE)"
proof -
  have i: "tx_inv (s, acc)" using tx_m.inv_reachable [OF assms] .
  then have "con_ok s" "held s = {}" "tx_ok s" by simp_all
  from uartputc_ok [OF this, where c = c] i show ?thesis by (auto simp: tx_ok_def)
qed

theorem uart_fifo_witness:
  "\<exists>t. uartputc 65 ex_con = Ok () t \<and> uart_sent t @ tx_queue t = [65] \<and> length (tx_queue t) \<le> UART_TX_BUF_SIZE"
proof -
  have st: "tx_start (ex_con, [])" by simp
  have "\<exists>t. uartputc 65 ex_con = Ok () t"
    using uart_fifo [OF st, of ex_con "[]" 65] by (simp add: tx_queue_def ring_def params)
  then obtain t where t: "uartputc 65 ex_con = Ok () t" by blast
  then have "tx_step\<^sup>*\<^sup>* (ex_con, []) (t, [65])" using tx_step.put_byte [OF t, of "[]"] by auto
  from uart_fifo [OF st this] t show ?thesis by blast
qed

end
