(* ===== verification/Console.thy ===== *)
theory Console
  imports Uart Vm
begin

text \<open>
  \<^verbatim>\<open>kernel/console.c\<close>, with \<^verbatim>\<open>uartintr\<close> of \<^verbatim>\<open>uart.c\<close> and \<^verbatim>\<open>procdump\<close> of \<^verbatim>\<open>proc.c\<close>: the interrupt half that edits
  the input line, and the read and write system calls of the console device.

  Shown: the three indices into the input buffer keep their order and their distance, and the interrupt
  handler refines an abstract line editor that has a queue of finished lines and a line being edited.
\<close>

section \<open>Printing the process table\<close>

definition states :: "procstate \<Rightarrow> string" where
  "states st = (case st of UNUSED \<Rightarrow> ''unused'' | USED \<Rightarrow> ''used'' | SLEEPING \<Rightarrow> ''sleep '' | RUNNABLE \<Rightarrow> ''runble''
     | RUNNING \<Rightarrow> ''run   '' | ZOMBIE \<Rightarrow> ''zombie'')"

text \<open>The C string in an array of \<open>n\<close> bytes.\<close>

definition cstring :: "nat \<Rightarrow> bytes \<Rightarrow> string" where
  "cstring n b = map (\<lambda>c. char_of (unat c)) (takeWhile (\<lambda>c. c \<noteq> 0) (map b [0..<n]))"

definition procdump :: "('a con_st_scheme, unit) kern" where
  "procdump =
     kdo (printf ''\<newline>'' []) (\<lambda>_.
     for_each [0..<NPROC] (\<lambda>i.
       kdo (gets (\<lambda>s. proc s i)) (\<lambda>p.
         if p_state p = UNUSED then ret ()
         else
           kdo (printf ''%d %s %s'' [Arg_int (word_of_int (p_pid p)), Arg_str (Some (states (p_state p))),
                                     Arg_str (Some (cstring 16 (p_name p)))]) (\<lambda>_.
           kdo (printf ''\<newline>'' []) (\<lambda>_.
           ret ())))))"

section \<open>The device's system calls\<close>

primrec consolewrite_loop :: "nat \<Rightarrow> mref \<Rightarrow> bytes \<Rightarrow> nat \<Rightarrow> ('a con_st_scheme, int) kern" where
  "consolewrite_loop 0 src loc i = ret (int i)"
| "consolewrite_loop (Suc k) src loc i =
     kdo (either_copyin (\<lambda>_. 0) 0 (mref_add src i) loc 1) (\<lambda>rc.
       if fst rc = -1 then ret (int i)
       else kdo (uartputc (snd rc 0)) (\<lambda>_. consolewrite_loop k src loc (i + 1)))"

definition consolewrite :: "mref \<Rightarrow> bytes \<Rightarrow> int \<Rightarrow> ('a con_st_scheme, int) kern" where
  "consolewrite src loc n = consolewrite_loop (nat n) src loc 0"

text \<open>
  The loop of \<^verbatim>\<open>consoleread\<close>, with \<open>n\<close> bytes still wanted.  A thread that finds no finished line sleeps and,
  woken, holds the lock again and goes on with the same arguments.  The end of the call, after the loop,
  is \<open>consoleread_done\<close>.
\<close>

definition consoleread_done :: "nat \<Rightarrow> nat \<Rightarrow> bytes \<Rightarrow> ('a con_st_scheme, int \<times> bytes) kern" where
  "consoleread_done target n loc = kdo (release Cons_lock) (\<lambda>_. ret (int target - int n, loc))"

primrec consoleread_loop :: "nat \<Rightarrow> nat \<Rightarrow> mref \<Rightarrow> bytes \<Rightarrow> ('a con_st_scheme, int \<times> bytes) kern" where
  "consoleread_loop 0 target dst loc = consoleread_done target 0 loc"
| "consoleread_loop (Suc n) target dst loc =
     kdo (gets cons_r) (\<lambda>r.
     kdo (gets cons_w) (\<lambda>w.
       if r = w then
         kdo curproc (\<lambda>p.
         kdo (killed p) (\<lambda>k.
           if k then kdo (release Cons_lock) (\<lambda>_. ret (-1, loc))
           else sleep Chan_cons_r Cons_lock))
       else
         kdo (gets (\<lambda>s. cons_buf s (unat r mod INPUT_BUF_SIZE))) (\<lambda>c.
         kdo (modify (\<lambda>s. s\<lparr>cons_r := cons_r s + 1\<rparr>)) (\<lambda>_.
           if c = 4 then
             kdo (kwhen (Suc n < target) (modify (\<lambda>s. s\<lparr>cons_r := cons_r s - 1\<rparr>))) (\<lambda>_.
             consoleread_done target (Suc n) loc)
           else
             kdo (either_copyout dst loc (\<lambda>_. c) 0 1) (\<lambda>rl.
               if fst rl = -1 then consoleread_done target (Suc n) (snd rl)
               else if c = 10 then consoleread_done target n (snd rl)
               else consoleread_loop n target (mref_add dst 1) (snd rl))))))"

definition consoleread :: "mref \<Rightarrow> bytes \<Rightarrow> int \<Rightarrow> ('a con_st_scheme, int \<times> bytes) kern" where
  "consoleread dst loc n =
     kdo (acquire Cons_lock) (\<lambda>_. consoleread_loop (nat n) (nat n) dst loc)"

section \<open>The interrupt half\<close>

text \<open>
  The kill-line loop moves \<^verbatim>\<open>cons.e\<close> back towards \<^verbatim>\<open>cons.w\<close>; its fuel is their distance, plus one.
\<close>

primrec kill_line :: "nat \<Rightarrow> ('a con_st_scheme, unit) kern" where
  "kill_line 0 = diverge"
| "kill_line (Suc fuel) =
     kdo (gets cons_e) (\<lambda>e.
     kdo (gets cons_w) (\<lambda>w.
     kdo (gets cons_buf) (\<lambda>B.
       if e \<noteq> w \<and> B (unat (e - 1) mod INPUT_BUF_SIZE) \<noteq> 10 then
         kdo (modify (\<lambda>s. s\<lparr>cons_e := cons_e s - 1\<rparr>)) (\<lambda>_.
         kdo (consputc BACKSPACE) (\<lambda>_.
         kill_line fuel))
       else ret ())))"

definition consoleintr :: "int \<Rightarrow> ('a con_st_scheme, unit) kern" where
  "consoleintr c =
     kdo (acquire Cons_lock) (\<lambda>_.
     kdo (if c = 16 then procdump
          else if c = 21 then
            kdo (gets (\<lambda>s. unat (cons_e s - cons_w s))) (\<lambda>d. kill_line (d + 1))
          else if c = 8 \<or> c = 127 then
            kdo (gets cons_e) (\<lambda>e.
            kdo (gets cons_w) (\<lambda>w.
            kwhen (e \<noteq> w)
              (kdo (modify (\<lambda>s. s\<lparr>cons_e := cons_e s - 1\<rparr>)) (\<lambda>_. consputc BACKSPACE))))
          else
            kdo (gets (\<lambda>s. cons_e s - cons_r s)) (\<lambda>d.
            kwhen (c \<noteq> 0 \<and> d < of_nat INPUT_BUF_SIZE)
              (let c' = (if c = 13 then 10 else c) in
               kdo (consputc c') (\<lambda>_.
               kdo (modify (\<lambda>s. s\<lparr>cons_buf := (cons_buf s)(unat (cons_e s) mod INPUT_BUF_SIZE := word_of_int c'),
                                   cons_e := cons_e s + 1\<rparr>)) (\<lambda>_.
               kdo (gets (\<lambda>s. cons_e s - cons_r s)) (\<lambda>d'.
               kwhen (c' = 10 \<or> c' = 4 \<or> d' = of_nat INPUT_BUF_SIZE)
                 (kdo (modify (\<lambda>s. s\<lparr>cons_w := cons_e s\<rparr>)) (\<lambda>_.
                  wakeup Chan_cons_r)))))))) (\<lambda>_.
     release Cons_lock))"

text \<open>The loop of \<^verbatim>\<open>uartintr\<close> reads what the device has received; its fuel is the number of those bytes, plus one.\<close>

primrec uartintr_rx :: "nat \<Rightarrow> ('a con_st_scheme, unit) kern" where
  "uartintr_rx 0 = diverge"
| "uartintr_rx (Suc fuel) =
     kdo uartgetc (\<lambda>c.
       if c = -1 then ret ()
       else kdo (consoleintr c) (\<lambda>_. uartintr_rx fuel))"

definition uartintr :: "('a con_st_scheme, unit) kern" where
  "uartintr =
     kdo (gets (\<lambda>s. length (uart_rx s))) (\<lambda>k.
     kdo (uartintr_rx (k + 1)) (\<lambda>_.
     uartintr_tx))"

section \<open>The line editor it implements\<close>

text \<open>
  The abstract console input: the bytes of finished lines, not yet read, and the line being edited.  A byte
  typed edits the line; a newline, an end of file or a full buffer finishes it.
\<close>

definition tty :: "uchar \<Rightarrow> uchar list \<times> uchar list \<Rightarrow> uchar list \<times> uchar list" where
  "tty c q = (case q of (lines, line) \<Rightarrow>
     if c = 16 then (lines, line)
     else if c = 21 then (lines, [])
     else if c = 8 \<or> c = 127 then (lines, butlast line)
     else if c \<noteq> 0 \<and> length lines + length line < INPUT_BUF_SIZE then
       (let c' = (if c = 13 then 10 else c); line' = line @ [c'] in
        if c' = 10 \<or> c' = 4 \<or> length lines + length line' = INPUT_BUF_SIZE then (lines @ line', []) else (lines, line'))
     else (lines, line))"

definition cons_lines :: "'a con_st_scheme \<Rightarrow> uchar list" where
  "cons_lines s = ring INPUT_BUF_SIZE (cons_buf s) (cons_r s) (cons_w s)"

definition cons_line :: "'a con_st_scheme \<Rightarrow> uchar list" where
  "cons_line s = ring INPUT_BUF_SIZE (cons_buf s) (cons_w s) (cons_e s)"

definition cons_abs :: "'a con_st_scheme \<Rightarrow> uchar list \<times> uchar list" where
  "cons_abs s = (cons_lines s, cons_line s)"

definition cons_inv :: "'a con_st_scheme \<Rightarrow> bool" where
  "cons_inv s \<longleftrightarrow> unat (cons_w s - cons_r s) + unat (cons_e s - cons_w s) = unat (cons_e s - cons_r s) \<and>
     unat (cons_e s - cons_r s) \<le> INPUT_BUF_SIZE \<and> 10 \<notin> set (cons_line s)"

lemma cons_ring:
  assumes "unat (w - r) + unat (e - w) = unat (e - r)"
  shows "ring n B r e = ring n B r w @ ring n B w e"
proof -
  let ?a = "unat (w - r)" and ?b = "unat (e - w)"
  have w: "r + of_nat (?a + i) = w + of_nat i" for i by simp
  have "[0..<?a + ?b] = [0..<?a] @ map ((+) ?a) [0..<?b]" by (rule nth_equalityI) (auto simp: nth_append)
  then show ?thesis unfolding ring_def assms [symmetric] by (simp add: w comp_def del: of_nat_add)
qed

lemma consputc_at:
  "con_ok s \<Longrightarrow> consputc BACKSPACE s = Ok () (emits [8, 32, 8] s)"
  "con_ok s \<Longrightarrow> c \<noteq> BACKSPACE \<Longrightarrow> consputc c s = Ok () (emits [word_of_int c] s)"
  by (simp_all add: consputc_def kdo_Ok [where m = "uartputc_sync _"] uartputc_sync_at)

lemma kdo_consputc [kern_simps]:
  "con_ok s \<Longrightarrow> kdo (consputc BACKSPACE) f s = f () (emits [8, 32, 8] s)"
  "con_ok s \<Longrightarrow> c \<noteq> BACKSPACE \<Longrightarrow> kdo (consputc c) f s = f () (emits [word_of_int c] s)"
  by (simp_all add: kdo_Ok [OF consputc_at(1)] kdo_Ok [OF consputc_at(2)])

lemma for_each_emits:
  assumes "\<And>i u. i \<in> set is \<Longrightarrow> con_ok u \<Longrightarrow> held u = h \<Longrightarrow> \<exists>cs. body i u = Ok () (emits cs u)" and "con_ok s" and "held s = h"
  shows "\<exists>cs. for_each is body s = Ok () (emits cs s)"
  using assms
proof (induction "is" arbitrary: s)
  case Nil
  then show ?case by (intro exI [of _ "[]"]) (simp add: kern_simps)
next
  case (Cons i "is")
  obtain cs where cs: "body i s = Ok () (emits cs s)" using Cons.prems(1) [of i s] Cons.prems(2,3) by auto
  obtain ds where "for_each is body (emits cs s) = Ok () (emits ds (emits cs s))"
    using Cons.IH [of "emits cs s"] Cons.prems by auto
  then show ?case by (intro exI [of _ "cs @ ds"]) (simp add: kdo_Ok [where m = "body i", OF cs])
qed

lemma procdump_at:
  assumes "con_ok s" and "Pr_lock \<notin> held s"
  shows "\<exists>cs. procdump s = Ok () (emits cs s)"
proof -
  define body :: "nat \<Rightarrow> ('a con_st_scheme, unit) kern" where "body = (\<lambda>i.
       kdo (gets (\<lambda>s. proc s i)) (\<lambda>p.
         if p_state p = UNUSED then ret ()
         else
           kdo (printf ''%d %s %s'' [Arg_int (word_of_int (p_pid p)), Arg_str (Some (states (p_state p))),
                                     Arg_str (Some (cstring 16 (p_name p)))]) (\<lambda>_.
           kdo (printf ''\<newline>'' []) (\<lambda>_.
           ret ()))))"
  have b: "\<exists>cs. body i u = Ok () (emits cs u)" if "con_ok u" "held u = held s" for i and u :: "'a con_st_scheme"
  proof (cases "p_state (proc u i) = UNUSED")
    case True
    then show ?thesis by (intro exI [of _ "[]"]) (simp add: body_def kern_simps)
  next
    case False
    then show ?thesis using that assms(2) by (simp add: body_def kern_simps flip: emits_simps(3) del: format.simps) blast
  qed
  let ?t = "emits (map of_char (format ''\<newline>'' [])) s"
  obtain cs where "for_each [0..<NPROC] body ?t = Ok () (emits cs ?t)"
    using for_each_emits [of "[0..<NPROC]" "held s" body ?t] b assms by auto
  then show ?thesis using assms
    by (intro exI [of _ "map of_char (format ''\<newline>'' []) @ cs"])
      (simp add: procdump_def kern_simps body_def [symmetric] del: format.simps)
qed

lemma emits_cons_e [simp]: "emits cs (s\<lparr>cons_e := x\<rparr>) = (emits cs s)\<lparr>cons_e := x\<rparr>"
proof (induction cs arbitrary: s)
  case (Cons c cs)
  have "emit c (s\<lparr>cons_e := x\<rparr>) = (emit c s)\<lparr>cons_e := x\<rparr>" by (simp add: emit_def)
  then show ?case using Cons.IH [of "emit c s"] by simp
qed simp

lemma con_ok_upd [simp]: "con_ok (s\<lparr>cons_e := x\<rparr>) = con_ok s" "con_ok (s\<lparr>held := h\<rparr>) = con_ok s" "con_ok (s\<lparr>proc := P\<rparr>) = con_ok s"
  "con_ok (s\<lparr>cons_w := x\<rparr>) = con_ok s" "con_ok (s\<lparr>cons_buf := b\<rparr>) = con_ok s"
  by (simp_all add: con_ok_def)

text \<open>With no newline in it, the whole line goes.\<close>

lemma kill_line_at:
  assumes "con_ok s" and "10 \<notin> set (cons_line s)" and "length (cons_line s) < fuel"
  shows "\<exists>cs. kill_line fuel s = Ok () (emits cs (s\<lparr>cons_e := cons_w s\<rparr>))"
  using assms
proof (induction fuel arbitrary: s)
  case 0
  then show ?case by simp
next
  case (Suc fuel)
  show ?case
  proof (cases "cons_e s = cons_w s")
    case True
    then show ?thesis by (intro exI [of _ "[]"]) (simp add: kern_simps)
  next
    case False
    let ?t = "emits [8, 32, 8] (s\<lparr>cons_e := cons_e s - 1\<rparr>)"
    have l: "cons_line s = cons_line ?t @ [cons_buf s (unat (cons_e s - 1) mod INPUT_BUF_SIZE)]"
      using ring_pop_last [of "cons_w s" "cons_e s"] False by (simp add: cons_line_def)
    then have "cons_buf s (unat (cons_e s - 1) mod INPUT_BUF_SIZE) \<noteq> 10" using Suc.prems(2) by auto
    then have step: "kill_line (Suc fuel) s = kill_line fuel ?t"
      using False Suc.prems(1) by (simp add: kern_simps del: emits_simps)
    obtain cs where "kill_line fuel ?t = Ok () (emits cs (?t\<lparr>cons_e := cons_w ?t\<rparr>))"
      using Suc.IH [of ?t] Suc.prems l by auto
    then show ?thesis unfolding step by (intro exI [of _ "[8, 32, 8] @ cs"]) simp
  qed
qed

lemma cons_inv_lengths: "cons_inv s \<Longrightarrow> length (cons_lines s) + length (cons_line s) = unat (cons_e s - cons_r s)"
  by (simp add: cons_inv_def cons_lines_def cons_line_def)

text \<open>The state after a byte was added to the line, before a finished line is handed over.\<close>

lemma add_byte:
  assumes i: "cons_inv s" and lt: "unat (cons_e s - cons_r s) < INPUT_BUF_SIZE"
    and b: "cons_buf t = (cons_buf s)(unat (cons_e s) mod INPUT_BUF_SIZE := c)"
    and f: "cons_e t = cons_e s + 1" "cons_r t = cons_r s" "cons_w t = cons_w s"
  shows "cons_lines t = cons_lines s" and "cons_line t = cons_line s @ [c]"
    and "unat (cons_e t - cons_r t) = Suc (unat (cons_e s - cons_r s))" and "unat (cons_e t - cons_w t) = Suc (unat (cons_e s - cons_w s))"
    and "c \<noteq> 10 \<Longrightarrow> cons_inv t"
proof -
  have k: "unat (cons_w s - cons_r s) + unat (cons_e s - cons_w s) = unat (cons_e s - cons_r s)" using i by (simp add: cons_inv_def)
  have n: "INPUT_BUF_SIZE dvd 2 ^ LENGTH(32)" "INPUT_BUF_SIZE < 2 ^ LENGTH(32)" by (simp_all add: params)
  have all: "ring INPUT_BUF_SIZE (cons_buf t) (cons_r s) (cons_e t) = ring INPUT_BUF_SIZE (cons_buf s) (cons_r s) (cons_e s) @ [c]"
    unfolding b f by (rule ring_push [OF n(1) lt n(2)])
  show line: "cons_line t = cons_line s @ [c]"
    unfolding cons_line_def b f by (rule ring_push [OF n(1) _ n(2)]) (use k lt in simp)
  show er: "unat (cons_e t - cons_r t) = Suc (unat (cons_e s - cons_r s))"
    unfolding f by (rule unat_succ_diff) (use lt in \<open>simp add: params\<close>)
  show ew: "unat (cons_e t - cons_w t) = Suc (unat (cons_e s - cons_w s))"
    unfolding f by (rule unat_succ_diff) (use k lt in \<open>simp add: params\<close>)
  have k': "unat (cons_w s - cons_r s) + unat (cons_e t - cons_w s) = unat (cons_e t - cons_r s)"
    using er ew k f by simp
  show lines: "cons_lines t = cons_lines s"
    using all cons_ring [OF k', of INPUT_BUF_SIZE "cons_buf t"] cons_ring [OF k, of INPUT_BUF_SIZE "cons_buf s"] line f
    by (simp add: cons_lines_def cons_line_def)
  show "c \<noteq> 10 \<Longrightarrow> cons_inv t" using i lt er ew k f line by (auto simp: cons_inv_def)
qed

lemma finish_line:
  assumes "unat (cons_w s - cons_r s) + unat (cons_e s - cons_w s) = unat (cons_e s - cons_r s)"
    and "unat (cons_e s - cons_r s) \<le> INPUT_BUF_SIZE"
    and "cons_buf t = cons_buf s" "cons_r t = cons_r s" "cons_w t = cons_e s" "cons_e t = cons_e s"
  shows "cons_lines t = cons_lines s @ cons_line s" and "cons_line t = []" and "cons_inv t"
  using cons_ring [OF assms(1), of INPUT_BUF_SIZE "cons_buf s"] assms(2-)
  by (simp_all add: cons_lines_def cons_line_def cons_inv_def ring_def)

definition typed :: "uchar \<Rightarrow> 'a con_st_scheme \<Rightarrow> 'a con_st_scheme \<Rightarrow> bool" where
  "typed c s t \<longleftrightarrow> cons_abs t = tty c (cons_abs s) \<and> cons_inv t \<and> con_ok t \<and> held t = {}"

lemma shrink_line:
  assumes i: "cons_inv s" and ne: "cons_e s \<noteq> cons_w s"
    and f: "cons_buf t = cons_buf s" "cons_r t = cons_r s" "cons_w t = cons_w s" "cons_e t = cons_e s - 1"
  shows "cons_lines t = cons_lines s" and "cons_line t = butlast (cons_line s)" and "cons_inv t"
proof -
  show "cons_lines t = cons_lines s" by (simp add: cons_lines_def f)
  have l: "cons_line s = cons_line t @ [cons_buf s (unat (cons_e s - 1) mod INPUT_BUF_SIZE)]"
    using ring_pop_last [of "cons_w s" "cons_e s"] ne by (simp add: cons_line_def f)
  then show "cons_line t = butlast (cons_line s)" by simp
  have "length (cons_line s) = unat (cons_e s - cons_w s)" "length (cons_line t) = unat (cons_e t - cons_w t)"
    by (simp_all add: cons_line_def)
  then have w: "unat (cons_e s - cons_w s) = Suc (unat (cons_e t - cons_w t))" using l by simp
  have "cons_e s \<noteq> cons_r s"
  proof
    assume "cons_e s = cons_r s"
    then have "unat (cons_e s - cons_w s) = 0" using i by (simp add: cons_inv_def)
    then show False using w by simp
  qed
  then have "unat (cons_e s - cons_r s) = Suc (unat (cons_e t - cons_r t))"
    using arg_cong [OF ring_pop_last [of "cons_r s" "cons_e s" INPUT_BUF_SIZE "cons_buf s"], of length] f by simp
  then show "cons_inv t" using i w l f by (auto simp: cons_inv_def)
qed

lemma drop_line:
  assumes "cons_inv s" and f: "cons_buf t = cons_buf s" "cons_r t = cons_r s" "cons_w t = cons_w s" "cons_e t = cons_w s"
  shows "cons_lines t = cons_lines s" and "cons_line t = []" and "cons_inv t"
  using assms by (auto simp: cons_lines_def cons_line_def cons_inv_def ring_def)

lemma no_proc_locks_cons [simp]: "held s \<subseteq> {Cons_lock} \<Longrightarrow> no_proc_locks s"
  by (auto simp: no_proc_locks_def)

lemma consoleintr_edit:
  assumes "con_ok s" and "held s = {}" and "cons_inv s" and "c = 16 \<or> c = 21 \<or> c = 8 \<or> c = 127"
  shows "\<exists>t. consoleintr c s = Ok () t \<and> typed (word_of_int c) s t"
proof -
  let ?s = "s\<lparr>held := {Cons_lock}\<rparr>"
  consider "c = 16" | "c = 21" | "c = 8 \<or> c = 127" "cons_e s = cons_w s" | "c = 8 \<or> c = 127" "cons_e s \<noteq> cons_w s"
    using assms(4) by blast
  then show ?thesis
  proof cases
    case 1
    obtain cs where cs: "procdump ?s = Ok () (emits cs ?s)" using procdump_at [of ?s] assms by auto
    show ?thesis using assms 1
      by (auto simp: consoleintr_def kern_simps kdo_Ok [where m = procdump, OF cs] typed_def tty_def cons_abs_def
          cons_lines_def cons_line_def cons_inv_def)
  next
    case 2
    obtain cs where cs: "kill_line (Suc (unat (cons_e s - cons_w s))) ?s = Ok () (emits cs (?s\<lparr>cons_e := cons_w s\<rparr>))"
      using kill_line_at [of ?s "Suc (unat (cons_e s - cons_w s))"] assms by (auto simp: cons_line_def cons_inv_def)
    define t where "t = (emits cs (?s\<lparr>cons_e := cons_w s\<rparr>))\<lparr>held := {}\<rparr>"
    have "consoleintr c s = Ok () t"
      using assms 2 by (simp add: consoleintr_def kern_simps kdo_Ok [where m = "kill_line _", OF cs] t_def del: kill_line.simps)
    then show ?thesis using drop_line [OF assms(3), of t] assms 2 by (auto simp: t_def typed_def tty_def cons_abs_def)
  next
    case 3
    then show ?thesis using assms
      by (auto simp: consoleintr_def kern_simps typed_def tty_def cons_abs_def cons_lines_def cons_line_def cons_inv_def ring_def)
  next
    case 4
    define t where "t = (emits [8, 32, 8] (s\<lparr>cons_e := cons_e s - 1\<rparr>))\<lparr>held := {}\<rparr>"
    have "consoleintr c s = Ok () t"
      using assms 4 by (auto simp: consoleintr_def kern_simps t_def simp del: emits_simps)
    moreover have "cons_lines t = cons_lines s \<and> cons_line t = butlast (cons_line s) \<and> cons_inv t \<and> con_ok t \<and> held t = {}"
      using shrink_line [OF assms(3) 4(2), of t] assms by (simp add: t_def del: emits_simps)
    ultimately show ?thesis using 4 by (auto simp: typed_def tty_def cons_abs_def)
  qed
qed

text \<open>The state after an ordinary byte \<open>c\<close> was echoed and stored.\<close>

definition stored :: "int \<Rightarrow> 'a con_st_scheme \<Rightarrow> 'a con_st_scheme" where
  "stored c s = (emits [word_of_int c] s)
     \<lparr>cons_buf := (cons_buf s)(unat (cons_e s) mod INPUT_BUF_SIZE := word_of_int c), cons_e := cons_e s + 1\<rparr>"

lemma stored_fields [simp]:
  "cons_r (stored c s) = cons_r s" "cons_w (stored c s) = cons_w s" "cons_e (stored c s) = cons_e s + 1"
  "cons_buf (stored c s) = (cons_buf s)(unat (cons_e s) mod INPUT_BUF_SIZE := word_of_int c)"
  "con_ok (stored c s) = con_ok s" "held (stored c s) = held s"
  by (simp_all add: stored_def con_ok_def emit_def)

lemma byte_eqs: "0 \<le> c \<Longrightarrow> c \<le> 255 \<Longrightarrow> k \<in> {0, 4, 8, 10, 13, 16, 21, 127} \<Longrightarrow> (word_of_int c = (word_of_int k :: uchar)) = (c = k)"
  by (auto simp: word_of_int_eq_iff take_bit_eq_mod)

lemma consoleintr_byte_at:
  assumes "con_ok s" and "held s = {}" and "c \<notin> {16, 21, 8, 127, 0}" and "c \<le> 255"
    and "unat (cons_e s - cons_r s) < INPUT_BUF_SIZE" and c': "c' = (if c = 13 then 10 else c)"
  shows "consoleintr c s = Ok () (if c' = 10 \<or> c' = 4 \<or> cons_e s + 1 - cons_r s = of_nat INPUT_BUF_SIZE
           then (stored c' s)\<lparr>cons_w := cons_e s + 1, proc := wake Chan_cons_r (cpu_proc s) (proc s)\<rparr> else stored c' s)"
proof -
  let ?s = "s\<lparr>held := {Cons_lock}\<rparr>"
  have lt: "cons_e s - cons_r s < of_nat INPUT_BUF_SIZE" using assms(5) by (simp add: word_less_nat_alt params)
  have b: "c' \<noteq> BACKSPACE" using assms(4) c' by (simp add: params)
  have st: "(emits [word_of_int c'] ?s)
     \<lparr>cons_buf := (cons_buf s)(unat (cons_e s) mod INPUT_BUF_SIZE := word_of_int c'), cons_e := cons_e s + 1\<rparr>
     = (stored c' s)\<lparr>held := {Cons_lock}\<rparr>" by (simp add: stored_def)
  have h: "(stored c' s)\<lparr>held := {}\<rparr> = stored c' s" using assms(2) by (simp add: stored_def emit_def)
  have p: "cpu_proc (stored c' s) = cpu_proc s" "proc (stored c' s) = proc s" by (simp_all add: stored_def)
  show ?thesis
    using assms(1-3) lt b st h p by (simp add: consoleintr_def Let_def c' [symmetric] kern_simps del: emits_simps)
qed

lemma consoleintr_byte:
  assumes "con_ok s" and "held s = {}" and "cons_inv s" and "c \<notin> {16, 21, 8, 127}" and "0 \<le> c" and "c \<le> 255"
  shows "\<exists>t. consoleintr c s = Ok () t \<and> typed (word_of_int c) s t"
proof (cases "c \<noteq> 0 \<and> unat (cons_e s - cons_r s) < INPUT_BUF_SIZE")
  case False
  then have "consoleintr c s = Ok () s"
    using assms by (auto simp: consoleintr_def kern_simps word_less_nat_alt params)
  moreover have "\<not> (word_of_int c \<noteq> (0 :: uchar) \<and> length (cons_lines s) + length (cons_line s) < INPUT_BUF_SIZE)"
    using False byte_eqs [of c 0] assms cons_inv_lengths [OF assms(3)] by auto
  ultimately show ?thesis using assms byte_eqs [of c 16] byte_eqs [of c 21] byte_eqs [of c 8] byte_eqs [of c 127]
    by (auto simp: typed_def tty_def cons_abs_def)
next
  case True
  define c' where "c' = (if c = 13 then 10 else c)"
  have rng: "0 \<le> c'" "c' \<le> 255" using assms by (simp_all add: c'_def)
  let ?u = "stored c' s" and ?c = "word_of_int c' :: uchar"
  let ?fin = "c' = 10 \<or> c' = 4 \<or> cons_e s + 1 - cons_r s = of_nat INPUT_BUF_SIZE"
  let ?t = "if ?fin then ?u\<lparr>cons_w := cons_e s + 1, proc := wake Chan_cons_r (cpu_proc s) (proc s)\<rparr> else ?u"
  have lt: "unat (cons_e s - cons_r s) < INPUT_BUF_SIZE" using True by simp
  note a = add_byte [OF assms(3) lt stored_fields(4,3,1,2) [where c = c']]
  have at: "consoleintr c s = Ok () ?t"
    using assms(4) True by (intro consoleintr_byte_at [OF assms(1,2) _ assms(6) _ c'_def]) auto
  have eqs: "word_of_int c = (16 :: uchar) \<longleftrightarrow> False" "word_of_int c = (21 :: uchar) \<longleftrightarrow> False" "word_of_int c = (8 :: uchar) \<longleftrightarrow> False"
    "word_of_int c = (127 :: uchar) \<longleftrightarrow> False" "word_of_int c = (0 :: uchar) \<longleftrightarrow> False"
    "(if word_of_int c = (13 :: uchar) then 10 else word_of_int c) = ?c" "?c = 10 \<longleftrightarrow> c' = 10" "?c = 4 \<longleftrightarrow> c' = 4"
    using byte_eqs [of c 16] byte_eqs [of c 21] byte_eqs [of c 8] byte_eqs [of c 127] byte_eqs [of c 0] byte_eqs [of c 13]
      byte_eqs [of c' 10] byte_eqs [of c' 4] assms(4-6) True rng by (auto simp: c'_def)
  have full: "cons_e s + 1 - cons_r s = of_nat INPUT_BUF_SIZE \<longleftrightarrow> length (cons_lines s) + length (cons_line s @ [?c]) = INPUT_BUF_SIZE"
    using a(3) cons_inv_lengths [OF assms(3)] by (simp add: word_unat_eq_iff params)
  have tty: "tty (word_of_int c) (cons_abs s) =
      (if ?fin then (cons_lines s @ cons_line s @ [?c], []) else (cons_lines s, cons_line s @ [?c]))"
    using eqs full lt cons_inv_lengths [OF assms(3)] by (simp add: tty_def cons_abs_def Let_def)
  have fit: "unat (cons_w ?u - cons_r ?u) + unat (cons_e ?u - cons_w ?u) = unat (cons_e ?u - cons_r ?u)"
    "unat (cons_e ?u - cons_r ?u) \<le> INPUT_BUF_SIZE"
    using a(3,4) assms(3) lt by (simp_all add: cons_inv_def)
  have "cons_abs ?t = tty (word_of_int c) (cons_abs s) \<and> cons_inv ?t"
  proof (cases ?fin)
    case f: True
    define t where "t = ?u\<lparr>cons_w := cons_e s + 1, proc := wake Chan_cons_r (cpu_proc s) (proc s)\<rparr>"
    have "cons_lines t = cons_lines ?u @ cons_line ?u" "cons_line t = []" "cons_inv t"
      by (rule finish_line [OF fit]; simp add: t_def)+
    then show ?thesis unfolding tty if_P [OF f] t_def [symmetric] using a by (simp add: cons_abs_def)
  next
    case f: False
    then have "cons_inv ?u" using a(5) eqs(7) by simp
    then show ?thesis unfolding tty if_not_P [OF f] using a by (simp add: cons_abs_def)
  qed
  moreover have "con_ok ?t" "held ?t = {}" using assms(1,2) by simp_all
  ultimately show ?thesis using at by (simp add: typed_def)
qed

text \<open>
  C15. The console's input editor.  Interrupts typing any byte return with no lock held, and the line buffer
  then holds what the abstract line editor holds: erase removes the last byte of the line, kill removes the
  whole line and no finished one, a carriage return counts as a newline, a newline, an end of file or a full
  buffer finishes the line, and a byte that finds the buffer full is dropped.
\<close>

theorem console_refines:
  assumes "con_ok s" and "held s = {}" and "cons_inv s" and "0 \<le> c" and "c \<le> 255"
  shows "\<exists>t. consoleintr c s = Ok () t \<and> cons_abs t = tty (word_of_int c) (cons_abs s) \<and> cons_inv t \<and> con_ok t \<and> held t = {}"
  using consoleintr_edit [OF assms(1-3), of c] consoleintr_byte [OF assms(1-3) _ assms(4,5)] by (auto simp: typed_def)

theorem console_refines_witness:
  "\<exists>t u. consoleintr 65 ex_con = Ok () t \<and> consoleintr 8 t = Ok () u \<and> cons_abs t = ([], [65]) \<and> cons_abs u = ([], [])"
proof -
  have i: "cons_inv ex_con" "cons_abs ex_con = ([], [])"
    by (simp_all add: ex_con_def log_st.defs ex_log_def kmem_st.defs ex_kmem_def kcore.defs ex_core_def
        cons_inv_def cons_abs_def cons_lines_def cons_line_def ring_def params)
  obtain t where t: "consoleintr 65 ex_con = Ok () t" "cons_abs t = ([], [65])" "cons_inv t" "con_ok t" "held t = {}"
    using console_refines [of ex_con 65] i by (auto simp: tty_def params)
  obtain u where "consoleintr 8 t = Ok () u" "cons_abs u = ([], [])"
    using console_refines [of t 8] t by (auto simp: tty_def)
  with t show ?thesis by blast
qed

end
