(* ===== verification/Fs.thy ===== *)
theory Fs
  imports Console
begin

text \<open>
  \<^verbatim>\<open>kernel/fs.c\<close> with the on-disk format of \<^verbatim>\<open>fs.h\<close>: the block bitmap, inodes, inode contents, directories and
  path names.  The structures that live in disk blocks are read and written in the bytes of the block, at
  the offsets the C compiler gives their fields.

  The lemmas about what these operations do are in the theories \<open>Fsblock\<close> (bitmap and inodes), \<open>Itable\<close>
  (references to in-memory inodes) and \<open>Fspath\<close> (path names).
\<close>

section \<open>Parameters and data\<close>

definition NINODE :: nat where [params]: "NINODE = 50"
definition NDIRECT :: nat where [params]: "NDIRECT = 12"
definition NINDIRECT :: nat where [params]: "NINDIRECT = BSIZE div 4"
definition MAXFILE :: nat where [params]: "MAXFILE = NDIRECT + NINDIRECT"
definition IPB :: nat where [params]: "IPB = BSIZE div 64"
definition BPB :: nat where [params]: "BPB = BSIZE * 8"
definition DIRSIZ :: nat where [params]: "DIRSIZ = 14"
definition ROOTINO :: uint where [params]: "ROOTINO = 1"
definition FSMAGIC :: uint where [params]: "FSMAGIC = 0x10203040"
definition T_DIR :: ushort where [params]: "T_DIR = 1"
definition T_FILE :: ushort where [params]: "T_FILE = 2"
definition T_DEVICE :: ushort where [params]: "T_DEVICE = 3"

text \<open>
  \<^verbatim>\<open>struct dinode\<close> takes 64 bytes: four shorts, the size, and thirteen block numbers from offset 12.  A
  short is its 16 bits.
\<close>

record dinode =
  d_type :: ushort
  d_major :: ushort
  d_minor :: ushort
  d_nlink :: ushort
  d_size :: uint
  d_addrs :: "nat \<Rightarrow> uint"

text \<open>
  \<^verbatim>\<open>struct inode\<close>, the copy in memory.  Its sleep-lock is number \<open>i\<close> of the inode locks, for entry \<open>i\<close> of
  the table.
\<close>

record inode =
  i_dev :: uint
  i_inum :: uint
  i_ref :: int
  i_valid :: bool
  i_type :: ushort
  i_major :: ushort
  i_minor :: ushort
  i_nlink :: ushort
  i_size :: uint
  i_addrs :: "nat \<Rightarrow> uint"

record stat =
  st_dev :: uint
  st_ino :: uint
  st_type :: ushort
  st_nlink :: ushort
  st_size :: uint64

record fs_st = con_st +
  sb :: superblock
  itable :: "nat \<Rightarrow> inode"

abbreviation upd_inode :: "nat \<Rightarrow> (inode \<Rightarrow> inode) \<Rightarrow> 'a fs_st_scheme \<Rightarrow> 'a fs_st_scheme" where
  "upd_inode i f s \<equiv> s\<lparr>itable := (itable s)(i := f (itable s i))\<rparr>"

definition IBLOCK :: "uint \<Rightarrow> superblock \<Rightarrow> uint" where
  "IBLOCK i S = of_nat (unat i div IPB) + sb_inodestart S"

definition BBLOCK :: "uint \<Rightarrow> superblock \<Rightarrow> uint" where
  "BBLOCK b S = of_nat (unat b div BPB) + sb_bmapstart S"

text \<open>The structures in a block.\<close>

definition get_sb :: "bytes \<Rightarrow> superblock" where
  "get_sb d = \<lparr>sb_magic = get32 d 0, sb_size = get32 d 4, sb_nblocks = get32 d 8, sb_ninodes = get32 d 12,
     sb_nlog = get32 d 16, sb_logstart = get32 d 20, sb_inodestart = get32 d 24, sb_bmapstart = get32 d 28\<rparr>"

definition get_dinode :: "bytes \<Rightarrow> nat \<Rightarrow> dinode" where
  "get_dinode d a = \<lparr>d_type = get16 d a, d_major = get16 d (a + 2), d_minor = get16 d (a + 4), d_nlink = get16 d (a + 6),
     d_size = get32 d (a + 8), d_addrs = (\<lambda>k. get32 d (a + 12 + 4 * k))\<rparr>"

definition put_addrs :: "bytes \<Rightarrow> nat \<Rightarrow> (nat \<Rightarrow> uint) \<Rightarrow> bytes" where
  "put_addrs d a v = fold (\<lambda>k d. put32 d (a + 4 * k) (v k)) [0..<NDIRECT + 1] d"

definition put_dinode :: "bytes \<Rightarrow> nat \<Rightarrow> inode \<Rightarrow> bytes" where
  "put_dinode d a ip =
     (let d1 = put16 d a (i_type ip);
          d2 = put16 d1 (a + 2) (i_major ip);
          d3 = put16 d2 (a + 4) (i_minor ip);
          d4 = put16 d3 (a + 6) (i_nlink ip);
          d5 = put32 d4 (a + 8) (i_size ip)
      in put_addrs d5 (a + 12) (i_addrs ip))"

abbreviation ioff :: "uint \<Rightarrow> nat" where
  "ioff inum \<equiv> 64 * (unat inum mod IPB)"

section \<open>Blocks\<close>

definition set_data :: "nat \<Rightarrow> (bytes \<Rightarrow> bytes) \<Rightarrow> ('a fs_st_scheme, unit) kern" where
  "set_data b f = modify (upd_buf b (\<lambda>x. x\<lparr>b_data := f (b_data x)\<rparr>))"

definition readsb :: "uint \<Rightarrow> ('a fs_st_scheme, unit) kern" where
  "readsb dev =
     kdo (bread dev 1) (\<lambda>bp.
     kdo (modify (\<lambda>s. s\<lparr>sb := get_sb (b_data (buf s bp))\<rparr>)) (\<lambda>_.
     brelse bp))"

definition fsinit :: "uint \<Rightarrow> ('a fs_st_scheme, unit) kern" where
  "fsinit dev =
     kdo (readsb dev) (\<lambda>_.
     kdo (gets sb) (\<lambda>sb.
       if sb_magic sb \<noteq> FSMAGIC then panic ''invalid file system''
       else initlog dev sb))"

definition bzero :: "uint \<Rightarrow> uint \<Rightarrow> ('a fs_st_scheme, unit) kern" where
  "bzero dev bno =
     kdo (bread dev bno) (\<lambda>bp.
     kdo (set_data bp (\<lambda>d. memset d 0 0 BSIZE)) (\<lambda>_.
     kdo (log_write bp) (\<lambda>_.
     brelse bp)))"

text \<open>Bit \<open>bi\<close> of a bitmap block.\<close>

definition bmask :: "nat \<Rightarrow> uchar" where
  "bmask bi = push_bit (bi mod 8) 1"

definition bit_clear :: "bytes \<Rightarrow> nat \<Rightarrow> bool" where
  "bit_clear d bi \<longleftrightarrow> d (bi div 8) AND bmask bi = 0"

text \<open>
  \<^verbatim>\<open>balloc\<close>.  The inner loop only looks at the buffer until it finds a clear bit, the first one of the
  block within the file system.
\<close>

definition balloc_in :: "uint \<Rightarrow> nat \<Rightarrow> ('a fs_st_scheme, uint option) kern" where
  "balloc_in dev b =
     kdo (gets sb) (\<lambda>sb.
     kdo (bread dev (BBLOCK (of_nat b) sb)) (\<lambda>bp.
     kdo (gets (\<lambda>s. b_data (buf s bp))) (\<lambda>d.
       case find (bit_clear d) [0..<min BPB (unat (sb_size sb) - b)] of
         Some bi \<Rightarrow>
           kdo (set_data bp (\<lambda>d. d(bi div 8 := d (bi div 8) OR bmask bi))) (\<lambda>_.
           kdo (log_write bp) (\<lambda>_.
           kdo (brelse bp) (\<lambda>_.
           kdo (bzero dev (of_nat (b + bi))) (\<lambda>_.
           ret (Some (of_nat (b + bi)))))))
       | None \<Rightarrow> kdo (brelse bp) (\<lambda>_. ret None))))"

definition balloc :: "uint \<Rightarrow> ('a fs_st_scheme, uint) kern" where
  "balloc dev =
     kdo (gets sb) (\<lambda>sb.
     kdo (scan (map (\<lambda>k. k * BPB) [0..<(unat (sb_size sb) + BPB - 1) div BPB]) (balloc_in dev)) (\<lambda>r.
       case r of
         Some b \<Rightarrow> ret b
       | None \<Rightarrow> kdo (printf ''balloc: out of blocks\<newline>'' []) (\<lambda>_. ret 0)))"

definition bfree :: "uint \<Rightarrow> uint \<Rightarrow> ('a fs_st_scheme, unit) kern" where
  "bfree dev b =
     kdo (gets sb) (\<lambda>sb.
     kdo (bread dev (BBLOCK b sb)) (\<lambda>bp.
     let bi = unat b mod BPB in
     kdo (gets (\<lambda>s. b_data (buf s bp))) (\<lambda>d.
       if bit_clear d bi then panic ''freeing free block''
       else
         kdo (set_data bp (\<lambda>d. d(bi div 8 := d (bi div 8) AND NOT (bmask bi)))) (\<lambda>_.
         kdo (log_write bp) (\<lambda>_.
         brelse bp)))))"

section \<open>Inodes\<close>

definition iinit :: "('a fs_st_scheme, unit) kern" where
  "iinit = for_each [0..<NINODE] (\<lambda>i. initsleeplock (Inode_lock i))"

definition iget :: "uint \<Rightarrow> uint \<Rightarrow> ('a fs_st_scheme, nat) kern" where
  "iget dev inum =
     kdo (acquire Itable_lock) (\<lambda>_.
     kdo (gets itable) (\<lambda>T.
       case find (\<lambda>i. i_ref (T i) > 0 \<and> i_dev (T i) = dev \<and> i_inum (T i) = inum) [0..<NINODE] of
         Some ip \<Rightarrow>
           kdo (modify (upd_inode ip (\<lambda>x. x\<lparr>i_ref := i_ref x + 1\<rparr>))) (\<lambda>_.
           kdo (release Itable_lock) (\<lambda>_.
           ret ip))
       | None \<Rightarrow>
           (case find (\<lambda>i. i_ref (T i) = 0) [0..<NINODE] of
              None \<Rightarrow> panic ''iget: no inodes''
            | Some ip \<Rightarrow>
                kdo (modify (upd_inode ip (\<lambda>x. x\<lparr>i_dev := dev, i_inum := inum, i_ref := 1, i_valid := False\<rparr>))) (\<lambda>_.
                kdo (release Itable_lock) (\<lambda>_.
                ret ip)))))"

text \<open>The loop of \<^verbatim>\<open>ialloc\<close> is over the inode numbers, from 1.\<close>

definition ialloc_at :: "uint \<Rightarrow> ushort \<Rightarrow> nat \<Rightarrow> ('a fs_st_scheme, nat option) kern" where
  "ialloc_at dev type k =
     (let inum = of_nat k in
     kdo (gets sb) (\<lambda>sb.
     kdo (bread dev (IBLOCK inum sb)) (\<lambda>bp.
     kdo (gets (\<lambda>s. b_data (buf s bp))) (\<lambda>d.
       if d_type (get_dinode d (ioff inum)) = 0 then
         kdo (set_data bp (\<lambda>d. put16 (memset d (ioff inum) 0 64) (ioff inum) type)) (\<lambda>_.
         kdo (log_write bp) (\<lambda>_.
         kdo (brelse bp) (\<lambda>_.
         kdo (iget dev inum) (\<lambda>ip.
         ret (Some ip)))))
       else kdo (brelse bp) (\<lambda>_. ret None)))))"

definition ialloc :: "uint \<Rightarrow> ushort \<Rightarrow> ('a fs_st_scheme, nat option) kern" where
  "ialloc dev type =
     kdo (gets sb) (\<lambda>sb.
     kdo (scan [1..<unat (sb_ninodes sb)] (ialloc_at dev type)) (\<lambda>r.
       case r of
         Some ip \<Rightarrow> ret (Some ip)
       | None \<Rightarrow> kdo (printf ''ialloc: no inodes\<newline>'' []) (\<lambda>_. ret None)))"

definition iupdate :: "nat \<Rightarrow> ('a fs_st_scheme, unit) kern" where
  "iupdate ip =
     kdo (gets (\<lambda>s. itable s ip)) (\<lambda>x.
     kdo (gets sb) (\<lambda>sb.
     kdo (bread (i_dev x) (IBLOCK (i_inum x) sb)) (\<lambda>bp.
     kdo (gets (\<lambda>s. itable s ip)) (\<lambda>x.
     kdo (set_data bp (\<lambda>d. put_dinode d (ioff (i_inum x)) x)) (\<lambda>_.
     kdo (log_write bp) (\<lambda>_.
     brelse bp))))))"

definition idup :: "nat \<Rightarrow> ('a fs_st_scheme, nat) kern" where
  "idup ip =
     kdo (acquire Itable_lock) (\<lambda>_.
     kdo (modify (upd_inode ip (\<lambda>x. x\<lparr>i_ref := i_ref x + 1\<rparr>))) (\<lambda>_.
     kdo (release Itable_lock) (\<lambda>_.
     ret ip)))"

text \<open>What \<^verbatim>\<open>ilock\<close> does once it has the lock.\<close>

definition ilock_load :: "nat \<Rightarrow> ('a fs_st_scheme, unit) kern" where
  "ilock_load ip =
     kdo (gets (\<lambda>s. itable s ip)) (\<lambda>x.
     kwhen (\<not> i_valid x)
       (kdo (gets sb) (\<lambda>sb.
        kdo (bread (i_dev x) (IBLOCK (i_inum x) sb)) (\<lambda>bp.
        kdo (gets (\<lambda>s. get_dinode (b_data (buf s bp)) (ioff (i_inum x)))) (\<lambda>dip.
        kdo (modify (upd_inode ip (\<lambda>x. x\<lparr>i_type := d_type dip, i_major := d_major dip, i_minor := d_minor dip,
               i_nlink := d_nlink dip, i_size := d_size dip,
               i_addrs := (\<lambda>k. if k < NDIRECT + 1 then d_addrs dip k else i_addrs x k)\<rparr>))) (\<lambda>_.
        kdo (brelse bp) (\<lambda>_.
        kdo (modify (upd_inode ip (\<lambda>x. x\<lparr>i_valid := True\<rparr>))) (\<lambda>_.
        kdo (gets (\<lambda>s. i_type (itable s ip))) (\<lambda>t.
        if t = 0 then panic ''ilock: no type'' else ret ())))))))))"

definition ilock :: "nat option \<Rightarrow> ('a fs_st_scheme, unit) kern" where
  "ilock ip = (case ip of
       None \<Rightarrow> panic ''ilock''
     | Some ip \<Rightarrow>
         kdo (gets (\<lambda>s. i_ref (itable s ip))) (\<lambda>r.
           if r < 1 then panic ''ilock''
           else kdo (acquiresleep (Inode_lock ip)) (\<lambda>_. ilock_load ip)))"

definition iunlock :: "nat option \<Rightarrow> ('a fs_st_scheme, unit) kern" where
  "iunlock ip = (case ip of
       None \<Rightarrow> panic ''iunlock''
     | Some ip \<Rightarrow>
         kdo (holdingsleep (Inode_lock ip)) (\<lambda>h.
         kdo (gets (\<lambda>s. i_ref (itable s ip))) (\<lambda>r.
           if \<not> h \<or> r < 1 then panic ''iunlock''
           else releasesleep (Inode_lock ip))))"

section \<open>Inode content\<close>

definition bmap :: "nat \<Rightarrow> uint \<Rightarrow> ('a fs_st_scheme, uint) kern" where
  "bmap ip bn =
     kdo (gets (\<lambda>s. itable s ip)) (\<lambda>x.
       if unat bn < NDIRECT then
         (if i_addrs x (unat bn) = 0 then
            kdo (balloc (i_dev x)) (\<lambda>addr.
              if addr = 0 then ret 0
              else kdo (modify (upd_inode ip (\<lambda>x. x\<lparr>i_addrs := (i_addrs x)(unat bn := addr)\<rparr>))) (\<lambda>_. ret addr))
          else ret (i_addrs x (unat bn)))
       else
         let bn = unat bn - NDIRECT in
         if bn < NINDIRECT then
           kdo (if i_addrs x NDIRECT = 0 then
                  kdo (balloc (i_dev x)) (\<lambda>addr.
                  kdo (kwhen (addr \<noteq> 0) (modify (upd_inode ip (\<lambda>x. x\<lparr>i_addrs := (i_addrs x)(NDIRECT := addr)\<rparr>)))) (\<lambda>_.
                  ret addr))
                else ret (i_addrs x NDIRECT)) (\<lambda>addr.
             if addr = 0 then ret 0
             else
               kdo (bread (i_dev x) addr) (\<lambda>bp.
               kdo (gets (\<lambda>s. get32 (b_data (buf s bp)) (4 * bn))) (\<lambda>a.
               kdo (if a = 0 then
                      kdo (balloc (i_dev x)) (\<lambda>addr.
                      kdo (kwhen (addr \<noteq> 0)
                             (kdo (set_data bp (\<lambda>d. put32 d (4 * bn) addr)) (\<lambda>_. log_write bp))) (\<lambda>_.
                      ret addr))
                    else ret a) (\<lambda>addr.
               kdo (brelse bp) (\<lambda>_.
               ret addr)))))
         else panic ''bmap: out of range'')"

definition itrunc_direct :: "nat \<Rightarrow> nat \<Rightarrow> ('a fs_st_scheme, unit) kern" where
  "itrunc_direct ip i =
     kdo (gets (\<lambda>s. itable s ip)) (\<lambda>x.
     kwhen (i_addrs x i \<noteq> 0)
       (kdo (bfree (i_dev x) (i_addrs x i)) (\<lambda>_.
        modify (upd_inode ip (\<lambda>x. x\<lparr>i_addrs := (i_addrs x)(i := 0)\<rparr>)))))"

definition itrunc :: "nat \<Rightarrow> ('a fs_st_scheme, unit) kern" where
  "itrunc ip =
     kdo (for_each [0..<NDIRECT] (itrunc_direct ip)) (\<lambda>_.
     kdo (gets (\<lambda>s. itable s ip)) (\<lambda>x.
     kdo (kwhen (i_addrs x NDIRECT \<noteq> 0)
            (kdo (bread (i_dev x) (i_addrs x NDIRECT)) (\<lambda>bp.
             kdo (for_each [0..<NINDIRECT] (\<lambda>j.
                    kdo (gets (\<lambda>s. get32 (b_data (buf s bp)) (4 * j))) (\<lambda>a.
                    kwhen (a \<noteq> 0) (bfree (i_dev x) a)))) (\<lambda>_.
             kdo (brelse bp) (\<lambda>_.
             kdo (bfree (i_dev x) (i_addrs x NDIRECT)) (\<lambda>_.
             modify (upd_inode ip (\<lambda>x. x\<lparr>i_addrs := (i_addrs x)(NDIRECT := 0)\<rparr>)))))))) (\<lambda>_.
     kdo (modify (upd_inode ip (\<lambda>x. x\<lparr>i_size := 0\<rparr>))) (\<lambda>_.
     iupdate ip))))"

definition iput :: "nat \<Rightarrow> ('a fs_st_scheme, unit) kern" where
  "iput ip =
     kdo (acquire Itable_lock) (\<lambda>_.
     kdo (gets (\<lambda>s. itable s ip)) (\<lambda>x.
     kdo (kwhen (i_ref x = 1 \<and> i_valid x \<and> i_nlink x = 0)
            (kdo (acquiresleep (Inode_lock ip)) (\<lambda>_.
             kdo (release Itable_lock) (\<lambda>_.
             kdo (itrunc ip) (\<lambda>_.
             kdo (modify (upd_inode ip (\<lambda>x. x\<lparr>i_type := 0\<rparr>))) (\<lambda>_.
             kdo (iupdate ip) (\<lambda>_.
             kdo (modify (upd_inode ip (\<lambda>x. x\<lparr>i_valid := False\<rparr>))) (\<lambda>_.
             kdo (releasesleep (Inode_lock ip)) (\<lambda>_.
             acquire Itable_lock))))))))) (\<lambda>_.
     kdo (modify (upd_inode ip (\<lambda>x. x\<lparr>i_ref := i_ref x - 1\<rparr>))) (\<lambda>_.
     release Itable_lock))))"

definition iunlockput :: "nat \<Rightarrow> ('a fs_st_scheme, unit) kern" where
  "iunlockput ip = kdo (iunlock (Some ip)) (\<lambda>_. iput ip)"

definition stati :: "nat \<Rightarrow> ('a fs_st_scheme, stat) kern" where
  "stati ip =
     kdo (gets (\<lambda>s. itable s ip)) (\<lambda>x.
     ret \<lparr>st_dev = i_dev x, st_ino = i_inum x, st_type = i_type x, st_nlink = i_nlink x, st_size = ucast (i_size x)\<rparr>)"

text \<open>
  The loops of \<^verbatim>\<open>readi\<close> and \<^verbatim>\<open>writei\<close>, with \<open>tot\<close> bytes done and \<open>off\<close> the file offset they are at.  Each round
  but the last ends at a block boundary, so that \<open>n / BSIZE + 2\<close> rounds are enough.
\<close>

primrec readi_loop :: "nat \<Rightarrow> nat \<Rightarrow> mref \<Rightarrow> bytes \<Rightarrow> uint \<Rightarrow> uint \<Rightarrow> uint \<Rightarrow> ('a fs_st_scheme, uint \<times> bytes) kern" where
  "readi_loop 0 ip dst loc off n tot = diverge"
| "readi_loop (Suc fuel) ip dst loc off n tot =
     (if tot < n then
        kdo (bmap ip (of_nat (unat off div BSIZE))) (\<lambda>addr.
          if addr = 0 then ret (tot, loc)
          else
            kdo (gets (\<lambda>s. i_dev (itable s ip))) (\<lambda>dev.
            kdo (bread dev addr) (\<lambda>bp.
            let m = min (n - tot) (of_nat (BSIZE - unat off mod BSIZE)) in
            kdo (gets (\<lambda>s. b_data (buf s bp))) (\<lambda>d.
            kdo (either_copyout dst loc d (unat off mod BSIZE) (ucast m)) (\<lambda>rl.
              if fst rl = -1 then kdo (brelse bp) (\<lambda>_. ret (-1, snd rl))
              else
                kdo (brelse bp) (\<lambda>_.
                readi_loop fuel ip (mref_add dst (unat m)) (snd rl) (off + m) n (tot + m)))))))
      else ret (tot, loc))"

definition readi :: "nat \<Rightarrow> mref \<Rightarrow> bytes \<Rightarrow> uint \<Rightarrow> uint \<Rightarrow> ('a fs_st_scheme, int \<times> bytes) kern" where
  "readi ip dst loc off n =
     kdo (gets (\<lambda>s. i_size (itable s ip))) (\<lambda>size.
       if off > size \<or> off + n < off then ret (0, loc)
       else
         let n = (if off + n > size then size - off else n) in
         kdo (readi_loop (unat n div BSIZE + 3) ip dst loc off n 0) (\<lambda>tl.
         ret (sint (fst tl), snd tl)))"

primrec writei_loop :: "nat \<Rightarrow> nat \<Rightarrow> mref \<Rightarrow> bytes \<Rightarrow> uint \<Rightarrow> uint \<Rightarrow> uint \<Rightarrow> ('a fs_st_scheme, uint \<times> uint) kern" where
  "writei_loop 0 ip src loc off n tot = diverge"
| "writei_loop (Suc fuel) ip src loc off n tot =
     (if tot < n then
        kdo (bmap ip (of_nat (unat off div BSIZE))) (\<lambda>addr.
          if addr = 0 then ret (tot, off)
          else
            kdo (gets (\<lambda>s. i_dev (itable s ip))) (\<lambda>dev.
            kdo (bread dev addr) (\<lambda>bp.
            let m = min (n - tot) (of_nat (BSIZE - unat off mod BSIZE)) in
            kdo (gets (\<lambda>s. b_data (buf s bp))) (\<lambda>d.
            kdo (either_copyin d (unat off mod BSIZE) src loc (ucast m)) (\<lambda>rd.
            kdo (set_data bp (\<lambda>_. snd rd)) (\<lambda>_.
              if fst rd = -1 then kdo (brelse bp) (\<lambda>_. ret (tot, off))
              else
                kdo (log_write bp) (\<lambda>_.
                kdo (brelse bp) (\<lambda>_.
                writei_loop fuel ip (mref_add src (unat m)) loc (off + m) n (tot + m)))))))))
      else ret (tot, off))"

definition writei :: "nat \<Rightarrow> mref \<Rightarrow> bytes \<Rightarrow> uint \<Rightarrow> uint \<Rightarrow> ('a fs_st_scheme, int) kern" where
  "writei ip src loc off n =
     kdo (gets (\<lambda>s. i_size (itable s ip))) (\<lambda>size.
       if off > size \<or> off + n < off then ret (-1)
       else if off + n > of_nat (MAXFILE * BSIZE) then ret (-1)
       else
         kdo (writei_loop (unat n div BSIZE + 3) ip src loc off n 0) (\<lambda>to.
         kdo (gets (\<lambda>s. i_size (itable s ip))) (\<lambda>size.
         kdo (kwhen (snd to > size) (modify (upd_inode ip (\<lambda>x. x\<lparr>i_size := snd to\<rparr>)))) (\<lambda>_.
         kdo (iupdate ip) (\<lambda>_.
         ret (sint (fst to)))))))"

section \<open>Directories\<close>

definition namecmp :: "bytes \<Rightarrow> bytes \<Rightarrow> int" where
  "namecmp s t = strncmp s 0 t 0 DIRSIZ"

definition de_inum :: "bytes \<Rightarrow> ushort" where
  "de_inum de = get16 de 0"

definition de_name :: "bytes \<Rightarrow> bytes" where
  "de_name de = (\<lambda>i. de (2 + i))"

text \<open>
  The offsets of the entries of a directory of some size.  Every entry read fills all of the
  \<^verbatim>\<open>struct dirent\<close> on the stack, or the code panics, so what was there before does not matter.
\<close>

definition dir_offs :: "uint \<Rightarrow> nat list" where
  "dir_offs sz = map (\<lambda>k. 16 * k) [0..<(unat sz + 15) div 16]"

definition dirlookup :: "nat \<Rightarrow> bytes \<Rightarrow> ('a fs_st_scheme, (nat \<times> uint) option) kern" where
  "dirlookup dp name =
     kdo (gets (\<lambda>s. itable s dp)) (\<lambda>x.
       if i_type x \<noteq> T_DIR then panic ''dirlookup not DIR''
       else
         scan (dir_offs (i_size x)) (\<lambda>off.
           kdo (readi dp (Local 0) (\<lambda>_. 0) (of_nat off) 16) (\<lambda>rd.
             if fst rd \<noteq> 16 then panic ''dirlookup read''
             else if de_inum (snd rd) = 0 then ret None
             else if namecmp name (de_name (snd rd)) = 0 then
               kdo (iget (i_dev x) (ucast (de_inum (snd rd)))) (\<lambda>ip.
               ret (Some (ip, of_nat off)))
             else ret None)))"

definition dirlink :: "nat \<Rightarrow> bytes \<Rightarrow> uint \<Rightarrow> ('a fs_st_scheme, int) kern" where
  "dirlink dp name inum =
     kdo (dirlookup dp name) (\<lambda>r.
       case r of
         Some (ip, _) \<Rightarrow> kdo (iput ip) (\<lambda>_. ret (-1))
       | None \<Rightarrow>
           kdo (gets (\<lambda>s. i_size (itable s dp))) (\<lambda>size.
           kdo (scan (dir_offs size) (\<lambda>off.
                  kdo (readi dp (Local 0) (\<lambda>_. 0) (of_nat off) 16) (\<lambda>rd.
                    if fst rd \<noteq> 16 then panic ''dirlink read''
                    else if de_inum (snd rd) = 0 then ret (Some off)
                    else ret None))) (\<lambda>r.
           let off = (case r of Some off \<Rightarrow> off | None \<Rightarrow> 16 * ((unat size + 15) div 16));
               de = put16 (strncpy (\<lambda>_. 0) 2 name 0 DIRSIZ) 0 (ucast inum) in
           kdo (writei dp (Local 0) de (of_nat off) 16) (\<lambda>w.
             if w \<noteq> 16 then ret (-1) else ret 0))))"

section \<open>Paths\<close>

text \<open>
  A path is a C string: the list of its bytes before the NUL.  \<open>slash\<close> is the byte \<^verbatim>\<open>'/'\<close>.  \<^verbatim>\<open>skipelem\<close> gives what
  is left of the path and the new bytes of \<^verbatim>\<open>name\<close>, or a null pointer.
\<close>

abbreviation slash :: uchar where
  "slash \<equiv> 47"

definition put_str :: "bytes \<Rightarrow> uchar list \<Rightarrow> bytes" where
  "put_str m cs = blit m 0 (\<lambda>i. cs ! i) 0 (length cs)"

definition skipelem :: "uchar list \<Rightarrow> bytes \<Rightarrow> (uchar list \<times> bytes) option" where
  "skipelem path name =
     (let s = dropWhile (\<lambda>c. c = slash) path in
      if s = [] then None
      else
        let el = takeWhile (\<lambda>c. c \<noteq> slash) s; path' = dropWhile (\<lambda>c. c \<noteq> slash) s;
            name' = (if length el \<ge> DIRSIZ then put_str name (take DIRSIZ el)
                     else (put_str name el)(length el := 0))
        in Some (dropWhile (\<lambda>c. c = slash) path', name'))"

lemma skipelem_shorter: "skipelem path name = Some (rest, name') \<Longrightarrow> length rest < length path"
proof -
  assume a: "skipelem path name = Some (rest, name')"
  let ?s = "dropWhile (\<lambda>c. c = slash) path"
  have ne: "?s \<noteq> []" and r: "rest = dropWhile (\<lambda>c. c = slash) (dropWhile (\<lambda>c. c \<noteq> slash) ?s)"
    using a by (auto simp: skipelem_def Let_def split: if_splits)
  have "length rest \<le> length (dropWhile (\<lambda>c. c \<noteq> slash) ?s)" unfolding r by (rule length_dropWhile_le)
  moreover have "hd ?s \<noteq> slash" using ne hd_dropWhile by blast
  then have "length (dropWhile (\<lambda>c. c \<noteq> slash) ?s) < length ?s"
    using ne by (cases ?s) (simp_all add: length_dropWhile_le less_Suc_eq_le)
  moreover have "length ?s \<le> length path" by (rule length_dropWhile_le)
  ultimately show ?thesis by linarith
qed

text \<open>The loop of \<^verbatim>\<open>namex\<close>, at an inode, with the path still to walk; \<open>name\<close> is the caller's array.\<close>

function namex_loop :: "nat \<Rightarrow> uchar list \<Rightarrow> bool \<Rightarrow> bytes \<Rightarrow> ('a fs_st_scheme, nat option \<times> bytes) kern" where
  "namex_loop ip path nameiparent name =
     (case skipelem path name of
        None \<Rightarrow>
          if nameiparent then kdo (iput ip) (\<lambda>_. ret (None, name))
          else ret (Some ip, name)
      | Some (rest, name') \<Rightarrow>
          kdo (ilock (Some ip)) (\<lambda>_.
          kdo (gets (\<lambda>s. i_type (itable s ip))) (\<lambda>t.
            if t \<noteq> T_DIR then kdo (iunlockput ip) (\<lambda>_. ret (None, name'))
            else if nameiparent \<and> rest = [] then kdo (iunlock (Some ip)) (\<lambda>_. ret (Some ip, name'))
            else
              kdo (dirlookup ip name') (\<lambda>next.
                case next of
                  None \<Rightarrow> kdo (iunlockput ip) (\<lambda>_. ret (None, name'))
                | Some (next, _) \<Rightarrow>
                    kdo (iunlockput ip) (\<lambda>_.
                    namex_loop next rest nameiparent name')))))"
  by pat_completeness auto
termination
  by (relation "measure (\<lambda>(ip, path, p, name). length path)") (auto dest: skipelem_shorter)

declare namex_loop.simps [simp del]

definition namex :: "uchar list \<Rightarrow> bool \<Rightarrow> bytes \<Rightarrow> ('a fs_st_scheme, nat option \<times> bytes) kern" where
  "namex path nameiparent name =
     kdo (if path \<noteq> [] \<and> hd path = slash then iget ROOTDEV ROOTINO
          else
            kdo curproc (\<lambda>p.
            kdo (gets (\<lambda>s. p_cwd (proc s p))) (\<lambda>cwd.
              case cwd of None \<Rightarrow> panic ''kerneltrap'' | Some i \<Rightarrow> idup i))) (\<lambda>ip.
     namex_loop ip path nameiparent name)"

definition namei :: "uchar list \<Rightarrow> ('a fs_st_scheme, nat option) kern" where
  "namei path = kdo (namex path False (\<lambda>_. 0)) (\<lambda>r. ret (fst r))"

definition nameiparent :: "uchar list \<Rightarrow> bytes \<Rightarrow> ('a fs_st_scheme, nat option \<times> bytes) kern" where
  "nameiparent path name = namex path True name"

section \<open>A concrete state\<close>

definition zero_inode :: inode where
  "zero_inode = \<lparr>i_dev = 0, i_inum = 0, i_ref = 0, i_valid = False, i_type = 0, i_major = 0, i_minor = 0, i_nlink = 0,
     i_size = 0, i_addrs = \<lambda>_. 0\<rparr>"

definition ex_fs :: fs_st where
  "ex_fs = con_st.extend ex_con \<lparr>sb = ex_sb, itable = \<lambda>_. zero_inode\<rparr>"

lemma ex_fs_sel [simp]: "held ex_fs = {}" "cpu_proc ex_fs = Some 0" "itable ex_fs = (\<lambda>_. zero_inode)" "sb ex_fs = ex_sb"
  by (simp_all add: ex_fs_def con_st.defs ex_con_def log_st.defs ex_log_def kmem_st.defs ex_kmem_def kcore.defs ex_core_def)

end
