(* ===== verification/Fspath.thy ===== *)
theory Fspath
  imports Fs
begin

text \<open>
  Path names: \<^verbatim>\<open>skipelem\<close> takes the elements of a path apart one by one, and \<^verbatim>\<open>namecmp\<close> compares the names that
  result, of which only the first \<^verbatim>\<open>DIRSIZ\<close> bytes count.
\<close>

section \<open>The elements of a path\<close>

text \<open>The specification: cut the path at every slash, and leave out the empty pieces.\<close>

fun pieces :: "uchar list \<Rightarrow> uchar list list" where
  "pieces [] = [[]]"
| "pieces (c # cs) =
     (if c = slash then [] # pieces cs
      else case pieces cs of [] \<Rightarrow> [[c]] | p # ps \<Rightarrow> (c # p) # ps)"

definition elems :: "uchar list \<Rightarrow> uchar list list" where
  "elems path = filter (\<lambda>e. e \<noteq> []) (pieces path)"

text \<open>The name that an array of \<^verbatim>\<open>DIRSIZ\<close> bytes holds.\<close>

definition name_str :: "bytes \<Rightarrow> uchar list" where
  "name_str name = takeWhile (\<lambda>c. c \<noteq> 0) (map name [0..<DIRSIZ])"

lemma pieces_ne: "pieces p \<noteq> []"
  by (induction p) (simp_all split: list.splits)

lemma elems_slash [simp]: "elems (slash # p) = elems p"
  by (simp add: elems_def)

lemma elems_Nil [simp]: "elems [] = []"
  by (simp add: elems_def)

lemma elems_skip: "elems (dropWhile (\<lambda>c. c = slash) p) = elems p"
  by (induction p) auto

lemma pieces_first: "pieces p = takeWhile (\<lambda>c. c \<noteq> slash) p # tl (pieces p)"
  by (induction p) (auto split: list.splits simp: pieces_ne)

lemma pieces_rest: "tl (pieces p) = (case dropWhile (\<lambda>c. c \<noteq> slash) p of [] \<Rightarrow> [] | _ # q \<Rightarrow> pieces q)"
proof (induction p)
  case Nil
  then show ?case by simp
next
  case (Cons c p)
  then show ?case by (cases "pieces p") (simp_all add: pieces_ne)
qed

lemma elems_first:
  assumes "p \<noteq> []" and "hd p \<noteq> slash"
  shows "elems p = takeWhile (\<lambda>c. c \<noteq> slash) p # elems (dropWhile (\<lambda>c. c \<noteq> slash) p)"
proof -
  have ne: "takeWhile (\<lambda>c. c \<noteq> slash) p \<noteq> []" using assms by (cases p) simp_all
  have "elems (dropWhile (\<lambda>c. c \<noteq> slash) p) = filter (\<lambda>e. e \<noteq> []) (tl (pieces p))"
  proof (cases "dropWhile (\<lambda>c. c \<noteq> slash) p")
    case Nil
    then show ?thesis unfolding pieces_rest Nil by simp
  next
    case (Cons c q)
    then have "c = slash" using hd_dropWhile [of "\<lambda>c. c \<noteq> slash" p] by simp
    then show ?thesis using Cons by (simp add: pieces_rest elems_def)
  qed
  then show ?thesis using ne pieces_first [of p] by (metis (mono_tags, lifting) elems_def filter.simps(2))
qed

lemma elems_empty: "elems p = [] \<longleftrightarrow> dropWhile (\<lambda>c. c = slash) p = []"
proof
  assume e: "elems p = []"
  show "dropWhile (\<lambda>c. c = slash) p = []"
  proof (rule ccontr)
    assume ne: "dropWhile (\<lambda>c. c = slash) p \<noteq> []"
    then have "hd (dropWhile (\<lambda>c. c = slash) p) \<noteq> slash" using hd_dropWhile by blast
    then show False using elems_first [OF ne] e elems_skip [of p] by simp
  qed
next
  assume "dropWhile (\<lambda>c. c = slash) p = []"
  then show "elems p = []" using elems_skip [of p] elems_Nil by metis
qed

section \<open>Names\<close>

lemma put_str_at: "put_str m cs i = (if i < length cs then cs ! i else m i)"
  by (simp add: put_str_def blit_at)

lemma name_str_short:
  assumes "length cs < DIRSIZ" and "0 \<notin> set cs"
  shows "name_str ((put_str m cs)(length cs := 0)) = cs"
proof -
  let ?n = "(put_str m cs)(length cs := 0)"
  have "map ?n [0..<DIRSIZ] = map ?n [0..<length cs] @ map ?n [length cs..<DIRSIZ]"
    using assms(1) by (metis le_add_diff_inverse less_imp_le map_append upt_add_eq_append zero_le)
  also have "map ?n [0..<length cs] = cs" by (rule nth_equalityI) (auto simp: put_str_at)
  also have "[length cs..<DIRSIZ] = length cs # [Suc (length cs)..<DIRSIZ]" using assms(1) by (rule upt_conv_Cons)
  also have "map ?n (length cs # [Suc (length cs)..<DIRSIZ]) = 0 # map ?n [Suc (length cs)..<DIRSIZ]" by (simp only: list.map fun_upd_same)
  finally have "map ?n [0..<DIRSIZ] = cs @ 0 # map ?n [Suc (length cs)..<DIRSIZ]" .
  moreover have "\<forall>c\<in>set cs. c \<noteq> 0" using assms(2) by auto
  ultimately show ?thesis by (simp add: name_str_def takeWhile_append2)
qed

lemma name_str_long:
  assumes "length cs = DIRSIZ" and "0 \<notin> set cs"
  shows "name_str (put_str m cs) = cs"
proof -
  have "map (put_str m cs) [0..<DIRSIZ] = cs" using assms(1) by (intro nth_equalityI) (auto simp: put_str_at)
  moreover have "takeWhile (\<lambda>c. c \<noteq> 0) cs = cs" unfolding takeWhile_eq_all_conv using assms(2) by auto
  ultimately show ?thesis by (simp add: name_str_def)
qed

text \<open>\<^verbatim>\<open>strncmp\<close> says whether two strings agree up to the first NUL or the bound.\<close>

lemma strncmp_prefix_eq:
  "strncmp p i q j n = 0 \<longleftrightarrow>
   takeWhile (\<lambda>c. c \<noteq> 0) (map p [i..<i + n]) = takeWhile (\<lambda>c. c \<noteq> 0) (map q [j..<j + n])"
proof (induction n arbitrary: i j)
  case 0
  then show ?case by simp
next
  case (Suc n)
  have u: "[k..<k + Suc n] = k # [k + 1..<k + 1 + n]" for k by (simp add: upt_conv_Cons)
  have nz: "uint (a :: uchar) = 0 \<longleftrightarrow> a = 0" for a by (simp add: word_uint_eq_iff)
  show ?case unfolding u using Suc.IH [of "i + 1" "j + 1"] by (auto simp: nz)
qed

lemma namecmp_eq_0: "namecmp s t = 0 \<longleftrightarrow> name_str s = name_str t"
  by (simp add: namecmp_def name_str_def strncmp_prefix_eq)

section \<open>What skipelem does\<close>

text \<open>
  C16. \<^verbatim>\<open>skipelem\<close> takes the first element off a path: it fails exactly when the path has no element, and otherwise
  the array gets the element, cut to \<^verbatim>\<open>DIRSIZ\<close> bytes, and the path it returns has exactly the other elements and
  is the empty string exactly when there are none, which is how \<^verbatim>\<open>namex\<close> recognises the last element.
\<close>

theorem skipelem_elems:
  assumes "0 \<notin> set path"
  shows "case skipelem path name of
      None \<Rightarrow> elems path = []
    | Some (rest, name') \<Rightarrow> (\<exists>e. elems path = e # elems rest \<and> name_str name' = take DIRSIZ e \<and> (rest = [] \<longleftrightarrow> elems rest = []))"
proof (cases "dropWhile (\<lambda>c. c = slash) path = []")
  case True
  then show ?thesis by (simp add: skipelem_def elems_empty)
next
  case False
  let ?s = "dropWhile (\<lambda>c. c = slash) path"
  let ?e = "takeWhile (\<lambda>c. c \<noteq> slash) ?s" and ?r = "dropWhile (\<lambda>c. c = slash) (dropWhile (\<lambda>c. c \<noteq> slash) ?s)"
  let ?n = "if length ?e \<ge> DIRSIZ then put_str name (take DIRSIZ ?e) else (put_str name ?e)(length ?e := 0)"
  have hd: "hd ?s \<noteq> slash" using hd_dropWhile [OF False] .
  have sk: "skipelem path name = Some (?r, ?n)" using False by (simp add: skipelem_def Let_def)
  have el: "elems path = ?e # elems ?r"
    using elems_first [OF False hd] elems_skip [of path] elems_skip [of "dropWhile (\<lambda>c. c \<noteq> slash) ?s"] by simp
  have nz: "0 \<notin> set ?e" using assms set_dropWhileD set_takeWhileD by metis
  have "name_str ?n = take DIRSIZ ?e"
  proof (cases "length ?e \<ge> DIRSIZ")
    case True
    have "0 \<notin> set (take DIRSIZ ?e)" using nz set_take_subset by fast
    then show ?thesis using True name_str_long [of "take DIRSIZ ?e"] by simp
  next
    case False
    then show ?thesis using name_str_short [of ?e] nz by simp
  qed
  moreover have "?r = [] \<longleftrightarrow> elems ?r = []"
    using elems_empty [of "dropWhile (\<lambda>c. c \<noteq> slash) ?s"] elems_skip [of "dropWhile (\<lambda>c. c \<noteq> slash) ?s"] by simp
  ultimately show ?thesis unfolding sk option.case prod.case using el by blast
qed

theorem skipelem_elems_witness:
  "case skipelem [slash, slash, 97, slash, slash, 98, 98] (\<lambda>_. 0) of
     None \<Rightarrow> False
   | Some (rest, name') \<Rightarrow> rest = [98, 98] \<and> elems rest = [[98, 98]] \<and> name_str name' = [97]"
proof -
  have e: "elems [slash, slash, 97, slash, slash, 98, 98] = [[97], [98, 98]]" "elems [98, 98] = [[98, 98]]"
    "elems [97, slash, slash, 98, 98] = [[97], [98, 98]]"
    by (simp_all add: elems_def)
  show ?thesis using skipelem_elems [of "[slash, slash, 97, slash, slash, 98, 98]" "\<lambda>_. 0"]
    by (auto simp: e skipelem_def params split: option.splits)
qed

end
