(* ===== verification/Refs.thy ===== *)
theory Refs
  imports Log
begin

text \<open>
  Tables whose entries are counted references: the table of in-memory inodes and the table of open files.  The
  interface says what an operation that hands out, copies or gives back a reference does to the counts; a client
  learns that the counts are the numbers of references in use and that an entry keeps its identity while
  somebody has a reference to it.

  The theory also has the rules that carry an invariant that does not look at buffers, log or locks through the
  operations of the log.
\<close>

section \<open>Counted references\<close>

text \<open>
  \<open>h i\<close> lists, for each reference to entry \<open>i\<close> in use, what its holder was promised the entry to be.
\<close>

definition holders_ok :: "(nat \<Rightarrow> int) \<Rightarrow> (nat \<Rightarrow> 'k) \<Rightarrow> (nat \<Rightarrow> 'k list) \<Rightarrow> bool" where
  "holders_ok c d h \<longleftrightarrow> (\<forall>i. c i = int (length (h i)) \<and> (\<forall>x\<in>set (h i). x = d i))"

locale ref_table =
  fixes cnt :: "'s \<Rightarrow> nat \<Rightarrow> int"
    and ident :: "'s \<Rightarrow> nat \<Rightarrow> 'k"
    and taken :: "'s \<Rightarrow> 'k \<Rightarrow> nat \<Rightarrow> 's \<Rightarrow> bool"
    and copied :: "'s \<Rightarrow> nat \<Rightarrow> 's \<Rightarrow> bool"
    and dropped :: "'s \<Rightarrow> nat \<Rightarrow> 's \<Rightarrow> bool"
  assumes taken: "taken s k i t \<Longrightarrow> 0 \<le> cnt s i \<Longrightarrow>
      cnt t = (cnt s)(i := cnt s i + 1) \<and> ident t i = k \<and> (0 < cnt s i \<longrightarrow> ident s i = k) \<and>
      (\<forall>j. j \<noteq> i \<longrightarrow> ident t j = ident s j)"
    and copied: "copied s i t \<Longrightarrow> cnt t = (cnt s)(i := cnt s i + 1) \<and> ident t = ident s"
    and dropped: "dropped s i t \<Longrightarrow> 0 < cnt s i \<Longrightarrow> cnt t = (cnt s)(i := cnt s i - 1) \<and> ident t = ident s"
begin

lemma holders_taken:
  assumes h: "holders_ok (cnt s) (ident s) h" and t: "taken s k i t"
  shows "holders_ok (cnt t) (ident t) (h(i := k # h i))"
proof -
  have "0 \<le> cnt s i" using h by (simp add: holders_ok_def)
  note f = taken [OF t this]
  have "x = k" if "x \<in> set (h i)" for x
  proof -
    have "h i \<noteq> []" using that by auto
    then have "0 < cnt s i" using h by (simp add: holders_ok_def)
    then have "ident s i = k" using f by blast
    then show ?thesis using h that by (auto simp: holders_ok_def)
  qed
  then show ?thesis using h f by (auto simp: holders_ok_def)
qed

lemma holders_copied:
  assumes "holders_ok (cnt s) (ident s) h" and "copied s i t" and "h i \<noteq> []"
  shows "holders_ok (cnt t) (ident t) (h(i := hd (h i) # h i))"
  using copied [OF assms(2)] assms(1,3) by (auto simp: holders_ok_def)

lemma holders_dropped:
  assumes h: "holders_ok (cnt s) (ident s) h" and t: "dropped s i t" and ne: "h i \<noteq> []"
  shows "holders_ok (cnt t) (ident t) (h(i := tl (h i)))"
proof -
  have "0 < cnt s i" using h ne by (simp add: holders_ok_def)
  then show ?thesis using dropped [OF t] h ne by (auto simp: holders_ok_def of_nat_diff Suc_le_eq dest: list.set_sel(2))
qed

end

section \<open>Invariants that do not look at the log\<close>

definition log_blind :: "('a log_st_scheme \<Rightarrow> bool) \<Rightarrow> bool" where
  "log_blind I \<longleftrightarrow> cache_blind I \<and> (\<forall>s l. I (s\<lparr>log := l\<rparr>) = I s)"

lemma log_blindD:
  assumes "log_blind I"
  shows "cache_blind I" "core_blind I" "I (s\<lparr>log := l\<rparr>) = I s" "I (s\<lparr>buf := B\<rparr>) = I s"
  using assms cache_blindD unfolding log_blind_def by blast+

lemmas log_blind_simps = log_blindD

lemma keeps_log_write [keeps_intros]: "log_blind I \<Longrightarrow> keeps I (log_write b)"
  unfolding log_write_def by (intro keeps_intros keeps_modify) (simp_all add: log_blindD)

lemma keeps_begin_op [keeps_intros]: "log_blind I \<Longrightarrow> keeps I begin_op"
  unfolding begin_op_def begin_op_loop_def by (intro keeps_intros keeps_modify) (simp_all add: log_blindD)

lemma keeps_copy_block: "cache_blind I \<Longrightarrow> keeps I (copy_block d s)"
  unfolding copy_block_def by (rule keeps_modify) (simp add: cache_blindD)

lemma keeps_commit: "log_blind I \<Longrightarrow> keeps I commit"
  unfolding commit_def write_log_def write_log_one_def write_head_def install_trans_def install_one_def clear_n_def
  by (intro keeps_intros keeps_modify keeps_copy_block) (simp_all add: log_blindD)

lemma keeps_end_op [keeps_intros]: "log_blind I \<Longrightarrow> keeps I end_op"
  unfolding end_op_def by (intro keeps_intros keeps_modify keeps_commit) (simp_all add: log_blindD)

end
