(* ===== verification/Itable.thy ===== *)
theory Itable
  imports Fs Refs
begin

text \<open>
  References to in-memory inodes.  \<^verbatim>\<open>iget\<close> hands out a reference to the table entry of an inode, \<^verbatim>\<open>idup\<close> copies one
  and \<^verbatim>\<open>iput\<close> gives one back, perhaps freeing the inode on disk.  In every run of these operations the counts
  are the numbers of references in use, an entry stays the same inode as long as somebody refers to it, and no
  inode has two entries.
\<close>

section \<open>What the operations do to the counts\<close>

definition iref :: "'a fs_st_scheme \<Rightarrow> nat \<Rightarrow> int" where
  "iref s i = i_ref (itable s i)"

definition iident :: "'a fs_st_scheme \<Rightarrow> nat \<Rightarrow> uint \<times> uint" where
  "iident s i = (i_dev (itable s i), i_inum (itable s i))"

text \<open>An invariant that knows the counts and identities of all entries, and nothing else.\<close>

definition refs_are :: "(nat \<Rightarrow> int) \<Rightarrow> (nat \<Rightarrow> uint \<times> uint) \<Rightarrow> 'a fs_st_scheme \<Rightarrow> bool" where
  "refs_are c d s \<longleftrightarrow> iref s = c \<and> iident s = d"

lemma refs_are_blind: "log_blind (refs_are c d)"
  unfolding log_blind_def cache_blind_def core_blind_def refs_are_def iref_def [abs_def] iident_def [abs_def] by simp

lemma keeps_upd_inode:
  assumes "\<And>x. i_ref (f x) = i_ref x \<and> i_dev (f x) = i_dev x \<and> i_inum (f x) = i_inum x"
  shows "keeps (refs_are c d) (modify (upd_inode i f))"
  by (rule keeps_modify) (use assms in \<open>auto simp: refs_are_def iref_def iident_def fun_eq_iff\<close>)

lemmas refs_kept = keeps_intros refs_are_blind log_blindD(1) [OF refs_are_blind] log_blindD(2) [OF refs_are_blind] keeps_upd_inode

lemma keeps_set_data: "keeps (refs_are c d) (set_data b f)"
  unfolding set_data_def by (rule keeps_modify) (simp add: refs_are_def iref_def [abs_def] iident_def [abs_def])

lemma keeps_bfree: "keeps (refs_are c d) (bfree dev b)"
  unfolding bfree_def by (intro refs_kept keeps_set_data)

lemma keeps_iupdate: "keeps (refs_are c d) (iupdate ip)"
  unfolding iupdate_def by (intro refs_kept keeps_set_data)

lemma keeps_itrunc: "keeps (refs_are c d) (itrunc ip)"
  unfolding itrunc_def itrunc_direct_def by (intro refs_kept keeps_bfree keeps_iupdate) simp_all

lemma iput_refs:
  assumes "iput i s = Ok () t"
  shows "iref t = (iref s)(i := iref s i - 1) \<and> iident t = iident s"
proof -
  define free where "free = kdo (acquire Itable_lock) (\<lambda>_.
     kdo (gets (\<lambda>s. itable s i)) (\<lambda>x.
     kwhen (i_ref x = 1 \<and> i_valid x \<and> i_nlink x = 0)
            (kdo (acquiresleep (Inode_lock i)) (\<lambda>_.
             kdo (release Itable_lock) (\<lambda>_.
             kdo (itrunc i) (\<lambda>_.
             kdo (modify (upd_inode i (\<lambda>x. x\<lparr>i_type := 0\<rparr>))) (\<lambda>_.
             kdo (iupdate i) (\<lambda>_.
             kdo (modify (upd_inode i (\<lambda>x. x\<lparr>i_valid := False\<rparr>))) (\<lambda>_.
             kdo (releasesleep (Inode_lock i)) (\<lambda>_.
             acquire Itable_lock)))))))) :: ('a fs_st_scheme, unit) kern))"
  have "keeps (refs_are c d) free" for c d
    unfolding free_def by (intro refs_kept keeps_itrunc keeps_iupdate) simp_all
  then have k: "refs_are c d s \<Longrightarrow> free s = Ok () u \<Longrightarrow> refs_are c d u" for c d u by (blast dest: keepsD)
  have "iput i = kdo free (\<lambda>_. kdo (modify (upd_inode i (\<lambda>x. x\<lparr>i_ref := i_ref x - 1\<rparr>))) (\<lambda>_. release Itable_lock))"
    unfolding iput_def free_def by (simp add: kdo_assoc)
  with assms obtain u where u: "free s = Ok () u"
    and t: "kdo (modify (upd_inode i (\<lambda>x. x\<lparr>i_ref := i_ref x - 1\<rparr>))) (\<lambda>_. release Itable_lock) u = Ok () t"
    by (auto elim: kdo_OkE)
  have "refs_are (iref s) (iident s) u" using k [OF _ u] by (simp add: refs_are_def)
  moreover have "itable t = (itable u)(i := (itable u i)\<lparr>i_ref := i_ref (itable u i) - 1\<rparr>)"
    using t by (auto simp: kern_simps release_def split: if_splits)
  ultimately show ?thesis by (auto simp: refs_are_def iref_def iident_def fun_eq_iff)
qed

lemma find_upt: "find P [0..<n] = Some i \<Longrightarrow> i < n \<and> P i" "find P [0..<n] = None \<Longrightarrow> k < n \<Longrightarrow> \<not> P k"
  by (auto simp: find_Some_iff find_None_iff)

text \<open>Both ways through \<^verbatim>\<open>iget\<close>: it finds the inode in the table, or takes an unused entry.\<close>

lemma iget_cases:
  assumes "iget dev inum s = Ok i t"
  obtains (found) "i < NINODE" "0 < iref s i" "iident s i = (dev, inum)" "itable t = (itable s)(i := (itable s i)\<lparr>i_ref := i_ref (itable s i) + 1\<rparr>)"
  | (fresh) "i < NINODE" "iref s i = 0" "\<And>j. j < NINODE \<Longrightarrow> 0 < iref s j \<Longrightarrow> iident s j \<noteq> (dev, inum)"
      "itable t = (itable s)(i := (itable s i)\<lparr>i_dev := dev, i_inum := inum, i_ref := 1, i_valid := False\<rparr>)"
proof (cases "find (\<lambda>i. i_ref (itable s i) > 0 \<and> i_dev (itable s i) = dev \<and> i_inum (itable s i) = inum) [0..<NINODE]")
  case (Some j)
  note f = find_upt(1) [OF Some]
  have "i = j" "itable t = (itable s)(j := (itable s j)\<lparr>i_ref := i_ref (itable s j) + 1\<rparr>)"
    using assms Some by (auto simp: iget_def kern_simps acquire_def kdo_def release_def split: if_splits)
  then show ?thesis using f found by (simp add: iref_def iident_def)
next
  case None
  obtain j where j: "find (\<lambda>i. i_ref (itable s i) = 0) [0..<NINODE] = Some j"
    using assms None by (auto simp: iget_def kern_simps acquire_def kdo_def split: if_splits option.splits)
  have "i = j" "itable t = (itable s)(j := (itable s j)\<lparr>i_dev := dev, i_inum := inum, i_ref := 1, i_valid := False\<rparr>)"
    using assms None j by (auto simp: iget_def kern_simps acquire_def kdo_def release_def split: if_splits)
  then show ?thesis using find_upt(1) [OF j] find_upt(2) [OF None] fresh by (auto simp: iref_def iident_def)
qed

lemma idup_refs: "idup i s = Ok i' t \<Longrightarrow> iref t = (iref s)(i := iref s i + 1) \<and> iident t = iident s"
  by (auto simp: idup_def kern_simps acquire_def kdo_def release_def iref_def iident_def fun_eq_iff split: if_splits)

interpretation ir: ref_table iref iident "\<lambda>s k i t. iget (fst k) (snd k) s = Ok i t" "\<lambda>s i t. \<exists>j. idup i s = Ok j t" "\<lambda>s i t. iput i s = Ok () t"
proof
  fix s t :: "'a fs_st_scheme" and k i
  assume g: "iget (fst k) (snd k) s = Ok i t" and c: "0 \<le> iref s i"
  show "iref t = (iref s)(i := iref s i + 1) \<and> iident t i = k \<and> (0 < iref s i \<longrightarrow> iident s i = k) \<and>
      (\<forall>j. j \<noteq> i \<longrightarrow> iident t j = iident s j)"
    using g by (cases rule: iget_cases) (auto simp: iref_def iident_def fun_eq_iff)
next
  fix s t :: "'a fs_st_scheme" and i
  show "\<exists>j. idup i s = Ok j t \<Longrightarrow> iref t = (iref s)(i := iref s i + 1) \<and> iident t = iident s" using idup_refs by blast
  show "iput i s = Ok () t \<Longrightarrow> 0 < iref s i \<Longrightarrow> iref t = (iref s)(i := iref s i - 1) \<and> iident t = iident s" using iput_refs by blast
qed

section \<open>Every run of them\<close>

inductive it_step :: "'a fs_st_scheme \<times> (nat \<Rightarrow> (uint \<times> uint) list) \<Rightarrow> 'a fs_st_scheme \<times> (nat \<Rightarrow> (uint \<times> uint) list) \<Rightarrow> bool" where
  get: "iget dev inum s = Ok i t \<Longrightarrow> it_step (s, h) (t, h(i := (dev, inum) # h i))"
| dup: "h i \<noteq> [] \<Longrightarrow> idup i s = Ok j t \<Longrightarrow> it_step (s, h) (t, h(i := hd (h i) # h i))"
| put: "h i \<noteq> [] \<Longrightarrow> iput i s = Ok () t \<Longrightarrow> it_step (s, h) (t, h(i := tl (h i)))"
| other: "iref t = iref s \<Longrightarrow> iident t = iident s \<Longrightarrow> it_step (s, h) (t, h)"

fun it_start :: "'a fs_st_scheme \<times> (nat \<Rightarrow> (uint \<times> uint) list) \<Rightarrow> bool" where
  "it_start (s, h) \<longleftrightarrow> (\<forall>i. iref s i = 0 \<and> h i = [])"

fun it_inv :: "'a fs_st_scheme \<times> (nat \<Rightarrow> (uint \<times> uint) list) \<Rightarrow> bool" where
  "it_inv (s, h) \<longleftrightarrow> holders_ok (iref s) (iident s) h \<and> (\<forall>i. NINODE \<le> i \<longrightarrow> h i = []) \<and>
     (\<forall>i j. 0 < iref s i \<longrightarrow> 0 < iref s j \<longrightarrow> iident s i = iident s j \<longrightarrow> i = j)"

lemma it_inv_get:
  assumes i: "it_inv (s, h)" and g: "iget dev inum s = Ok i t"
  shows "it_inv (t, h(i := (dev, inum) # h i))"
proof -
  have h: "holders_ok (iref s) (iident s) h" and out: "\<forall>i. NINODE \<le> i \<longrightarrow> h i = []"
    and u: "\<forall>i j. 0 < iref s i \<longrightarrow> 0 < iref s j \<longrightarrow> iident s i = iident s j \<longrightarrow> i = j" using i by simp_all
  have "holders_ok (iref t) (iident t) (h(i := (dev, inum) # h i))" using ir.holders_taken [OF h, of "(dev, inum)"] g by simp
  moreover have lt: "i < NINODE" using g by (cases rule: iget_cases) auto
  have big: "iref s j = 0" if "NINODE \<le> j" for j using that h out by (simp add: holders_ok_def)
  have "a = b" if "0 < iref t a" "0 < iref t b" "iident t a = iident t b" for a b
    using g
  proof (cases rule: iget_cases)
    case found
    then have "0 < iref s j" if "0 < iref t j" for j using that by (auto simp: iref_def split: if_splits)
    moreover have "iident t = iident s" using found by (auto simp: iident_def fun_eq_iff)
    ultimately show ?thesis using that u by simp
  next
    case fresh
    have s: "iref t j = iref s j" "iident t j = iident s j" if "j \<noteq> i" for j using fresh(4) that by (simp_all add: iref_def iident_def)
    have e: "iident t i = (dev, inum)" using fresh(4) by (simp add: iident_def)
    have no: "iident s j \<noteq> (dev, inum)" if "0 < iref s j" for j using fresh(3) [of j] big [of j] that by (cases "j < NINODE") auto
    show ?thesis using that s e no u by (metis)
  qed
  ultimately show ?thesis using out lt by auto
qed

interpretation it_m: machine it_start it_step it_inv
proof
  fix c :: "'a fs_st_scheme \<times> (nat \<Rightarrow> (uint \<times> uint) list)"
  assume "it_start c"
  then show "it_inv c" by (cases c) (auto simp: holders_ok_def)
next
  fix c d :: "'a fs_st_scheme \<times> (nat \<Rightarrow> (uint \<times> uint) list)"
  assume inv: "it_inv c" and st: "it_step c d"
  from st show "it_inv d"
  proof cases
    case (get dev inum s i t h)
    then show ?thesis using it_inv_get [of s h] inv by simp
  next
    case (dup h i s j t)
    have h: "holders_ok (iref s) (iident s) h" using inv dup(1) by simp
    have p: "0 < iref s i" using h dup(3) by (simp add: holders_ok_def)
    show ?thesis using ir.holders_copied [OF h _ dup(3), of t] idup_refs [OF dup(4)] dup(1-4) inv p by (auto split: if_splits)
  next
    case (put h i s t)
    have h: "holders_ok (iref s) (iident s) h" using inv put(1) by simp
    show ?thesis using ir.holders_dropped [OF h put(4) put(3)] iput_refs [OF put(4)] put(1-3) inv by (auto split: if_splits)
  next
    case (other t s h)
    then show ?thesis using inv by simp
  qed
qed

text \<open>
  C17. References to inodes.  After any run of \<^verbatim>\<open>iget\<close>, \<^verbatim>\<open>idup\<close> and \<^verbatim>\<open>iput\<close> by holders of references, starting
  from an empty table: an \<^verbatim>\<open>iget\<close> that returns entry \<open>i\<close> makes \<open>i\<close> the entry of exactly that inode, everybody who already has a
  reference to the inode has it to the same entry, no entry somebody refers to has become another inode, and the
  count is the number of references, this one included.  It can only fail to return when all entries are in use.
\<close>

theorem itable_references:
  assumes "it_start (s0, h0)" and "it_step\<^sup>*\<^sup>* (s0, h0) (s, h)"
  shows "(\<forall>i t. iget dev inum s = Ok i t \<longrightarrow>
      i_dev (itable t i) = dev \<and> i_inum (itable t i) = inum \<and> i_ref (itable t i) = int (length (h i)) + 1 \<and>
      (\<forall>j. (dev, inum) \<in> set (h j) \<longrightarrow> j = i) \<and>
      (\<forall>j. \<forall>x\<in>set (h j). x = (i_dev (itable t j), i_inum (itable t j)))) \<and>
    (Itable_lock \<notin> held s \<longrightarrow> (\<exists>j<NINODE. h j = []) \<longrightarrow> (\<exists>i t. iget dev inum s = Ok i t))"
proof (intro conjI allI impI)
  have inv: "it_inv (s, h)" using it_m.inv_reachable [OF assms] .
  then have h: "holders_ok (iref s) (iident s) h" by simp
  show "\<exists>i t. iget dev inum s = Ok i t" if nl: "Itable_lock \<notin> held s" and e: "\<exists>j<NINODE. h j = []"
  proof -
    obtain j where "j < NINODE" "i_ref (itable s j) = 0" using h e by (auto simp: holders_ok_def iref_def)
    then have "find (\<lambda>i. i_ref (itable s i) = 0) [0..<NINODE] \<noteq> None" by (auto simp: find_None_iff)
    then show ?thesis using nl by (auto simp: iget_def kern_simps split: option.splits)
  qed
  fix i t assume g: "iget dev inum s = Ok i t"
  have "it_inv (t, h(i := (dev, inum) # h i))" using it_inv_get [OF inv g] .
  then have h': "holders_ok (iref t) (iident t) (h(i := (dev, inum) # h i))"
    and u: "\<And>a b. 0 < iref t a \<Longrightarrow> 0 < iref t b \<Longrightarrow> iident t a = iident t b \<Longrightarrow> a = b" by (simp, simp)
  have all: "x = iident t j" if "x \<in> set (h j)" for x j
    using h' that unfolding holders_ok_def by (metis fun_upd_apply list.set_intros(2))
  have idi: "iident t i = (dev, inum)"
    using h' unfolding holders_ok_def by (metis fun_upd_same list.set_intros(1))
  have ci: "iref t i = int (length (h i)) + 1" using h' by (simp add: holders_ok_def)
  show "j = i" if m: "(dev, inum) \<in> set (h j)" for j
  proof (rule u)
    show "0 < iref t i" using ci by simp
    have "h j \<noteq> []" using m by auto
    then show "0 < iref t j" using h' by (auto simp: holders_ok_def)
    show "iident t j = iident t i" using all [OF m] idi by simp
  qed
  show "\<forall>x\<in>set (h j). x = (i_dev (itable t j), i_inum (itable t j))" for j using all by (auto simp: iident_def)
  show "i_dev (itable t i) = dev" "i_inum (itable t i) = inum" "i_ref (itable t i) = int (length (h i)) + 1"
    using idi ci by (auto simp: iident_def iref_def)
qed

theorem itable_references_witness:
  "\<exists>i t u. iget 1 7 ex_fs = Ok i t \<and> iget 1 7 t = Ok i u \<and> i_ref (itable u i) = 2"
proof -
  have st: "it_start (ex_fs, \<lambda>_. [])" by (simp add: iref_def zero_inode_def)
  have ne: "\<exists>j<NINODE. (\<lambda>_. [] :: (uint \<times> uint) list) j = []" by (simp add: params) (rule exI [of _ 0], simp)
  obtain i t where t: "iget 1 7 ex_fs = Ok i t"
    using itable_references [OF st, of ex_fs "\<lambda>_. []" 1 7] ne by auto
  let ?h = "(\<lambda>_. [])(i := [(1 :: uint, 7 :: uint)])"
  have run: "it_step\<^sup>*\<^sup>* (ex_fs, \<lambda>_. []) (t, ?h)" using it_step.get [OF t, of "\<lambda>_. []"] by auto
  have lk: "Itable_lock \<notin> held t" using t by (auto simp: iget_def kern_simps kdo_def acquire_def release_def split: if_splits option.splits)
  have ne': "\<exists>j<NINODE. ?h j = []" by (rule exI [of _ "if i = 0 then 1 else 0"]) (simp add: params)
  obtain j u where u: "iget 1 7 t = Ok j u" using itable_references [OF st run, of 1 7] lk ne' by blast
  have "i = j" "i_ref (itable u j) = int (length (?h j)) + 1" using itable_references [OF st run, of 1 7] u by auto
  then show ?thesis using t u by auto
qed

end
