(* ===== verification/Pipe.thy ===== *)
theory Pipe
  imports Fs
begin

text \<open>
  \<^verbatim>\<open>kernel/pipe.c\<close>, but for \<^verbatim>\<open>pipealloc\<close>, which needs the file table.  A pipe lives in a page of its own; it is
  named by the address of the page and its fields are kept beside physical memory, by that address.
\<close>

definition PIPESIZE :: nat where [params]: "PIPESIZE = 512"

record pipe =
  pi_data :: "nat \<Rightarrow> uchar"
  pi_nread :: uint
  pi_nwrite :: uint
  pi_readopen :: bool
  pi_writeopen :: bool

record pipe_st = fs_st +
  pipes :: "uint64 \<Rightarrow> pipe"

abbreviation upd_pipe :: "uint64 \<Rightarrow> (pipe \<Rightarrow> pipe) \<Rightarrow> 'a pipe_st_scheme \<Rightarrow> 'a pipe_st_scheme" where
  "upd_pipe pi f s \<equiv> s\<lparr>pipes := (pipes s)(pi := f (pipes s pi))\<rparr>"

definition pipeclose :: "uint64 \<Rightarrow> bool \<Rightarrow> ('a pipe_st_scheme, unit) kern" where
  "pipeclose pi writable =
     kdo (acquire (Pipe_lock (unat pi))) (\<lambda>_.
     kdo (if writable then
            kdo (modify (upd_pipe pi (\<lambda>x. x\<lparr>pi_writeopen := False\<rparr>))) (\<lambda>_.
            wakeup (Chan_nread (unat pi)))
          else
            kdo (modify (upd_pipe pi (\<lambda>x. x\<lparr>pi_readopen := False\<rparr>))) (\<lambda>_.
            wakeup (Chan_nwrite (unat pi)))) (\<lambda>_.
     kdo (gets (\<lambda>s. pipes s pi)) (\<lambda>x.
       if \<not> pi_readopen x \<and> \<not> pi_writeopen x then
         kdo (release (Pipe_lock (unat pi))) (\<lambda>_. kfree pi)
       else release (Pipe_lock (unat pi)))))"

text \<open>
  The loop of \<^verbatim>\<open>pipewrite\<close>, with \<open>k\<close> of the bytes still to write and \<open>i\<close> written, and the end
  of the call, \<open>pipewrite_done\<close>.  A writer that finds the pipe full sleeps; woken, it holds the lock again and goes on with the same arguments.
\<close>

definition pipewrite_done :: "uint64 \<Rightarrow> nat \<Rightarrow> ('a pipe_st_scheme, int) kern" where
  "pipewrite_done pi i =
     kdo (wakeup (Chan_nread (unat pi))) (\<lambda>_.
     kdo (release (Pipe_lock (unat pi))) (\<lambda>_.
     ret (int i)))"

primrec pipewrite_loop :: "nat \<Rightarrow> uint64 \<Rightarrow> uint64 \<Rightarrow> nat \<Rightarrow> nat \<Rightarrow> ('a pipe_st_scheme, int) kern" where
  "pipewrite_loop 0 pi addr pr i = pipewrite_done pi i"
| "pipewrite_loop (Suc k) pi addr pr i =
     kdo (gets (\<lambda>s. pipes s pi)) (\<lambda>x.
     kdo (if pi_readopen x then killed pr else ret True) (\<lambda>stop.
       if stop then
         kdo (release (Pipe_lock (unat pi))) (\<lambda>_.
         ret (-1))
       else if pi_nwrite x = pi_nread x + of_nat PIPESIZE then
         kdo (wakeup (Chan_nread (unat pi))) (\<lambda>_.
         sleep (Chan_nwrite (unat pi)) (Pipe_lock (unat pi)))
       else
         kdo (gets (\<lambda>s. p_pagetable (proc s pr))) (\<lambda>pt.
         kdo (copyin pt (\<lambda>_. 0) (addr + of_nat i) 1) (\<lambda>rc.
           if fst rc = -1 then pipewrite_done pi i
           else
             kdo (modify (upd_pipe pi (\<lambda>x. x\<lparr>pi_data := (pi_data x)(unat (pi_nwrite x) mod PIPESIZE := snd rc 0),
                                            pi_nwrite := pi_nwrite x + 1\<rparr>))) (\<lambda>_.
             pipewrite_loop k pi addr pr (i + 1))))))"

definition pipewrite :: "uint64 \<Rightarrow> uint64 \<Rightarrow> int \<Rightarrow> ('a pipe_st_scheme, int) kern" where
  "pipewrite pi addr n =
     kdo curproc (\<lambda>pr.
     kdo (acquire (Pipe_lock (unat pi))) (\<lambda>_.
     pipewrite_loop (nat n) pi addr pr 0))"

text \<open>The second loop of \<^verbatim>\<open>piperead\<close>, with \<open>k\<close> bytes still wanted and \<open>i\<close> read, and the end of the call.\<close>

definition piperead_done :: "uint64 \<Rightarrow> nat \<Rightarrow> ('a pipe_st_scheme, int) kern" where
  "piperead_done pi i =
     kdo (wakeup (Chan_nwrite (unat pi))) (\<lambda>_.
     kdo (release (Pipe_lock (unat pi))) (\<lambda>_.
     ret (int i)))"

primrec piperead_loop :: "nat \<Rightarrow> uint64 \<Rightarrow> uint64 \<Rightarrow> nat \<Rightarrow> nat \<Rightarrow> ('a pipe_st_scheme, int) kern" where
  "piperead_loop 0 pi addr pr i = piperead_done pi i"
| "piperead_loop (Suc k) pi addr pr i =
     kdo (gets (\<lambda>s. pipes s pi)) (\<lambda>x.
       if pi_nread x = pi_nwrite x then piperead_done pi i
       else
         kdo (modify (upd_pipe pi (\<lambda>x. x\<lparr>pi_nread := pi_nread x + 1\<rparr>))) (\<lambda>_.
         kdo (gets (\<lambda>s. p_pagetable (proc s pr))) (\<lambda>pt.
         kdo (copyout pt (addr + of_nat i) (\<lambda>_. pi_data x (unat (pi_nread x) mod PIPESIZE)) 1) (\<lambda>r.
           if r = -1 then piperead_done pi i
           else piperead_loop k pi addr pr (i + 1)))))"

text \<open>The first loop: a reader of an empty pipe that is open for writing waits; woken, it starts here again.\<close>

definition piperead_wait :: "uint64 \<Rightarrow> uint64 \<Rightarrow> int \<Rightarrow> nat \<Rightarrow> ('a pipe_st_scheme, int) kern" where
  "piperead_wait pi addr n pr =
     kdo (gets (\<lambda>s. pipes s pi)) (\<lambda>x.
       if pi_nread x = pi_nwrite x \<and> pi_writeopen x then
         kdo (killed pr) (\<lambda>k.
           if k then kdo (release (Pipe_lock (unat pi))) (\<lambda>_. ret (-1))
           else sleep (Chan_nread (unat pi)) (Pipe_lock (unat pi)))
       else piperead_loop (nat n) pi addr pr 0)"

definition piperead :: "uint64 \<Rightarrow> uint64 \<Rightarrow> int \<Rightarrow> ('a pipe_st_scheme, int) kern" where
  "piperead pi addr n =
     kdo curproc (\<lambda>pr.
     kdo (acquire (Pipe_lock (unat pi))) (\<lambda>_.
     piperead_wait pi addr n pr))"

end
