(* ===== verification/Ucopy.thy ===== *)
theory Ucopy
  imports Vm
begin

text \<open>
  What \<^verbatim>\<open>either_copyout\<close> and \<^verbatim>\<open>either_copyin\<close> do, whatever kind of place the bytes go to or come from, as functions
  of the bytes: \<open>xferout\<close> and \<open>xferin\<close>.  A transfer can be done in pieces, which is how \<^verbatim>\<open>readi\<close> and \<^verbatim>\<open>writei\<close> use it.
\<close>

section \<open>Out of the kernel\<close>

text \<open>
  Moving \<open>n\<close> bytes \<open>src off\<close>, \<open>src (off + 1)\<close>, \dots to \<open>dst\<close>, with \<open>loc\<close> the bytes of an object on the kernel stack and \<open>m\<close>
  physical memory: whether all of them got there, and the new bytes of both.
\<close>

fun xferout :: "uint64 \<Rightarrow> mref \<Rightarrow> bytes \<Rightarrow> bytes \<Rightarrow> bytes \<Rightarrow> nat \<Rightarrow> nat \<Rightarrow> bool \<times> bytes \<times> bytes" where
  "xferout pt (User a) loc m src off n =
     (let k = upre uw m pt a n in (k = n, loc, ustore m pt a src off k m))"
| "xferout pt (Kern a) loc m src off n = (True, loc, blit m (unat a) src off n)"
| "xferout pt (Local a) loc m src off n = (True, blit loc a src off n, m)"

text \<open>The page table is not in the pages a user may write, and a kernel range does not wrap around.\<close>

fun xferout_ok :: "uint64 \<Rightarrow> mref \<Rightarrow> bytes \<Rightarrow> nat \<Rightarrow> bool" where
  "xferout_ok pt (User a) m n = tables_apart m pt"
| "xferout_ok pt (Kern a) m n = (unat a + n < 2 ^ 64)"
| "xferout_ok pt (Local a) m n = True"

lemma either_copyout_at:
  assumes "cpu_proc s = Some p" and "xferout_ok (p_pagetable (proc s p)) dst (pmem s) (unat len)"
  shows "either_copyout dst loc src off len s =
    (case xferout (p_pagetable (proc s p)) dst loc (pmem s) src off (unat len) of
       (ok, loc', m') \<Rightarrow> Ok (if ok then 0 else -1, loc') (s\<lparr>pmem := m'\<rparr>))"
proof (cases dst)
  case (User a)
  then show ?thesis using assms
    by (simp add: kern_simps kdo_Ok [where m = "copyout _ _ _ _", OF copyout_ok] Let_def ustore_def)
qed (simp_all add: kern_simps)

lemma upre_cong: "(\<And>v. uaddr perm m pt v = uaddr perm m' pt v) \<Longrightarrow> upre perm m pt va k = upre perm m' pt va k"
  by (simp add: upre_def)

lemma ustore_uaddr:
  assumes "tables_apart m pt" and "upre uw m pt va k = k"
  shows "tables_apart (ustore m pt va src off k m) pt" "uaddr uw (ustore m pt va src off k m) pt v = uaddr uw m pt v"
proof -
  have "\<And>i. i < k \<Longrightarrow> uaddr uw m pt (va + of_nat i) \<noteq> None" using assms(2) by (simp add: upre_full)
  from ustore_tables [OF assms(1) this]
  show "tables_apart (ustore m pt va src off k m) pt" "uaddr uw (ustore m pt va src off k m) pt v = uaddr uw m pt v"
    by (simp_all add: uaddr_def upage_def)
qed

lemma blit_split: "blit m d src off (a + b) = blit (blit m d src off a) (d + a) src (off + a) b"
  by (induction b) (simp_all add: ac_simps)

lemma upre_less: "upre perm m pt va a < a \<Longrightarrow> upre perm m pt va (a + b) = upre perm m pt va a"
proof -
  assume l: "upre perm m pt va a < a"
  let ?P = "\<lambda>i. uaddr perm m pt (va + of_nat i) \<noteq> None"
  have "takeWhile ?P [0..<a] \<noteq> [0..<a]" using l unfolding upre_def by (metis diff_zero length_upt less_irrefl)
  then obtain x where "x \<in> set [0..<a]" "\<not> ?P x" by (auto simp: takeWhile_eq_all_conv)
  then have "takeWhile ?P ([0..<a] @ [a..<a + b]) = takeWhile ?P [0..<a]" by (rule takeWhile_append1)
  then show ?thesis unfolding upre_def using upt_add_eq_append [of 0 a b] by simp
qed

text \<open>A transfer in two pieces.\<close>

lemma xferout_split:
  assumes "xferout_ok pt dst m (a + b)"
  shows "xferout pt dst loc m src off (a + b) =
    (case xferout pt dst loc m src off a of
       (ok, loc', m') \<Rightarrow> if ok then xferout pt (mref_add dst a) loc' m' src (off + a) b else (False, loc', m'))"
    and "xferout pt dst loc m src off a = (True, loc', m') \<Longrightarrow> xferout_ok pt (mref_add dst a) m' b"
proof -
  have kern: "unat (x + of_nat a :: uint64) = unat x + a" if "unat x + (a + b) < 2 ^ 64" for x :: uint64
    using that by (simp add: unat_word_ariths unat_of_nat)
  show "xferout pt dst loc m src off (a + b) =
    (case xferout pt dst loc m src off a of
       (ok, loc', m') \<Rightarrow> if ok then xferout pt (mref_add dst a) loc' m' src (off + a) b else (False, loc', m'))"
  proof (cases dst)
    case (User va)
    show ?thesis
    proof (cases "upre uw m pt va a = a")
      case True
      have t: "tables_apart m pt" using assms User by simp
      note u = ustore_uaddr [OF t True, of src off]
      show ?thesis using User True
        by (simp add: Let_def upre_split [OF True] upre_cong [OF u(2)] ustore_cong [OF u(2)] ustore_split)
    next
      case False
      then have "upre uw m pt va a < a" using upre_le [of uw m pt va a] by linarith
      then show ?thesis using User by (simp add: upre_less Let_def)
    qed
  next
    case (Kern x)
    then show ?thesis using assms kern [of x] by (simp add: blit_split)
  next
    case (Local x)
    then show ?thesis by (simp add: blit_split)
  qed
  show "xferout_ok pt (mref_add dst a) m' b" if "xferout pt dst loc m src off a = (True, loc', m')"
    using assms that ustore_uaddr(1) kern by (cases dst) (auto simp: Let_def)
qed

lemma xferout_ok_less: "xferout_ok pt dst m n \<Longrightarrow> k \<le> n \<Longrightarrow> xferout_ok pt dst m k"
  by (cases dst) auto

lemma ustore_src: "(\<And>i. i < k \<Longrightarrow> src (off + i) = src' (off' + i)) \<Longrightarrow> ustore m0 pt va src off k m = ustore m0 pt va src' off' k m"
  unfolding ustore_def by (rule fold_cong) auto

lemma blit_src: "(\<And>i. i < n \<Longrightarrow> src (off + i) = src' (off' + i)) \<Longrightarrow> blit m d src off n = blit m d src' off' n"
  by (induction n) simp_all

lemma xferout_src:
  assumes "\<And>i. i < n \<Longrightarrow> src (off + i) = src' (off' + i)"
  shows "xferout pt dst loc m src off n = xferout pt dst loc m src' off' n"
proof (cases dst)
  case (User a)
  have "upre uw m pt a n \<le> n" by (rule upre_le)
  then have "ustore m pt a src off (upre uw m pt a n) m = ustore m pt a src' off' (upre uw m pt a n) m"
    using assms by (intro ustore_src) simp
  then show ?thesis using User by (simp add: Let_def)
qed (use blit_src [where src = src and off = off and src' = src' and off' = off', OF assms] in simp_all)

lemma xferout_none [simp]: "xferout pt dst loc m src off 0 = (True, loc, m)"
  by (cases dst) (simp_all add: upre_def ustore_def)

section \<open>Into the kernel\<close>

abbreviation ur :: "uint64 set" where
  "ur \<equiv> {PTE_V, PTE_U}"

text \<open>How many of \<open>n\<close> bytes from \<open>src\<close> on can be read, and byte \<open>i\<close> of them.\<close>

fun xferin_len :: "uint64 \<Rightarrow> mref \<Rightarrow> bytes \<Rightarrow> nat \<Rightarrow> nat" where
  "xferin_len pt (User a) m n = upre ur m pt a n"
| "xferin_len pt (Kern a) m n = n"
| "xferin_len pt (Local a) m n = n"

fun xferin :: "uint64 \<Rightarrow> mref \<Rightarrow> bytes \<Rightarrow> bytes \<Rightarrow> nat \<Rightarrow> uchar" where
  "xferin pt (User a) loc m i = m (the (uaddr ur m pt (a + of_nat i)))"
| "xferin pt (Kern a) loc m i = m (unat a + i)"
| "xferin pt (Local a) loc m i = loc (a + i)"

lemma either_copyin_at:
  assumes "cpu_proc s = Some p"
  shows "either_copyin dst off src loc len s =
    (let pt = p_pagetable (proc s p); k = xferin_len pt src (pmem s) (unat len) in
     Ok (if k = unat len then 0 else -1, \<lambda>i. if off \<le> i \<and> i < off + k then xferin pt src loc (pmem s) (i - off) else dst i) s)"
proof (cases src)
  case (User a)
  show ?thesis using assms
    by (simp add: User kern_simps kdo_Ok [where m = "copyin _ _ _ _", OF copyin_ok] Let_def fun_eq_iff)
      (auto simp: less_diff_conv2)
qed (simp_all add: kern_simps Let_def blit_at fun_eq_iff)

lemma xferin_split:
  assumes "xferin_len pt src m (a + b) = a + b" and "case src of Kern x \<Rightarrow> unat x + (a + b) < 2 ^ 64 | _ \<Rightarrow> True"
  shows "xferin_len pt src m a = a" "xferin_len pt (mref_add src a) m b = b"
    "i < b \<Longrightarrow> xferin pt (mref_add src a) loc m i = xferin pt src loc m (a + i)"
proof -
  have u: "upre ur m pt v a = a" if "upre ur m pt v (a + b) = a + b" for v
    using that upre_less [of ur m pt v a b] upre_le [of ur m pt v a] by (cases "upre ur m pt v a < a") auto
  show "xferin_len pt src m a = a" using assms(1) u by (cases src) simp_all
  show "xferin_len pt (mref_add src a) m b = b"
  proof (cases src)
    case (User v)
    then show ?thesis using assms(1) u upre_split [OF u, of v b] by simp
  qed simp_all
  show "xferin pt (mref_add src a) loc m i = xferin pt src loc m (a + i)" if "i < b"
  proof (cases src)
    case (Kern x)
    then have "unat (x + of_nat a) = unat x + a" using assms(2) by (simp add: unat_word_ariths unat_of_nat)
    then show ?thesis using Kern by (simp add: ac_simps)
  qed (simp_all add: ac_simps)
qed

end
