(* ===== verification/Pipeq.thy ===== *)
theory Pipeq
  imports Pipe Ucopy
begin

text \<open>
  What reading and writing a pipe do, on every path: the bytes written go to the end of a queue of at most
  \<^verbatim>\<open>PIPESIZE\<close> bytes, and the bytes read come off its front.
\<close>

section \<open>A pipe is a queue\<close>

definition pipe_content :: "pipe \<Rightarrow> uchar list" where
  "pipe_content x = ring PIPESIZE (pi_data x) (pi_nread x) (pi_nwrite x)"

definition pipe_ok :: "pipe \<Rightarrow> bool" where
  "pipe_ok x \<longleftrightarrow> length (pipe_content x) \<le> PIPESIZE"

definition pipe_enq :: "uchar \<Rightarrow> pipe \<Rightarrow> pipe" where
  "pipe_enq c x = x\<lparr>pi_data := (pi_data x)(unat (pi_nwrite x) mod PIPESIZE := c), pi_nwrite := pi_nwrite x + 1\<rparr>"

definition pipe_front :: "pipe \<Rightarrow> uchar" where
  "pipe_front x = pi_data x (unat (pi_nread x) mod PIPESIZE)"

definition pipe_deq :: "pipe \<Rightarrow> pipe" where
  "pipe_deq x = x\<lparr>pi_nread := pi_nread x + 1\<rparr>"

interpretation pipe_q: bounded_queue pipe_content pipe_ok pipe_enq pipe_front pipe_deq PIPESIZE
proof
  fix x c
  assume ok: "pipe_ok x"
  show "length (pipe_content x) \<le> PIPESIZE" using ok by (simp add: pipe_ok_def)
  {
    assume "length (pipe_content x) < PIPESIZE"
    then show "pipe_content (pipe_enq c x) = pipe_content x @ [c]" and "pipe_ok (pipe_enq c x)"
      using ring_push [of PIPESIZE "pi_nwrite x" "pi_nread x" "pi_data x" c]
      by (simp_all add: pipe_content_def pipe_enq_def pipe_ok_def params)
  }
  {
    assume "pipe_content x \<noteq> []"
    then have "pi_nread x \<noteq> pi_nwrite x" by (simp add: pipe_content_def ring_empty)
    from ring_pop [OF this, of PIPESIZE "pi_data x"] ok
    show "pipe_content (pipe_deq x) = tl (pipe_content x)" and "pipe_front x = hd (pipe_content x)" and "pipe_ok (pipe_deq x)"
      by (simp_all add: pipe_content_def pipe_deq_def pipe_front_def pipe_ok_def)
  }
qed

lemma pipe_full:
  assumes "pipe_ok x"
  shows "pi_nwrite x = pi_nread x + of_nat PIPESIZE \<longleftrightarrow> length (pipe_content x) = PIPESIZE"
proof
  assume "length (pipe_content x) = PIPESIZE"
  then have "pi_nwrite x - pi_nread x = of_nat PIPESIZE" by (simp add: pipe_content_def word_unat_eq_iff params)
  then show "pi_nwrite x = pi_nread x + of_nat PIPESIZE" by (simp add: algebra_simps)
qed (simp add: pipe_content_def params)

lemma pipe_empty: "pi_nread x = pi_nwrite x \<longleftrightarrow> pipe_content x = []"
  by (auto simp: pipe_content_def ring_empty)

lemma pipe_enqs_flags [simp]:
  "pi_readopen (fold pipe_enq bs x) = pi_readopen x" "pi_writeopen (fold pipe_enq bs x) = pi_writeopen x"
  by (induction bs arbitrary: x) (simp_all add: pipe_enq_def)

section \<open>Writing\<close>

text \<open>The bytes of user memory from an address on, as far as the user may read them.\<close>

definition ubytes :: "bytes \<Rightarrow> uint64 \<Rightarrow> uint64 \<Rightarrow> nat \<Rightarrow> uchar list" where
  "ubytes m pt va n = map (\<lambda>j. m (the (uaddr ur m pt (va + of_nat j)))) [0..<n]"

lemma ubytes_Suc: "ubytes m pt va (Suc n) = m (the (uaddr ur m pt va)) # ubytes m pt (va + 1) n"
proof -
  have "[0..<Suc n] = 0 # map Suc [0..<n]" by (simp add: upt_conv_Cons map_Suc_upt del: upt_Suc)
  then show ?thesis by (simp add: ubytes_def comp_def algebra_simps del: upt_Suc)
qed

lemma length_ubytes [simp]: "length (ubytes m pt va n) = n"
  by (simp add: ubytes_def)

lemma upre_1: "upre perm m pt va 1 = 1 \<longleftrightarrow> uaddr perm m pt va \<noteq> None"
  using upre_full [of perm m pt va 1] by simp

lemma upre_Suc:
  "upre perm m pt va (Suc k) = (if uaddr perm m pt va = None then 0 else Suc (upre perm m pt (va + 1) k))"
proof (cases "uaddr perm m pt va")
  case None
  then show ?thesis using upre_at [of 0 perm m pt va "Suc k"] by auto
next
  case (Some a)
  then have "upre perm m pt va 1 = 1" unfolding upre_1 by simp
  from upre_split [OF this, of k] Some show ?thesis by simp
qed

text \<open>The state when a writer is done, or asleep on a full pipe; the pipe has got the bytes \<open>bs\<close>.\<close>

definition wrote :: "uint64 \<Rightarrow> uchar list \<Rightarrow> 'a pipe_st_scheme \<Rightarrow> 'a pipe_st_scheme" where
  "wrote pi bs s = (upd_pipe pi (fold pipe_enq bs) s)\<lparr>proc := wake (Chan_nread (unat pi)) (cpu_proc s) (proc s)\<rparr>"

definition doze :: "nat \<Rightarrow> chan \<Rightarrow> 'a kcore_scheme \<Rightarrow> 'a kcore_scheme" where
  "doze p c s = upd_proc p (\<lambda>q. q\<lparr>p_chan := Some c, p_state := SLEEPING\<rparr>) (s\<lparr>held := {Proc_lock p}\<rparr>)"

lemma wrote_step: "wrote pi bs (upd_pipe pi (pipe_enq c) s) = wrote pi (c # bs) s"
  by (simp add: wrote_def)

lemma pipewrite_loop_at:
  assumes "held s = {Pipe_lock (unat pi)}" and "cpu_proc s = Some pr" and "pi_readopen (pipes s pi)"
    and "\<not> p_killed (proc s pr)" and "pipe_ok (pipes s pi)"
  shows "pipewrite_loop k pi addr pr i s =
    (let m = pmem s; pt = p_pagetable (proc s pr); r = upre ur m pt (addr + of_nat i) k;
         room = PIPESIZE - length (pipe_content (pipes s pi)) in
     if r < room \<or> k \<le> room then Ok (int (i + r)) ((wrote pi (ubytes m pt (addr + of_nat i) r) s)\<lparr>held := {}\<rparr>)
     else Switch (doze pr (Chan_nwrite (unat pi)) (wrote pi (ubytes m pt (addr + of_nat i) room) s)))"
  using assms
proof (induction k arbitrary: i s)
  case 0
  then show ?case
    by (simp add: pipewrite_done_def kern_simps no_proc_locks_def wrote_def upre_def ubytes_def)
next
  case (Suc k)
  let ?x = "pipes s pi" and ?m = "pmem s" and ?pt = "p_pagetable (proc s pr)" and ?va = "addr + of_nat i"
  have nl: "no_proc_locks s" using Suc.prems(1) by (simp add: no_proc_locks_def)
  have le: "length (pipe_content ?x) \<le> PIPESIZE" using Suc.prems(5) by (simp add: pipe_ok_def)
  show ?case
  proof (cases "length (pipe_content ?x) = PIPESIZE")
    case True
    then have full: "pi_nwrite ?x = pi_nread ?x + of_nat PIPESIZE" using pipe_full [OF Suc.prems(5)] by simp
    have "pipewrite_loop (Suc k) pi addr pr i s = Switch (doze pr (Chan_nwrite (unat pi)) (wrote pi [] s))"
      using Suc.prems full nl by (simp add: kern_simps sleep_at wrote_def doze_def)
    then show ?thesis using True by (simp add: ubytes_def Let_def)
  next
    case False
    then have room: "length (pipe_content ?x) < PIPESIZE" using le by simp
    have nf: "pi_nwrite ?x \<noteq> pi_nread ?x + of_nat PIPESIZE" using pipe_full [OF Suc.prems(5)] False by simp
    show ?thesis
    proof (cases "uaddr ur ?m ?pt ?va")
      case None
      then have "upre ur ?m ?pt ?va 1 = 0" using upre_1 [of ur ?m ?pt ?va] upre_le [of ur ?m ?pt ?va 1] by auto
      then have "pipewrite_loop (Suc k) pi addr pr i s = Ok (int i) ((wrote pi [] s)\<lparr>held := {}\<rparr>)"
        using Suc.prems nf nl by (simp add: kern_simps copyin_ok kdo_Ok [OF copyin_ok] pipewrite_done_def wrote_def)
      then show ?thesis using None room by (simp add: upre_Suc ubytes_def Let_def)
    next
      case (Some a)
      let ?c = "?m a" and ?t = "upd_pipe pi (pipe_enq (?m a)) s"
      have u1: "upre ur ?m ?pt ?va 1 = 1" unfolding upre_1 using Some by simp
      have op: "pi_readopen (pipes ?t pi)" using Suc.prems(3) by (simp add: pipe_enq_def)
      have st: "pipewrite_loop (Suc k) pi addr pr i s = pipewrite_loop k pi addr pr (i + 1) ?t"
        using Suc.prems nf u1 Some by (simp add: kern_simps kdo_Ok [OF copyin_ok] pipe_enq_def)
      have ct: "pipe_content (pipes ?t pi) = pipe_content ?x @ [?c]" and ok: "pipe_ok (pipes ?t pi)"
        using pipe_q.content_enq [OF Suc.prems(5) room] pipe_q.ok_enq [OF Suc.prems(5) room] by simp_all
      have va: "addr + of_nat (i + 1) = ?va + 1" by simp
      have lp: "pipewrite_loop k pi addr pr (i + 1) ?t =
        (let r = upre ur ?m ?pt (?va + 1) k; room = PIPESIZE - length (pipe_content (pipes ?t pi)) in
         if r < room \<or> k \<le> room then Ok (int (i + 1 + r)) ((wrote pi (ubytes ?m ?pt (?va + 1) r) ?t)\<lparr>held := {}\<rparr>)
         else Switch (doze pr (Chan_nwrite (unat pi)) (wrote pi (ubytes ?m ?pt (?va + 1) room) ?t)))"
        using Suc.IH [of ?t "i + 1"] Suc.prems(1,2,4) op ok unfolding Let_def va by simp
      have e: "pipewrite_loop (Suc k) pi addr pr i s =
        (let r = upre ur ?m ?pt (?va + 1) k; room = PIPESIZE - Suc (length (pipe_content ?x)) in
         if r < room \<or> k \<le> room then Ok (int (i + Suc r)) ((wrote pi (?c # ubytes ?m ?pt (?va + 1) r) s)\<lparr>held := {}\<rparr>)
         else Switch (doze pr (Chan_nwrite (unat pi)) (wrote pi (?c # ubytes ?m ?pt (?va + 1) room) s)))"
        unfolding st lp Let_def ct wrote_step by simp
      have rm: "PIPESIZE - length (pipe_content ?x) = Suc (PIPESIZE - Suc (length (pipe_content ?x)))" using room by simp
      have cs: "?c # ubytes ?m ?pt (?va + 1) n = ubytes ?m ?pt ?va (Suc n)" for n using Some by (simp add: ubytes_Suc)
      show ?thesis unfolding e Let_def upre_Suc rm cs using Some by simp
    qed
  qed
qed

section \<open>Reading\<close>

text \<open>
  The state when a reader has taken \<open>d\<close> bytes off the pipe and stored \<open>k\<close> of them; the source of the store is
  the content the pipe had.
\<close>

definition took :: "uint64 \<Rightarrow> nat \<Rightarrow> nat \<Rightarrow> bytes \<Rightarrow> 'a pipe_st_scheme \<Rightarrow> 'a pipe_st_scheme" where
  "took pi pr d m s = (upd_pipe pi (pipe_deq ^^ d) s)\<lparr>pmem := m, proc := wake (Chan_nwrite (unat pi)) (cpu_proc s) (proc s)\<rparr>"

lemma pipe_deqs:
  assumes "pipe_ok x" and "d \<le> length (pipe_content x)"
  shows "pipe_content ((pipe_deq ^^ d) x) = drop d (pipe_content x) \<and> pipe_ok ((pipe_deq ^^ d) x)"
  using assms(2)
proof (induction d)
  case (Suc d)
  then have IH: "pipe_content ((pipe_deq ^^ d) x) = drop d (pipe_content x)" "pipe_ok ((pipe_deq ^^ d) x)" by simp_all
  have ne: "pipe_content ((pipe_deq ^^ d) x) \<noteq> []" using IH Suc.prems by simp
  show ?case using pipe_q.content_deq [OF IH(2) ne] pipe_q.ok_deq [OF IH(2) ne] IH(1) by (simp add: drop_Suc tl_drop)
qed (use assms in simp)

lemma took_step: "took pi pr d m ((upd_pipe pi pipe_deq s)\<lparr>pmem := m'\<rparr>) = took pi pr (Suc d) m s"
  by (simp add: took_def funpow_swap1)

lemma ustore_one: "uaddr uw m pt va = Some a \<Longrightarrow> ustore m pt va src off 1 m' = m'(a := src off)"
  by (simp add: ustore_def)

lemma ustore_first:
  assumes "\<And>v. uaddr uw m1 pt v = uaddr uw m pt v" and "uaddr uw m pt va = Some a" and "src 0 = c" and "\<And>j. src' j = src (Suc j)"
  shows "ustore m1 pt (va + 1) src' 0 k (m(a := c)) = ustore m pt va src 0 (Suc k) m"
proof -
  have "ustore m pt va src 0 (1 + k) m = ustore m pt (va + of_nat 1) src (0 + 1) k (ustore m pt va src 0 1 m)"
    by (rule ustore_split)
  also have "\<dots> = ustore m pt (va + 1) src' 0 k (m(a := c))"
    using assms(2-4) by (simp add: ustore_one ustore_def)
  finally show ?thesis using ustore_cong [of m1 pt m, OF assms(1)] by simp
qed

lemma ustore_one_tables:
  assumes "tables_apart m pt" and "uaddr uw m pt va = Some a"
  shows "tables_apart (m(a := c)) pt" and "uaddr uw (m(a := c)) pt v = uaddr uw m pt v"
proof -
  from ustore_tables [OF assms(1), of 1 va "\<lambda>_. c" 0] have
    "tables_apart (m(a := c)) pt" "\<And>v. entry (m(a := c)) pt v = entry m pt v"
    using assms(2) unfolding ustore_one [OF assms(2)] by simp_all
  then show "tables_apart (m(a := c)) pt" "uaddr uw (m(a := c)) pt v = uaddr uw m pt v" by (simp_all add: uaddr_def upage_def)
qed

lemma piperead_loop_at:
  assumes "held s = {Pipe_lock (unat pi)}" and "cpu_proc s = Some pr" and "pipe_ok (pipes s pi)"
    and "tables_apart (pmem s) (p_pagetable (proc s pr))"
  shows "piperead_loop k pi addr pr i s =
    (let m = pmem s; pt = p_pagetable (proc s pr); q = pipe_content (pipes s pi); c = min k (length q);
         w = upre uw m pt (addr + of_nat i) c in
     Ok (int (i + w)) ((took pi pr (if w < c then Suc w else c)
        (ustore m pt (addr + of_nat i) (\<lambda>j. q ! j) 0 w m) s)\<lparr>held := {}\<rparr>))"
  using assms
proof (induction k arbitrary: i s)
  case 0
  then show ?case
    by (simp add: piperead_done_def kern_simps no_proc_locks_def took_def upre_def ustore_def)
next
  case (Suc k)
  let ?x = "pipes s pi" and ?m = "pmem s" and ?pt = "p_pagetable (proc s pr)" and ?va = "addr + of_nat i"
  have nl: "no_proc_locks s" using Suc.prems(1) by (simp add: no_proc_locks_def)
  show ?case
  proof (cases "pipe_content ?x")
    case Nil
    then have "piperead_loop (Suc k) pi addr pr i s = piperead_done pi i s"
      by (simp add: kern_simps pipe_empty)
    then show ?thesis using Suc.prems Nil nl
      by (simp add: piperead_done_def kern_simps took_def upre_def ustore_def)
  next
    case (Cons c q)
    then have ne: "pipe_content ?x \<noteq> []" by simp
    have fr: "pi_data ?x (unat (pi_nread ?x) mod PIPESIZE) = c"
      using pipe_q.front_hd [OF Suc.prems(3) ne] Cons by (simp add: pipe_front_def)
    have cd: "pipe_content (pipe_deq ?x) = q" "pipe_ok (pipe_deq ?x)"
      using pipe_q.content_deq [OF Suc.prems(3) ne] pipe_q.ok_deq [OF Suc.prems(3) ne] Cons by simp_all
    let ?t = "upd_pipe pi pipe_deq s"
    note co = copyout_ok [of ?t ?pt ?va "\<lambda>_. c" 1, simplified]
    show ?thesis
    proof (cases "uaddr uw ?m ?pt ?va")
      case None
      then have u: "upre uw ?m ?pt ?va 1 = 0" using upre_1 [of uw ?m ?pt ?va] upre_le [of uw ?m ?pt ?va 1] by auto
      have "piperead_loop (Suc k) pi addr pr i s = piperead_done pi i ?t"
        using Suc.prems ne fr u by (simp add: kern_simps pipe_empty kdo_Ok [where m = "copyout _ _ _ _", OF co [unfolded pipe_deq_def]] pipe_deq_def ustore_def)
      then show ?thesis using None Cons Suc.prems nl
        by (simp add: piperead_done_def kern_simps took_def upre_Suc ustore_def no_proc_locks_def)
    next
      case (Some a)
      define m1 where "m1 = ?m(a := c)"
      let ?t' = "?t\<lparr>pmem := m1\<rparr>"
      have u: "upre uw ?m ?pt ?va 1 = 1" unfolding upre_1 using Some by simp
      have st: "piperead_loop (Suc k) pi addr pr i s = piperead_loop k pi addr pr (i + 1) ?t'"
        using Suc.prems ne fr u Some
        by (simp add: kern_simps pipe_empty kdo_Ok [where m = "copyout _ _ _ _", OF co [unfolded pipe_deq_def]] pipe_deq_def
            ustore_one [simplified] m1_def)
      note tb = ustore_one_tables [OF Suc.prems(4) Some, of c, folded m1_def]
      have va: "addr + of_nat (i + 1) = ?va + 1" by simp
      have up: "upre uw m1 ?pt (?va + 1) n = upre uw ?m ?pt (?va + 1) n" for n
        by (rule upre_cong) (rule tb(2))
      have us: "ustore m1 ?pt (?va + 1) ((!) q) 0 n m1 = ustore ?m ?pt ?va ((!) (c # q)) 0 (Suc n) ?m" for n
        unfolding m1_def by (rule ustore_first [OF tb(2) [unfolded m1_def] Some]) simp_all
      let ?c = "min k (length q)" let ?w = "upre uw ?m ?pt (?va + 1) ?c"
      have "piperead_loop k pi addr pr (i + 1) ?t' =
        Ok (int (i + 1 + ?w)) ((took pi pr (if ?w < ?c then Suc ?w else ?c) (ustore m1 ?pt (?va + 1) ((!) q) 0 ?w m1) ?t')\<lparr>held := {}\<rparr>)"
        using Suc.IH [of ?t' "i + 1"] Suc.prems(1,2) tb(1) cd unfolding Let_def va by (simp add: up del: of_nat_add)
      then have e: "piperead_loop (Suc k) pi addr pr i s =
        Ok (int (i + Suc ?w)) ((took pi pr (Suc (if ?w < ?c then Suc ?w else ?c)) (ustore ?m ?pt ?va ((!) (c # q)) 0 (Suc ?w) ?m) s)\<lparr>held := {}\<rparr>)"
        unfolding st us took_step by simp
      have mn: "min (Suc k) (length (c # q)) = Suc ?c" by simp
      show ?thesis unfolding e Let_def Cons mn upre_Suc using Some by simp
    qed
  qed
qed

section \<open>The calls\<close>

lemma pipe_enqs:
  assumes "pipe_ok x" and "length bs \<le> PIPESIZE - length (pipe_content x)"
  shows "pipe_content (fold pipe_enq bs x) = pipe_content x @ bs"
proof -
  have "length (pipe_content x) + length bs \<le> PIPESIZE" using assms unfolding pipe_ok_def by linarith
  then show ?thesis using pipe_q.content_enqs [OF assms(1), of bs] by blast
qed

lemma wrote_fields [simp]:
  "pipes (wrote pi bs s) = (pipes s)(pi := fold pipe_enq bs (pipes s pi))" "pmem (wrote pi bs s) = pmem s" "held (wrote pi bs s) = held s"
  "proc (wrote pi bs s) = wake (Chan_nread (unat pi)) (cpu_proc s) (proc s)" "cpu_proc (wrote pi bs s) = cpu_proc s"
  by (simp_all add: wrote_def)

lemma took_fields [simp]:
  "pipes (took pi pr d m s) = (pipes s)(pi := (pipe_deq ^^ d) (pipes s pi))" "pmem (took pi pr d m s) = m" "held (took pi pr d m s) = held s"
  "proc (took pi pr d m s) = wake (Chan_nwrite (unat pi)) (cpu_proc s) (proc s)" "cpu_proc (took pi pr d m s) = cpu_proc s"
  by (simp_all add: took_def)

text \<open>Every other process that sleeps on the channel has been made runnable.\<close>

definition all_woken :: "chan \<Rightarrow> nat \<Rightarrow> 'a kcore_scheme \<Rightarrow> 'a kcore_scheme \<Rightarrow> bool" where
  "all_woken c me s t \<longleftrightarrow> (\<forall>p<NPROC. p \<noteq> me \<longrightarrow> p_state (proc s p) = SLEEPING \<longrightarrow> p_chan (proc s p) = Some c \<longrightarrow> p_state (proc t p) = RUNNABLE)"

lemma all_woken_wake: "(\<And>p. p \<noteq> me \<Longrightarrow> proc t p = wake c (Some me) (proc s) p) \<Longrightarrow> all_woken c me s t"
  by (auto simp: all_woken_def wake_def)

text \<open>
  C18. Writing to a pipe whose read end is open.  Let \<open>r\<close> be how many of the bytes asked for the caller can read in its own
  memory, before the first it cannot, and \<open>room\<close> how many bytes the pipe can still hold.  If the call meets a bad
  address before the pipe is full, or the pipe never fills up, it returns \<open>r\<close>, having added exactly those bytes, in order,
  at the end of the pipe's content.  Otherwise it fills the pipe and sleeps for a reader, holding nothing but its own
  process's lock.  Either way every sleeping reader is woken.
\<close>

theorem pipewrite_exact:
  fixes s :: "'a pipe_st_scheme" and addr :: uint64 and n :: int
  assumes "held s = {}" and "cpu_proc s = Some pr" and "pi_readopen (pipes s pi)" and "\<not> p_killed (proc s pr)" and "pipe_ok (pipes s pi)"
  defines "m \<equiv> pmem s" and "pt \<equiv> p_pagetable (proc s pr)"
  defines "r \<equiv> upre ur m pt addr (nat n)" and "room \<equiv> PIPESIZE - length (pipe_content (pipes s pi))"
  shows "\<exists>t. pipe_content (pipes t pi) = pipe_content (pipes s pi) @ ubytes m pt addr (min r room) \<and> pmem t = m \<and>
      all_woken (Chan_nread (unat pi)) pr s t \<and>
      (if r < room \<or> nat n \<le> room then pipewrite pi addr n s = Ok (int r) t \<and> held t = {}
       else pipewrite pi addr n s = Switch t \<and> held t = {Proc_lock pr} \<and> length (pipe_content (pipes t pi)) = PIPESIZE \<and>
         p_state (proc t pr) = SLEEPING \<and> p_chan (proc t pr) = Some (Chan_nwrite (unat pi)))"
proof -
  let ?s = "s\<lparr>held := {Pipe_lock (unat pi)}\<rparr>"
  have le: "r \<le> nat n" unfolding r_def by (rule upre_le)
  have ok: "length (pipe_content (pipes s pi)) \<le> PIPESIZE" using assms(5) by (simp add: pipe_ok_def)
  have at: "pipewrite pi addr n s =
     (if r < room \<or> nat n \<le> room then Ok (int r) ((wrote pi (ubytes m pt addr r) ?s)\<lparr>held := {}\<rparr>)
      else Switch (doze pr (Chan_nwrite (unat pi)) (wrote pi (ubytes m pt addr room) ?s)))"
    using pipewrite_loop_at [of ?s pi pr "nat n" addr 0] assms(1-5)
    by (simp add: pipewrite_def kern_simps r_def room_def m_def pt_def Let_def)
  have enq: "pipe_content (fold pipe_enq (ubytes m pt addr k) (pipes s pi)) = pipe_content (pipes s pi) @ ubytes m pt addr k"
    if "k \<le> room" for k using pipe_enqs [OF assms(5), of "ubytes m pt addr k"] that by (simp add: room_def)
  show ?thesis
  proof (cases "r < room \<or> nat n \<le> room")
    case True
    then have "r \<le> room" using le by auto
    let ?t = "(wrote pi (ubytes m pt addr r) ?s)\<lparr>held := {}\<rparr>"
    have "all_woken (Chan_nread (unat pi)) pr s ?t" by (rule all_woken_wake) (simp add: assms(2))
    then show ?thesis using True at enq [OF \<open>r \<le> room\<close>] \<open>r \<le> room\<close> by (intro exI [of _ ?t]) (simp add: min_absorb1 m_def)
  next
    case False
    let ?t = "doze pr (Chan_nwrite (unat pi)) (wrote pi (ubytes m pt addr room) ?s)"
    have "all_woken (Chan_nread (unat pi)) pr s ?t" by (rule all_woken_wake) (simp add: assms(2) doze_def)
    then show ?thesis using False at enq [of room] ok by (intro exI [of _ ?t]) (simp add: min_absorb2 m_def doze_def room_def)
  qed
qed

text \<open>
  C19. Reading from a pipe.  An empty pipe that is open for writing makes the caller sleep, or return -1 if it was killed.
  Otherwise let \<open>c\<close> be the number of bytes wanted that the pipe has, and \<open>w\<close> how many of them the caller's memory can
  take.  The call returns \<open>w\<close>, having stored exactly the first \<open>w\<close> bytes of the pipe there, and every sleeping writer is
  woken.  If the memory could not take them all the pipe has lost one byte more than the call reports.
\<close>

theorem piperead_exact:
  fixes s :: "'a pipe_st_scheme" and addr :: uint64 and n :: int
  assumes "held s = {}" and "cpu_proc s = Some pr" and "pipe_ok (pipes s pi)" and "tables_apart (pmem s) (p_pagetable (proc s pr))"
  defines "m \<equiv> pmem s" and "pt \<equiv> p_pagetable (proc s pr)" and "q \<equiv> pipe_content (pipes s pi)"
  defines "c \<equiv> min (nat n) (length q)"
  defines "w \<equiv> upre uw m pt addr c"
  shows "if q = [] \<and> pi_writeopen (pipes s pi) then
       (if p_killed (proc s pr) then piperead pi addr n s = Ok (-1) s
        else piperead pi addr n s = Switch (doze pr (Chan_nread (unat pi)) s))
     else \<exists>t. piperead pi addr n s = Ok (int w) t \<and> pmem t = ustore m pt addr (\<lambda>j. q ! j) 0 w m \<and>
       pipe_content (pipes t pi) = drop (if w < c then Suc w else c) q \<and> held t = {} \<and>
       all_woken (Chan_nwrite (unat pi)) pr s t"
proof -
  let ?s = "s\<lparr>held := {Pipe_lock (unat pi)}\<rparr>"
  have hs: "?s\<lparr>held := {}\<rparr> = s" using assms(1) by simp
  show ?thesis
  proof (cases "q = [] \<and> pi_writeopen (pipes s pi)")
    case True
    then have e: "pi_nread (pipes s pi) = pi_nwrite (pipes s pi)" by (simp add: pipe_empty q_def)
    show ?thesis using True assms(1,2) hs e
      by (simp add: piperead_def piperead_wait_def kern_simps sleep_at doze_def)
  next
    case False
    then have ne: "\<not> (pi_nread (pipes s pi) = pi_nwrite (pipes s pi) \<and> pi_writeopen (pipes s pi))" by (simp add: pipe_empty q_def)
    define d where "d = (if w < c then Suc w else c)"
    let ?t = "(took pi pr d (ustore m pt addr ((!) q) 0 w m) ?s)\<lparr>held := {}\<rparr>"
    have wt: "piperead_wait pi addr n pr ?s = piperead_loop (nat n) pi addr pr 0 ?s"
      unfolding piperead_wait_def kdo_gets using ne by (subst if_not_P) simp_all
    have at: "piperead pi addr n s = Ok (int w) ?t"
      using piperead_loop_at [of ?s pi pr "nat n" addr 0] assms(1-4) wt
      by (simp add: piperead_def kern_simps w_def c_def q_def m_def pt_def d_def Let_def)
    have "d \<le> length q" by (auto simp: d_def c_def)
    then have "pipe_content ((pipe_deq ^^ d) (pipes s pi)) = drop d q" using pipe_deqs [OF assms(3)] by (simp add: q_def)
    moreover have "all_woken (Chan_nwrite (unat pi)) pr s ?t" by (rule all_woken_wake) (simp add: assms(2))
    ultimately show ?thesis using False at by (auto simp: d_def [symmetric] intro!: exI [of _ ?t])
  qed
qed

text \<open>A pipe that a process with the example page table writes and reads.\<close>

definition ex_pipe :: pipe_st where
  "ex_pipe = (fs_st.extend ex_fs \<lparr>pipes = \<lambda>_. \<lparr>pi_data = \<lambda>_. 0, pi_nread = 0, pi_nwrite = 0, pi_readopen = True, pi_writeopen = True\<rparr>\<rparr>)
     \<lparr>pmem := ex_ptmem, proc := \<lambda>_. zero_proc\<lparr>p_pagetable := ex_pt\<rparr>\<rparr>"

lemma ex_pipe_sel [simp]:
  "held ex_pipe = {}" "cpu_proc ex_pipe = Some 0" "pmem ex_pipe = ex_ptmem" "proc ex_pipe p = zero_proc\<lparr>p_pagetable := ex_pt\<rparr>"
  "pipes ex_pipe pi = \<lparr>pi_data = \<lambda>_. 0, pi_nread = 0, pi_nwrite = 0, pi_readopen = True, pi_writeopen = True\<rparr>"
  using ex_fs_sel(1,2) by (simp_all add: ex_pipe_def fs_st.defs ex_fs_def con_st.defs)

lemma ex_ur: "upre ur ex_ptmem ex_pt 4098 3 = 3"
proof -
  have "PGROUNDDOWN 4098 = 4096" by (simp add: PGROUNDDOWN_def)
  then show ?thesis using upre_page [of ur ex_ptmem ex_pt 4098 "0x80013000" 3] ex_pt_page by simp
qed

theorem pipewrite_exact_witness:
  "\<exists>t. pipewrite 0x80020000 4098 3 ex_pipe = Ok 3 t \<and> pipe_content (pipes t 0x80020000) = ubytes ex_ptmem ex_pt 4098 3 \<and> held t = {}"
proof -
  let ?x = "pipes ex_pipe 0x80020000"
  have e: "pipe_content ?x = []" by (simp add: pipe_content_def ring_def)
  have ok: "pipe_ok ?x" unfolding pipe_ok_def e by simp
  have f: "pi_readopen ?x" "\<not> p_killed (proc ex_pipe 0)" "p_pagetable (proc ex_pipe 0) = ex_pt" by (simp_all add: zero_proc_def)
  have n: "nat 3 = 3" "PIPESIZE - length ([] :: uchar list) = 512" "min 3 512 = (3 :: nat)" by (simp_all add: params)
  have c: "((3 :: nat) < 512 \<or> 3 \<le> (512 :: nat)) = True" by simp
  show ?thesis using pipewrite_exact [OF ex_pipe_sel(1,2) f(1,2) ok, of 4098 3]
    unfolding e f(3) ex_pipe_sel(3) n ex_ur c if_True by auto
qed

theorem piperead_exact_witness:
  "\<exists>t. piperead 0x80020000 4098 3 (upd_pipe 0x80020000 (fold pipe_enq [65, 66]) ex_pipe) = Ok 2 t \<and>
     pipe_content (pipes t 0x80020000) = [] \<and> pmem t 0x80013002 = 65"
proof -
  let ?s = "upd_pipe 0x80020000 (fold pipe_enq [65, 66]) ex_pipe"
  have "pipe_content (pipes ex_pipe 0x80020000) = []" by (simp add: pipe_content_def ring_def)
  then have e: "pipe_content (pipes ?s 0x80020000) = [65, 66]" using pipe_enqs [of "pipes ex_pipe 0x80020000" "[65, 66]"]
    by (simp add: pipe_ok_def params del: ex_pipe_sel)
  have w: "upre uw ex_ptmem ex_pt 4098 2 = 2" by (rule upre_all) (simp add: ex_pt_addr)
  have m: "ustore ex_ptmem ex_pt 4098 ((!) [65, 66]) 0 2 ex_ptmem 0x80013002 = 65"
    using ex_pt_addr [of 0] ex_pt_addr [of 1] by (simp add: ustore_def upt_rec)
  have mn: "min (nat 3) (length [65 :: uchar, 66]) = 2" by simp
  have p: "p_pagetable (proc ?s 0) = ex_pt" "pmem ?s = ex_ptmem" "held ?s = {}" "cpu_proc ?s = Some 0" by (simp_all add: zero_proc_def)
  have ok: "pipe_ok (pipes ?s 0x80020000)" unfolding pipe_ok_def e by (simp add: params)
  obtain t where t: "piperead 0x80020000 4098 3 ?s = Ok 2 t" "pmem t = ustore ex_ptmem ex_pt 4098 ((!) [65, 66]) 0 2 ex_ptmem"
    "pipe_content (pipes t 0x80020000) = drop 2 [65, 66]"
    using piperead_exact [OF p(3,4) ok, of 4098 3] ex_pt_apart unfolding e p mn w by auto
  then show ?thesis using m by (intro exI [of _ t]) simp
qed

end
