(* ===== verification/Fsblock.thy ===== *)
theory Fsblock
  imports Fs
begin

text \<open>
  What the file system's block operations do, seen by the thread that runs them inside a transaction: the blocks as
  the thread reads them (\<open>view\<close>), which of them each operation changes and how.  The bitmap: \<^verbatim>\<open>balloc\<close> and \<^verbatim>\<open>bfree\<close>.
  Inodes: \<^verbatim>\<open>iupdate\<close> writes what \<^verbatim>\<open>ilock\<close> reads back.
\<close>

section \<open>Inside a transaction\<close>

text \<open>
  \<open>fs_ready k s H\<close>: the thread is inside a transaction with room for \<open>k\<close> more blocks, it has locked the buffers \<open>H\<close> (never
  more than two at a time), and whatever it changed in them is in the log.
\<close>

definition fs_ready :: "nat \<Rightarrow> 'a log_st_scheme \<Rightarrow> nat set \<Rightarrow> bool" where
  "fs_ready k s H \<longleftrightarrow> calm s (log_blocks (log s)) H \<and> log_inv (log s) \<and> 1 \<le> log_outstanding (log s) \<and>
     log_n (log s) + int k + 4 \<le> int NBUF \<and> log_n (log s) + int k < log_size (log s) \<and> card H \<le> 2 \<and>
     (\<forall>b\<in>H. b_blockno (buf s b) \<in> log_blocks (log s) \<or> b_data (buf s b) = disk s (b_blockno (buf s b)))"

text \<open>What stays as it was: everything but buffers, their locks, the contents of the log and scheduling.\<close>

definition fs_frame :: "'a log_st_scheme \<Rightarrow> 'a log_st_scheme \<Rightarrow> bool" where
  "fs_frame s t \<longleftrightarrow> lframe s t \<and> log t = (log s)\<lparr>log_lh := log_lh (log t)\<rparr> \<and> disk t = disk s \<and> dwrites t = dwrites s"

lemma fs_frame_log:
  assumes "fs_frame s t"
  shows "log_start (log t) = log_start (log s)" "log_size (log t) = log_size (log s)" "log_outstanding (log t) = log_outstanding (log s)"
    "log_committing (log t) = log_committing (log s)" "log_dev (log t) = log_dev (log s)"
proof -
  have e: "log t = (log s)\<lparr>log_lh := log_lh (log t)\<rparr>" using assms by (simp add: fs_frame_def)
  show "log_start (log t) = log_start (log s)" "log_size (log t) = log_size (log s)" "log_outstanding (log t) = log_outstanding (log s)"
    "log_committing (log t) = log_committing (log s)" "log_dev (log t) = log_dev (log s)"
    by (subst e, simp)+
qed

lemma fs_frame_refl [simp]: "fs_frame s s"
  by (simp add: fs_frame_def bframe_lframe)

lemma fs_frame_in_log: "fs_frame s t \<Longrightarrow> in_log (log t) = in_log (log s)"
  by (simp add: fs_frame_log in_log_def log_hd_def log_blk_def log_cap_def fun_eq_iff)

lemma fs_frame_trans: "fs_frame s t \<Longrightarrow> fs_frame t u \<Longrightarrow> fs_frame s u"
proof -
  assume a: "fs_frame s t" "fs_frame t u"
  have "log u = (log t)\<lparr>log_lh := log_lh (log u)\<rparr>" "log t = (log s)\<lparr>log_lh := log_lh (log t)\<rparr>" using a by (simp_all add: fs_frame_def)
  then have "log u = (log s)\<lparr>log_lh := log_lh (log u)\<rparr>" by (cases "log s"; cases "log t"; cases "log u") simp
  then show ?thesis using a lframe_trans by (auto simp: fs_frame_def)
qed

lemma lframe_fields:
  assumes "lframe s t"
  shows "held t = held s" "cpu_proc t = cpu_proc s" "pmem t = pmem s" "log_st.more t = log_st.more s"
    "slock t (Inode_lock i) = slock s (Inode_lock i)" "cpu_proc s = Some p \<Longrightarrow> proc t p = proc s p"
proof -
  have b: "bframe (s\<lparr>log := log t\<rparr>) t" using assms by (simp add: lframe_def)
  show "held t = held s" "cpu_proc t = cpu_proc s" "pmem t = pmem s" "slock t (Inode_lock i) = slock s (Inode_lock i)"
    using bframe_fields(1,2,6,10) [OF b] by simp_all
  show "cpu_proc s = Some p \<Longrightarrow> proc t p = proc s p" using bframe_fields(13) [OF b] by simp
  have "bcache_st.more t = bcache_st.more (s\<lparr>log := log t\<rparr>)" using bframe_fields(9) [OF b] .
  then show "log_st.more t = log_st.more s" by (cases s; cases t) simp
qed

lemma fs_frame_fields:
  assumes "fs_frame s t"
  shows "sb t = sb s" "itable t = itable (s :: 'a fs_st_scheme)" "held t = held s" "cpu_proc t = cpu_proc s" "con_ok t = con_ok s" "pmem t = pmem s"
    "slock t (Inode_lock i) = slock s (Inode_lock i)" "cpu_proc s = Some p \<Longrightarrow> proc t p = proc s p"
proof -
  have l: "lframe s t" using assms by (simp add: fs_frame_def)
  note f = lframe_fields [OF l]
  show "held t = held s" "cpu_proc t = cpu_proc s" "pmem t = pmem s" "slock t (Inode_lock i) = slock s (Inode_lock i)"
    "cpu_proc s = Some p \<Longrightarrow> proc t p = proc s p" using f by simp_all
  show "sb t = sb s" "itable t = itable s" "con_ok t = con_ok s"
    using f(4) by (cases s; cases t; simp add: con_ok_def)+
qed

lemma fs_readyD:
  assumes "fs_ready k s H"
  shows "calm s (log_blocks (log s)) H" "log_inv (log s)" "held s = {}" "finite H"
    "\<And>b. b \<in> H \<Longrightarrow> b_data (buf s b) = view s (b_blockno (buf s b))"
proof -
  show c: "calm s (log_blocks (log s)) H" and "log_inv (log s)" using assms by (simp_all add: fs_ready_def)
  show "held s = {}" using calmD(2) [OF c] .
  show "finite H" using calmD(4) [OF c] finite_subset by blast
  show "\<And>b. b \<in> H \<Longrightarrow> b_data (buf s b) = view s (b_blockno (buf s b))" using calm_view [OF c] by simp
qed

lemma fs_ready_less: "fs_ready k s H \<Longrightarrow> j \<le> k \<Longrightarrow> fs_ready j s H"
  by (auto simp: fs_ready_def)

section \<open>Three steps\<close>

lemma log_add_lh: "log_add l bn = l\<lparr>log_lh := log_lh (log_add l bn)\<rparr>"
  by (simp add: log_add_def)

text \<open>Reading a block into a locked buffer.\<close>

lemma fs_bread:
  assumes r: "fs_ready k s H" and h: "\<And>c. c \<in> H \<Longrightarrow> b_blockno (buf s c) \<noteq> bn" and n: "card H \<le> 1"
  obtains b t where "bread ROOTDEV bn s = Ok b t" and "fs_ready k t (insert b H)" and "b \<notin> H"
    and "b_blockno (buf t b) = bn" and "b_data (buf t b) = view s bn" and "view t = view s" and "fs_frame s t"
    and "\<And>c. c \<in> H \<Longrightarrow> buf t c = buf s c"
proof -
  note d = fs_readyD [OF r]
  let ?P = "log_blocks (log s)"
  have P: "finite ?P" "card ?P \<le> nat (log_n (log s))"
    unfolding log_blocks_def using card_image_le [of "{..<nat (log_n (log s))}" "log_block (log s)"] by simp_all
  have "log_n (log s) + 4 \<le> int NBUF" "0 \<le> log_n (log s)" using r d(2) by (auto simp: fs_ready_def log_inv_def)
  then have "card ?P + card H < NBUF" using n P(2) by (simp add: params)
  then obtain b t where 1: "bread ROOTDEV bn s = Ok b t" "calm t ?P (insert b H)" "b \<notin> H" "b_blockno (buf t b) = bn"
    "b_data (buf t b) = view s bn" "view t = view s" "\<forall>c\<in>H. buf t c = buf s c" "bframe s t" "disk t = disk s" "dwrites t = dwrites s"
    using calm_bread [OF d(1), of bn] h P(1) by auto
  have l: "log t = log s" using bframe_log [OF 1(8)] .
  have fr: "fs_frame s t" using 1 l by (simp add: fs_frame_def bframe_lframe)
  have cl: "bn \<in> ?P \<or> view s bn = disk s bn"
    using calm_clean [OF d(1), of bn] h by blast
  have "fs_ready k t (insert b H)" unfolding fs_ready_def
    using r 1 l cl n d(4) by (auto simp: fs_ready_def)
  then show thesis using that [of b t] 1 fr by simp
qed

text \<open>Changing the contents of a locked buffer and logging it.\<close>

lemma fs_update:
  assumes r: "fs_ready (Suc k) s H" and b: "b \<in> H" and nin: "\<not> in_log (log s) (b_blockno (buf s b))"
  obtains s1 t where "set_data b f s = Ok () s1" and "log_write b s1 = Ok () t" and "fs_ready k t H"
    and "view t = (view s)(b_blockno (buf s b) := f (view s (b_blockno (buf s b))))" and "fs_frame s t"
    and "\<And>c. b_blockno (buf t c) = b_blockno (buf s c)" and "\<And>c. c \<noteq> b \<Longrightarrow> b_data (buf t c) = b_data (buf s c)"
proof -
  note d = fs_readyD [OF r]
  let ?bn = "b_blockno (buf s b)" and ?P = "log_blocks (log s)"
  define s1 where "s1 = upd_buf b (\<lambda>x. x\<lparr>b_data := f (b_data x)\<rparr>) s"
  have s1: "s1 = upd_buf b (\<lambda>x. x\<lparr>b_data := f (b_data (buf s b))\<rparr>) s" by (simp add: s1_def)
  note w = calm_write [OF d(1) b, of "f (b_data (buf s b))", folded s1]
  have l1: "log s1 = log s" "disk s1 = disk s" "dwrites s1 = dwrites s" "b_blockno (buf s1 c) = b_blockno (buf s c)" for c by (simp_all add: s1_def)
  have n: "log_n (log s1) < int LOGSIZE" "log_n (log s1) < log_size (log s1) - 1" "1 \<le> log_outstanding (log s1)"
    using r by (simp_all add: l1 fs_ready_def params)
  obtain t where t: "log_write b s1 = Ok () t" "log t = log_add (log s) ?bn" "calm t (insert ?bn ?P) H" "lframe s1 t"
    "view t = view s1" "disk t = disk s" "dwrites t = dwrites s"
    "\<forall>c. b_blockno (buf t c) = b_blockno (buf s1 c) \<and> b_data (buf t c) = b_data (buf s1 c)"
    using log_write_ok [of s1 H b] w(1) b d(2) n l1 by auto
  have pos: "0 \<le> log_n (log s)" using d(2) by (simp add: log_inv_def)
  have P: "log_blocks (log t) = insert ?bn ?P" using log_add_blocks [OF pos] t(2) by simp
  have "log_n (log s) < int (log_cap (log s))" using n by (simp add: l1 log_cap_def min_def)
  then have inv: "log_inv (log t)" unfolding t(2) using r by (intro log_add_inv [OF d(2) _ _ nin]) (simp_all add: fs_ready_def params)
  have "fs_ready k t H" unfolding fs_ready_def P
    using r t inv log_add_n(1) [of "log s" ?bn] by (auto simp: fs_ready_def l1 s1_def)
  moreover have "fs_frame s t"
    using lframe_trans [OF bframe_lframe [OF w(3)] t(4)] t log_add_lh [of "log s" ?bn] by (simp add: fs_frame_def)
  moreover have "view t = (view s)(?bn := f (view s ?bn))" using t(5) w(2) d(5) [OF b] by simp
  moreover have "set_data b f s = Ok () s1" by (simp add: set_data_def kern_simps s1_def)
  moreover have "b_blockno (buf t c) = b_blockno (buf s c)" for c using t(8) l1(4) by simp
  moreover have "c \<noteq> b \<Longrightarrow> b_data (buf t c) = b_data (buf s c)" for c using t(8) by (simp add: s1_def)
  ultimately show thesis using that [of s1 t] t(1) by blast
qed

text \<open>Releasing it.\<close>

lemma fs_brelse:
  assumes r: "fs_ready k s H" and b: "b \<in> H"
  obtains t where "brelse b s = Ok () t" and "fs_ready k t (H - {b})" and "view t = view s" and "fs_frame s t"
    and "\<And>c. b_blockno (buf t c) = b_blockno (buf s c)" and "\<And>c. b_data (buf t c) = b_data (buf s c)"
proof -
  note d = fs_readyD [OF r]
  have cl: "b_blockno (buf s b) \<in> log_blocks (log s) \<or> b_data (buf s b) = disk s (b_blockno (buf s b))"
    using r b unfolding fs_ready_def by blast
  obtain t where t: "brelse b s = Ok () t" "calm t (log_blocks (log s)) (H - {b})" "view t = view s" "bframe s t"
    "disk t = disk s" "dwrites t = dwrites s" "\<forall>c. b_blockno (buf t c) = b_blockno (buf s c) \<and> b_data (buf t c) = b_data (buf s c)"
    using calm_brelse [OF d(1) b cl] by auto
  have l: "log t = log s" using bframe_log [OF t(4)] .
  have "card (H - {b}) \<le> 2" using r card_Diff1_le [of H b] by (simp add: fs_ready_def)
  then have "fs_ready k t (H - {b})" using r t l by (auto simp: fs_ready_def)
  then show thesis using that [of t] t l by (simp add: fs_frame_def bframe_lframe)
qed

section \<open>The layout of the disk\<close>

text \<open>
  The layout \<^verbatim>\<open>mkfs\<close> makes: boot block, super block, log, inodes, bitmap, data.  \<open>meta_blocks\<close> is the number of the
  first data block; the bitmap says all the blocks before it are in use.
\<close>

definition meta_blocks :: "superblock \<Rightarrow> nat" where
  "meta_blocks S = unat (sb_bmapstart S) + unat (sb_size S) div BPB + 1"

definition fs_layout :: "superblock \<Rightarrow> log \<Rightarrow> bool" where
  "fs_layout S l \<longleftrightarrow> log_start l = int (unat (sb_logstart S)) \<and> log_size l = int (unat (sb_nlog S)) \<and>
     2 \<le> unat (sb_logstart S) \<and> 1 \<le> unat (sb_nlog S) \<and> unat (sb_logstart S) + unat (sb_nlog S) \<le> unat (sb_inodestart S) \<and>
     unat (sb_inodestart S) + unat (sb_ninodes S) div IPB + 1 \<le> unat (sb_bmapstart S) \<and> meta_blocks S \<le> unat (sb_size S)"

definition in_use :: "superblock \<Rightarrow> (uint \<Rightarrow> bytes) \<Rightarrow> nat \<Rightarrow> bool" where
  "in_use S V b \<longleftrightarrow> \<not> bit_clear (V (BBLOCK (of_nat b) S)) (b mod BPB)"

definition meta_used :: "superblock \<Rightarrow> (uint \<Rightarrow> bytes) \<Rightarrow> bool" where
  "meta_used S V \<longleftrightarrow> (\<forall>b<meta_blocks S. in_use S V b)"

lemma fs_layout_frame: "fs_frame s t \<Longrightarrow> fs_layout S (log t) = fs_layout S (log s)"
  by (simp add: fs_frame_log fs_layout_def)

lemma layout_not_in_log:
  assumes l: "fs_layout S l" and i: "log_layout l" and b: "unat (sb_inodestart S) \<le> unat bn"
  shows "\<not> in_log l bn"
proof (rule not_in_logI [OF i])
  have "log_cap l \<le> nat (log_size l - 1)" by (simp add: log_cap_def)
  then have "int (log_cap l) \<le> int (unat (sb_nlog S)) - 1" using l unfolding fs_layout_def by linarith
  moreover have "int (unat (sb_inodestart S)) \<le> uint bn" using b unfolding uint_nat by linarith
  ultimately show "uint bn < log_start l \<or> log_start l + int (log_cap l) < uint bn"
    using l unfolding fs_layout_def by linarith
qed

lemma unat_uint_lt: "unat (x :: uint) < 2 ^ 32"
  by (rule order_less_le_trans, rule unsigned_less) simp

lemma unat_block: "b < unat (sb_size S) \<Longrightarrow> unat (of_nat b :: uint) = b"
  using unat_uint_lt [of "sb_size S"] by (simp add: unat_of_nat)

lemma unat_BBLOCK:
  assumes l: "fs_layout S l" and b: "b < unat (sb_size S)"
  shows "unat (BBLOCK (of_nat b) S) = unat (sb_bmapstart S) + b div BPB"
proof -
  have w: "unat (of_nat b :: uint) = b" using unat_block [OF b] .
  have le: "b div BPB \<le> unat (sb_size S) div BPB" using b by (simp add: div_le_mono)
  then have "b div BPB + unat (sb_bmapstart S) < 2 ^ 32"
    using l unat_uint_lt [of "sb_size S"] by (simp add: fs_layout_def meta_blocks_def)
  then show ?thesis unfolding BBLOCK_def w by (simp add: unat_word_ariths unat_of_nat)
qed

lemma BBLOCK_chunk: "b < unat (sb_size S) \<Longrightarrow> c < unat (sb_size S) \<Longrightarrow> b div BPB = c div BPB \<Longrightarrow> BBLOCK (of_nat b) S = BBLOCK (of_nat c) S"
  by (simp add: BBLOCK_def unat_block)

lemma bit_clear_bit: "bit_clear d bi \<longleftrightarrow> \<not> bit (d (bi div 8)) (bi mod 8)"
  by (simp add: bit_clear_def bmask_def bit_iff_and_push_bit_not_eq_0)

lemma bit_clear_set: "bit_clear (d(bi div 8 := d (bi div 8) OR bmask bi)) bj \<longleftrightarrow> bit_clear d bj \<and> bj \<noteq> bi"
proof -
  have "bj = bi" if "bj div 8 = bi div 8" "bj mod 8 = bi mod 8" using that by (metis div_mult_mod_eq)
  then show ?thesis by (auto simp: bit_clear_bit bmask_def bit_simps)
qed

lemma bit_clear_unset: "bit_clear (d(bi div 8 := d (bi div 8) AND NOT (bmask bi))) bj \<longleftrightarrow> bit_clear d bj \<or> bj = bi"
proof -
  have "bj = bi" if "bj div 8 = bi div 8" "bj mod 8 = bi mod 8" using that by (metis div_mult_mod_eq)
  then show ?thesis by (auto simp: bit_clear_bit bmask_def bit_simps)
qed

text \<open>Marking block \<open>b\<close> in the bitmap, and clearing its mark.\<close>

definition mark :: "nat \<Rightarrow> bytes \<Rightarrow> bytes" where
  "mark b d = (let bi = b mod BPB in d(bi div 8 := d (bi div 8) OR bmask bi))"

definition unmark :: "nat \<Rightarrow> bytes \<Rightarrow> bytes" where
  "unmark b d = (let bi = b mod BPB in d(bi div 8 := d (bi div 8) AND NOT (bmask bi)))"

lemma in_use_mark:
  assumes l: "fs_layout S l" and b: "b < unat (sb_size S)" and c: "c < unat (sb_size S)"
  shows "in_use S (V(BBLOCK (of_nat b) S := mark b (V (BBLOCK (of_nat b) S)))) c \<longleftrightarrow> in_use S V c \<or> c = b"
    and "in_use S (V(BBLOCK (of_nat b) S := unmark b (V (BBLOCK (of_nat b) S)))) c \<longleftrightarrow> in_use S V c \<and> c \<noteq> b"
proof -
  have e: "BBLOCK (of_nat c) S = BBLOCK (of_nat b) S \<longleftrightarrow> c div BPB = b div BPB"
    using BBLOCK_chunk [OF c b] unat_BBLOCK [OF l b] unat_BBLOCK [OF l c] by (metis add_left_cancel)
  have m: "c mod BPB = b mod BPB \<Longrightarrow> c div BPB = b div BPB \<Longrightarrow> c = b" by (metis div_mult_mod_eq)
  show "in_use S (V(BBLOCK (of_nat b) S := mark b (V (BBLOCK (of_nat b) S)))) c \<longleftrightarrow> in_use S V c \<or> c = b"
    using e m by (cases "c div BPB = b div BPB") (auto simp: in_use_def mark_def Let_def bit_clear_set)
  show "in_use S (V(BBLOCK (of_nat b) S := unmark b (V (BBLOCK (of_nat b) S)))) c \<longleftrightarrow> in_use S V c \<and> c \<noteq> b"
    using e m by (cases "c div BPB = b div BPB") (auto simp: in_use_def unmark_def Let_def bit_clear_unset)
qed

section \<open>Allocating and freeing blocks\<close>

text \<open>The blocks of the buffers the thread holds: reading one of them again would block for ever.\<close>

definition held_blocks :: "'a log_st_scheme \<Rightarrow> nat set \<Rightarrow> uint set" where
  "held_blocks s H = (\<lambda>b. b_blockno (buf s b)) ` H"

lemma held_blocksD: "bn \<notin> held_blocks s H \<Longrightarrow> c \<in> H \<Longrightarrow> b_blockno (buf s c) \<noteq> bn"
  by (auto simp: held_blocks_def)

text \<open>
  What an operation leaves behind that reads, changes and releases blocks with the buffers \<open>H\<close> held all the time:
  the blocks are now \<open>V\<close>, there is room for \<open>k\<close> more, and nothing but the file system's blocks changed.
\<close>

definition fs_step :: "nat \<Rightarrow> (uint \<Rightarrow> bytes) \<Rightarrow> nat set \<Rightarrow> 'a log_st_scheme \<Rightarrow> 'a log_st_scheme \<Rightarrow> bool" where
  "fs_step k V H s t \<longleftrightarrow> fs_ready k t H \<and> view t = V \<and> fs_frame s t \<and>
     (\<forall>c\<in>H. b_blockno (buf t c) = b_blockno (buf s c) \<and> b_data (buf t c) = b_data (buf s c))"

lemma fs_stepD:
  assumes "fs_step k V H s t"
  shows "fs_ready k t H" "view t = V" "fs_frame s t" "held_blocks t H = held_blocks s H"
    "\<And>c. c \<in> H \<Longrightarrow> b_data (buf t c) = b_data (buf s c)" "in_log (log t) = in_log (log s)"
    "fs_layout S (log t) = fs_layout S (log s)"
proof -
  show f: "fs_ready k t H" "view t = V" "fs_frame s t" "\<And>c. c \<in> H \<Longrightarrow> b_data (buf t c) = b_data (buf s c)"
    using assms by (simp_all add: fs_step_def)
  show "held_blocks t H = held_blocks s H"
    using assms unfolding fs_step_def held_blocks_def by (intro image_cong) auto
  show "in_log (log t) = in_log (log s)" "fs_layout S (log t) = fs_layout S (log s)"
    using fs_frame_in_log [OF f(3)] fs_layout_frame [OF f(3)] by simp_all
qed

lemma fs_step_trans: "fs_step k V H s t \<Longrightarrow> fs_step j W H t u \<Longrightarrow> fs_step j W H s u"
  using fs_frame_trans unfolding fs_step_def by fastforce

lemma fs_step_refl: "fs_ready k s H \<Longrightarrow> fs_step k (view s) H s s"
  by (simp add: fs_step_def)

lemma fs_step_less: "fs_step k V H s t \<Longrightarrow> j \<le> k \<Longrightarrow> fs_step j V H s t"
  using fs_ready_less unfolding fs_step_def by blast

text \<open>Reading a block and releasing it.\<close>

lemma fs_peek:
  assumes r: "fs_ready k s H" and h: "bn \<notin> held_blocks s H" and n: "card H \<le> 1"
  obtains b s1 t where "bread ROOTDEV bn s = Ok b s1" and "b_data (buf s1 b) = view s bn" and "fs_frame s s1"
    and "brelse b s1 = Ok () t" and "fs_step k (view s) H s t"
proof -
  obtain b s1 where 1: "bread ROOTDEV bn s = Ok b s1" "fs_ready k s1 (insert b H)" "b \<notin> H"
    "b_data (buf s1 b) = view s bn" "view s1 = view s" "fs_frame s s1" "\<And>c. c \<in> H \<Longrightarrow> buf s1 c = buf s c"
    using fs_bread [OF r held_blocksD [OF h] n] by blast
  obtain t where 2: "brelse b s1 = Ok () t" "fs_ready k t (insert b H - {b})" "view t = view s1" "fs_frame s1 t"
    "\<And>c. b_blockno (buf t c) = b_blockno (buf s1 c)" "\<And>c. b_data (buf t c) = b_data (buf s1 c)"
    using fs_brelse [OF 1(2), of b] by blast
  have "insert b H - {b} = H" using 1(3) by blast
  then have "fs_step k (view s) H s t" using 1 2 fs_frame_trans [OF 1(6) 2(4)] by (simp add: fs_step_def)
  then show thesis using that [OF 1(1,4,6) 2(1)] by blast
qed

text \<open>One read-modify-log-release of a block, the shape of most of the operations below.\<close>

lemma fs_rmw:
  assumes r: "fs_ready (Suc k) s H" and h: "bn \<notin> held_blocks s H" and n: "card H \<le> 1" and nin: "\<not> in_log (log s) bn"
  obtains b s1 s2 s3 t where "bread ROOTDEV bn s = Ok b s1" and "b_data (buf s1 b) = view s bn" and "fs_frame s s1"
    and "set_data b f s1 = Ok () s2" and "log_write b s2 = Ok () s3" and "brelse b s3 = Ok () t"
    and "fs_step k ((view s)(bn := f (view s bn))) H s t"
proof -
  obtain b s1 where 1: "bread ROOTDEV bn s = Ok b s1" "fs_ready (Suc k) s1 (insert b H)" "b \<notin> H" "b_blockno (buf s1 b) = bn"
    "b_data (buf s1 b) = view s bn" "view s1 = view s" "fs_frame s s1" "\<And>c. c \<in> H \<Longrightarrow> buf s1 c = buf s c"
    using fs_bread [OF r held_blocksD [OF h] n] by blast
  have "\<not> in_log (log s1) (b_blockno (buf s1 b))" using nin 1(4,7) by (simp add: fs_frame_in_log)
  then obtain s2 s3 where 2: "set_data b f s1 = Ok () s2" "log_write b s2 = Ok () s3" "fs_ready k s3 (insert b H)"
    "view s3 = (view s1)(bn := f (view s1 bn))" "fs_frame s1 s3" "\<And>c. b_blockno (buf s3 c) = b_blockno (buf s1 c)"
    "\<And>c. c \<noteq> b \<Longrightarrow> b_data (buf s3 c) = b_data (buf s1 c)"
    using fs_update [OF 1(2), of b f] 1(4) by (metis insertI1)
  obtain t where 3: "brelse b s3 = Ok () t" "fs_ready k t (insert b H - {b})" "view t = view s3" "fs_frame s3 t"
    "\<And>c. b_blockno (buf t c) = b_blockno (buf s3 c)" "\<And>c. b_data (buf t c) = b_data (buf s3 c)"
    using fs_brelse [OF 2(3), of b] by blast
  have "insert b H - {b} = H" using 1(3) by blast
  then have "fs_ready k t H" using 3(2) by simp
  moreover have "view t = (view s)(bn := f (view s bn))" using 3(3) 2(4) 1(6) by simp
  moreover have "fs_frame s t" using 1(7) 2(5) 3(4) fs_frame_trans by blast
  moreover have "b_blockno (buf t c) = b_blockno (buf s c) \<and> b_data (buf t c) = b_data (buf s c)" if "c \<in> H" for c
    using 3(5,6) 2(6) 2(7) [of c] 1(3,8) that by auto
  ultimately have "fs_step k ((view s)(bn := f (view s bn))) H s t" unfolding fs_step_def by blast
  then show thesis using that [OF 1(1) 1(5) 1(7) 2(1,2) 3(1)] by blast
qed

lemma bzero_ok:
  assumes r: "fs_ready (Suc k) s H" and h: "bn \<notin> held_blocks s H" and n: "card H \<le> 1" and nin: "\<not> in_log (log s) bn"
  shows "\<exists>t. bzero ROOTDEV bn s = Ok () t \<and> fs_step k ((view s)(bn := memset (view s bn) 0 0 BSIZE)) H s t"
  by (rule fs_rmw [OF r h n nin, of "\<lambda>d. memset d 0 0 BSIZE"]) (auto simp: bzero_def kdo_def)

text \<open>
  The first block that is not in use, and what allocating it makes of the blocks: its bit is set and its
  contents are zero.
\<close>

definition first_free :: "superblock \<Rightarrow> (uint \<Rightarrow> bytes) \<Rightarrow> nat \<Rightarrow> nat option" where
  "first_free S V b = find (\<lambda>b. \<not> in_use S V b) [b..<unat (sb_size S)]"

definition allocated :: "superblock \<Rightarrow> (uint \<Rightarrow> bytes) \<Rightarrow> nat \<Rightarrow> uint \<Rightarrow> bytes" where
  "allocated S V b = V(BBLOCK (of_nat b) S := mark b (V (BBLOCK (of_nat b) S)), of_nat b := memset (V (of_nat b)) 0 0 BSIZE)"

text \<open>The file system as \<^verbatim>\<open>balloc\<close> and \<^verbatim>\<open>bfree\<close> find it, with buffers of blocks in use held.\<close>

definition bitmap_ok :: "'a fs_st_scheme \<Rightarrow> nat set \<Rightarrow> bool" where
  "bitmap_ok s H \<longleftrightarrow> fs_layout (sb s) (log s) \<and> meta_used (sb s) (view s) \<and> card H \<le> 1 \<and>
     (\<forall>bn\<in>held_blocks s H. meta_blocks (sb s) \<le> unat bn \<and> unat bn < unat (sb_size (sb s)) \<and> in_use (sb s) (view s) (unat bn))"

lemma bitmap_okD:
  assumes r: "fs_ready k s H" and o: "bitmap_ok s H" and c: "c < unat (sb_size (sb s))"
  shows "fs_layout (sb s) (log s)" "card H \<le> 1" "BBLOCK (of_nat c) (sb s) \<notin> held_blocks s H" "\<not> in_log (log s) (BBLOCK (of_nat c) (sb s))"
    "\<not> in_use (sb s) (view s) c \<Longrightarrow> meta_blocks (sb s) \<le> c \<and> of_nat c \<notin> held_blocks s H \<and> \<not> in_log (log s) (of_nat c) \<and>
       BBLOCK (of_nat c) (sb s) \<noteq> of_nat c"
proof -
  let ?S = "sb s" and ?B = "BBLOCK (of_nat c) (sb s)"
  show l: "fs_layout ?S (log s)" and "card H \<le> 1" using o by (simp_all add: bitmap_ok_def)
  have ll: "log_layout (log s)" using fs_readyD(2) [OF r] log_invD(1) by blast
  have "c div BPB \<le> unat (sb_size ?S) div BPB" using c by (simp add: div_le_mono)
  then have B: "unat ?B < meta_blocks ?S" using unat_BBLOCK [OF l c] by (simp add: meta_blocks_def)
  then show "?B \<notin> held_blocks s H" using o by (auto simp: bitmap_ok_def)
  have st: "unat (sb_inodestart ?S) \<le> unat (sb_bmapstart ?S)" using l by (simp add: fs_layout_def)
  then show "\<not> in_log (log s) ?B" using unat_BBLOCK [OF l c] by (intro layout_not_in_log [OF l ll]) simp
  assume n: "\<not> in_use ?S (view s) c"
  then have m: "meta_blocks ?S \<le> c" using o by (auto simp: bitmap_ok_def meta_used_def not_less [symmetric])
  then have "\<not> in_log (log s) (of_nat c)" using st by (intro layout_not_in_log [OF l ll]) (simp add: unat_block [OF c] meta_blocks_def)
  moreover have "of_nat c \<notin> held_blocks s H" using o n unat_block [OF c] by (auto simp: bitmap_ok_def)
  moreover have "?B \<noteq> of_nat c" using B m unat_block [OF c] by (metis not_less)
  ultimately show "meta_blocks ?S \<le> c \<and> of_nat c \<notin> held_blocks s H \<and> \<not> in_log (log s) (of_nat c) \<and> ?B \<noteq> of_nat c" using m by blast
qed

lemma find_map_upt: "find P [b..<b + m] = map_option ((+) b) (find (\<lambda>i. P (b + i)) [0..<m])"
proof (induction m)
  case (Suc m)
  have f: "find Q (xs @ [x]) = (case find Q xs of None \<Rightarrow> if Q x then Some x else None | Some y \<Rightarrow> Some y)" for Q and xs :: "nat list" and x
    by (induction xs) auto
  show ?case using Suc by (simp add: f split: option.splits)
qed simp

lemma find_append: "find P (xs @ ys) = (case find P xs of None \<Rightarrow> find P ys | Some x \<Rightarrow> Some x)"
  by (induction xs) auto

lemma balloc_in_ok:
  assumes r: "fs_ready (k + 2) s H" and o: "bitmap_ok s H" and b: "b < unat (sb_size (sb s))" "b mod BPB = 0"
  defines "S \<equiv> sb s"
  shows "\<exists>t. case find (\<lambda>b. \<not> in_use S (view s) b) [b..<min (b + BPB) (unat (sb_size S))] of
      Some c \<Rightarrow> balloc_in ROOTDEV b s = Ok (Some (of_nat c)) t \<and> fs_step k (allocated S (view s) c) H s t
    | None \<Rightarrow> balloc_in ROOTDEV b s = Ok None t \<and> fs_step (k + 2) (view s) H s t"
proof -
  note o0 = bitmap_okD [OF r o, folded S_def] and bS = b(1) [folded S_def]
  let ?B = "BBLOCK (of_nat b) S" and ?m = "min BPB (unat (sb_size S) - b)"
  have B: "BBLOCK (of_nat (b + i)) S = ?B" "(b + i) mod BPB = i" "b + i < unat (sb_size S)" if "i < ?m" for i
  proof -
    show lt: "b + i < unat (sb_size S)" using that b(1) unfolding S_def min_less_iff_conj by linarith
    obtain q where q: "b = BPB * q" using b(2) by (auto simp: mod_eq_0_iff_dvd)
    show m: "(b + i) mod BPB = i" using that by (simp add: q)
    have "(b + i) div BPB = b div BPB" using that by (simp add: q)
    then show "BBLOCK (of_nat (b + i)) S = ?B" using BBLOCK_chunk lt b(1) by (simp add: S_def)
  qed
  have e: "min (b + BPB) (unat (sb_size S)) = b + ?m" using b(1) by (simp add: S_def)
  have f: "find (\<lambda>b. \<not> in_use S (view s) b) [b..<b + ?m] = map_option ((+) b) (find (bit_clear (view s ?B)) [0..<?m])"
    unfolding find_map_upt by (intro arg_cong2 [where f = map_option] find_cong refl) (simp_all add: in_use_def B del: of_nat_add)
  show ?thesis
  proof (cases "find (bit_clear (view s ?B)) [0..<?m]")
    case None
    obtain bp s1 t where 1: "bread ROOTDEV ?B s = Ok bp s1" "b_data (buf s1 bp) = view s ?B" "brelse bp s1 = Ok () t" "fs_step (k + 2) (view s) H s t"
      using fs_peek [OF r o0(3) [OF bS] o0(2) [OF bS]] by metis
    have "balloc_in ROOTDEV b s = Ok None t"
      using None by (simp add: balloc_in_def kern_simps S_def [symmetric] kdo_Ok [where m = "bread _ _", OF 1(1)] 1(2) kdo_Ok [where m = "brelse _", OF 1(3)])
    then show ?thesis using 1(4) None by (intro exI [of _ t]) (simp add: e f)
  next
    case (Some i)
    then have i: "i < ?m" "bit_clear (view s ?B) i" by (auto simp: find_Some_iff)
    let ?c = "b + i"
    have free: "\<not> in_use S (view s) ?c" using i by (simp add: in_use_def B del: of_nat_add)
    note c = B(3) [OF i(1)]
    have r2: "fs_ready (Suc (Suc k)) s H" using r by simp
    obtain bp s1 s2 s3 t1 where 1: "bread ROOTDEV ?B s = Ok bp s1" "b_data (buf s1 bp) = view s ?B" "set_data bp (mark ?c) s1 = Ok () s2"
      "log_write bp s2 = Ok () s3" "brelse bp s3 = Ok () t1" "fs_step (Suc k) ((view s)(?B := mark ?c (view s ?B))) H s t1"
      using fs_rmw [OF r2 o0(3) [OF bS] o0(2) [OF bS] o0(4) [OF bS], of "mark ?c"] by metis
    note d = fs_stepD [OF 1(6)] and c5 = o0(5) [OF c free]
    obtain t where t: "bzero ROOTDEV (of_nat ?c) t1 = Ok () t" "fs_step k ((view t1)(of_nat ?c := memset (view t1 (of_nat ?c)) 0 0 BSIZE)) H t1 t"
      using bzero_ok [OF d(1), of "of_nat ?c"] c5 o0(2) [OF c] by (auto simp: d(4,6))
    have mk: "mark ?c = (\<lambda>d. d(i div 8 := d (i div 8) OR bmask i))" by (simp add: mark_def B(2) [OF i(1)] fun_eq_iff)
    have "balloc_in ROOTDEV b s = Ok (Some (of_nat ?c)) t"
      using Some by (simp add: balloc_in_def kern_simps S_def [symmetric] kdo_Ok [where m = "bread _ _", OF 1(1)] 1(2)
          kdo_Ok [where m = "set_data _ _", OF 1(3) [unfolded mk]] kdo_Ok [where m = "log_write _", OF 1(4)]
          kdo_Ok [where m = "brelse _", OF 1(5)] kdo_Ok [where m = "bzero _ _", OF t(1)] del: of_nat_add)
    moreover have "of_nat ?c \<noteq> ?B" using c5 by (auto simp: B(1) [OF i(1)] simp del: of_nat_add)
    then have "fs_step k (allocated S (view s) ?c) H s t"
      using fs_step_trans [OF 1(6) t(2)] by (simp add: d(2) allocated_def B(1) [OF i(1)] del: of_nat_add)
    ultimately show ?thesis using Some by (intro exI [of _ t]) (simp add: e f)
  qed
qed

text \<open>\<^verbatim>\<open>balloc\<close> goes through the bitmap from one of its blocks on.\<close>

lemma bitmap_ok_step:
  assumes "fs_step k (view s) H s t" "bitmap_ok s H"
  shows "bitmap_ok t H" "sb t = sb s"
proof -
  show "sb t = sb s" using fs_frame_fields(1) [OF fs_stepD(3) [OF assms(1)]] .
  then show "bitmap_ok t H" using assms(2) fs_stepD [OF assms(1)] by (simp add: bitmap_ok_def)
qed

lemma balloc_scan:
  assumes "fs_ready (k + 2) s H" and "bitmap_ok s H" and "n = (unat (sb_size (sb s)) + BPB - 1) div BPB" and "j \<le> n"
  shows "\<exists>t. case first_free (sb s) (view s) (j * BPB) of
      Some c \<Rightarrow> scan (map (\<lambda>k. k * BPB) [j..<n]) (balloc_in ROOTDEV) s = Ok (Some (of_nat c)) t \<and>
        fs_step k (allocated (sb s) (view s) c) H s t
    | None \<Rightarrow> scan (map (\<lambda>k. k * BPB) [j..<n]) (balloc_in ROOTDEV) s = Ok None t \<and> fs_step (k + 2) (view s) H s t"
  using assms
proof (induction "n - j" arbitrary: j s)
  case 0
  have "unat (sb_size (sb s)) \<le> n * BPB" using 0(4) by (simp add: params)
  then have "first_free (sb s) (view s) (j * BPB) = None" using 0 by (simp add: first_free_def)
  then show ?case using 0 fs_step_refl [OF 0(2)] by (intro exI [of _ s]) (simp add: kern_simps)
next
  case (Suc d)
  let ?S = "sb s" and ?b = "j * BPB" and ?free = "\<lambda>b. \<not> in_use (sb s) (view s) b"
  have jn: "j < n" using Suc.hyps(2) by simp
  then have b: "?b < unat (sb_size ?S)" using Suc.prems(3) by (simp add: params)
  have sp: "[?b..<unat (sb_size ?S)] = [?b..<min (?b + BPB) (unat (sb_size ?S))] @ [Suc j * BPB..<unat (sb_size ?S)]"
  proof (cases "?b + BPB \<le> unat (sb_size ?S)")
    case True
    then show ?thesis using upt_add_eq_append [of ?b "?b + BPB" "unat (sb_size ?S) - (?b + BPB)"] by (simp add: add.commute)
  next
    case False
    then show ?thesis by (simp add: add.commute)
  qed
  have ff: "first_free ?S (view s) ?b =
      (case find ?free [?b..<min (?b + BPB) (unat (sb_size ?S))] of Some c \<Rightarrow> Some c | None \<Rightarrow> first_free ?S (view s) (Suc j * BPB))"
    unfolding first_free_def sp find_append by (simp split: option.splits)
  have up: "[j..<n] = j # [Suc j..<n]" using jn by (simp add: upt_conv_Cons)
  note c = balloc_in_ok [OF Suc.prems(1,2) b]
  show ?case
  proof (cases "find ?free [?b..<min (?b + BPB) (unat (sb_size ?S))]")
    case (Some c)
    with c obtain t where t: "balloc_in ROOTDEV ?b s = Ok (Some (of_nat c)) t" "fs_step k (allocated ?S (view s) c) H s t" by auto
    then show ?thesis unfolding ff up by (intro exI [of _ t]) (simp add: Some kdo_Ok kern_simps)
  next
    case None
    with c obtain t where t: "balloc_in ROOTDEV ?b s = Ok None t" "fs_step (k + 2) (view s) H s t" by auto
    note d = fs_stepD [OF t(2)] and bo = bitmap_ok_step [OF t(2) Suc.prems(2)]
    have "\<exists>u. case first_free (sb t) (view t) (Suc j * BPB) of
        Some c \<Rightarrow> scan (map (\<lambda>k. k * BPB) [Suc j..<n]) (balloc_in ROOTDEV) t = Ok (Some (of_nat c)) u \<and>
          fs_step k (allocated (sb t) (view t) c) H t u
      | None \<Rightarrow> scan (map (\<lambda>k. k * BPB) [Suc j..<n]) (balloc_in ROOTDEV) t = Ok None u \<and> fs_step (k + 2) (view t) H t u"
      by (rule Suc.hyps(1)) (use Suc.hyps(2) Suc.prems d(1) bo jn in auto)
    then obtain u where "case first_free ?S (view s) (Suc j * BPB) of
        Some c \<Rightarrow> scan (map (\<lambda>k. k * BPB) [Suc j..<n]) (balloc_in ROOTDEV) t = Ok (Some (of_nat c)) u \<and>
          fs_step k (allocated ?S (view s) c) H t u
      | None \<Rightarrow> scan (map (\<lambda>k. k * BPB) [Suc j..<n]) (balloc_in ROOTDEV) t = Ok None u \<and> fs_step (k + 2) (view s) H t u"
      unfolding bo(2) d(2) by blast
    then show ?thesis unfolding ff up using fs_step_trans [OF t(2)]
      by (intro exI [of _ u]) (auto simp: None kdo_Ok [where m = "balloc_in _ _", OF t(1)] split: option.splits)
  qed
qed

lemma bfree_ok:
  assumes r: "fs_ready (Suc k) s H" and o: "bitmap_ok s H" and b: "b < unat (sb_size (sb s))"
  shows "if in_use (sb s) (view s) b
    then \<exists>t. bfree ROOTDEV (of_nat b) s = Ok () t \<and>
      fs_step k ((view s)(BBLOCK (of_nat b) (sb s) := unmark b (view s (BBLOCK (of_nat b) (sb s))))) H s t
    else bfree ROOTDEV (of_nat b) s = Panic ''freeing free block''"
proof -
  note o0 = bitmap_okD [OF r o b]
  let ?B = "BBLOCK (of_nat b) (sb s)"
  obtain bp s1 s2 s3 t where 1: "bread ROOTDEV ?B s = Ok bp s1" "b_data (buf s1 bp) = view s ?B" "set_data bp (unmark b) s1 = Ok () s2"
    "log_write bp s2 = Ok () s3" "brelse bp s3 = Ok () t" "fs_step k ((view s)(?B := unmark b (view s ?B))) H s t"
    using fs_rmw [OF r o0(3,2,4), of "unmark b"] by metis
  have u: "unmark b = (\<lambda>d. d((b mod BPB) div 8 := d ((b mod BPB) div 8) AND NOT (bmask (b mod BPB))))" by (simp add: unmark_def Let_def fun_eq_iff)
  show ?thesis using 1(6)
    by (simp add: bfree_def kern_simps kdo_Ok [where m = "bread _ _", OF 1(1)] 1(2) in_use_def Let_def unat_block [OF b]
        kdo_Ok [where m = "set_data _ _", OF 1(3) [unfolded u]] kdo_Ok [where m = "log_write _", OF 1(4)] 1(5))
qed

lemma unmark_mark: "bit_clear d (b mod BPB) \<Longrightarrow> unmark b (mark b d) = d"
proof
  fix i assume c: "bit_clear d (b mod BPB)"
  have "(d ((b mod BPB) div 8) OR bmask (b mod BPB)) AND NOT (bmask (b mod BPB)) = d ((b mod BPB) div 8)"
    using c by (intro bit_word_eqI) (auto simp: bit_clear_bit bmask_def bit_simps)
  then show "unmark b (mark b d) i = d i" by (simp add: unmark_def mark_def Let_def)
qed

text \<open>The bitmap after an allocation.\<close>

lemma allocated_in_use:
  assumes l: "fs_layout S l" and c: "c < unat (sb_size S)" "meta_blocks S \<le> c" and b: "b < unat (sb_size S)"
  shows "in_use S (allocated S V c) b \<longleftrightarrow> in_use S V b \<or> b = c" and "BBLOCK (of_nat b) S \<noteq> of_nat c"
proof -
  have "b div BPB \<le> unat (sb_size S) div BPB" using b by (simp add: div_le_mono)
  then have "unat (BBLOCK (of_nat b) S) < meta_blocks S" using unat_BBLOCK [OF l b] by (simp add: meta_blocks_def)
  then show n: "BBLOCK (of_nat b) S \<noteq> of_nat c" using c(2) unat_block [OF c(1)] by (metis not_less)
  then show "in_use S (allocated S V c) b \<longleftrightarrow> in_use S V b \<or> b = c"
    using in_use_mark(1) [OF l c(1) b, of V] by (simp add: allocated_def in_use_def)
qed

lemma bitmap_ok_allocated:
  assumes r: "fs_ready j s H" and o: "bitmap_ok s H" and c: "c < unat (sb_size (sb s))" "\<not> in_use (sb s) (view s) c"
    and t: "fs_step k (allocated (sb s) (view s) c) H s t"
  shows "bitmap_ok t H" "sb t = sb s"
proof -
  note d = fs_stepD [OF t] and m = bitmap_okD(5) [OF r o c]
  have l: "fs_layout (sb s) (log s)" using o by (simp add: bitmap_ok_def)
  show S: "sb t = sb s" using fs_frame_fields(1) [OF d(3)] .
  have u: "in_use (sb s) (view t) b" if "in_use (sb s) (view s) b" "b < unat (sb_size (sb s))" for b
    using allocated_in_use(1) [OF l c(1) _ that(2)] m that(1) by (simp add: d(2))
  have le: "meta_blocks (sb s) \<le> unat (sb_size (sb s))" using l by (simp add: fs_layout_def)
  show "bitmap_ok t H" using o u le d(4,7) unfolding bitmap_ok_def S meta_used_def by auto
qed

lemma balloc_ok:
  assumes "fs_ready (k + 2) s H" and "bitmap_ok s H" and "con_ok s"
  shows "case first_free (sb s) (view s) 0 of
      Some c \<Rightarrow> (\<exists>t. balloc ROOTDEV s = Ok (of_nat c) t \<and> fs_step k (allocated (sb s) (view s) c) H s t)
    | None \<Rightarrow> \<exists>t. balloc ROOTDEV s = Ok 0 (emits (map of_char ''balloc: out of blocks\<newline>'') t) \<and> fs_step (k + 2) (view s) H s t"
proof -
  let ?S = "sb s" and ?n = "(unat (sb_size (sb s)) + BPB - 1) div BPB"
  obtain t where t: "case first_free ?S (view s) 0 of
      Some c \<Rightarrow> scan (map (\<lambda>k. k * BPB) [0..<?n]) (balloc_in ROOTDEV) s = Ok (Some (of_nat c)) t \<and>
        fs_step k (allocated ?S (view s) c) H s t
    | None \<Rightarrow> scan (map (\<lambda>k. k * BPB) [0..<?n]) (balloc_in ROOTDEV) s = Ok None t \<and> fs_step (k + 2) (view s) H s t"
    using balloc_scan [OF assms(1,2) refl, of 0] by auto
  show ?thesis
  proof (cases "first_free ?S (view s) 0")
    case None
    with t have s: "scan (map (\<lambda>k. k * BPB) [0..<?n]) (balloc_in ROOTDEV) s = Ok None t" and st: "fs_step (k + 2) (view s) H s t" by simp_all
    have "con_ok t" "held t = {}" using fs_frame_fields(5) [OF fs_stepD(3) [OF st]] assms(3) fs_readyD(3) [OF fs_stepD(1) [OF st]] by simp_all
    then have "balloc ROOTDEV s = Ok 0 (emits (map of_char (format ''balloc: out of blocks\<newline>'' [])) t)"
      by (simp add: balloc_def kern_simps kdo_Ok [where m = "scan _ _", OF s] del: format.simps emits_simps One_nat_def)
    moreover have "format ''balloc: out of blocks\<newline>'' [] = ''balloc: out of blocks\<newline>''" by simp
    ultimately show ?thesis using None st by auto
  next
    case (Some c)
    with t have s: "scan (map (\<lambda>k. k * BPB) [0..<?n]) (balloc_in ROOTDEV) s = Ok (Some (of_nat c)) t"
      and st: "fs_step k (allocated ?S (view s) c) H s t" by simp_all
    have "balloc ROOTDEV s = Ok (of_nat c) t" by (simp add: balloc_def kern_simps kdo_Ok [where m = "scan _ _", OF s] del: One_nat_def)
    then show ?thesis using Some st by auto
  qed
qed

section \<open>A concrete transaction\<close>

text \<open>The layout of the file system that \<^verbatim>\<open>mkfs\<close> makes, with blocks 0 to 47 in use, after boot and \<^verbatim>\<open>begin_op\<close>.\<close>

definition ex_blocks :: "uint \<Rightarrow> bytes" where
  "ex_blocks = (\<lambda>_ _. 0)(45 := (\<lambda>i. if i < 6 then 255 else 0), 47 := (\<lambda>i. of_nat i))"

definition ex_fsd :: fs_st where
  "ex_fsd = ex_fs\<lparr>disk := ex_blocks\<rparr>"

lemma ex_in_use: "b < 2000 \<Longrightarrow> in_use ex_sb ex_blocks b \<longleftrightarrow> b < 48"
proof -
  assume b: "b < 2000"
  have w: "unat (of_nat b :: uint) = b" using unat_block [of b ex_sb] b by (simp add: ex_sb_def)
  have B: "BBLOCK (of_nat b) ex_sb = 45" unfolding BBLOCK_def w using b by (simp add: ex_sb_def params)
  have ff: "(255 :: uchar) = - 1" by simp
  have "b mod BPB = b" "b div 8 < 6 \<longleftrightarrow> b < 48" using b by (auto simp: params)
  then show ?thesis unfolding in_use_def B bit_clear_bit by (auto simp: ex_blocks_def ff simp del: word_neg_numeral_alt)
qed

lemma ex_first_free: "first_free ex_sb ex_blocks 0 = Some 48"
  unfolding first_free_def find_Some_iff by (intro exI [of _ 48]) (simp add: ex_in_use ex_sb_def [THEN arg_cong, of sb_size])

lemma fs_begin:
  assumes "log_idle s"
  obtains t where "begin_op s = Ok () t" and "fs_ready 10 t {}" and "view t = view s" and "lframe s t" and "disk t = disk s"
    and "dwrites t = dwrites s" and "log_start (log t) = log_start (log s)" and "log_size (log t) = log_size (log s)"
    and "log_outstanding (log t) = 1" and "\<not> log_committing (log t)"
proof -
  obtain t where t: "begin_op s = Ok () t" "in_txn (log s) s [] t" using begin_op_ok [OF assms] by blast
  then have "fs_ready 10 t {}" using assms unfolding fs_ready_def in_txn_def log_idle_def by (auto simp: params)
  then show thesis using that [of t] t by (simp add: in_txn_def)
qed

lemma ex_idle:
  obtains s where "binit ex_fsd = Ok () s" and "log_idle s" and "log s = log ex_log" and "view s = ex_blocks" and "con_ok s" and "cpu_proc s = Some 0"
    and "sb s = ex_sb" and "itable s = (\<lambda>_. zero_inode)"
proof -
  have e: "buf ex_fsd = (\<lambda>_. fresh_buf)" "log ex_fsd = log ex_log" "disk ex_fsd = ex_blocks" "con_ok ex_fsd" "held ex_fsd = {}" "cpu_proc ex_fsd = Some 0"
    "sb ex_fsd = ex_sb" "itable ex_fsd = (\<lambda>_. zero_inode)"
    by (simp_all add: ex_fsd_def ex_fs_def con_st.defs ex_con_def log_st.defs con_ok_def LCR_BAUD_LATCH_def)
  obtain s where s: "binit ex_fsd = Ok () s" "s = ex_fsd\<lparr>buf := buf s, slock := slock s\<rparr>"
    using binit_ok [of ex_fsd] by (metis e(1))
  have f: "log s = log ex_log" "disk s = ex_blocks" "con_ok s" "cpu_proc s = Some 0" "sb s = ex_sb" "itable s = (\<lambda>_. zero_inode)"
    using arg_cong [OF s(2), of con_ok] arg_cong [OF s(2), of log] arg_cong [OF s(2), of disk] arg_cong [OF s(2), of sb]
      arg_cong [OF s(2), of itable] arg_cong [OF s(2), of cpu_proc] e by (simp_all add: con_ok_def)
  have b: "booted s" unfolding booted_def using s(1) e by (intro exI [of _ ex_fsd]) simp
  have idle: "log_idle s" using booted_calm [OF b]
    by (simp add: log_idle_def f log_layout_def log_hd_def params hdr_n_def ex_blocks_def)
  have v: "view s = ex_blocks" using calm_clean [OF booted_calm [OF b]] f(2) by (auto simp: fun_eq_iff)
  show thesis using that [OF s(1) idle] f v by simp
qed

lemma ex_txn:
  obtains s t where "binit ex_fsd = Ok () s" and "log_idle s" and "begin_op s = Ok () t" and "fs_ready 10 t {}" and "bitmap_ok t {}" and "con_ok t"
    and "view t = ex_blocks" and "sb t = ex_sb" and "itable t = (\<lambda>_. zero_inode)" and "cpu_proc t = Some 0" and "log t = (log ex_log)\<lparr>log_outstanding := 1\<rparr>"
proof -
  obtain s where s: "binit ex_fsd = Ok () s" "log_idle s" "log s = log ex_log" "view s = ex_blocks" "con_ok s" "cpu_proc s = Some 0"
    "sb s = ex_sb" "itable s = (\<lambda>_. zero_inode)" by (rule ex_idle)
  obtain t where t: "begin_op s = Ok () t" "fs_ready 10 t {}" "view t = view s" "lframe s t" using fs_begin [OF s(2)] by metis
  have l: "log t = (log ex_log)\<lparr>log_outstanding := 1\<rparr>"
    using t(1) by (simp add: begin_op_def begin_op_loop_def kern_simps s(3) acquire_def release_def params kdo_def split: if_splits) auto
  note lf = lframe_fields [OF t(4)]
  have g: "sb t = ex_sb" "con_ok t" "itable t = (\<lambda>_. zero_inode)" using lf(4) s(5,7,8) by (cases s; cases t; simp add: con_ok_def)+
  have "fs_layout ex_sb (log t)" unfolding l by (simp add: fs_layout_def ex_sb_def meta_blocks_def params)
  moreover have "meta_used ex_sb ex_blocks"
    unfolding meta_used_def by (auto simp: ex_in_use meta_blocks_def ex_sb_def [THEN arg_cong, of sb_size] ex_sb_def [THEN arg_cong, of sb_bmapstart] params)
  ultimately have "bitmap_ok t {}" by (simp add: bitmap_ok_def g t(3) s(4) held_blocks_def)
  then show thesis using that [OF s(1,2) t(1,2)] t(3) s(4,6) g lf(2) l by simp
qed

section \<open>Allocation and freeing\<close>

text \<open>
  C20. \<^verbatim>\<open>balloc\<close>, in a transaction with room for two more blocks, returns the lowest-numbered block that the bitmap
  says is free, after setting its bit and zeroing it; the bit and the block are all that changes of the blocks
  of the file system as the transaction sees them, and the two changes are in the log.  The block it returns is
  a data block, never block 0.  When every block is in use it prints a message, returns 0 and changes nothing.
\<close>

theorem balloc_first_free:
  assumes "fs_ready (k + 2) s H" and "bitmap_ok s H" and "con_ok s"
  shows "case first_free (sb s) (view s) 0 of
      Some c \<Rightarrow> (\<exists>t. balloc ROOTDEV s = Ok (of_nat c) t \<and> fs_step k (allocated (sb s) (view s) c) H s t) \<and>
        (\<forall>b<unat (sb_size (sb s)). in_use (sb s) (allocated (sb s) (view s) c) b \<longleftrightarrow> in_use (sb s) (view s) b \<or> b = c) \<and>
        c < unat (sb_size (sb s)) \<and> meta_blocks (sb s) \<le> c \<and> (of_nat c :: uint) \<noteq> 0
    | None \<Rightarrow> \<exists>t. balloc ROOTDEV s = Ok 0 (emits (map of_char ''balloc: out of blocks\<newline>'') t) \<and> fs_step (k + 2) (view s) H s t"
proof (cases "first_free (sb s) (view s) 0")
  case None
  then show ?thesis using balloc_ok [OF assms] by simp
next
  case (Some c)
  let ?S = "sb s"
  have c: "c < unat (sb_size ?S)" "\<not> in_use ?S (view s) c" using Some by (auto simp: first_free_def find_Some_iff)
  note d = bitmap_okD [OF assms(1,2) c(1)]
  note m = d(5) [OF c(2)]
  have "(of_nat c :: uint) \<noteq> 0" using m unat_block [OF c(1)] by (metis meta_blocks_def add_is_0 le_zero_eq unsigned_0 zero_neq_one)
  then show ?thesis using balloc_ok [OF assms] allocated_in_use(1) [OF d(1) c(1), of _ "view s"] Some c m by auto
qed

theorem balloc_first_free_witness:
  "\<exists>s t. binit ex_fsd = Ok () s \<and> kdo begin_op (\<lambda>_. balloc ROOTDEV) s = Ok 48 t \<and> view t = allocated ex_sb ex_blocks 48"
proof -
  obtain s t where t: "binit ex_fsd = Ok () s" "begin_op s = Ok () t" "fs_ready 10 t {}" "bitmap_ok t {}" "con_ok t"
    "view t = ex_blocks" "sb t = ex_sb" by (rule ex_txn)
  then obtain u where "balloc ROOTDEV t = Ok 48 u" "fs_step 8 (allocated ex_sb ex_blocks 48) {} t u"
    using balloc_first_free [of 8 t "{}"] by (auto simp: ex_first_free)
  then show ?thesis using t(1) fs_stepD(2) by (auto simp: kdo_Ok [where m = begin_op, OF t(2)])
qed

text \<open>
  C21. \<^verbatim>\<open>bfree\<close> of a block in use clears the bit of that block and changes nothing else; of a block that is free it
  panics.  Freeing what \<^verbatim>\<open>balloc\<close> has just returned gives back the bitmap as it was.
\<close>

theorem bfree_undoes_balloc:
  assumes "fs_ready (k + 3) s H" and "bitmap_ok s H" and "con_ok s"
  shows "(\<forall>b<unat (sb_size (sb s)). if in_use (sb s) (view s) b
      then \<exists>t. bfree ROOTDEV (of_nat b) s = Ok () t \<and>
        fs_step (k + 2) ((view s)(BBLOCK (of_nat b) (sb s) := unmark b (view s (BBLOCK (of_nat b) (sb s))))) H s t
      else bfree ROOTDEV (of_nat b) s = Panic ''freeing free block'') \<and>
    (\<forall>c. first_free (sb s) (view s) 0 = Some c \<longrightarrow>
      (\<exists>u. kdo (balloc ROOTDEV) (bfree ROOTDEV) s = Ok () u \<and> fs_step k ((view s)(of_nat c := memset (view s (of_nat c)) 0 0 BSIZE)) H s u))"
proof (intro conjI allI impI)
  show "if in_use (sb s) (view s) b
      then \<exists>t. bfree ROOTDEV (of_nat b) s = Ok () t \<and>
        fs_step (k + 2) ((view s)(BBLOCK (of_nat b) (sb s) := unmark b (view s (BBLOCK (of_nat b) (sb s))))) H s t
      else bfree ROOTDEV (of_nat b) s = Panic ''freeing free block''" if "b < unat (sb_size (sb s))" for b
    using bfree_ok [of "k + 2" s H b] assms that by (simp add: numeral_eq_Suc)
  fix c assume ff: "first_free (sb s) (view s) 0 = Some c"
  let ?S = "sb s" and ?B = "BBLOCK (of_nat c) (sb s)" and ?z = "memset (view s (of_nat c)) 0 0 BSIZE"
  have r: "fs_ready (Suc k + 2) s H" using assms(1) by (simp add: numeral_eq_Suc)
  have c: "c < unat (sb_size ?S)" "\<not> in_use ?S (view s) c" using ff by (auto simp: first_free_def find_Some_iff)
  note m = bitmap_okD [OF r assms(2) c(1)] and m5 = bitmap_okD(5) [OF r assms(2) c]
  obtain t where t: "balloc ROOTDEV s = Ok (of_nat c) t" "fs_step (Suc k) (allocated ?S (view s) c) H s t"
    using balloc_ok [OF r assms(2,3)] ff by auto
  note d = fs_stepD [OF t(2)] and bo = bitmap_ok_allocated [OF r assms(2) c t(2)]
  have "in_use ?S (view t) c" using allocated_in_use(1) [OF m(1) c(1) _ c(1)] m5 by (simp add: d(2))
  then obtain u where u: "bfree ROOTDEV (of_nat c) t = Ok () u" "fs_step k ((view t)(?B := unmark c (view t ?B))) H t u"
    using bfree_ok [OF d(1) bo(1), of c] c by (auto simp: bo(2))
  have "(view t)(?B := unmark c (view t ?B)) = (view s)(of_nat c := ?z)"
    using m5 unmark_mark [of "view s ?B" c] c(2) by (auto simp: d(2) allocated_def in_use_def fun_upd_twist)
  then have "fs_step k ((view s)(of_nat c := ?z)) H s u" using fs_step_trans [OF t(2) u(2)] by simp
  then show "\<exists>u. kdo (balloc ROOTDEV) (bfree ROOTDEV) s = Ok () u \<and> fs_step k ((view s)(of_nat c := ?z)) H s u"
    using u(1) by (intro exI [of _ u]) (simp add: kdo_Ok [where m = "balloc _", OF t(1)])
qed

theorem bfree_undoes_balloc_witness:
  "\<exists>s t. binit ex_fsd = Ok () s \<and> begin_op s = Ok () t \<and>
     (\<exists>u. kdo (balloc ROOTDEV) (bfree ROOTDEV) t = Ok () u \<and> view u = ex_blocks(48 := memset (ex_blocks 48) 0 0 BSIZE)) \<and>
     bfree ROOTDEV 100 t = Panic ''freeing free block''"
proof -
  obtain s t where t: "binit ex_fsd = Ok () s" "begin_op s = Ok () t" "fs_ready 10 t {}" "bitmap_ok t {}" "con_ok t"
    "view t = ex_blocks" "sb t = ex_sb" by (rule ex_txn)
  have f: "first_free (sb t) (view t) 0 = Some 48" by (simp add: t ex_first_free)
  have u: "\<not> in_use ex_sb ex_blocks 100" "100 < unat (sb_size ex_sb)" by (simp_all add: ex_in_use) (simp add: ex_sb_def)
  have r: "fs_ready (7 + 3) t {}" using t(3) by simp
  note w = bfree_undoes_balloc [OF r t(4,5)]
  obtain u where "kdo (balloc ROOTDEV) (bfree ROOTDEV) t = Ok () u" "fs_step 7 ((view t)(of_nat 48 := memset (view t (of_nat 48)) 0 0 BSIZE)) {} t u"
    using w f by blast
  moreover have "bfree ROOTDEV (of_nat 100) t = Panic ''freeing free block''"
    using conjunct1 [OF w] u by (metis t(6,7))
  ultimately show ?thesis using t(1,2,6) fs_stepD(2) by auto
qed

end
