(* ===== verification/Fsfile.thy ===== *)
theory Fsfile
  imports Fsblock Ucopy
begin

text \<open>
  Inodes and files.  An inode written by \<^verbatim>\<open>iupdate\<close> is the one \<^verbatim>\<open>ilock\<close> reads back, and no other inode changes.  \<^verbatim>\<open>bmap\<close>
  finds the block that holds a part of a file; \<^verbatim>\<open>readi\<close> delivers the bytes of the file, and \<^verbatim>\<open>writei\<close> replaces them.
\<close>

section \<open>Inodes on disk\<close>

text \<open>The contents of an inode, as they are on disk and in memory.\<close>

type_synonym idata = "ushort \<times> ushort \<times> ushort \<times> ushort \<times> uint \<times> uint list"

definition dinode_val :: "dinode \<Rightarrow> idata" where
  "dinode_val d = (d_type d, d_major d, d_minor d, d_nlink d, d_size d, map (d_addrs d) [0..<NDIRECT + 1])"

definition inode_val :: "inode \<Rightarrow> idata" where
  "inode_val x = (i_type x, i_major x, i_minor x, i_nlink x, i_size x, map (i_addrs x) [0..<NDIRECT + 1])"

definition disk_inode :: "superblock \<Rightarrow> (uint \<Rightarrow> bytes) \<Rightarrow> uint \<Rightarrow> idata" where
  "disk_inode S V inum = dinode_val (get_dinode (V (IBLOCK inum S)) (ioff inum))"

lemma put_addrs_outside: "b < a \<or> a + 52 \<le> b \<Longrightarrow> put_addrs d a v b = d b"
proof -
  assume b: "b < a \<or> a + 52 \<le> b"
  have "n \<le> 13 \<Longrightarrow> fold (\<lambda>k d. put32 d (a + 4 * k) (v k)) [0..<n] d b = d b" for n
    using b by (induction n) (auto simp: put32_outside)
  then show ?thesis by (simp add: put_addrs_def params)
qed

lemma put_addrs_get: "k < NDIRECT + 1 \<Longrightarrow> get32 (put_addrs d a v) (a + 4 * k) = v k"
proof -
  have "k < n \<Longrightarrow> get32 (fold (\<lambda>k d. put32 d (a + 4 * k) (v k)) [0..<n] d) (a + 4 * k) = v k" for n
  proof (induction n)
    case (Suc n)
    show ?case
    proof (cases "k = n")
      case True
      then show ?thesis by (simp add: get32_put32)
    next
      case False
      then have "apart 4 (a + 4 * n) (a + 4 * k)" by (intro apart_array) simp
      then show ?thesis using Suc False by (simp add: get32_put32_apart)
    qed
  qed simp
  then show "k < NDIRECT + 1 \<Longrightarrow> get32 (put_addrs d a v) (a + 4 * k) = v k" by (simp add: put_addrs_def del: upt_Suc)
qed

lemma put_dinode_outside: "b < a \<or> a + 64 \<le> b \<Longrightarrow> put_dinode d a x b = d b"
  by (auto simp: put_dinode_def Let_def put_addrs_outside put32_outside put16_outside)

lemma get16_put32_apart: "b + 2 \<le> a \<Longrightarrow> get16 (put32 d a v) b = get16 d b"
  by (rule get16_cong) (simp_all add: put32_outside)

lemma get16_put_addrs: "b + 2 \<le> a \<Longrightarrow> get16 (put_addrs d a v) b = get16 d b"
  by (rule get16_cong) (simp_all add: put_addrs_outside)

lemma get32_put_addrs: "b + 4 \<le> a \<Longrightarrow> get32 (put_addrs d a v) b = get32 d b"
  by (rule get32_cong) (simp add: put_addrs_outside)

lemma get_put_dinode: "dinode_val (get_dinode (put_dinode d a x) a) = inode_val x"
proof -
  have "map (\<lambda>k. get32 (put_addrs d' (a + 12) (i_addrs x)) (a + 12 + 4 * k)) [0..<NDIRECT + 1] = map (i_addrs x) [0..<NDIRECT + 1]" for d'
    by (rule map_cong [OF refl], rule put_addrs_get) (simp del: upt_Suc)
  then show ?thesis
    by (simp add: dinode_val_def inode_val_def get_dinode_def put_dinode_def Let_def get16_put_addrs get32_put_addrs get16_put32_apart
        get16_put16_apart apart_def get16_put16 get32_put32 del: upt_Suc)
qed

lemma get_dinode_cong:
  assumes "\<And>i. a \<le> i \<Longrightarrow> i < a + 64 \<Longrightarrow> d i = d' i"
  shows "dinode_val (get_dinode d a) = dinode_val (get_dinode d' a)"
proof -
  have "get16 d b = get16 d' b" if "a \<le> b" "b + 2 \<le> a + 64" for b using that assms by (intro get16_cong) simp_all
  moreover have "get32 d b = get32 d' b" if "a \<le> b" "b + 4 \<le> a + 64" for b using that assms by (intro get32_cong) simp_all
  ultimately show ?thesis by (simp add: dinode_val_def get_dinode_def params)
qed

text \<open>Inode numbers of the file system have distinct places on disk.\<close>

lemma unat_IBLOCK:
  assumes l: "fs_layout S l" and i: "unat inum < unat (sb_ninodes S)"
  shows "unat (IBLOCK inum S) = unat (sb_inodestart S) + unat inum div IPB"
    and "unat (IBLOCK inum S) < unat (sb_bmapstart S)"
proof -
  have "unat inum div IPB \<le> unat (sb_ninodes S) div IPB" using i by (simp add: div_le_mono)
  then have le: "unat (sb_inodestart S) + unat inum div IPB < unat (sb_bmapstart S)" using l by (simp add: fs_layout_def)
  then have "unat inum div IPB + unat (sb_inodestart S) < 2 ^ 32" using unat_uint_lt [of "sb_bmapstart S"] by linarith
  then show "unat (IBLOCK inum S) = unat (sb_inodestart S) + unat inum div IPB"
    unfolding IBLOCK_def by (simp add: unat_word_ariths unat_of_nat)
  with le show "unat (IBLOCK inum S) < unat (sb_bmapstart S)" by simp
qed

lemma disk_inode_put:
  assumes l: "fs_layout S l" and i: "unat i < unat (sb_ninodes S)" and j: "unat j < unat (sb_ninodes S)"
  shows "disk_inode S (V(IBLOCK i S := put_dinode (V (IBLOCK i S)) (ioff i) x)) j = (if j = i then inode_val x else disk_inode S V j)"
proof (cases "IBLOCK j S = IBLOCK i S")
  case True
  then have b: "unat j div IPB = unat i div IPB" using unat_IBLOCK(1) [OF l i] unat_IBLOCK(1) [OF l j] by simp
  show ?thesis
  proof (cases "j = i")
    case False
    then have "unat j mod IPB \<noteq> unat i mod IPB" using b by (metis div_mult_mod_eq word_unat_eq_iff)
    then have "apart 64 (0 + 64 * (unat j mod IPB)) (0 + 64 * (unat i mod IPB))" by (rule apart_array)
    then show ?thesis using True False
      by (auto simp: disk_inode_def apart_def intro!: get_dinode_cong put_dinode_outside)
  qed (simp add: disk_inode_def get_put_dinode)
qed (auto simp: disk_inode_def)

section \<open>Writing and reading inodes\<close>

text \<open>The in-memory inodes and physical memory are not part of what a transaction is about.\<close>

lemma calm_upd [simp]: "calm (s\<lparr>itable := I\<rparr>) P H = calm s P H" "calm (s\<lparr>pmem := m\<rparr>) P H = calm s P H"
  unfolding calm_def binv_def by simp_all

lemma fs_ready_more [simp]:
  "fs_ready k (s\<lparr>itable := I\<rparr>) H = fs_ready k s H" "view (s\<lparr>itable := I\<rparr>) = view s" "held_blocks (s\<lparr>itable := I\<rparr>) H = held_blocks s H"
  "fs_ready k (s\<lparr>pmem := m\<rparr>) H = fs_ready k s H" "view (s\<lparr>pmem := m\<rparr>) = view s" "held_blocks (s\<lparr>pmem := m\<rparr>) H = held_blocks s H"
proof -
  show v: "view (s\<lparr>itable := I\<rparr>) = view s" "view (s\<lparr>pmem := m\<rparr>) = view s" by (rule view_cong; simp)+
  show "fs_ready k (s\<lparr>itable := I\<rparr>) H = fs_ready k s H" "fs_ready k (s\<lparr>pmem := m\<rparr>) H = fs_ready k s H" by (simp_all add: fs_ready_def)
  show "held_blocks (s\<lparr>itable := I\<rparr>) H = held_blocks s H" "held_blocks (s\<lparr>pmem := m\<rparr>) H = held_blocks s H" by (simp_all add: held_blocks_def)
qed

lemma lframe_more:
  assumes "lframe s t"
  shows "lframe (s\<lparr>itable := I\<rparr>) (t\<lparr>itable := I\<rparr>)" "lframe (s\<lparr>pmem := m\<rparr>) (t\<lparr>pmem := m\<rparr>)"
proof -
  obtain B L Q D W where t: "t = (s\<lparr>log := log t\<rparr>)\<lparr>buf := B, slock := L, proc := Q, disk := D, dwrites := W\<rparr>"
    and q: "\<forall>p. Q p = (proc s p)\<lparr>p_state := p_state (Q p)\<rparr>" "\<forall>p. cpu_proc s = Some p \<longrightarrow> Q p = proc s p"
      "\<forall>i. L (Inode_lock i) = slock s (Inode_lock i)"
    using assms unfolding lframe_def bframe_def by auto
  have "bframe (s\<lparr>itable := I, log := log t\<rparr>) (t\<lparr>itable := I\<rparr>)" "bframe (s\<lparr>pmem := m, log := log t\<rparr>) (t\<lparr>pmem := m\<rparr>)"
    unfolding bframe_def using q by (subst t, intro exI [of _ B] exI [of _ L] exI [of _ Q] exI [of _ D] exI [of _ W], simp)+
  then show "lframe (s\<lparr>itable := I\<rparr>) (t\<lparr>itable := I\<rparr>)" "lframe (s\<lparr>pmem := m\<rparr>) (t\<lparr>pmem := m\<rparr>)" by (simp_all add: lframe_def)
qed

lemma fs_frame_more:
  assumes "fs_frame s t"
  shows "fs_frame (s\<lparr>itable := I\<rparr>) (t\<lparr>itable := I\<rparr>)" "fs_frame (s\<lparr>pmem := m\<rparr>) (t\<lparr>pmem := m\<rparr>)"
  using assms lframe_more [of s t] by (simp_all add: fs_frame_def)

lemma fs_step_more:
  assumes "fs_step k V H s t"
  shows "fs_step k V H (s\<lparr>itable := I\<rparr>) (t\<lparr>itable := I\<rparr>)" "fs_step k V H (s\<lparr>pmem := m\<rparr>) (t\<lparr>pmem := m\<rparr>)"
  using assms fs_frame_more [OF fs_stepD(3) [OF assms]] by (simp_all add: fs_step_def)

text \<open>Where \<^verbatim>\<open>iupdate\<close> and \<^verbatim>\<open>ilock\<close> work: an inode of the file system, its block not held.\<close>

definition inode_ok :: "'a fs_st_scheme \<Rightarrow> nat set \<Rightarrow> nat \<Rightarrow> bool" where
  "inode_ok s H ip \<longleftrightarrow> fs_layout (sb s) (log s) \<and> i_dev (itable s ip) = ROOTDEV \<and>
     unat (i_inum (itable s ip)) < unat (sb_ninodes (sb s)) \<and> card H \<le> 1 \<and> IBLOCK (i_inum (itable s ip)) (sb s) \<notin> held_blocks s H"

lemma inode_not_in_log:
  assumes "fs_ready k s H" and "inode_ok s H ip"
  shows "\<not> in_log (log s) (IBLOCK (i_inum (itable s ip)) (sb s))"
proof -
  have l: "fs_layout (sb s) (log s)" and i: "unat (i_inum (itable s ip)) < unat (sb_ninodes (sb s))" using assms(2) by (simp_all add: inode_ok_def)
  then show ?thesis using fs_readyD(2) [OF assms(1)] log_invD(1) unat_IBLOCK(1) [OF l i] by (intro layout_not_in_log [OF l]) simp_all
qed

lemma iupdate_ok:
  assumes r: "fs_ready (Suc k) s H" and o: "inode_ok s H ip"
  defines "x \<equiv> itable s ip" and "B \<equiv> IBLOCK (i_inum (itable s ip)) (sb s)"
  shows "\<exists>t. iupdate ip s = Ok () t \<and> fs_step k ((view s)(B := put_dinode (view s B) (ioff (i_inum x)) x)) H s t"
proof -
  have h: "B \<notin> held_blocks s H" "card H \<le> 1" "i_dev x = ROOTDEV" using o by (simp_all add: inode_ok_def x_def B_def)
  obtain bp s1 s2 s3 t where 1: "bread ROOTDEV B s = Ok bp s1" "fs_frame s s1" "set_data bp (\<lambda>d. put_dinode d (ioff (i_inum x)) x) s1 = Ok () s2"
    "log_write bp s2 = Ok () s3" "brelse bp s3 = Ok () t" "fs_step k ((view s)(B := put_dinode (view s B) (ioff (i_inum x)) x)) H s t"
    using fs_rmw [OF r h(1,2) inode_not_in_log [OF r o, folded B_def], of "\<lambda>d. put_dinode d (ioff (i_inum x)) x"] by metis
  have "itable s1 ip = x" using fs_frame_fields(2) [OF 1(2)] by (simp add: x_def)
  then have "iupdate ip s = Ok () t"
    by (simp add: iupdate_def kern_simps x_def [symmetric] B_def [unfolded x_def [symmetric], symmetric] h(3) kdo_Ok [where m = "bread _ _", OF 1(1)]
        kdo_Ok [where m = "set_data _ _", OF 1(3)] kdo_Ok [where m = "log_write _", OF 1(4)] 1(5))
  then show ?thesis using 1(6) by blast
qed

text \<open>What \<^verbatim>\<open>ilock\<close> makes of the table entry when it reads the inode from disk.\<close>

definition loaded :: "inode \<Rightarrow> dinode \<Rightarrow> inode" where
  "loaded x d = x\<lparr>i_type := d_type d, i_major := d_major d, i_minor := d_minor d, i_nlink := d_nlink d, i_size := d_size d,
     i_addrs := (\<lambda>k. if k < NDIRECT + 1 then d_addrs d k else i_addrs x k), i_valid := True\<rparr>"

lemma ilock_load_ok:
  assumes r: "fs_ready k s H" and o: "inode_ok s H ip" and v: "\<not> i_valid (itable s ip)"
  defines "d \<equiv> get_dinode (view s (IBLOCK (i_inum (itable s ip)) (sb s))) (ioff (i_inum (itable s ip)))"
  shows "if d_type d = 0 then ilock_load ip s = Panic ''ilock: no type''
    else \<exists>t. ilock_load ip s = Ok () t \<and> fs_step k (view s) H (upd_inode ip (\<lambda>x. loaded x d) s) t"
proof -
  let ?x = "itable s ip"
  let ?B = "IBLOCK (i_inum ?x) (sb s)"
  have h: "?B \<notin> held_blocks s H" "card H \<le> 1" "i_dev ?x = ROOTDEV" using o by (simp_all add: inode_ok_def)
  obtain bp s1 where 1: "bread ROOTDEV ?B s = Ok bp s1" "fs_ready k s1 (insert bp H)" "bp \<notin> H"
    "b_data (buf s1 bp) = view s ?B" "view s1 = view s" "fs_frame s s1" "\<And>c. c \<in> H \<Longrightarrow> buf s1 c = buf s c"
    using fs_bread [OF r held_blocksD [OF h(1)] h(2)] by blast
  have I: "itable s1 = itable s" using fs_frame_fields(2) [OF 1(6)] .
  define f where "f x = x\<lparr>i_type := d_type d, i_major := d_major d, i_minor := d_minor d, i_nlink := d_nlink d, i_size := d_size d,
     i_addrs := (\<lambda>k. if k < NDIRECT + 1 then d_addrs d k else i_addrs x k)\<rparr>" for x :: inode
  define s2 where "s2 = upd_inode ip f s1"
  have r2: "fs_ready k s2 (insert bp H)" using 1(2) by (simp add: s2_def)
  obtain s3 where 3: "brelse bp s2 = Ok () s3" "fs_ready k s3 (insert bp H - {bp})" "view s3 = view s2" "fs_frame s2 s3"
    "\<And>c. b_blockno (buf s3 c) = b_blockno (buf s2 c)" "\<And>c. b_data (buf s3 c) = b_data (buf s2 c)"
    using fs_brelse [OF r2, of bp] by blast
  have I3: "itable s3 = (itable s)(ip := f ?x)" using fs_frame_fields(2) [OF 3(4)] by (simp add: s2_def I)
  define t where "t = upd_inode ip (\<lambda>x. x\<lparr>i_valid := True\<rparr>) s3"
  have e: "s1\<lparr>itable := (itable s1)(ip := itable s1 ip\<lparr>i_type := d_type d, i_major := d_major d, i_minor := d_minor d, i_nlink := d_nlink d,
     i_size := d_size d, i_addrs := (\<lambda>k. if k < NDIRECT + 1 then d_addrs d k else i_addrs (itable s1 ip) k)\<rparr>)\<rparr> = s2"
    by (simp add: s2_def f_def)
  have run: "ilock_load ip s = (if i_type (itable t ip) = 0 then panic ''ilock: no type'' else ret ()) t"
    using v by (simp add: ilock_load_def kern_simps h(3) kdo_Ok [where m = "bread _ _", OF 1(1)] 1(4) d_def [symmetric] e kdo_Ok [where m = "brelse _", OF 3(1)] t_def [symmetric] del: One_nat_def Suc_eq_plus1 cong: if_cong)
  have ty: "i_type (itable t ip) = d_type d" by (simp add: t_def I3 f_def)
  have H: "insert bp H - {bp} = H" using 1(3) by blast
  let ?I = "(itable s)(ip := loaded ?x d)"
  have fr: "fs_frame (s\<lparr>itable := ?I\<rparr>) (s1\<lparr>itable := ?I\<rparr>)" "fs_frame (s2\<lparr>itable := ?I\<rparr>) (s3\<lparr>itable := ?I\<rparr>)"
    using fs_frame_more(1) 1(6) 3(4) by blast+
  have t: "t = s3\<lparr>itable := ?I\<rparr>" by (simp add: t_def I3 loaded_def f_def)
  have s21: "s2\<lparr>itable := ?I\<rparr> = s1\<lparr>itable := ?I\<rparr>" by (simp add: s2_def)
  have "fs_frame (s\<lparr>itable := ?I\<rparr>) t" unfolding t by (rule fs_frame_trans [OF fr(1) fr(2) [unfolded s21]])
  moreover have "fs_ready k t H" "view t = view s" using 3(2,3) 1(5) by (simp_all add: t H s2_def)
  moreover have "b_blockno (buf t c) = b_blockno (buf s c) \<and> b_data (buf t c) = b_data (buf s c)" if "c \<in> H" for c
    using 3(5,6) [of c] 1(7) [OF that] by (simp add: t s2_def)
  ultimately have "fs_step k (view s) H (s\<lparr>itable := ?I\<rparr>) t" unfolding fs_step_def by simp
  then show ?thesis using run by (simp add: ty kern_simps)
qed

text \<open>
  C22. What \<^verbatim>\<open>iupdate\<close> writes, \<^verbatim>\<open>ilock\<close> reads back.  In a transaction, \<^verbatim>\<open>iupdate\<close> makes the inode on disk what the table
  entry says, and changes no other inode of the file system and no block but the inode's.  After it, an entry
  of the table for the same inode number that has not been read yet gets, once locked, exactly these contents
  (or \<^verbatim>\<open>ilock\<close> panics, if the type is 0: the inode is free).
\<close>

theorem iupdate_ilock:
  assumes "fs_ready (Suc k) s H" and "inode_ok s H ip"
  shows "\<exists>t. iupdate ip s = Ok () t \<and> fs_ready k t H \<and> fs_frame s t \<and>
    (\<forall>bn. bn \<noteq> IBLOCK (i_inum (itable s ip)) (sb s) \<longrightarrow> view t bn = view s bn) \<and>
    (\<forall>j. unat j < unat (sb_ninodes (sb s)) \<longrightarrow>
       disk_inode (sb s) (view t) j = (if j = i_inum (itable s ip) then inode_val (itable s ip) else disk_inode (sb s) (view s) j)) \<and>
    (\<forall>jp. i_dev (itable s jp) = ROOTDEV \<and> i_inum (itable s jp) = i_inum (itable s ip) \<and> \<not> i_valid (itable s jp) \<longrightarrow>
       (if i_type (itable s ip) = 0 then ilock_load jp t = Panic ''ilock: no type''
        else \<exists>u. ilock_load jp t = Ok () u \<and> view u = view t \<and> i_valid (itable u jp) \<and> inode_val (itable u jp) = inode_val (itable s ip) \<and>
          (\<forall>i. i \<noteq> jp \<longrightarrow> itable u i = itable s i)))"
proof -
  let ?S = "sb s" and ?x = "itable s ip"
  let ?B = "IBLOCK (i_inum ?x) ?S"
  obtain t where t: "iupdate ip s = Ok () t" "fs_step k ((view s)(?B := put_dinode (view s ?B) (ioff (i_inum ?x)) ?x)) H s t"
    using iupdate_ok [OF assms] by blast
  note d = fs_stepD [OF t(2)]
  have S: "sb t = ?S" "itable t = itable s" using fs_frame_fields(1,2) [OF d(3)] by simp_all
  have l: "fs_layout ?S (log s)" and i: "unat (i_inum ?x) < unat (sb_ninodes ?S)" using assms(2) by (simp_all add: inode_ok_def)
  have inodes: "disk_inode ?S (view t) j = (if j = i_inum ?x then inode_val ?x else disk_inode ?S (view s) j)"
    if "unat j < unat (sb_ninodes ?S)" for j using disk_inode_put [OF l i that] by (simp add: d(2))
  have lock: "if i_type ?x = 0 then ilock_load jp t = Panic ''ilock: no type''
        else \<exists>u. ilock_load jp t = Ok () u \<and> view u = view t \<and> i_valid (itable u jp) \<and> inode_val (itable u jp) = inode_val ?x \<and>
          (\<forall>i. i \<noteq> jp \<longrightarrow> itable u i = itable s i)"
    if j: "i_dev (itable s jp) = ROOTDEV" "i_inum (itable s jp) = i_inum ?x" "\<not> i_valid (itable s jp)" for jp
  proof -
    let ?d = "get_dinode (view t ?B) (ioff (i_inum ?x))"
    have dv: "dinode_val ?d = inode_val ?x" using inodes [OF i] by (simp add: disk_inode_def)
    then have ty: "d_type ?d = i_type ?x" by (simp add: dinode_val_def inode_val_def del: upt_Suc)
    have o: "inode_ok t H jp" using assms(2) j by (simp add: inode_ok_def S d(4,7))
    have A: "if i_type ?x = 0 then ilock_load jp t = Panic ''ilock: no type''
      else \<exists>u. ilock_load jp t = Ok () u \<and> fs_step k (view t) H (upd_inode jp (\<lambda>x. loaded x ?d) t) u"
      using ilock_load_ok [OF d(1) o, unfolded S j(2), OF j(3), unfolded ty] unfolding S .
    have B: "view u = view t \<and> i_valid (itable u jp) \<and> inode_val (itable u jp) = inode_val ?x \<and> (\<forall>i. i \<noteq> jp \<longrightarrow> itable u i = itable s i)"
      if "fs_step k (view t) H (upd_inode jp (\<lambda>x. loaded x ?d) t) u" for u
    proof -
      have "itable u = (itable s)(jp := loaded (itable s jp) ?d)" using fs_frame_fields(2) [OF fs_stepD(3) [OF that]] by (simp add: S)
      then show ?thesis using fs_stepD(2) [OF that] dv by (simp add: loaded_def inode_val_def dinode_val_def cong: map_cong)
    qed
    show ?thesis
    proof (cases "i_type ?x = 0")
      case True
      then show ?thesis using A by simp
    next
      case False
      then obtain u where "ilock_load jp t = Ok () u" "fs_step k (view t) H (upd_inode jp (\<lambda>x. loaded x ?d) t) u" using A by auto
      then show ?thesis using False B [of u] by auto
    qed
  qed
  have "view t bn = view s bn" if "bn \<noteq> ?B" for bn using that by (simp add: d(2))
  then show ?thesis using t(1) d(1,3) inodes lock by blast
qed

definition ex_itable :: "nat \<Rightarrow> inode" where
  "ex_itable = (\<lambda>_. zero_inode)(3 := zero_inode\<lparr>i_dev := 1, i_inum := 7, i_type := T_FILE, i_size := 5\<rparr>,
     4 := zero_inode\<lparr>i_dev := 1, i_inum := 7\<rparr>)"

theorem iupdate_ilock_witness:
  "\<exists>s t u v. binit ex_fsd = Ok () s \<and> begin_op s = Ok () t \<and> iupdate 3 (t\<lparr>itable := ex_itable\<rparr>) = Ok () u \<and>
     ilock_load 4 u = Ok () v \<and> inode_val (itable v 4) = inode_val (ex_itable 3)"
proof -
  obtain s t where t: "binit ex_fsd = Ok () s" "begin_op s = Ok () t" "fs_ready 10 t {}" "bitmap_ok t {}" "sb t = ex_sb" by (rule ex_txn)
  let ?t = "t\<lparr>itable := ex_itable\<rparr>"
  have r: "fs_ready (Suc 9) ?t {}" using t(3) by simp
  have "inode_ok ?t {} 3" using t(4,5) by (simp add: inode_ok_def bitmap_ok_def held_blocks_def ex_itable_def ex_sb_def params)
  note w = iupdate_ilock [OF r this]
  then obtain u where u: "iupdate 3 ?t = Ok () u"
    "\<And>jp. i_dev (itable ?t jp) = ROOTDEV \<and> i_inum (itable ?t jp) = i_inum (itable ?t 3) \<and> \<not> i_valid (itable ?t jp) \<Longrightarrow>
       (if i_type (itable ?t 3) = 0 then ilock_load jp u = Panic ''ilock: no type''
        else \<exists>v. ilock_load jp u = Ok () v \<and> view v = view u \<and> i_valid (itable v jp) \<and> inode_val (itable v jp) = inode_val (itable ?t 3) \<and>
          (\<forall>i. i \<noteq> jp \<longrightarrow> itable v i = itable ?t i))" by blast
  have "\<exists>v. ilock_load 4 u = Ok () v \<and> inode_val (itable v 4) = inode_val (ex_itable 3)"
    using u(2) [of 4] by (auto simp: ex_itable_def zero_inode_def params)
  then show ?thesis using t(1,2) u(1) by blast
qed

section \<open>Operations as transactions\<close>

text \<open>
  Whatever an operation does to the blocks between \<^verbatim>\<open>begin_op\<close> and \<^verbatim>\<open>end_op\<close>, the disk has all of it or nothing of it
  after a crash and the recovery of the next boot.
\<close>

lemma fs_commit:
  assumes idle: "log_idle s" and b: "begin_op s = Ok () s1" and st: "fs_step j V {} (s1\<lparr>itable := I\<rparr>) s2"
    and sb: "sint (sb_logstart S) = log_start (log s)" "sint (sb_nlog S) = log_size (log s)"
  shows "\<exists>t W n. end_op s2 = Ok () t \<and> log_idle t \<and> dwrites t = dwrites s @ W \<and>
    (\<forall>bn. \<not> in_log (log s) bn \<longrightarrow> disk t bn = V bn) \<and>
    (\<forall>k r. booted r \<and> disk r = apply_writes (take k W) (disk s) \<longrightarrow>
       (\<exists>u. initlog ROOTDEV S r = Ok () u \<and> hdr_n (disk u (log_hd (log s))) = 0 \<and>
            (\<forall>bn. \<not> in_log (log s) bn \<longrightarrow> disk u bn = (if k \<le> n then disk s bn else V bn))))"
proof -
  let ?s = "s\<lparr>itable := I\<rparr>" and ?s1 = "s1\<lparr>itable := I\<rparr>" and ?l = "log s2"
  have c0: "calm s {} {}" using idle by (simp add: log_idle_def)
  have v0: "view s = disk s" by (rule ext) (rule calm_clean [OF c0], simp_all)
  obtain s1' where "begin_op s = Ok () s1'" "in_txn (log s) s [] s1'" using begin_op_ok [OF idle] by blast
  then have t1: "in_txn (log s) s [] s1" using b by simp
  have f1: "log_outstanding (log s1) = 1" "\<not> log_committing (log s1)" "log_start (log s1) = log_start (log s)"
    "log_size (log s1) = log_size (log s)" "view s1 = view s" "disk s1 = disk s" "dwrites s1 = dwrites s" "lframe s s1"
    using t1 by (simp_all add: in_txn_def)
  note d = fs_stepD [OF st] and dl = fs_frame_log [OF fs_stepD(3) [OF st]]
  note rd = fs_readyD [OF d(1)]
  have f2: "disk s2 = disk s" "dwrites s2 = dwrites s" "lframe ?s1 s2" using d(3) f1 by (simp_all add: fs_frame_def)
  define ws where "ws = map (\<lambda>i. (log_block ?l i, V (log_block ?l i))) [0..<nat (log_n ?l)]"
  have fst: "fst ` set ws = log_blocks ?l" by (simp add: ws_def log_blocks_def image_image atLeast0LessThan)
  have V: "V = apply_writes ws (disk s)"
  proof
    fix bn
    show "V bn = apply_writes ws (disk s) bn"
    proof (cases "bn \<in> log_blocks ?l")
      case True
      then show ?thesis using apply_writes_map [OF _ log_invD(3) [OF rd(2)], of _ "\<lambda>i. V (log_block ?l i)"] by (auto simp: ws_def log_blocks_def)
    next
      case False
      then have "V bn = disk s bn" using calm_clean [OF rd(1) False] d(2) f2(1) by simp
      then show ?thesis using apply_writes_other [of bn ws] False fst by simp
    qed
  qed
  have len: "length ws = nat (log_n ?l)" by (simp add: ws_def)
  have vw: "view s2 = apply_writes ws (disk s)" using d(2) V by simp
  have "lframe ?s s2" using lframe_trans [OF lframe_more(1) [OF f1(8)] f2(3)] .
  then have t2: "in_txn (log ?s) ?s ws s2"
    unfolding in_txn_def using rd(1,2) dl f1 f2(1,2) v0 vw len by (simp add: fst)
  have idle': "log_idle ?s" using idle by (simp add: log_idle_def)
  have sb': "sint (sb_logstart S) = log_start (log ?s)" "sint (sb_nlog S) = log_size (log ?s)" using sb by simp_all
  have eqs: "log ?s = log s" "disk ?s = disk s" "dwrites ?s = dwrites s" by simp_all
  show ?thesis using in_txn_atomic [OF idle' t2 sb', unfolded eqs V [symmetric]] .
qed

end
