(* ===== verification/Fsread.thy ===== *)
theory Fsread
  imports Fsfile
begin

text \<open>
  The contents of files: \<^verbatim>\<open>readi\<close> delivers the bytes of the file, and \<^verbatim>\<open>writei\<close> replaces them.  A file is its blocks in order,
  as the inode's addresses and its indirect block name them.
\<close>

section \<open>The blocks of a file\<close>

definition fblock :: "(uint \<Rightarrow> bytes) \<Rightarrow> (nat \<Rightarrow> uint) \<Rightarrow> nat \<Rightarrow> uint" where
  "fblock V A k = (if k < NDIRECT then A k else if A NDIRECT = 0 then 0 else get32 (V (A NDIRECT)) (4 * (k - NDIRECT)))"

definition fbytes :: "(uint \<Rightarrow> bytes) \<Rightarrow> (nat \<Rightarrow> uint) \<Rightarrow> bytes" where
  "fbytes V A i = V (fblock V A (i div BSIZE)) (i mod BSIZE)"

text \<open>The blocks that hold the bytes from \<open>off\<close> up to \<open>off + n\<close> are there.\<close>

definition mapped :: "(uint \<Rightarrow> bytes) \<Rightarrow> (nat \<Rightarrow> uint) \<Rightarrow> nat \<Rightarrow> nat \<Rightarrow> bool" where
  "mapped V A off n \<longleftrightarrow> (\<forall>k. off div BSIZE \<le> k \<and> k * BSIZE < off + n \<longrightarrow> k < MAXFILE \<and> fblock V A k \<noteq> 0)"

lemma mapped_at: "mapped V A off n \<Longrightarrow> 0 < n \<Longrightarrow> off div BSIZE < MAXFILE \<and> fblock V A (off div BSIZE) \<noteq> 0"
proof -
  assume m: "mapped V A off n" and n: "0 < n"
  have "off div BSIZE * BSIZE < off + n" using n by (metis div_mult_mod_eq le_add1 le_less_trans less_add_same_cancel1)
  then show ?thesis using m unfolding mapped_def by blast
qed

lemma mapped_later: "mapped V A off (a + b) \<Longrightarrow> mapped V A (off + a) b"
  unfolding mapped_def
  by (metis add.assoc div_le_mono le_add1 order_trans)

lemma no_held: "bn \<notin> held_blocks s {}" "card {} \<le> (1 :: nat)"
  by (simp_all add: held_blocks_def)

lemma bmap_mapped:
  assumes r: "fs_ready k s {}" and d: "i_dev (itable s ip) = ROOTDEV" and j: "j < MAXFILE" "fblock (view s) (i_addrs (itable s ip)) j \<noteq> 0"
  shows "\<exists>t. bmap ip (of_nat j) s = Ok (fblock (view s) (i_addrs (itable s ip)) j) t \<and> fs_step k (view s) {} s t"
proof -
  let ?A = "i_addrs (itable s ip)"
  have u: "unat (of_nat j :: uint) = j" using j(1) by (simp add: unat_of_nat params)
  show ?thesis
  proof (cases "j < NDIRECT")
    case True
    then show ?thesis using j(2) fs_step_refl [OF r] by (intro exI [of _ s]) (simp add: bmap_def kern_simps u fblock_def)
  next
    case False
    then have a: "?A NDIRECT \<noteq> 0" "get32 (view s (?A NDIRECT)) (4 * (j - NDIRECT)) \<noteq> 0" "j - NDIRECT < NINDIRECT"
      using j by (auto simp: fblock_def MAXFILE_def split: if_splits)
    obtain bp s1 t where 1: "bread ROOTDEV (?A NDIRECT) s = Ok bp s1" "b_data (buf s1 bp) = view s (?A NDIRECT)" "brelse bp s1 = Ok () t"
      "fs_step k (view s) {} s t" using fs_peek [OF r no_held] by metis
    have "bmap ip (of_nat j) s = Ok (fblock (view s) ?A j) t"
      using False a by (simp add: bmap_def kern_simps u d Let_def kdo_Ok [where m = "bread _ _", OF 1(1)] 1(2)
          kdo_Ok [where m = "brelse _", OF 1(3)] fblock_def)
    then show ?thesis using 1(4) by blast
  qed
qed

section \<open>Reading\<close>

text \<open>One block is copied out.\<close>

lemma copyout_block:
  assumes r: "fs_ready k (s :: 'a fs_st_scheme) {}" and p: "cpu_proc s = Some p" and x: "xferout_ok (p_pagetable (proc s p)) dst (pmem s) (unat len)"
    and e: "xferout (p_pagetable (proc s p)) dst loc (pmem s) (view s bn) o1 (unat len) = (ok, loc', m')"
  obtains bp s1 t where "bread ROOTDEV bn s = Ok bp s1" and "b_data (buf s1 bp) = view s bn"
    and "either_copyout dst loc (view s bn) o1 len s1 = Ok (if ok then 0 else -1, loc') (s1\<lparr>pmem := m'\<rparr>)"
    and "brelse bp (s1\<lparr>pmem := m'\<rparr>) = Ok () t" and "fs_step k (view s) {} (s\<lparr>pmem := m'\<rparr>) t"
proof -
  obtain bp s1 where 1: "bread ROOTDEV bn s = Ok bp s1" "fs_ready k s1 {bp}" "b_data (buf s1 bp) = view s bn" "view s1 = view s" "fs_frame s s1"
    using fs_bread [OF r held_blocksD [OF no_held(1)] no_held(2), of bn] by metis
  note f = fs_frame_fields [OF 1(5)]
  have p1: "cpu_proc s1 = Some p" "proc s1 p = proc s p" "pmem s1 = pmem s" using f p by simp_all
  have c: "either_copyout dst loc (view s bn) o1 len s1 = Ok (if ok then 0 else -1, loc') (s1\<lparr>pmem := m'\<rparr>)"
    using either_copyout_at [OF p1(1), of dst len loc "view s bn" o1] x e by (simp add: p1)
  have r2: "fs_ready k (s1\<lparr>pmem := m'\<rparr>) {bp}" using 1(2) by simp
  obtain t where 2: "brelse bp (s1\<lparr>pmem := m'\<rparr>) = Ok () t" "fs_ready k t ({bp} - {bp})" "view t = view (s1\<lparr>pmem := m'\<rparr>)"
    "fs_frame (s1\<lparr>pmem := m'\<rparr>) t" using fs_brelse [OF r2 singletonI] by metis
  have "fs_frame (s\<lparr>pmem := m'\<rparr>) t" using fs_frame_trans [OF fs_frame_more(2) [OF 1(5)] 2(4)] .
  then have "fs_step k (view s) {} (s\<lparr>pmem := m'\<rparr>) t" using 2 1(4) by (simp add: fs_step_def)
  then show thesis using that 1 c 2(1) by blast
qed

lemma pmem_same: "s\<lparr>pmem := pmem s\<rparr> = s"
  by (cases s) simp

text \<open>The length of a round of the loops: what is left, or up to the end of the block.\<close>

lemma chunk_len:
  assumes "unat n = unat tot + m" and "0 < m" and "unat (off :: uint) + m < 2 ^ 32"
  defines "c \<equiv> min (n - tot) (of_nat (BSIZE - unat off mod BSIZE) :: uint)"
  shows "unat c = min m (BSIZE - unat off mod BSIZE)" "unat (ucast c :: uint64) = unat c"
    "unat (off + c) = unat off + unat c" "unat (tot + c) = unat tot + unat c" "tot < n"
    "unat off mod BSIZE + unat c \<le> BSIZE" "0 < unat c" "unat c \<le> m"
    "m + unat off mod BSIZE \<le> Suc f * BSIZE \<Longrightarrow> m - unat c = 0 \<or> m - unat c + unat (off + c) mod BSIZE \<le> f * BSIZE"
proof -
  have b: "0 < BSIZE - unat off mod BSIZE" by (simp add: params)
  show tn: "tot < n" using assms(1,2) by (simp add: word_less_nat_alt)
  then have d: "unat (n - tot) = m" using assms(1) by (simp add: unat_sub word_le_nat_alt)
  have o: "unat (of_nat (BSIZE - unat off mod BSIZE) :: uint) = BSIZE - unat off mod BSIZE"
    unfolding unat_of_nat by (rule mod_less) (simp add: params)
  show c: "unat c = min m (BSIZE - unat off mod BSIZE)" unfolding c_def by (auto simp: min_def word_le_nat_alt d o)
  show "unat (ucast c :: uint64) = unat c" by (simp add: unsigned_ucast_eq take_bit_nat_eq_self_iff order_less_le_trans [OF unat_uint_lt])
  show oc: "unat (off + c) = unat off + unat c" using assms(3) c by (simp add: unat_word_ariths)
  have "unat tot + unat c < 2 ^ 32" using assms(1) c unat_uint_lt [of n] by simp
  then show "unat (tot + c) = unat tot + unat c" by (simp add: unat_word_ariths)
  show "unat off mod BSIZE + unat c \<le> BSIZE" using c b by simp
  show "0 < unat c" "unat c \<le> m" using c b assms(2) by simp_all
  assume f: "m + unat off mod BSIZE \<le> Suc f * BSIZE"
  show "m - unat c = 0 \<or> m - unat c + unat (off + c) mod BSIZE \<le> f * BSIZE"
  proof (cases "m \<le> BSIZE - unat off mod BSIZE")
    case False
    then have uc: "unat c = BSIZE - unat off mod BSIZE" using c by simp
    have "unat off + (BSIZE - unat off mod BSIZE) = (unat off div BSIZE + 1) * BSIZE"
      using div_mult_mod_eq [of "unat off" BSIZE] b unfolding add_mult_distrib by linarith
    then have "unat (off + c) mod BSIZE = 0" using oc uc by simp
    moreover have "m - (BSIZE - unat off mod BSIZE) \<le> f * BSIZE" using f b unfolding mult_Suc by linarith
    ultimately show ?thesis using uc by simp
  qed (use c in simp)
qed

lemma fbytes_block:
  assumes "i < BSIZE - off mod BSIZE"
  shows "fbytes V A (off + i) = V (fblock V A (off div BSIZE)) (off mod BSIZE + i)"
proof -
  have "off + i = off div BSIZE * BSIZE + (off mod BSIZE + i)" by simp
  moreover have "off mod BSIZE + i < BSIZE" using assms by simp
  ultimately have "(off + i) div BSIZE = off div BSIZE" "(off + i) mod BSIZE = off mod BSIZE + i"
    by (metis div_mult_self3 div_less add.right_neutral less_nat_zero_code not_gr_zero, metis mod_mult_self3 mod_less)
  then show ?thesis by (simp add: fbytes_def)
qed

lemma readi_loop_ok:
  assumes "fs_ready k s {}" and "cpu_proc s = Some p" and "i_dev (itable s ip) = ROOTDEV"
    and "mapped (view s) (i_addrs (itable s ip)) (unat off) m" and "unat n = unat tot + m" and "unat off + m < 2 ^ 32"
    and "m = 0 \<or> m + unat off mod BSIZE \<le> f * BSIZE" and "xferout_ok (p_pagetable (proc s p)) dst (pmem s) m"
    and "xferout (p_pagetable (proc s p)) dst loc (pmem s) (fbytes (view s) (i_addrs (itable s ip))) (unat off) m = (ok, loc', m')"
  shows "\<exists>t. readi_loop (Suc f) ip dst loc off n tot s = Ok (if ok then n else -1, loc') t \<and> fs_step k (view s) {} (s\<lparr>pmem := m'\<rparr>) t"
  using assms
proof (induction f arbitrary: s dst loc off tot m)
  case 0
  then have m: "m = 0" by auto
  then have "tot = n" using 0 by (simp add: word_unat_eq_iff)
  then show ?case using 0 m fs_step_refl [OF 0(1)] by (intro exI [of _ s]) (auto simp: kern_simps pmem_same)
next
  case (Suc f)
  show ?case
  proof (cases "m = 0")
    case True
    then have "tot = n" using Suc.prems by (simp add: word_unat_eq_iff)
    then show ?thesis using Suc.prems True fs_step_refl [OF Suc.prems(1)] by (intro exI [of _ s]) (auto simp: kern_simps pmem_same)
  next
    case False
    let ?A = "i_addrs (itable s ip)" and ?pt = "p_pagetable (proc s p)" and ?B = "unat off div BSIZE" and ?o = "unat off mod BSIZE"
    let ?bn = "fblock (view s) ?A ?B" and ?F = "fbytes (view s) ?A"
    define c where "c = min (n - tot) (of_nat (BSIZE - ?o) :: uint)"
    have m0: "0 < m" using False by simp
    note cl = chunk_len [OF Suc.prems(5) m0 Suc.prems(6), folded c_def]
    define m2 where "m2 = m - unat c"
    have m: "m = unat c + m2" using cl(8) by (simp add: m2_def)
    note at = mapped_at [OF Suc.prems(4) m0]
    obtain s1 where 1: "bmap ip (of_nat ?B) s = Ok ?bn s1" "fs_step k (view s) {} s s1"
      using bmap_mapped [OF Suc.prems(1,3)] at by blast
    note d1 = fs_stepD [OF 1(2)] and f1 = fs_frame_fields [OF fs_stepD(3) [OF 1(2)]]
    have s1: "cpu_proc s1 = Some p" "proc s1 p = proc s p" "pmem s1 = pmem s" "itable s1 = itable s" "view s1 = view s"
      using f1 Suc.prems(2) d1(2) by simp_all
    have xo: "xferout_ok ?pt dst (pmem s) (unat c + m2)" using Suc.prems(8) m by simp
    obtain ok1 loc1 m1 where x1: "xferout ?pt dst loc (pmem s) (view s ?bn) ?o (unat (ucast c :: uint64)) = (ok1, loc1, m1)"
      by (rule prod_cases3)
    have x2: "xferout ?pt dst loc (pmem s) ?F (unat off) (unat c) = (ok1, loc1, m1)"
      using x1 cl(6) fbytes_block [of _ "unat off" "view s" ?A] unfolding cl(2)
      by (subst xferout_src [where src' = "view s ?bn" and off' = ?o]) auto
    have sp: "xferout ?pt dst loc (pmem s) ?F (unat off) m =
        (if ok1 then xferout ?pt (mref_add dst (unat c)) loc1 m1 ?F (unat off + unat c) m2 else (False, loc1, m1))"
      using xferout_split(1) [OF xo, of loc ?F "unat off"] x2 m by simp
    obtain bp s2 s3 where 2: "bread ROOTDEV ?bn s1 = Ok bp s2" "b_data (buf s2 bp) = view s ?bn"
      "either_copyout dst loc (view s ?bn) ?o (ucast c) s2 = Ok (if ok1 then 0 else -1, loc1) (s2\<lparr>pmem := m1\<rparr>)"
      "brelse bp (s2\<lparr>pmem := m1\<rparr>) = Ok () s3" "fs_step k (view s) {} (s1\<lparr>pmem := m1\<rparr>) s3"
      using copyout_block [OF d1(1) s1(1), of dst "ucast c" loc ?bn ?o ok1 loc1 m1] x1 xferout_ok_less [OF xo] by (auto simp: s1 cl(2))
    have st: "fs_step k (view s) {} (s\<lparr>pmem := m1\<rparr>) s3" using fs_step_trans [OF fs_step_more(2) [OF 1(2)] 2(5)] .
    have run: "readi_loop (Suc (Suc f)) ip dst loc off n tot s =
        (if ok1 then readi_loop (Suc f) ip (mref_add dst (unat c)) loc1 (off + c) n (tot + c) s3 else Ok (-1, loc1) s3)"
      unfolding readi_loop.simps(2) [of "Suc f"] using cl(5) at Suc.prems(3)
      by (simp add: kdo_Ok [where m = "bmap _ _", OF 1(1)] kdo_gets s1 kdo_Ok [where m = "bread _ _", OF 2(1)] Let_def c_def [symmetric] 2(2)
          kdo_Ok [where m = "either_copyout _ _ _ _ _", OF 2(3)] kdo_Ok [where m = "brelse _", OF 2(4)] kern_simps del: readi_loop.simps)
    show ?thesis
    proof (cases ok1)
      case False
      then show ?thesis using run st Suc.prems(9) by (auto simp: sp)
    next
      case True
      note d3 = fs_stepD [OF st] and f3 = fs_frame_fields [OF fs_stepD(3) [OF st]]
      have s3: "cpu_proc s3 = Some p" "proc s3 p = proc s p" "pmem s3 = m1" "itable s3 = itable s" "view s3 = view s"
        using f3 Suc.prems(2) d3(2) by simp_all
      have "\<exists>t. readi_loop (Suc f) ip (mref_add dst (unat c)) loc1 (off + c) n (tot + c) s3 = Ok (if ok then n else -1, loc') t \<and>
          fs_step k (view s3) {} (s3\<lparr>pmem := m'\<rparr>) t"
      proof (rule Suc.IH)
        show "mapped (view s3) (i_addrs (itable s3 ip)) (unat (off + c)) m2"
          using mapped_later [of "view s" ?A "unat off" "unat c" m2] Suc.prems(4) m unfolding s3 cl(3) by simp
        show "unat n = unat (tot + c) + m2" "unat (off + c) + m2 < 2 ^ 32" using Suc.prems(5,6) m by (simp_all add: cl(3,4))
        show "m2 = 0 \<or> m2 + unat (off + c) mod BSIZE \<le> f * BSIZE" unfolding m2_def using Suc.prems(7) False by (intro cl(9)) simp
        show "xferout_ok (p_pagetable (proc s3 p)) (mref_add dst (unat c)) (pmem s3) m2"
          unfolding s3 by (rule xferout_split(2) [OF xo, of loc ?F "unat off" loc1]) (use x2 True in simp)
      qed (use d3 s3 Suc.prems sp True in \<open>simp_all add: cl(3)\<close>)
      then obtain t where "readi_loop (Suc f) ip (mref_add dst (unat c)) loc1 (off + c) n (tot + c) s3 = Ok (if ok then n else -1, loc') t"
          "fs_step k (view s) {} (s3\<lparr>pmem := m'\<rparr>) t" by (auto simp: s3)
      moreover have "fs_step k (view s) {} (s\<lparr>pmem := m'\<rparr>) (s3\<lparr>pmem := m'\<rparr>)" using fs_step_more(2) [OF st, of m'] by simp
      ultimately show ?thesis using run True fs_step_trans by auto
    qed
  qed
qed

text \<open>An inode in memory whose file is all there.\<close>

definition file_ok :: "'a fs_st_scheme \<Rightarrow> nat \<Rightarrow> bool" where
  "file_ok s ip \<longleftrightarrow> i_dev (itable s ip) = ROOTDEV \<and> unat (i_size (itable s ip)) \<le> MAXFILE * BSIZE \<and>
     mapped (view s) (i_addrs (itable s ip)) 0 (unat (i_size (itable s ip)))"

text \<open>How many bytes a read of \<open>n\<close> bytes at \<open>off\<close> gets of a file of size \<open>sz\<close>.\<close>

definition read_len :: "uint \<Rightarrow> uint \<Rightarrow> uint \<Rightarrow> nat" where
  "read_len sz off n = (if off > sz \<or> off + n < off then 0 else min (unat n) (unat sz - unat off))"

lemma unat_add_nowrap: "\<not> off + n < off \<Longrightarrow> unat (off + n) = unat off + unat n" for off n :: uint
proof -
  assume a: "\<not> off + n < off"
  show ?thesis
  proof (cases "unat off + unat n < 2 ^ 32")
    case False
    then have "(unat off + unat n) mod 2 ^ 32 = unat off + unat n - 2 ^ 32"
      using unat_uint_lt [of off] unat_uint_lt [of n] by (simp add: le_mod_geq)
    then show ?thesis using a False unat_uint_lt [of n] by (simp add: word_less_nat_alt unat_word_ariths)
  qed (simp add: unat_word_ariths)
qed

lemma sint_small: "unat x < 2 ^ 31 \<Longrightarrow> sint x = int (unat x)" for x :: uint
proof -
  assume "unat x < 2 ^ 31"
  then have u: "uint x < 2 ^ 31" by (simp add: uint_nat del: of_nat_unat)
  have "signed_take_bit 31 (uint x) = uint x" by (rule signed_take_bit_int_eq_self) (use u in \<open>simp_all add: order_trans [OF _ uint_ge_0]\<close>)
  then show ?thesis by (simp add: sint_uint)
qed

lemma mapped_part: "mapped V A 0 z \<Longrightarrow> off + n \<le> z \<Longrightarrow> mapped V A off n"
  unfolding mapped_def by auto

lemma readi_ok:
  assumes r: "fs_ready k s {}" and p: "cpu_proc s = Some p" and f: "file_ok s ip"
    and x: "xferout_ok (p_pagetable (proc s p)) dst (pmem s) (read_len (i_size (itable s ip)) off n)"
    and e: "xferout (p_pagetable (proc s p)) dst loc (pmem s) (fbytes (view s) (i_addrs (itable s ip))) (unat off)
      (read_len (i_size (itable s ip)) off n) = (ok, loc', m')"
  shows "\<exists>t. readi ip dst loc off n s = Ok (if ok then int (read_len (i_size (itable s ip)) off n) else -1, loc') t \<and>
    fs_step k (view s) {} (s\<lparr>pmem := m'\<rparr>) t"
proof -
  let ?sz = "i_size (itable s ip)" and ?A = "i_addrs (itable s ip)"
  let ?m = "read_len ?sz off n"
  show ?thesis
  proof (cases "off > ?sz \<or> off + n < off")
    case True
    then have "?m = 0" by (simp add: read_len_def)
    then show ?thesis using True e fs_step_refl [OF r] by (intro exI [of _ s]) (auto simp: readi_def kern_simps pmem_same)
  next
    case False
    define n' where "n' = (if off + n > ?sz then ?sz - off else n)"
    have nw: "unat (off + n) = unat off + unat n" using False unat_add_nowrap by blast
    have m: "unat n' = ?m" "unat off + ?m \<le> unat ?sz"
      using False nw by (auto simp: n'_def read_len_def word_less_nat_alt unat_sub word_le_nat_alt not_less min_def)
    have sz: "unat ?sz < 2 ^ 31" using f by (simp add: file_ok_def params)
    have "\<exists>t. readi_loop (Suc (unat n' div BSIZE + 2)) ip dst loc off n' 0 s = Ok (if ok then n' else -1, loc') t \<and>
        fs_step k (view s) {} (s\<lparr>pmem := m'\<rparr>) t"
    proof (rule readi_loop_ok [OF r p _ _ _ _ _ x e])
      show "mapped (view s) ?A (unat off) ?m" using f m(2) mapped_part by (auto simp: file_ok_def)
      have "unat n' \<le> (unat n' div BSIZE + 1) * BSIZE" by (simp add: params)
      moreover have "unat off mod BSIZE \<le> BSIZE" by (simp add: params)
      ultimately show "?m = 0 \<or> ?m + unat off mod BSIZE \<le> (unat n' div BSIZE + 2) * BSIZE" unfolding m(1) by (simp add: add_mult_distrib)
    qed (use f m sz in \<open>simp_all add: file_ok_def\<close>)
    then obtain t where t: "readi_loop (Suc (unat n' div BSIZE + 2)) ip dst loc off n' 0 s = Ok (if ok then n' else -1, loc') t"
      "fs_step k (view s) {} (s\<lparr>pmem := m'\<rparr>) t" by blast
    have fu: "unat n' div BSIZE + 3 = Suc (unat n' div BSIZE + 2)" by simp
    have "readi ip dst loc off n s = kdo (readi_loop (unat n' div BSIZE + 3) ip dst loc off n' 0) (\<lambda>tl. ret (sint (fst tl), snd tl)) s"
      using False unfolding readi_def n'_def Let_def kdo_gets by (subst if_not_P) auto
    moreover have "sint n' = int ?m" using m sz sint_small [of n'] by simp
    ultimately have "readi ip dst loc off n s = Ok (if ok then int ?m else -1, loc') t"
      unfolding fu kdo_Ok [where m = "readi_loop _ _ _ _ _ _ _", OF t(1)] by (simp add: kern_simps)
    then show ?thesis using t(2) by blast
  qed
qed

text \<open>
  C23. \<^verbatim>\<open>readi\<close> on a file whose blocks are all there moves exactly the bytes of the file from \<open>off\<close> on, as many as
  asked for and as the file has, to their destination, be it in user memory, in kernel memory or on the kernel stack,
  and returns their number; it returns 0 for an offset beyond the end of the file or a range that wraps
  around.  When a user page is missing or not writable it returns -1, with the bytes before it stored.  No block of the
  file system changes.
\<close>

theorem readi_exact:
  assumes "fs_ready k s {}" and "cpu_proc s = Some p" and "file_ok s ip"
    and "xferout_ok (p_pagetable (proc s p)) dst (pmem s) (read_len (i_size (itable s ip)) off n)"
  shows "case xferout (p_pagetable (proc s p)) dst loc (pmem s) (fbytes (view s) (i_addrs (itable s ip))) (unat off)
      (read_len (i_size (itable s ip)) off n) of (ok, loc', m') \<Rightarrow>
    \<exists>t. readi ip dst loc off n s = Ok (if ok then int (read_len (i_size (itable s ip)) off n) else -1, loc') t \<and>
      fs_step k (view s) {} (s\<lparr>pmem := m'\<rparr>) t"
  using readi_ok [OF assms] by (cases "xferout (p_pagetable (proc s p)) dst loc (pmem s) (fbytes (view s) (i_addrs (itable s ip))) (unat off)
      (read_len (i_size (itable s ip)) off n)") auto

definition ex_files :: "nat \<Rightarrow> inode" where
  "ex_files = (\<lambda>_. zero_inode)(3 := zero_inode\<lparr>i_dev := 1, i_inum := 7, i_type := T_FILE, i_valid := True, i_size := 5,
     i_addrs := (\<lambda>_. 0)(0 := 47)\<rparr>)"

lemma ex_mapped: "mapped ex_blocks (i_addrs (ex_files 3)) 0 5"
  by (auto simp: mapped_def fblock_def ex_files_def params)

theorem readi_exact_witness:
  "\<exists>s t u l. binit ex_fsd = Ok () s \<and> begin_op s = Ok () t \<and> readi 3 (Local 10) (\<lambda>_. 9) 2 100 (t\<lparr>itable := ex_files\<rparr>) = Ok (3, l) u \<and>
     map l [9..<14] = [9, 2, 3, 4, 9]"
proof -
  obtain s t where t: "binit ex_fsd = Ok () s" "begin_op s = Ok () t" "fs_ready 10 t {}" "view t = ex_blocks" "cpu_proc t = Some 0" by (rule ex_txn)
  let ?t = "t\<lparr>itable := ex_files\<rparr>"
  have r: "fs_ready 10 ?t {}" "cpu_proc ?t = Some 0" using t by simp_all
  have f: "file_ok ?t 3" using ex_mapped t(4) by (simp add: file_ok_def ex_files_def params)
  have l: "read_len (i_size (itable ?t 3)) 2 100 = 3" by (simp add: read_len_def ex_files_def)
  note w = readi_exact [OF r f, of "Local 10" 2 100 "\<lambda>_. 9", unfolded l]
  let ?l = "blit (\<lambda>_. 9) 10 (fbytes ex_blocks (i_addrs (ex_files 3))) 2 3"
  obtain u where u: "readi 3 (Local 10) (\<lambda>_. 9) 2 100 ?t = Ok (3, ?l) u" using w t(4) by auto
  have "map ?l [9..<14] = [9, 2, 3, 4, 9]"
    by (simp add: blit_at fbytes_def fblock_def ex_files_def ex_blocks_def params upt_conv_Cons)
  with t(1,2) u show ?thesis by (intro exI [of _ s] exI [of _ t] exI [of _ u] exI [of _ ?l] conjI)
qed

section \<open>Writing\<close>

text \<open>
  \<open>wrote V A off n src V'\<close>: the blocks \<open>V'\<close> are \<open>V\<close> with the bytes of the file from \<open>off\<close> up to \<open>off + n\<close> replaced by \<open>src 0\<close>,
  \<open>src 1\<close>, \<dots>, and no other change.
\<close>

abbreviation in_range :: "nat \<Rightarrow> nat \<Rightarrow> nat \<Rightarrow> bool" where
  "in_range off n k \<equiv> off div BSIZE \<le> k \<and> k * BSIZE < off + n"

definition wrote :: "(uint \<Rightarrow> bytes) \<Rightarrow> (nat \<Rightarrow> uint) \<Rightarrow> nat \<Rightarrow> nat \<Rightarrow> (nat \<Rightarrow> uchar) \<Rightarrow> (uint \<Rightarrow> bytes) \<Rightarrow> bool" where
  "wrote V A off n src V' \<longleftrightarrow>
     (\<forall>bn. (\<forall>k. in_range off n k \<longrightarrow> bn \<noteq> fblock V A k) \<longrightarrow> V' bn = V bn) \<and>
     (\<forall>k i. in_range off n k \<longrightarrow>
        V' (fblock V A k) i =
          (if i < BSIZE \<and> off \<le> k * BSIZE + i \<and> k * BSIZE + i < off + n then src (k * BSIZE + i - off) else V (fblock V A k) i))"

text \<open>The blocks of the range are data blocks of their own.\<close>

definition own_blocks :: "superblock \<Rightarrow> (uint \<Rightarrow> bytes) \<Rightarrow> (nat \<Rightarrow> uint) \<Rightarrow> nat \<Rightarrow> nat \<Rightarrow> bool" where
  "own_blocks S V A off n \<longleftrightarrow> mapped V A off n \<and>
     (\<forall>k. in_range off n k \<longrightarrow> meta_blocks S \<le> unat (fblock V A k) \<and> fblock V A k \<noteq> A NDIRECT \<and>
        (\<forall>j. in_range off n j \<and> j \<noteq> k \<longrightarrow> fblock V A j \<noteq> fblock V A k))"

lemma in_range_split: "in_range off (a + b) k \<longleftrightarrow> in_range off a k \<or> in_range (off + a) b k"
proof -
  have "off div BSIZE \<le> (off + a) div BSIZE" by (simp add: div_le_mono)
  moreover have "off + a \<le> k * BSIZE \<Longrightarrow> (off + a) div BSIZE \<le> k" using div_le_mono [of "off + a" "k * BSIZE" BSIZE] by (simp add: params)
  ultimately show ?thesis by (cases "k * BSIZE < off + a") auto
qed

lemma wrote_fblock:
  assumes "wrote V A off n src V'" and "own_blocks S V A off n"
  shows "fblock V' A k = fblock V A k"
proof -
  have "V' (A NDIRECT) = V (A NDIRECT)" using assms unfolding wrote_def own_blocks_def by metis
  then show ?thesis by (simp add: fblock_def)
qed

lemma own_blocks_part: "own_blocks S V A off (a + b) \<Longrightarrow> own_blocks S V A off a \<and> own_blocks S V A (off + a) b"
  unfolding own_blocks_def mapped_def in_range_split by blast

lemma wrote_trans:
  assumes w1: "wrote V A off a src V1" and w2: "wrote V1 A (off + a) b (\<lambda>i. src (a + i)) V2" and o: "own_blocks S V A off (a + b)"
  shows "wrote V A off (a + b) src V2"
proof -
  have o1: "own_blocks S V A off a" "own_blocks S V A (off + a) b" using own_blocks_part [OF o] by simp_all
  have fb: "fblock V1 A k = fblock V A k" for k using wrote_fblock [OF w1 o1(1)] .
  have inj: "fblock V A j \<noteq> fblock V A k" if "in_range off (a + b) j" "in_range off (a + b) k" "j \<noteq> k" for j k
    using o that unfolding own_blocks_def by blast
  have oth1: "V1 bn = V bn" if "\<And>k. in_range off a k \<Longrightarrow> bn \<noteq> fblock V A k" for bn using w1 that unfolding wrote_def by blast
  have oth2: "V2 bn = V1 bn" if "\<And>k. in_range (off + a) b k \<Longrightarrow> bn \<noteq> fblock V A k" for bn
    using w2 that unfolding wrote_def fb by blast
  have in1: "V1 (fblock V A k) i = (if i < BSIZE \<and> off \<le> k * BSIZE + i \<and> k * BSIZE + i < off + a then src (k * BSIZE + i - off) else V (fblock V A k) i)"
    if "in_range off a k" for k i using w1 that unfolding wrote_def by blast
  have in2: "V2 (fblock V A k) i = (if i < BSIZE \<and> off + a \<le> k * BSIZE + i \<and> k * BSIZE + i < off + a + b
      then src (a + (k * BSIZE + i - (off + a))) else V1 (fblock V A k) i)"
    if "in_range (off + a) b k" for k i using w2 that unfolding wrote_def fb by blast
  show ?thesis unfolding wrote_def
  proof (intro conjI allI impI)
    fix bn assume n: "\<forall>k. in_range off (a + b) k \<longrightarrow> bn \<noteq> fblock V A k"
    have "V2 bn = V1 bn" using n in_range_split by (intro oth2) blast
    also have "\<dots> = V bn" using n in_range_split by (intro oth1) blast
    finally show "V2 bn = V bn" .
  next
    fix k i assume k: "in_range off (a + b) k"
    have e1: "V1 (fblock V A k) = V (fblock V A k)" if "\<not> in_range off a k"
      using k that inj in_range_split by (intro oth1) metis
    have e2: "V2 (fblock V A k) = V1 (fblock V A k)" if "\<not> in_range (off + a) b k"
      using k that inj in_range_split by (intro oth2) metis
    have far: "k * BSIZE + i < off + a" if "\<not> in_range (off + a) b k" "i < BSIZE"
    proof -
      have "k * BSIZE < off + (a + b)" using k by blast
      then have "Suc k \<le> (off + a) div BSIZE" using that(1) by auto
      then have "Suc k * BSIZE \<le> (off + a) div BSIZE * BSIZE" by (rule mult_le_mono1)
      also have "\<dots> \<le> off + a" by simp
      finally show ?thesis using that(2) by simp
    qed
    show "V2 (fblock V A k) i = (if i < BSIZE \<and> off \<le> k * BSIZE + i \<and> k * BSIZE + i < off + (a + b)
        then src (k * BSIZE + i - off) else V (fblock V A k) i)"
    proof (cases "in_range (off + a) b k")
      case True
      have "off div BSIZE \<le> k" using k by blast
      with True show ?thesis using in2 [OF True, of i] in1 [of k i] e1 by (cases "in_range off a k") auto
    next
      case False
      then have "in_range off a k" using k in_range_split by blast
      then show ?thesis using e2 [OF False] in1 [of k i] far [OF False] by auto
    qed
  qed
qed

lemma wrote_src:
  assumes "\<And>i. i < n \<Longrightarrow> src i = src' i" and "wrote V A off n src V'"
  shows "wrote V A off n src' V'"
proof -
  have "src (k * BSIZE + i - off) = src' (k * BSIZE + i - off)" if "off \<le> k * BSIZE + i" "k * BSIZE + i < off + n" for k i
    using that by (intro assms(1)) linarith
  then show ?thesis using assms(2) unfolding wrote_def by auto
qed

lemma wrote_chunk:
  assumes "0 < c" and "off mod BSIZE + c \<le> BSIZE" and "bn = fblock V A (off div BSIZE)"
  shows "wrote V A off c src (V(bn := (\<lambda>i. if off mod BSIZE \<le> i \<and> i < off mod BSIZE + c then src (i - off mod BSIZE) else V bn i)))"
proof -
  have e: "in_range off c k \<longleftrightarrow> k = off div BSIZE" for k
  proof
    assume k: "in_range off c k"
    have "k * BSIZE < off div BSIZE * BSIZE + BSIZE" using k assms(2) div_mult_mod_eq [of off BSIZE] by linarith
    then have "k < Suc (off div BSIZE)" by (metis add.commute mult_Suc mult_less_cancel2)
    then show "k = off div BSIZE" using k by simp
  next
    assume "k = off div BSIZE"
    moreover have "off div BSIZE * BSIZE < off + c" using assms(1) div_mult_mod_eq [of off BSIZE] by linarith
    ultimately show "in_range off c k" by simp
  qed
  have "off div BSIZE * BSIZE + i - off = i - off mod BSIZE" "off \<le> off div BSIZE * BSIZE + i \<longleftrightarrow> off mod BSIZE \<le> i"
    "off div BSIZE * BSIZE + i < off + c \<longleftrightarrow> i < off mod BSIZE + c" for i
    using div_mult_mod_eq [of off BSIZE] by linarith+
  then show ?thesis using assms(2) unfolding wrote_def e by (auto simp: assms(3))
qed

lemma own_not_in_log:
  assumes "fs_ready k s H" and "fs_layout (sb s) (log s)" and "meta_blocks (sb s) \<le> unat bn"
  shows "\<not> in_log (log s) bn"
  using assms log_invD(1) [OF fs_readyD(2) [OF assms(1)]] by (intro layout_not_in_log) (auto simp: meta_blocks_def fs_layout_def)

lemma writei_loop_ok:
  assumes "fs_ready (k + f) s {}" and "cpu_proc s = Some p" and "i_dev (itable s ip) = ROOTDEV" and "fs_layout (sb s) (log s)"
    and "own_blocks (sb s) (view s) (i_addrs (itable s ip)) (unat off) m" and "unat n = unat tot + m" and "unat off + m < 2 ^ 32"
    and "m = 0 \<or> m + unat off mod BSIZE \<le> f * BSIZE"
    and "xferin_len (p_pagetable (proc s p)) src (pmem s) m = m" and "case src of Kern x \<Rightarrow> unat x + m < 2 ^ 64 | _ \<Rightarrow> True"
  shows "\<exists>t V. writei_loop (Suc (f + e)) ip src loc off n tot s = Ok (n, off + of_nat m) t \<and> fs_step k V {} s t \<and>
    wrote (view s) (i_addrs (itable s ip)) (unat off) m (xferin (p_pagetable (proc s p)) src loc (pmem s)) V"
  using assms
proof (induction f arbitrary: s src off tot m)
  case 0
  then have m: "m = 0" by auto
  then have "tot = n" using 0 by (simp add: word_unat_eq_iff)
  then show ?case using 0 m fs_step_refl [of k s "{}"]
    by (intro exI [of _ s] exI [of _ "view s"]) (auto simp: kern_simps wrote_def)
next
  case (Suc f)
  show ?case
  proof (cases "m = 0")
    case True
    then have "tot = n" using Suc.prems by (simp add: word_unat_eq_iff)
    moreover have "fs_ready k s {}" using fs_ready_less [OF Suc.prems(1)] by simp
    ultimately show ?thesis using True fs_step_refl
      by (intro exI [of _ s] exI [of _ "view s"]) (auto simp: kern_simps wrote_def)
  next
    case False
    let ?A = "i_addrs (itable s ip)" and ?pt = "p_pagetable (proc s p)" and ?B = "unat off div BSIZE" and ?o = "unat off mod BSIZE"
    let ?bn = "fblock (view s) ?A ?B" and ?g = "xferin ?pt src loc (pmem s)"
    define c where "c = min (n - tot) (of_nat (BSIZE - ?o) :: uint)"
    have m0: "0 < m" using False by simp
    note cl = chunk_len [OF Suc.prems(6) m0 Suc.prems(7), folded c_def]
    define m2 where "m2 = m - unat c"
    have m: "m = unat c + m2" using cl(8) by (simp add: m2_def)
    have ow: "own_blocks (sb s) (view s) ?A (unat off) (unat c + m2)" using Suc.prems(5) m by simp
    have at: "?B < MAXFILE" "?bn \<noteq> 0" using mapped_at [OF _ m0] Suc.prems(5) unfolding own_blocks_def by blast+
    have big: "meta_blocks (sb s) \<le> unat ?bn"
    proof -
      have "in_range (unat off) m ?B" using m0 div_mult_mod_eq [of "unat off" BSIZE] by (intro conjI) linarith+
      then show ?thesis using Suc.prems(5) unfolding own_blocks_def by blast
    qed
    obtain s1 where 1: "bmap ip (of_nat ?B) s = Ok ?bn s1" "fs_step (k + Suc f) (view s) {} s s1"
      using bmap_mapped [OF Suc.prems(1,3) at] by blast
    note d1 = fs_stepD [OF 1(2)] and f1 = fs_frame_fields [OF fs_stepD(3) [OF 1(2)]]
    have s1: "cpu_proc s1 = Some p" "proc s1 p = proc s p" "pmem s1 = pmem s" "itable s1 = itable s" "view s1 = view s" "sb s1 = sb s"
      using f1 Suc.prems(2) d1(2) by simp_all
    note xs = xferin_split [OF Suc.prems(9,10) [unfolded m]]
    define d' where "d' = (\<lambda>i. if ?o \<le> i \<and> i < ?o + unat c then ?g (i - ?o) else view s ?bn i)"
    have r1: "fs_ready (Suc (k + f)) s1 {}" using d1(1) by simp
    have nl: "\<not> in_log (log s1) ?bn" using own_not_in_log [OF Suc.prems(1,4) big] by (simp add: d1(6))
    obtain bp s2 s3 s4 s5 where 2: "bread ROOTDEV ?bn s1 = Ok bp s2" "b_data (buf s2 bp) = view s1 ?bn" "fs_frame s1 s2"
      "set_data bp (\<lambda>_. d') s2 = Ok () s3" "log_write bp s3 = Ok () s4" "brelse bp s4 = Ok () s5"
      "fs_step (k + f) ((view s1)(?bn := d')) {} s1 s5"
      using fs_rmw [OF r1 no_held nl, of "\<lambda>_. d'"] by metis
    note f2 = fs_frame_fields [OF 2(3)]
    have s2: "cpu_proc s2 = Some p" "proc s2 p = proc s p" "pmem s2 = pmem s" using f2 s1 by simp_all
    have cp: "either_copyin (view s ?bn) ?o src loc (ucast c) s2 = Ok (0, d') s2"
      using either_copyin_at [OF s2(1), of "view s ?bn" ?o src loc "ucast c"] xs(1) unfolding s2(2,3) Let_def cl(2) d'_def by simp
    have st: "fs_step (k + f) ((view s)(?bn := d')) {} s s5" using fs_step_trans [OF 1(2) 2(7)] by (simp add: s1)
    have run: "writei_loop (Suc (Suc f + e)) ip src loc off n tot s = writei_loop (Suc (f + e)) ip (mref_add src (unat c)) loc (off + c) n (tot + c) s5"
      unfolding add_Suc writei_loop.simps(2) [of "Suc (f + e)"] using cl(5) at(2) Suc.prems(3)
      by (simp add: kdo_Ok [where m = "bmap _ _", OF 1(1)] kdo_gets s1 kdo_Ok [where m = "bread _ _", OF 2(1)] Let_def c_def [symmetric] 2(2)
          kdo_Ok [where m = "either_copyin _ _ _ _ _", OF cp] kdo_Ok [where m = "set_data _ _", OF 2(4)] kdo_Ok [where m = "log_write _", OF 2(5)]
          kdo_Ok [where m = "brelse _", OF 2(6)] del: writei_loop.simps)
    have w1: "wrote (view s) ?A (unat off) (unat c) ?g ((view s)(?bn := d'))"
      unfolding d'_def by (rule wrote_chunk [OF cl(7,6) refl])
    note d5 = fs_stepD [OF st] and f5 = fs_frame_fields [OF fs_stepD(3) [OF st]]
    have s5: "cpu_proc s5 = Some p" "proc s5 p = proc s p" "pmem s5 = pmem s" "itable s5 = itable s" "view s5 = (view s)(?bn := d')" "sb s5 = sb s"
      using f5 Suc.prems(2) d5(2) by simp_all
    note o1 = own_blocks_part [OF ow]
    have fb: "fblock (view s5) ?A j = fblock (view s) ?A j" for j unfolding s5(5) using wrote_fblock [OF w1 conjunct1 [OF o1]] .
    have "\<exists>t V. writei_loop (Suc (f + e)) ip (mref_add src (unat c)) loc (off + c) n (tot + c) s5 = Ok (n, off + c + of_nat m2) t \<and> fs_step k V {} s5 t \<and>
        wrote (view s5) (i_addrs (itable s5 ip)) (unat (off + c)) m2 (xferin (p_pagetable (proc s5 p)) (mref_add src (unat c)) loc (pmem s5)) V"
    proof (rule Suc.IH)
      show "own_blocks (sb s5) (view s5) (i_addrs (itable s5 ip)) (unat (off + c)) m2"
        using o1 unfolding cl(3) own_blocks_def mapped_def s5(4,6) fb by blast
      show "unat n = unat (tot + c) + m2" "unat (off + c) + m2 < 2 ^ 32" using Suc.prems(6,7) m by (simp_all add: cl(3,4))
      show "m2 = 0 \<or> m2 + unat (off + c) mod BSIZE \<le> f * BSIZE" unfolding m2_def using Suc.prems(8) False by (intro cl(9)) simp
      show "xferin_len (p_pagetable (proc s5 p)) (mref_add src (unat c)) (pmem s5) m2 = m2" using xs(2) by (simp add: s5)
      show "case mref_add src (unat c) of Kern x \<Rightarrow> unat x + m2 < 2 ^ 64 | _ \<Rightarrow> True"
        using Suc.prems(10) m by (cases src) (auto simp: unat_word_ariths cl(2))
      show "fs_layout (sb s5) (log s5)" using Suc.prems(4) by (simp add: s5 d5(7))
    qed (use d5 s5 Suc.prems in simp_all)
    then obtain t V where t: "writei_loop (Suc (f + e)) ip (mref_add src (unat c)) loc (off + c) n (tot + c) s5 = Ok (n, off + c + of_nat m2) t"
      "fs_step k V {} s5 t"
      "wrote (view s5) ?A (unat off + unat c) m2 (xferin ?pt (mref_add src (unat c)) loc (pmem s)) V" unfolding s5(2,3,4) cl(3) by blast
    have "wrote (view s5) ?A (unat off + unat c) m2 (\<lambda>i. ?g (unat c + i)) V"
      using t(3) wrote_src [of m2 "xferin ?pt (mref_add src (unat c)) loc (pmem s)" "\<lambda>i. ?g (unat c + i)"] xs(3) by blast
    then have "wrote (view s) ?A (unat off) m ?g V" using wrote_trans [OF w1 _ ow] m by (simp add: s5)
    moreover have "off + c + of_nat m2 = off + of_nat m" by (simp add: m)
    ultimately show ?thesis using run t fs_step_trans [OF st] by auto
  qed
qed

text \<open>The number of blocks a write touches.\<close>

definition nblocks :: "nat \<Rightarrow> nat \<Rightarrow> nat" where
  "nblocks off n = (off mod BSIZE + n + BSIZE - 1) div BSIZE"

text \<open>What the inode is once the write is done.\<close>

definition grown :: "uint \<Rightarrow> inode \<Rightarrow> inode" where
  "grown e x = x\<lparr>i_size := max (i_size x) e\<rparr>"

definition write_ok :: "'a fs_st_scheme \<Rightarrow> nat \<Rightarrow> nat \<Rightarrow> mref \<Rightarrow> uint \<Rightarrow> uint \<Rightarrow> bool" where
  "write_ok s p ip src off n \<longleftrightarrow> cpu_proc s = Some p \<and> inode_ok s {} ip \<and> off \<le> i_size (itable s ip) \<and> unat off + unat n \<le> MAXFILE * BSIZE \<and>
     own_blocks (sb s) (view s) (i_addrs (itable s ip)) 0 (max (unat (i_size (itable s ip))) (unat off + unat n)) \<and>
     (i_addrs (itable s ip) NDIRECT = 0 \<or> meta_blocks (sb s) \<le> unat (i_addrs (itable s ip) NDIRECT)) \<and>
     xferin_len (p_pagetable (proc s p)) src (pmem s) (unat n) = unat n \<and> (case src of Kern x \<Rightarrow> unat x + unat n < 2 ^ 64 | _ \<Rightarrow> True)"

lemma writei_ok:
  assumes r: "fs_ready (Suc (k + nblocks (unat off) (unat n))) s {}" and w: "write_ok s p ip src off n"
  defines "x \<equiv> itable s ip" and "S \<equiv> sb s"
  shows "\<exists>t V. writei ip src loc off n s = Ok (int (unat n)) t \<and>
    wrote (view s) (i_addrs x) (unat off) (unat n) (xferin (p_pagetable (proc s p)) src loc (pmem s)) V \<and>
    fs_step k (V(IBLOCK (i_inum x) S := put_dinode (V (IBLOCK (i_inum x) S)) (ioff (i_inum x)) (grown (off + n) x))) {}
      (upd_inode ip (grown (off + n)) s) t"
proof -
  let ?f = "nblocks (unat off) (unat n)"
  have wd: "cpu_proc s = Some p" "inode_ok s {} ip" "off \<le> i_size x" "unat off + unat n \<le> MAXFILE * BSIZE"
    "xferin_len (p_pagetable (proc s p)) src (pmem s) (unat n) = unat n" "case src of Kern x \<Rightarrow> unat x + unat n < 2 ^ 64 | _ \<Rightarrow> True"
    "i_dev x = ROOTDEV" "fs_layout S (log s)" using w by (simp_all add: write_ok_def x_def S_def inode_ok_def)
  have ow: "own_blocks S (view s) (i_addrs x) (unat off) (unat n)"
  proof -
    let ?z = "max (unat (i_size x)) (unat off + unat n)"
    have o: "own_blocks S (view s) (i_addrs x) 0 (unat off + (unat n + (?z - (unat off + unat n))))"
      using w by (simp add: write_ok_def x_def S_def)
    show ?thesis using own_blocks_part [OF conjunct2 [OF own_blocks_part [OF o]]] by simp
  qed
  have small: "unat off + unat n < 2 ^ 31" using wd(4) by (simp add: params)
  then have nw: "\<not> off + n < off" "unat (off + n) = unat off + unat n" by (simp_all add: word_less_nat_alt unat_word_ariths)
  have fu: "?f \<le> unat n div BSIZE + 2"
  proof -
    have "unat off mod BSIZE + unat n + BSIZE - 1 < (unat n div BSIZE + 3) * BSIZE"
      using mod_less_divisor [of BSIZE "unat off"] by (simp add: params)
    then have "(unat off mod BSIZE + unat n + BSIZE - 1) div BSIZE < unat n div BSIZE + 3" by (rule less_mult_imp_div_less)
    then show ?thesis unfolding nblocks_def by linarith
  qed
  define e where "e = unat n div BSIZE + 2 - ?f"
  have fuel: "unat n div BSIZE + 3 = Suc (?f + e)" using fu by (simp add: e_def)
  have r1: "fs_ready (Suc k + ?f) s {}" using r by simp
  have bl: "unat n = 0 \<or> unat n + unat off mod BSIZE \<le> ?f * BSIZE"
    unfolding nblocks_def by (simp add: params) linarith
  obtain s1 V where 1: "writei_loop (Suc (?f + e)) ip src loc off n 0 s = Ok (n, off + n) s1" "fs_step (Suc k) V {} s s1"
    "wrote (view s) (i_addrs x) (unat off) (unat n) (xferin (p_pagetable (proc s p)) src loc (pmem s)) V"
    using writei_loop_ok [OF r1 wd(1) _ _ _ _ _ bl wd(5,6), of ip n 0 e loc] wd(7,8) ow small by (auto simp: x_def S_def)
  note d1 = fs_stepD [OF 1(2)] and f1 = fs_frame_fields [OF fs_stepD(3) [OF 1(2)]]
  define s2 where "s2 = upd_inode ip (grown (off + n)) s1"
  have it: "itable s2 = (itable s)(ip := grown (off + n) x)" "sb s2 = S" using f1 by (simp_all add: s2_def x_def S_def)
  have r2: "fs_ready (Suc k) s2 {}" using d1(1) by (simp add: s2_def)
  have v2: "view s2 = V" "log s2 = log s1" by (simp_all add: s2_def d1(2))
  have o2: "inode_ok s2 {} ip" using wd(2) d1(7) by (simp add: inode_ok_def it v2 held_blocks_def grown_def x_def S_def)
  obtain t where t: "iupdate ip s2 = Ok () t"
    "fs_step k (V(IBLOCK (i_inum x) S := put_dinode (V (IBLOCK (i_inum x) S)) (ioff (i_inum x)) (grown (off + n) x))) {} s2 t"
    using iupdate_ok [OF r2 o2] by (auto simp: it v2 grown_def)
  have sz: "kdo (gets (\<lambda>s. i_size (itable s ip))) (\<lambda>size. kdo (kwhen (off + n > size) (modify (upd_inode ip (\<lambda>x. x\<lparr>i_size := off + n\<rparr>)))) h) s1 = h () s2"
    for h :: "unit \<Rightarrow> ('a fs_st_scheme, int) kern"
  proof (cases "off + n > i_size (itable s1 ip)")
    case True
    then show ?thesis by (simp add: kern_simps s2_def grown_def max_def order_less_imp_le)
  next
    case False
    then have "grown (off + n) (itable s1 ip) = itable s1 ip" by (simp add: grown_def max_def)
    then show ?thesis using False by (simp add: kern_simps s2_def)
  qed
  have g1: "\<not> off + n > of_nat (MAXFILE * BSIZE)" using wd(4) nw(2) by (simp add: word_less_nat_alt params)
  have g2: "\<not> (off > i_size (itable s ip) \<or> off + n < off)" using wd(3) nw(1) by (auto simp: x_def)
  have "writei ip src loc off n s = Ok (sint n) t"
    unfolding writei_def kdo_gets fuel if_not_P [OF g1] if_not_P [OF g2] kdo_Ok [where m = "writei_loop _ _ _ _ _ _ _", OF 1(1)] fst_conv snd_conv
      sz [unfolded kdo_gets] kdo_Ok [where m = "iupdate _", OF t(1)] by (simp add: ret_def)
  then have "writei ip src loc off n s = Ok (int (unat n)) t" using small sint_small [of n] by simp
  moreover have "fs_step k (V(IBLOCK (i_inum x) S := put_dinode (V (IBLOCK (i_inum x) S)) (ioff (i_inum x)) (grown (off + n) x))) {}
      (upd_inode ip (grown (off + n)) s) t"
  proof -
    have "s2 = s1\<lparr>itable := itable s2\<rparr>" by (simp add: s2_def)
    then have "fs_step (Suc k) V {} (s\<lparr>itable := itable s2\<rparr>) s2" using fs_step_more(1) [OF 1(2), of "itable s2"] by simp
    then show ?thesis using fs_step_trans [OF _ t(2)] by (simp add: it x_def)
  qed
  ultimately show ?thesis using 1(3) by blast
qed

text \<open>The contents of the file after a write, when the inode's block is none of its own.\<close>

lemma wrote_content:
  assumes w: "wrote V A off n src V'" and o: "own_blocks S V A 0 z" and z: "off + n \<le> z"
    and b: "unat B < meta_blocks S" "A NDIRECT = 0 \<or> meta_blocks S \<le> unat (A NDIRECT)"
  shows "i < z \<Longrightarrow> fbytes (V'(B := d)) A i = (if off \<le> i \<and> i < off + n then src (i - off) else fbytes V A i)"
    and "bn \<noteq> B \<Longrightarrow> (\<And>k. in_range off n k \<Longrightarrow> bn \<noteq> fblock V A k) \<Longrightarrow> (V'(B := d)) bn = V bn"
    and "fblock (V'(B := d)) A k = fblock V A k"
proof -
  have o1: "own_blocks S V A off n"
    using own_blocks_part [OF conjunct2 [OF own_blocks_part [of S V A 0 off "n + (z - (off + n))"]]] o z by simp
  have big: "meta_blocks S \<le> unat (fblock V A k)" if "in_range off n k" for k using o1 that unfolding own_blocks_def by blast
  show "bn \<noteq> B \<Longrightarrow> (\<And>k. in_range off n k \<Longrightarrow> bn \<noteq> fblock V A k) \<Longrightarrow> (V'(B := d)) bn = V bn"
    using w unfolding wrote_def by simp
  show fb: "fblock (V'(B := d)) A k = fblock V A k" for k
  proof (cases "A NDIRECT = 0")
    case False
    then have "A NDIRECT \<noteq> B" using b by (metis not_less)
    then show ?thesis using wrote_fblock [OF w o1, of k] by (auto simp: fblock_def split: if_splits)
  qed (simp add: fblock_def)
  assume i: "i < z"
  let ?k = "i div BSIZE" and ?o = "i mod BSIZE"
  have io: "?k * BSIZE + ?o = i" "?o < BSIZE" by (simp_all add: params)
  have "?k * BSIZE < z" using i io(1) by linarith
  then have k: "in_range 0 z ?k" by simp
  have nb: "fblock V A ?k \<noteq> B" using o k b(1) unfolding own_blocks_def by (metis not_less)
  have "V' (fblock V A ?k) ?o = (if off \<le> i \<and> i < off + n then src (i - off) else V (fblock V A ?k) ?o)"
  proof (cases "in_range off n ?k")
    case True
    then have "V' (fblock V A ?k) ?o =
        (if ?o < BSIZE \<and> off \<le> ?k * BSIZE + ?o \<and> ?k * BSIZE + ?o < off + n then src (?k * BSIZE + ?o - off) else V (fblock V A ?k) ?o)"
      using w unfolding wrote_def by blast
    then show ?thesis using io by simp
  next
    case False
    have "fblock V A j \<noteq> fblock V A ?k" if "in_range off n j" for j
    proof -
      have "in_range 0 z j" using that z by auto
      then show ?thesis using o k False that unfolding own_blocks_def by metis
    qed
    then have "V' (fblock V A ?k) = V (fblock V A ?k)" using w unfolding wrote_def by metis
    moreover have "\<not> (off \<le> i \<and> i < off + n)"
    proof
      assume "off \<le> i \<and> i < off + n"
      then have "in_range off n ?k" using div_le_mono [of off i BSIZE] le_less_trans [OF div_times_less_eq_dividend, of i "off + n" BSIZE] by simp
      with False show False by blast
    qed
    ultimately show ?thesis by auto
  qed
  then show "fbytes (V'(B := d)) A i = (if off \<le> i \<and> i < off + n then src (i - off) else fbytes V A i)"
    using nb by (simp add: fbytes_def fb)
qed

lemma write_okD:
  assumes "write_ok s p ip src off n"
  shows "fs_layout (sb s) (log s)" "unat (i_inum (itable s ip)) < unat (sb_ninodes (sb s))" "unat (IBLOCK (i_inum (itable s ip)) (sb s)) < meta_blocks (sb s)"
    "own_blocks (sb s) (view s) (i_addrs (itable s ip)) 0 (max (unat (i_size (itable s ip))) (unat off + unat n))"
    "i_addrs (itable s ip) NDIRECT = 0 \<or> meta_blocks (sb s) \<le> unat (i_addrs (itable s ip) NDIRECT)"
proof -
  show l: "fs_layout (sb s) (log s)" and i: "unat (i_inum (itable s ip)) < unat (sb_ninodes (sb s))"
    and "own_blocks (sb s) (view s) (i_addrs (itable s ip)) 0 (max (unat (i_size (itable s ip))) (unat off + unat n))"
    and "i_addrs (itable s ip) NDIRECT = 0 \<or> meta_blocks (sb s) \<le> unat (i_addrs (itable s ip) NDIRECT)"
    using assms by (simp_all add: write_ok_def inode_ok_def)
  show "unat (IBLOCK (i_inum (itable s ip)) (sb s)) < meta_blocks (sb s)" using unat_IBLOCK(2) [OF l i] by (simp add: meta_blocks_def)
qed

text \<open>
  C24. \<^verbatim>\<open>writei\<close> to a file whose blocks are there, in a transaction with room for the blocks it touches and the inode's,
  replaces exactly the bytes from \<open>off\<close> up to \<open>off + n\<close> by the bytes from the source, be it in user memory, in kernel
  memory or on the kernel stack, and returns \<open>n\<close>.  The other bytes of the file and every block that is neither one of those it
  wrote nor the inode's stay as they were; the size grows to the end of the write if that is larger, in memory
  and on disk.
\<close>

theorem writei_exact:
  assumes "fs_ready (Suc (k + nblocks (unat off) (unat n))) s {}" and "write_ok s p ip src off n"
  shows "\<exists>t. writei ip src loc off n s = Ok (int (unat n)) t \<and> fs_ready k t {} \<and> fs_frame (upd_inode ip (grown (off + n)) s) t \<and>
    (\<forall>i<max (unat (i_size (itable s ip))) (unat off + unat n). fbytes (view t) (i_addrs (itable s ip)) i =
       (if unat off \<le> i \<and> i < unat off + unat n then xferin (p_pagetable (proc s p)) src loc (pmem s) (i - unat off)
        else fbytes (view s) (i_addrs (itable s ip)) i)) \<and>
    (\<forall>bn. bn \<noteq> IBLOCK (i_inum (itable s ip)) (sb s) \<and>
       (\<forall>k. in_range (unat off) (unat n) k \<longrightarrow> bn \<noteq> fblock (view s) (i_addrs (itable s ip)) k) \<longrightarrow> view t bn = view s bn) \<and>
    disk_inode (sb s) (view t) (i_inum (itable s ip)) = inode_val (itable t ip)"
proof -
  let ?x = "itable s ip" and ?B = "IBLOCK (i_inum (itable s ip)) (sb s)" and ?g = "xferin (p_pagetable (proc s p)) src loc (pmem s)"
  note wd = write_okD [OF assms(2)]
  obtain t V where t: "writei ip src loc off n s = Ok (int (unat n)) t" "wrote (view s) (i_addrs ?x) (unat off) (unat n) ?g V"
    "fs_step k (V(?B := put_dinode (V ?B) (ioff (i_inum ?x)) (grown (off + n) ?x))) {} (upd_inode ip (grown (off + n)) s) t"
    using writei_ok [OF assms] by blast
  note d = fs_stepD [OF t(3)] and c = wrote_content [OF t(2) wd(4) _ wd(3,5)]
  have "itable t ip = grown (off + n) ?x" using fs_frame_fields(2) [OF d(3)] by simp
  then have "disk_inode (sb s) (view t) (i_inum ?x) = inode_val (itable t ip)"
    using disk_inode_put [OF wd(1,2,2), of V "grown (off + n) ?x"] by (simp add: d(2))
  moreover have "fbytes (view t) (i_addrs ?x) i = (if unat off \<le> i \<and> i < unat off + unat n then ?g (i - unat off) else fbytes (view s) (i_addrs ?x) i)"
    if "i < max (unat (i_size ?x)) (unat off + unat n)" for i unfolding d(2) by (rule c(1) [OF _ that]) simp
  moreover have "view t bn = view s bn" if "bn \<noteq> ?B" "\<forall>k. in_range (unat off) (unat n) k \<longrightarrow> bn \<noteq> fblock (view s) (i_addrs ?x) k" for bn
    unfolding d(2) using that by (intro c(2)) auto
  ultimately show ?thesis using t(1) d(1,3) by blast
qed

lemma ex_write_ok:
  assumes "cpu_proc s = Some 0" and "view s = ex_blocks" and "sb s = ex_sb" and "log_start (log s) = 2" and "log_size (log s) = 30"
  shows "write_ok (s\<lparr>itable := ex_files\<rparr>) 0 3 (Local 0) 4 2"
proof -
  have "fs_layout ex_sb (log s)" using assms(4,5) by (simp add: fs_layout_def ex_sb_def meta_blocks_def params)
  moreover have "own_blocks ex_sb ex_blocks (i_addrs (ex_files 3)) 0 6"
    by (auto simp: own_blocks_def mapped_def fblock_def ex_files_def ex_sb_def meta_blocks_def params)
  ultimately show ?thesis using assms by (simp add: write_ok_def inode_ok_def held_blocks_def) (simp add: ex_files_def zero_inode_def ex_sb_def params)
qed

theorem writei_exact_witness:
  "\<exists>s t u. binit ex_fsd = Ok () s \<and> begin_op s = Ok () t \<and> writei 3 (Local 0) (\<lambda>i. 65 + of_nat i) 4 2 (t\<lparr>itable := ex_files\<rparr>) = Ok 2 u \<and>
     map (fbytes (view u) (i_addrs (ex_files 3))) [0..<6] = [0, 1, 2, 3, 65, 66] \<and> i_size (itable u 3) = 6"
proof -
  obtain s t where t: "binit ex_fsd = Ok () s" "begin_op s = Ok () t" "fs_ready 10 t {}" "view t = ex_blocks" "cpu_proc t = Some 0" "sb t = ex_sb"
    "log t = (log ex_log)\<lparr>log_outstanding := 1\<rparr>" by (rule ex_txn)
  let ?t = "t\<lparr>itable := ex_files\<rparr>"
  have ok: "write_ok ?t 0 3 (Local 0) 4 2" using t by (intro ex_write_ok) simp_all
  have r: "fs_ready (Suc (8 + nblocks (unat (4 :: uint)) (unat (2 :: uint)))) ?t {}" using t(3) by (simp add: nblocks_def params)
  obtain u where u: "writei 3 (Local 0) (\<lambda>i. 65 + of_nat i) 4 2 ?t = Ok 2 u" "fs_frame (upd_inode 3 (grown (4 + 2)) ?t) u"
    "\<And>i. i < 6 \<Longrightarrow> fbytes (view u) (i_addrs (ex_files 3)) i = (if 4 \<le> i \<and> i < 6 then 65 + of_nat (i - 4) else fbytes ex_blocks (i_addrs (ex_files 3)) i)"
    using writei_exact [OF r ok, of "\<lambda>i. 65 + of_nat i"] t(4) by (auto simp: ex_files_def)
  have "map (fbytes (view u) (i_addrs (ex_files 3))) [0..<6] = [0, 1, 2, 3, 65, 66]"
    using u(3) by (simp add: upt_conv_Cons) (simp add: fbytes_def fblock_def ex_files_def ex_blocks_def params)
  moreover have "i_size (itable u 3) = 6" using fs_frame_fields(2) [OF u(2)] by (simp add: grown_def ex_files_def)
  ultimately show ?thesis using t(1,2) u(1) by (intro exI conjI)
qed

text \<open>A disk on which the write is done: the new contents of the file, the new inode, and nothing else changed outside the log.\<close>

definition write_done :: "'a fs_st_scheme \<Rightarrow> nat \<Rightarrow> nat \<Rightarrow> mref \<Rightarrow> bytes \<Rightarrow> uint \<Rightarrow> uint \<Rightarrow> (uint \<Rightarrow> bytes) \<Rightarrow> bool" where
  "write_done s p ip src loc off n D \<longleftrightarrow>
     (\<forall>i<max (unat (i_size (itable s ip))) (unat off + unat n). fbytes D (i_addrs (itable s ip)) i =
        (if unat off \<le> i \<and> i < unat off + unat n then xferin (p_pagetable (proc s p)) src loc (pmem s) (i - unat off)
         else fbytes (view s) (i_addrs (itable s ip)) i)) \<and>
     disk_inode (sb s) D (i_inum (itable s ip)) = inode_val (grown (off + n) (itable s ip)) \<and>
     (\<forall>bn. \<not> in_log (log s) bn \<and> bn \<noteq> IBLOCK (i_inum (itable s ip)) (sb s) \<and>
        (\<forall>k. in_range (unat off) (unat n) k \<longrightarrow> bn \<noteq> fblock (view s) (i_addrs (itable s ip)) k) \<longrightarrow> D bn = view s bn)"

lemma write_done_disk:
  assumes c: "calm s P {}" "log_layout (log s)" and ok: "write_ok s p ip src off n"
    and w: "wrote (view s) (i_addrs (itable s ip)) (unat off) (unat n) (xferin (p_pagetable (proc s p)) src loc (pmem s)) V"
    and B: "B = IBLOCK (i_inum (itable s ip)) (sb s)"
    and D: "\<And>bn. \<not> in_log (log s) bn \<Longrightarrow> D bn = (V(B := put_dinode (V B) (ioff (i_inum (itable s ip))) (grown (off + n) (itable s ip)))) bn"
  shows "write_done s p ip src loc off n D"
proof -
  let ?x = "itable s ip" and ?V = "V(B := put_dinode (V B) (ioff (i_inum (itable s ip))) (grown (off + n) (itable s ip)))" and ?A = "i_addrs (itable s ip)"
  let ?z = "max (unat (i_size ?x)) (unat off + unat n)"
  note wd = write_okD [OF ok]
  note ct = wrote_content [OF w wd(4) max.cobounded2 wd(3) wd(5), folded B]
  have nl: "\<not> in_log (log s) bn" if "unat (sb_inodestart (sb s)) \<le> unat bn" for bn using layout_not_in_log [OF wd(1) c(2) that] .
  have le: "unat (sb_inodestart (sb s)) \<le> meta_blocks (sb s)" using wd(1) by (simp add: fs_layout_def meta_blocks_def)
  have nB: "\<not> in_log (log s) B" unfolding B using unat_IBLOCK(1) [OF wd(1,2)] by (intro nl) simp
  have DB: "D B = ?V B" using D [OF nB] .
  have fbD: "fblock D ?A k = fblock ?V ?A k" for k
  proof (cases "?A NDIRECT = 0")
    case False
    then have "\<not> in_log (log s) (?A NDIRECT)" using wd(5) le by (intro nl) linarith
    then show ?thesis using D by (simp add: fblock_def)
  qed (simp add: fblock_def)
  have "fbytes D ?A i = fbytes ?V ?A i" if "i < ?z" for i
  proof -
    have "i div BSIZE * BSIZE < ?z" using that div_times_less_eq_dividend [of i BSIZE] by linarith
    then have k: "in_range 0 ?z (i div BSIZE)" by simp
    then have "meta_blocks (sb s) \<le> unat (fblock (view s) ?A (i div BSIZE))" using wd(4) unfolding own_blocks_def by blast
    then have "\<not> in_log (log s) (fblock ?V ?A (i div BSIZE))" unfolding ct(3) using le by (intro nl) linarith
    then show ?thesis using D by (simp add: fbytes_def fbD)
  qed
  moreover have "disk_inode (sb s) D (i_inum ?x) = inode_val (grown (off + n) ?x)"
    using disk_inode_put [OF wd(1,2,2), of V "grown (off + n) ?x"] DB unfolding B by (simp add: disk_inode_def)
  moreover have "D bn = view s bn" if "\<not> in_log (log s) bn" "bn \<noteq> B" "\<forall>k. in_range (unat off) (unat n) k \<longrightarrow> bn \<noteq> fblock (view s) ?A k" for bn
    using D [OF that(1)] ct(2) [OF that(2)] that(3) by simp
  ultimately show ?thesis using ct(1) unfolding write_done_def B by auto
qed



end
