(* ===== verification/File.thy ===== *)
theory File
  imports Pipe
begin

text \<open>
  \<^verbatim>\<open>kernel/file.c\<close>: the table of open files and the operations that dispatch on what a file is, with
  \<^verbatim>\<open>pipealloc\<close> of \<^verbatim>\<open>pipe.c\<close> and \<^verbatim>\<open>consoleinit\<close> of \<^verbatim>\<open>console.c\<close>, which fill in its entries.
\<close>

definition NFILE :: nat where [params]: "NFILE = 100"
definition NDEV :: nat where [params]: "NDEV = 10"
definition CONSOLE :: nat where [params]: "CONSOLE = 1"

datatype ftype = FD_NONE | FD_PIPE | FD_INODE | FD_DEVICE

record kfile =
  f_type :: ftype
  f_ref :: int
  f_readable :: bool
  f_writable :: bool
  f_pipe :: uint64
  f_ip :: "nat option"
  f_off :: uint
  f_major :: ushort

text \<open>
  The device switch holds function pointers; the ones the kernel ever stores there are the console's.
\<close>

datatype dev_read = Consoleread
datatype dev_write = Consolewrite

record devsw =
  dsw_read :: "dev_read option"
  dsw_write :: "dev_write option"

record file_st = pipe_st +
  ftable :: "nat \<Rightarrow> kfile"
  devsw :: "nat \<Rightarrow> devsw"
  stack_junk :: bytes

abbreviation upd_file :: "nat \<Rightarrow> (kfile \<Rightarrow> kfile) \<Rightarrow> 'a file_st_scheme \<Rightarrow> 'a file_st_scheme" where
  "upd_file f g s \<equiv> s\<lparr>ftable := (ftable s)(f := g (ftable s f))\<rparr>"

fun call_read :: "dev_read \<Rightarrow> mref \<Rightarrow> int \<Rightarrow> ('a file_st_scheme, int) kern" where
  "call_read Consoleread dst n = kdo (consoleread dst (\<lambda>_. 0) n) (\<lambda>r. ret (fst r))"

fun call_write :: "dev_write \<Rightarrow> mref \<Rightarrow> int \<Rightarrow> ('a file_st_scheme, int) kern" where
  "call_write Consolewrite src n = consolewrite src (\<lambda>_. 0) n"

definition consoleinit :: "('a file_st_scheme, unit) kern" where
  "consoleinit =
     kdo uartinit (\<lambda>_.
     kdo (modify (\<lambda>s. s\<lparr>devsw := (devsw s)(CONSOLE := (devsw s CONSOLE)\<lparr>dsw_read := Some Consoleread\<rparr>)\<rparr>)) (\<lambda>_.
     modify (\<lambda>s. s\<lparr>devsw := (devsw s)(CONSOLE := (devsw s CONSOLE)\<lparr>dsw_write := Some Consolewrite\<rparr>)\<rparr>)))"

section \<open>The file table\<close>

definition filealloc :: "('a file_st_scheme, nat option) kern" where
  "filealloc =
     kdo (acquire Ftable_lock) (\<lambda>_.
     kdo (gets ftable) (\<lambda>T.
       case find (\<lambda>f. f_ref (T f) = 0) [0..<NFILE] of
         Some f \<Rightarrow>
           kdo (modify (upd_file f (\<lambda>x. x\<lparr>f_ref := 1\<rparr>))) (\<lambda>_.
           kdo (release Ftable_lock) (\<lambda>_.
           ret (Some f)))
       | None \<Rightarrow> kdo (release Ftable_lock) (\<lambda>_. ret None)))"

definition filedup :: "nat \<Rightarrow> ('a file_st_scheme, nat) kern" where
  "filedup f =
     kdo (acquire Ftable_lock) (\<lambda>_.
     kdo (gets (\<lambda>s. f_ref (ftable s f))) (\<lambda>r.
       if r < 1 then panic ''filedup''
       else
         kdo (modify (upd_file f (\<lambda>x. x\<lparr>f_ref := f_ref x + 1\<rparr>))) (\<lambda>_.
         kdo (release Ftable_lock) (\<lambda>_.
         ret f))))"

text \<open>What \<^verbatim>\<open>fileclose\<close> does with its copy of the last reference, the lock given back.\<close>

definition fileclose_last :: "kfile \<Rightarrow> ('a file_st_scheme, unit) kern" where
  "fileclose_last ff = (case f_type ff of
       FD_PIPE \<Rightarrow> pipeclose (f_pipe ff) (f_writable ff)
     | FD_NONE \<Rightarrow> ret ()
     | _ \<Rightarrow>
         kdo begin_op (\<lambda>_.
         kdo (case f_ip ff of None \<Rightarrow> panic ''kerneltrap'' | Some ip \<Rightarrow> iput ip) (\<lambda>_.
         end_op)))"

definition fileclose :: "nat \<Rightarrow> ('a file_st_scheme, unit) kern" where
  "fileclose f =
     kdo (acquire Ftable_lock) (\<lambda>_.
     kdo (gets (\<lambda>s. f_ref (ftable s f))) (\<lambda>r.
       if r < 1 then panic ''fileclose''
       else
         kdo (modify (upd_file f (\<lambda>x. x\<lparr>f_ref := f_ref x - 1\<rparr>))) (\<lambda>_.
         kdo (gets (\<lambda>s. ftable s f)) (\<lambda>ff.
           if f_ref ff > 0 then release Ftable_lock
           else
             kdo (modify (upd_file f (\<lambda>x. x\<lparr>f_ref := 0, f_type := FD_NONE\<rparr>))) (\<lambda>_.
             kdo (release Ftable_lock) (\<lambda>_.
             fileclose_last ff))))))"

section \<open>Operations on open files\<close>

text \<open>
  The bytes of a \<^verbatim>\<open>struct stat\<close>: 24, of which four are padding between \<^verbatim>\<open>nlink\<close> and \<^verbatim>\<open>size\<close> that the code never
  sets; the field \<open>stack_junk\<close> of the state is what the kernel stack held where \<^verbatim>\<open>st\<close> lies.
\<close>

definition put_stat :: "bytes \<Rightarrow> stat \<Rightarrow> bytes" where
  "put_stat stack st =
     put64 (put16 (put16 (put32 (put32 stack 0 (st_dev st)) 4 (st_ino st)) 8 (st_type st)) 10 (st_nlink st))
       16 (st_size st)"

definition filestat :: "nat \<Rightarrow> uint64 \<Rightarrow> ('a file_st_scheme, int) kern" where
  "filestat f addr =
     kdo curproc (\<lambda>p.
     kdo (gets (\<lambda>s. ftable s f)) (\<lambda>x.
       if f_type x = FD_INODE \<or> f_type x = FD_DEVICE then
         kdo (ilock (f_ip x)) (\<lambda>_.
         kdo (stati (the (f_ip x))) (\<lambda>st.
         kdo (iunlock (f_ip x)) (\<lambda>_.
         kdo (gets (\<lambda>s. p_pagetable (proc s p))) (\<lambda>pt.
         kdo (gets stack_junk) (\<lambda>stack.
         kdo (copyout pt addr (put_stat stack st) 24) (\<lambda>r.
           if r < 0 then ret (-1) else ret 0))))))
       else ret (-1)))"

text \<open>A major device number is a signed short.\<close>

definition major_ok :: "ushort \<Rightarrow> bool" where
  "major_ok m \<longleftrightarrow> \<not> (sint m < 0 \<or> sint m \<ge> int NDEV)"

definition fileread :: "nat \<Rightarrow> uint64 \<Rightarrow> int \<Rightarrow> ('a file_st_scheme, int) kern" where
  "fileread f addr n =
     kdo (gets (\<lambda>s. ftable s f)) (\<lambda>x.
       if \<not> f_readable x then ret (-1)
       else case f_type x of
         FD_PIPE \<Rightarrow> piperead (f_pipe x) addr n
       | FD_DEVICE \<Rightarrow>
           if \<not> major_ok (f_major x) then ret (-1)
           else
             kdo (gets (\<lambda>s. dsw_read (devsw s (nat (sint (f_major x)))))) (\<lambda>h.
               case h of None \<Rightarrow> ret (-1) | Some r \<Rightarrow> call_read r (User addr) n)
       | FD_INODE \<Rightarrow>
           kdo (ilock (f_ip x)) (\<lambda>_.
           kdo (readi (the (f_ip x)) (User addr) (\<lambda>_. 0) (f_off x) (word_of_int n)) (\<lambda>r.
           kdo (kwhen (fst r > 0) (modify (upd_file f (\<lambda>x. x\<lparr>f_off := f_off x + word_of_int (fst r)\<rparr>)))) (\<lambda>_.
           kdo (iunlock (f_ip x)) (\<lambda>_.
           ret (fst r)))))
       | FD_NONE \<Rightarrow> panic ''fileread'')"

text \<open>
  The loop of \<^verbatim>\<open>filewrite\<close> on an inode, with \<open>i\<close> bytes written; it gives how far it came.  Each round but the
  last writes \<open>filewrite_max\<close> bytes, which fixes its fuel.
\<close>

definition filewrite_max :: int where [params]:
  "filewrite_max = (int MAXOPBLOCKS - 1 - 1 - 2) div 2 * int BSIZE"

primrec filewrite_loop :: "nat \<Rightarrow> nat \<Rightarrow> uint64 \<Rightarrow> int \<Rightarrow> int \<Rightarrow> ('a file_st_scheme, int) kern" where
  "filewrite_loop 0 f addr n i = diverge"
| "filewrite_loop (Suc fuel) f addr n i =
     (if i < n then
        let n1 = (if n - i > filewrite_max then filewrite_max else n - i) in
        kdo begin_op (\<lambda>_.
        kdo (gets (\<lambda>s. f_ip (ftable s f))) (\<lambda>ip.
        kdo (ilock ip) (\<lambda>_.
        kdo (gets (\<lambda>s. f_off (ftable s f))) (\<lambda>off.
        kdo (writei (the ip) (User (addr + word_of_int i)) (\<lambda>_. 0) off (word_of_int n1)) (\<lambda>r.
        kdo (kwhen (r > 0) (modify (upd_file f (\<lambda>x. x\<lparr>f_off := f_off x + word_of_int r\<rparr>)))) (\<lambda>_.
        kdo (iunlock ip) (\<lambda>_.
        kdo end_op (\<lambda>_.
          if r \<noteq> n1 then ret i
          else filewrite_loop fuel f addr n (i + r)))))))))
      else ret i)"

definition filewrite :: "nat \<Rightarrow> uint64 \<Rightarrow> int \<Rightarrow> ('a file_st_scheme, int) kern" where
  "filewrite f addr n =
     kdo (gets (\<lambda>s. ftable s f)) (\<lambda>x.
       if \<not> f_writable x then ret (-1)
       else case f_type x of
         FD_PIPE \<Rightarrow> pipewrite (f_pipe x) addr n
       | FD_DEVICE \<Rightarrow>
           if \<not> major_ok (f_major x) then ret (-1)
           else
             kdo (gets (\<lambda>s. dsw_write (devsw s (nat (sint (f_major x)))))) (\<lambda>h.
               case h of None \<Rightarrow> ret (-1) | Some w \<Rightarrow> call_write w (User addr) n)
       | FD_INODE \<Rightarrow>
           kdo (filewrite_loop (nat n div nat filewrite_max + 2) f addr n 0) (\<lambda>i.
           ret (if i = n then n else -1))
       | FD_NONE \<Rightarrow> panic ''filewrite'')"

section \<open>Making a pipe\<close>

text \<open>The label \<^verbatim>\<open>bad\<close> of \<^verbatim>\<open>pipealloc\<close>: no page was allocated when the code gets there.\<close>

definition pipealloc_bad :: "nat option \<Rightarrow> nat option \<Rightarrow> ('a file_st_scheme, (nat \<times> nat) option) kern" where
  "pipealloc_bad f0 f1 =
     kdo (case f0 of None \<Rightarrow> ret () | Some f \<Rightarrow> fileclose f) (\<lambda>_.
     kdo (case f1 of None \<Rightarrow> ret () | Some f \<Rightarrow> fileclose f) (\<lambda>_.
     ret None))"

text \<open>\<^verbatim>\<open>pipealloc\<close> gives the two files, or \<^term>\<open>None\<close> for -1.\<close>

definition pipealloc :: "('a file_st_scheme, (nat \<times> nat) option) kern" where
  "pipealloc =
     kdo filealloc (\<lambda>f0. case f0 of
       None \<Rightarrow> pipealloc_bad None None
     | Some r \<Rightarrow>
         kdo filealloc (\<lambda>f1. case f1 of
           None \<Rightarrow> pipealloc_bad (Some r) None
         | Some w \<Rightarrow>
             kdo kalloc (\<lambda>pi.
               if pi = 0 then pipealloc_bad (Some r) (Some w)
               else
                 kdo (modify (upd_pipe pi (\<lambda>x. x\<lparr>pi_readopen := True, pi_writeopen := True, pi_nwrite := 0, pi_nread := 0\<rparr>))) (\<lambda>_.
                 kdo (modify (upd_file r (\<lambda>x. x\<lparr>f_type := FD_PIPE, f_readable := True, f_writable := False, f_pipe := pi\<rparr>))) (\<lambda>_.
                 kdo (modify (upd_file w (\<lambda>x. x\<lparr>f_type := FD_PIPE, f_readable := False, f_writable := True, f_pipe := pi\<rparr>))) (\<lambda>_.
                 ret (Some (r, w))))))))"

end
