(* ===== verification/Proc.thy ===== *)
theory Proc
  imports File
begin

text \<open>
  The rest of \<^verbatim>\<open>kernel/proc.c\<close>: creating, growing, forking, ending and collecting processes, and the scheduler.
  A process is an index into the process table.  The trapframe of a process is a page, so its fields are
  words of physical memory at the offsets \<^verbatim>\<open>proc.h\<close> lists.
\<close>

section \<open>Trapframes\<close>

text \<open>Addresses of code that the linker gives, and the flag that \<^verbatim>\<open>forkret\<close> keeps.\<close>

record proc_st = file_st +
  sym_trampoline :: uint64
  sym_forkret :: uint64
  forkret_first :: bool

definition TF_KERNEL_SATP :: nat where "TF_KERNEL_SATP = 0"
definition TF_KERNEL_SP :: nat where "TF_KERNEL_SP = 8"
definition TF_KERNEL_TRAP :: nat where "TF_KERNEL_TRAP = 16"
definition TF_EPC :: nat where "TF_EPC = 24"
definition TF_KERNEL_HARTID :: nat where "TF_KERNEL_HARTID = 32"
definition TF_SP :: nat where "TF_SP = 48"
definition TF_A :: "nat \<Rightarrow> nat" where "TF_A k = 112 + 8 * k"

definition TF_SIZE :: nat where "TF_SIZE = 288"

text \<open>Reading and writing \<^verbatim>\<open>p->trapframe->f\<close>.\<close>

definition tf_get :: "nat \<Rightarrow> nat \<Rightarrow> ('a proc_st_scheme, uint64) kern" where
  "tf_get p f = gets (\<lambda>s. get64 (pmem s) (unat (p_trapframe (proc s p)) + f))"

definition tf_set :: "nat \<Rightarrow> nat \<Rightarrow> uint64 \<Rightarrow> ('a proc_st_scheme, unit) kern" where
  "tf_set p f v = modify (\<lambda>s. s\<lparr>pmem := put64 (pmem s) (unat (p_trapframe (proc s p)) + f) v\<rparr>)"

section \<open>Creating a process\<close>

definition procinit :: "('a proc_st_scheme, unit) kern" where
  "procinit = for_each [0..<NPROC] (\<lambda>p. modify (upd_proc p (\<lambda>q. q\<lparr>p_state := UNUSED, p_kstack := KSTACK p\<rparr>)))"

definition proc_pagetable :: "nat \<Rightarrow> ('a proc_st_scheme, uint64) kern" where
  "proc_pagetable p =
     kdo uvmcreate (\<lambda>pagetable.
       if pagetable = 0 then ret 0
       else
         kdo (gets sym_trampoline) (\<lambda>trampoline.
         kdo (mappages pagetable TRAMPOLINE 4096 trampoline (PTE_R OR PTE_X)) (\<lambda>r.
           if r < 0 then kdo (uvmfree pagetable 0) (\<lambda>_. ret 0)
           else
             kdo (gets (\<lambda>s. p_trapframe (proc s p))) (\<lambda>tf.
             kdo (mappages pagetable TRAPFRAME 4096 tf (PTE_R OR PTE_W)) (\<lambda>r.
               if r < 0 then
                 kdo (uvmunmap pagetable TRAMPOLINE 1 False) (\<lambda>_.
                 kdo (uvmfree pagetable 0) (\<lambda>_.
                 ret 0))
               else ret pagetable)))))"

definition proc_freepagetable :: "uint64 \<Rightarrow> uint64 \<Rightarrow> ('a proc_st_scheme, unit) kern" where
  "proc_freepagetable pagetable sz =
     kdo (uvmunmap pagetable TRAMPOLINE 1 False) (\<lambda>_.
     kdo (uvmunmap pagetable TRAPFRAME 1 False) (\<lambda>_.
     uvmfree pagetable sz))"

definition freeproc :: "nat \<Rightarrow> ('a proc_st_scheme, unit) kern" where
  "freeproc p =
     kdo (gets (\<lambda>s. proc s p)) (\<lambda>q.
     kdo (kwhen (p_trapframe q \<noteq> 0) (kfree (p_trapframe q))) (\<lambda>_.
     kdo (modify (upd_proc p (\<lambda>q. q\<lparr>p_trapframe := 0\<rparr>))) (\<lambda>_.
     kdo (kwhen (p_pagetable q \<noteq> 0) (proc_freepagetable (p_pagetable q) (p_sz q))) (\<lambda>_.
     modify (upd_proc p (\<lambda>q. q\<lparr>p_pagetable := 0, p_sz := 0, p_pid := 0, p_parent := None,
                                p_name := (p_name q)(0 := 0), p_chan := None, p_killed := False,
                                p_xstate := 0, p_state := UNUSED\<rparr>))))))"

text \<open>The part of \<^verbatim>\<open>allocproc\<close> after its label \<^verbatim>\<open>found\<close>.\<close>

definition allocproc_found :: "nat \<Rightarrow> ('a proc_st_scheme, nat option) kern" where
  "allocproc_found p =
     kdo allocpid (\<lambda>pid.
     kdo (modify (upd_proc p (\<lambda>q. q\<lparr>p_pid := pid, p_state := USED\<rparr>))) (\<lambda>_.
     kdo kalloc (\<lambda>tf.
     kdo (modify (upd_proc p (\<lambda>q. q\<lparr>p_trapframe := tf\<rparr>))) (\<lambda>_.
       if tf = 0 then
         kdo (freeproc p) (\<lambda>_.
         kdo (release (Proc_lock p)) (\<lambda>_.
         ret None))
       else
         kdo (proc_pagetable p) (\<lambda>pt.
         kdo (modify (upd_proc p (\<lambda>q. q\<lparr>p_pagetable := pt\<rparr>))) (\<lambda>_.
           if pt = 0 then
             kdo (freeproc p) (\<lambda>_.
             kdo (release (Proc_lock p)) (\<lambda>_.
             ret None))
           else
             kdo (gets sym_forkret) (\<lambda>forkret.
             kdo (modify (upd_proc p (\<lambda>q. q\<lparr>p_context := \<lparr>ctx_ra = forkret, ctx_sp = p_kstack q + 4096, ctx_s = \<lambda>_. 0\<rparr>\<rparr>))) (\<lambda>_.
             ret (Some p)))))))))"

definition allocproc :: "('a proc_st_scheme, nat option) kern" where
  "allocproc =
     kdo (scan [0..<NPROC] (\<lambda>p.
            kdo (acquire (Proc_lock p)) (\<lambda>_.
            kdo (gets (\<lambda>s. p_state (proc s p))) (\<lambda>st.
              if st = UNUSED then ret (Some p)
              else kdo (release (Proc_lock p)) (\<lambda>_. ret None))))) (\<lambda>r.
       case r of None \<Rightarrow> ret None | Some p \<Rightarrow> allocproc_found p)"

text \<open>A string literal, as the bytes of a C string.\<close>

definition cstr :: "string \<Rightarrow> bytes" where
  "cstr cs = (\<lambda>i. if i < length cs then of_char (cs ! i) else 0)"

definition initcode :: "uchar list" where
  "initcode = [
     0x17, 0x05, 0x00, 0x00, 0x13, 0x05, 0x45, 0x02,
     0x97, 0x05, 0x00, 0x00, 0x93, 0x85, 0x35, 0x02,
     0x93, 0x08, 0x70, 0x00, 0x73, 0x00, 0x00, 0x00,
     0x93, 0x08, 0x20, 0x00, 0x73, 0x00, 0x00, 0x00,
     0xef, 0xf0, 0x9f, 0xff, 0x2f, 0x69, 0x6e, 0x69,
     0x74, 0x00, 0x00, 0x24, 0x00, 0x00, 0x00, 0x00,
     0x00, 0x00, 0x00, 0x00]"

definition userinit :: "('a proc_st_scheme, unit) kern" where
  "userinit =
     kdo allocproc (\<lambda>r.
     kdo (modify (\<lambda>s. s\<lparr>initproc := r\<rparr>)) (\<lambda>_.
       case r of
         None \<Rightarrow> panic ''kerneltrap''
       | Some p \<Rightarrow>
           kdo (gets (\<lambda>s. p_pagetable (proc s p))) (\<lambda>pt.
           kdo (uvmfirst pt (\<lambda>i. initcode ! i) (length initcode)) (\<lambda>_.
           kdo (modify (upd_proc p (\<lambda>q. q\<lparr>p_sz := 4096\<rparr>))) (\<lambda>_.
           kdo (tf_set p TF_EPC 0) (\<lambda>_.
           kdo (tf_set p TF_SP 4096) (\<lambda>_.
           kdo (modify (upd_proc p (\<lambda>q. q\<lparr>p_name := safestrcpy (p_name q) 0 (cstr ''initcode'') 0 16\<rparr>))) (\<lambda>_.
           kdo (namei [slash]) (\<lambda>ip.
           kdo (modify (upd_proc p (\<lambda>q. q\<lparr>p_cwd := ip\<rparr>))) (\<lambda>_.
           kdo (modify (upd_proc p (\<lambda>q. q\<lparr>p_state := RUNNABLE\<rparr>))) (\<lambda>_.
           release (Proc_lock p))))))))))))"

definition growproc :: "int \<Rightarrow> ('a proc_st_scheme, int) kern" where
  "growproc n =
     kdo curproc (\<lambda>p.
     kdo (gets (\<lambda>s. proc s p)) (\<lambda>q.
       if n > 0 then
         kdo (uvmalloc (p_pagetable q) (p_sz q) (p_sz q + word_of_int n) PTE_W) (\<lambda>sz.
           if sz = 0 then ret (-1)
           else kdo (modify (upd_proc p (\<lambda>q. q\<lparr>p_sz := sz\<rparr>))) (\<lambda>_. ret 0))
       else if n < 0 then
         kdo (uvmdealloc (p_pagetable q) (p_sz q) (p_sz q + word_of_int n)) (\<lambda>sz.
         kdo (modify (upd_proc p (\<lambda>q. q\<lparr>p_sz := sz\<rparr>))) (\<lambda>_. ret 0))
       else ret 0))"

section \<open>Fork\<close>

text \<open>Copying the parent's open files and current directory to the child.\<close>

definition fork_file :: "nat \<Rightarrow> nat \<Rightarrow> nat \<Rightarrow> ('a proc_st_scheme, unit) kern" where
  "fork_file p np i =
     kdo (gets (\<lambda>s. p_ofile (proc s p) i)) (\<lambda>f. case f of
       None \<Rightarrow> ret ()
     | Some f \<Rightarrow>
         kdo (filedup f) (\<lambda>f.
         modify (upd_proc np (\<lambda>q. q\<lparr>p_ofile := (p_ofile q)(i := Some f)\<rparr>))))"

definition fork_cwd :: "nat \<Rightarrow> nat \<Rightarrow> ('a proc_st_scheme, unit) kern" where
  "fork_cwd p np =
     kdo (gets (\<lambda>s. p_cwd (proc s p))) (\<lambda>cwd. case cwd of
       None \<Rightarrow> panic ''kerneltrap''
     | Some i \<Rightarrow>
         kdo (idup i) (\<lambda>i.
         modify (upd_proc np (\<lambda>q. q\<lparr>p_cwd := Some i\<rparr>))))"

definition fork :: "('a proc_st_scheme, int) kern" where
  "fork =
     kdo curproc (\<lambda>p.
     kdo allocproc (\<lambda>r. case r of
       None \<Rightarrow> ret (-1)
     | Some np \<Rightarrow>
         kdo (gets (\<lambda>s. proc s p)) (\<lambda>q.
         kdo (gets (\<lambda>s. p_pagetable (proc s np))) (\<lambda>npt.
         kdo (uvmcopy (p_pagetable q) npt (p_sz q)) (\<lambda>r.
           if r < 0 then
             kdo (freeproc np) (\<lambda>_.
             kdo (release (Proc_lock np)) (\<lambda>_.
             ret (-1)))
           else
             kdo (modify (upd_proc np (\<lambda>x. x\<lparr>p_sz := p_sz q\<rparr>))) (\<lambda>_.
             kdo (modify (\<lambda>s. s\<lparr>pmem := memmove (pmem s) (unat (p_trapframe (proc s np)))
                                                 (unat (p_trapframe (proc s p))) TF_SIZE\<rparr>)) (\<lambda>_.
             kdo (tf_set np (TF_A 0) 0) (\<lambda>_.
             kdo (for_each [0..<NOFILE] (fork_file p np)) (\<lambda>_.
             kdo (fork_cwd p np) (\<lambda>_.
             kdo (modify (\<lambda>s. upd_proc np (\<lambda>x. x\<lparr>p_name := safestrcpy (p_name x) 0 (p_name (proc s p)) 0 16\<rparr>) s)) (\<lambda>_.
             kdo (gets (\<lambda>s. p_pid (proc s np))) (\<lambda>pid.
             kdo (release (Proc_lock np)) (\<lambda>_.
             kdo (acquire Wait_lock) (\<lambda>_.
             kdo (modify (upd_proc np (\<lambda>x. x\<lparr>p_parent := Some p\<rparr>))) (\<lambda>_.
             kdo (release Wait_lock) (\<lambda>_.
             kdo (acquire (Proc_lock np)) (\<lambda>_.
             kdo (modify (upd_proc np (\<lambda>x. x\<lparr>p_state := RUNNABLE\<rparr>))) (\<lambda>_.
             kdo (release (Proc_lock np)) (\<lambda>_.
             ret pid)))))))))))))))))))"

section \<open>Exit and wait\<close>

text \<open>
  A process that waits sleeps on its own table entry.  No process sleeps on the null channel, so that waking a
  null pointer wakes nobody.
\<close>

definition wakeup_proc :: "nat option \<Rightarrow> ('a proc_st_scheme, unit) kern" where
  "wakeup_proc p = (case p of None \<Rightarrow> ret () | Some p \<Rightarrow> wakeup (Chan_proc p))"

definition reparent :: "nat \<Rightarrow> ('a proc_st_scheme, unit) kern" where
  "reparent p =
     for_each [0..<NPROC] (\<lambda>pp.
       kdo (gets (\<lambda>s. p_parent (proc s pp))) (\<lambda>parent.
       kwhen (parent = Some p)
         (kdo (gets initproc) (\<lambda>i.
          kdo (modify (upd_proc pp (\<lambda>q. q\<lparr>p_parent := i\<rparr>))) (\<lambda>_.
          wakeup_proc i)))))"

definition exit_file :: "nat \<Rightarrow> nat \<Rightarrow> ('a proc_st_scheme, unit) kern" where
  "exit_file p fd =
     kdo (gets (\<lambda>s. p_ofile (proc s p) fd)) (\<lambda>f. case f of
       None \<Rightarrow> ret ()
     | Some f \<Rightarrow>
         kdo (fileclose f) (\<lambda>_.
         modify (upd_proc p (\<lambda>q. q\<lparr>p_ofile := (p_ofile q)(fd := None)\<rparr>))))"

definition exit :: "int \<Rightarrow> ('a proc_st_scheme, 'b) kern" where
  "exit status =
     kdo curproc (\<lambda>p.
     kdo (gets initproc) (\<lambda>i.
       if Some p = i then panic ''init exiting''
       else
         kdo (for_each [0..<NOFILE] (exit_file p)) (\<lambda>_.
         kdo begin_op (\<lambda>_.
         kdo (gets (\<lambda>s. p_cwd (proc s p))) (\<lambda>cwd.
         kdo (case cwd of None \<Rightarrow> panic ''kerneltrap'' | Some i \<Rightarrow> iput i) (\<lambda>_.
         kdo end_op (\<lambda>_.
         kdo (modify (upd_proc p (\<lambda>q. q\<lparr>p_cwd := None\<rparr>))) (\<lambda>_.
         kdo (acquire Wait_lock) (\<lambda>_.
         kdo (reparent p) (\<lambda>_.
         kdo (gets (\<lambda>s. p_parent (proc s p))) (\<lambda>parent.
         kdo (wakeup_proc parent) (\<lambda>_.
         kdo (acquire (Proc_lock p)) (\<lambda>_.
         kdo (modify (upd_proc p (\<lambda>q. q\<lparr>p_xstate := status, p_state := ZOMBIE\<rparr>))) (\<lambda>_.
         kdo (release Wait_lock) (\<lambda>_.
         kdo sched (\<lambda>_ :: unit.
         panic ''zombie exit''))))))))))))))))"

text \<open>The search of \<^verbatim>\<open>wait\<close> through the table, at entry \<open>pp\<close>: \<^term>\<open>Some r\<close> to return \<open>r\<close>.\<close>

definition wait_child :: "nat \<Rightarrow> uint64 \<Rightarrow> nat \<Rightarrow> ('a proc_st_scheme, int option) kern" where
  "wait_child p addr pp =
     kdo (gets (\<lambda>s. p_parent (proc s pp))) (\<lambda>parent.
       if parent = Some p then
         kdo (acquire (Proc_lock pp)) (\<lambda>_.
         kdo (gets (\<lambda>s. proc s pp)) (\<lambda>q.
           if p_state q = ZOMBIE then
             kdo (if addr \<noteq> 0 then
                    kdo (gets (\<lambda>s. p_pagetable (proc s p))) (\<lambda>pt.
                    copyout pt addr (put32 (\<lambda>_. 0) 0 (word_of_int (p_xstate q))) 4)
                  else ret 0) (\<lambda>r.
               if addr \<noteq> 0 \<and> r < 0 then
                 kdo (release (Proc_lock pp)) (\<lambda>_.
                 kdo (release Wait_lock) (\<lambda>_.
                 ret (Some (-1))))
               else
                 kdo (freeproc pp) (\<lambda>_.
                 kdo (release (Proc_lock pp)) (\<lambda>_.
                 kdo (release Wait_lock) (\<lambda>_.
                 ret (Some (p_pid q))))))
           else kdo (release (Proc_lock pp)) (\<lambda>_. ret None)))
       else ret None)"

definition wait_loop :: "nat \<Rightarrow> uint64 \<Rightarrow> ('a proc_st_scheme, int) kern" where
  "wait_loop p addr =
     kdo (scan [0..<NPROC] (wait_child p addr)) (\<lambda>r. case r of
       Some v \<Rightarrow> ret v
     | None \<Rightarrow>
         kdo (gets (\<lambda>s. list_ex (\<lambda>pp. p_parent (proc s pp) = Some p) [0..<NPROC])) (\<lambda>havekids.
         kdo (if havekids then killed p else ret True) (\<lambda>stop.
           if stop then kdo (release Wait_lock) (\<lambda>_. ret (-1))
           else sleep (Chan_proc p) Wait_lock)))"

definition wait :: "uint64 \<Rightarrow> ('a proc_st_scheme, int) kern" where
  "wait addr =
     kdo curproc (\<lambda>p.
     kdo (acquire Wait_lock) (\<lambda>_.
     wait_loop p addr))"

section \<open>The scheduler\<close>

text \<open>
  The body of the scheduler's loop for one table entry, up to its \<^verbatim>\<open>swtch\<close>; it gives whether it switched to the
  process, which then runs with its lock held by this CPU.  When the process switches back the scheduler goes
  on as \<open>scheduler_back\<close>.
\<close>

definition scheduler_try :: "nat \<Rightarrow> ('a proc_st_scheme, bool) kern" where
  "scheduler_try p =
     kdo (acquire (Proc_lock p)) (\<lambda>_.
     kdo (gets (\<lambda>s. p_state (proc s p))) (\<lambda>st.
       if st = RUNNABLE then
         kdo (modify (upd_proc p (\<lambda>q. q\<lparr>p_state := RUNNING\<rparr>))) (\<lambda>_.
         kdo (modify (\<lambda>s. s\<lparr>cpu_proc := Some p\<rparr>)) (\<lambda>_.
         ret True))
       else kdo (release (Proc_lock p)) (\<lambda>_. ret False)))"

definition scheduler_back :: "nat \<Rightarrow> ('a proc_st_scheme, unit) kern" where
  "scheduler_back p =
     kdo (modify (\<lambda>s. s\<lparr>cpu_proc := None\<rparr>)) (\<lambda>_.
     release (Proc_lock p))"

end
