(* ===== verification/Exec.thy ===== *)
theory Exec
  imports Proc
begin

text \<open>
  \<^verbatim>\<open>kernel/exec.c\<close>, with the ELF structures of \<^verbatim>\<open>elf.h\<close> read from the bytes of the file.  The argument vector is the
  list of the pages that hold the strings, without the null pointer that ends the array.
\<close>

definition MAXARG :: nat where [params]: "MAXARG = 32"
definition ELF_MAGIC :: uint where [params]: "ELF_MAGIC = 0x464C457F"
definition ELF_PROG_LOAD :: uint where [params]: "ELF_PROG_LOAD = 1"

text \<open>The fields of \<^verbatim>\<open>struct elfhdr\<close> (64 bytes) and \<^verbatim>\<open>struct proghdr\<close> (56 bytes) that the code uses.\<close>

record elfhdr =
  eh_magic :: uint
  eh_entry :: uint64
  eh_phoff :: uint64
  eh_phnum :: ushort

record proghdr =
  ph_type :: uint
  ph_flags :: uint
  ph_off :: uint64
  ph_vaddr :: uint64
  ph_filesz :: uint64
  ph_memsz :: uint64

definition get_elfhdr :: "bytes \<Rightarrow> elfhdr" where
  "get_elfhdr d = \<lparr>eh_magic = get32 d 0, eh_entry = get64 d 24, eh_phoff = get64 d 32, eh_phnum = get16 d 56\<rparr>"

definition get_proghdr :: "bytes \<Rightarrow> proghdr" where
  "get_proghdr d = \<lparr>ph_type = get32 d 0, ph_flags = get32 d 4, ph_off = get64 d 8, ph_vaddr = get64 d 16,
     ph_filesz = get64 d 32, ph_memsz = get64 d 40\<rparr>"

definition flags2perm :: "uint \<Rightarrow> uint64" where
  "flags2perm flags =
     (let perm = (if flags AND 1 \<noteq> 0 then PTE_X else 0)
      in if flags AND 2 \<noteq> 0 then perm OR PTE_W else perm)"

text \<open>\<^verbatim>\<open>loadseg\<close>, one page at a time; the first page that cannot be read ends it with -1.\<close>

definition loadseg_page :: "uint64 \<Rightarrow> uint64 \<Rightarrow> nat \<Rightarrow> uint \<Rightarrow> uint \<Rightarrow> nat \<Rightarrow> ('a proc_st_scheme, int option) kern" where
  "loadseg_page pagetable va ip offset sz i =
     kdo (walkaddr pagetable (va + of_nat i)) (\<lambda>pa.
       if pa = 0 then panic ''loadseg: address should exist''
       else
         let n = (if sz - of_nat i < 4096 then sz - of_nat i else 4096) in
         kdo (readi ip (Kern pa) (\<lambda>_. 0) (offset + of_nat i) n) (\<lambda>r.
         ret (if word_of_int (fst r) \<noteq> n then Some (-1) else None)))"

definition loadseg :: "uint64 \<Rightarrow> uint64 \<Rightarrow> nat \<Rightarrow> uint \<Rightarrow> uint \<Rightarrow> ('a proc_st_scheme, int) kern" where
  "loadseg pagetable va ip offset sz =
     kdo (scan (map (\<lambda>k. k * PGSIZE) [0..<(unat sz + PGSIZE - 1) div PGSIZE]) (loadseg_page pagetable va ip offset sz)) (\<lambda>r.
     ret (case r of Some v \<Rightarrow> v | None \<Rightarrow> 0))"

text \<open>The label \<^verbatim>\<open>bad\<close>.\<close>

definition exec_bad :: "uint64 \<Rightarrow> uint64 \<Rightarrow> nat option \<Rightarrow> ('a proc_st_scheme, int) kern" where
  "exec_bad pagetable sz ip =
     kdo (kwhen (pagetable \<noteq> 0) (proc_freepagetable pagetable sz)) (\<lambda>_.
     kdo (case ip of
            None \<Rightarrow> ret ()
          | Some ip \<Rightarrow> kdo (iunlockput ip) (\<lambda>_. end_op)) (\<lambda>_.
     ret (-1)))"

text \<open>
  The loop over the program headers, with \<open>k\<close> headers left, the next one at \<open>off\<close>.  It gives the size reached, and
  whether all went well.
\<close>

primrec exec_load :: "nat \<Rightarrow> uint64 \<Rightarrow> nat \<Rightarrow> uint \<Rightarrow> uint64 \<Rightarrow> ('a proc_st_scheme, bool \<times> uint64) kern" where
  "exec_load 0 pagetable ip off sz = ret (True, sz)"
| "exec_load (Suc k) pagetable ip off sz =
     kdo (readi ip (Local 0) (\<lambda>_. 0) off 56) (\<lambda>r.
       if fst r \<noteq> 56 then ret (False, sz)
       else
         let ph = get_proghdr (snd r) in
         if ph_type ph \<noteq> ELF_PROG_LOAD then exec_load k pagetable ip (off + 56) sz
         else if ph_memsz ph < ph_filesz ph then ret (False, sz)
         else if ph_vaddr ph + ph_memsz ph < ph_vaddr ph then ret (False, sz)
         else if ph_vaddr ph mod 4096 \<noteq> 0 then ret (False, sz)
         else
           kdo (uvmalloc pagetable sz (ph_vaddr ph + ph_memsz ph) (flags2perm (ph_flags ph))) (\<lambda>sz1.
             if sz1 = 0 then ret (False, sz)
             else
               kdo (loadseg pagetable (ph_vaddr ph) ip (ucast (ph_off ph)) (ucast (ph_filesz ph))) (\<lambda>l.
                 if l < 0 then ret (False, sz1)
                 else exec_load k pagetable ip (off + 56) sz1)))"

text \<open>
  The loop that pushes the argument strings: the pages of the strings still to push, the addresses pushed, and
  the stack pointer.  \<^term>\<open>None\<close> stands for \<^verbatim>\<open>goto bad\<close>.
\<close>

primrec exec_args :: "uint64 list \<Rightarrow> uint64 \<Rightarrow> uint64 \<Rightarrow> uint64 list \<Rightarrow> uint64 \<Rightarrow> ('a proc_st_scheme, (uint64 list \<times> uint64) option) kern" where
  "exec_args [] pagetable stackbase ustack sp = ret (Some (ustack, sp))"
| "exec_args (a # argv) pagetable stackbase ustack sp =
     (if length ustack \<ge> MAXARG then ret None
      else
        kdo (gets pmem) (\<lambda>m.
          case strlen m (unat a) 0 of
            None \<Rightarrow> diverge
          | Some len \<Rightarrow>
              let sp1 = sp - of_nat (len + 1); sp2 = sp1 - sp1 mod 16 in
              if sp2 < stackbase then ret None
              else
                kdo (copyout pagetable sp2 (\<lambda>i. m (unat a + i)) (of_nat (len + 1))) (\<lambda>r.
                  if r < 0 then ret None
                  else exec_args argv pagetable stackbase (ustack @ [sp2]) sp2)))"

text \<open>The bytes of an array of pointers.\<close>

definition put_ptrs :: "uint64 list \<Rightarrow> bytes" where
  "put_ptrs xs = fold (\<lambda>k d. put64 d (8 * k) (xs ! k)) [0..<length xs] (\<lambda>_. 0)"

text \<open>The program's name: what follows the last slash of the path.\<close>

definition basename :: "uchar list \<Rightarrow> uchar list" where
  "basename path = rev (takeWhile (\<lambda>c. c \<noteq> slash) (rev path))"

text \<open>From the point where the new image is loaded and the file closed.\<close>

definition exec_stack :: "uchar list \<Rightarrow> uint64 list \<Rightarrow> uint64 \<Rightarrow> uint64 \<Rightarrow> uint64 \<Rightarrow> ('a proc_st_scheme, int) kern" where
  "exec_stack path argv pagetable pc sz0 =
     kdo curproc (\<lambda>p.
     kdo (gets (\<lambda>s. p_sz (proc s p))) (\<lambda>oldsz.
     let sz = PGROUNDUP sz0 in
     kdo (uvmalloc pagetable sz (sz + 2 * 4096) PTE_W) (\<lambda>sz1.
       if sz1 = 0 then exec_bad pagetable sz None
       else
         kdo (uvmclear pagetable (sz1 - 2 * 4096)) (\<lambda>_.
         let stackbase = sz1 - 4096 in
         kdo (exec_args argv pagetable stackbase [] sz1) (\<lambda>r. case r of
           None \<Rightarrow> exec_bad pagetable sz1 None
         | Some (ustack, sp) \<Rightarrow>
             let argc = length ustack; sp1 = sp - of_nat ((argc + 1) * 8); sp2 = sp1 - sp1 mod 16 in
             if sp2 < stackbase then exec_bad pagetable sz1 None
             else
               kdo (copyout pagetable sp2 (put_ptrs (ustack @ [0])) (of_nat ((argc + 1) * 8))) (\<lambda>r.
                 if r < 0 then exec_bad pagetable sz1 None
                 else
                   kdo (tf_set p (TF_A 1) sp2) (\<lambda>_.
                   kdo (modify (upd_proc p (\<lambda>q. q\<lparr>p_name := safestrcpy (p_name q) 0 (put_str (\<lambda>_. 0) (basename path)) 0 16\<rparr>))) (\<lambda>_.
                   kdo (gets (\<lambda>s. p_pagetable (proc s p))) (\<lambda>oldpagetable.
                   kdo (modify (upd_proc p (\<lambda>q. q\<lparr>p_pagetable := pagetable, p_sz := sz1\<rparr>))) (\<lambda>_.
                   kdo (tf_set p TF_EPC pc) (\<lambda>_.
                   kdo (tf_set p TF_SP sp2) (\<lambda>_.
                   kdo (proc_freepagetable oldpagetable oldsz) (\<lambda>_.
                   ret (int argc))))))))))))))"

definition exec :: "uchar list \<Rightarrow> uint64 list \<Rightarrow> ('a proc_st_scheme, int) kern" where
  "exec path argv =
     kdo curproc (\<lambda>p.
     kdo begin_op (\<lambda>_.
     kdo (namei path) (\<lambda>r. case r of
       None \<Rightarrow> kdo end_op (\<lambda>_. ret (-1))
     | Some ip \<Rightarrow>
         kdo (ilock (Some ip)) (\<lambda>_.
         kdo (readi ip (Local 0) (\<lambda>_. 0) 0 64) (\<lambda>r.
           let elf = get_elfhdr (snd r) in
           if fst r \<noteq> 64 then exec_bad 0 0 (Some ip)
           else if eh_magic elf \<noteq> ELF_MAGIC then exec_bad 0 0 (Some ip)
           else
             kdo (proc_pagetable p) (\<lambda>pagetable.
               if pagetable = 0 then exec_bad 0 0 (Some ip)
               else
                 kdo (exec_load (unat (eh_phnum elf)) pagetable ip (ucast (eh_phoff elf)) 0) (\<lambda>l.
                   if \<not> fst l then exec_bad pagetable (snd l) (Some ip)
                   else
                     kdo (iunlockput ip) (\<lambda>_.
                     kdo end_op (\<lambda>_.
                     exec_stack path argv pagetable (eh_entry elf) (snd l))))))))))"

end
