(* ===== verification/Sysfile.thy ===== *)
theory Sysfile
  imports Exec Fcntl
begin

text \<open>
  The system calls on files (\<^verbatim>\<open>kernel/sysfile.c\<close>) and the functions of \<^verbatim>\<open>kernel/syscall.c\<close> that fetch their
  arguments.  A call gives the value it puts in the caller's register \<^verbatim>\<open>a0\<close>; -1 is all ones.
\<close>

section \<open>Arguments\<close>

definition MAXPATH :: nat where [params]: "MAXPATH = 128"

definition fetchaddr :: "uint64 \<Rightarrow> ('a proc_st_scheme, uint64 option) kern" where
  "fetchaddr addr =
     kdo curproc (\<lambda>p.
     kdo (gets (\<lambda>s. proc s p)) (\<lambda>q.
       if addr \<ge> p_sz q \<or> addr + 8 > p_sz q then ret None
       else
         kdo (copyin (p_pagetable q) (\<lambda>_. 0) addr 8) (\<lambda>r.
         ret (if fst r \<noteq> 0 then None else Some (get64 (snd r) 0)))))"

text \<open>\<^verbatim>\<open>fetchstr\<close> gives its result and the new bytes of the buffer.\<close>

definition fetchstr :: "uint64 \<Rightarrow> bytes \<Rightarrow> nat \<Rightarrow> ('a proc_st_scheme, int \<times> bytes) kern" where
  "fetchstr addr dst max' =
     kdo curproc (\<lambda>p.
     kdo (gets (\<lambda>s. p_pagetable (proc s p))) (\<lambda>pt.
     kdo (copyinstr pt dst addr (of_nat max')) (\<lambda>r.
       if fst r < 0 then ret (-1, snd r)
       else case strlen (snd r) 0 0 of
         None \<Rightarrow> diverge
       | Some n \<Rightarrow> ret (int n, snd r))))"

definition argraw :: "int \<Rightarrow> ('a proc_st_scheme, uint64) kern" where
  "argraw n =
     kdo curproc (\<lambda>p.
       if 0 \<le> n \<and> n \<le> 5 then tf_get p (TF_A (nat n)) else panic ''argraw'')"

definition argint :: "int \<Rightarrow> ('a proc_st_scheme, int) kern" where
  "argint n = kdo (argraw n) (\<lambda>v. ret (sint (ucast v :: uint)))"

definition argaddr :: "int \<Rightarrow> ('a proc_st_scheme, uint64) kern" where
  "argaddr n = argraw n"

definition argstr :: "int \<Rightarrow> bytes \<Rightarrow> nat \<Rightarrow> ('a proc_st_scheme, int \<times> bytes) kern" where
  "argstr n dst max' = kdo (argaddr n) (\<lambda>addr. fetchstr addr dst max')"

text \<open>A path argument: \<^verbatim>\<open>argstr\<close> into an array of \<^verbatim>\<open>MAXPATH\<close> bytes, as the list of the bytes before the NUL.\<close>

definition argpath :: "int \<Rightarrow> ('a proc_st_scheme, uchar list option) kern" where
  "argpath n =
     kdo (argstr n (\<lambda>_. 0) MAXPATH) (\<lambda>r.
     ret (if fst r < 0 then None else Some (map (snd r) [0..<nat (fst r)])))"

definition argfd :: "int \<Rightarrow> ('a proc_st_scheme, (nat \<times> nat) option) kern" where
  "argfd n =
     kdo (argint n) (\<lambda>fd.
       if fd < 0 \<or> fd \<ge> int NOFILE then ret None
       else
         kdo curproc (\<lambda>p.
         kdo (gets (\<lambda>s. p_ofile (proc s p) (nat fd))) (\<lambda>f.
         ret (case f of None \<Rightarrow> None | Some f \<Rightarrow> Some (nat fd, f)))))"

definition fdalloc :: "nat \<Rightarrow> ('a proc_st_scheme, nat option) kern" where
  "fdalloc f =
     kdo curproc (\<lambda>p.
     kdo (gets (\<lambda>s. p_ofile (proc s p))) (\<lambda>ofile.
       case find (\<lambda>fd. ofile fd = None) [0..<NOFILE] of
         None \<Rightarrow> ret None
       | Some fd \<Rightarrow>
           kdo (modify (upd_proc p (\<lambda>q. q\<lparr>p_ofile := (p_ofile q)(fd := Some f)\<rparr>))) (\<lambda>_.
           ret (Some fd))))"

section \<open>Calls on open files\<close>

definition sys_dup :: "('a proc_st_scheme, uint64) kern" where
  "sys_dup =
     kdo (argfd 0) (\<lambda>a. case a of
       None \<Rightarrow> ret (-1)
     | Some (_, f) \<Rightarrow>
         kdo (fdalloc f) (\<lambda>r. case r of
           None \<Rightarrow> ret (-1)
         | Some fd \<Rightarrow> kdo (filedup f) (\<lambda>_. ret (of_nat fd))))"

definition sys_read :: "('a proc_st_scheme, uint64) kern" where
  "sys_read =
     kdo (argaddr 1) (\<lambda>p.
     kdo (argint 2) (\<lambda>n.
     kdo (argfd 0) (\<lambda>a. case a of
       None \<Rightarrow> ret (-1)
     | Some (_, f) \<Rightarrow> kdo (fileread f p n) (\<lambda>r. ret (word_of_int r)))))"

definition sys_write :: "('a proc_st_scheme, uint64) kern" where
  "sys_write =
     kdo (argaddr 1) (\<lambda>p.
     kdo (argint 2) (\<lambda>n.
     kdo (argfd 0) (\<lambda>a. case a of
       None \<Rightarrow> ret (-1)
     | Some (_, f) \<Rightarrow> kdo (filewrite f p n) (\<lambda>r. ret (word_of_int r)))))"

definition clear_fd :: "nat \<Rightarrow> ('a proc_st_scheme, unit) kern" where
  "clear_fd fd =
     kdo curproc (\<lambda>p.
     modify (upd_proc p (\<lambda>q. q\<lparr>p_ofile := (p_ofile q)(fd := None)\<rparr>)))"

definition sys_close :: "('a proc_st_scheme, uint64) kern" where
  "sys_close =
     kdo (argfd 0) (\<lambda>a. case a of
       None \<Rightarrow> ret (-1)
     | Some (fd, f) \<Rightarrow>
         kdo (clear_fd fd) (\<lambda>_.
         kdo (fileclose f) (\<lambda>_.
         ret 0)))"

definition sys_fstat :: "('a proc_st_scheme, uint64) kern" where
  "sys_fstat =
     kdo (argaddr 1) (\<lambda>st.
     kdo (argfd 0) (\<lambda>a. case a of
       None \<Rightarrow> ret (-1)
     | Some (_, f) \<Rightarrow> kdo (filestat f st) (\<lambda>r. ret (word_of_int r))))"

section \<open>Calls on path names\<close>

text \<open>The error exit most calls share: drop the inode, end the operation, return -1.\<close>

definition end_op_fail :: "('a proc_st_scheme, uint64) kern" where
  "end_op_fail = kdo end_op (\<lambda>_. ret (-1))"

definition put_fail :: "nat \<Rightarrow> ('a proc_st_scheme, uint64) kern" where
  "put_fail ip = kdo (iunlockput ip) (\<lambda>_. end_op_fail)"

definition sys_link_bad :: "nat \<Rightarrow> ('a proc_st_scheme, uint64) kern" where
  "sys_link_bad ip =
     kdo (ilock (Some ip)) (\<lambda>_.
     kdo (modify (upd_inode ip (\<lambda>x. x\<lparr>i_nlink := i_nlink x - 1\<rparr>))) (\<lambda>_.
     kdo (iupdate ip) (\<lambda>_.
     put_fail ip)))"

definition sys_link :: "('a proc_st_scheme, uint64) kern" where
  "sys_link =
     kdo (argpath 0) (\<lambda>old. case old of None \<Rightarrow> ret (-1) | Some old \<Rightarrow>
     kdo (argpath 1) (\<lambda>new. case new of None \<Rightarrow> ret (-1) | Some new \<Rightarrow>
     kdo begin_op (\<lambda>_.
     kdo (namei old) (\<lambda>r. case r of
       None \<Rightarrow> end_op_fail
     | Some ip \<Rightarrow>
         kdo (ilock (Some ip)) (\<lambda>_.
         kdo (gets (\<lambda>s. i_type (itable s ip))) (\<lambda>t.
           if t = T_DIR then put_fail ip
           else
             kdo (modify (upd_inode ip (\<lambda>x. x\<lparr>i_nlink := i_nlink x + 1\<rparr>))) (\<lambda>_.
             kdo (iupdate ip) (\<lambda>_.
             kdo (iunlock (Some ip)) (\<lambda>_.
             kdo (nameiparent new (\<lambda>_. 0)) (\<lambda>r. case fst r of
               None \<Rightarrow> sys_link_bad ip
             | Some dp \<Rightarrow>
                 kdo (ilock (Some dp)) (\<lambda>_.
                 kdo (gets (\<lambda>s. itable s ip)) (\<lambda>x.
                 kdo (gets (\<lambda>s. i_dev (itable s dp))) (\<lambda>dpdev.
                 kdo (if dpdev \<noteq> i_dev x then ret (-1) else dirlink dp (snd r) (i_inum x)) (\<lambda>l.
                   if l < 0 then kdo (iunlockput dp) (\<lambda>_. sys_link_bad ip)
                   else
                     kdo (iunlockput dp) (\<lambda>_.
                     kdo (iput ip) (\<lambda>_.
                     kdo end_op (\<lambda>_.
                     ret 0)))))))))))))))))"

text \<open>\<^verbatim>\<open>isdirempty\<close> looks at the entries from the third on.\<close>

definition isdirempty :: "nat \<Rightarrow> ('a proc_st_scheme, bool) kern" where
  "isdirempty dp =
     kdo (gets (\<lambda>s. i_size (itable s dp))) (\<lambda>sz.
     kdo (scan (drop 2 (dir_offs sz)) (\<lambda>off.
            kdo (readi dp (Local 0) (\<lambda>_. 0) (of_nat off) 16) (\<lambda>rd.
              if fst rd \<noteq> 16 then panic ''isdirempty: readi''
              else if de_inum (snd rd) \<noteq> 0 then ret (Some False)
              else ret None))) (\<lambda>r.
     ret (case r of Some b \<Rightarrow> b | None \<Rightarrow> True)))"

definition sys_unlink :: "('a proc_st_scheme, uint64) kern" where
  "sys_unlink =
     kdo (argpath 0) (\<lambda>path. case path of None \<Rightarrow> ret (-1) | Some path \<Rightarrow>
     kdo begin_op (\<lambda>_.
     kdo (nameiparent path (\<lambda>_. 0)) (\<lambda>r. case fst r of
       None \<Rightarrow> end_op_fail
     | Some dp \<Rightarrow>
         let name = snd r in
         kdo (ilock (Some dp)) (\<lambda>_.
           if namecmp name (cstr ''.'') = 0 \<or> namecmp name (cstr ''..'') = 0 then put_fail dp
           else
             kdo (dirlookup dp name) (\<lambda>r. case r of
               None \<Rightarrow> put_fail dp
             | Some (ip, off) \<Rightarrow>
                 kdo (ilock (Some ip)) (\<lambda>_.
                 kdo (gets (\<lambda>s. itable s ip)) (\<lambda>x.
                   if sint (i_nlink x) < 1 then panic ''unlink: nlink < 1''
                   else
                     kdo (if i_type x = T_DIR then isdirempty ip else ret True) (\<lambda>empty.
                       if \<not> empty then kdo (iunlockput ip) (\<lambda>_. put_fail dp)
                       else
                         kdo (writei dp (Local 0) (memset (\<lambda>_. 0) 0 0 16) off 16) (\<lambda>w.
                           if w \<noteq> 16 then panic ''unlink: writei''
                           else
                             kdo (kwhen (i_type x = T_DIR)
                                    (kdo (modify (upd_inode dp (\<lambda>y. y\<lparr>i_nlink := i_nlink y - 1\<rparr>))) (\<lambda>_.
                                     iupdate dp))) (\<lambda>_.
                             kdo (iunlockput dp) (\<lambda>_.
                             kdo (modify (upd_inode ip (\<lambda>y. y\<lparr>i_nlink := i_nlink y - 1\<rparr>))) (\<lambda>_.
                             kdo (iupdate ip) (\<lambda>_.
                             kdo (iunlockput ip) (\<lambda>_.
                             kdo end_op (\<lambda>_.
                             ret 0)))))))))))))))"

text \<open>The label \<^verbatim>\<open>fail\<close> of \<^verbatim>\<open>create\<close>.\<close>

definition create_fail :: "nat \<Rightarrow> nat \<Rightarrow> ('a proc_st_scheme, nat option) kern" where
  "create_fail ip dp =
     kdo (modify (upd_inode ip (\<lambda>x. x\<lparr>i_nlink := 0\<rparr>))) (\<lambda>_.
     kdo (iupdate ip) (\<lambda>_.
     kdo (iunlockput ip) (\<lambda>_.
     kdo (iunlockput dp) (\<lambda>_.
     ret None))))"

definition create_dots :: "nat \<Rightarrow> nat \<Rightarrow> ('a proc_st_scheme, bool) kern" where
  "create_dots ip dp =
     kdo (gets (\<lambda>s. i_inum (itable s ip))) (\<lambda>inum.
     kdo (dirlink ip (cstr ''.'') inum) (\<lambda>r.
       if r < 0 then ret False
       else
         kdo (gets (\<lambda>s. i_inum (itable s dp))) (\<lambda>dinum.
         kdo (dirlink ip (cstr ''..'') dinum) (\<lambda>r.
         ret (\<not> r < 0)))))"

definition create :: "uchar list \<Rightarrow> ushort \<Rightarrow> ushort \<Rightarrow> ushort \<Rightarrow> ('a proc_st_scheme, nat option) kern" where
  "create path type major minor =
     kdo (nameiparent path (\<lambda>_. 0)) (\<lambda>r. case fst r of
       None \<Rightarrow> ret None
     | Some dp \<Rightarrow>
         let name = snd r in
         kdo (ilock (Some dp)) (\<lambda>_.
         kdo (dirlookup dp name) (\<lambda>r. case r of
           Some (ip, _) \<Rightarrow>
             kdo (iunlockput dp) (\<lambda>_.
             kdo (ilock (Some ip)) (\<lambda>_.
             kdo (gets (\<lambda>s. i_type (itable s ip))) (\<lambda>t.
               if type = T_FILE \<and> (t = T_FILE \<or> t = T_DEVICE) then ret (Some ip)
               else kdo (iunlockput ip) (\<lambda>_. ret None))))
         | None \<Rightarrow>
             kdo (gets (\<lambda>s. i_dev (itable s dp))) (\<lambda>dev.
             kdo (ialloc dev type) (\<lambda>r. case r of
               None \<Rightarrow> kdo (iunlockput dp) (\<lambda>_. ret None)
             | Some ip \<Rightarrow>
                 kdo (ilock (Some ip)) (\<lambda>_.
                 kdo (modify (upd_inode ip (\<lambda>x. x\<lparr>i_major := major, i_minor := minor, i_nlink := 1\<rparr>))) (\<lambda>_.
                 kdo (iupdate ip) (\<lambda>_.
                 kdo (if type = T_DIR then create_dots ip dp else ret True) (\<lambda>ok.
                   if \<not> ok then create_fail ip dp
                   else
                     kdo (gets (\<lambda>s. i_inum (itable s ip))) (\<lambda>inum.
                     kdo (dirlink dp name inum) (\<lambda>l.
                       if l < 0 then create_fail ip dp
                       else
                         kdo (kwhen (type = T_DIR)
                                (kdo (modify (upd_inode dp (\<lambda>x. x\<lparr>i_nlink := i_nlink x + 1\<rparr>))) (\<lambda>_.
                                 iupdate dp))) (\<lambda>_.
                         kdo (iunlockput dp) (\<lambda>_.
                         ret (Some ip))))))))))))))"

section \<open>Opening\<close>

text \<open>The file that an open call makes, and the rest of \<^verbatim>\<open>sys_open\<close> once its inode is found and locked.\<close>

definition open_file :: "uint \<Rightarrow> nat \<Rightarrow> inode \<Rightarrow> kfile \<Rightarrow> kfile" where
  "open_file omode ip x f =
     (if i_type x = T_DEVICE then f\<lparr>f_type := FD_DEVICE, f_major := i_major x\<rparr>
      else f\<lparr>f_type := FD_INODE, f_off := 0\<rparr>)
     \<lparr>f_ip := Some ip, f_readable := (omode AND O_WRONLY = 0),
      f_writable := (omode AND O_WRONLY \<noteq> 0 \<or> omode AND O_RDWR \<noteq> 0)\<rparr>"

definition sys_open_inode :: "uint \<Rightarrow> nat \<Rightarrow> ('a proc_st_scheme, uint64) kern" where
  "sys_open_inode omode ip =
     kdo (gets (\<lambda>s. itable s ip)) (\<lambda>x.
       if i_type x = T_DEVICE \<and> \<not> major_ok (i_major x) then put_fail ip
       else
         kdo filealloc (\<lambda>f. case f of
           None \<Rightarrow> put_fail ip
         | Some f \<Rightarrow>
             kdo (fdalloc f) (\<lambda>fd. case fd of
               None \<Rightarrow> kdo (fileclose f) (\<lambda>_. put_fail ip)
             | Some fd \<Rightarrow>
                 kdo (modify (upd_file f (open_file omode ip x))) (\<lambda>_.
                 kdo (kwhen (omode AND O_TRUNC \<noteq> 0 \<and> i_type x = T_FILE) (itrunc ip)) (\<lambda>_.
                 kdo (iunlock (Some ip)) (\<lambda>_.
                 kdo end_op (\<lambda>_.
                 ret (of_nat fd))))))))"

definition sys_open :: "('a proc_st_scheme, uint64) kern" where
  "sys_open =
     kdo (argint 1) (\<lambda>m.
     let omode = word_of_int m :: uint in
     kdo (argpath 0) (\<lambda>path. case path of None \<Rightarrow> ret (-1) | Some path \<Rightarrow>
     kdo begin_op (\<lambda>_.
       if omode AND O_CREATE \<noteq> 0 then
         kdo (create path T_FILE 0 0) (\<lambda>r. case r of
           None \<Rightarrow> end_op_fail
         | Some ip \<Rightarrow> sys_open_inode omode ip)
       else
         kdo (namei path) (\<lambda>r. case r of
           None \<Rightarrow> end_op_fail
         | Some ip \<Rightarrow>
             kdo (ilock (Some ip)) (\<lambda>_.
             kdo (gets (\<lambda>s. i_type (itable s ip))) (\<lambda>t.
               if t = T_DIR \<and> omode \<noteq> 0 then put_fail ip
               else sys_open_inode omode ip))))))"

definition sys_mkdir :: "('a proc_st_scheme, uint64) kern" where
  "sys_mkdir =
     kdo begin_op (\<lambda>_.
     kdo (argpath 0) (\<lambda>path. case path of None \<Rightarrow> end_op_fail | Some path \<Rightarrow>
     kdo (create path T_DIR 0 0) (\<lambda>r. case r of
       None \<Rightarrow> end_op_fail
     | Some ip \<Rightarrow>
         kdo (iunlockput ip) (\<lambda>_.
         kdo end_op (\<lambda>_.
         ret 0)))))"

definition sys_mknod :: "('a proc_st_scheme, uint64) kern" where
  "sys_mknod =
     kdo begin_op (\<lambda>_.
     kdo (argint 1) (\<lambda>major.
     kdo (argint 2) (\<lambda>minor.
     kdo (argpath 0) (\<lambda>path. case path of None \<Rightarrow> end_op_fail | Some path \<Rightarrow>
     kdo (create path T_DEVICE (word_of_int major) (word_of_int minor)) (\<lambda>r. case r of
       None \<Rightarrow> end_op_fail
     | Some ip \<Rightarrow>
         kdo (iunlockput ip) (\<lambda>_.
         kdo end_op (\<lambda>_.
         ret 0)))))))"

definition sys_chdir :: "('a proc_st_scheme, uint64) kern" where
  "sys_chdir =
     kdo curproc (\<lambda>p.
     kdo begin_op (\<lambda>_.
     kdo (argpath 0) (\<lambda>path. case path of None \<Rightarrow> end_op_fail | Some path \<Rightarrow>
     kdo (namei path) (\<lambda>r. case r of
       None \<Rightarrow> end_op_fail
     | Some ip \<Rightarrow>
         kdo (ilock (Some ip)) (\<lambda>_.
         kdo (gets (\<lambda>s. i_type (itable s ip))) (\<lambda>t.
           if t \<noteq> T_DIR then put_fail ip
           else
             kdo (iunlock (Some ip)) (\<lambda>_.
             kdo (gets (\<lambda>s. p_cwd (proc s p))) (\<lambda>cwd.
             kdo (case cwd of None \<Rightarrow> panic ''kerneltrap'' | Some i \<Rightarrow> iput i) (\<lambda>_.
             kdo end_op (\<lambda>_.
             kdo (modify (upd_proc p (\<lambda>q. q\<lparr>p_cwd := Some ip\<rparr>))) (\<lambda>_.
             ret 0)))))))))))"

section \<open>Executing a program and making a pipe\<close>

definition free_args :: "uint64 list \<Rightarrow> ('a proc_st_scheme, unit) kern" where
  "free_args argv = for_each argv kfree"

text \<open>
  The loop that fetches the arguments: \<open>k\<close> slots of the array are left.  It gives the pages filled, and
  whether the null pointer that ends the vector was found.
\<close>

primrec fetch_args :: "nat \<Rightarrow> uint64 \<Rightarrow> uint64 list \<Rightarrow> ('a proc_st_scheme, bool \<times> uint64 list) kern" where
  "fetch_args 0 uargv argv = ret (False, argv)"
| "fetch_args (Suc k) uargv argv =
     kdo (fetchaddr (uargv + 8 * of_nat (length argv))) (\<lambda>r. case r of
       None \<Rightarrow> ret (False, argv)
     | Some uarg \<Rightarrow>
         if uarg = 0 then ret (True, argv)
         else
           kdo kalloc (\<lambda>a.
             if a = 0 then ret (False, argv)
             else
               kdo (gets pmem) (\<lambda>m.
               kdo (fetchstr uarg (\<lambda>i. m (unat a + i)) PGSIZE) (\<lambda>r.
               kdo (modify (\<lambda>s. s\<lparr>pmem := blit (pmem s) (unat a) (snd r) 0 PGSIZE\<rparr>)) (\<lambda>_.
                 if fst r < 0 then ret (False, argv @ [a])
                 else fetch_args k uargv (argv @ [a]))))))"

definition sys_exec :: "('a proc_st_scheme, uint64) kern" where
  "sys_exec =
     kdo (argaddr 1) (\<lambda>uargv.
     kdo (argpath 0) (\<lambda>path. case path of None \<Rightarrow> ret (-1) | Some path \<Rightarrow>
     kdo (fetch_args MAXARG uargv []) (\<lambda>a.
       if \<not> fst a then kdo (free_args (snd a)) (\<lambda>_. ret (-1))
       else
         kdo (exec path (snd a)) (\<lambda>r.
         kdo (free_args (snd a)) (\<lambda>_.
         ret (word_of_int r))))))"

definition sys_pipe :: "('a proc_st_scheme, uint64) kern" where
  "sys_pipe =
     kdo curproc (\<lambda>p.
     kdo (argaddr 0) (\<lambda>fdarray.
     kdo pipealloc (\<lambda>r. case r of
       None \<Rightarrow> ret (-1)
     | Some (rfile, wfile) \<Rightarrow>
         kdo (fdalloc rfile) (\<lambda>r. case r of
           None \<Rightarrow> kdo (fileclose rfile) (\<lambda>_. kdo (fileclose wfile) (\<lambda>_. ret (-1)))
         | Some fd0 \<Rightarrow>
             kdo (fdalloc wfile) (\<lambda>r. case r of
               None \<Rightarrow>
                 kdo (clear_fd fd0) (\<lambda>_. kdo (fileclose rfile) (\<lambda>_. kdo (fileclose wfile) (\<lambda>_. ret (-1))))
             | Some fd1 \<Rightarrow>
                 kdo (gets (\<lambda>s. p_pagetable (proc s p))) (\<lambda>pt.
                 kdo (copyout pt fdarray (put32 (\<lambda>_. 0) 0 (of_nat fd0)) 4) (\<lambda>c0.
                 kdo (if c0 < 0 then ret c0 else copyout pt (fdarray + 4) (put32 (\<lambda>_. 0) 0 (of_nat fd1)) 4) (\<lambda>c1.
                   if c1 < 0 then
                     kdo (clear_fd fd0) (\<lambda>_.
                     kdo (clear_fd fd1) (\<lambda>_.
                     kdo (fileclose rfile) (\<lambda>_.
                     kdo (fileclose wfile) (\<lambda>_.
                     ret (-1)))))
                   else ret 0))))))))"

end
