(* ===== verification/Syscall.thy ===== *)
theory Syscall
  imports Sysfile
begin

text \<open>
  The system calls on processes (\<^verbatim>\<open>kernel/sysproc.c\<close>) and the dispatcher of \<^verbatim>\<open>kernel/syscall.c\<close>, with the call numbers
  of \<^verbatim>\<open>syscall.h\<close>.
\<close>

section \<open>Calls on processes\<close>

definition sys_exit :: "('a proc_st_scheme, uint64) kern" where
  "sys_exit = kdo (argint 0) (\<lambda>n. kdo (exit n) (\<lambda>_ :: unit. ret 0))"

definition sys_getpid :: "('a proc_st_scheme, uint64) kern" where
  "sys_getpid = kdo curproc (\<lambda>p. gets (\<lambda>s. word_of_int (p_pid (proc s p))))"

definition sys_fork :: "('a proc_st_scheme, uint64) kern" where
  "sys_fork = kdo fork (\<lambda>r. ret (word_of_int r))"

definition sys_wait :: "('a proc_st_scheme, uint64) kern" where
  "sys_wait = kdo (argaddr 0) (\<lambda>p. kdo (wait p) (\<lambda>r. ret (word_of_int r)))"

definition sys_sbrk :: "('a proc_st_scheme, uint64) kern" where
  "sys_sbrk =
     kdo (argint 0) (\<lambda>n.
     kdo curproc (\<lambda>p.
     kdo (gets (\<lambda>s. p_sz (proc s p))) (\<lambda>addr.
     kdo (growproc n) (\<lambda>r.
       if r < 0 then ret (-1) else ret addr))))"

text \<open>The loop of \<^verbatim>\<open>sys_sleep\<close>; a process woken before its time starts here again.\<close>

definition sys_sleep_loop :: "uint \<Rightarrow> uint \<Rightarrow> ('a proc_st_scheme, uint64) kern" where
  "sys_sleep_loop ticks0 n =
     kdo (gets ticks) (\<lambda>now.
       if now - ticks0 < n then
         kdo curproc (\<lambda>p.
         kdo (killed p) (\<lambda>k.
           if k then kdo (release Tickslock) (\<lambda>_. ret (-1))
           else sleep Chan_ticks Tickslock))
       else kdo (release Tickslock) (\<lambda>_. ret 0))"

definition sys_sleep :: "('a proc_st_scheme, uint64) kern" where
  "sys_sleep =
     kdo (argint 0) (\<lambda>n.
     kdo (acquire Tickslock) (\<lambda>_.
     kdo (gets ticks) (\<lambda>ticks0.
     sys_sleep_loop ticks0 (word_of_int (if n < 0 then 0 else n)))))"

definition sys_kill :: "('a proc_st_scheme, uint64) kern" where
  "sys_kill = kdo (argint 0) (\<lambda>pid. kdo (kill pid) (\<lambda>r. ret (word_of_int r)))"

definition sys_uptime :: "('a proc_st_scheme, uint64) kern" where
  "sys_uptime =
     kdo (acquire Tickslock) (\<lambda>_.
     kdo (gets ticks) (\<lambda>xticks.
     kdo (release Tickslock) (\<lambda>_.
     ret (ucast xticks))))"

section \<open>Dispatch\<close>

definition SYS_fork :: int where [params]: "SYS_fork = 1"
definition SYS_exit :: int where [params]: "SYS_exit = 2"
definition SYS_wait :: int where [params]: "SYS_wait = 3"
definition SYS_pipe :: int where [params]: "SYS_pipe = 4"
definition SYS_read :: int where [params]: "SYS_read = 5"
definition SYS_kill :: int where [params]: "SYS_kill = 6"
definition SYS_exec :: int where [params]: "SYS_exec = 7"
definition SYS_fstat :: int where [params]: "SYS_fstat = 8"
definition SYS_chdir :: int where [params]: "SYS_chdir = 9"
definition SYS_dup :: int where [params]: "SYS_dup = 10"
definition SYS_getpid :: int where [params]: "SYS_getpid = 11"
definition SYS_sbrk :: int where [params]: "SYS_sbrk = 12"
definition SYS_sleep :: int where [params]: "SYS_sleep = 13"
definition SYS_uptime :: int where [params]: "SYS_uptime = 14"
definition SYS_open :: int where [params]: "SYS_open = 15"
definition SYS_write :: int where [params]: "SYS_write = 16"
definition SYS_mknod :: int where [params]: "SYS_mknod = 17"
definition SYS_unlink :: int where [params]: "SYS_unlink = 18"
definition SYS_link :: int where [params]: "SYS_link = 19"
definition SYS_mkdir :: int where [params]: "SYS_mkdir = 20"
definition SYS_close :: int where [params]: "SYS_close = 21"

text \<open>The table: the handler of each number, as an association list; other numbers have none.\<close>

definition syscalls :: "(int \<times> ('a proc_st_scheme, uint64) kern) list" where
  "syscalls = [
     (SYS_fork, sys_fork), (SYS_exit, sys_exit), (SYS_wait, sys_wait), (SYS_pipe, sys_pipe),
     (SYS_read, sys_read), (SYS_kill, sys_kill), (SYS_exec, sys_exec), (SYS_fstat, sys_fstat),
     (SYS_chdir, sys_chdir), (SYS_dup, sys_dup), (SYS_getpid, sys_getpid), (SYS_sbrk, sys_sbrk),
     (SYS_sleep, sys_sleep), (SYS_uptime, sys_uptime), (SYS_open, sys_open), (SYS_write, sys_write),
     (SYS_mknod, sys_mknod), (SYS_unlink, sys_unlink), (SYS_link, sys_link), (SYS_mkdir, sys_mkdir),
     (SYS_close, sys_close)]"

definition syscall :: "('a proc_st_scheme, unit) kern" where
  "syscall =
     kdo curproc (\<lambda>p.
     kdo (tf_get p (TF_A 7)) (\<lambda>a7.
     let num = sint (ucast a7 :: uint) in
     case map_of syscalls num of
       Some h \<Rightarrow> kdo h (\<lambda>v. tf_set p (TF_A 0) v)
     | None \<Rightarrow>
         kdo (gets (\<lambda>s. proc s p)) (\<lambda>q.
         kdo (printf ''%d %s: unknown sys call %d\<newline>''
                [Arg_int (word_of_int (p_pid q)), Arg_str (Some (cstring 16 (p_name q))), Arg_int (word_of_int num)]) (\<lambda>_.
         tf_set p (TF_A 0) (-1)))))"

end
