(* ===== verification/Virtio.thy ===== *)
theory Virtio
  imports Proc Ring
begin

text \<open>
  \<^verbatim>\<open>kernel/virtio_disk.c\<close> and \<^verbatim>\<open>kernel/virtio.h\<close>: the driver of the disk.  Driver and device share a table of
  descriptors, a ring of requests and a ring of completions; the pages they are in are seen as the structures
  \<^verbatim>\<open>virtio.h\<close> declares.  A descriptor's address is that of one of three kinds of objects, a request header, the data of a
  buffer or a status byte.

  The device is not part of the sources.  What a write to one of its registers does to the registers is a parameter, \<open>dev\<close>.
  What it does with requests is what the virtio standard says of a block device that does not fail: it takes requests off the
  ring in order, serves them in any order, and reports each in the other ring.

  The theory shows that the driver and such a device together provide \<open>disk_rw\<close>, the view of the disk that \<open>Bio\<close> has: however
  processes, interrupts and the device interleave, each call transfers its block exactly once, at one moment between call and return.
\<close>

section \<open>Registers and structures\<close>

definition VIRTIO_MMIO_MAGIC_VALUE :: nat where "VIRTIO_MMIO_MAGIC_VALUE = 0x000"
definition VIRTIO_MMIO_VERSION :: nat where "VIRTIO_MMIO_VERSION = 0x004"
definition VIRTIO_MMIO_DEVICE_ID :: nat where "VIRTIO_MMIO_DEVICE_ID = 0x008"
definition VIRTIO_MMIO_VENDOR_ID :: nat where "VIRTIO_MMIO_VENDOR_ID = 0x00c"
definition VIRTIO_MMIO_DEVICE_FEATURES :: nat where "VIRTIO_MMIO_DEVICE_FEATURES = 0x010"
definition VIRTIO_MMIO_DRIVER_FEATURES :: nat where "VIRTIO_MMIO_DRIVER_FEATURES = 0x020"
definition VIRTIO_MMIO_QUEUE_SEL :: nat where "VIRTIO_MMIO_QUEUE_SEL = 0x030"
definition VIRTIO_MMIO_QUEUE_NUM_MAX :: nat where "VIRTIO_MMIO_QUEUE_NUM_MAX = 0x034"
definition VIRTIO_MMIO_QUEUE_NUM :: nat where "VIRTIO_MMIO_QUEUE_NUM = 0x038"
definition VIRTIO_MMIO_QUEUE_READY :: nat where "VIRTIO_MMIO_QUEUE_READY = 0x044"
definition VIRTIO_MMIO_QUEUE_NOTIFY :: nat where "VIRTIO_MMIO_QUEUE_NOTIFY = 0x050"
definition VIRTIO_MMIO_INTERRUPT_STATUS :: nat where "VIRTIO_MMIO_INTERRUPT_STATUS = 0x060"
definition VIRTIO_MMIO_INTERRUPT_ACK :: nat where "VIRTIO_MMIO_INTERRUPT_ACK = 0x064"
definition VIRTIO_MMIO_STATUS :: nat where "VIRTIO_MMIO_STATUS = 0x070"
definition VIRTIO_MMIO_QUEUE_DESC_LOW :: nat where "VIRTIO_MMIO_QUEUE_DESC_LOW = 0x080"
definition VIRTIO_MMIO_QUEUE_DESC_HIGH :: nat where "VIRTIO_MMIO_QUEUE_DESC_HIGH = 0x084"
definition VIRTIO_MMIO_DRIVER_DESC_LOW :: nat where "VIRTIO_MMIO_DRIVER_DESC_LOW = 0x090"
definition VIRTIO_MMIO_DRIVER_DESC_HIGH :: nat where "VIRTIO_MMIO_DRIVER_DESC_HIGH = 0x094"
definition VIRTIO_MMIO_DEVICE_DESC_LOW :: nat where "VIRTIO_MMIO_DEVICE_DESC_LOW = 0x0a0"
definition VIRTIO_MMIO_DEVICE_DESC_HIGH :: nat where "VIRTIO_MMIO_DEVICE_DESC_HIGH = 0x0a4"

definition VIRTIO_CONFIG_S_ACKNOWLEDGE :: uint where "VIRTIO_CONFIG_S_ACKNOWLEDGE = 1"
definition VIRTIO_CONFIG_S_DRIVER :: uint where "VIRTIO_CONFIG_S_DRIVER = 2"
definition VIRTIO_CONFIG_S_DRIVER_OK :: uint where "VIRTIO_CONFIG_S_DRIVER_OK = 4"
definition VIRTIO_CONFIG_S_FEATURES_OK :: uint where "VIRTIO_CONFIG_S_FEATURES_OK = 8"

definition VIRTIO_BLK_F_RO :: nat where "VIRTIO_BLK_F_RO = 5"
definition VIRTIO_BLK_F_SCSI :: nat where "VIRTIO_BLK_F_SCSI = 7"
definition VIRTIO_BLK_F_CONFIG_WCE :: nat where "VIRTIO_BLK_F_CONFIG_WCE = 11"
definition VIRTIO_BLK_F_MQ :: nat where "VIRTIO_BLK_F_MQ = 12"
definition VIRTIO_F_ANY_LAYOUT :: nat where "VIRTIO_F_ANY_LAYOUT = 27"
definition VIRTIO_RING_F_INDIRECT_DESC :: nat where "VIRTIO_RING_F_INDIRECT_DESC = 28"
definition VIRTIO_RING_F_EVENT_IDX :: nat where "VIRTIO_RING_F_EVENT_IDX = 29"

definition NUM :: nat where [params]: "NUM = 8"

datatype dma_addr = Null_addr | Op_addr nat | Data_addr nat | Status_addr nat

record virtq_desc =
  vd_addr :: dma_addr
  vd_len :: uint
  vd_flags :: ushort
  vd_next :: ushort

definition VRING_DESC_F_NEXT :: ushort where "VRING_DESC_F_NEXT = 1"
definition VRING_DESC_F_WRITE :: ushort where "VRING_DESC_F_WRITE = 2"

record virtq_avail =
  av_flags :: ushort
  av_idx :: ushort
  av_ring :: "nat \<Rightarrow> ushort"

record virtq_used_elem =
  ue_id :: uint
  ue_len :: uint

record virtq_used =
  us_flags :: ushort
  us_idx :: ushort
  us_ring :: "nat \<Rightarrow> virtq_used_elem"

definition VIRTIO_BLK_T_IN :: uint where "VIRTIO_BLK_T_IN = 0"
definition VIRTIO_BLK_T_OUT :: uint where "VIRTIO_BLK_T_OUT = 1"

record virtio_blk_req =
  rq_type :: uint
  rq_reserved :: uint
  rq_sector :: uint64

record disk_info =
  in_b :: "nat option"
  in_status :: uchar

text \<open>\<^verbatim>\<open>struct disk\<close>: the three pointers, what they point to, and the driver's own book-keeping.\<close>

record vdisk =
  dk_desc_pa :: uint64
  dk_avail_pa :: uint64
  dk_used_pa :: uint64
  dk_desc :: "nat \<Rightarrow> virtq_desc"
  dk_avail :: virtq_avail
  dk_used :: virtq_used
  dk_free :: "nat \<Rightarrow> bool"
  dk_used_idx :: ushort
  dk_info :: "nat \<Rightarrow> disk_info"
  dk_ops :: "nat \<Rightarrow> virtio_blk_req"

text \<open>The device: its registers, how far it has read the ring of requests, and the requests it has taken and not yet served.\<close>

record vdevice =
  dv_regs :: "nat \<Rightarrow> uint"
  dv_seen :: ushort
  dv_busy :: "nat list"

record virtio_st = proc_st +
  vdisk :: vdisk
  vdev :: vdevice

abbreviation upd_vdisk :: "(vdisk \<Rightarrow> vdisk) \<Rightarrow> 'a virtio_st_scheme \<Rightarrow> 'a virtio_st_scheme" where
  "upd_vdisk f s \<equiv> s\<lparr>vdisk := f (vdisk s)\<rparr>"

text \<open>What a register write does to the registers.\<close>

type_synonym regs_fun = "nat \<Rightarrow> uint \<Rightarrow> (nat \<Rightarrow> uint) \<Rightarrow> nat \<Rightarrow> uint"

definition mmio_get :: "nat \<Rightarrow> ('a virtio_st_scheme, uint) kern" where
  "mmio_get r = gets (\<lambda>s. dv_regs (vdev s) r)"

definition mmio_put :: "regs_fun \<Rightarrow> nat \<Rightarrow> uint \<Rightarrow> ('a virtio_st_scheme, unit) kern" where
  "mmio_put dev r v = modify (\<lambda>s. s\<lparr>vdev := (vdev s)\<lparr>dv_regs := dev r v (dv_regs (vdev s))\<rparr>\<rparr>)"

section \<open>Initialisation\<close>

definition zero_desc :: virtq_desc where
  "zero_desc = \<lparr>vd_addr = Null_addr, vd_len = 0, vd_flags = 0, vd_next = 0\<rparr>"

definition zero_avail :: virtq_avail where
  "zero_avail = \<lparr>av_flags = 0, av_idx = 0, av_ring = \<lambda>_. 0\<rparr>"

definition zero_used :: virtq_used where
  "zero_used = \<lparr>us_flags = 0, us_idx = 0, us_ring = \<lambda>_. \<lparr>ue_id = 0, ue_len = 0\<rparr>\<rparr>"

text \<open>
  The masks: \<^verbatim>\<open>~(1 << n)\<close> is an \<^verbatim>\<open>int\<close>, which is sign-extended to the width of \<^verbatim>\<open>features\<close>; the register takes its low half.
\<close>

definition virtio_features :: "uint64 \<Rightarrow> uint64" where
  "virtio_features features =
     fold (\<lambda>n f. f AND NOT (push_bit n 1))
       [VIRTIO_BLK_F_RO, VIRTIO_BLK_F_SCSI, VIRTIO_BLK_F_CONFIG_WCE, VIRTIO_BLK_F_MQ, VIRTIO_F_ANY_LAYOUT,
        VIRTIO_RING_F_EVENT_IDX, VIRTIO_RING_F_INDIRECT_DESC] features"

text \<open>The negotiation with the device, up to the size of the queue.\<close>

definition virtio_negotiate :: "regs_fun \<Rightarrow> ('a virtio_st_scheme, uint) kern" where
  "virtio_negotiate dev =
     kdo (mmio_get VIRTIO_MMIO_MAGIC_VALUE) (\<lambda>magic.
     kdo (mmio_get VIRTIO_MMIO_VERSION) (\<lambda>version.
     kdo (mmio_get VIRTIO_MMIO_DEVICE_ID) (\<lambda>devid.
     kdo (mmio_get VIRTIO_MMIO_VENDOR_ID) (\<lambda>vendor.
       if magic \<noteq> 0x74726976 \<or> version \<noteq> 2 \<or> devid \<noteq> 2 \<or> vendor \<noteq> 0x554d4551 then panic ''could not find virtio disk''
       else
         let status = 0 in
         kdo (mmio_put dev VIRTIO_MMIO_STATUS status) (\<lambda>_.
         let status = status OR VIRTIO_CONFIG_S_ACKNOWLEDGE in
         kdo (mmio_put dev VIRTIO_MMIO_STATUS status) (\<lambda>_.
         let status = status OR VIRTIO_CONFIG_S_DRIVER in
         kdo (mmio_put dev VIRTIO_MMIO_STATUS status) (\<lambda>_.
         kdo (mmio_get VIRTIO_MMIO_DEVICE_FEATURES) (\<lambda>features.
         kdo (mmio_put dev VIRTIO_MMIO_DRIVER_FEATURES (ucast (virtio_features (ucast features)))) (\<lambda>_.
         let status = status OR VIRTIO_CONFIG_S_FEATURES_OK in
         kdo (mmio_put dev VIRTIO_MMIO_STATUS status) (\<lambda>_.
         kdo (mmio_get VIRTIO_MMIO_STATUS) (\<lambda>status.
           if status AND VIRTIO_CONFIG_S_FEATURES_OK = 0 then panic ''virtio disk FEATURES_OK unset''
           else
             kdo (mmio_put dev VIRTIO_MMIO_QUEUE_SEL 0) (\<lambda>_.
             kdo (mmio_get VIRTIO_MMIO_QUEUE_READY) (\<lambda>ready.
               if ready \<noteq> 0 then panic ''virtio disk should not be ready''
               else
                 kdo (mmio_get VIRTIO_MMIO_QUEUE_NUM_MAX) (\<lambda>max.
                   if max = 0 then panic ''virtio disk has no queue 0''
                   else if max < of_nat NUM then panic ''virtio disk max queue too short''
                   else ret status))))))))))))))"

text \<open>The queue's memory cleared, made known to the device, and all descriptors free.\<close>

definition virtio_queue_setup :: "regs_fun \<Rightarrow> uint \<Rightarrow> uint64 \<Rightarrow> uint64 \<Rightarrow> uint64 \<Rightarrow> ('a virtio_st_scheme, unit) kern" where
  "virtio_queue_setup dev status desc avail used =
     kdo (modify (\<lambda>s. s\<lparr>pmem := memset (memset (memset (pmem s) (unat desc) 0 PGSIZE) (unat avail) 0 PGSIZE) (unat used) 0 PGSIZE\<rparr>)) (\<lambda>_.
     kdo (modify (upd_vdisk (\<lambda>d. d\<lparr>dk_desc := \<lambda>_. zero_desc, dk_avail := zero_avail, dk_used := zero_used\<rparr>))) (\<lambda>_.
     kdo (mmio_put dev VIRTIO_MMIO_QUEUE_NUM (of_nat NUM)) (\<lambda>_.
     kdo (mmio_put dev VIRTIO_MMIO_QUEUE_DESC_LOW (ucast desc)) (\<lambda>_.
     kdo (mmio_put dev VIRTIO_MMIO_QUEUE_DESC_HIGH (ucast (drop_bit 32 desc))) (\<lambda>_.
     kdo (mmio_put dev VIRTIO_MMIO_DRIVER_DESC_LOW (ucast avail)) (\<lambda>_.
     kdo (mmio_put dev VIRTIO_MMIO_DRIVER_DESC_HIGH (ucast (drop_bit 32 avail))) (\<lambda>_.
     kdo (mmio_put dev VIRTIO_MMIO_DEVICE_DESC_LOW (ucast used)) (\<lambda>_.
     kdo (mmio_put dev VIRTIO_MMIO_DEVICE_DESC_HIGH (ucast (drop_bit 32 used))) (\<lambda>_.
     kdo (mmio_put dev VIRTIO_MMIO_QUEUE_READY 1) (\<lambda>_.
     kdo (for_each [0..<NUM] (\<lambda>i. modify (upd_vdisk (\<lambda>d. d\<lparr>dk_free := (dk_free d)(i := True)\<rparr>)))) (\<lambda>_.
     mmio_put dev VIRTIO_MMIO_STATUS (status OR VIRTIO_CONFIG_S_DRIVER_OK))))))))))))"

definition virtio_disk_init :: "regs_fun \<Rightarrow> ('a virtio_st_scheme, unit) kern" where
  "virtio_disk_init dev =
     kdo (virtio_negotiate dev) (\<lambda>status.
     kdo kalloc (\<lambda>desc.
     kdo (modify (upd_vdisk (\<lambda>d. d\<lparr>dk_desc_pa := desc\<rparr>))) (\<lambda>_.
     kdo kalloc (\<lambda>avail.
     kdo (modify (upd_vdisk (\<lambda>d. d\<lparr>dk_avail_pa := avail\<rparr>))) (\<lambda>_.
     kdo kalloc (\<lambda>used.
     kdo (modify (upd_vdisk (\<lambda>d. d\<lparr>dk_used_pa := used\<rparr>))) (\<lambda>_.
       if desc = 0 \<or> avail = 0 \<or> used = 0 then panic ''virtio disk kalloc''
       else virtio_queue_setup dev status desc avail used)))))))"

section \<open>Descriptors\<close>

definition alloc_desc :: "('a virtio_st_scheme, int) kern" where
  "alloc_desc =
     kdo (scan [0..<NUM] (\<lambda>i.
            kdo (gets (\<lambda>s. dk_free (vdisk s) i)) (\<lambda>f.
              if f then kdo (modify (upd_vdisk (\<lambda>d. d\<lparr>dk_free := (dk_free d)(i := False)\<rparr>))) (\<lambda>_. ret (Some (int i)))
              else ret None)))
       (\<lambda>r. case r of Some i \<Rightarrow> ret i | None \<Rightarrow> ret (-1))"

definition free_desc :: "int \<Rightarrow> ('a virtio_st_scheme, unit) kern" where
  "free_desc i =
     (if i \<ge> int NUM then panic ''free_desc 1''
      else
        kdo (gets (\<lambda>s. dk_free (vdisk s) (nat i))) (\<lambda>f.
          if f then panic ''free_desc 2''
          else
            kdo (modify (upd_vdisk (\<lambda>d. d\<lparr>dk_desc := (dk_desc d)(nat i := zero_desc)\<rparr>))) (\<lambda>_.
            kdo (modify (upd_vdisk (\<lambda>d. d\<lparr>dk_free := (dk_free d)(nat i := True)\<rparr>))) (\<lambda>_.
            wakeup Chan_disk_free))))"

text \<open>Fuel: a descriptor freed twice is a panic, so the loop ends within \<open>NUM + 1\<close> rounds.\<close>

primrec free_chain_loop :: "nat \<Rightarrow> int \<Rightarrow> ('a virtio_st_scheme, unit) kern" where
  "free_chain_loop 0 i = diverge"
| "free_chain_loop (Suc fuel) i =
     kdo (gets (\<lambda>s. vd_flags (dk_desc (vdisk s) (nat i)))) (\<lambda>flag.
     kdo (gets (\<lambda>s. vd_next (dk_desc (vdisk s) (nat i)))) (\<lambda>nxt.
     kdo (free_desc i) (\<lambda>_.
       if flag AND VRING_DESC_F_NEXT \<noteq> 0 then free_chain_loop fuel (int (unat nxt)) else ret ())))"

definition free_chain :: "int \<Rightarrow> ('a virtio_st_scheme, unit) kern" where
  "free_chain i = free_chain_loop (NUM + 1) i"

text \<open>The loop of \<^verbatim>\<open>alloc3_desc\<close>, with the part of \<^verbatim>\<open>idx\<close> it has filled; \<^term>\<open>None\<close> stands for a result of -1.\<close>

primrec alloc3_loop :: "nat \<Rightarrow> int list \<Rightarrow> ('a virtio_st_scheme, int list option) kern" where
  "alloc3_loop 0 idx = ret (Some idx)"
| "alloc3_loop (Suc n) idx =
     kdo alloc_desc (\<lambda>i.
       if i < 0 then kdo (for_each idx free_desc) (\<lambda>_. ret None)
       else alloc3_loop n (idx @ [i]))"

definition alloc3_desc :: "('a virtio_st_scheme, int list option) kern" where
  "alloc3_desc = alloc3_loop 3 []"

section \<open>A request\<close>

text \<open>
  The sector of a block.  The product is computed in 32 bits.
\<close>

definition sector_of :: "uint \<Rightarrow> uint64" where
  "sector_of blockno = ucast (blockno * 2)"

text \<open>Filling in the request header, the three descriptors and the status.\<close>

definition virtio_format :: "nat \<Rightarrow> bool \<Rightarrow> uint64 \<Rightarrow> nat \<Rightarrow> nat \<Rightarrow> nat \<Rightarrow> vdisk \<Rightarrow> vdisk" where
  "virtio_format b write sector i0 i1 i2 d =
     (let d = d\<lparr>dk_ops := (dk_ops d)(i0 := \<lparr>rq_type = (if write then VIRTIO_BLK_T_OUT else VIRTIO_BLK_T_IN), rq_reserved = 0, rq_sector = sector\<rparr>)\<rparr>;
          d = d\<lparr>dk_desc := (dk_desc d)(i0 := \<lparr>vd_addr = Op_addr i0, vd_len = 16, vd_flags = VRING_DESC_F_NEXT, vd_next = of_nat i1\<rparr>)\<rparr>;
          d = d\<lparr>dk_desc := (dk_desc d)(i1 := \<lparr>vd_addr = Data_addr b, vd_len = of_nat BSIZE,
                 vd_flags = (if write then 0 else VRING_DESC_F_WRITE) OR VRING_DESC_F_NEXT, vd_next = of_nat i2\<rparr>)\<rparr>;
          d = d\<lparr>dk_info := (dk_info d)(i0 := (dk_info d i0)\<lparr>in_status := 0xff\<rparr>)\<rparr>
      in d\<lparr>dk_desc := (dk_desc d)(i2 := \<lparr>vd_addr = Status_addr i0, vd_len = 1, vd_flags = VRING_DESC_F_WRITE, vd_next = 0\<rparr>)\<rparr>)"

text \<open>
  \<^verbatim>\<open>virtio_disk_rw\<close> in two parts.  The first waits until three descriptors are free, submits the request and gives the
  head of its chain; a process woken while it waits for descriptors starts it again.  The second waits until the request is done.
\<close>

definition virtio_disk_rw_submit :: "regs_fun \<Rightarrow> nat \<Rightarrow> bool \<Rightarrow> uint64 \<Rightarrow> ('a virtio_st_scheme, nat) kern" where
  "virtio_disk_rw_submit dev b write sector =
     kdo alloc3_desc (\<lambda>r.
       case r of
         None \<Rightarrow> sleep Chan_disk_free Vdisk_lock
       | Some idx \<Rightarrow>
           let i0 = nat (idx ! 0); i1 = nat (idx ! 1); i2 = nat (idx ! 2) in
           kdo (modify (upd_vdisk (virtio_format b write sector i0 i1 i2))) (\<lambda>_.
           kdo (modify (upd_buf b (\<lambda>x. x\<lparr>b_disk := True\<rparr>))) (\<lambda>_.
           kdo (modify (upd_vdisk (\<lambda>d. d\<lparr>dk_info := (dk_info d)(i0 := (dk_info d i0)\<lparr>in_b := Some b\<rparr>)\<rparr>))) (\<lambda>_.
           kdo (modify (upd_vdisk (\<lambda>d. d\<lparr>dk_avail := (dk_avail d)\<lparr>av_ring := (av_ring (dk_avail d))(unat (av_idx (dk_avail d)) mod NUM := of_nat i0)\<rparr>\<rparr>))) (\<lambda>_.
           kdo (modify (upd_vdisk (\<lambda>d. d\<lparr>dk_avail := (dk_avail d)\<lparr>av_idx := av_idx (dk_avail d) + 1\<rparr>\<rparr>))) (\<lambda>_.
           kdo (mmio_put dev VIRTIO_MMIO_QUEUE_NOTIFY 0) (\<lambda>_.
           ret i0)))))))"

definition virtio_disk_rw_wait :: "nat \<Rightarrow> nat \<Rightarrow> ('a virtio_st_scheme, unit) kern" where
  "virtio_disk_rw_wait b i0 =
     kdo (gets (\<lambda>s. b_disk (buf s b))) (\<lambda>busy.
       if busy then sleep (Chan_buf b) Vdisk_lock
       else
         kdo (modify (upd_vdisk (\<lambda>d. d\<lparr>dk_info := (dk_info d)(i0 := (dk_info d i0)\<lparr>in_b := None\<rparr>)\<rparr>))) (\<lambda>_.
         kdo (free_chain (int i0)) (\<lambda>_.
         release Vdisk_lock)))"

definition virtio_disk_rw :: "regs_fun \<Rightarrow> nat \<Rightarrow> bool \<Rightarrow> ('a virtio_st_scheme, unit) kern" where
  "virtio_disk_rw dev b write =
     kdo (gets (\<lambda>s. sector_of (b_blockno (buf s b)))) (\<lambda>sector.
     kdo (acquire Vdisk_lock) (\<lambda>_.
     kdo (virtio_disk_rw_submit dev b write sector) (\<lambda>i0.
     virtio_disk_rw_wait b i0)))"

section \<open>The interrupt handler\<close>

text \<open>
  Fuel: the number of completions that the device has added to the ring, which the loop goes through one by one.  A completion
  whose entry in \<^verbatim>\<open>info\<close> has no buffer makes the code write through a null pointer.
\<close>

primrec virtio_intr_loop :: "nat \<Rightarrow> ('a virtio_st_scheme, unit) kern" where
  "virtio_intr_loop 0 =
     kdo (gets vdisk) (\<lambda>d. if dk_used_idx d \<noteq> us_idx (dk_used d) then diverge else ret ())"
| "virtio_intr_loop (Suc fuel) =
     kdo (gets vdisk) (\<lambda>d.
       if dk_used_idx d \<noteq> us_idx (dk_used d) then
         let id = unat (ue_id (us_ring (dk_used d) (unat (dk_used_idx d) mod NUM))) in
         if in_status (dk_info d id) \<noteq> 0 then panic ''virtio_disk_intr status''
         else
           (case in_b (dk_info d id) of
              None \<Rightarrow> panic ''kerneltrap''
            | Some b \<Rightarrow>
                kdo (modify (upd_buf b (\<lambda>x. x\<lparr>b_disk := False\<rparr>))) (\<lambda>_.
                kdo (wakeup (Chan_buf b)) (\<lambda>_.
                kdo (modify (upd_vdisk (\<lambda>d. d\<lparr>dk_used_idx := dk_used_idx d + 1\<rparr>))) (\<lambda>_.
                virtio_intr_loop fuel))))
       else ret ())"

definition virtio_disk_intr :: "regs_fun \<Rightarrow> ('a virtio_st_scheme, unit) kern" where
  "virtio_disk_intr dev =
     kdo (acquire Vdisk_lock) (\<lambda>_.
     kdo (mmio_get VIRTIO_MMIO_INTERRUPT_STATUS) (\<lambda>st.
     kdo (mmio_put dev VIRTIO_MMIO_INTERRUPT_ACK (st AND 3)) (\<lambda>_.
     kdo (gets (\<lambda>s. unat (us_idx (dk_used (vdisk s)) - dk_used_idx (vdisk s)))) (\<lambda>n.
     kdo (virtio_intr_loop n) (\<lambda>_.
     release Vdisk_lock)))))"

section \<open>The device\<close>

text \<open>The disk as the device addresses it: bytes counted from a sector of 512 bytes on.\<close>

definition sec_read :: "(uint \<Rightarrow> bytes) \<Rightarrow> uint64 \<Rightarrow> nat \<Rightarrow> bytes \<Rightarrow> bytes" where
  "sec_read D sector n data =
     (\<lambda>i. if i < n then D (of_nat ((unat sector * 512 + i) div BSIZE)) ((unat sector * 512 + i) mod BSIZE) else data i)"

definition sec_write :: "(uint \<Rightarrow> bytes) \<Rightarrow> uint64 \<Rightarrow> nat \<Rightarrow> bytes \<Rightarrow> uint \<Rightarrow> bytes" where
  "sec_write D sector n data =
     (\<lambda>bn j. let a = unat bn * BSIZE + j in
        if j < BSIZE \<and> unat sector * 512 \<le> a \<and> a < unat sector * 512 + n then data (a - unat sector * 512) else D bn j)"

definition dev_fetch :: "'a virtio_st_scheme \<Rightarrow> 'a virtio_st_scheme" where
  "dev_fetch s = s\<lparr>vdev := (vdev s)\<lparr>dv_busy := dv_busy (vdev s) @ [unat (av_ring (dk_avail (vdisk s)) (unat (dv_seen (vdev s)) mod NUM))],
     dv_seen := dv_seen (vdev s) + 1\<rparr>\<rparr>"

text \<open>Storing the status and reporting the request.\<close>

definition dev_report :: "nat \<Rightarrow> nat \<Rightarrow> uchar \<Rightarrow> nat \<Rightarrow> 'a virtio_st_scheme \<Rightarrow> 'a virtio_st_scheme" where
  "dev_report i j st n s = s\<lparr>
     vdisk := (vdisk s)\<lparr>dk_info := (dk_info (vdisk s))(j := (dk_info (vdisk s) j)\<lparr>in_status := st\<rparr>),
       dk_used := (dk_used (vdisk s))\<lparr>
         us_ring := (us_ring (dk_used (vdisk s)))(unat (us_idx (dk_used (vdisk s))) mod NUM := \<lparr>ue_id = of_nat i, ue_len = of_nat n\<rparr>),
         us_idx := us_idx (dk_used (vdisk s)) + 1\<rparr>\<rparr>,
     vdev := (vdev s)\<lparr>dv_busy := remove1 i (dv_busy (vdev s))\<rparr>\<rparr>"

text \<open>
  Serving the request whose chain starts with descriptor \<open>i\<close>.  A header, data and a status are expected, and data that the
  device may write exactly when the request is to read the disk; the device fails other requests.
\<close>

definition dev_serve :: "nat \<Rightarrow> 'a virtio_st_scheme \<Rightarrow> 'a virtio_st_scheme" where
  "dev_serve i s =
     (let d = vdisk s;
          d0 = dk_desc d i;
          d1 = dk_desc d (unat (vd_next d0));
          d2 = dk_desc d (unat (vd_next d1))
      in case (vd_addr d0, vd_addr d1, vd_addr d2) of
           (Op_addr k, Data_addr b, Status_addr j) \<Rightarrow>
             let rq = dk_ops d k;
                 n = unat (vd_len d1);
                 writable = (vd_flags d1 AND VRING_DESC_F_WRITE \<noteq> 0)
             in if rq_type rq = VIRTIO_BLK_T_OUT \<and> \<not> writable then
                  dev_report i j 0 1 (s\<lparr>disk := sec_write (disk s) (rq_sector rq) n (b_data (buf s b)),
                    dwrites := dwrites s @ [(of_nat (unat (rq_sector rq) div 2), b_data (buf s b))]\<rparr>)
                else if rq_type rq = VIRTIO_BLK_T_IN \<and> writable then
                  dev_report i j 0 (n + 1) (upd_buf b (\<lambda>x. x\<lparr>b_data := sec_read (disk s) (rq_sector rq) n (b_data x)\<rparr>) s)
                else dev_report i j 1 1 s
         | _ \<Rightarrow> s)"

section \<open>Processes, interrupts and the device together\<close>

text \<open>
  Where a process is in the driver: outside, asleep for want of descriptors, or asleep until its request is done.
\<close>

datatype vthread = Out | Wants nat bool uint64 | Waits nat bool nat

primrec vbuf :: "vthread \<Rightarrow> nat option" where
  "vbuf Out = None"
| "vbuf (Wants b w sec) = Some b"
| "vbuf (Waits b w i) = Some b"

type_synonym 'a vsys = "'a virtio_st_scheme \<times> (nat \<Rightarrow> vthread)"

text \<open>A process on a CPU, in a call that starts and when it is scheduled again after \<^verbatim>\<open>sched\<close>.\<close>

definition on_cpu :: "nat \<Rightarrow> 'a virtio_st_scheme \<Rightarrow> 'a virtio_st_scheme" where
  "on_cpu p s = s\<lparr>cpu_proc := Some p, held := {}\<rparr>"

definition back_on_cpu :: "nat \<Rightarrow> 'a virtio_st_scheme \<Rightarrow> 'a virtio_st_scheme" where
  "back_on_cpu p s = s\<lparr>cpu_proc := Some p, held := {Proc_lock p}\<rparr>"

text \<open>\<^verbatim>\<open>virtio_disk_rw\<close> from the allocation of descriptors on, until the process sleeps or returns.\<close>

inductive vrun :: "regs_fun \<Rightarrow> nat \<Rightarrow> bool \<Rightarrow> uint64 \<Rightarrow> 'a virtio_st_scheme \<Rightarrow> 'a virtio_st_scheme \<Rightarrow> vthread \<Rightarrow> bool"
  for dev b w sec s where
  vrun_wants: "virtio_disk_rw_submit dev b w sec s = Switch t \<Longrightarrow> vrun dev b w sec s t (Wants b w sec)"
| vrun_waits: "virtio_disk_rw_submit dev b w sec s = Ok i t \<Longrightarrow> virtio_disk_rw_wait b i t = Switch u \<Longrightarrow> vrun dev b w sec s u (Waits b w i)"
| vrun_out: "virtio_disk_rw_submit dev b w sec s = Ok i t \<Longrightarrow> virtio_disk_rw_wait b i t = Ok () u \<Longrightarrow> vrun dev b w sec s u Out"

text \<open>
  The steps.  What a process or the handler does while it has \<^verbatim>\<open>vdisk_lock\<close> is one step; the device looks at what the driver writes only
  after \<^verbatim>\<open>avail->idx\<close>, which is written last, behind a barrier.  A call is made with the buffer locked, so that no other process is in the driver with the same buffer.  The last rule
  is the rest of the kernel: it does what it likes with the buffers that are not in the driver's hands, and may wake processes.
\<close>

inductive vstep :: "regs_fun \<Rightarrow> 'a vsys \<Rightarrow> 'a vsys \<Rightarrow> bool" for dev where
  vstep_call: "T p = Out \<Longrightarrow> p < NPROC \<Longrightarrow> b < NBUF \<Longrightarrow> (\<forall>q. vbuf (T q) \<noteq> Some b) \<Longrightarrow> unat (b_blockno (buf s b)) < 2 ^ 31 \<Longrightarrow>
    acquire Vdisk_lock (on_cpu p s) = Ok () t \<Longrightarrow> vrun dev b w (sector_of (b_blockno (buf s b))) t u x \<Longrightarrow> vstep dev (s, T) (u, T(p := x))"
| vstep_retry: "T p = Wants b w sec \<Longrightarrow> p_state (proc s p) \<noteq> SLEEPING \<Longrightarrow>
    sleep_resume Vdisk_lock (back_on_cpu p s) = Ok () t \<Longrightarrow> vrun dev b w sec t u x \<Longrightarrow> vstep dev (s, T) (u, T(p := x))"
| vstep_again: "T p = Waits b w i \<Longrightarrow> p_state (proc s p) \<noteq> SLEEPING \<Longrightarrow>
    sleep_resume Vdisk_lock (back_on_cpu p s) = Ok () t \<Longrightarrow> virtio_disk_rw_wait b i t = Switch u \<Longrightarrow> vstep dev (s, T) (u, T)"
| vstep_return: "T p = Waits b w i \<Longrightarrow> p_state (proc s p) \<noteq> SLEEPING \<Longrightarrow>
    sleep_resume Vdisk_lock (back_on_cpu p s) = Ok () t \<Longrightarrow> virtio_disk_rw_wait b i t = Ok () u \<Longrightarrow> vstep dev (s, T) (u, T(p := Out))"
| vstep_intr: "(\<forall>p. c = Some p \<longrightarrow> p_state (proc s p) = RUNNING) \<Longrightarrow> virtio_disk_intr dev (s\<lparr>cpu_proc := c, held := {}\<rparr>) = Ok () t \<Longrightarrow> vstep dev (s, T) (t, T)"
| vstep_fetch: "dv_seen (vdev s) \<noteq> av_idx (dk_avail (vdisk s)) \<Longrightarrow> vstep dev (s, T) (dev_fetch s, T)"
| vstep_serve: "i \<in> set (dv_busy (vdev s)) \<Longrightarrow> vstep dev (s, T) (dev_serve i s, T)"
| vstep_kernel: "vdisk t = vdisk s \<Longrightarrow> vdev t = vdev s \<Longrightarrow> disk t = disk s \<Longrightarrow>
    (\<forall>p b. vbuf (T p) = Some b \<longrightarrow> buf t b = buf s b) \<Longrightarrow>
    (\<forall>p. p_state (proc t p) = SLEEPING \<and> T p \<noteq> Out \<longrightarrow> proc t p = proc s p) \<Longrightarrow> vstep dev (s, T) (t, T)"

section \<open>What the operations on descriptors do\<close>

abbreviation free_set :: "vdisk \<Rightarrow> nat set" where
  "free_set d \<equiv> {j. j < NUM \<and> dk_free d j}"

lemma free_set_finite [simp]: "finite (free_set d)"
  by simp

lemma wake_wake [simp]: "wake c me (wake c me P) = wake c me P"
  by (auto simp: wake_def fun_eq_iff)

lemma alloc_desc_scan:
  "scan is (\<lambda>i. kdo (gets (\<lambda>s. dk_free (vdisk s) i)) (\<lambda>f.
       if f then kdo (modify (upd_vdisk (\<lambda>d. d\<lparr>dk_free := (dk_free d)(i := False)\<rparr>))) (\<lambda>_. ret (Some (int i))) else ret None)) s =
   (case find (dk_free (vdisk s)) is of
      None \<Rightarrow> Ok None s
    | Some i \<Rightarrow> Ok (Some (int i)) (upd_vdisk (\<lambda>d. d\<lparr>dk_free := (dk_free d)(i := False)\<rparr>) s))"
  by (induction "is") (simp_all add: kern_simps kdo_def)

lemma alloc_desc_none:
  assumes "free_set (vdisk s) = {}"
  shows "alloc_desc s = Ok (-1) s"
proof -
  have "find (dk_free (vdisk s)) [0..<NUM] = None" using assms by (auto simp: find_None_iff)
  then show ?thesis unfolding alloc_desc_def kdo_def [of "scan _ _"] alloc_desc_scan by (simp add: kern_simps)
qed

lemma alloc_desc_some:
  assumes "free_set (vdisk s) \<noteq> {}"
  obtains i where "i \<in> free_set (vdisk s)" and "alloc_desc s = Ok (int i) (upd_vdisk (\<lambda>d. d\<lparr>dk_free := (dk_free d)(i := False)\<rparr>) s)"
proof -
  obtain i where i: "find (dk_free (vdisk s)) [0..<NUM] = Some i"
    using assms by (cases "find (dk_free (vdisk s)) [0..<NUM]") (auto simp: find_None_iff)
  then have "i \<in> free_set (vdisk s)" by (auto simp: find_Some_iff)
  moreover have "alloc_desc s = Ok (int i) (upd_vdisk (\<lambda>d. d\<lparr>dk_free := (dk_free d)(i := False)\<rparr>) s)"
    unfolding alloc_desc_def kdo_def [of "scan _ _"] alloc_desc_scan i by (simp add: kern_simps)
  ultimately show thesis by (rule that)
qed

lemma free_desc_at:
  assumes "i < NUM" and "\<not> dk_free (vdisk s) i" and "no_proc_locks s"
  shows "free_desc (int i) s = Ok () (s\<lparr>vdisk := (vdisk s)\<lparr>dk_desc := (dk_desc (vdisk s))(i := zero_desc), dk_free := (dk_free (vdisk s))(i := True)\<rparr>,
    proc := wake Chan_disk_free (cpu_proc s) (proc s)\<rparr>)"
  using assms by (simp add: free_desc_def kern_simps wakeup_at no_proc_locks_def)

text \<open>The state with the descriptors \<open>js\<close> taken, and what freeing them again leaves.\<close>

definition taken :: "nat list \<Rightarrow> 'a virtio_st_scheme \<Rightarrow> 'a virtio_st_scheme" where
  "taken js s = upd_vdisk (\<lambda>d. d\<lparr>dk_free := \<lambda>j. dk_free d j \<and> j \<notin> set js\<rparr>) s"

definition given_back :: "nat list \<Rightarrow> 'a virtio_st_scheme \<Rightarrow> 'a virtio_st_scheme" where
  "given_back js s = s\<lparr>vdisk := (vdisk s)\<lparr>dk_desc := \<lambda>j. if j \<in> set js then zero_desc else dk_desc (vdisk s) j,
       dk_free := \<lambda>j. j \<in> set js \<or> dk_free (vdisk s) j\<rparr>,
     proc := if js = [] then proc s else wake Chan_disk_free (cpu_proc s) (proc s)\<rparr>"

lemma free_descs_at:
  assumes "distinct js" and "\<forall>j\<in>set js. j < NUM \<and> \<not> dk_free (vdisk s) j" and "no_proc_locks s"
  shows "for_each (map int js) free_desc s = Ok () (given_back js s)"
  using assms
proof (induction js arbitrary: s)
  case Nil
  then show ?case by (simp add: kern_simps given_back_def)
next
  case (Cons j js)
  let ?t = "s\<lparr>vdisk := (vdisk s)\<lparr>dk_desc := (dk_desc (vdisk s))(j := zero_desc), dk_free := (dk_free (vdisk s))(j := True)\<rparr>,
    proc := wake Chan_disk_free (cpu_proc s) (proc s)\<rparr>"
  have f: "free_desc (int j) s = Ok () ?t" using Cons.prems by (intro free_desc_at) auto
  have "for_each (map int js) free_desc ?t = Ok () (given_back js ?t)"
    using Cons.prems by (intro Cons.IH) (auto simp: no_proc_locks_def)
  moreover have "given_back js ?t = given_back (j # js) s"
    by (auto simp: given_back_def fun_eq_iff intro!: virtio_st.fold_congs vdisk.fold_congs)
  ultimately show ?case by (simp add: kdo_Ok [where m = "free_desc _", OF f])
qed

lemma given_back_append: "given_back ks (given_back js s) = given_back (js @ ks) s"
proof -
  have "vdisk (given_back ks (given_back js s)) = vdisk (given_back (js @ ks) s)"
    by (rule vdisk.equality) (auto simp: given_back_def)
  moreover have "given_back ks (given_back js s) = s\<lparr>vdisk := vdisk (given_back ks (given_back js s)), proc := proc (given_back (js @ ks) s)\<rparr>"
    by (simp add: given_back_def)
  ultimately show ?thesis by (simp add: given_back_def [of "js @ ks"])
qed

lemma given_back_sel:
  "dk_free (vdisk (given_back js s)) j \<longleftrightarrow> j \<in> set js \<or> dk_free (vdisk s) j"
  "dk_desc (vdisk (given_back js s)) j = (if j \<in> set js then zero_desc else dk_desc (vdisk s) j)"
  "no_proc_locks (given_back js s) = no_proc_locks s"
  by (simp_all add: given_back_def no_proc_locks_def)

lemma free_desc_back: "i < NUM \<Longrightarrow> \<not> dk_free (vdisk s) i \<Longrightarrow> no_proc_locks s \<Longrightarrow> free_desc (int i) s = Ok () (given_back [i] s)"
  using free_descs_at [of "[i]" s] by (simp add: kdo_def ret_def split: outcome.splits)

lemma taken_free: "free_set (vdisk (taken js s)) = free_set (vdisk s) - set js"
  by (auto simp: taken_def)

lemma taken_Nil [simp]: "taken [] s = s"
  by (simp add: taken_def)

lemma taken_snoc: "upd_vdisk (\<lambda>d. d\<lparr>dk_free := (dk_free d)(i := False)\<rparr>) (taken js s) = taken (js @ [i]) s"
  by (auto simp: taken_def fun_eq_iff intro!: virtio_st.fold_congs vdisk.fold_congs)

lemma given_back_taken:
  "set js \<subseteq> free_set (vdisk s) \<Longrightarrow> given_back js (taken js s) = s\<lparr>vdisk := (vdisk s)\<lparr>dk_desc := \<lambda>j. if j \<in> set js then zero_desc else dk_desc (vdisk s) j\<rparr>,
     proc := if js = [] then proc s else wake Chan_disk_free (cpu_proc s) (proc s)\<rparr>"
proof -
  assume "set js \<subseteq> free_set (vdisk s)"
  then have "(\<lambda>j. j \<in> set js \<or> dk_free (vdisk s) j \<and> j \<notin> set js) = dk_free (vdisk s)" by auto
  then show ?thesis by (simp add: given_back_def taken_def cong: if_cong)
qed

lemma alloc3_loop_at:
  assumes "distinct js" and "set js \<subseteq> free_set (vdisk s)" and "no_proc_locks s"
  shows "if length js + n \<le> card (free_set (vdisk s))
    then \<exists>ks. length ks = n \<and> distinct (js @ ks) \<and> set ks \<subseteq> free_set (vdisk s) \<and>
      alloc3_loop n (map int js) (taken js s) = Ok (Some (map int (js @ ks))) (taken (js @ ks) s)
    else \<exists>ks. set ks \<subseteq> free_set (vdisk s) \<and> alloc3_loop n (map int js) (taken js s) = Ok None (given_back ks (taken ks s))"
  using assms
proof (induction n arbitrary: js)
  case 0
  have "length js \<le> card (free_set (vdisk s))" using 0(1,2) by (metis card_mono distinct_card free_set_finite)
  then show ?case using 0 by (simp add: kern_simps)
next
  case (Suc n)
  have le: "length js \<le> card (free_set (vdisk s))" using Suc.prems(1,2) by (metis card_mono distinct_card free_set_finite)
  show ?case
  proof (cases "free_set (vdisk (taken js s)) = {}")
    case True
    then have "free_set (vdisk s) = set js" using Suc.prems(2) unfolding taken_free by auto
    then have c: "\<not> length js + Suc n \<le> card (free_set (vdisk s))" using Suc.prems(1) by (simp add: distinct_card)
    have "for_each (map int js) free_desc (taken js s) = Ok () (given_back js (taken js s))"
      using Suc.prems by (intro free_descs_at) (auto simp: taken_def no_proc_locks_def)
    then have "alloc3_loop (Suc n) (map int js) (taken js s) = Ok None (given_back js (taken js s))"
      by (simp add: kdo_Ok [where m = alloc_desc, OF alloc_desc_none [OF True]] kdo_Ok kern_simps)
    then show ?thesis using c Suc.prems(2) by auto
  next
    case False
    obtain i where i: "i \<in> free_set (vdisk (taken js s))" "alloc_desc (taken js s) = Ok (int i) (taken (js @ [i]) s)"
      by (rule alloc_desc_some [OF False, unfolded taken_snoc])
    have e: "alloc3_loop (Suc n) (map int js) (taken js s) = alloc3_loop n (map int (js @ [i])) (taken (js @ [i]) s)"
      by (simp add: kdo_Ok [where m = alloc_desc, OF i(2)])
    have p: "distinct (js @ [i])" "set (js @ [i]) \<subseteq> free_set (vdisk s)" using i(1) Suc.prems(1,2) unfolding taken_free by auto
    show ?thesis
    proof (cases "length js + Suc n \<le> card (free_set (vdisk s))")
      case True
      then obtain ks where "length ks = n" "distinct ((js @ [i]) @ ks)" "set ks \<subseteq> free_set (vdisk s)"
        "alloc3_loop n (map int (js @ [i])) (taken (js @ [i]) s) = Ok (Some (map int ((js @ [i]) @ ks))) (taken ((js @ [i]) @ ks) s)"
        using Suc.IH [OF p Suc.prems(3)] by auto
      then show ?thesis unfolding if_P [OF True] e using p(2) by (intro exI [of _ "i # ks"]) auto
    next
      case False
      then show ?thesis unfolding if_not_P [OF False] e using Suc.IH [OF p Suc.prems(3)] by auto
    qed
  qed
qed

section \<open>What the parts of a request do\<close>

text \<open>The driver's structures after a request has been submitted.\<close>

definition queued :: "nat \<Rightarrow> bool \<Rightarrow> uint64 \<Rightarrow> nat \<Rightarrow> nat \<Rightarrow> nat \<Rightarrow> vdisk \<Rightarrow> vdisk" where
  "queued b w sec i0 i1 i2 d = (virtio_format b w sec i0 i1 i2 d)\<lparr>
     dk_free := (\<lambda>j. dk_free d j \<and> j \<notin> set [i0, i1, i2]),
     dk_info := (dk_info d)(i0 := \<lparr>in_b = Some b, in_status = 0xff\<rparr>),
     dk_avail := (dk_avail d)\<lparr>av_ring := (av_ring (dk_avail d))(unat (av_idx (dk_avail d)) mod NUM := of_nat i0),
       av_idx := av_idx (dk_avail d) + 1\<rparr>\<rparr>"

definition notified :: "regs_fun \<Rightarrow> vdevice \<Rightarrow> vdevice" where
  "notified dev v = v\<lparr>dv_regs := dev VIRTIO_MMIO_QUEUE_NOTIFY 0 (dv_regs v)\<rparr>"

lemma disk_info_all: "x\<lparr>in_status := c, in_b := b\<rparr> = \<lparr>in_b = b, in_status = c\<rparr>" for x :: disk_info
  by (cases x) simp

lemma submit_ok:
  assumes "held s = {Vdisk_lock}" and "3 \<le> card (free_set (vdisk s))"
  obtains i0 i1 i2 where "distinct [i0, i1, i2]" and "{i0, i1, i2} \<subseteq> free_set (vdisk s)"
    and "virtio_disk_rw_submit dev b w sec s = Ok i0 (s\<lparr>vdisk := queued b w sec i0 i1 i2 (vdisk s),
      buf := (buf s)(b := (buf s b)\<lparr>b_disk := True\<rparr>), vdev := notified dev (vdev s)\<rparr>)"
proof -
  have np: "no_proc_locks s" using assms(1) by (simp add: no_proc_locks_def)
  obtain ks where ks: "length ks = 3" "distinct ks" "set ks \<subseteq> free_set (vdisk s)" "alloc3_desc s = Ok (Some (map int ks)) (taken ks s)"
    using alloc3_loop_at [of "[]" s 3, OF _ _ np] assms(2) unfolding alloc3_desc_def by auto
  obtain i0 i1 i2 where k: "ks = [i0, i1, i2]" using ks(1) by (auto simp: length_Suc_conv eval_nat_numeral)
  let ?d = "virtio_format b w sec i0 i1 i2 ((vdisk s)\<lparr>dk_free := \<lambda>j. dk_free (vdisk s) j \<and> j \<notin> set [i0, i1, i2]\<rparr>)"
  have q: "?d\<lparr>dk_info := (dk_info ?d)(i0 := (dk_info ?d i0)\<lparr>in_b := Some b\<rparr>),
      dk_avail := (dk_avail ?d)\<lparr>av_ring := (av_ring (dk_avail ?d))(unat (av_idx (dk_avail ?d)) mod NUM := of_nat i0), av_idx := av_idx (dk_avail ?d) + 1\<rparr>\<rparr>
    = queued b w sec i0 i1 i2 (vdisk s)"
    by (rule vdisk.equality) (simp_all add: queued_def virtio_format_def Let_def disk_info_all)
  have "virtio_disk_rw_submit dev b w sec s = Ok i0 (s\<lparr>vdisk := queued b w sec i0 i1 i2 (vdisk s),
      buf := (buf s)(b := (buf s b)\<lparr>b_disk := True\<rparr>), vdev := notified dev (vdev s)\<rparr>)"
    unfolding q [symmetric] virtio_disk_rw_submit_def kdo_Ok [where m = alloc3_desc, OF ks(4)] k
    by (simp add: kern_simps mmio_put_def taken_def notified_def)
  then show thesis using that ks(2,3) unfolding k by auto
qed

lemma submit_sleeps:
  assumes "held s = {Vdisk_lock}" and "cpu_proc s = Some p" and "\<not> 3 \<le> card (free_set (vdisk s))"
  obtains D P where "virtio_disk_rw_submit dev b w sec s = Switch (s\<lparr>vdisk := (vdisk s)\<lparr>dk_desc := D\<rparr>, held := {Proc_lock p}, proc := P\<rparr>)"
    and "\<forall>j. j \<notin> free_set (vdisk s) \<longrightarrow> D j = dk_desc (vdisk s) j"
    and "\<forall>q. q \<noteq> p \<longrightarrow> P q = proc s q \<or> P q = (proc s q)\<lparr>p_state := RUNNABLE\<rparr>" and "p_state (P p) = SLEEPING" and "p_chan (P p) = Some Chan_disk_free"
proof -
  have np: "no_proc_locks s" using assms(1) by (simp add: no_proc_locks_def)
  obtain ks where ks: "set ks \<subseteq> free_set (vdisk s)" "alloc3_desc s = Ok None (given_back ks (taken ks s))"
    using alloc3_loop_at [of "[]" s 3, OF _ _ np] assms(3) unfolding alloc3_desc_def by auto
  let ?t = "s\<lparr>vdisk := (vdisk s)\<lparr>dk_desc := \<lambda>j. if j \<in> set ks then zero_desc else dk_desc (vdisk s) j\<rparr>,
     proc := if ks = [] then proc s else wake Chan_disk_free (cpu_proc s) (proc s)\<rparr>"
  have "virtio_disk_rw_submit dev b w sec s = sleep Chan_disk_free Vdisk_lock ?t"
    unfolding virtio_disk_rw_submit_def kdo_Ok [where m = alloc3_desc, OF ks(2)] given_back_taken [OF ks(1)] by simp
  also have "\<dots> = Switch (upd_proc p (\<lambda>q. q\<lparr>p_chan := Some Chan_disk_free, p_state := SLEEPING\<rparr>) (?t\<lparr>held := {Proc_lock p}\<rparr>))"
    using assms(1,2) by (intro sleep_at) simp_all
  finally have e: "virtio_disk_rw_submit dev b w sec s = \<dots>" .
  show thesis
    by (rule that [OF e [simplified]]) (use ks(1) in \<open>auto simp: wake_def\<close>)
qed

lemma wait_busy:
  assumes "held s = {Vdisk_lock}" and "cpu_proc s = Some p" and "b_disk (buf s b)"
  shows "virtio_disk_rw_wait b i s =
    Switch (s\<lparr>held := {Proc_lock p}, proc := (proc s)(p := (proc s p)\<lparr>p_chan := Some (Chan_buf b), p_state := SLEEPING\<rparr>)\<rparr>)"
  using assms by (simp add: virtio_disk_rw_wait_def kern_simps sleep_at)

text \<open>A chain of descriptors that holds a request.\<close>

definition request :: "vdisk \<Rightarrow> nat \<Rightarrow> bool \<Rightarrow> uint64 \<Rightarrow> nat \<Rightarrow> nat \<Rightarrow> nat \<Rightarrow> bool" where
  "request d b w sec i i1 i2 \<longleftrightarrow> i < NUM \<and> i1 < NUM \<and> i2 < NUM \<and> distinct [i, i1, i2] \<and>
     \<not> dk_free d i \<and> \<not> dk_free d i1 \<and> \<not> dk_free d i2 \<and>
     dk_desc d i = \<lparr>vd_addr = Op_addr i, vd_len = 16, vd_flags = VRING_DESC_F_NEXT, vd_next = of_nat i1\<rparr> \<and>
     dk_desc d i1 = \<lparr>vd_addr = Data_addr b, vd_len = of_nat BSIZE, vd_flags = (if w then 0 else VRING_DESC_F_WRITE) OR VRING_DESC_F_NEXT, vd_next = of_nat i2\<rparr> \<and>
     dk_desc d i2 = \<lparr>vd_addr = Status_addr i, vd_len = 1, vd_flags = VRING_DESC_F_WRITE, vd_next = 0\<rparr> \<and>
     dk_ops d i = \<lparr>rq_type = (if w then VIRTIO_BLK_T_OUT else VIRTIO_BLK_T_IN), rq_reserved = 0, rq_sector = sec\<rparr>"

lemma unat_small: "i < NUM \<Longrightarrow> unat (of_nat i :: ushort) = i" "i < NUM \<Longrightarrow> unat (of_nat i :: uint) = i"
  by (simp_all add: unsigned_of_nat take_bit_nat_eq_self NUM_def)

lemma uint_small: "i < NUM \<Longrightarrow> uint (of_nat i :: ushort) = int i"
  using unat_small(1) [of i] by (metis uint_nat)

lemma free_chain_at:
  assumes r: "request (vdisk s) b w sec i i1 i2" and np: "no_proc_locks s"
  shows "free_chain (int i) s = Ok () (given_back [i, i1, i2] s)"
proof -
  let ?g = "\<lambda>js. given_back js s"
  have flags: "((if w then 0 else VRING_DESC_F_WRITE) OR VRING_DESC_F_NEXT) AND VRING_DESC_F_NEXT \<noteq> 0" "VRING_DESC_F_NEXT AND VRING_DESC_F_NEXT \<noteq> 0"
    "VRING_DESC_F_WRITE AND VRING_DESC_F_NEXT = 0" by (simp_all add: VRING_DESC_F_WRITE_def VRING_DESC_F_NEXT_def)
  note q = r [unfolded request_def]
  have 1: "free_desc (int i) s = Ok () (?g [i])" using q by (intro free_desc_back np) simp_all
  have 2: "free_desc (int i1) (?g [i]) = Ok () (?g [i, i1])"
    using free_desc_back [of i1 "?g [i]"] q np by (simp add: given_back_sel given_back_append)
  have 3: "free_desc (int i2) (?g [i, i1]) = Ok () (?g [i, i1, i2])"
    using free_desc_back [of i2 "?g [i, i1]"] q np by (simp add: given_back_sel given_back_append)
  have n: "NUM + 1 = Suc (Suc (Suc 6))" by (simp add: NUM_def)
  have d: "dk_desc (vdisk (?g [i])) i1 = dk_desc (vdisk s) i1" "dk_desc (vdisk (?g [i, i1])) i2 = dk_desc (vdisk s) i2"
    using q by (simp_all add: given_back_sel)
  show ?thesis unfolding free_chain_def n free_chain_loop.simps(2)
    using q flags by (simp add: kern_simps kdo_Ok [where m = "free_desc _", OF 1] kdo_Ok [where m = "free_desc _", OF 2]
      kdo_Ok [where m = "free_desc _", OF 3] d unat_small uint_small)
qed

lemma wait_done:
  assumes "request (vdisk s) b w sec i i1 i2" and "held s = {Vdisk_lock}" and "\<not> b_disk (buf s b)"
  shows "virtio_disk_rw_wait b i s =
    Ok () (given_back [i, i1, i2] (upd_vdisk (\<lambda>d. d\<lparr>dk_info := (dk_info d)(i := (dk_info d i)\<lparr>in_b := None\<rparr>)\<rparr>) (s\<lparr>held := {}\<rparr>)))"
proof -
  let ?t = "upd_vdisk (\<lambda>d. d\<lparr>dk_info := (dk_info d)(i := (dk_info d i)\<lparr>in_b := None\<rparr>)\<rparr>) s"
  have "free_chain (int i) ?t = Ok () (given_back [i, i1, i2] ?t)"
    by (rule free_chain_at [where b = b and w = w and sec = sec]) (use assms in \<open>simp_all add: request_def no_proc_locks_def\<close>)
  then show ?thesis using assms(2,3)
    by (simp add: virtio_disk_rw_wait_def kern_simps kdo_Ok [where m = "free_chain _"]) (simp add: given_back_def kern_simps cong: if_cong)
qed

section \<open>The invariant\<close>

text \<open>
  The requests on their way: submitted and not seen by the device, in the device's hands, and served but not yet seen by the
  interrupt handler; each by the head of its chain.
\<close>

definition pend :: "vdisk \<Rightarrow> ushort \<Rightarrow> nat list" where
  "pend d seen = map unat (ring NUM (av_ring (dk_avail d)) seen (av_idx (dk_avail d)))"

definition doneq :: "vdisk \<Rightarrow> nat list" where
  "doneq d = map (unat \<circ> ue_id) (ring NUM (us_ring (dk_used d)) (dk_used_idx d) (us_idx (dk_used d)))"

definition heads :: "vdisk \<Rightarrow> ushort \<Rightarrow> nat list \<Rightarrow> nat list" where
  "heads d seen busy = pend d seen @ busy @ doneq d"

text \<open>The descriptors of the chain that starts at \<open>i\<close>.\<close>

definition chain :: "vdisk \<Rightarrow> nat \<Rightarrow> nat set" where
  "chain d i = (let j = unat (vd_next (dk_desc d i)) in {i, j, unat (vd_next (dk_desc d j))})"

lemma request_chain: "request d b w sec i i1 i2 \<Longrightarrow> chain d i = {i, i1, i2}"
  by (simp add: request_def chain_def unat_small)

text \<open>
  The invariant of the shared structures: with \<open>bd\<close> the flags \<^verbatim>\<open>b->disk\<close> and \<open>bn\<close> the block numbers of the buffers, processes in the
  driver have buffers of their own, those that wait have a request in a chain of their own, descriptors in no chain are free, each
  request under way is in exactly one of the three places above, and the ones served have status 0.
\<close>

definition vq_threads :: "vdisk \<Rightarrow> (nat \<Rightarrow> uint) \<Rightarrow> (nat \<Rightarrow> vthread) \<Rightarrow> bool" where
  "vq_threads d bn T \<longleftrightarrow>
     (\<forall>p b w sec. T p = Wants b w sec \<longrightarrow> sec = sector_of (bn b)) \<and>
     (\<forall>p b. vbuf (T p) = Some b \<longrightarrow> p < NPROC \<and> b < NBUF \<and> unat (bn b) < 2 ^ 31) \<and>
     (\<forall>p q b. vbuf (T p) = Some b \<and> vbuf (T q) = Some b \<longrightarrow> p = q) \<and>
     (\<forall>p b w i. T p = Waits b w i \<longrightarrow> in_b (dk_info d i) = Some b \<and> (\<exists>i1 i2. request d b w (sector_of (bn b)) i i1 i2)) \<and>
     (\<forall>p q b w i b' w' i'. T p = Waits b w i \<and> T q = Waits b' w' i' \<and> p \<noteq> q \<longrightarrow> chain d i \<inter> chain d i' = {}) \<and>
     (\<forall>j<NUM. \<not> dk_free d j \<longrightarrow> (\<exists>p b w i. T p = Waits b w i \<and> j \<in> chain d i))"

definition vq_rings :: "vdisk \<Rightarrow> ushort \<Rightarrow> nat list \<Rightarrow> (nat \<Rightarrow> bool) \<Rightarrow> (nat \<Rightarrow> vthread) \<Rightarrow> bool" where
  "vq_rings d seen busy bd T \<longleftrightarrow>
     distinct (heads d seen busy) \<and>
     (\<forall>i. i \<in> set (heads d seen busy) \<longleftrightarrow> (\<exists>p b w. T p = Waits b w i \<and> bd b)) \<and>
     (\<forall>i\<in>set (doneq d). in_status (dk_info d i) = 0)"

definition vq_inv :: "'a virtio_st_scheme \<Rightarrow> (nat \<Rightarrow> vthread) \<Rightarrow> bool" where
  "vq_inv s T \<longleftrightarrow> vq_threads (vdisk s) (\<lambda>b. b_blockno (buf s b)) T \<and>
     vq_rings (vdisk s) (dv_seen (vdev s)) (dv_busy (vdev s)) (\<lambda>b. b_disk (buf s b)) T"

text \<open>No wakeup is lost: a process in the driver sleeps only as long as what it waits for is not there.\<close>

primrec waits_rightly :: "'a virtio_st_scheme \<Rightarrow> proc \<Rightarrow> vthread \<Rightarrow> bool" where
  "waits_rightly s q Out = True"
| "waits_rightly s q (Wants b w sec) = (p_chan q = Some Chan_disk_free \<and> card (free_set (vdisk s)) < 3)"
| "waits_rightly s q (Waits b w i) = (p_chan q = Some (Chan_buf b) \<and> b_disk (buf s b))"

definition vsleep :: "'a virtio_st_scheme \<Rightarrow> (nat \<Rightarrow> vthread) \<Rightarrow> bool" where
  "vsleep s T \<longleftrightarrow> (\<forall>p. p_state (proc s p) = SLEEPING \<longrightarrow> waits_rightly s (proc s p) (T p))"

definition vinv :: "'a vsys \<Rightarrow> bool" where
  "vinv x \<longleftrightarrow> vq_inv (fst x) (snd x) \<and> vsleep (fst x) (snd x)"

lemma vq_threadsD:
  assumes "vq_threads d bn T"
  shows "T p = Wants b w sec \<Longrightarrow> sec = sector_of (bn b)"
    and "vbuf (T p) = Some b \<Longrightarrow> p < NPROC \<and> b < NBUF \<and> unat (bn b) < 2 ^ 31"
    and "vbuf (T p) = Some b \<Longrightarrow> vbuf (T q) = Some b \<Longrightarrow> p = q"
    and "T p = Waits b w i \<Longrightarrow> in_b (dk_info d i) = Some b"
    and "T p = Waits b w i \<Longrightarrow> \<exists>i1 i2. request d b w (sector_of (bn b)) i i1 i2"
    and "T p = Waits b w i \<Longrightarrow> T q = Waits b' w' i' \<Longrightarrow> p \<noteq> q \<Longrightarrow> chain d i \<inter> chain d i' = {}"
    and "j < NUM \<Longrightarrow> \<not> dk_free d j \<Longrightarrow> \<exists>p b w i. T p = Waits b w i \<and> j \<in> chain d i"
  using assms unfolding vq_threads_def by metis+

text \<open>A head of a chain belongs to one process.\<close>

lemma vq_head_unique:
  assumes "vq_threads d bn T" and "T p = Waits b w i" and "T q = Waits b' w' i"
  shows "p = q"
proof (rule ccontr)
  assume "p \<noteq> q"
  from vq_threadsD(6) [OF assms this] show False by (simp add: chain_def Let_def)
qed

lemma vq_heads_small:
  assumes "vq_threads d bn T" and "vq_rings d seen busy bd T"
  shows "set (heads d seen busy) \<subseteq> {..<NUM}" and "length (heads d seen busy) \<le> NUM"
proof -
  show "set (heads d seen busy) \<subseteq> {..<NUM}"
  proof
    fix i assume "i \<in> set (heads d seen busy)"
    then obtain p b w where "T p = Waits b w i" using assms(2) unfolding vq_rings_def by auto
    from vq_threadsD(5) [OF assms(1) this] show "i \<in> {..<NUM}" by (auto simp: request_def)
  qed
  then have "card (set (heads d seen busy)) \<le> NUM" using card_mono [of "{..<NUM}"] by force
  moreover have "distinct (heads d seen busy)" using assms(2) unfolding vq_rings_def by simp
  ultimately show "length (heads d seen busy) \<le> NUM" by (simp add: distinct_card)
qed

section \<open>The invariant is kept\<close>

lemma request_cong:
  assumes "request d b w sec i i1 i2" and "\<And>j. \<not> dk_free d j \<Longrightarrow> \<not> dk_free d' j \<and> dk_desc d' j = dk_desc d j"
    and "dk_ops d' i = dk_ops d i"
  shows "request d' b w sec i i1 i2" and "chain d' i = chain d i"
proof -
  show r: "request d' b w sec i i1 i2" using assms unfolding request_def by metis
  show "chain d' i = chain d i" using request_chain [OF r] request_chain [OF assms(1)] by simp
qed

text \<open>Nothing about the processes depends on descriptors that are free, on the rings or on status bytes.\<close>

lemma vq_threads_weaken:
  assumes th: "vq_threads d bn T" and fr: "dk_free d' = dk_free d" and op: "dk_ops d' = dk_ops d"
    and ib: "\<And>i. in_b (dk_info d' i) = in_b (dk_info d i)" and de: "\<And>j. \<not> dk_free d j \<Longrightarrow> dk_desc d' j = dk_desc d j"
    and bn: "\<And>p b. vbuf (T p) = Some b \<Longrightarrow> bn' b = bn b"
  shows "vq_threads d' bn' T"
proof -
  note D = vq_threadsD [OF th]
  have rq: "\<exists>i1 i2. request d' b w (sector_of (bn' b)) i i1 i2" "chain d' i = chain d i" if T: "T p = Waits b w i" for p b w i
  proof -
    obtain i1 i2 where r: "request d b w (sector_of (bn b)) i i1 i2" using D(5) [OF T] by blast
    have "\<And>j. \<not> dk_free d j \<Longrightarrow> \<not> dk_free d' j \<and> dk_desc d' j = dk_desc d j" "dk_ops d' i = dk_ops d i" using fr de op by auto
    from request_cong [OF r this] show "\<exists>i1 i2. request d' b w (sector_of (bn' b)) i i1 i2" "chain d' i = chain d i" using bn [of p b] T by auto
  qed
  show ?thesis unfolding vq_threads_def
  proof (intro conjI allI impI)
    show "sec = sector_of (bn' b)" if "T p = Wants b w sec" for p b w sec using D(1) [OF that] bn [of p b] that by simp
    show "p < NPROC" "b < NBUF" "unat (bn' b) < 2 ^ 31" if "vbuf (T p) = Some b" for p b using D(2) [OF that] bn [OF that] by auto
    show "p = q" if "vbuf (T p) = Some b \<and> vbuf (T q) = Some b" for p q b using D(3) that by blast
    show "in_b (dk_info d' i) = Some b" if "T p = Waits b w i" for p b w i using D(4) [OF that] ib by simp
    show "\<exists>i1 i2. request d' b w (sector_of (bn' b)) i i1 i2" if "T p = Waits b w i" for p b w i by (rule rq(1) [OF that])
    show "chain d' i \<inter> chain d' i' = {}" if "T p = Waits b w i \<and> T q = Waits b' w' i' \<and> p \<noteq> q" for p q b w i b' w' i'
      using that rq(2) [of p b w i] rq(2) [of q b' w' i'] D(6) [of p b w i q b' w' i'] by simp
    show "\<exists>p b w i. T p = Waits b w i \<and> j \<in> chain d' i" if j: "j < NUM" "\<not> dk_free d' j" for j
    proof -
      obtain p b w i where "T p = Waits b w i" "j \<in> chain d i" using D(7) [of j] j fr by auto
      then show ?thesis using rq(2) by blast
    qed
  qed
qed

text \<open>A process that is not waiting for a request is not part of the rest.\<close>

lemma vq_threads_wants:
  assumes th: "vq_threads d bn T" and T: "\<And>b w i. T p \<noteq> Waits b w i" and sec: "sec = sector_of (bn b)"
    and ok: "p < NPROC" "b < NBUF" "unat (bn b) < 2 ^ 31" "\<And>q. q \<noteq> p \<Longrightarrow> vbuf (T q) \<noteq> Some b"
  shows "vq_threads d bn (T(p := Wants b w sec))"
proof -
  note D = vq_threadsD [OF th]
  show ?thesis unfolding vq_threads_def
  proof (intro conjI allI impI)
    show "sec' = sector_of (bn b')" if "(T(p := Wants b w sec)) q = Wants b' w' sec'" for q b' w' sec'
      using D(1) [of q b' w' sec'] that sec by (auto split: if_splits)
    show "q < NPROC" "b' < NBUF" "unat (bn b') < 2 ^ 31" if "vbuf ((T(p := Wants b w sec)) q) = Some b'" for q b'
      using D(2) [of q b'] that ok by (auto split: if_splits)
    show "q = r" if "vbuf ((T(p := Wants b w sec)) q) = Some b' \<and> vbuf ((T(p := Wants b w sec)) r) = Some b'" for q r b'
      using D(3) [of q b' r] that ok(4) by (auto split: if_splits)
    show "in_b (dk_info d i) = Some b'" if "(T(p := Wants b w sec)) q = Waits b' w' i" for q b' w' i
      using D(4) [of q b' w' i] that by (auto split: if_splits)
    show "\<exists>i1 i2. request d b' w' (sector_of (bn b')) i i1 i2" if "(T(p := Wants b w sec)) q = Waits b' w' i" for q b' w' i
      using D(5) [of q b' w' i] that by (auto split: if_splits)
    show "chain d i \<inter> chain d i' = {}"
      if "(T(p := Wants b w sec)) q = Waits b1 w1 i \<and> (T(p := Wants b w sec)) r = Waits b' w' i' \<and> q \<noteq> r" for q r b1 w1 i b' w' i'
      using D(6) [of q b1 w1 i r b' w' i'] that by (auto split: if_splits)
    show "\<exists>q b' w' i. (T(p := Wants b w sec)) q = Waits b' w' i \<and> j \<in> chain d i" if j: "j < NUM" "\<not> dk_free d j" for j
    proof -
      obtain q b' w' i where q: "T q = Waits b' w' i" "j \<in> chain d i" using D(7) [OF j] by blast
      then have "q \<noteq> p" using T by blast
      then show ?thesis using q by (intro exI [of _ q] exI [of _ b'] exI [of _ w'] exI [of _ i]) auto
    qed
  qed
qed

text \<open>Submitting a request.\<close>

lemma queued_old:
  assumes "{i0, i1, i2} \<subseteq> free_set d" and "\<not> dk_free d j"
  shows "\<not> dk_free (queued b w sec i0 i1 i2 d) j \<and> dk_desc (queued b w sec i0 i1 i2 d) j = dk_desc d j"
    and "dk_ops (queued b w sec i0 i1 i2 d) j = dk_ops d j" and "dk_info (queued b w sec i0 i1 i2 d) j = dk_info d j"
  using assms by (auto simp: queued_def virtio_format_def Let_def)

lemma queued_request:
  "distinct [i0, i1, i2] \<Longrightarrow> {i0, i1, i2} \<subseteq> free_set d \<Longrightarrow> request (queued b w sec i0 i1 i2 d) b w sec i0 i1 i2"
  by (auto simp: request_def queued_def virtio_format_def Let_def)

lemma vq_threads_queued:
  assumes th: "vq_threads d bn T" and T: "\<And>b w i. T p \<noteq> Waits b w i" and sec: "sec = sector_of (bn b)"
    and ok: "p < NPROC" "b < NBUF" "unat (bn b) < 2 ^ 31" "\<And>q. q \<noteq> p \<Longrightarrow> vbuf (T q) \<noteq> Some b"
    and dist: "distinct [i0, i1, i2]" and fr: "{i0, i1, i2} \<subseteq> free_set d"
  shows "vq_threads (queued b w sec i0 i1 i2 d) bn (T(p := Waits b w i0))" (is "vq_threads ?d _ ?T")
proof -
  note D = vq_threadsD [OF th]
  note new = queued_request [OF dist fr, of b w sec]
  have old: "T q = Waits b' w' i" if "?T q = Waits b' w' i" "q \<noteq> p" for q b' w' i using that by simp
  have rq: "\<exists>j1 j2. request ?d b' w' (sector_of (bn b')) i j1 j2" "chain ?d i = chain d i" "chain d i \<inter> {i0, i1, i2} = {}" "in_b (dk_info ?d i) = Some b'"
    if q: "T q = Waits b' w' i" for q b' w' i
  proof -
    obtain j1 j2 where r: "request d b' w' (sector_of (bn b')) i j1 j2" using D(5) [OF q] by blast
    then have nf: "\<not> dk_free d i" "\<not> dk_free d j1" "\<not> dk_free d j2" by (simp_all add: request_def)
    note c = request_cong [OF r queued_old(1) [OF fr] queued_old(2) [OF fr nf(1)]]
    show "\<exists>j1 j2. request ?d b' w' (sector_of (bn b')) i j1 j2" "chain ?d i = chain d i" using c by blast+
    show "chain d i \<inter> {i0, i1, i2} = {}" using nf fr unfolding request_chain [OF r] by auto
    show "in_b (dk_info ?d i) = Some b'" using queued_old(3) [OF fr nf(1)] D(4) [OF q] by simp
  qed
  show ?thesis unfolding vq_threads_def
  proof (intro conjI allI impI)
    show "sec' = sector_of (bn b')" if "?T q = Wants b' w' sec'" for q b' w' sec' using D(1) [of q b' w' sec'] that by (auto split: if_splits)
    show "q < NPROC" "b' < NBUF" "unat (bn b') < 2 ^ 31" if "vbuf (?T q) = Some b'" for q b' using D(2) [of q b'] that ok by (auto split: if_splits)
    show "q = r" if "vbuf (?T q) = Some b' \<and> vbuf (?T r) = Some b'" for q r b' using D(3) [of q b' r] that ok(4) by (auto split: if_splits)
    show "in_b (dk_info ?d i) = Some b'" if "?T q = Waits b' w' i" for q b' w' i
      using that rq(4) [of q b' w' i] by (auto simp: queued_def split: if_splits)
    show "\<exists>j1 j2. request ?d b' w' (sector_of (bn b')) i j1 j2" if "?T q = Waits b' w' i" for q b' w' i
      using that rq(1) [of q b' w' i] new unfolding sec by (cases "q = p") auto
    show "chain ?d i \<inter> chain ?d i' = {}" if "?T q = Waits b1 w1 i \<and> ?T r = Waits b' w' i' \<and> q \<noteq> r" for q r b1 w1 i b' w' i'
      using that D(6) [of q b1 w1 i r b' w' i'] rq(2,3) [of q b1 w1 i] rq(2,3) [of r b' w' i'] request_chain [OF new]
      by (cases "q = p"; cases "r = p") auto
    show "\<exists>q b' w' i. ?T q = Waits b' w' i \<and> j \<in> chain ?d i" if j: "j < NUM" "\<not> dk_free ?d j" for j
    proof (cases "j \<in> {i0, i1, i2}")
      case True
      then show ?thesis using request_chain [OF new] by (intro exI [of _ p] exI [of _ b] exI [of _ w] exI [of _ i0]) simp
    next
      case False
      then have "\<not> dk_free d j" using j(2) by (simp add: queued_def)
      then obtain q b' w' i where q: "T q = Waits b' w' i" "j \<in> chain d i" using D(7) [OF j(1)] by blast
      then have "q \<noteq> p" using T by blast
      then show ?thesis using q rq(2) [OF q(1)] by (intro exI [of _ q] exI [of _ b'] exI [of _ w'] exI [of _ i]) auto
    qed
  qed
qed

text \<open>Returning from a call.\<close>

lemma vq_threads_finish:
  assumes th: "vq_threads d bn T" and T: "T p = Waits b w i" and r: "request d b w sec i i1 i2"
    and fr: "\<And>j. dk_free d' j \<longleftrightarrow> j \<in> {i, i1, i2} \<or> dk_free d j" and op: "dk_ops d' = dk_ops d"
    and de: "\<And>j. j \<notin> {i, i1, i2} \<Longrightarrow> dk_desc d' j = dk_desc d j" and ib: "\<And>j. j \<noteq> i \<Longrightarrow> in_b (dk_info d' j) = in_b (dk_info d j)"
  shows "vq_threads d' bn (T(p := Out))" (is "vq_threads _ _ ?T")
proof -
  note D = vq_threadsD [OF th]
  have ch: "chain d i = {i, i1, i2}" by (rule request_chain [OF r])
  have old: "q \<noteq> p \<and> T q = Waits b' w' k" if "?T q = Waits b' w' k" for q b' w' k using that by (auto split: if_splits)
  have rq: "\<exists>j1 j2. request d' b' w' (sector_of (bn b')) k j1 j2" "chain d' k = chain d k" "chain d k \<inter> {i, i1, i2} = {}" "in_b (dk_info d' k) = Some b'"
    if q: "?T q = Waits b' w' k" for q b' w' k
  proof -
    have Tq: "q \<noteq> p" "T q = Waits b' w' k" using old [OF q] by auto
    obtain j1 j2 where k: "request d b' w' (sector_of (bn b')) k j1 j2" using D(5) [OF Tq(2)] by blast
    have c: "chain d k = {k, j1, j2}" by (rule request_chain [OF k])
    have dj: "{k, j1, j2} \<inter> {i, i1, i2} = {}" using D(6) [OF Tq(2) T Tq(1)] unfolding ch c .
    then have "k \<notin> {i, i1, i2}" "j1 \<notin> {i, i1, i2}" "j2 \<notin> {i, i1, i2}" by blast+
    then have k': "request d' b' w' (sector_of (bn b')) k j1 j2" using k unfolding request_def fr op by (simp add: de)
    show "\<exists>j1 j2. request d' b' w' (sector_of (bn b')) k j1 j2" using k' by blast
    show "chain d' k = chain d k" using request_chain [OF k'] c by simp
    show "chain d k \<inter> {i, i1, i2} = {}" using dj c by simp
    show "in_b (dk_info d' k) = Some b'" using ib [of k] dj D(4) [OF Tq(2)] by auto
  qed
  show ?thesis unfolding vq_threads_def
  proof (intro conjI allI impI)
    show "sec' = sector_of (bn b')" if "?T q = Wants b' w' sec'" for q b' w' sec' using D(1) [of q b' w' sec'] that by (auto split: if_splits)
    show "q < NPROC" "b' < NBUF" "unat (bn b') < 2 ^ 31" if "vbuf (?T q) = Some b'" for q b' using D(2) [of q b'] that by (auto split: if_splits)
    show "q = r" if "vbuf (?T q) = Some b' \<and> vbuf (?T r) = Some b'" for q r b' using D(3) [of q b' r] that by (auto split: if_splits)
    show "in_b (dk_info d' k) = Some b'" if "?T q = Waits b' w' k" for q b' w' k by (rule rq(4) [OF that])
    show "\<exists>j1 j2. request d' b' w' (sector_of (bn b')) k j1 j2" if "?T q = Waits b' w' k" for q b' w' k by (rule rq(1) [OF that])
    show "chain d' k \<inter> chain d' k' = {}" if "?T q = Waits b1 w1 k \<and> ?T r = Waits b' w' k' \<and> q \<noteq> r" for q r b1 w1 k b' w' k'
      using that D(6) [of q b1 w1 k r b' w' k'] rq(2) [of q b1 w1 k] rq(2) [of r b' w' k'] by (auto split: if_splits)
    show "\<exists>q b' w' k. ?T q = Waits b' w' k \<and> j \<in> chain d' k" if j: "j < NUM" "\<not> dk_free d' j" for j
    proof -
      have nf: "\<not> dk_free d j" "j \<notin> {i, i1, i2}" using j(2) fr by auto
      obtain q b' w' k where q: "T q = Waits b' w' k" "j \<in> chain d k" using D(7) [OF j(1) nf(1)] by blast
      have "q \<noteq> p"
      proof
        assume "q = p"
        then have "k = i" using q(1) T by simp
        then show False using q(2) ch nf(2) by simp
      qed
      then have t: "?T q = Waits b' w' k" using q(1) by simp
      show ?thesis by (intro exI [of _ q] exI [of _ b'] exI [of _ w'] exI [of _ k] conjI t) (use q(2) rq(2) [OF t] in simp)
    qed
  qed
qed

text \<open>The requests that move from one place to the next.\<close>

lemma vq_rings_perm:
  assumes "vq_rings d seen busy bd T" and "distinct (heads d' seen' busy')" and "set (heads d' seen' busy') = set (heads d seen busy)"
    and "\<And>i. i \<in> set (doneq d') \<Longrightarrow> i \<in> set (doneq d) \<or> in_status (dk_info d' i) = 0"
    and "\<And>i. i \<in> set (doneq d) \<Longrightarrow> dk_info d' i = dk_info d i"
  shows "vq_rings d' seen' busy' bd T"
proof -
  have "in_status (dk_info d' i) = 0" if i: "i \<in> set (doneq d')" for i
    using assms(4) [OF i] assms(5) [of i] assms(1) unfolding vq_rings_def by auto
  then show ?thesis using assms(1-3) unfolding vq_rings_def by simp
qed

lemma vq_rings_fetch:
  assumes v: "vq_rings d seen busy bd T" and ne: "seen \<noteq> av_idx (dk_avail d)"
  shows "vq_rings d (seen + 1) (busy @ [unat (av_ring (dk_avail d) (unat seen mod NUM))]) bd T"
proof -
  have p: "pend d seen = unat (av_ring (dk_avail d) (unat seen mod NUM)) # pend d (seen + 1)"
    unfolding pend_def ring_pop [OF ne] by simp
  show ?thesis
    by (rule vq_rings_perm [OF v]) (use v in \<open>auto simp: vq_rings_def heads_def p\<close>)
qed

definition reported :: "nat \<Rightarrow> uchar \<Rightarrow> nat \<Rightarrow> vdisk \<Rightarrow> vdisk" where
  "reported i st n d = d\<lparr>dk_info := (dk_info d)(i := (dk_info d i)\<lparr>in_status := st\<rparr>),
     dk_used := (dk_used d)\<lparr>us_ring := (us_ring (dk_used d))(unat (us_idx (dk_used d)) mod NUM := \<lparr>ue_id = of_nat i, ue_len = of_nat n\<rparr>),
       us_idx := us_idx (dk_used d) + 1\<rparr>\<rparr>"

lemma doneq_reported:
  assumes "i < NUM" and "length (doneq d) < NUM"
  shows "doneq (reported i st n d) = doneq d @ [i]"
proof -
  have "ring NUM ((us_ring (dk_used d))(unat (us_idx (dk_used d)) mod NUM := x)) (dk_used_idx d) (us_idx (dk_used d) + 1)
    = ring NUM (us_ring (dk_used d)) (dk_used_idx d) (us_idx (dk_used d)) @ [x]" for x
    using assms(2) by (intro ring_push) (simp_all add: doneq_def NUM_def)
  then show ?thesis using assms(1) by (simp add: doneq_def reported_def unat_small)
qed

lemma vq_rings_report:
  assumes th: "vq_threads d bn T" and v: "vq_rings d seen busy bd T" and i: "i \<in> set busy"
  shows "vq_rings (reported i 0 n d) seen (remove1 i busy) bd T"
proof -
  have ds: "distinct (heads d seen busy)" using v unfolding vq_rings_def by simp
  have small: "i < NUM" using vq_heads_small(1) [OF th v] i by (auto simp: heads_def)
  have "0 < length busy" using i by (cases busy) auto
  then have "length (doneq d) < NUM" using vq_heads_small(2) [OF th v] unfolding heads_def length_append by linarith
  then have dq: "doneq (reported i 0 n d) = doneq d @ [i]" by (rule doneq_reported [OF small])
  have pe: "pend (reported i 0 n d) seen = pend d seen" by (simp add: pend_def reported_def)
  have inf: "dk_info (reported i 0 n d) j = (if j = i then (dk_info d i)\<lparr>in_status := 0\<rparr> else dk_info d j)" for j by (simp add: reported_def)
  have out: "i \<notin> set (doneq d)" "i \<notin> set (pend d seen)" "distinct busy" using ds i by (auto simp: heads_def)
  show ?thesis
    by (rule vq_rings_perm [OF v]) (use ds out i in \<open>auto simp: heads_def dq pe inf\<close>)
qed

lemma pend_queued:
  assumes "i0 < NUM" and "length (pend d seen) < NUM"
  shows "pend (queued b w sec i0 i1 i2 d) seen = pend d seen @ [i0]"
proof -
  have "ring NUM ((av_ring (dk_avail d))(unat (av_idx (dk_avail d)) mod NUM := x)) seen (av_idx (dk_avail d) + 1)
    = ring NUM (av_ring (dk_avail d)) seen (av_idx (dk_avail d)) @ [x]" for x
    using assms(2) by (intro ring_push) (simp_all add: pend_def NUM_def)
  then show ?thesis using assms(1) by (simp add: pend_def queued_def unat_small)
qed

lemma vq_ringsD:
  assumes "vq_rings d seen busy bd T"
  shows "distinct (heads d seen busy)" and "i \<in> set (heads d seen busy) \<longleftrightarrow> (\<exists>p b w. T p = Waits b w i \<and> bd b)"
    and "i \<in> set (doneq d) \<Longrightarrow> in_status (dk_info d i) = 0"
  using assms unfolding vq_rings_def by simp_all

lemma vq_head_owner:
  assumes "vq_threads d bn T" and "vq_rings d seen busy bd T" and "i \<in> set (heads d seen busy)"
  obtains p b w i1 i2 where "T p = Waits b w i" and "bd b" and "request d b w (sector_of (bn b)) i i1 i2" and "in_b (dk_info d i) = Some b"
proof -
  obtain p b w where p: "T p = Waits b w i" "bd b" using vq_ringsD(2) [OF assms(2)] assms(3) by blast
  then show thesis using that vq_threadsD(4,5) [OF assms(1)] by blast
qed

lemma vq_rings_queued:
  assumes th: "vq_threads d bn T" and v: "vq_rings d seen busy bd T" and T: "\<And>b w i. T p \<noteq> Waits b w i"
    and own: "\<And>q. q \<noteq> p \<Longrightarrow> vbuf (T q) \<noteq> Some b" and fr: "{i0, i1, i2} \<subseteq> free_set d"
  shows "vq_rings (queued b w sec i0 i1 i2 d) seen busy (bd(b := True)) (T(p := Waits b w i0))" (is "vq_rings ?d _ _ ?bd ?T")
proof -
  have nf: "\<not> dk_free d i" if "i \<in> set (heads d seen busy)" for i
    by (rule vq_head_owner [OF th v that]) (simp add: request_def)
  then have i0: "i0 \<notin> set (heads d seen busy)" "i0 < NUM" using fr by auto
  have "length (heads d seen busy) = card (set (heads d seen busy))" using vq_ringsD(1) [OF v] by (simp add: distinct_card)
  also have "\<dots> < card {..<NUM}" using vq_heads_small(1) [OF th v] i0 by (intro psubset_card_mono) auto
  finally have "length (pend d seen) < NUM" unfolding heads_def length_append by simp
  then have pe: "pend ?d seen = pend d seen @ [i0]" by (rule pend_queued [OF i0(2)])
  have dq: "doneq ?d = doneq d" by (simp add: doneq_def queued_def virtio_format_def Let_def)
  have hd: "set (heads ?d seen busy) = insert i0 (set (heads d seen busy))" by (auto simp: heads_def pe dq)
  have "distinct (heads ?d seen busy)" using vq_ringsD(1) [OF v] i0(1) by (auto simp: heads_def pe dq)
  moreover have "i \<in> set (heads ?d seen busy) \<longleftrightarrow> (\<exists>q b' w'. ?T q = Waits b' w' i \<and> ?bd b')" for i
  proof
    assume "i \<in> set (heads ?d seen busy)"
    then consider "i = i0" | "i \<in> set (heads d seen busy)" unfolding hd by auto
    then show "\<exists>q b' w'. ?T q = Waits b' w' i \<and> ?bd b'"
    proof cases
      case 1
      then show ?thesis by (intro exI [of _ p] exI [of _ b] exI [of _ w]) simp
    next
      case 2
      then obtain q b' w' where q: "T q = Waits b' w' i" "bd b'" by (rule vq_head_owner [OF th v])
      then have "q \<noteq> p" using T by blast
      then show ?thesis using q by (intro exI [of _ q] exI [of _ b'] exI [of _ w']) simp
    qed
  next
    assume "\<exists>q b' w'. ?T q = Waits b' w' i \<and> ?bd b'"
    then obtain q b' w' where q: "?T q = Waits b' w' i" "?bd b'" by blast
    show "i \<in> set (heads ?d seen busy)"
    proof (cases "q = p")
      case True
      then show ?thesis using q hd by simp
    next
      case False
      then have "T q = Waits b' w' i" "b' \<noteq> b" using q own [of q] by auto
      then have "i \<in> set (heads d seen busy)" using q(2) vq_ringsD(2) [OF v, of i] by auto
      then show ?thesis using hd by simp
    qed
  qed
  moreover have "in_status (dk_info ?d i) = 0" if "i \<in> set (doneq ?d)" for i
    using queued_old(3) [OF fr, of i] nf [of i] that vq_ringsD(3) [OF v, of i] by (auto simp: dq heads_def)
  ultimately show ?thesis unfolding vq_rings_def by blast
qed

lemma vq_rings_finish:
  assumes th: "vq_threads d bn T" and v: "vq_rings d seen busy bd T" and T: "T p = Waits b w i" and b: "\<not> bd b"
    and d: "dk_avail d' = dk_avail d" "dk_used d' = dk_used d" "dk_used_idx d' = dk_used_idx d" "\<And>j. in_status (dk_info d' j) = in_status (dk_info d j)"
  shows "vq_rings d' seen busy bd (T(p := Out))"
proof -
  have h: "pend d' seen = pend d seen" "doneq d' = doneq d" by (simp_all add: pend_def doneq_def d)
  have "(\<exists>q b' w'. (T(p := Out)) q = Waits b' w' k \<and> bd b') \<longleftrightarrow> (\<exists>q b' w'. T q = Waits b' w' k \<and> bd b')" for k
    using T b by (metis fun_upd_apply vthread.distinct(3) vthread.inject(2))
  then show ?thesis using v unfolding vq_rings_def heads_def h d(4) by simp
qed

lemma vq_rings_intr:
  assumes th: "vq_threads d bn T" and v: "vq_rings d seen busy bd T" and q: "doneq d = x # rest" and T: "T p = Waits b w x"
    and d: "dk_avail d' = dk_avail d" "doneq d' = rest" "dk_info d' = dk_info d"
  shows "vq_rings d' seen busy (bd(b := False)) T"
proof -
  have pe: "pend d' seen = pend d seen" by (simp add: pend_def d)
  have h: "heads d seen busy = pend d seen @ busy @ x # rest" "heads d' seen busy = pend d seen @ busy @ rest" by (simp_all add: heads_def pe d(2) q)
  have hd: "set (heads d' seen busy) = set (heads d seen busy) - {x}" "distinct (heads d' seen busy)"
    using vq_ringsD(1) [OF v] unfolding h by auto
  have "i \<in> set (heads d' seen busy) \<longleftrightarrow> (\<exists>q b' w'. T q = Waits b' w' i \<and> (bd(b := False)) b')" for i
  proof
    assume i: "i \<in> set (heads d' seen busy)"
    then have "i \<in> set (heads d seen busy)" using hd(1) by simp
    then obtain q b' w' where q: "T q = Waits b' w' i" "bd b'" by (rule vq_head_owner [OF th v])
    have "b' \<noteq> b"
    proof
      assume "b' = b"
      then have "q = p" using vq_threadsD(3) [OF th, of q b p] q(1) T by simp
      then show False using q(1) T i hd(1) by simp
    qed
    then show "\<exists>q b' w'. T q = Waits b' w' i \<and> (bd(b := False)) b'" using q by (intro exI [of _ q] exI [of _ b'] exI [of _ w']) simp
  next
    assume "\<exists>q b' w'. T q = Waits b' w' i \<and> (bd(b := False)) b'"
    then obtain q b' w' where q: "T q = Waits b' w' i" "b' \<noteq> b" "bd b'" by (auto split: if_splits)
    have "i \<noteq> x"
    proof
      assume "i = x"
      then have "q = p" using vq_head_unique [OF th _ T, of q b' w'] q(1) by simp
      then show False using q(1,2) T by simp
    qed
    moreover have "i \<in> set (heads d seen busy)" using q(1,3) vq_ringsD(2) [OF v, of i] by blast
    ultimately show "i \<in> set (heads d' seen busy)" using hd(1) by simp
  qed
  then show ?thesis using hd(2) vq_ringsD(3) [OF v] unfolding vq_rings_def d(2,3) q by simp
qed

text \<open>The steps of processes.\<close>

lemma enter_driver: "acquire Vdisk_lock (on_cpu p s) = Ok () (s\<lparr>cpu_proc := Some p, held := {Vdisk_lock}\<rparr>)"
  by (simp add: on_cpu_def kern_simps)

lemma resume_driver:
  "sleep_resume Vdisk_lock (back_on_cpu p s) =
    Ok () (s\<lparr>cpu_proc := Some p, held := {Vdisk_lock}, proc := (proc s)(p := (proc s p)\<lparr>p_chan := None\<rparr>)\<rparr>)"
  by (simp add: back_on_cpu_def sleep_resume_def kern_simps)

lemma vrunE:
  assumes "vrun dev b w sec s u x" and "held s = {Vdisk_lock}" and "cpu_proc s = Some p"
  obtains (full) D P where "x = Wants b w sec" and "u = s\<lparr>vdisk := (vdisk s)\<lparr>dk_desc := D\<rparr>, held := {Proc_lock p}, proc := P\<rparr>"
      and "\<And>j. j \<notin> free_set (vdisk s) \<Longrightarrow> D j = dk_desc (vdisk s) j" and "\<And>q. q \<noteq> p \<Longrightarrow> P q = proc s q \<or> P q = (proc s q)\<lparr>p_state := RUNNABLE\<rparr>"
      and "p_chan (P p) = Some Chan_disk_free" and "card (free_set (vdisk s)) < 3"
  | (queued) i0 i1 i2 where "x = Waits b w i0" and "distinct [i0, i1, i2]" and "{i0, i1, i2} \<subseteq> free_set (vdisk s)"
      and "u = s\<lparr>vdisk := queued b w sec i0 i1 i2 (vdisk s), buf := (buf s)(b := (buf s b)\<lparr>b_disk := True\<rparr>), vdev := notified dev (vdev s),
        held := {Proc_lock p}, proc := (proc s)(p := (proc s p)\<lparr>p_chan := Some (Chan_buf b), p_state := SLEEPING\<rparr>)\<rparr>"
proof (cases "3 \<le> card (free_set (vdisk s))")
  case True
  obtain i0 i1 i2 where i: "distinct [i0, i1, i2]" "{i0, i1, i2} \<subseteq> free_set (vdisk s)"
    "virtio_disk_rw_submit dev b w sec s = Ok i0 (s\<lparr>vdisk := queued b w sec i0 i1 i2 (vdisk s),
      buf := (buf s)(b := (buf s b)\<lparr>b_disk := True\<rparr>), vdev := notified dev (vdev s)\<rparr>)" (is "_ = Ok _ ?t")
    by (rule submit_ok [OF assms(2) True])
  have w: "virtio_disk_rw_wait b i0 ?t = Switch (?t\<lparr>held := {Proc_lock p}, proc := (proc ?t)(p := (proc ?t p)\<lparr>p_chan := Some (Chan_buf b), p_state := SLEEPING\<rparr>)\<rparr>)"
    using assms(2,3) by (intro wait_busy) simp_all
  have "x = Waits b w i0 \<and> u = ?t\<lparr>held := {Proc_lock p}, proc := (proc ?t)(p := (proc ?t p)\<lparr>p_chan := Some (Chan_buf b), p_state := SLEEPING\<rparr>)\<rparr>"
    using assms(1) by cases (use i(3) w in auto)
  then show thesis using queued [OF _ i(1,2)] by simp
next
  case False
  obtain D P where D: "virtio_disk_rw_submit dev b w sec s = Switch (s\<lparr>vdisk := (vdisk s)\<lparr>dk_desc := D\<rparr>, held := {Proc_lock p}, proc := P\<rparr>)"
    "\<forall>j. j \<notin> free_set (vdisk s) \<longrightarrow> D j = dk_desc (vdisk s) j"
    "\<forall>q. q \<noteq> p \<longrightarrow> P q = proc s q \<or> P q = (proc s q)\<lparr>p_state := RUNNABLE\<rparr>" "p_state (P p) = SLEEPING" "p_chan (P p) = Some Chan_disk_free"
    by (rule submit_sleeps [OF assms(2,3) False, where dev = dev and b = b and w = w and sec = sec])
  have "x = Wants b w sec \<and> u = s\<lparr>vdisk := (vdisk s)\<lparr>dk_desc := D\<rparr>, held := {Proc_lock p}, proc := P\<rparr>"
    using assms(1) by cases (use D(1) in auto)
  then show thesis using full [OF _ _ D(2) [rule_format] D(3) [rule_format] D(5)] False by simp
qed

text \<open>A process other than the one that runs keeps waiting rightly when the free descriptors become no more and no request ends.\<close>

lemma waits_rightly_mono:
  assumes "waits_rightly s q x" and "card (free_set (vdisk t)) \<le> card (free_set (vdisk s))" and "\<And>b. vbuf x = Some b \<Longrightarrow> b_disk (buf s b) \<Longrightarrow> b_disk (buf t b)"
  shows "waits_rightly t q x"
  using assms by (cases x) auto

lemma vrun_inv:
  assumes r: "vrun dev b w sec s u x" and h: "held s = {Vdisk_lock}" "cpu_proc s = Some p"
    and inv: "vq_inv s T" and sl: "\<And>q. q \<noteq> p \<Longrightarrow> p_state (proc s q) = SLEEPING \<Longrightarrow> waits_rightly s (proc s q) (T q)"
    and T: "\<And>b w i. T p \<noteq> Waits b w i" and sec: "sec = sector_of (b_blockno (buf s b))"
    and ok: "p < NPROC" "b < NBUF" "unat (b_blockno (buf s b)) < 2 ^ 31" "\<And>q. q \<noteq> p \<Longrightarrow> vbuf (T q) \<noteq> Some b"
  shows "vinv (u, T(p := x))"
proof -
  let ?bn = "\<lambda>b. b_blockno (buf s b)"
  let ?bd = "\<lambda>b. b_disk (buf s b)"
  have th: "vq_threads (vdisk s) ?bn T" and ri: "vq_rings (vdisk s) (dv_seen (vdev s)) (dv_busy (vdev s)) ?bd T"
    using inv by (simp_all add: vq_inv_def)
  show ?thesis using r h
  proof (cases rule: vrunE)
    case (full D P)
    have "vq_threads (vdisk s) ?bn (T(p := x))" unfolding full(1) by (rule vq_threads_wants [OF th T sec ok])
    then have t: "vq_threads (vdisk u) (\<lambda>b. b_blockno (buf u b)) (T(p := x))"
      by (rule vq_threads_weaken) (use full(3) in \<open>simp_all add: full(2)\<close>)
    have "(\<exists>q b' w'. (T(p := x)) q = Waits b' w' k \<and> ?bd b') \<longleftrightarrow> (\<exists>q b' w'. T q = Waits b' w' k \<and> ?bd b')" for k
      using T full(1) by (metis fun_upd_apply vthread.distinct(5))
    then have "vq_rings (vdisk u) (dv_seen (vdev u)) (dv_busy (vdev u)) (\<lambda>b. b_disk (buf u b)) (T(p := x))"
      using ri by (simp add: vq_rings_def full(2) heads_def pend_def doneq_def)
    moreover have "waits_rightly u (proc u q) ((T(p := x)) q)" if q: "p_state (proc u q) = SLEEPING" for q
    proof (cases "q = p")
      case True
      then show ?thesis using full(5,6) by (simp add: full(1,2))
    next
      case False
      then have "proc u q = proc s q" using full(4) [of q] q by (auto simp: full(2))
      then show ?thesis using sl [OF False] q False by (auto intro: waits_rightly_mono simp: full(2))
    qed
    ultimately show ?thesis using t by (simp add: vinv_def vq_inv_def vsleep_def)
  next
    case (queued i0 i1 i2)
    let ?d = "queued b w sec i0 i1 i2 (vdisk s)"
    have "vq_threads ?d ?bn (T(p := x))" unfolding queued(1) by (rule vq_threads_queued [OF th T sec ok queued(2,3)])
    then have t: "vq_threads (vdisk u) (\<lambda>b. b_blockno (buf u b)) (T(p := x))"
      by (rule vq_threads_weaken) (simp_all add: queued(4))
    have bd: "(\<lambda>b'. b_disk (buf u b')) = ?bd(b := True)" by (auto simp: queued(4))
    have "vq_rings (vdisk u) (dv_seen (vdev u)) (dv_busy (vdev u)) (\<lambda>b. b_disk (buf u b)) (T(p := x))"
      using vq_rings_queued [OF th ri T ok(4) queued(3), of w sec] unfolding bd queued(1) by (simp add: queued(4) notified_def)
    moreover have "waits_rightly u (proc u q) ((T(p := x)) q)" if q: "p_state (proc u q) = SLEEPING" for q
    proof (cases "q = p")
      case True
      then show ?thesis by (simp add: queued(1,4))
    next
      case False
      have "card (free_set (vdisk u)) \<le> card (free_set (vdisk s))" by (intro card_mono) (auto simp: queued(4) queued_def)
      then show ?thesis using sl [OF False] q False by (auto intro: waits_rightly_mono simp: queued(4))
    qed
    ultimately show ?thesis using t by (simp add: vinv_def vq_inv_def vsleep_def)
  qed
qed

lemma waitE:
  assumes inv: "vq_inv s T" and T: "T p = Waits b w i" and h: "held s = {Vdisk_lock}" "cpu_proc s = Some p"
  obtains (busy) "b_disk (buf s b)" and "virtio_disk_rw_wait b i s =
      Switch (s\<lparr>held := {Proc_lock p}, proc := (proc s)(p := (proc s p)\<lparr>p_chan := Some (Chan_buf b), p_state := SLEEPING\<rparr>)\<rparr>)"
  | (ready) i1 i2 where "\<not> b_disk (buf s b)" and "request (vdisk s) b w (sector_of (b_blockno (buf s b))) i i1 i2"
      and "virtio_disk_rw_wait b i s = Ok () (given_back [i, i1, i2]
        (upd_vdisk (\<lambda>d. d\<lparr>dk_info := (dk_info d)(i := (dk_info d i)\<lparr>in_b := None\<rparr>)\<rparr>) (s\<lparr>held := {}\<rparr>)))"
proof -
  have th: "vq_threads (vdisk s) (\<lambda>b. b_blockno (buf s b)) T" using inv by (simp add: vq_inv_def)
  obtain i1 i2 where "request (vdisk s) b w (sector_of (b_blockno (buf s b))) i i1 i2" using vq_threadsD(5) [OF th T] by blast
  then show thesis using wait_busy [OF h] wait_done [OF _ h(1)] busy ready by blast
qed

lemma wait_again_inv:
  assumes inv: "vq_inv s T" and T: "T p = Waits b w i" and h: "held s = {Vdisk_lock}" "cpu_proc s = Some p"
    and sl: "\<And>q. q \<noteq> p \<Longrightarrow> p_state (proc s q) = SLEEPING \<Longrightarrow> waits_rightly s (proc s q) (T q)"
    and w: "virtio_disk_rw_wait b i s = Switch u"
  shows "vinv (u, T)"
proof -
  have u: "u = s\<lparr>held := {Proc_lock p}, proc := (proc s)(p := (proc s p)\<lparr>p_chan := Some (Chan_buf b), p_state := SLEEPING\<rparr>)\<rparr>" and b: "b_disk (buf s b)"
    using w by (cases rule: waitE [OF inv T h]; auto)+
  have "waits_rightly u (proc u q) (T q)" if q: "p_state (proc u q) = SLEEPING" for q
  proof (cases "q = p")
    case True
    then show ?thesis using T b by (simp add: u)
  next
    case False
    then show ?thesis using sl [OF False] q by (auto intro: waits_rightly_mono simp: u)
  qed
  then show ?thesis using inv by (simp add: vinv_def vsleep_def vq_inv_def u)
qed

lemma wait_return_inv:
  assumes inv: "vq_inv s T" and T: "T p = Waits b w i" and h: "held s = {Vdisk_lock}" "cpu_proc s = Some p"
    and sl: "\<And>q. q \<noteq> p \<Longrightarrow> p_state (proc s q) = SLEEPING \<Longrightarrow> waits_rightly s (proc s q) (T q)"
    and w: "virtio_disk_rw_wait b i s = Ok () u"
  shows "vinv (u, T(p := Out))"
proof -
  let ?bn = "\<lambda>b. b_blockno (buf s b)"
  let ?bd = "\<lambda>b. b_disk (buf s b)"
  have th: "vq_threads (vdisk s) ?bn T" and ri: "vq_rings (vdisk s) (dv_seen (vdev s)) (dv_busy (vdev s)) ?bd T"
    using inv by (simp_all add: vq_inv_def)
  obtain i1 i2 where b: "\<not> ?bd b" and r: "request (vdisk s) b w (sector_of (?bn b)) i i1 i2"
    and u: "u = given_back [i, i1, i2] (upd_vdisk (\<lambda>d. d\<lparr>dk_info := (dk_info d)(i := (dk_info d i)\<lparr>in_b := None\<rparr>)\<rparr>) (s\<lparr>held := {}\<rparr>))"
    using w by (cases rule: waitE [OF inv T h]) auto
  have U: "buf u = buf s" "vdev u = vdev s" "proc u = wake Chan_disk_free (Some p) (proc s)" using h(2) by (simp_all add: u given_back_def)
  have d: "dk_free (vdisk u) j \<longleftrightarrow> j \<in> {i, i1, i2} \<or> dk_free (vdisk s) j" "dk_ops (vdisk u) = dk_ops (vdisk s)"
    "j \<notin> {i, i1, i2} \<Longrightarrow> dk_desc (vdisk u) j = dk_desc (vdisk s) j" "j \<noteq> i \<Longrightarrow> in_b (dk_info (vdisk u) j) = in_b (dk_info (vdisk s) j)"
    "dk_avail (vdisk u) = dk_avail (vdisk s)" "dk_used (vdisk u) = dk_used (vdisk s)" "dk_used_idx (vdisk u) = dk_used_idx (vdisk s)"
    "in_status (dk_info (vdisk u) j) = in_status (dk_info (vdisk s) j)" for j
    by (simp_all add: u given_back_def)
  have "vq_threads (vdisk u) ?bn (T(p := Out))" by (rule vq_threads_finish [OF th T r d(1,2,3,4)])
  moreover have "vq_rings (vdisk u) (dv_seen (vdev s)) (dv_busy (vdev s)) ?bd (T(p := Out))" by (rule vq_rings_finish [OF th ri T b d(5-8)])
  moreover have "waits_rightly u (proc u q) ((T(p := Out)) q)" if q: "p_state (proc u q) = SLEEPING" for q
  proof (cases "q = p \<or> T q = Out")
    case False
    then obtain b' where "vbuf (T q) = Some b'" by (cases "T q") auto
    then have "q < NPROC" using vq_threadsD(2) [OF th] by blast
    then have s: "proc u q = proc s q" "p_chan (proc s q) \<noteq> Some Chan_disk_free" "p_state (proc s q) = SLEEPING"
      using q False by (auto simp: U wake_def split: if_splits)
    then have "waits_rightly s (proc s q) (T q)" using sl False by blast
    then show ?thesis using s(1,2) False by (cases "T q") (auto simp: U)
  qed auto
  ultimately show ?thesis by (simp add: vinv_def vsleep_def vq_inv_def U)
qed

text \<open>What the handler and the transfer leave alone: the data, the block numbers and the requests that wait for the device.\<close>

definition same_core :: "'a virtio_st_scheme \<Rightarrow> 'a virtio_st_scheme \<Rightarrow> bool" where
  "same_core s t \<longleftrightarrow> disk t = disk s \<and> dwrites t = dwrites s \<and> (\<forall>b. b_data (buf t b) = b_data (buf s b) \<and> b_blockno (buf t b) = b_blockno (buf s b))"

definition waiting :: "'a virtio_st_scheme \<Rightarrow> nat list" where
  "waiting s = pend (vdisk s) (dv_seen (vdev s)) @ dv_busy (vdev s)"

lemma intr_loop_inv:
  assumes "vinv (s, T)" and "held s = {Vdisk_lock}" and "n = length (doneq (vdisk s))" and "\<And>p. cpu_proc s = Some p \<Longrightarrow> p_state (proc s p) \<noteq> SLEEPING"
  shows "\<exists>t. virtio_intr_loop n s = Ok () t \<and> vinv (t, T) \<and> doneq (vdisk t) = [] \<and> held t = {Vdisk_lock} \<and> same_core s t \<and> waiting t = waiting s \<and>
    vdev t = vdev s \<and> dk_avail (vdisk t) = dk_avail (vdisk s)"
  using assms
proof (induction n arbitrary: s)
  case 0
  then have "doneq (vdisk s) = []" by simp
  then have "dk_used_idx (vdisk s) = us_idx (dk_used (vdisk s))" by (simp add: doneq_def ring_empty)
  then show ?case using 0 by (simp add: kern_simps same_core_def)
next
  case (Suc n)
  let ?d = "vdisk s"
  let ?bn = "\<lambda>b. b_blockno (buf s b)"
  let ?bd = "\<lambda>b. b_disk (buf s b)"
  have inv: "vq_inv s T" "vsleep s T" using Suc.prems(1) by (simp_all add: vinv_def)
  have th: "vq_threads ?d ?bn T" and ri: "vq_rings ?d (dv_seen (vdev s)) (dv_busy (vdev s)) ?bd T"
    using inv(1) by (simp_all add: vq_inv_def)
  define x where "x = unat (ue_id (us_ring (dk_used ?d) (unat (dk_used_idx ?d) mod NUM)))"
  define d' where "d' = ?d\<lparr>dk_used_idx := dk_used_idx ?d + 1\<rparr>"
  have ne: "dk_used_idx ?d \<noteq> us_idx (dk_used ?d)"
  proof
    assume "dk_used_idx ?d = us_idx (dk_used ?d)"
    then show False using Suc.prems(3) by (simp add: doneq_def)
  qed
  have q: "doneq ?d = x # doneq d'" unfolding doneq_def ring_pop [OF ne] by (simp add: x_def d'_def)
  have xh: "x \<in> set (heads ?d (dv_seen (vdev s)) (dv_busy (vdev s)))" by (simp add: heads_def q)
  obtain p b w i1 i2 where o: "T p = Waits b w x" "?bd b" "in_b (dk_info ?d x) = Some b" by (rule vq_head_owner [OF th ri xh])
  have st: "in_status (dk_info ?d x) = 0" by (rule vq_ringsD(3) [OF ri]) (simp add: q)
  let ?t = "s\<lparr>buf := (buf s)(b := (buf s b)\<lparr>b_disk := False\<rparr>), proc := wake (Chan_buf b) (cpu_proc s) (proc s), vdisk := d'\<rparr>"
  have np: "no_proc_locks s" using Suc.prems(2) by (simp add: no_proc_locks_def)
  have run: "virtio_intr_loop (Suc n) s = virtio_intr_loop n ?t"
    using ne st o(3) np by (simp add: kern_simps x_def [symmetric] no_proc_locks_def d'_def [symmetric])
  have t: "vq_threads d' (\<lambda>b. b_blockno (buf ?t b)) T" by (rule vq_threads_weaken [OF th]) (simp_all add: d'_def)
  have bd: "(\<lambda>b'. b_disk (buf ?t b')) = ?bd(b := False)" by auto
  have "vq_rings d' (dv_seen (vdev s)) (dv_busy (vdev s)) (?bd(b := False)) T"
    by (rule vq_rings_intr [OF th ri q o(1)]) (simp_all add: d'_def)
  then have r: "vq_rings d' (dv_seen (vdev ?t)) (dv_busy (vdev ?t)) (\<lambda>b'. b_disk (buf ?t b')) T" unfolding bd by simp
  have "waits_rightly ?t (proc ?t k) (T k)" if k: "p_state (proc ?t k) = SLEEPING" for k
  proof (cases "T k")
    case (Waits b' w' i')
    then have kn: "k < NPROC" using vq_threadsD(2) [OF th, of k b'] by simp
    have s: "proc ?t k = proc s k" "p_state (proc s k) = SLEEPING" using k by (auto simp: wake_def split: if_splits)
    then have w: "waits_rightly s (proc s k) (T k)" using inv(2) by (simp add: vsleep_def)
    have "Some k \<noteq> cpu_proc s" using s(2) Suc.prems(4) by auto
    then have "b' \<noteq> b" using w Waits k s kn by (auto simp: wake_def)
    then show ?thesis using w Waits s(1) by simp
  next
    case (Wants b' w' sec')
    have s: "proc ?t k = proc s k" "p_state (proc s k) = SLEEPING" using k by (auto simp: wake_def split: if_splits)
    then have "waits_rightly s (proc s k) (T k)" using inv(2) by (simp add: vsleep_def)
    then show ?thesis using Wants s(1) by (simp add: d'_def)
  qed simp
  then have I: "vinv (?t, T)" using t r by (simp add: vinv_def vsleep_def vq_inv_def)
  have "\<exists>t. virtio_intr_loop n ?t = Ok () t \<and> vinv (t, T) \<and> doneq (vdisk t) = [] \<and> held t = {Vdisk_lock} \<and> same_core ?t t \<and> waiting t = waiting ?t \<and>
      vdev t = vdev ?t \<and> dk_avail (vdisk t) = dk_avail (vdisk ?t)"
  proof (rule Suc.IH [OF I])
    show "n = length (doneq (vdisk ?t))" using Suc.prems(3) q by simp
    show "p_state (proc ?t p) \<noteq> SLEEPING" if "cpu_proc ?t = Some p" for p using Suc.prems(4) [of p] that by (simp add: wake_def)
  qed (use Suc.prems(2) in simp)
  then show ?case unfolding run by (auto simp: same_core_def waiting_def pend_def d'_def)
qed

lemma intr_inv:
  assumes v: "vinv (s, T)" and c: "\<forall>p. c = Some p \<longrightarrow> p_state (proc s p) = RUNNING"
  obtains t where "virtio_disk_intr dev (s\<lparr>cpu_proc := c, held := {}\<rparr>) = Ok () t" and "vinv (t, T)" and "doneq (vdisk t) = []" and "same_core s t"
    and "waiting t = waiting s" and "dv_seen (vdev t) = dv_seen (vdev s)" and "dv_busy (vdev t) = dv_busy (vdev s)"
    and "dk_avail (vdisk t) = dk_avail (vdisk s)"
proof -
  let ?s = "s\<lparr>cpu_proc := c, held := {Vdisk_lock}, vdev := (vdev s)\<lparr>dv_regs :=
    dev VIRTIO_MMIO_INTERRUPT_ACK (dv_regs (vdev s) VIRTIO_MMIO_INTERRUPT_STATUS AND 3) (dv_regs (vdev s))\<rparr>\<rparr>"
  have "waits_rightly ?s q x = waits_rightly s q x" for q x by (cases x) simp_all
  then have i: "vinv (?s, T)" using v by (simp add: vinv_def vq_inv_def vsleep_def)
  have "p_state (proc ?s p) \<noteq> SLEEPING" if "cpu_proc ?s = Some p" for p using c that by simp
  from intr_loop_inv [OF i _ refl this] obtain t where t: "virtio_intr_loop (length (doneq (vdisk ?s))) ?s = Ok () t" "vinv (t, T)" "doneq (vdisk t) = []"
    "held t = {Vdisk_lock}" "same_core ?s t" "waiting t = waiting ?s" "vdev t = vdev ?s" "dk_avail (vdisk t) = dk_avail (vdisk ?s)" by auto
  have n: "length (doneq (vdisk ?s)) = unat (us_idx (dk_used (vdisk s)) - dk_used_idx (vdisk s))" by (simp add: doneq_def)
  have run: "virtio_disk_intr dev (s\<lparr>cpu_proc := c, held := {}\<rparr>) = Ok () (t\<lparr>held := {}\<rparr>)"
    using t(1) [unfolded n] t(4) by (simp add: virtio_disk_intr_def kern_simps mmio_get_def mmio_put_def kdo_Ok [where m = "virtio_intr_loop _"])
  have "waits_rightly (t\<lparr>held := {}\<rparr>) q x = waits_rightly t q x" for q x by (cases x) simp_all
  then have "vinv (t\<lparr>held := {}\<rparr>, T)" using t(2) by (simp add: vinv_def vq_inv_def vsleep_def)
  then show thesis using that [OF run] t(3,5-8) by (simp add: same_core_def waiting_def)
qed

text \<open>The steps of the device.\<close>

lemma vinv_fetch:
  assumes v: "vinv (s, T)" and ne: "dv_seen (vdev s) \<noteq> av_idx (dk_avail (vdisk s))"
  shows "vinv (dev_fetch s, T)" and "set (waiting (dev_fetch s)) = set (waiting s)"
    and "length (pend (vdisk s) (dv_seen (vdev s))) = Suc (length (pend (vdisk (dev_fetch s)) (dv_seen (vdev (dev_fetch s)))))"
proof -
  have ri: "vq_rings (vdisk s) (dv_seen (vdev s)) (dv_busy (vdev s)) (\<lambda>b. b_disk (buf s b)) T" using v by (simp add: vinv_def vq_inv_def)
  have "waits_rightly (dev_fetch s) q x = waits_rightly s q x" for q x by (cases x) (simp_all add: dev_fetch_def)
  then show "vinv (dev_fetch s, T)" using v vq_rings_fetch [OF ri ne] by (simp add: vinv_def vq_inv_def vsleep_def dev_fetch_def)
  have p: "pend (vdisk s) (dv_seen (vdev s)) = unat (av_ring (dk_avail (vdisk s)) (unat (dv_seen (vdev s)) mod NUM)) # pend (vdisk s) (dv_seen (vdev s) + 1)"
    unfolding pend_def ring_pop [OF ne] by simp
  show "set (waiting (dev_fetch s)) = set (waiting s)" by (auto simp: waiting_def dev_fetch_def p)
  show "length (pend (vdisk s) (dv_seen (vdev s))) = Suc (length (pend (vdisk (dev_fetch s)) (dv_seen (vdev (dev_fetch s)))))"
    unfolding p by (simp add: dev_fetch_def)
qed

definition transferred :: "nat \<Rightarrow> bool \<Rightarrow> uint64 \<Rightarrow> 'a virtio_st_scheme \<Rightarrow> 'a virtio_st_scheme" where
  "transferred b w sec s =
     (if w then s\<lparr>disk := sec_write (disk s) sec BSIZE (b_data (buf s b)), dwrites := dwrites s @ [(of_nat (unat sec div 2), b_data (buf s b))]\<rparr>
      else s\<lparr>buf := (buf s)(b := (buf s b)\<lparr>b_data := sec_read (disk s) sec BSIZE (b_data (buf s b))\<rparr>)\<rparr>)"

lemma serve_at:
  assumes "request (vdisk s) b w sec i i1 i2"
  shows "dev_serve i s = (transferred b w sec s)\<lparr>vdisk := reported i 0 (if w then 1 else BSIZE + 1) (vdisk s),
    vdev := (vdev s)\<lparr>dv_busy := remove1 i (dv_busy (vdev s))\<rparr>\<rparr>"
proof -
  have n: "unat (of_nat BSIZE :: uint) = BSIZE" by (simp add: unsigned_of_nat take_bit_nat_eq_self BSIZE_def)
  have f: "VRING_DESC_F_NEXT AND VRING_DESC_F_WRITE = 0" "(VRING_DESC_F_WRITE OR VRING_DESC_F_NEXT) AND VRING_DESC_F_WRITE \<noteq> 0"
    by (simp_all add: VRING_DESC_F_NEXT_def VRING_DESC_F_WRITE_def)
  have ty: "VIRTIO_BLK_T_IN \<noteq> VIRTIO_BLK_T_OUT" by (simp add: VIRTIO_BLK_T_IN_def VIRTIO_BLK_T_OUT_def)
  show ?thesis using assms f ty
    by (cases w) (simp_all add: request_def dev_serve_def Let_def unat_small transferred_def dev_report_def reported_def n)
qed

lemma vinv_serve:
  assumes v: "vinv (s, T)" and i: "i \<in> set (dv_busy (vdev s))"
  obtains p b w where "T p = Waits b w i" and "unat (b_blockno (buf s b)) < 2 ^ 31"
    and "dev_serve i s = (transferred b w (sector_of (b_blockno (buf s b))) s)\<lparr>vdisk := reported i 0 (if w then 1 else BSIZE + 1) (vdisk s),
      vdev := (vdev s)\<lparr>dv_busy := remove1 i (dv_busy (vdev s))\<rparr>\<rparr>"
    and "vinv (dev_serve i s, T)" and "set (waiting (dev_serve i s)) = set (waiting s) - {i}" and "i \<in> set (waiting s)"
    and "length (dv_busy (vdev s)) = Suc (length (dv_busy (vdev (dev_serve i s))))"
proof -
  have th: "vq_threads (vdisk s) (\<lambda>b. b_blockno (buf s b)) T"
    and ri: "vq_rings (vdisk s) (dv_seen (vdev s)) (dv_busy (vdev s)) (\<lambda>b. b_disk (buf s b)) T" using v by (simp_all add: vinv_def vq_inv_def)
  have "i \<in> set (heads (vdisk s) (dv_seen (vdev s)) (dv_busy (vdev s)))" using i by (simp add: heads_def)
  then obtain p b w i1 i2 where o: "T p = Waits b w i" "request (vdisk s) b w (sector_of (b_blockno (buf s b))) i i1 i2"
    by (rule vq_head_owner [OF th ri])
  note e = serve_at [OF o(2)]
  let ?u = "dev_serve i s"
  have bf: "b_blockno (buf ?u k) = b_blockno (buf s k)" "b_disk (buf ?u k) = b_disk (buf s k)" for k
    unfolding e by (simp_all add: transferred_def)
  have p: "proc ?u = proc s" "vdisk ?u = reported i 0 (if w then 1 else BSIZE + 1) (vdisk s)"
    "vdev ?u = (vdev s)\<lparr>dv_busy := remove1 i (dv_busy (vdev s))\<rparr>" unfolding e by (simp_all add: transferred_def)
  have t: "vq_threads (vdisk ?u) (\<lambda>b. b_blockno (buf ?u b)) T"
    by (rule vq_threads_weaken [OF th]) (simp_all add: p(2) bf reported_def)
  have r: "vq_rings (vdisk ?u) (dv_seen (vdev ?u)) (dv_busy (vdev ?u)) (\<lambda>b. b_disk (buf ?u b)) T"
    using vq_rings_report [OF th ri i] by (simp add: p(2,3) bf)
  have "waits_rightly ?u q x = waits_rightly s q x" for q x by (cases x) (simp_all add: p bf reported_def)
  then have inv: "vinv (?u, T)" using v t r by (simp add: vinv_def vq_inv_def vsleep_def p(1))
  have pe: "pend (vdisk ?u) (dv_seen (vdev ?u)) = pend (vdisk s) (dv_seen (vdev s))" by (simp add: p(2,3) pend_def reported_def)
  have ds: "distinct (waiting s)" using vq_ringsD(1) [OF ri] by (auto simp: waiting_def heads_def)
  then have w: "set (waiting ?u) = set (waiting s) - {i}" using i unfolding waiting_def pe by (auto simp: p(3))
  have b: "unat (b_blockno (buf s b)) < 2 ^ 31" using vq_threadsD(2) [OF th, of p b] o(1) by simp
  have l: "length (dv_busy (vdev s)) = Suc (length (dv_busy (vdev ?u)))" using i by (simp add: p(3) length_remove1) (cases "dv_busy (vdev s)"; simp)
  show thesis by (rule that [OF o(1) b e inv w _ l]) (use i in \<open>simp add: waiting_def\<close>)
qed

section \<open>The system and its invariant\<close>

text \<open>The system starts when \<^verbatim>\<open>virtio_disk_init\<close> has returned, with static data zero before and a device that has seen no request.\<close>

definition vstart :: "regs_fun \<Rightarrow> 'a vsys \<Rightarrow> bool" where
  "vstart dev x \<longleftrightarrow> (\<exists>s0. virtio_disk_init dev s0 = Ok () (fst x) \<and> dk_used_idx (vdisk s0) = 0 \<and>
     dv_seen (vdev s0) = 0 \<and> dv_busy (vdev s0) = []) \<and> snd x = (\<lambda>_. Out)"

lemma kalloc_vio:
  fixes s t :: "'a virtio_st_scheme"
  assumes "kalloc s = Ok x t"
  shows "vdisk t = vdisk s \<and> vdev t = vdev s"
  using assms by (auto simp: kalloc_def acquire_def release_def kmonad_defs kwhen_def elim!: kdo_OkE split: if_splits)

lemma mmio_put_vio: "kdo (mmio_put dev r v) f s = f () (s\<lparr>vdev := (vdev s)\<lparr>dv_regs := dev r v (dv_regs (vdev s))\<rparr>\<rparr>)"
  by (simp add: mmio_put_def kern_simps)

lemma mmio_get_vio: "kdo (mmio_get r) f s = f (dv_regs (vdev s) r) s"
  by (simp add: mmio_get_def kern_simps)

lemma negotiate_vio:
  assumes "virtio_negotiate dev s = Ok x t"
  shows "vdisk t = vdisk s \<and> dv_seen (vdev t) = dv_seen (vdev s) \<and> dv_busy (vdev t) = dv_busy (vdev s)"
  using assms by (simp add: virtio_negotiate_def mmio_put_vio mmio_get_vio panic_def ret_def Let_def split: if_splits) auto

lemma free_all: "for_each [0..<n] (\<lambda>i. modify (upd_vdisk (\<lambda>d. d\<lparr>dk_free := (dk_free d)(i := True)\<rparr>))) s
  = Ok () (s\<lparr>vdisk := (vdisk s)\<lparr>dk_free := \<lambda>i. i < n \<or> dk_free (vdisk s) i\<rparr>\<rparr>)"
proof (induction n)
  case 0
  then show ?case by (simp add: kern_simps)
next
  case (Suc n)
  have "(\<lambda>i. i \<noteq> n \<longrightarrow> i < n \<or> dk_free (vdisk s) i) = (\<lambda>i. i < Suc n \<or> dk_free (vdisk s) i)" by auto
  then show ?case using Suc by (simp add: for_each_append kdo_def kmonad_defs)
qed

lemma queue_setup_vio:
  assumes "virtio_queue_setup dev status desc avail used s = Ok () t"
  shows "dk_avail (vdisk t) = zero_avail \<and> dk_used (vdisk t) = zero_used \<and> (\<forall>i<NUM. dk_free (vdisk t) i) \<and> dk_used_idx (vdisk t) = dk_used_idx (vdisk s) \<and>
    dv_seen (vdev t) = dv_seen (vdev s) \<and> dv_busy (vdev t) = dv_busy (vdev s)"
  using assms unfolding virtio_queue_setup_def
  by (simp add: kern_simps mmio_put_vio kdo_Ok [where m = "for_each _ _", OF free_all]) (auto simp: mmio_put_def kern_simps)

lemma init_vio:
  assumes "virtio_disk_init dev s = Ok () t"
  shows "dk_avail (vdisk t) = zero_avail \<and> dk_used (vdisk t) = zero_used \<and> (\<forall>i<NUM. dk_free (vdisk t) i) \<and> dk_used_idx (vdisk t) = dk_used_idx (vdisk s) \<and>
    dv_seen (vdev t) = dv_seen (vdev s) \<and> dv_busy (vdev t) = dv_busy (vdev s)"
proof -
  from assms obtain st s1 a s2 b s3 c s4 where 1: "virtio_negotiate dev s = Ok st s1" "kalloc s1 = Ok a s2"
    "kalloc (upd_vdisk (\<lambda>d. d\<lparr>dk_desc_pa := a\<rparr>) s2) = Ok b s3" "kalloc (upd_vdisk (\<lambda>d. d\<lparr>dk_avail_pa := b\<rparr>) s3) = Ok c s4"
    "virtio_queue_setup dev st a b c (upd_vdisk (\<lambda>d. d\<lparr>dk_used_pa := c\<rparr>) s4) = Ok () t"
    unfolding virtio_disk_init_def by (elim kdo_OkE) (auto simp: kern_simps split: if_splits)
  show ?thesis using negotiate_vio [OF 1(1)] kalloc_vio [OF 1(2)] kalloc_vio [OF 1(3)] kalloc_vio [OF 1(4)] queue_setup_vio [OF 1(5)] by simp
qed

lemma vinv_start:
  assumes "vstart dev x"
  shows "vinv x"
proof -
  obtain s T where x: "x = (s, T)" by (cases x)
  obtain s0 where i: "virtio_disk_init dev s0 = Ok () s" "dk_used_idx (vdisk s0) = 0" "dv_seen (vdev s0) = 0" "dv_busy (vdev s0) = []"
    and T: "T = (\<lambda>_. Out)" using assms by (auto simp: vstart_def x)
  have "heads (vdisk s) (dv_seen (vdev s)) (dv_busy (vdev s)) = []"
    using init_vio [OF i(1)] i(2-4) by (simp add: heads_def pend_def doneq_def ring_empty zero_avail_def zero_used_def)
  then have "vq_rings (vdisk s) (dv_seen (vdev s)) (dv_busy (vdev s)) (\<lambda>b. b_disk (buf s b)) T"
    by (simp add: vq_rings_def T) (simp add: heads_def)
  moreover have "vq_threads (vdisk s) (\<lambda>b. b_blockno (buf s b)) T" using init_vio [OF i(1)] by (simp add: vq_threads_def T)
  ultimately show ?thesis by (simp add: vinv_def vq_inv_def vsleep_def x T)
qed

text \<open>A process at work in the driver has the lock; the others wait as before.\<close>

lemma vinv_on_cpu:
  assumes "vinv (s, T)"
  shows "vq_inv (s\<lparr>cpu_proc := c, held := h, proc := P\<rparr>) T"
    and "p_state (proc s q) = SLEEPING \<Longrightarrow> waits_rightly (s\<lparr>cpu_proc := c, held := h, proc := P\<rparr>) (proc s q) (T q)"
proof -
  show "vq_inv (s\<lparr>cpu_proc := c, held := h, proc := P\<rparr>) T" using assms by (simp add: vinv_def vq_inv_def)
  show "waits_rightly (s\<lparr>cpu_proc := c, held := h, proc := P\<rparr>) (proc s q) (T q)" if "p_state (proc s q) = SLEEPING"
    using assms that by (cases "T q") (auto simp: vinv_def vsleep_def)
qed

lemma vinv_step:
  assumes "vinv x" and "vstep dev x y"
  shows "vinv y"
  using assms(2,1)
proof cases
  case (vstep_call T p b s t w u z)
  have v: "vinv (s, T)" using assms(1) vstep_call by simp
  have t: "t = s\<lparr>cpu_proc := Some p, held := {Vdisk_lock}, proc := proc s\<rparr>" using vstep_call by (auto simp: enter_driver)
  have "vinv (u, T(p := z))"
  proof (rule vrun_inv [OF \<open>vrun dev b w _ t u z\<close>])
    show "vq_inv t T" unfolding t by (rule vinv_on_cpu(1) [OF v])
    show "waits_rightly t (proc t q) (T q)" if "p_state (proc t q) = SLEEPING" for q
      using that vinv_on_cpu(2) [OF v, of q "proc s" "{Vdisk_lock}" "Some p"] by (simp add: t)
  qed (use vstep_call in \<open>simp_all add: t\<close>)
  then show ?thesis using vstep_call by simp
next
  case (vstep_retry T p b w sec s t u z)
  have v: "vinv (s, T)" using assms(1) vstep_retry by simp
  then have th: "vq_threads (vdisk s) (\<lambda>b. b_blockno (buf s b)) T" by (simp add: vinv_def vq_inv_def)
  have t: "t = s\<lparr>cpu_proc := Some p, held := {Vdisk_lock}, proc := (proc s)(p := (proc s p)\<lparr>p_chan := None\<rparr>)\<rparr>" using vstep_retry by (simp add: resume_driver)
  have T: "vbuf (T p) = Some b" using vstep_retry by simp
  have "vinv (u, T(p := z))"
  proof (rule vrun_inv [OF \<open>vrun dev b w sec t u z\<close>])
    show "vq_inv t T" unfolding t by (rule vinv_on_cpu(1) [OF v])
    show "waits_rightly t (proc t q) (T q)" if "q \<noteq> p" "p_state (proc t q) = SLEEPING" for q
      using that vinv_on_cpu(2) [OF v, of q] by (simp add: t)
    show "sec = sector_of (b_blockno (buf t b))" using vq_threadsD(1) [OF th] vstep_retry by (simp add: t)
    show "vbuf (T q) \<noteq> Some b" if "q \<noteq> p" for q using vq_threadsD(3) [OF th T] that by blast
  qed (use vq_threadsD(2) [OF th T] vstep_retry in \<open>simp_all add: t\<close>)
  then show ?thesis using vstep_retry by simp
next
  case (vstep_again T p b w i s t u)
  have v: "vinv (s, T)" using assms(1) vstep_again by simp
  have t: "t = s\<lparr>cpu_proc := Some p, held := {Vdisk_lock}, proc := (proc s)(p := (proc s p)\<lparr>p_chan := None\<rparr>)\<rparr>" using vstep_again by (simp add: resume_driver)
  have "vq_inv t T" unfolding t by (rule vinv_on_cpu(1) [OF v])
  then have "vinv (u, T)"
    by (rule wait_again_inv [of t T p b w i]) (use vstep_again vinv_on_cpu(2) [OF v] in \<open>auto simp: t\<close>)
  then show ?thesis using vstep_again by simp
next
  case (vstep_return T p b w i s t u)
  have v: "vinv (s, T)" using assms(1) vstep_return by simp
  have t: "t = s\<lparr>cpu_proc := Some p, held := {Vdisk_lock}, proc := (proc s)(p := (proc s p)\<lparr>p_chan := None\<rparr>)\<rparr>" using vstep_return by (simp add: resume_driver)
  have "vq_inv t T" unfolding t by (rule vinv_on_cpu(1) [OF v])
  then have "vinv (u, T(p := Out))"
    by (rule wait_return_inv [of t T p b w i]) (use vstep_return vinv_on_cpu(2) [OF v] in \<open>auto simp: t\<close>)
  then show ?thesis using vstep_return by simp
next
  case (vstep_intr c s t T)
  have v: "vinv (s, T)" using assms(1) vstep_intr by simp
  obtain t' where "virtio_disk_intr dev (s\<lparr>cpu_proc := c, held := {}\<rparr>) = Ok () t'" "vinv (t', T)" by (rule intr_inv [OF v \<open>\<forall>p. c = Some p \<longrightarrow> _ p\<close>, of dev])
  then show ?thesis using vstep_intr by simp
next
  case (vstep_fetch s T)
  then show ?thesis using vinv_fetch(1) [of s T] assms(1) by simp
next
  case (vstep_serve i s T)
  have v: "vinv (s, T)" using assms(1) vstep_serve by simp
  have "vinv (dev_serve i s, T)" by (rule vinv_serve [OF v]) (use vstep_serve in auto)
  then show ?thesis using vstep_serve by simp
next
  case (vstep_kernel t s T)
  have v: "vinv (s, T)" using assms(1) vstep_kernel by simp
  then have th: "vq_threads (vdisk s) (\<lambda>b. b_blockno (buf s b)) T" and ri: "vq_rings (vdisk s) (dv_seen (vdev s)) (dv_busy (vdev s)) (\<lambda>b. b_disk (buf s b)) T"
    by (simp_all add: vinv_def vq_inv_def)
  have 1: "vq_threads (vdisk t) (\<lambda>b. b_blockno (buf t b)) T" by (rule vq_threads_weaken [OF th]) (use vstep_kernel in auto)
  have "(\<exists>p b w. T p = Waits b w i \<and> b_disk (buf t b)) \<longleftrightarrow> (\<exists>p b w. T p = Waits b w i \<and> b_disk (buf s b))" for i
    using vstep_kernel by (metis vbuf.simps(3))
  then have 2: "vq_rings (vdisk t) (dv_seen (vdev t)) (dv_busy (vdev t)) (\<lambda>b. b_disk (buf t b)) T" using ri vstep_kernel by (simp add: vq_rings_def)
  have "waits_rightly t (proc t p) (T p)" if p: "p_state (proc t p) = SLEEPING" for p
  proof (cases "T p = Out")
    case False
    then have e: "proc t p = proc s p" using vstep_kernel p by blast
    then have "waits_rightly s (proc s p) (T p)" using v p by (simp add: vinv_def vsleep_def)
    then show ?thesis unfolding e by (rule waits_rightly_mono) (use vstep_kernel in auto)
  qed simp
  then show ?thesis using 1 2 vstep_kernel by (simp add: vinv_def vq_inv_def vsleep_def)
qed

interpretation vdisk_machine: machine "vstart dev" "vstep dev" vinv for dev
  by unfold_locales (rule vinv_start, assumption, rule vinv_step)

section \<open>What the driver provides\<close>

text \<open>
  The specification: the disk, the buffers' data and their block numbers, and for each process whether it is in no call, in a call that has
  not acted yet, or in one that has.  A call acts once, by \<open>disk_rw\<close>.
\<close>

datatype athread = Idle | Called nat bool | Acted nat bool

primrec abuf :: "athread \<Rightarrow> nat option" where
  "abuf Idle = None"
| "abuf (Called b w) = Some b"
| "abuf (Acted b w) = Some b"

definition blk :: "bytes \<Rightarrow> bytes" where
  "blk x = (\<lambda>i. if i < BSIZE then x i else 0)"

type_synonym dcore = "(uint \<Rightarrow> bytes) \<times> (nat \<Rightarrow> bytes) \<times> (nat \<Rightarrow> uint)"

definition dcore_of :: "'a bcache_st_scheme \<Rightarrow> dcore" where
  "dcore_of s = (\<lambda>n. blk (disk s n), \<lambda>b. blk (b_data (buf s b)), \<lambda>b. b_blockno (buf s b))"

inductive astep :: "dcore \<times> (nat \<Rightarrow> athread) \<Rightarrow> dcore \<times> (nat \<Rightarrow> athread) \<Rightarrow> bool" where
  astep_call: "A p = Idle \<Longrightarrow> (\<forall>q. abuf (A q) \<noteq> Some b) \<Longrightarrow> astep (c, A) (c, A(p := Called b w))"
| astep_act: "A p = Called b w \<Longrightarrow> disk_rw b w (s :: bcache_st) = Ok () t \<Longrightarrow> astep (dcore_of s, A) (dcore_of t, A(p := Acted b w))"
| astep_return: "A p = Acted b w \<Longrightarrow> astep (c, A) (c, A(p := Idle))"
| astep_kernel: "(\<forall>p b. abuf (A p) = Some b \<longrightarrow> B' b = B b \<and> N' b = N b) \<Longrightarrow> astep ((D, B, N), A) ((D, B', N'), A)"

text \<open>A call has acted when the device has served its request.\<close>

primrec athread_of :: "nat set \<Rightarrow> vthread \<Rightarrow> athread" where
  "athread_of W Out = Idle"
| "athread_of W (Wants b w sec) = Called b w"
| "athread_of W (Waits b w i) = (if i \<in> W then Called b w else Acted b w)"

definition vabs :: "'a vsys \<Rightarrow> dcore \<times> (nat \<Rightarrow> athread)" where
  "vabs x = (dcore_of (fst x), \<lambda>p. athread_of (set (waiting (fst x))) (snd x p))"

lemma abuf_athread [simp]: "abuf (athread_of W x) = vbuf x"
  by (cases x) simp_all

lemma unat_sector: "unat n < 2 ^ 31 \<Longrightarrow> unat (sector_of n) = 2 * unat n"
  by (simp add: sector_of_def unsigned_ucast_eq unat_word_ariths take_bit_nat_eq_self)

text \<open>On a whole block, the device's transfer of sectors is \<open>disk_rw\<close>.\<close>

lemma sec_read_block: "unat n < 2 ^ 31 \<Longrightarrow> blk (sec_read D (sector_of n) BSIZE x) = blk (D n)"
proof -
  assume n: "unat n < 2 ^ 31"
  have "(2 * unat n * 512 + i) div BSIZE = unat n \<and> (2 * unat n * 512 + i) mod BSIZE = i" if "i < BSIZE" for i
    using that by (simp add: BSIZE_def)
  then show ?thesis by (auto simp: fun_eq_iff blk_def sec_read_def unat_sector [OF n])
qed

lemma sec_write_block: "unat n < 2 ^ 31 \<Longrightarrow> blk (sec_write D (sector_of n) BSIZE x m) = blk ((D(n := x)) m)"
proof -
  assume n: "unat n < 2 ^ 31"
  have "(2 * unat n * 512 \<le> unat m * BSIZE + j \<and> unat m * BSIZE + j < 2 * unat n * 512 + BSIZE) \<longleftrightarrow> unat m = unat n" if "j < BSIZE" for j
    using that by (auto simp: BSIZE_def)
  moreover have "unat m = unat n \<longleftrightarrow> m = n" by (simp add: word_unat_eq_iff)
  ultimately show ?thesis by (auto simp: fun_eq_iff blk_def sec_write_def unat_sector [OF n] Let_def BSIZE_def)
qed

lemma transferred_core:
  fixes s :: "'a virtio_st_scheme"
  assumes "unat (b_blockno (buf s b)) < 2 ^ 31"
  obtains t where "disk_rw b w (bcache_st.truncate s) = Ok () t" and "dcore_of t = dcore_of (transferred b w (sector_of (b_blockno (buf s b))) s)"
  using that assms by (cases w) (auto simp: disk_rw_def kern_simps dcore_of_def transferred_def sec_write_block sec_read_block bcache_st.defs fun_eq_iff)

lemma same_core_dcore: "same_core s t \<Longrightarrow> dcore_of t = dcore_of s"
  by (simp add: same_core_def dcore_of_def)

text \<open>Until its request is served, a process that has called \<^verbatim>\<open>virtio_disk_rw\<close> has not acted.\<close>

lemma vrun_abs:
  assumes r: "vrun dev b w sec s u x" and h: "held s = {Vdisk_lock}" "cpu_proc s = Some p" and inv: "vq_inv s T" and T: "\<And>b w i. T p \<noteq> Waits b w i"
  shows "vabs (u, T(p := x)) = (dcore_of s, (snd (vabs (s, T)))(p := Called b w))"
proof -
  have th: "vq_threads (vdisk s) (\<lambda>b. b_blockno (buf s b)) T" and ri: "vq_rings (vdisk s) (dv_seen (vdev s)) (dv_busy (vdev s)) (\<lambda>b. b_disk (buf s b)) T"
    using inv by (simp_all add: vq_inv_def)
  show ?thesis using r h
  proof (cases rule: vrunE)
    case (full D P)
    have "waiting u = waiting s" by (simp add: full(2) waiting_def pend_def)
    then show ?thesis by (auto simp: vabs_def full(1,2) dcore_of_def fun_eq_iff)
  next
    case (queued i0 i1 i2)
    have nf: "\<not> dk_free (vdisk s) i" if "i \<in> set (heads (vdisk s) (dv_seen (vdev s)) (dv_busy (vdev s)))" for i
      by (rule vq_head_owner [OF th ri that]) (simp add: request_def)
    then have i0: "i0 \<notin> set (heads (vdisk s) (dv_seen (vdev s)) (dv_busy (vdev s)))" "i0 < NUM" using queued(3) by auto
    have "length (heads (vdisk s) (dv_seen (vdev s)) (dv_busy (vdev s))) = card (set (heads (vdisk s) (dv_seen (vdev s)) (dv_busy (vdev s))))"
      using vq_ringsD(1) [OF ri] by (simp add: distinct_card)
    also have "\<dots> < card {..<NUM}" using vq_heads_small(1) [OF th ri] i0 by (intro psubset_card_mono) auto
    finally have "length (pend (vdisk s) (dv_seen (vdev s))) < NUM" unfolding heads_def length_append by simp
    from pend_queued [OF i0(2) this, of b w sec i1 i2]
    have W: "set (waiting u) = insert i0 (set (waiting s))" by (auto simp: waiting_def queued(4) notified_def)
    have "athread_of (insert i0 (set (waiting s))) (T q) = athread_of (set (waiting s)) (T q)" for q
    proof (cases "T q")
      case (Waits b' w' i)
      then have "\<not> dk_free (vdisk s) i" using vq_threadsD(5) [OF th, of q b' w' i] by (auto simp: request_def)
      then show ?thesis using Waits queued(3) by auto
    qed simp_all
    then show ?thesis by (auto simp: vabs_def queued(1) W fun_eq_iff) (simp_all add: queued(4) dcore_of_def fun_eq_iff)
  qed
qed

lemma wait_return_abs:
  assumes inv: "vq_inv s T" and T: "T p = Waits b w i" and h: "held s = {Vdisk_lock}" "cpu_proc s = Some p" and w: "virtio_disk_rw_wait b i s = Ok () u"
  shows "snd (vabs (s, T)) p = Acted b w" and "vabs (u, T(p := Out)) = (dcore_of s, (snd (vabs (s, T)))(p := Idle))"
proof -
  have th: "vq_threads (vdisk s) (\<lambda>b. b_blockno (buf s b)) T" and ri: "vq_rings (vdisk s) (dv_seen (vdev s)) (dv_busy (vdev s)) (\<lambda>b. b_disk (buf s b)) T"
    using inv by (simp_all add: vq_inv_def)
  obtain i1 i2 where b: "\<not> b_disk (buf s b)"
    and u: "u = given_back [i, i1, i2] (upd_vdisk (\<lambda>d. d\<lparr>dk_info := (dk_info d)(i := (dk_info d i)\<lparr>in_b := None\<rparr>)\<rparr>) (s\<lparr>held := {}\<rparr>))"
    using w by (cases rule: waitE [OF inv T h]) auto
  have "i \<notin> set (waiting s)"
  proof
    assume "i \<in> set (waiting s)"
    then have "i \<in> set (heads (vdisk s) (dv_seen (vdev s)) (dv_busy (vdev s)))" by (auto simp: waiting_def heads_def)
    then obtain q b' w' where "T q = Waits b' w' i" "b_disk (buf s b')" by (rule vq_head_owner [OF th ri])
    then show False using vq_head_unique [OF th T] T b by auto
  qed
  then show "snd (vabs (s, T)) p = Acted b w" using T by (simp add: vabs_def)
  have "waiting u = waiting s" "dcore_of u = dcore_of s" by (simp_all add: u given_back_def waiting_def pend_def dcore_of_def)
  then show "vabs (u, T(p := Out)) = (dcore_of s, (snd (vabs (s, T)))(p := Idle))" by (auto simp: vabs_def fun_eq_iff)
qed

lemma vabs_step:
  assumes v: "vinv x" and st: "vstep dev x y"
  shows "vabs y = vabs x \<or> astep (vabs x) (vabs y)"
  using st
proof cases
  case (vstep_call T p b s t w u z)
  have v: "vinv (s, T)" using v vstep_call by simp
  have t: "t = s\<lparr>cpu_proc := Some p, held := {Vdisk_lock}, proc := proc s\<rparr>" using vstep_call by (auto simp: enter_driver)
  have a: "vabs (t, T) = vabs (s, T)" by (simp add: vabs_def t dcore_of_def waiting_def)
  have "vq_inv t T" unfolding t by (rule vinv_on_cpu(1) [OF v])
  from vrun_abs [OF \<open>vrun dev b w _ t u z\<close> _ _ this, of p] have "vabs (u, T(p := z)) = (dcore_of t, (snd (vabs (t, T)))(p := Called b w))"
    using vstep_call by (simp add: t)
  moreover have "astep (vabs (t, T)) (dcore_of t, (snd (vabs (t, T)))(p := Called b w))"
    using astep_call [of "snd (vabs (t, T))" p b "dcore_of t" w] vstep_call by (simp add: vabs_def)
  ultimately show ?thesis using vstep_call a by simp
next
  case (vstep_retry T p b w sec s t u z)
  have v: "vinv (s, T)" using v vstep_retry by simp
  have t: "t = s\<lparr>cpu_proc := Some p, held := {Vdisk_lock}, proc := (proc s)(p := (proc s p)\<lparr>p_chan := None\<rparr>)\<rparr>" using vstep_retry by (simp add: resume_driver)
  have a: "vabs (t, T) = vabs (s, T)" by (simp add: vabs_def t dcore_of_def waiting_def)
  have "vq_inv t T" unfolding t by (rule vinv_on_cpu(1) [OF v])
  from vrun_abs [OF \<open>vrun dev b w _ t u z\<close> _ _ this, of p] have "vabs (u, T(p := z)) = (dcore_of t, (snd (vabs (t, T)))(p := Called b w))"
    using vstep_retry by (simp add: t)
  also have "\<dots> = vabs (t, T)" using vstep_retry by (auto simp: vabs_def fun_eq_iff)
  finally show ?thesis using vstep_retry a by simp
next
  case (vstep_again T p b w i s t u)
  have v: "vinv (s, T)" using v vstep_again by simp
  have t: "t = s\<lparr>cpu_proc := Some p, held := {Vdisk_lock}, proc := (proc s)(p := (proc s p)\<lparr>p_chan := None\<rparr>)\<rparr>" using vstep_again by (simp add: resume_driver)
  have "vq_inv t T" unfolding t by (rule vinv_on_cpu(1) [OF v])
  then have "u = t\<lparr>held := {Proc_lock p}, proc := (proc t)(p := (proc t p)\<lparr>p_chan := Some (Chan_buf b), p_state := SLEEPING\<rparr>)\<rparr>"
    by (rule waitE [of t T p b w i]) (use vstep_again in \<open>auto simp: t\<close>)
  then have "vabs (u, T) = vabs (s, T)" by (simp add: vabs_def t dcore_of_def waiting_def)
  then show ?thesis using vstep_again by simp
next
  case (vstep_return T p b w i s t u)
  have v: "vinv (s, T)" using v vstep_return by simp
  have t: "t = s\<lparr>cpu_proc := Some p, held := {Vdisk_lock}, proc := (proc s)(p := (proc s p)\<lparr>p_chan := None\<rparr>)\<rparr>" using vstep_return by (simp add: resume_driver)
  have a: "vabs (t, T) = vabs (s, T)" by (simp add: vabs_def t dcore_of_def waiting_def)
  have i: "vq_inv t T" unfolding t by (rule vinv_on_cpu(1) [OF v])
  have h: "held t = {Vdisk_lock}" "cpu_proc t = Some p" by (simp_all add: t)
  note ab = wait_return_abs [OF i \<open>T p = Waits b w i\<close> h \<open>virtio_disk_rw_wait b i t = Ok () u\<close>]
  have "astep (vabs (t, T)) (vabs (u, T(p := Out)))" unfolding ab(2)
    using astep_return [of "snd (vabs (t, T))" p b w "dcore_of t"] ab(1) by (simp add: vabs_def)
  then show ?thesis using vstep_return a by simp
next
  case (vstep_intr c s t T)
  have v: "vinv (s, T)" using v vstep_intr by simp
  obtain t' where "virtio_disk_intr dev (s\<lparr>cpu_proc := c, held := {}\<rparr>) = Ok () t'" "same_core s t'" "waiting t' = waiting s" by (rule intr_inv [OF v \<open>\<forall>p. c = Some p \<longrightarrow> _ p\<close>, of dev])
  then have "vabs (t, T) = vabs (s, T)" using vstep_intr by (simp add: vabs_def same_core_dcore)
  then show ?thesis using vstep_intr by simp
next
  case (vstep_fetch s T)
  have "vabs (dev_fetch s, T) = vabs (s, T)" using vinv_fetch(2) [of s T] v vstep_fetch by (simp add: vabs_def) (simp add: dev_fetch_def dcore_of_def)
  then show ?thesis using vstep_fetch by simp
next
  case (vstep_serve i s T)
  have v: "vinv (s, T)" using v vstep_serve by simp
  then have th: "vq_threads (vdisk s) (\<lambda>b. b_blockno (buf s b)) T" by (simp add: vinv_def vq_inv_def)
  obtain p b w where p: "T p = Waits b w i" "unat (b_blockno (buf s b)) < 2 ^ 31"
    "dev_serve i s = (transferred b w (sector_of (b_blockno (buf s b))) s)\<lparr>vdisk := reported i 0 (if w then 1 else BSIZE + 1) (vdisk s),
      vdev := (vdev s)\<lparr>dv_busy := remove1 i (dv_busy (vdev s))\<rparr>\<rparr>" "set (waiting (dev_serve i s)) = set (waiting s) - {i}" "i \<in> set (waiting s)"
    by (rule vinv_serve [OF v \<open>i \<in> set (dv_busy (vdev s))\<close>])
  obtain t where t: "disk_rw b w (bcache_st.truncate s) = Ok () t" "dcore_of t = dcore_of (transferred b w (sector_of (b_blockno (buf s b))) s)"
    by (rule transferred_core [OF p(2)])
  have "athread_of (set (waiting s) - {i}) (T q) = athread_of (set (waiting s)) (T q)" if "q \<noteq> p" for q
  proof (cases "T q")
    case (Waits b' w' i')
    then have "i' \<noteq> i" using vq_head_unique [OF th p(1), of q b' w'] that by auto
    then show ?thesis using Waits by simp
  qed simp_all
  then have A: "(\<lambda>q. athread_of (set (waiting (dev_serve i s))) (T q)) = (\<lambda>q. athread_of (set (waiting s)) (T q))(p := Acted b w)"
    using p(1) unfolding p(4) by (auto simp: fun_eq_iff)
  have "dcore_of (dev_serve i s) = dcore_of (transferred b w (sector_of (b_blockno (buf s b))) s)" by (simp add: p(3) dcore_of_def)
  then have c: "dcore_of (dev_serve i s) = dcore_of t" "dcore_of (bcache_st.truncate s) = dcore_of s" by (simp_all add: t(2)) (simp add: dcore_of_def bcache_st.defs)
  have "astep (vabs (s, T)) (vabs (dev_serve i s, T))"
    using astep_act [of "\<lambda>q. athread_of (set (waiting s)) (T q)" p b w, OF _ t(1)] p(1,5) by (simp add: vabs_def A c)
  then show ?thesis using vstep_serve by simp
next
  case (vstep_kernel t s T)
  have w: "waiting t = waiting s" using vstep_kernel by (simp add: waiting_def)
  have "astep (vabs (s, T)) (vabs (t, T))" unfolding vabs_def dcore_of_def
    using vstep_kernel by (simp add: w) (rule astep_kernel, auto)
  then show ?thesis using vstep_kernel by simp
qed


text \<open>An outcome that is not a panic and not an endless loop.\<close>

fun fine :: "('a, 's) outcome \<Rightarrow> bool" where
  "fine (Ok x s) = True"
| "fine (Switch s) = True"
| "fine (Panic e) = False"
| "fine Diverge = False"

lemma submit_fine:
  assumes "held s = {Vdisk_lock}" and "cpu_proc s = Some p"
  shows "fine (kdo (virtio_disk_rw_submit dev b w sec) (virtio_disk_rw_wait b) s)"
proof (cases "3 \<le> card (free_set (vdisk s))")
  case True
  obtain i0 i1 i2 where i: "virtio_disk_rw_submit dev b w sec s = Ok i0 (s\<lparr>vdisk := queued b w sec i0 i1 i2 (vdisk s),
      buf := (buf s)(b := (buf s b)\<lparr>b_disk := True\<rparr>), vdev := notified dev (vdev s)\<rparr>)" (is "_ = Ok _ ?t")
    by (rule submit_ok [OF assms(1) True])
  have "virtio_disk_rw_wait b i0 ?t = Switch (?t\<lparr>held := {Proc_lock p}, proc := (proc ?t)(p := (proc ?t p)\<lparr>p_chan := Some (Chan_buf b), p_state := SLEEPING\<rparr>)\<rparr>)"
    using assms by (intro wait_busy) simp_all
  then show ?thesis using i by (simp add: kdo_Ok)
next
  case False
  show ?thesis by (rule submit_sleeps [OF assms False, where dev = dev and b = b and w = w and sec = sec]) (simp add: kdo_Switch)
qed


section \<open>Requests are completed\<close>

text \<open>The device at work, and how much work it has.\<close>

inductive dstep :: "'a virtio_st_scheme \<Rightarrow> 'a virtio_st_scheme \<Rightarrow> bool" where
  dstep_fetch: "dv_seen (vdev s) \<noteq> av_idx (dk_avail (vdisk s)) \<Longrightarrow> dstep s (dev_fetch s)"
| dstep_serve: "i \<in> set (dv_busy (vdev s)) \<Longrightarrow> dstep s (dev_serve i s)"

definition devwork :: "'a virtio_st_scheme \<Rightarrow> nat" where
  "devwork s = 2 * length (pend (vdisk s) (dv_seen (vdev s))) + length (dv_busy (vdev s))"

lemma dstep_inv:
  assumes "vinv (s, T)" and "dstep s t"
  shows "vinv (t, T) \<and> devwork t < devwork s"
  using assms(2)
proof cases
  case dstep_fetch
  note f = vinv_fetch [OF assms(1) dstep_fetch(2)]
  have "length (dv_busy (vdev (dev_fetch s))) = Suc (length (dv_busy (vdev s)))" by (simp add: dev_fetch_def)
  then show ?thesis using f(1,3) unfolding dstep_fetch(1) devwork_def by linarith
next
  case (dstep_serve i)
  obtain p b w where p: "dev_serve i s = (transferred b w (sector_of (b_blockno (buf s b))) s)\<lparr>vdisk := reported i 0 (if w then 1 else BSIZE + 1) (vdisk s),
      vdev := (vdev s)\<lparr>dv_busy := remove1 i (dv_busy (vdev s))\<rparr>\<rparr>"
    "vinv (dev_serve i s, T)" "length (dv_busy (vdev s)) = Suc (length (dv_busy (vdev (dev_serve i s))))"
    by (rule vinv_serve [OF assms(1) dstep_serve(2)])
  have "pend (vdisk (dev_serve i s)) (dv_seen (vdev (dev_serve i s))) = pend (vdisk s) (dv_seen (vdev s))"
    unfolding p(1) by (simp add: pend_def reported_def)
  then show ?thesis using p(2,3) unfolding dstep_serve(1) devwork_def by simp
qed

lemma dsteps_inv: "dstep\<^sup>*\<^sup>* s t \<Longrightarrow> vinv (s, T) \<Longrightarrow> vinv (t, T)"
  by (induction rule: rtranclp_induct) (auto dest: dstep_inv)

lemma dsteps_bound: "(dstep ^^ n) s t \<Longrightarrow> vinv (s, T) \<Longrightarrow> n + devwork t \<le> devwork s"
proof (induction n arbitrary: t)
  case (Suc n)
  then obtain u where u: "(dstep ^^ n) s u" "dstep u t" by auto
  then have "vinv (u, T)" using dsteps_inv [OF relpowp_imp_rtranclp] Suc.prems(2) by blast
  then show ?case using dstep_inv u(2) Suc.IH [OF u(1) Suc.prems(2)] by fastforce
qed simp

lemma device_idle: "(\<nexists>t. dstep s t) \<Longrightarrow> waiting s = []"
proof -
  assume a: "\<nexists>t. dstep s t"
  have "dv_seen (vdev s) = av_idx (dk_avail (vdisk s))" using a dstep_fetch by blast
  moreover have "dv_busy (vdev s) = []" using a dstep_serve [of "hd (dv_busy (vdev s))" s] by (metis hd_in_set)
  ultimately show ?thesis by (simp add: waiting_def pend_def ring_empty)
qed

text \<open>
  C28. A request that has been submitted is completed: the device can only make a bounded number of steps before it has no work left, and when it
  has none and its interrupt has been handled, the process that waits for the request has been woken, and the call returns.
\<close>

theorem virtio_completes:
  assumes "vstart dev x0" and "(vstep dev)\<^sup>*\<^sup>* x0 (s, T)" and T: "T p = Waits b w i"
  shows "(\<forall>n t. (dstep ^^ n) s t \<longrightarrow> n \<le> 2 * NUM) \<and>
    (\<forall>t. dstep\<^sup>*\<^sup>* s t \<and> (\<nexists>t'. dstep t t') \<longrightarrow>
       (\<exists>u v. virtio_disk_intr dev (t\<lparr>cpu_proc := None, held := {}\<rparr>) = Ok () u \<and> p_state (proc u p) \<noteq> SLEEPING \<and>
          kdo (sleep_resume Vdisk_lock) (\<lambda>_. virtio_disk_rw_wait b i) (back_on_cpu p u) = Ok () v))"
proof -
  have v: "vinv (s, T)" by (rule vdisk_machine.inv_reachable [OF assms(1,2)])
  then have "length (heads (vdisk s) (dv_seen (vdev s)) (dv_busy (vdev s))) \<le> NUM" using vq_heads_small(2) by (auto simp: vinv_def vq_inv_def)
  then have "devwork s \<le> 2 * NUM" unfolding heads_def devwork_def length_append by linarith
  then have 1: "n \<le> 2 * NUM" if "(dstep ^^ n) s t" for n t using dsteps_bound [OF that v] by linarith
  have "\<exists>u x. virtio_disk_intr dev (t\<lparr>cpu_proc := None, held := {}\<rparr>) = Ok () u \<and> p_state (proc u p) \<noteq> SLEEPING \<and>
      kdo (sleep_resume Vdisk_lock) (\<lambda>_. virtio_disk_rw_wait b i) (back_on_cpu p u) = Ok () x"
    if t: "dstep\<^sup>*\<^sup>* s t" "\<nexists>t'. dstep t t'" for t
  proof -
    have "vinv (t, T)" by (rule dsteps_inv [OF t(1) v])
    then obtain u where u: "virtio_disk_intr dev (t\<lparr>cpu_proc := None, held := {}\<rparr>) = Ok () u" "vinv (u, T)" "doneq (vdisk u) = []" "waiting u = waiting t"
      by (rule intr_inv [of t T None dev]) simp
    have ri: "vq_rings (vdisk u) (dv_seen (vdev u)) (dv_busy (vdev u)) (\<lambda>b. b_disk (buf u b)) T" using u(2) by (simp add: vinv_def vq_inv_def)
    have "heads (vdisk u) (dv_seen (vdev u)) (dv_busy (vdev u)) = []" using device_idle [OF t(2)] u(3,4) by (simp add: heads_def waiting_def)
    then have nb: "\<not> b_disk (buf u b)" using vq_ringsD(2) [OF ri, of i] T by auto
    then have "p_state (proc u p) \<noteq> SLEEPING" using u(2) T by (auto simp: vinv_def vsleep_def dest: spec [of _ p])
    moreover have iu: "vq_inv (u\<lparr>cpu_proc := Some p, held := {Vdisk_lock}, proc := (proc u)(p := (proc u p)\<lparr>p_chan := None\<rparr>)\<rparr>) T" by (rule vinv_on_cpu(1) [OF u(2)])
    have "\<exists>x. kdo (sleep_resume Vdisk_lock) (\<lambda>_. virtio_disk_rw_wait b i) (back_on_cpu p u) = Ok () x"
      unfolding kdo_Ok [where m = "sleep_resume Vdisk_lock", OF resume_driver] by (rule waitE [OF iu T]) (use nb in auto)
    ultimately show ?thesis using u(1) by blast
  qed
  then show ?thesis using 1 by blast
qed

section \<open>A device and a run\<close>

text \<open>A device whose registers keep what is written to them, three free pages, and a system that has started on them.\<close>

definition ex_dev :: regs_fun where
  "ex_dev r v regs = regs(r := v)"

definition ex_regs :: "nat \<Rightarrow> uint" where
  "ex_regs = (\<lambda>_. 0)(0 := 0x74726976, 4 := 2, 8 := 2, 12 := 0x554d4551, 0x34 := 1024)"

definition ex_proc_st :: proc_st where
  "ex_proc_st = file_st.extend (pipe_st.extend (fs_st.extend ex_fs
       \<lparr>pipes = \<lambda>_. \<lparr>pi_data = \<lambda>_. 0, pi_nread = 0, pi_nwrite = 0, pi_readopen = True, pi_writeopen = True\<rparr>\<rparr>)
       \<lparr>ftable = \<lambda>_. \<lparr>f_type = FD_NONE, f_ref = 0, f_readable = False, f_writable = False, f_pipe = 0, f_ip = None, f_off = 0, f_major = 0\<rparr>,
        devsw = \<lambda>_. \<lparr>dsw_read = None, dsw_write = None\<rparr>, stack_junk = \<lambda>_. 0\<rparr>)
     \<lparr>sym_trampoline = 0x80007000, sym_forkret = 0x80001000, forkret_first = True\<rparr>"

definition ex_vio0 :: virtio_st where
  "ex_vio0 = (proc_st.extend ex_proc_st
     \<lparr>vdisk = \<lparr>dk_desc_pa = 0, dk_avail_pa = 0, dk_used_pa = 0, dk_desc = \<lambda>_. zero_desc, dk_avail = zero_avail, dk_used = zero_used,
        dk_free = \<lambda>_. False, dk_used_idx = 0, dk_info = \<lambda>_. \<lparr>in_b = None, in_status = 0\<rparr>, dk_ops = \<lambda>_. \<lparr>rq_type = 0, rq_reserved = 0, rq_sector = 0\<rparr>\<rparr>,
      vdev = \<lparr>dv_regs = ex_regs, dv_seen = 0, dv_busy = []\<rparr>\<rparr>)
     \<lparr>freelist := 0x80100000, pmem := put64 (put64 (\<lambda>_. 0) 0x80100000 0x80101000) 0x80101000 0x80102000\<rparr>"

lemma kalloc_page:
  assumes "freelist s = r" and "r \<noteq> 0" and "Kmem_lock \<notin> held s"
  shows "kalloc s = Ok r (s\<lparr>freelist := get64 (pmem s) (unat r), pmem := memset (pmem s) (unat r) 5 PGSIZE\<rparr>)"
  using assms by (simp add: kalloc_def kern_simps)

lemma ex_negotiate:
  assumes "dv_regs (vdev s) = ex_regs"
  shows "\<exists>regs. virtio_negotiate ex_dev s = Ok 11 (s\<lparr>vdev := (vdev s)\<lparr>dv_regs := regs\<rparr>\<rparr>)"
  unfolding virtio_negotiate_def mmio_put_vio mmio_get_vio Let_def
  by (simp add: assms ex_dev_def ex_regs_def VIRTIO_MMIO_MAGIC_VALUE_def VIRTIO_MMIO_VERSION_def VIRTIO_MMIO_DEVICE_ID_def VIRTIO_MMIO_VENDOR_ID_def
    VIRTIO_MMIO_STATUS_def VIRTIO_MMIO_DEVICE_FEATURES_def VIRTIO_MMIO_DRIVER_FEATURES_def VIRTIO_MMIO_QUEUE_SEL_def VIRTIO_MMIO_QUEUE_READY_def
    VIRTIO_MMIO_QUEUE_NUM_MAX_def VIRTIO_CONFIG_S_ACKNOWLEDGE_def VIRTIO_CONFIG_S_DRIVER_def VIRTIO_CONFIG_S_FEATURES_OK_def NUM_def ret_def) auto

lemma ex_vio_start: "\<exists>s :: virtio_st. vstart ex_dev (s, \<lambda>_. Out) \<and> buf s = buf ex_vio0"
proof -
  have e: "dv_regs (vdev ex_vio0) = ex_regs" "freelist ex_vio0 = 0x80100000" "held ex_vio0 = {}" "dk_used_idx (vdisk ex_vio0) = 0"
    "pmem ex_vio0 = put64 (put64 (\<lambda>_. 0) 0x80100000 0x80101000) 0x80101000 0x80102000" "dv_seen (vdev ex_vio0) = 0" "dv_busy (vdev ex_vio0) = []"
    using ex_fs_sel by (simp_all add: ex_vio0_def proc_st.defs ex_proc_st_def file_st.defs pipe_st.defs fs_st.defs ex_fs_def con_st.defs)
  obtain regs where n: "virtio_negotiate ex_dev ex_vio0 = Ok 11 (ex_vio0\<lparr>vdev := (vdev ex_vio0)\<lparr>dv_regs := regs\<rparr>\<rparr>)" (is "_ = Ok _ ?s1") using ex_negotiate [OF e(1)] by blast
  let ?m = "put64 (put64 (\<lambda>_. 0) 0x80100000 0x80101000) 0x80101000 (0x80102000 :: uint64)"
  have g: "get64 ?m 0x80100000 = 0x80101000" by (simp add: get64_put64_apart get64_put64 apart_def)
  have g': "get64 (memset ?m 0x80100000 5 PGSIZE) 0x80101000 = 0x80102000"
  proof -
    have "get64 (memset ?m 0x80100000 5 PGSIZE) 0x80101000 = get64 ?m 0x80101000" by (rule get64_cong) (simp add: memset_at PGSIZE_def)
    then show ?thesis by (simp add: get64_put64)
  qed
  let ?s2 = "?s1\<lparr>freelist := 0x80101000, pmem := memset ?m 0x80100000 5 PGSIZE\<rparr>"
  have k1: "kalloc ?s1 = Ok 0x80100000 ?s2"
    using kalloc_page [of ?s1 "0x80100000"] e g by simp
  let ?s3 = "(upd_vdisk (\<lambda>d. d\<lparr>dk_desc_pa := 0x80100000\<rparr>) ?s2)\<lparr>freelist := 0x80102000, pmem := memset (pmem ?s2) 0x80101000 5 PGSIZE\<rparr>"
  have k2: "kalloc (upd_vdisk (\<lambda>d. d\<lparr>dk_desc_pa := 0x80100000\<rparr>) ?s2) = Ok 0x80101000 ?s3"
    using kalloc_page [of "upd_vdisk (\<lambda>d. d\<lparr>dk_desc_pa := 0x80100000\<rparr>) ?s2" "0x80101000"] e g' by simp
  obtain s4 where k3: "kalloc (upd_vdisk (\<lambda>d. d\<lparr>dk_avail_pa := 0x80101000\<rparr>) ?s3) = Ok 0x80102000 s4" "buf s4 = buf ex_vio0"
    using kalloc_page [of "upd_vdisk (\<lambda>d. d\<lparr>dk_avail_pa := 0x80101000\<rparr>) ?s3" "0x80102000"] e by simp
  obtain s5 where q: "virtio_queue_setup ex_dev 11 0x80100000 0x80101000 0x80102000 (upd_vdisk (\<lambda>d. d\<lparr>dk_used_pa := 0x80102000\<rparr>) s4) = Ok () s5" "buf s5 = buf s4"
    unfolding virtio_queue_setup_def by (simp add: kern_simps mmio_put_vio kdo_Ok [where m = "for_each _ _", OF free_all]) (simp add: mmio_put_def kern_simps)
  have "virtio_disk_init ex_dev ex_vio0 = Ok () s5"
    unfolding virtio_disk_init_def kdo_Ok [where m = "virtio_negotiate _", OF n] kdo_Ok [where m = kalloc, OF k1] kdo_modify
      kdo_Ok [where m = kalloc, OF k2] kdo_Ok [where m = kalloc, OF k3(1)] using q(1) by simp
  then have "vstart ex_dev (s5, \<lambda>_. Out)" using e(4,6,7) by (auto simp: vstart_def)
  then show ?thesis using k3(2) q(2) by (intro exI [of _ s5] conjI) simp_all
qed

text \<open>From there, a process submits a request and sleeps.\<close>

lemma ex_vio_run:
  obtains s0 s :: virtio_st and i where "vstart ex_dev (s0, \<lambda>_. Out)" and "(vstep ex_dev)\<^sup>*\<^sup>* (s0, \<lambda>_. Out) (s, (\<lambda>_. Out)(0 := Waits 0 True i))"
    and "dv_seen (vdev s) \<noteq> av_idx (dk_avail (vdisk s))"
proof -
  obtain s0 :: virtio_st where s0: "vstart ex_dev (s0, \<lambda>_. Out)" "buf s0 = buf ex_vio0" using ex_vio_start by auto
  have v: "vinv (s0, \<lambda>_. Out)" by (rule vinv_start [OF s0(1)])
  have bn: "unat (b_blockno (buf s0 0)) < 2 ^ 31"
    by (simp add: s0(2) ex_vio0_def proc_st.defs ex_proc_st_def file_st.defs pipe_st.defs fs_st.defs ex_fs_def con_st.defs ex_con_def log_st.defs ex_log_def kmem_st.defs fresh_buf_def)
  let ?t = "s0\<lparr>cpu_proc := Some 0, held := {Vdisk_lock}\<rparr>"
  let ?sec = "sector_of (b_blockno (buf s0 0))"
  have st: "dv_seen (vdev s0) = av_idx (dk_avail (vdisk s0))" "free_set (vdisk s0) = {..<NUM}"
    using s0(1) init_vio by (fastforce simp: vstart_def zero_avail_def)+
  have "card (free_set (vdisk ?t)) = NUM" using st(2) by simp
  then have ge: "3 \<le> card (free_set (vdisk ?t))" by (simp only: NUM_def)
  have hh: "held ?t = {Vdisk_lock}" by simp
  obtain i0 i1 i2 where i: "virtio_disk_rw_submit ex_dev 0 True ?sec ?t = Ok i0 (?t\<lparr>vdisk := queued 0 True ?sec i0 i1 i2 (vdisk ?t),
      buf := (buf ?t)(0 := (buf ?t 0)\<lparr>b_disk := True\<rparr>), vdev := notified ex_dev (vdev ?t)\<rparr>)" (is "_ = Ok _ ?u")
    by (rule submit_ok [OF hh ge])
  let ?v = "?u\<lparr>held := {Proc_lock 0}, proc := (proc ?u)(0 := (proc ?u 0)\<lparr>p_chan := Some (Chan_buf 0), p_state := SLEEPING\<rparr>)\<rparr>"
  have w: "virtio_disk_rw_wait 0 i0 ?u = Switch ?v" by (rule wait_busy) simp_all
  have "vstep ex_dev (s0, \<lambda>_. Out) (?v, (\<lambda>_. Out)(0 := Waits 0 True i0))"
    by (rule vstep_call [OF _ _ _ _ bn enter_driver vrun_waits [OF i w]]) (simp_all add: params)
  moreover have "dv_seen (vdev ?v) \<noteq> av_idx (dk_avail (vdisk ?v))" using st(1) by (simp add: notified_def queued_def)
  ultimately show thesis using that [OF s0(1)] by blast
qed



theorem virtio_completes_witness:
  "\<exists>x0 s i. vstart ex_dev x0 \<and> (vstep ex_dev)\<^sup>*\<^sup>* x0 (s :: virtio_st, (\<lambda>_. Out)(0 := Waits 0 True i)) \<and>
     (\<forall>n t. (dstep ^^ n) s t \<longrightarrow> n \<le> 2 * NUM)"
proof -
  obtain s0 s :: virtio_st and i where r: "vstart ex_dev (s0, \<lambda>_. Out)" "(vstep ex_dev)\<^sup>*\<^sup>* (s0, \<lambda>_. Out) (s, (\<lambda>_. Out)(0 := Waits 0 True i))" by (rule ex_vio_run)
  have "((\<lambda>_. Out)(0 := Waits 0 True i)) 0 = Waits 0 True i" by simp
  from virtio_completes [OF r this, THEN conjunct1] show ?thesis by (intro exI conjI) (rule r)+
qed

end
