(* ===== verification/Asm.thy ===== *)
theory Asm
  imports Vm
begin

text \<open>
  The assembly of the kernel: \<^verbatim>\<open>trampoline.S\<close>, \<^verbatim>\<open>kernelvec.S\<close>, \<^verbatim>\<open>swtch.S\<close>, \<^verbatim>\<open>entry.S\<close>.  Each routine is the list of its instructions, run by an
  interpreter for the few instructions that they use.  Address translation is done by the hardware, and is a parameter \<open>mmu\<close>: the physical
  address for the contents of \<^verbatim>\<open>satp\<close> and a virtual address.

  The theory shows that a trap saves and restores all registers of a user program, and that a context switch is a call that returns
  with the registers the caller relies on.
\<close>

section \<open>Registers and instructions\<close>

datatype reg = RA | SP | GP | TP | T0 | T1 | T2 | T3 | T4 | T5 | T6
  | S0 | S1 | S2 | S3 | S4 | S5 | S6 | S7 | S8 | S9 | S10 | S11
  | A0 | A1 | A2 | A3 | A4 | A5 | A6 | A7

text \<open>The control and status registers that the kernel uses.\<close>

datatype csr = Mhartid | Mstatus | Mepc | Sstatus | Sip | Sie | Mie | Sepc | Medeleg | Mideleg | Stvec | Stimecmp | Menvcfg
  | Pmpcfg0 | Pmpaddr0 | Satp | Scause | Stval | Mcounteren | Time | Sscratch

datatype instr =
    SD reg nat reg
  | LD reg nat reg
  | ADDI reg reg int
  | ADD reg reg reg
  | MUL reg reg reg
  | LI reg uint64
  | CSRW csr reg
  | CSRR reg csr
  | SFENCE_VMA
  | JR reg
  | JUMP uint64
  | SRET

record mach =
  m_reg :: "reg \<Rightarrow> uint64"
  m_csr :: "csr \<Rightarrow> uint64"
  m_mem :: bytes
  m_pc :: uint64
  m_user :: bool

type_synonym mmu = "uint64 \<Rightarrow> uint64 \<Rightarrow> nat"

text \<open>
  \<^verbatim>\<open>sret\<close> goes to the address in \<^verbatim>\<open>sepc\<close>, in the mode that bit 8 of \<^verbatim>\<open>sstatus\<close> names, with interrupts as bit 5 says.
\<close>

definition sret :: "mach \<Rightarrow> mach" where
  "sret m = (let x = m_csr m Sstatus in
     m\<lparr>m_pc := m_csr m Sepc, m_user := \<not> bit x 8,
       m_csr := (m_csr m)(Sstatus := unset_bit 8 (set_bit 5 (if bit x 5 then set_bit 1 x else unset_bit 1 x)))\<rparr>)"

fun exec1 :: "mmu \<Rightarrow> instr \<Rightarrow> mach \<Rightarrow> mach" where
  "exec1 mmu (SD r k b) m = m\<lparr>m_mem := put64 (m_mem m) (mmu (m_csr m Satp) (m_reg m b + of_nat k)) (m_reg m r)\<rparr>"
| "exec1 mmu (LD r k b) m = m\<lparr>m_reg := (m_reg m)(r := get64 (m_mem m) (mmu (m_csr m Satp) (m_reg m b + of_nat k)))\<rparr>"
| "exec1 mmu (ADDI d a k) m = m\<lparr>m_reg := (m_reg m)(d := m_reg m a + word_of_int k)\<rparr>"
| "exec1 mmu (ADD d a b) m = m\<lparr>m_reg := (m_reg m)(d := m_reg m a + m_reg m b)\<rparr>"
| "exec1 mmu (MUL d a b) m = m\<lparr>m_reg := (m_reg m)(d := m_reg m a * m_reg m b)\<rparr>"
| "exec1 mmu (LI r v) m = m\<lparr>m_reg := (m_reg m)(r := v)\<rparr>"
| "exec1 mmu (CSRW c r) m = m\<lparr>m_csr := (m_csr m)(c := m_reg m r)\<rparr>"
| "exec1 mmu (CSRR r c) m = m\<lparr>m_reg := (m_reg m)(r := m_csr m c)\<rparr>"
| "exec1 mmu SFENCE_VMA m = m"
| "exec1 mmu (JR r) m = m\<lparr>m_pc := m_reg m r\<rparr>"
| "exec1 mmu (JUMP a) m = m\<lparr>m_pc := a\<rparr>"
| "exec1 mmu SRET m = sret m"

definition exec_code :: "mmu \<Rightarrow> instr list \<Rightarrow> mach \<Rightarrow> mach" where
  "exec_code mmu is m = fold (exec1 mmu) is m"

section \<open>The routines\<close>

definition uservec :: "instr list" where
  "uservec =
    [CSRW Sscratch A0,
     LI A0 TRAPFRAME,
     SD RA 40 A0, SD SP 48 A0, SD GP 56 A0, SD TP 64 A0, SD T0 72 A0, SD T1 80 A0, SD T2 88 A0, SD S0 96 A0, SD S1 104 A0,
     SD A1 120 A0, SD A2 128 A0, SD A3 136 A0, SD A4 144 A0, SD A5 152 A0, SD A6 160 A0, SD A7 168 A0,
     SD S2 176 A0, SD S3 184 A0, SD S4 192 A0, SD S5 200 A0, SD S6 208 A0, SD S7 216 A0, SD S8 224 A0, SD S9 232 A0, SD S10 240 A0, SD S11 248 A0,
     SD T3 256 A0, SD T4 264 A0, SD T5 272 A0, SD T6 280 A0,
     CSRR T0 Sscratch,
     SD T0 112 A0,
     LD SP 8 A0,
     LD TP 32 A0,
     LD T0 16 A0,
     LD T1 0 A0,
     SFENCE_VMA,
     CSRW Satp T1,
     SFENCE_VMA,
     JR T0]"

definition userret :: "instr list" where
  "userret =
    [SFENCE_VMA,
     CSRW Satp A0,
     SFENCE_VMA,
     LI A0 TRAPFRAME,
     LD RA 40 A0, LD SP 48 A0, LD GP 56 A0, LD TP 64 A0, LD T0 72 A0, LD T1 80 A0, LD T2 88 A0, LD S0 96 A0, LD S1 104 A0,
     LD A1 120 A0, LD A2 128 A0, LD A3 136 A0, LD A4 144 A0, LD A5 152 A0, LD A6 160 A0, LD A7 168 A0,
     LD S2 176 A0, LD S3 184 A0, LD S4 192 A0, LD S5 200 A0, LD S6 208 A0, LD S7 216 A0, LD S8 224 A0, LD S9 232 A0, LD S10 240 A0, LD S11 248 A0,
     LD T3 256 A0, LD T4 264 A0, LD T5 272 A0, LD T6 280 A0,
     LD A0 112 A0,
     SRET]"

text \<open>\<^verbatim>\<open>kernelvec\<close> before and after its call of \<^verbatim>\<open>kerneltrap\<close>.\<close>

definition kernelvec_save :: "instr list" where
  "kernelvec_save =
    [ADDI SP SP (-256),
     SD RA 0 SP, SD SP 8 SP, SD GP 16 SP, SD TP 24 SP, SD T0 32 SP, SD T1 40 SP, SD T2 48 SP,
     SD A0 72 SP, SD A1 80 SP, SD A2 88 SP, SD A3 96 SP, SD A4 104 SP, SD A5 112 SP, SD A6 120 SP, SD A7 128 SP,
     SD T3 216 SP, SD T4 224 SP, SD T5 232 SP, SD T6 240 SP]"

definition kernelvec_restore :: "instr list" where
  "kernelvec_restore =
    [LD RA 0 SP, LD SP 8 SP, LD GP 16 SP, LD T0 32 SP, LD T1 40 SP, LD T2 48 SP,
     LD A0 72 SP, LD A1 80 SP, LD A2 88 SP, LD A3 96 SP, LD A4 104 SP, LD A5 112 SP, LD A6 120 SP, LD A7 128 SP,
     LD T3 216 SP, LD T4 224 SP, LD T5 232 SP, LD T6 240 SP,
     ADDI SP SP 256,
     SRET]"

definition swtch :: "instr list" where
  "swtch =
    [SD RA 0 A0, SD SP 8 A0, SD S0 16 A0, SD S1 24 A0, SD S2 32 A0, SD S3 40 A0, SD S4 48 A0, SD S5 56 A0, SD S6 64 A0,
     SD S7 72 A0, SD S8 80 A0, SD S9 88 A0, SD S10 96 A0, SD S11 104 A0,
     LD RA 0 A1, LD SP 8 A1, LD S0 16 A1, LD S1 24 A1, LD S2 32 A1, LD S3 40 A1, LD S4 48 A1, LD S5 56 A1, LD S6 64 A1,
     LD S7 72 A1, LD S8 80 A1, LD S9 88 A1, LD S10 96 A1, LD S11 104 A1,
     JR RA]"

text \<open>\<^verbatim>\<open>_entry\<close>, with the linker's addresses of \<^verbatim>\<open>stack0\<close> and \<^verbatim>\<open>start\<close>.\<close>

definition entry_code :: "uint64 \<Rightarrow> uint64 \<Rightarrow> instr list" where
  "entry_code stack0 start =
    [LI SP stack0,
     LI A0 (1024 * 4),
     CSRR A1 Mhartid,
     ADDI A1 A1 1,
     MUL A0 A0 A1,
     ADD SP SP A0,
     JUMP start]"

section \<open>Blocks of stores and loads\<close>

text \<open>A block of stores of registers relative to a base register, and a block of loads that does not load the base.\<close>

definition stores :: "reg \<Rightarrow> (reg \<times> nat) list \<Rightarrow> instr list" where
  "stores b xs = map (\<lambda>(r, k). SD r k b) xs"

definition loads :: "reg \<Rightarrow> (reg \<times> nat) list \<Rightarrow> instr list" where
  "loads b xs = map (\<lambda>(r, k). LD r k b) xs"

text \<open>A range of memory, at virtual address \<open>va\<close> under \<open>satp\<close>, that lies at the physical address \<open>pa\<close>.\<close>

definition mapped_at :: "mmu \<Rightarrow> uint64 \<Rightarrow> uint64 \<Rightarrow> nat \<Rightarrow> nat \<Rightarrow> bool" where
  "mapped_at mmu satp va pa n \<longleftrightarrow> (\<forall>k<n. mmu satp (va + of_nat k) = pa + k)"

lemma exec_code_append: "exec_code mmu (xs @ ys) m = exec_code mmu ys (exec_code mmu xs m)"
  by (simp add: exec_code_def)

lemma exec_stores:
  assumes "mapped_at mmu (m_csr m Satp) (m_reg m b) pa n" and "\<forall>(r, k)\<in>set xs. k < n"
  shows "exec_code mmu (stores b xs) m = m\<lparr>m_mem := fold (\<lambda>(r, k) x. put64 x (pa + k) (m_reg m r)) xs (m_mem m)\<rparr>"
  using assms
proof (induction xs arbitrary: m)
  case (Cons y xs)
  obtain r k where y: "y = (r, k)" by (cases y)
  let ?m = "m\<lparr>m_mem := put64 (m_mem m) (pa + k) (m_reg m r)\<rparr>"
  have "exec1 mmu (SD r k b) m = ?m" using Cons.prems by (auto simp: mapped_at_def y)
  moreover have "exec_code mmu (stores b xs) ?m = ?m\<lparr>m_mem := fold (\<lambda>(r, k) x. put64 x (pa + k) (m_reg ?m r)) xs (m_mem ?m)\<rparr>"
    using Cons.prems by (intro Cons.IH) auto
  ultimately show ?case by (simp add: exec_code_def stores_def y)
qed (simp add: exec_code_def stores_def)

lemma exec_loads:
  assumes "mapped_at mmu (m_csr m Satp) (m_reg m b) pa n" and "\<forall>(r, k)\<in>set xs. k < n \<and> r \<noteq> b"
  shows "exec_code mmu (loads b xs) m = m\<lparr>m_reg := fold (\<lambda>y f. f(fst y := get64 (m_mem m) (pa + snd y))) xs (m_reg m)\<rparr>"
  using assms
proof (induction xs arbitrary: m)
  case (Cons y xs)
  obtain r k where y: "y = (r, k)" by (cases y)
  let ?m = "m\<lparr>m_reg := (m_reg m)(r := get64 (m_mem m) (pa + k))\<rparr>"
  have "exec1 mmu (LD r k b) m = ?m" using Cons.prems by (auto simp: mapped_at_def y)
  moreover have "exec_code mmu (loads b xs) ?m = ?m\<lparr>m_reg := fold (\<lambda>y f. f(fst y := get64 (m_mem ?m) (pa + snd y))) xs (m_reg ?m)\<rparr>"
    using Cons.prems by (intro Cons.IH) (auto simp: y)
  ultimately show ?case by (simp add: exec_code_def loads_def y del: fun_upd_apply)
qed (simp add: exec_code_def loads_def)

text \<open>What such blocks leave in memory and in the registers.\<close>

lemma fold_put64_get:
  assumes "(r, k) \<in> set xs" and "distinct (map snd xs)" and "\<forall>(r, k)\<in>set xs. 8 dvd k"
  shows "get64 (fold (\<lambda>(r, k) x. put64 x (pa + k) (f r)) xs x) (pa + k) = f r"
proof -
  have "get64 (fold (\<lambda>y x. put64 x (pa + snd y) (f (fst y))) xs x) (pa + snd (r, k)) = f (fst (r, k))"
  proof (rule le64.rd_writes [where at = "\<lambda>y. pa + snd y" and val = "\<lambda>y. f (fst y)"])
    show "apart 8 (pa + snd z) (pa + snd (r, k))" if z: "z \<in> set xs" "z \<noteq> (r, k)" for z
    proof -
      have "snd z \<noteq> k" using z assms(1,2) by (metis eq_key_imp_eq_value distinct_map inj_on_eq_iff snd_conv)
      moreover have "8 dvd snd z" "8 dvd k" using bspec [OF assms(3) z(1)] bspec [OF assms(3,1)] by (simp_all add: case_prod_beta)
      then obtain i j where "snd z = 8 * i" "k = 8 * j" by (auto elim!: dvdE)
      ultimately show ?thesis using apart_array [of i j 8 pa] by simp
    qed
  qed (use assms in \<open>auto simp: distinct_map\<close>)
  then show ?thesis by (simp add: case_prod_unfold)
qed

lemma fold_put64_outside:
  assumes "\<forall>(r, k)\<in>set xs. lo \<le> k \<and> k + 8 \<le> hi" and "a < pa + lo \<or> pa + hi \<le> a"
  shows "fold (\<lambda>(r, k) x. put64 x (pa + k) (f r)) xs x a = x a"
  using assms by (induction xs arbitrary: x) (auto simp: put64_outside)

lemma fold_load_other: "r \<notin> fst ` set xs \<Longrightarrow> fold (\<lambda>y f. f(fst y := g (snd y))) xs f r = f r"
  by (induction xs arbitrary: f) auto

lemma fold_load_get:
  assumes "(r, k) \<in> set xs" and "distinct (map fst xs)"
  shows "fold (\<lambda>y f. f(fst y := g (snd y))) xs f r = g k"
  using assms
proof (induction xs arbitrary: f)
  case (Cons y xs)
  then show ?case using fold_load_other [of r xs g "f(r := g k)"] by (cases "y = (r, k)") (auto simp del: fun_upd_apply simp: fun_upd_same)
qed simp

section \<open>Traps from user space\<close>

text \<open>Where \<^verbatim>\<open>struct trapframe\<close> has the registers.\<close>

primrec tf_off :: "reg \<Rightarrow> nat" where
  "tf_off RA = 40" | "tf_off SP = 48" | "tf_off GP = 56" | "tf_off TP = 64"
| "tf_off T0 = 72" | "tf_off T1 = 80" | "tf_off T2 = 88" | "tf_off T3 = 256" | "tf_off T4 = 264" | "tf_off T5 = 272" | "tf_off T6 = 280"
| "tf_off S0 = 96" | "tf_off S1 = 104" | "tf_off S2 = 176" | "tf_off S3 = 184" | "tf_off S4 = 192" | "tf_off S5 = 200" | "tf_off S6 = 208"
| "tf_off S7 = 216" | "tf_off S8 = 224" | "tf_off S9 = 232" | "tf_off S10 = 240" | "tf_off S11 = 248"
| "tf_off A0 = 112" | "tf_off A1 = 120" | "tf_off A2 = 128" | "tf_off A3 = 136" | "tf_off A4 = 144" | "tf_off A5 = 152" | "tf_off A6 = 160" | "tf_off A7 = 168"

definition saved :: "(reg \<times> nat) list" where
  "saved = map (\<lambda>r. (r, tf_off r)) [RA, SP, GP, TP, T0, T1, T2, S0, S1, A1, A2, A3, A4, A5, A6, A7,
     S2, S3, S4, S5, S6, S7, S8, S9, S10, S11, T3, T4, T5, T6]"

lemma uservec_parts:
  "uservec = [CSRW Sscratch A0, LI A0 TRAPFRAME] @ stores A0 saved @
     [CSRR T0 Sscratch, SD T0 112 A0, LD SP 8 A0, LD TP 32 A0, LD T0 16 A0, LD T1 0 A0, SFENCE_VMA, CSRW Satp T1, SFENCE_VMA, JR T0]"
  by (simp add: uservec_def stores_def saved_def)

lemma userret_parts:
  "userret = [SFENCE_VMA, CSRW Satp A0, SFENCE_VMA, LI A0 TRAPFRAME] @ loads A0 saved @ [LD A0 112 A0, SRET]"
  by (simp add: userret_def loads_def saved_def)

lemma saved_bounds: "\<forall>(r, k)\<in>set saved. k < 4096 \<and> r \<noteq> A0" "\<forall>(r, k)\<in>set saved. 8 dvd k" "\<forall>(r, k)\<in>set saved. 40 \<le> k \<and> k + 8 \<le> 288"
  "distinct (map fst saved)" "distinct (map snd saved)" "\<forall>(r, k)\<in>set saved. k \<noteq> 112"
  by (simp_all add: saved_def)

lemma saved_all: "r \<noteq> A0 \<Longrightarrow> (r, tf_off r) \<in> set saved"
  by (cases r) (simp_all add: saved_def)

text \<open>
  \<^verbatim>\<open>uservec\<close> with the trapframe at physical address \<open>tf\<close>: every register is in its place in the trapframe, nothing else in memory is written,
  and \<^verbatim>\<open>usertrap\<close> is entered on the kernel's stack, with the kernel's page table and the hart's number in \<^verbatim>\<open>tp\<close>.
\<close>

lemma uservec_saves:
  assumes "mapped_at mmu (m_csr m Satp) TRAPFRAME tf 4096"
  defines "m' \<equiv> exec_code mmu uservec m"
  shows "get64 (m_mem m') (tf + tf_off r) = m_reg m r"
    and "a < tf + 40 \<or> tf + 288 \<le> a \<Longrightarrow> m_mem m' a = m_mem m a"
    and "m_pc m' = get64 (m_mem m) (tf + 16)" and "m_reg m' SP = get64 (m_mem m) (tf + 8)" and "m_reg m' TP = get64 (m_mem m) (tf + 32)"
    and "m_csr m' Satp = get64 (m_mem m) tf" and "c \<noteq> Satp \<Longrightarrow> c \<noteq> Sscratch \<Longrightarrow> m_csr m' c = m_csr m c"
proof -
  let ?m1 = "m\<lparr>m_csr := (m_csr m)(Sscratch := m_reg m A0), m_reg := (m_reg m)(A0 := TRAPFRAME)\<rparr>"
  have M: "mmu (m_csr m Satp) (TRAPFRAME + of_nat k) = tf + k" if "k < 4096" for k using assms(1) that by (simp add: mapped_at_def)
  note M' = M [of 0] M [of 8] M [of 16] M [of 32] M [of 112]
  have s: "\<forall>(r, k)\<in>set saved. k < 4096" using saved_bounds(1) by auto
  define x where "x = fold (\<lambda>(r, k) x. put64 x (tf + k) (m_reg ?m1 r)) saved (m_mem m)"
  have 1: "exec_code mmu (stores A0 saved) ?m1 = ?m1\<lparr>m_mem := x\<rparr>"
    using exec_stores [of mmu ?m1 A0 tf 4096 saved] assms(1) s by (simp add: x_def)
  have m': "m' = ?m1\<lparr>m_mem := put64 x (tf + 112) (m_reg m A0),
     m_reg := (m_reg ?m1)(SP := get64 (put64 x (tf + 112) (m_reg m A0)) (tf + 8), TP := get64 (put64 x (tf + 112) (m_reg m A0)) (tf + 32),
       T0 := get64 (put64 x (tf + 112) (m_reg m A0)) (tf + 16), T1 := get64 (put64 x (tf + 112) (m_reg m A0)) tf),
     m_csr := (m_csr ?m1)(Satp := get64 (put64 x (tf + 112) (m_reg m A0)) tf), m_pc := get64 (put64 x (tf + 112) (m_reg m A0)) (tf + 16)\<rparr>"
    unfolding m'_def uservec_parts exec_code_append using 1 M'
    by (simp add: exec_code_def fun_upd_twist)
  have out: "x a = m_mem m a" if "a < tf + 40 \<or> tf + 288 \<le> a" for a
    unfolding x_def by (rule fold_put64_outside [OF saved_bounds(3) that])
  show "a < tf + 40 \<or> tf + 288 \<le> a \<Longrightarrow> m_mem m' a = m_mem m a" using out by (auto simp: m' put64_outside)
  have low: "get64 (put64 x (tf + 112) (m_reg m A0)) (tf + k) = get64 (m_mem m) (tf + k)" if "k + 8 \<le> 40" for k
    using that by (intro get64_cong) (simp add: out put64_outside)
  show "m_pc m' = get64 (m_mem m) (tf + 16)" "m_reg m' SP = get64 (m_mem m) (tf + 8)" "m_reg m' TP = get64 (m_mem m) (tf + 32)"
    "m_csr m' Satp = get64 (m_mem m) tf" using low [of 0] low [of 8] low [of 16] low [of 32] by (simp_all add: m')
  show "c \<noteq> Satp \<Longrightarrow> c \<noteq> Sscratch \<Longrightarrow> m_csr m' c = m_csr m c" by (simp add: m')
  show "get64 (m_mem m') (tf + tf_off r) = m_reg m r"
  proof (cases "r = A0")
    case True
    then show ?thesis by (simp add: m' get64_put64)
  next
    case False
    have "8 dvd tf_off r" "tf_off r \<noteq> 112" using saved_all [OF False] saved_bounds(2,6) by auto
    then have "apart 8 (tf + 112) (tf + tf_off r)" using apart_array [of 14 "tf_off r div 8" 8 tf] by auto
    then show ?thesis using fold_put64_get [OF saved_all [OF False] saved_bounds(5,2), of tf "m_reg ?m1" "m_mem m"] False
      by (simp add: m' get64_put64_apart x_def)
  qed
qed

lemma userret_restores:
  assumes "mapped_at mmu (m_reg m A0) TRAPFRAME tf 4096"
  defines "m' \<equiv> exec_code mmu userret m"
  shows "m_reg m' r = get64 (m_mem m) (tf + tf_off r)" and "m_mem m' = m_mem m" and "m_pc m' = m_csr m Sepc"
    and "m_user m' = (\<not> bit (m_csr m Sstatus) 8)" and "m_csr m' Satp = m_reg m A0"
    and "bit (m_csr m' Sstatus) 1 = bit (m_csr m Sstatus) 5"
proof -
  let ?m1 = "m\<lparr>m_csr := (m_csr m)(Satp := m_reg m A0), m_reg := (m_reg m)(A0 := TRAPFRAME)\<rparr>"
  define f where "f = fold (\<lambda>y f. f(fst y := get64 (m_mem m) (tf + snd y))) saved (m_reg ?m1)"
  have 1: "exec_code mmu (loads A0 saved) ?m1 = ?m1\<lparr>m_reg := f\<rparr>"
    using exec_loads [of mmu ?m1 A0 tf 4096 saved] assms(1) saved_bounds(1) by (simp add: f_def)
  have fA0: "f A0 = TRAPFRAME" unfolding f_def by (subst fold_load_other) (auto simp: saved_def)
  have M: "mmu (m_reg m A0) (TRAPFRAME + of_nat 112) = tf + 112" using assms(1) by (simp add: mapped_at_def del: of_nat_numeral)
  have m': "m' = sret (?m1\<lparr>m_reg := f(A0 := get64 (m_mem m) (tf + 112))\<rparr>)"
    unfolding m'_def userret_parts exec_code_append using 1 M by (simp add: exec_code_def fA0)
  show "m_reg m' r = get64 (m_mem m) (tf + tf_off r)"
    using fold_load_get [OF saved_all saved_bounds(4), of r "\<lambda>k. get64 (m_mem m) (tf + k)" "m_reg ?m1"] by (cases "r = A0") (simp_all add: m' sret_def Let_def f_def)
  show "m_mem m' = m_mem m" "m_pc m' = m_csr m Sepc" "m_user m' = (\<not> bit (m_csr m Sstatus) 8)" "m_csr m' Satp = m_reg m A0"
    "bit (m_csr m' Sstatus) 1 = bit (m_csr m Sstatus) 5"
    by (simp_all add: m' sret_def Let_def bit_simps)
qed

section \<open>Context switches and traps from the kernel\<close>

text \<open>The registers that a C function keeps for its caller, with \<^verbatim>\<open>ra\<close>, at their places in \<^verbatim>\<open>struct context\<close>.\<close>

definition ctx_regs :: "(reg \<times> nat) list" where
  "ctx_regs = [(RA, 0), (SP, 8), (S0, 16), (S1, 24), (S2, 32), (S3, 40), (S4, 48), (S5, 56), (S6, 64), (S7, 72), (S8, 80), (S9, 88), (S10, 96), (S11, 104)]"

lemma swtch_parts: "swtch = stores A0 ctx_regs @ loads A1 ctx_regs @ [JR RA]"
  by (simp add: swtch_def stores_def loads_def ctx_regs_def)

lemma ctx_bounds: "\<forall>(r, k)\<in>set ctx_regs. k < 112" "\<forall>(r, k)\<in>set ctx_regs. 8 dvd k" "\<forall>(r, k)\<in>set ctx_regs. 0 \<le> k \<and> k + 8 \<le> 112"
  "\<forall>(r, k)\<in>set ctx_regs. k < 112 \<and> r \<noteq> A1" "distinct (map fst ctx_regs)" "distinct (map snd ctx_regs)" "(RA, 0) \<in> set ctx_regs"
  by (simp_all add: ctx_regs_def)

lemma swtch_at:
  assumes old: "mapped_at mmu (m_csr m Satp) (m_reg m A0) old 112" and new: "mapped_at mmu (m_csr m Satp) (m_reg m A1) new 112"
  defines "m' \<equiv> exec_code mmu swtch m"
  shows "(r, k) \<in> set ctx_regs \<Longrightarrow> get64 (m_mem m') (old + k) = m_reg m r"
    and "a < old \<or> old + 112 \<le> a \<Longrightarrow> m_mem m' a = m_mem m a"
    and "(r, k) \<in> set ctx_regs \<Longrightarrow> m_reg m' r = get64 (m_mem m') (new + k)" and "m_pc m' = get64 (m_mem m') new" and "m_csr m' = m_csr m"
proof -
  define x where "x = fold (\<lambda>(r, k) x. put64 x (old + k) (m_reg m r)) ctx_regs (m_mem m)"
  have 1: "exec_code mmu (stores A0 ctx_regs) m = m\<lparr>m_mem := x\<rparr>" using exec_stores [OF old ctx_bounds(1)] by (simp add: x_def)
  define f where "f = fold (\<lambda>y f. f(fst y := get64 x (new + snd y))) ctx_regs (m_reg m)"
  have 2: "exec_code mmu (loads A1 ctx_regs) (m\<lparr>m_mem := x\<rparr>) = m\<lparr>m_mem := x, m_reg := f\<rparr>"
    using exec_loads [of mmu "m\<lparr>m_mem := x\<rparr>" A1 new 112 ctx_regs] new ctx_bounds(4) by (simp add: f_def)
  have m': "m' = m\<lparr>m_mem := x, m_reg := f, m_pc := f RA\<rparr>"
    unfolding m'_def swtch_parts exec_code_append 1 2 by (simp add: exec_code_def)
  have f: "f r = get64 x (new + k)" if "(r, k) \<in> set ctx_regs" for r k
    unfolding f_def using fold_load_get [OF that ctx_bounds(5), of "\<lambda>k. get64 x (new + k)" "m_reg m"] .
  show "(r, k) \<in> set ctx_regs \<Longrightarrow> get64 (m_mem m') (old + k) = m_reg m r"
    using fold_put64_get [OF _ ctx_bounds(6,2), of r k old "m_reg m" "m_mem m"] by (simp add: m' x_def)
  show "a < old \<or> old + 112 \<le> a \<Longrightarrow> m_mem m' a = m_mem m a"
    using fold_put64_outside [OF ctx_bounds(3), of a old "m_reg m" "m_mem m"] by (simp add: m' x_def)
  show "(r, k) \<in> set ctx_regs \<Longrightarrow> m_reg m' r = get64 (m_mem m') (new + k)" using f by (simp add: m')
  show "m_pc m' = get64 (m_mem m') new" using f [OF ctx_bounds(7)] by (simp add: m')
  show "m_csr m' = m_csr m" by (simp add: m')
qed

text \<open>
  C29. For the thread that calls it, \<^verbatim>\<open>swtch\<close> is a function that returns.  It starts the thread saved in \<^verbatim>\<open>new\<close>; and when later some thread switches to
  the context \<^verbatim>\<open>old\<close> that it saved, and that context is still as it was, execution goes on at the call's return address, with the stack
  pointer and all registers that a C function must keep as they were at the call.
\<close>

theorem swtch_returns:
  assumes "mapped_at mmu (m_csr m Satp) (m_reg m A0) old 112" and "mapped_at mmu (m_csr m Satp) (m_reg m A1) new 112"
    and "mapped_at mmu (m_csr n Satp) (m_reg n A0) old' 112" and "mapped_at mmu (m_csr n Satp) (m_reg n A1) old 112" and "apart 112 old old'"
    and "\<forall>i<112. m_mem n (old + i) = m_mem (exec_code mmu swtch m) (old + i)" and "(r, k) \<in> set ctx_regs"
  shows "m_reg (exec_code mmu swtch n) r = m_reg m r \<and> m_pc (exec_code mmu swtch n) = m_reg m RA"
proof -
  note s = swtch_at [OF assms(1,2)]
  note t = swtch_at [OF assms(3,4)]
  have g: "get64 (m_mem (exec_code mmu swtch n)) (old + k) = m_reg m r" if "(r, k) \<in> set ctx_regs" for r k
  proof -
    have "k + 8 \<le> 112" using ctx_bounds(3) that by auto
    then have "get64 (m_mem (exec_code mmu swtch n)) (old + k) = get64 (m_mem (exec_code mmu swtch m)) (old + k)"
      using assms(5,6) t(2) by (intro get64_cong) (auto simp: apart_def add.assoc)
    then show ?thesis using s(1) [OF that] by simp
  qed
  show ?thesis using t(3) [OF assms(7)] t(4) g [OF assms(7)] g [OF ctx_bounds(7)] by simp
qed

lemma identity_mapped:
  assumes "unat va + n \<le> 2 ^ 64"
  shows "mapped_at (\<lambda>_. unat) satp va (unat va) n"
  unfolding mapped_at_def
proof (intro allI impI)
  fix k assume "k < n"
  then show "unat (va + of_nat k) = unat va + k" using assms by (simp add: unat_word_ariths unsigned_of_nat take_bit_nat_eq_self)
qed

text \<open>Two contexts with the kernel's identity mapping: a thread switches away, and the other switches back.\<close>

definition ex_mach :: mach where
  "ex_mach = \<lparr>m_reg = (\<lambda>_. 7)(A0 := 4096, A1 := 8192, RA := 100), m_csr = \<lambda>_. 0, m_mem = \<lambda>_. 0, m_pc = 0, m_user = False\<rparr>"

theorem swtch_returns_witness:
  "(let m = exec_code (\<lambda>_. unat) swtch ex_mach; n = exec_code (\<lambda>_. unat) swtch (m\<lparr>m_reg := (m_reg m)(A0 := 8192, A1 := 4096)\<rparr>)
    in m_reg n S3 = 7 \<and> m_pc n = 100)"
proof -
  let ?m = "exec_code (\<lambda>_. unat) swtch ex_mach"
  let ?n = "?m\<lparr>m_reg := (m_reg ?m)(A0 := 8192, A1 := 4096)\<rparr>"
  have i: "mapped_at (\<lambda>_. unat) satp 4096 4096 112" "mapped_at (\<lambda>_. unat) satp 8192 8192 112" for satp
    using identity_mapped [of 4096 112 satp] identity_mapped [of 8192 112 satp] by simp_all
  have c: "(S3, 40) \<in> set ctx_regs" by (simp add: ctx_regs_def)
  have "m_reg (exec_code (\<lambda>_. unat) swtch ?n) S3 = m_reg ex_mach S3 \<and> m_pc (exec_code (\<lambda>_. unat) swtch ?n) = m_reg ex_mach RA"
    by (rule swtch_returns [where old = 4096 and new = 8192 and old' = 8192]) (use i c in \<open>simp_all add: ex_mach_def apart_def\<close>)
  then show ?thesis by (simp add: ex_mach_def Let_def)
qed

text \<open>\<^verbatim>\<open>kernelvec\<close>: the interrupted kernel code goes on with all the registers that \<^verbatim>\<open>kerneltrap\<close> may change, apart from \<^verbatim>\<open>tp\<close>.\<close>

definition kvec_regs :: "(reg \<times> nat) list" where
  "kvec_regs = [(RA, 0), (GP, 16), (T0, 32), (T1, 40), (T2, 48), (A0, 72), (A1, 80), (A2, 88), (A3, 96), (A4, 104), (A5, 112), (A6, 120), (A7, 128),
     (T3, 216), (T4, 224), (T5, 232), (T6, 240)]"

lemma kvec_bounds: "\<forall>(r, k)\<in>set (tl kvec_regs). k < 256 \<and> r \<noteq> SP" "distinct (map fst kvec_regs)" "kvec_regs = (RA, 0) # tl kvec_regs" "\<forall>(r, k)\<in>set kvec_regs. r \<noteq> SP \<and> k + 8 \<le> 256"
  by (simp_all add: kvec_regs_def)

lemma kernelvec_saves:
  assumes "mapped_at mmu (m_csr m Satp) (m_reg m SP - 256) st 256"
  defines "m' \<equiv> exec_code mmu kernelvec_save m"
  shows "(r, k) \<in> set kvec_regs \<Longrightarrow> get64 (m_mem m') (st + k) = m_reg m r" and "get64 (m_mem m') (st + 8) = m_reg m SP - 256"
    and "m_reg m' = (m_reg m)(SP := m_reg m SP - 256)" and "m_csr m' = m_csr m" and "a < st \<or> st + 256 \<le> a \<Longrightarrow> m_mem m' a = m_mem m a"
proof -
  let ?xs = "[(RA, 0 :: nat), (SP, 8), (GP, 16), (TP, 24), (T0, 32), (T1, 40), (T2, 48), (A0, 72), (A1, 80), (A2, 88), (A3, 96), (A4, 104), (A5, 112), (A6, 120),
    (A7, 128), (T3, 216), (T4, 224), (T5, 232), (T6, 240)]"
  let ?m1 = "m\<lparr>m_reg := (m_reg m)(SP := m_reg m SP - 256)\<rparr>"
  have p: "kernelvec_save = [ADDI SP SP (-256)] @ stores SP ?xs" by (simp add: kernelvec_save_def stores_def)
  define x where "x = fold (\<lambda>(r, k) x. put64 x (st + k) (m_reg ?m1 r)) ?xs (m_mem m)"
  have b: "\<forall>(r, k)\<in>set ?xs. k < 256" "distinct (map snd ?xs)" "\<forall>(r, k)\<in>set ?xs. 8 dvd k" "\<forall>(r, k)\<in>set ?xs. 0 \<le> k \<and> k + 8 \<le> 256" by simp_all
  have m': "m' = ?m1\<lparr>m_mem := x\<rparr>"
    unfolding m'_def p exec_code_append using exec_stores [of mmu ?m1 SP st 256 ?xs] assms(1) b(1) by (simp add: exec_code_def x_def)
  have g: "get64 x (st + k) = m_reg ?m1 r" if "(r, k) \<in> set ?xs" for r k unfolding x_def by (rule fold_put64_get [OF that b(2,3)])
  have out: "x a = m_mem m a" if "a < st \<or> st + 256 \<le> a" for a
    unfolding x_def by (rule fold_put64_outside [OF b(4)]) (use that in simp)
  have sub: "set kvec_regs \<subseteq> set ?xs" by (simp add: kvec_regs_def)
  show "get64 (m_mem m') (st + k) = m_reg m r" if "(r, k) \<in> set kvec_regs"
    using g [OF subsetD [OF sub that]] bspec [OF kvec_bounds(4) that] by (simp add: m')
  show "get64 (m_mem m') (st + 8) = m_reg m SP - 256" using g [of SP 8] by (simp add: m')
  show "m_reg m' = (m_reg m)(SP := m_reg m SP - 256)" "m_csr m' = m_csr m" by (simp_all add: m')
  show "a < st \<or> st + 256 \<le> a \<Longrightarrow> m_mem m' a = m_mem m a" using out by (simp add: m')
qed

lemma kernelvec_restores:
  assumes M: "mapped_at mmu (m_csr n Satp) (m_reg n SP) st 256" and sp: "get64 (m_mem n) (st + 8) = m_reg n SP"
  defines "n' \<equiv> exec_code mmu kernelvec_restore n"
  shows "(r, k) \<in> set kvec_regs \<Longrightarrow> m_reg n' r = get64 (m_mem n) (st + k)" and "m_reg n' SP = m_reg n SP + 256"
    and "r \<noteq> SP \<Longrightarrow> r \<notin> fst ` set kvec_regs \<Longrightarrow> m_reg n' r = m_reg n r" and "m_mem n' = m_mem n" and "m_pc n' = m_csr n Sepc"
proof -
  have a: "mmu (m_csr n Satp) (m_reg n SP + of_nat k) = st + k" if "k < 256" for k using M that by (simp add: mapped_at_def)
  have p: "kernelvec_restore = [LD RA 0 SP, LD SP 8 SP] @ loads SP (tl kvec_regs) @ [ADDI SP SP 256, SRET]"
    by (simp add: kernelvec_restore_def loads_def kvec_regs_def)
  let ?n1 = "n\<lparr>m_reg := (m_reg n)(RA := get64 (m_mem n) st)\<rparr>"
  have 1: "exec_code mmu [LD RA 0 SP, LD SP 8 SP] n = ?n1" using a [of 0] a [of 8] sp by (simp add: exec_code_def fun_upd_idem)
  define f where "f = fold (\<lambda>y f. f(fst y := get64 (m_mem n) (st + snd y))) (tl kvec_regs) (m_reg ?n1)"
  have 2: "exec_code mmu (loads SP (tl kvec_regs)) ?n1 = ?n1\<lparr>m_reg := f\<rparr>"
    using exec_loads [of mmu ?n1 SP st 256 "tl kvec_regs"] M kvec_bounds(1) by (simp add: f_def)
  have fk: "f = fold (\<lambda>y f. f(fst y := get64 (m_mem n) (st + snd y))) kvec_regs (m_reg n)" unfolding f_def by (subst kvec_bounds(3)) simp
  have n': "n' = sret (?n1\<lparr>m_reg := f(SP := f SP + 256)\<rparr>)" unfolding n'_def p exec_code_append 1 2 by (simp add: exec_code_def)
  have fs: "f r = m_reg n r" if "r \<notin> fst ` set kvec_regs" for r unfolding fk by (rule fold_load_other [OF that])
  have "SP \<notin> fst ` set kvec_regs" by (simp add: kvec_regs_def)
  then show "m_reg n' SP = m_reg n SP + 256" using fs by (simp add: n' sret_def Let_def)
  show "m_reg n' r = get64 (m_mem n) (st + k)" if "(r, k) \<in> set kvec_regs"
  proof -
    have "r \<noteq> SP" using kvec_bounds(4) that by auto
    then show ?thesis using fold_load_get [OF that kvec_bounds(2), of "\<lambda>k. get64 (m_mem n) (st + k)" "m_reg n"] by (simp add: n' sret_def Let_def fk)
  qed
  show "r \<noteq> SP \<Longrightarrow> r \<notin> fst ` set kvec_regs \<Longrightarrow> m_reg n' r = m_reg n r" using fs by (simp add: n' sret_def Let_def)
  show "m_mem n' = m_mem n" "m_pc n' = m_csr n Sepc" by (simp_all add: n' sret_def Let_def)
qed

text \<open>\<^verbatim>\<open>_entry\<close> gives every hart a stack of its own.\<close>

lemma entry_stack:
  "m_reg (exec_code mmu (entry_code stack0 start) m) SP = stack0 + 4096 * (m_csr m Mhartid + 1) \<and>
   m_pc (exec_code mmu (entry_code stack0 start) m) = start"
  by (simp add: exec_code_def entry_code_def)

end
