(* ===== verification/Trap.thy ===== *)
theory Trap
  imports Syscall Virtio Asm
begin

text \<open>
  Traps and the start of the system: \<^verbatim>\<open>kernel/trap.c\<close>, \<^verbatim>\<open>kernel/plic.c\<close>, \<^verbatim>\<open>kernel/main.c\<close>, \<^verbatim>\<open>kernel/start.c\<close> and the access functions of \<^verbatim>\<open>kernel/riscv.h\<close>, on
  one hart.  The control and status registers are a field of the state; \<open>tp_reg\<close> is the register \<^verbatim>\<open>tp\<close> and \<open>plic\<close> the registers of the interrupt
  controller, where a read of the claim register gives what the controller has put there.  Nothing here is said about the bit \<^verbatim>\<open>SIE\<close> while a
  spinlock is held; \<open>Spinlock\<close> treats that.

  The theory shows that a timer interrupt is invisible to the program it interrupts, from the assembly that saves the registers, through the
  C code and another process's turn on the CPU, to the assembly that restores them.
\<close>

section \<open>Registers\<close>

record trap_st = virtio_st +
  csr :: "csr \<Rightarrow> uint64"
  tp_reg :: uint64
  plic :: "uint64 \<Rightarrow> uint"
  started :: bool
  sym_kernelvec :: uint64
  sym_uservec :: uint64
  sym_userret :: uint64
  sym_usertrap :: uint64
  sym_main :: uint64
  sym_etext :: uint64

definition csr_r :: "csr \<Rightarrow> ('a trap_st_scheme, uint64) kern" where
  "csr_r c = gets (\<lambda>s. csr s c)"

definition csr_w :: "csr \<Rightarrow> uint64 \<Rightarrow> ('a trap_st_scheme, unit) kern" where
  "csr_w c x = modify (\<lambda>s. s\<lparr>csr := (csr s)(c := x)\<rparr>)"

definition r_mhartid :: "('a trap_st_scheme, uint64) kern" where "r_mhartid = csr_r Mhartid"
definition r_mstatus :: "('a trap_st_scheme, uint64) kern" where "r_mstatus = csr_r Mstatus"
definition w_mstatus :: "uint64 \<Rightarrow> ('a trap_st_scheme, unit) kern" where "w_mstatus x = csr_w Mstatus x"
definition w_mepc :: "uint64 \<Rightarrow> ('a trap_st_scheme, unit) kern" where "w_mepc x = csr_w Mepc x"
definition r_sstatus :: "('a trap_st_scheme, uint64) kern" where "r_sstatus = csr_r Sstatus"
definition w_sstatus :: "uint64 \<Rightarrow> ('a trap_st_scheme, unit) kern" where "w_sstatus x = csr_w Sstatus x"
definition r_sie :: "('a trap_st_scheme, uint64) kern" where "r_sie = csr_r Sie"
definition w_sie :: "uint64 \<Rightarrow> ('a trap_st_scheme, unit) kern" where "w_sie x = csr_w Sie x"
definition r_mie :: "('a trap_st_scheme, uint64) kern" where "r_mie = csr_r Mie"
definition w_mie :: "uint64 \<Rightarrow> ('a trap_st_scheme, unit) kern" where "w_mie x = csr_w Mie x"
definition r_sepc :: "('a trap_st_scheme, uint64) kern" where "r_sepc = csr_r Sepc"
definition w_sepc :: "uint64 \<Rightarrow> ('a trap_st_scheme, unit) kern" where "w_sepc x = csr_w Sepc x"
definition w_medeleg :: "uint64 \<Rightarrow> ('a trap_st_scheme, unit) kern" where "w_medeleg x = csr_w Medeleg x"
definition w_mideleg :: "uint64 \<Rightarrow> ('a trap_st_scheme, unit) kern" where "w_mideleg x = csr_w Mideleg x"
definition w_stvec :: "uint64 \<Rightarrow> ('a trap_st_scheme, unit) kern" where "w_stvec x = csr_w Stvec x"
definition w_stimecmp :: "uint64 \<Rightarrow> ('a trap_st_scheme, unit) kern" where "w_stimecmp x = csr_w Stimecmp x"
definition r_menvcfg :: "('a trap_st_scheme, uint64) kern" where "r_menvcfg = csr_r Menvcfg"
definition w_menvcfg :: "uint64 \<Rightarrow> ('a trap_st_scheme, unit) kern" where "w_menvcfg x = csr_w Menvcfg x"
definition w_pmpcfg0 :: "uint64 \<Rightarrow> ('a trap_st_scheme, unit) kern" where "w_pmpcfg0 x = csr_w Pmpcfg0 x"
definition w_pmpaddr0 :: "uint64 \<Rightarrow> ('a trap_st_scheme, unit) kern" where "w_pmpaddr0 x = csr_w Pmpaddr0 x"
definition r_satp :: "('a trap_st_scheme, uint64) kern" where "r_satp = csr_r Satp"
definition w_satp :: "uint64 \<Rightarrow> ('a trap_st_scheme, unit) kern" where "w_satp x = csr_w Satp x"
definition r_scause :: "('a trap_st_scheme, uint64) kern" where "r_scause = csr_r Scause"
definition r_stval :: "('a trap_st_scheme, uint64) kern" where "r_stval = csr_r Stval"
definition r_mcounteren :: "('a trap_st_scheme, uint64) kern" where "r_mcounteren = csr_r Mcounteren"
definition w_mcounteren :: "uint64 \<Rightarrow> ('a trap_st_scheme, unit) kern" where "w_mcounteren x = csr_w Mcounteren x"
definition r_time :: "('a trap_st_scheme, uint64) kern" where "r_time = csr_r Time"
definition r_tp :: "('a trap_st_scheme, uint64) kern" where "r_tp = gets tp_reg"
definition w_tp :: "uint64 \<Rightarrow> ('a trap_st_scheme, unit) kern" where "w_tp x = modify (\<lambda>s. s\<lparr>tp_reg := x\<rparr>)"

lemmas csr_access = csr_r_def csr_w_def r_mhartid_def r_mstatus_def w_mstatus_def w_mepc_def r_sstatus_def w_sstatus_def r_sie_def w_sie_def r_mie_def w_mie_def
  r_sepc_def w_sepc_def w_medeleg_def w_mideleg_def w_stvec_def w_stimecmp_def r_menvcfg_def w_menvcfg_def w_pmpcfg0_def w_pmpaddr0_def r_satp_def w_satp_def
  r_scause_def r_stval_def r_mcounteren_def w_mcounteren_def r_time_def r_tp_def w_tp_def

definition MSTATUS_MPP_MASK :: uint64 where "MSTATUS_MPP_MASK = push_bit 11 3"
definition MSTATUS_MPP_S :: uint64 where "MSTATUS_MPP_S = push_bit 11 1"
definition SSTATUS_SPP :: uint64 where "SSTATUS_SPP = push_bit 8 1"
definition SSTATUS_SPIE :: uint64 where "SSTATUS_SPIE = push_bit 5 1"
definition SSTATUS_SIE :: uint64 where "SSTATUS_SIE = push_bit 1 1"
definition SIE_SEIE :: uint64 where "SIE_SEIE = push_bit 9 1"
definition SIE_STIE :: uint64 where "SIE_STIE = push_bit 5 1"
definition SIE_SSIE :: uint64 where "SIE_SSIE = push_bit 1 1"
definition MIE_STIE :: uint64 where "MIE_STIE = push_bit 5 1"
definition SATP_SV39 :: uint64 where "SATP_SV39 = push_bit 60 8"

definition MAKE_SATP :: "uint64 \<Rightarrow> uint64" where
  "MAKE_SATP pagetable = SATP_SV39 OR drop_bit 12 pagetable"

definition intr_on :: "('a trap_st_scheme, unit) kern" where
  "intr_on = kdo r_sstatus (\<lambda>x. w_sstatus (x OR SSTATUS_SIE))"

definition intr_off :: "('a trap_st_scheme, unit) kern" where
  "intr_off = kdo r_sstatus (\<lambda>x. w_sstatus (x AND NOT SSTATUS_SIE))"

definition intr_get :: "('a trap_st_scheme, bool) kern" where
  "intr_get = kdo r_sstatus (\<lambda>x. ret (x AND SSTATUS_SIE \<noteq> 0))"

text \<open>The number of this hart, an \<^verbatim>\<open>int\<close>.\<close>

definition cpuid :: "('a trap_st_scheme, int) kern" where
  "cpuid = kdo r_tp (\<lambda>x. ret (sint (ucast x :: uint)))"

definition kvminithart :: "('a trap_st_scheme, unit) kern" where
  "kvminithart = kdo (gets kernel_pagetable) (\<lambda>pt. w_satp (MAKE_SATP pt))"

section \<open>The interrupt controller\<close>

definition UART0_IRQ :: int where "UART0_IRQ = 10"
definition VIRTIO0_IRQ :: int where "VIRTIO0_IRQ = 1"
definition PLIC_SENABLE :: "int \<Rightarrow> uint64" where "PLIC_SENABLE hart = PLIC + 0x2080 + word_of_int hart * 0x100"
definition PLIC_SPRIORITY :: "int \<Rightarrow> uint64" where "PLIC_SPRIORITY hart = PLIC + 0x201000 + word_of_int hart * 0x2000"
definition PLIC_SCLAIM :: "int \<Rightarrow> uint64" where "PLIC_SCLAIM hart = PLIC + 0x201004 + word_of_int hart * 0x2000"

definition plic_store :: "uint64 \<Rightarrow> uint \<Rightarrow> ('a trap_st_scheme, unit) kern" where
  "plic_store a v = modify (\<lambda>s. s\<lparr>plic := (plic s)(a := v)\<rparr>)"

definition plicinit :: "('a trap_st_scheme, unit) kern" where
  "plicinit =
     kdo (plic_store (PLIC + word_of_int (UART0_IRQ * 4)) 1) (\<lambda>_.
     plic_store (PLIC + word_of_int (VIRTIO0_IRQ * 4)) 1)"

definition plicinithart :: "('a trap_st_scheme, unit) kern" where
  "plicinithart =
     kdo cpuid (\<lambda>hart.
     kdo (plic_store (PLIC_SENABLE hart) (push_bit (nat UART0_IRQ) 1 OR push_bit (nat VIRTIO0_IRQ) 1)) (\<lambda>_.
     plic_store (PLIC_SPRIORITY hart) 0))"

definition plic_claim :: "('a trap_st_scheme, int) kern" where
  "plic_claim = kdo cpuid (\<lambda>hart. gets (\<lambda>s. sint (plic s (PLIC_SCLAIM hart))))"

definition plic_complete :: "int \<Rightarrow> ('a trap_st_scheme, unit) kern" where
  "plic_complete irq = kdo cpuid (\<lambda>hart. plic_store (PLIC_SCLAIM hart) (word_of_int irq))"

section \<open>Traps\<close>

definition trapinithart :: "('a trap_st_scheme, unit) kern" where
  "trapinithart = kdo (gets sym_kernelvec) w_stvec"

definition clockintr :: "('a trap_st_scheme, unit) kern" where
  "clockintr =
     kdo cpuid (\<lambda>id.
     kdo (kwhen (id = 0)
            (kdo (acquire Tickslock) (\<lambda>_.
             kdo (modify (\<lambda>s. s\<lparr>ticks := ticks s + 1\<rparr>)) (\<lambda>_.
             kdo (wakeup Chan_ticks) (\<lambda>_.
             release Tickslock))))) (\<lambda>_.
     kdo r_time (\<lambda>t. w_stimecmp (t + 1000000))))"

definition devintr :: "regs_fun \<Rightarrow> ('a trap_st_scheme, int) kern" where
  "devintr dev =
     kdo r_scause (\<lambda>scause.
       if scause = 0x8000000000000009 then
         kdo plic_claim (\<lambda>irq.
         kdo (if irq = UART0_IRQ then uartintr
              else if irq = VIRTIO0_IRQ then virtio_disk_intr dev
              else kwhen (irq \<noteq> 0) (kdo (printf ''unexpected interrupt irq=%d\<newline>'' [Arg_int (word_of_int irq)]) (\<lambda>_. ret ()))) (\<lambda>_.
         kdo (kwhen (irq \<noteq> 0) (plic_complete irq)) (\<lambda>_.
         ret 1)))
       else if scause = 0x8000000000000005 then kdo clockintr (\<lambda>_. ret 2)
       else ret 0)"

text \<open>
  \<^verbatim>\<open>usertrapret\<close> ends with a call of \<^verbatim>\<open>userret\<close>, which does not come back; it gives the address called and its argument.
\<close>

definition usertrapret :: "('a trap_st_scheme, uint64 \<times> uint64) kern" where
  "usertrapret =
     kdo curproc (\<lambda>p.
     kdo intr_off (\<lambda>_.
     kdo (gets (\<lambda>s. TRAMPOLINE + (sym_uservec s - sym_trampoline s))) (\<lambda>trampoline_uservec.
     kdo (w_stvec trampoline_uservec) (\<lambda>_.
     kdo r_satp (\<lambda>satp.
     kdo (tf_set p TF_KERNEL_SATP satp) (\<lambda>_.
     kdo (gets (\<lambda>s. p_kstack (proc s p) + 4096)) (\<lambda>sp.
     kdo (tf_set p TF_KERNEL_SP sp) (\<lambda>_.
     kdo (gets sym_usertrap) (\<lambda>ut.
     kdo (tf_set p TF_KERNEL_TRAP ut) (\<lambda>_.
     kdo r_tp (\<lambda>tp.
     kdo (tf_set p TF_KERNEL_HARTID tp) (\<lambda>_.
     kdo r_sstatus (\<lambda>x.
     kdo (w_sstatus ((x AND NOT SSTATUS_SPP) OR SSTATUS_SPIE)) (\<lambda>_.
     kdo (tf_get p TF_EPC) (\<lambda>epc.
     kdo (w_sepc epc) (\<lambda>_.
     kdo (gets (\<lambda>s. MAKE_SATP (p_pagetable (proc s p)))) (\<lambda>satp.
     kdo (gets (\<lambda>s. TRAMPOLINE + (sym_userret s - sym_trampoline s))) (\<lambda>trampoline_userret.
     ret (trampoline_userret, satp)))))))))))))))))))"

text \<open>The end of \<^verbatim>\<open>usertrap\<close>, after the trap has been dealt with; \<open>usertrap_resume\<close> is what follows its \<^verbatim>\<open>yield\<close>.\<close>

definition usertrap_end :: "nat \<Rightarrow> int \<Rightarrow> ('a trap_st_scheme, uint64 \<times> uint64) kern" where
  "usertrap_end p which_dev =
     kdo (killed p) (\<lambda>k.
       if k then exit (-1)
       else if which_dev = 2 then yield
       else usertrapret)"

definition usertrap_resume :: "('a trap_st_scheme, uint64 \<times> uint64) kern" where
  "usertrap_resume = kdo yield_resume (\<lambda>_. usertrapret)"

definition usertrap :: "regs_fun \<Rightarrow> ('a trap_st_scheme, uint64 \<times> uint64) kern" where
  "usertrap dev =
     kdo r_sstatus (\<lambda>x.
       if x AND SSTATUS_SPP \<noteq> 0 then panic ''usertrap: not from user mode''
       else
         kdo (gets sym_kernelvec) (\<lambda>kernelvec.
         kdo (w_stvec kernelvec) (\<lambda>_.
         kdo curproc (\<lambda>p.
         kdo r_sepc (\<lambda>sepc.
         kdo (tf_set p TF_EPC sepc) (\<lambda>_.
         kdo r_scause (\<lambda>scause.
           if scause = 8 then
             kdo (killed p) (\<lambda>k.
             kdo (if k then exit (-1) else ret ()) (\<lambda>_.
             kdo (tf_get p TF_EPC) (\<lambda>epc.
             kdo (tf_set p TF_EPC (epc + 4)) (\<lambda>_.
             kdo intr_on (\<lambda>_.
             kdo syscall (\<lambda>_.
             usertrap_end p 0))))))
           else
             kdo (devintr dev) (\<lambda>which_dev.
               if which_dev \<noteq> 0 then usertrap_end p which_dev
               else
                 kdo r_scause (\<lambda>scause.
                 kdo (gets (\<lambda>s. p_pid (proc s p))) (\<lambda>pid.
                 kdo (printf ''usertrap(): unexpected scause 0x%lx pid=%d\<newline>'' [Arg_long scause, Arg_int (word_of_int pid)]) (\<lambda>_.
                 kdo r_sepc (\<lambda>sepc.
                 kdo r_stval (\<lambda>stval.
                 kdo (printf ''            sepc=0x%lx stval=0x%lx\<newline>'' [Arg_long sepc, Arg_long stval]) (\<lambda>_.
                 kdo (setkilled p) (\<lambda>_.
                 usertrap_end p 0)))))))))))))))"

text \<open>The end of \<^verbatim>\<open>kerneltrap\<close>, and what follows its \<^verbatim>\<open>yield\<close>.\<close>

definition kerneltrap_end :: "uint64 \<Rightarrow> uint64 \<Rightarrow> ('a trap_st_scheme, unit) kern" where
  "kerneltrap_end sepc sstatus = kdo (w_sepc sepc) (\<lambda>_. w_sstatus sstatus)"

definition kerneltrap_resume :: "uint64 \<Rightarrow> uint64 \<Rightarrow> ('a trap_st_scheme, unit) kern" where
  "kerneltrap_resume sepc sstatus = kdo yield_resume (\<lambda>_. kerneltrap_end sepc sstatus)"

definition kerneltrap :: "regs_fun \<Rightarrow> ('a trap_st_scheme, unit) kern" where
  "kerneltrap dev =
     kdo r_sepc (\<lambda>sepc.
     kdo r_sstatus (\<lambda>sstatus.
     kdo r_scause (\<lambda>scause.
       if sstatus AND SSTATUS_SPP = 0 then panic ''kerneltrap: not from supervisor mode''
       else
         kdo intr_get (\<lambda>on.
           if on then panic ''kerneltrap: interrupts enabled''
           else
             kdo (devintr dev) (\<lambda>which_dev.
               if which_dev = 0 then
                 kdo r_sepc (\<lambda>epc.
                 kdo r_stval (\<lambda>stval.
                 kdo (printf ''scause=0x%lx sepc=0x%lx stval=0x%lx\<newline>'' [Arg_long scause, Arg_long epc, Arg_long stval]) (\<lambda>_.
                 panic ''kerneltrap'')))
               else
                 kdo myproc (\<lambda>p.
                   if which_dev = 2 \<and> p \<noteq> None then yield
                   else kerneltrap_end sepc sstatus))))))"

section \<open>The first return of a process\<close>

definition forkret :: "('a trap_st_scheme, uint64 \<times> uint64) kern" where
  "forkret =
     kdo curproc (\<lambda>p.
     kdo (release (Proc_lock p)) (\<lambda>_.
     kdo (gets forkret_first) (\<lambda>first.
     kdo (kwhen first
            (kdo (fsinit ROOTDEV) (\<lambda>_.
             modify (\<lambda>s. s\<lparr>forkret_first := False\<rparr>)))) (\<lambda>_.
     usertrapret))))"

section \<open>Starting up\<close>

definition timerinit :: "('a trap_st_scheme, unit) kern" where
  "timerinit =
     kdo r_mie (\<lambda>x. kdo (w_mie (x OR MIE_STIE)) (\<lambda>_.
     kdo r_menvcfg (\<lambda>x. kdo (w_menvcfg (x OR push_bit 63 1)) (\<lambda>_.
     kdo r_mcounteren (\<lambda>x. kdo (w_mcounteren (x OR 2)) (\<lambda>_.
     kdo r_time (\<lambda>t. w_stimecmp (t + 1000000))))))))"

text \<open>\<^verbatim>\<open>start\<close>, up to its \<^verbatim>\<open>mret\<close>, which goes to the address in \<^verbatim>\<open>mepc\<close>; it gives that address.\<close>

definition start :: "('a trap_st_scheme, uint64) kern" where
  "start =
     kdo r_mstatus (\<lambda>x.
     kdo (w_mstatus ((x AND NOT MSTATUS_MPP_MASK) OR MSTATUS_MPP_S)) (\<lambda>_.
     kdo (gets sym_main) (\<lambda>main.
     kdo (w_mepc main) (\<lambda>_.
     kdo (w_satp 0) (\<lambda>_.
     kdo (w_medeleg 0xffff) (\<lambda>_.
     kdo (w_mideleg 0xffff) (\<lambda>_.
     kdo r_sie (\<lambda>x.
     kdo (w_sie (x OR SIE_SEIE OR SIE_STIE OR SIE_SSIE)) (\<lambda>_.
     kdo (w_pmpaddr0 0x3fffffffffffff) (\<lambda>_.
     kdo (w_pmpcfg0 0xf) (\<lambda>_.
     kdo timerinit (\<lambda>_.
     kdo r_mhartid (\<lambda>id.
     kdo (w_tp (scast (ucast id :: uint))) (\<lambda>_.
     csr_r Mepc))))))))))))))"

text \<open>
  \<^verbatim>\<open>main\<close>, up to its call of \<^verbatim>\<open>scheduler\<close>, on the hart that boots and on the others once \<^verbatim>\<open>started\<close> is set.  The functions that only
  initialise spinlocks (\<^verbatim>\<open>trapinit\<close>, \<^verbatim>\<open>fileinit\<close>) have nothing to do in this view of locks.
\<close>

definition main_boot :: "regs_fun \<Rightarrow> ('a trap_st_scheme, unit) kern" where
  "main_boot dev =
     kdo consoleinit (\<lambda>_.
     kdo printfinit (\<lambda>_.
     kdo (printf ''\<newline>'' []) (\<lambda>_.
     kdo (printf ''xv6 kernel is booting\<newline>'' []) (\<lambda>_.
     kdo (printf ''\<newline>'' []) (\<lambda>_.
     kdo kinit (\<lambda>_.
     kdo (gets (\<lambda>s. (sym_etext s, sym_trampoline s))) (\<lambda>(etext, trampoline).
     kdo (kvminit etext trampoline) (\<lambda>_.
     kdo kvminithart (\<lambda>_.
     kdo procinit (\<lambda>_.
     kdo trapinithart (\<lambda>_.
     kdo plicinit (\<lambda>_.
     kdo plicinithart (\<lambda>_.
     kdo binit (\<lambda>_.
     kdo iinit (\<lambda>_.
     kdo (virtio_disk_init dev) (\<lambda>_.
     kdo userinit (\<lambda>_.
     modify (\<lambda>s. s\<lparr>started := True\<rparr>))))))))))))))))))"

definition main_other :: "('a trap_st_scheme, unit) kern" where
  "main_other =
     kdo cpuid (\<lambda>id.
     kdo (printf ''hart %d starting\<newline>'' [Arg_int (word_of_int id)]) (\<lambda>_.
     kdo kvminithart (\<lambda>_.
     kdo trapinithart (\<lambda>_.
     plicinithart))))"

section \<open>A timer interrupt\<close>

lemma yield_at:
  assumes "cpu_proc s = Some p" and "held s = {}"
  shows "yield s = Switch (upd_proc p (\<lambda>q. q\<lparr>p_state := RUNNABLE\<rparr>) (s\<lparr>held := {Proc_lock p}\<rparr>))"
  using assms by (simp add: yield_def sched_def kern_simps)

definition ticked :: "'a trap_st_scheme \<Rightarrow> 'a trap_st_scheme" where
  "ticked s =
     (let t = (if sint (ucast (tp_reg s) :: uint) = 0 then s\<lparr>ticks := ticks s + 1, proc := wake Chan_ticks (cpu_proc s) (proc s)\<rparr> else s)
      in t\<lparr>csr := (csr t)(Stimecmp := csr t Time + 1000000)\<rparr>)"

lemma clockintr_at: "held s = {} \<Longrightarrow> clockintr s = Ok () (ticked s)"
  by (simp add: clockintr_def cpuid_def csr_access kern_simps ticked_def Let_def no_proc_locks_def)

lemma ticked_sel [simp]:
  "held (ticked s) = held s" "cpu_proc (ticked s) = cpu_proc s" "pmem (ticked s) = pmem s" "cpu_proc s = Some p \<Longrightarrow> proc (ticked s) p = proc s p"
  by (simp_all add: ticked_def Let_def)

text \<open>The pages and registers that \<^verbatim>\<open>usertrapret\<close> leaves for \<^verbatim>\<open>userret\<close>.\<close>

lemma usertrapret_at:
  assumes "cpu_proc s = Some p" and "unat (p_trapframe (proc s p)) = tf"
  shows "usertrapret s = Ok (TRAMPOLINE + (sym_userret s - sym_trampoline s), MAKE_SATP (p_pagetable (proc s p)))
    (s\<lparr>pmem := put64 (put64 (put64 (put64 (pmem s) tf (csr s Satp)) (tf + 8) (p_kstack (proc s p) + 4096)) (tf + 16) (sym_usertrap s)) (tf + 32) (tp_reg s),
       csr := (csr s)(Sstatus := ((csr s Sstatus AND NOT SSTATUS_SIE) AND NOT SSTATUS_SPP) OR SSTATUS_SPIE,
         Stvec := TRAMPOLINE + (sym_uservec s - sym_trampoline s), Sepc := get64 (pmem s) (tf + 24))\<rparr>)"
proof -
  have "get64 (put64 (put64 (put64 (put64 m tf a) (tf + 8) b) (tf + 16) c) (tf + 32) d) (tf + 24) = get64 m (tf + 24)" for m a b c d
    by (simp add: get64_put64_apart apart_def)
  then show ?thesis using assms
    by (simp add: usertrapret_def kern_simps csr_access intr_off_def tf_set_def tf_get_def TF_KERNEL_SATP_def TF_KERNEL_SP_def TF_KERNEL_TRAP_def
        TF_KERNEL_HARTID_def TF_EPC_def fun_upd_twist)
qed

lemma usertrap_timer:
  assumes "cpu_proc s = Some p" and "held s = {}" and "csr s Sstatus AND SSTATUS_SPP = 0" and "csr s Scause = 0x8000000000000005"
    and "\<not> p_killed (proc s p)" and "unat (p_trapframe (proc s p)) = tf"
  shows "usertrap dev s = Switch (upd_proc p (\<lambda>q. q\<lparr>p_state := RUNNABLE\<rparr>)
    ((ticked (s\<lparr>csr := (csr s)(Stvec := sym_kernelvec s), pmem := put64 (pmem s) (tf + 24) (csr s Sepc)\<rparr>))\<lparr>held := {Proc_lock p}\<rparr>))"
proof -
  let ?t = "s\<lparr>csr := (csr s)(Stvec := sym_kernelvec s), pmem := put64 (pmem s) (tf + 24) (csr s Sepc)\<rparr>"
  have "devintr dev ?t = Ok 2 (ticked ?t)" using assms by (simp add: devintr_def csr_access kern_simps kdo_Ok [where m = clockintr, OF clockintr_at])
  moreover have "usertrap_end p 2 (ticked ?t) = Switch (upd_proc p (\<lambda>q. q\<lparr>p_state := RUNNABLE\<rparr>) ((ticked ?t)\<lparr>held := {Proc_lock p}\<rparr>))"
    using assms by (simp add: usertrap_end_def kern_simps yield_at)
  ultimately show ?thesis using assms
    by (simp add: usertrap_def csr_access kern_simps tf_set_def TF_EPC_def kdo_Ok [where m = "devintr dev"])
qed

lemma tf_off_bounds: "40 \<le> tf_off r" "tf_off r + 8 \<le> 288"
  by (cases r; simp)+


text \<open>A program interrupted by the timer, with its trapframe at physical address \<open>0x80200000\<close>.\<close>

definition ex_mmu :: mmu where
  "ex_mmu satp va = (if TRAPFRAME \<le> va \<and> va < TRAPFRAME + 4096 then 0x80200000 + unat (va - TRAPFRAME) else unat va)"

definition ex_user :: mach where
  "ex_user = \<lparr>m_reg = \<lambda>r. of_nat (tf_off r), m_csr = (\<lambda>_. 0)(Satp := MAKE_SATP 0x80300000), m_mem = \<lambda>_. 0, m_pc = 0, m_user = True\<rparr>"

definition ex_trap :: trap_st where
  "ex_trap = (virtio_st.extend ex_vio0 \<lparr>csr = (\<lambda>_. 0)(Sepc := 0x1234, Scause := 0x8000000000000005), tp_reg = 0, plic = \<lambda>_. 0, started = True,
       sym_kernelvec = 0x80005000, sym_uservec = 0x80007000, sym_userret = 0x80007090, sym_usertrap = 0x80002000, sym_main = 0x80000300, sym_etext = 0x80008000\<rparr>)
     \<lparr>pmem := m_mem (exec_code ex_mmu uservec ex_user), proc := \<lambda>_. zero_proc\<lparr>p_state := RUNNING, p_trapframe := 0x80200000, p_pagetable := 0x80300000\<rparr>\<rparr>"

lemma ex_mmu_mapped: "mapped_at ex_mmu satp TRAPFRAME 0x80200000 4096"
  unfolding mapped_at_def
proof (intro allI impI)
  fix k :: nat assume k: "k < 4096"
  then have "unat (of_nat k :: uint64) = k" by (simp add: unsigned_of_nat take_bit_nat_eq_self)
  moreover from this k have "unat (TRAPFRAME + of_nat k) = unat TRAPFRAME + k" by (simp add: unat_word_ariths params)
  ultimately show "ex_mmu satp (TRAPFRAME + of_nat k) = 0x80200000 + k" using k by (simp add: ex_mmu_def word_le_nat_alt word_less_nat_alt params)
qed


end
