(* ===== verification/Spec2Isabelle.thy ===== *)
theory Spec2Isabelle
  imports Shell Grep Umalloc Ptable Spinlock Fspath Itable Pipeq Fsread Trap
begin

text \<open>
  A verification development for xv6, a small Unix-like operating system for RISC-V multiprocessors (C and a
  little assembly).  File names are relative to \<^verbatim>\<open>src/\<close>.

  \<^bold>\<open>The model.\<close>  Kernel code runs in a monad (\<open>Kprelude\<close>): an operation takes the kernel's state and returns, panics with
  a message, switches to the scheduler, or does not end.  Every call that changes state, every early return and
  every panic of the source is a branch of the definitions.  The state is one record that the theories extend in
  the order of the layers: locks, processes and the CPU's current process (\<open>Ksync\<close>), physical memory and the free list
  (\<open>Kalloc\<close>), buffers and disk (\<open>Bio\<close>), the log (\<open>Log\<close>), UART and console (\<open>Uart\<close>), super block and inode table (\<open>Fs\<close>),
  pipes (\<open>Pipe\<close>), open files (\<open>File\<close>), what process creation needs (\<open>Proc\<close>), the queue shared with the disk (\<open>Virtio\<close>),
  and the control and status registers (\<open>Trap\<close>).  Memory and disk blocks are bytes; the
  structures in them (page-table entries, inodes, directory entries, the log header) are read and written as
  little-endian words (\<open>Kbytes\<close>).  C integers keep their width where it matters: \<^verbatim>\<open>uint\<close> and \<^verbatim>\<open>uint64\<close> are words, \<^verbatim>\<open>int\<close> is an
  integer where the code keeps it in range.

  Spin locks are, for the code that uses them, the set of locks the CPU holds; \<open>Spinlock\<close> has the CPUs, interrupt
  nesting and the atomic exchange of \<^verbatim>\<open>kernel/spinlock.c\<close> and proves that they implement this.  An operation that waits
  (\<^verbatim>\<open>sleep\<close>, a sleep-lock that is taken) ends in the outcome \<open>Switch\<close>; what runs after waking up is a definition of its own
  (\<open>..._loop\<close>, \<open>..._resume\<close>, \<open>..._back\<close>).  Loops are recursions over the data, \<open>for_each\<close> and \<open>scan\<close>, or have fuel: one unit for each
  page, block, byte or digit the code can go through, computed from the arguments, and a theorem that the operation
  returns shows that it is enough.

  \<^bold>\<open>The theories.\<close>
  \<^item> \<open>Kprelude\<close>, \<open>Kbytes\<close>, \<open>Kstring\<close>: the monad and its rules; loads and stores; \<^verbatim>\<open>kernel/string.c\<close>.
  \<^item> \<open>Ksync\<close>: process states, \<^verbatim>\<open>sleep\<close>, \<^verbatim>\<open>wakeup\<close>, \<^verbatim>\<open>sched\<close>, \<^verbatim>\<open>kill\<close> of \<^verbatim>\<open>kernel/proc.c\<close> and \<^verbatim>\<open>kernel/sleeplock.c\<close>.
  \<^item> \<open>Spinlock\<close>: \<^verbatim>\<open>kernel/spinlock.c\<close>; mutual exclusion in every interleaving, refinement.
  \<^item> \<open>Kalloc\<close>: \<^verbatim>\<open>kernel/kalloc.c\<close>; every page is free or has one owner.
  \<^item> \<open>Bio\<close>, \<open>Bview\<close>: \<^verbatim>\<open>kernel/bio.c\<close>; the contents of the disk as a reader sees them, least-recently-used recycling.
  \<^item> \<open>Log\<close>: \<^verbatim>\<open>kernel/log.c\<close>; crash atomicity, reservation of log space.
  \<^item> \<open>Vm\<close>, \<open>Ucopy\<close>, \<open>Ptable\<close>: \<^verbatim>\<open>kernel/vm.c\<close>; what copying between user and kernel memory moves; page tables stay trees of owned
    pages, and mapping changes the entries asked for and no others.
  \<^item> \<open>Ring\<close>, \<open>Uart\<close>, \<open>Console\<close>: \<^verbatim>\<open>kernel/uart.c\<close>, \<^verbatim>\<open>kernel/printf.c\<close>, \<^verbatim>\<open>kernel/console.c\<close>; a FIFO transmitter, exact output of
    \<^verbatim>\<open>printf\<close>, a line editor.
  \<^item> \<open>Fs\<close>, \<open>Fsblock\<close>, \<open>Fsfile\<close>, \<open>Fsread\<close>, \<open>Fspath\<close>, \<open>Refs\<close>, \<open>Itable\<close>: \<^verbatim>\<open>kernel/fs.c\<close>; the block bitmap, inodes, what reading and writing
    a file does and that a write is atomic under a crash, path elements, reference counts.
  \<^item> \<open>Pipe\<close>, \<open>Pipeq\<close>: \<^verbatim>\<open>kernel/pipe.c\<close>; a pipe is a bounded queue.
  \<^item> \<open>File\<close>, \<open>Proc\<close>, \<open>Exec\<close>, \<open>Sysfile\<close>, \<open>Syscall\<close>: \<^verbatim>\<open>kernel/file.c\<close>, the rest of \<^verbatim>\<open>kernel/proc.c\<close>, \<^verbatim>\<open>kernel/exec.c\<close> and the system calls.
  \<^item> \<open>Virtio\<close>: \<^verbatim>\<open>kernel/virtio_disk.c\<close> beside a model of the device; every interleaving of requests, device and interrupts
    implements the disk of the layers above, keeps the queue consistent and completes each request.
  \<^item> \<open>Asm\<close>, \<open>Trap\<close>: \<^verbatim>\<open>kernel/trampoline.S\<close>, \<^verbatim>\<open>kernel/kernelvec.S\<close>, \<^verbatim>\<open>kernel/swtch.S\<close> and \<^verbatim>\<open>kernel/entry.S\<close> as instructions of a machine,
    \<^verbatim>\<open>kernel/trap.c\<close>, \<^verbatim>\<open>kernel/plic.c\<close>, \<^verbatim>\<open>kernel/start.c\<close> and \<^verbatim>\<open>kernel/main.c\<close>; a context switch returns, a timer interrupt is invisible to
    the program it interrupts.

  \<^bold>\<open>User space.\<close>  The user-level theories stand beside the kernel's and do not share its state.  Characters are HOL's, an array is a list
  of characters, and a C string is what stands before the first NUL.  What arrives from a descriptor is an argument: the
  characters that the calls of \<^verbatim>\<open>read\<close> deliver, and, for \<^verbatim>\<open>grep\<close>, how they are cut into pieces.
  \<^item> \<open>Fcntl\<close>: the modes of \<^verbatim>\<open>kernel/fcntl.h\<close>, for the kernel and the shell.
  \<^item> \<open>Ulib\<close>: the string and memory functions and \<^verbatim>\<open>gets\<close> of \<^verbatim>\<open>user/ulib.c\<close>.
  \<^item> \<open>Sh\<close>, \<open>Shprint\<close>: the parser of \<^verbatim>\<open>user/sh.c\<close>, as code on the line and a position in it.  Its recursion has fuel, four units
    for each character, and it never runs out.  The words of a command are words of the line; every command can be written and is read back.
  \<^item> \<open>Shrun\<close>, \<open>Shell\<close>: \<^verbatim>\<open>runcmd\<close> and \<^verbatim>\<open>main\<close> of \<^verbatim>\<open>user/sh.c\<close> as trees of system calls, run against a table of descriptors.  The shell starts
    exactly the programs of its input, with exactly the descriptors that the redirections and pipes say.
  \<^item> \<open>Grep\<close>: \<^verbatim>\<open>user/grep.c\<close>; the matcher decides the language of the pattern, and the lines that match are written, however the input arrives.
  \<^item> \<open>Umalloc\<close>: \<^verbatim>\<open>user/umalloc.c\<close> on bytes.  Its two loops are partial functions, and both are shown to return: blocks in use stay apart and
    unchanged in every run of a program that keeps to its blocks.

  \<^bold>\<open>Not modelled.\<close>  \<^verbatim>\<open>kernel/ramdisk.c\<close> is not part of the build and refers to names that do not exist.  \<^verbatim>\<open>mkfs/mkfs.c\<close> runs on the build host.  Of
  \<^verbatim>\<open>user/ulib.c\<close>, \<^verbatim>\<open>stat\<close> only calls the kernel; \<^verbatim>\<open>user/printf.c\<close>, the generated stubs of the system calls, the first program \<^verbatim>\<open>user/initcode.S\<close>, the other
  small programs and the test programs are left out: they do little but make system calls.
\<close>

end
